(* ===== verification/Prelude.thy ===== *)
theory Prelude
  imports Main "HOL-Library.Word"
begin

text \<open>
  Shared vocabulary of the development.

  \<^item> \<open>fault\<close> and \<open>rbind\<close>: the ways a C++ operation of the reservation system can fail, as values,
    and sequencing of operations that may fail.
  \<^item> \<open>vec_get\<close>, \<open>vec_set\<close>, \<open>vec_resize\<close>: the \<open>std::vector\<close> accesses the sources use.  An
    \<open>operator[]\<close> outside the vector is undefined behaviour in C++; the model makes it the value
    \<open>Inl Bad_Index\<close>, so that its absence can be stated and proved.
  \<^item> \<open>grid_get\<close>, \<open>grid_set\<close>, \<open>grid_dims\<close>: the \<open>vector<vector<T>>\<close> accesses of the seat map.
  \<^item> \<open>show_nat\<close>, \<open>show_int\<close>: \<open>std::to_string\<close>.
  \<^item> generic lemmas on these, on lists and on machine words, collected for the simplifier.
\<close>

named_theorems vec_simps \<open>successful vector and grid accesses\<close>
named_theorems rbind_simps \<open>sequencing of fallible operations\<close>

section \<open>Faults and sequencing\<close>

datatype fault =
    Bad_Index            \<comment> \<open>operator[] outside a vector (undefined behaviour in C++)\<close>
  | Length_Error         \<comment> \<open>std::length_error from a negative size converted to size_t\<close>
  | Sql_Error string     \<comment> \<open>SQLite::Exception\<close>
  | Json_Error           \<comment> \<open>nlohmann::json parse_error or type_error\<close>
  | Buffer_Overrun       \<comment> \<open>strcpy_s into a buffer that is too small\<close>
  | Int_Overflow         \<comment> \<open>signed overflow (undefined behaviour in C++)\<close>
  | Gui_Error string     \<comment> \<open>std::exception thrown by the GUI wrapper\<close>
  | Thrown string        \<comment> \<open>a string literal thrown as it is\<close>

fun rbind :: "fault + 'a \<Rightarrow> ('a \<Rightarrow> fault + 'b) \<Rightarrow> fault + 'b" where
  "rbind (Inl e) f = Inl e"
| "rbind (Inr x) f = f x"

lemma rbind_eq_Inr [rbind_simps]:
  "rbind m f = Inr y \<longleftrightarrow> (\<exists>x. m = Inr x \<and> f x = Inr y)"
  by (cases m) auto

lemma rbind_eq_Inl [rbind_simps]:
  "rbind m f = Inl e \<longleftrightarrow> m = Inl e \<or> (\<exists>x. m = Inr x \<and> f x = Inl e)"
  by (cases m) auto

lemma rbind_assoc: "rbind (rbind m f) g = rbind m (\<lambda>x. rbind (f x) g)"
  by (cases m) auto

section \<open>Vectors\<close>

definition vec_get :: "'a list \<Rightarrow> int \<Rightarrow> fault + 'a" where
  "vec_get xs i = (if 0 \<le> i \<and> i < int (length xs) then Inr (xs ! nat i) else Inl Bad_Index)"

definition vec_set :: "'a list \<Rightarrow> int \<Rightarrow> 'a \<Rightarrow> fault + 'a list" where
  "vec_set xs i v = (if 0 \<le> i \<and> i < int (length xs) then Inr (xs[nat i := v]) else Inl Bad_Index)"

text \<open>\<open>xs.resize(n, v)\<close> with a signed \<open>n\<close>: a negative one becomes a huge \<open>size_t\<close> and throws.\<close>

definition vec_resize :: "'a list \<Rightarrow> int \<Rightarrow> 'a \<Rightarrow> fault + 'a list" where
  "vec_resize xs n v =
     (if n < 0 then Inl Length_Error
      else Inr (take (nat n) xs @ replicate (nat n - length xs) v))"

text \<open>\<open>std::vector<T>(n, v)\<close> with a signed \<open>n\<close>.\<close>

definition vec_make :: "int \<Rightarrow> 'a \<Rightarrow> fault + 'a list" where
  "vec_make n v = (if n < 0 then Inl Length_Error else Inr (replicate (nat n) v))"

lemma vec_get_ok [vec_simps]:
  "0 \<le> i \<Longrightarrow> i < int (length xs) \<Longrightarrow> vec_get xs i = Inr (xs ! nat i)"
  by (simp add: vec_get_def)

lemma vec_set_ok [vec_simps]:
  "0 \<le> i \<Longrightarrow> i < int (length xs) \<Longrightarrow> vec_set xs i v = Inr (xs[nat i := v])"
  by (simp add: vec_set_def)

lemma vec_resize_Nil [vec_simps]:
  "0 \<le> n \<Longrightarrow> vec_resize [] n v = Inr (replicate (nat n) v)"
  by (simp add: vec_resize_def)

lemma vec_resize_same [vec_simps]:
  "int (length xs) = n \<Longrightarrow> vec_resize xs n v = Inr xs"
  by (auto simp: vec_resize_def)

section \<open>Grids\<close>

definition grid_get :: "'a list list \<Rightarrow> int \<Rightarrow> int \<Rightarrow> fault + 'a" where
  "grid_get g r c = rbind (vec_get g r) (\<lambda>row. vec_get row c)"

definition grid_set :: "'a list list \<Rightarrow> int \<Rightarrow> int \<Rightarrow> 'a \<Rightarrow> fault + 'a list list" where
  "grid_set g r c v =
     rbind (vec_get g r) (\<lambda>row. rbind (vec_set row c v) (\<lambda>row'. vec_set g r row'))"

definition grid_dims :: "int \<Rightarrow> int \<Rightarrow> 'a list list \<Rightarrow> bool" where
  "grid_dims R C g \<longleftrightarrow> int (length g) = R \<and> list_all (\<lambda>row. int (length row) = C) g"

definition in_grid :: "int \<Rightarrow> int \<Rightarrow> int \<Rightarrow> int \<Rightarrow> bool" where
  "in_grid R C r c \<longleftrightarrow> 0 \<le> r \<and> r < R \<and> 0 \<le> c \<and> c < C"

abbreviation cell :: "'a list list \<Rightarrow> int \<Rightarrow> int \<Rightarrow> 'a" where
  "cell g r c \<equiv> g ! nat r ! nat c"

abbreviation put_cell :: "'a list list \<Rightarrow> int \<Rightarrow> int \<Rightarrow> 'a \<Rightarrow> 'a list list" where
  "put_cell g r c v \<equiv> g[nat r := (g ! nat r)[nat c := v]]"

lemma grid_dims_row:
  "grid_dims R C g \<Longrightarrow> 0 \<le> r \<Longrightarrow> r < R \<Longrightarrow> int (length (g ! nat r)) = C"
  by (auto simp: grid_dims_def list_all_length)

lemma grid_get_ok [vec_simps]:
  assumes "grid_dims R C g" and "in_grid R C r c"
  shows "grid_get g r c = Inr (cell g r c)"
  using assms grid_dims_row [OF assms(1), of r]
  by (simp add: grid_get_def in_grid_def grid_dims_def vec_simps)

lemma grid_set_ok [vec_simps]:
  assumes "grid_dims R C g" and "in_grid R C r c"
  shows "grid_set g r c v = Inr (put_cell g r c v)"
  using assms grid_dims_row [OF assms(1), of r]
  by (simp add: grid_set_def in_grid_def grid_dims_def vec_simps)

lemma grid_dims_put:
  assumes "grid_dims R C g"
  shows "grid_dims R C (put_cell g r c v)"
proof -
  have "int (length (put_cell g r c v ! i)) = C" if "i < length g" for i
    using assms that by (cases "nat r = i") (auto simp: grid_dims_def list_all_length)
  with assms show ?thesis
    by (simp add: grid_dims_def list_all_length)
qed

lemma cell_put:
  assumes "grid_dims R C g" and "in_grid R C r c" and "in_grid R C r' c'"
  shows "cell (put_cell g r c v) r' c' = (if r' = r \<and> c' = c then v else cell g r' c')"
proof -
  have len: "nat r < length g" "nat c < length (g ! nat r)"
    using assms(1,2) grid_dims_row [OF assms(1), of r] by (auto simp: grid_dims_def in_grid_def)
  have eqs: "nat r = nat r' \<longleftrightarrow> r' = r" "nat c = nat c' \<longleftrightarrow> c' = c"
    using assms(2,3) by (auto simp: in_grid_def)
  show ?thesis
    using len by (auto simp: nth_list_update eqs)
qed

lemma grid_eqI:
  assumes "grid_dims R C g" and "grid_dims R C h"
    and "\<And>r c. in_grid R C r c \<Longrightarrow> cell g r c = cell h r c"
  shows "g = h"
proof (rule nth_equalityI)
  show len: "length g = length h" using assms(1,2) by (simp add: grid_dims_def)
  fix i assume i: "i < length g"
  have li: "int (length (g ! i)) = C" "int (length (h ! i)) = C"
    using assms(1,2) i len by (auto simp: grid_dims_def list_all_length)
  show "g ! i = h ! i"
  proof (rule nth_equalityI)
    show "length (g ! i) = length (h ! i)" using li by simp
    fix j assume "j < length (g ! i)"
    with i li assms(1) have "in_grid R C (int i) (int j)"
      by (auto simp: in_grid_def grid_dims_def)
    from assms(3) [OF this] show "g ! i ! j = h ! i ! j" by simp
  qed
qed

lemma put_cell_same:
  assumes "grid_dims R C g" and "in_grid R C r c"
  shows "put_cell g r c (cell g r c) = g"
  using assms by (auto simp: grid_dims_def in_grid_def)

section \<open>Decimal numerals (\<open>std::to_string\<close>)\<close>

definition digit_char :: "nat \<Rightarrow> char" where
  "digit_char d = char_of (48 + d)"

fun show_nat :: "nat \<Rightarrow> string" where
  "show_nat n = (if n < 10 then [digit_char n] else show_nat (n div 10) @ [digit_char (n mod 10)])"

declare show_nat.simps [simp del]

definition show_int :: "int \<Rightarrow> string" where
  "show_int i = (if i < 0 then CHR ''-'' # show_nat (nat (- i)) else show_nat (nat i))"

definition digit_val :: "char \<Rightarrow> nat" where
  "digit_val c = of_char c - 48"

definition is_digit :: "char \<Rightarrow> bool" where
  "is_digit c \<longleftrightarrow> 48 \<le> (of_char c :: nat) \<and> (of_char c :: nat) \<le> 57"

definition read_nat :: "string \<Rightarrow> nat" where
  "read_nat = foldl (\<lambda>n c. 10 * n + digit_val c) 0"

lemma digit_char_val: "d < 10 \<Longrightarrow> digit_val (digit_char d) = d"
  by (simp add: digit_val_def digit_char_def)

lemma digit_char_digit: "d < 10 \<Longrightarrow> is_digit (digit_char d)"
  by (simp add: is_digit_def digit_char_def)

lemma show_nat_digits: "list_all is_digit (show_nat n)"
proof (induction n rule: show_nat.induct)
  case (1 n)
  then show ?case
    by (cases "n < 10") (simp_all add: show_nat.simps [of n] digit_char_digit)
qed

lemma show_nat_nonempty: "show_nat n \<noteq> []"
  by (simp add: show_nat.simps [of n])

lemma read_show_nat: "read_nat (show_nat n) = n"
proof (induction n rule: show_nat.induct)
  case (1 n)
  then show ?case
    by (cases "n < 10") (simp_all add: show_nat.simps [of n] read_nat_def digit_char_val)
qed

lemma show_nat_inj: "show_nat m = show_nat n \<longleftrightarrow> m = n"
  by (metis read_show_nat)

end
