(* ===== verification/Sql_Access.thy ===== *)
theory Sql_Access
  imports Prelude
begin

text \<open>
  The database access layer the reservation system is written against: the parts of SQLiteCpp
  (\<open>Ext/sqlitecpp/Statement.cpp\<close>, \<open>Transaction.cpp\<close>, \<open>Column.cpp\<close>, \<open>Database.cpp\<close>) that prepare a
  statement, bind its parameters, run it, read columns, and bracket statements in a transaction.

  The SQL engine itself is the parameter \<open>'db sqlite\<close>: executing a text, preparing a text (which
  gives the number of its parameters) and running a prepared text with bound values, which delivers
  rows and then either finishes or fails.  Operations thread the database state explicitly; every
  \<open>SQLite::Exception\<close> is a value \<open>Inl (Sql_Error message)\<close>.
\<close>

section \<open>Values, rows, the engine\<close>

datatype sql_value = SQL_Null | SQL_Int int | SQL_Text string

type_synonym sql_row = "(string \<times> sql_value) list"

record 'db sqlite =
  sq_exec :: "'db \<Rightarrow> string \<Rightarrow> fault option \<times> 'db"
  sq_prepare :: "'db \<Rightarrow> string \<Rightarrow> fault + nat"
  sq_run :: "'db \<Rightarrow> string \<Rightarrow> sql_value list \<Rightarrow> sql_row list \<times> fault option \<times> 'db"
  sq_text_int :: "string \<Rightarrow> int"

section \<open>Operations that thread the database and may throw\<close>

type_synonym ('a, 'db) db_op = "'db \<Rightarrow> (fault + 'a) \<times> 'db"

definition db_bind :: "('a, 'db) db_op \<Rightarrow> ('a \<Rightarrow> ('b, 'db) db_op) \<Rightarrow> ('b, 'db) db_op" where
  "db_bind m f db = (case m db of (Inl e, db') \<Rightarrow> (Inl e, db') | (Inr x, db') \<Rightarrow> f x db')"

definition db_return :: "'a \<Rightarrow> ('a, 'db) db_op" where
  "db_return x db = (Inr x, db)"

definition db_lift :: "fault + 'a \<Rightarrow> ('a, 'db) db_op" where
  "db_lift r db = (r, db)"

fun db_for :: "'x list \<Rightarrow> ('x \<Rightarrow> (unit, 'db) db_op) \<Rightarrow> (unit, 'db) db_op" where
  "db_for [] f = db_return ()"
| "db_for (x # xs) f = db_bind (f x) (\<lambda>_. db_for xs f)"

lemma db_bind_simps [simp]:
  "m db = (Inl e, db') \<Longrightarrow> db_bind m f db = (Inl e, db')"
  "m db = (Inr x, db') \<Longrightarrow> db_bind m f db = f x db'"
  by (simp_all add: db_bind_def)

lemma db_return_bind [simp]: "db_bind (db_return x) f = f x"
  by (rule ext) (simp add: db_return_def)

lemma db_lift_bind [simp]:
  "db_bind (db_lift (Inr x)) f = f x" "db_bind (db_lift (Inl e)) f db = (Inl e, db)"
  by (auto simp: db_lift_def fun_eq_iff)

section \<open>Statements\<close>

record statement =
  mQuery :: string
  aVar :: "sql_value list"

text \<open>The constructor prepares the text; all parameters start as NULL.\<close>

definition Statement_ctor :: "'db sqlite \<Rightarrow> string \<Rightarrow> (statement, 'db) db_op" where
  "Statement_ctor S q db =
     (case sq_prepare S db q of
        Inl e \<Rightarrow> (Inl e, db)
      | Inr n \<Rightarrow> (Inr \<lparr>mQuery = q, aVar = replicate n SQL_Null\<rparr>, db))"

text \<open>Parameter indices count from 1; the engine refuses any other index with \<open>SQLITE_RANGE\<close>.\<close>

definition Statement_bind :: "statement \<Rightarrow> int \<Rightarrow> sql_value \<Rightarrow> fault + statement" where
  "Statement_bind st i v =
     (if 1 \<le> i \<and> i \<le> int (length (aVar st))
      then Inr (st\<lparr>aVar := (aVar st)[nat i - 1 := v]\<rparr>)
      else Inl (Sql_Error ''column index out of range''))"

fun Statement_binds :: "statement \<Rightarrow> int \<Rightarrow> sql_value list \<Rightarrow> fault + statement" where
  "Statement_binds st i [] = Inr st"
| "Statement_binds st i (v # vs) = rbind (Statement_bind st i v) (\<lambda>st'. Statement_binds st' (i + 1) vs)"

text \<open>\<open>exec()\<close> takes one step and expects no row.\<close>

definition Statement_exec :: "'db sqlite \<Rightarrow> statement \<Rightarrow> (unit, 'db) db_op" where
  "Statement_exec S st db =
     (case sq_run S db (mQuery st) (aVar st) of
        ([], None, db') \<Rightarrow> (Inr (), db')
      | ([], Some e, db') \<Rightarrow> (Inl e, db')
      | (_ # _, _, db') \<Rightarrow> (Inl (Sql_Error ''exec() does not expect results. Use executeStep.''), db'))"

text \<open>One \<open>executeStep()\<close>: the row that becomes current, if there is one.\<close>

definition Statement_executeStep :: "'db sqlite \<Rightarrow> statement \<Rightarrow> (sql_row option, 'db) db_op" where
  "Statement_executeStep S st db =
     (case sq_run S db (mQuery st) (aVar st) of
        ([], None, db') \<Rightarrow> (Inr None, db')
      | ([], Some e, db') \<Rightarrow> (Inl e, db')
      | (r # _, _, db') \<Rightarrow> (Inr (Some r), db'))"

text \<open>\<open>while (query.executeStep()) out.push_back(f(row))\<close>: the elements pushed before the loop ended,
  and the exception that ended it, if one did.\<close>

fun push_rows :: "sql_row list \<Rightarrow> fault option \<Rightarrow> (sql_row \<Rightarrow> fault + 'a) \<Rightarrow> 'a list \<times> fault option" where
  "push_rows [] err f = ([], err)"
| "push_rows (r # rs) err f =
     (case f r of
        Inl e \<Rightarrow> ([], Some e)
      | Inr x \<Rightarrow> (case push_rows rs err f of (xs, e) \<Rightarrow> (x # xs, e)))"

definition Statement_loop ::
  "'db sqlite \<Rightarrow> statement \<Rightarrow> (sql_row \<Rightarrow> fault + 'a) \<Rightarrow> 'db \<Rightarrow> ('a list \<times> fault option) \<times> 'db" where
  "Statement_loop S st f db =
     (case sq_run S db (mQuery st) (aVar st) of (rows, err, db') \<Rightarrow> (push_rows rows err f, db'))"

section \<open>Columns\<close>

definition getColumn :: "sql_row \<Rightarrow> string \<Rightarrow> fault + sql_value" where
  "getColumn row name =
     (case map_of row name of
        None \<Rightarrow> Inl (Sql_Error ''Unknown column name.'')
      | Some v \<Rightarrow> Inr v)"

text \<open>\<open>sqlite3_column_int\<close> gives the low 32 bits of the integer value; NULL reads as 0.\<close>

definition to_int32 :: "int \<Rightarrow> int" where
  "to_int32 i = sint (word_of_int i :: 32 word)"

definition getInt :: "'db sqlite \<Rightarrow> sql_value \<Rightarrow> int" where
  "getInt S v = (case v of SQL_Null \<Rightarrow> 0 | SQL_Int i \<Rightarrow> to_int32 i | SQL_Text t \<Rightarrow> to_int32 (sq_text_int S t))"

definition getString :: "sql_value \<Rightarrow> string" where
  "getString v = (case v of SQL_Null \<Rightarrow> '''' | SQL_Int i \<Rightarrow> show_int i | SQL_Text t \<Rightarrow> t)"

definition column_int :: "'db sqlite \<Rightarrow> sql_row \<Rightarrow> string \<Rightarrow> fault + int" where
  "column_int S row name = rbind (getColumn row name) (\<lambda>v. Inr (getInt S v))"

definition column_string :: "sql_row \<Rightarrow> string \<Rightarrow> fault + string" where
  "column_string row name = rbind (getColumn row name) (\<lambda>v. Inr (getString v))"

definition is_int32 :: "int \<Rightarrow> bool" where
  "is_int32 i \<longleftrightarrow> - (2 ^ 31) \<le> i \<and> i < 2 ^ 31"

lemma to_int32_id: "is_int32 i \<Longrightarrow> to_int32 i = i"
  by (simp add: to_int32_def is_int32_def signed_of_int signed_take_bit_int_eq_self)

lemma to_int32_range: "is_int32 (to_int32 i)"
  using sint_range_size [of "word_of_int i :: 32 word"] 
  by (simp add: to_int32_def is_int32_def word_size)

section \<open>Transactions\<close>

definition Database_exec :: "'db sqlite \<Rightarrow> string \<Rightarrow> (unit, 'db) db_op" where
  "Database_exec S q db =
     (case sq_exec S db q of (Some e, db') \<Rightarrow> (Inl e, db') | (None, db') \<Rightarrow> (Inr (), db'))"

definition Transaction_ctor :: "'db sqlite \<Rightarrow> (unit, 'db) db_op" where
  "Transaction_ctor S = Database_exec S ''BEGIN TRANSACTION''"

text \<open>The boolean is \<open>mbCommited\<close>; a successful commit returns its new value.\<close>

definition Transaction_commit :: "'db sqlite \<Rightarrow> bool \<Rightarrow> (bool, 'db) db_op" where
  "Transaction_commit S mbCommited =
     (if \<not> mbCommited
      then db_bind (Database_exec S ''COMMIT TRANSACTION'') (\<lambda>_. db_return True)
      else db_lift (Inl (Sql_Error ''Transaction already committed.'')))"

definition Transaction_rollback :: "'db sqlite \<Rightarrow> bool \<Rightarrow> (unit, 'db) db_op" where
  "Transaction_rollback S mbCommited =
     (if \<not> mbCommited
      then Database_exec S ''ROLLBACK TRANSACTION''
      else db_lift (Inl (Sql_Error ''Transaction already committed.'')))"

text \<open>The destructor rolls back what was not committed and swallows the exception.\<close>

definition Transaction_dtor :: "'db sqlite \<Rightarrow> bool \<Rightarrow> 'db \<Rightarrow> 'db" where
  "Transaction_dtor S mbCommited db =
     (if \<not> mbCommited then snd (Database_exec S ''ROLLBACK TRANSACTION'' db) else db)"

text \<open>
  The block the persistence manager repeats:
  \<^verbatim>\<open>
  SQLite::Transaction transaction(db);
  try { body; transaction.commit(); }
  catch (const std::exception& e) { transaction.rollback(); }
  \<close>
  followed by the destructor at the end of the scope.
\<close>

definition in_transaction :: "'db sqlite \<Rightarrow> (unit, 'db) db_op \<Rightarrow> (unit, 'db) db_op" where
  "in_transaction S body =
     db_bind (Transaction_ctor S) (\<lambda>_ db1.
       (case db_bind body (\<lambda>_. Transaction_commit S False) db1 of
          (Inr committed, db2) \<Rightarrow> (Inr (), Transaction_dtor S committed db2)
        | (Inl e, db2) \<Rightarrow>
            (case Transaction_rollback S False db2 of
               (r, db3) \<Rightarrow> (r, Transaction_dtor S False db3))))"

section \<open>The contract of a transactional store\<close>

text \<open>
  What SQLite documents about transactions, for an abstract view of the stored tables: \<open>intx\<close> says
  that a transaction is open, \<open>view\<close> is the content a statement of this connection sees and \<open>base\<close>
  the content a rollback returns to.
\<close>

locale sql_transactions =
  fixes S :: "'db sqlite"
    and intx :: "'db \<Rightarrow> bool"
    and view :: "'db \<Rightarrow> 'v"
    and base :: "'db \<Rightarrow> 'v"
  assumes begin_ok: "\<not> intx db \<Longrightarrow> \<exists>db'. sq_exec S db ''BEGIN TRANSACTION'' = (None, db') \<and>
      intx db' \<and> view db' = view db \<and> base db' = view db"
    and commit_ok: "intx db \<Longrightarrow> \<exists>db'. sq_exec S db ''COMMIT TRANSACTION'' = (None, db') \<and>
      \<not> intx db' \<and> view db' = view db"
    and rollback_ok: "intx db \<Longrightarrow> \<exists>db'. sq_exec S db ''ROLLBACK TRANSACTION'' = (None, db') \<and>
      \<not> intx db' \<and> view db' = base db"
    and rollback_idle: "\<not> intx db \<Longrightarrow> \<exists>e. sq_exec S db ''ROLLBACK TRANSACTION'' = (Some e, db)"
begin

lemma Transaction_dtor_idle: "\<not> intx db \<Longrightarrow> Transaction_dtor S b db = db"
  using rollback_idle [of db] by (auto simp: Transaction_dtor_def Database_exec_def)

text \<open>A body that succeeds and stays inside the transaction takes effect as a whole.\<close>

lemma in_transaction_commits:
  assumes "\<not> intx db"
    and body: "\<And>db1. intx db1 \<Longrightarrow> view db1 = view db \<Longrightarrow>
      \<exists>db2. body db1 = (Inr (), db2) \<and> intx db2 \<and> view db2 = v"
  shows "\<exists>db'. in_transaction S body db = (Inr (), db') \<and> \<not> intx db' \<and> view db' = v"
proof -
  obtain db1 where 1: "sq_exec S db ''BEGIN TRANSACTION'' = (None, db1)" "intx db1"
    "view db1 = view db" using begin_ok [OF assms(1)] by blast
  obtain db2 where 2: "body db1 = (Inr (), db2)" "intx db2" "view db2 = v"
    using body [OF 1(2,3)] by blast
  obtain db3 where 3: "sq_exec S db2 ''COMMIT TRANSACTION'' = (None, db3)" "\<not> intx db3"
    "view db3 = view db2" using commit_ok [OF 2(2)] by blast
  show ?thesis
    using 1 2 3
    by (simp add: in_transaction_def Transaction_ctor_def Database_exec_def Transaction_commit_def
        db_return_def Transaction_dtor_def)
qed

text \<open>A body that throws while the transaction is open leaves the tables as they were.\<close>

lemma in_transaction_rolls_back:
  assumes "\<not> intx db"
    and body: "\<And>db1. intx db1 \<Longrightarrow> base db1 = view db \<Longrightarrow> view db1 = view db \<Longrightarrow>
      \<exists>e db2. body db1 = (Inl e, db2) \<and> intx db2 \<and> base db2 = base db1"
  shows "\<exists>db'. in_transaction S body db = (Inr (), db') \<and> \<not> intx db' \<and> view db' = view db"
proof -
  obtain db1 where 1: "sq_exec S db ''BEGIN TRANSACTION'' = (None, db1)" "intx db1"
    "base db1 = view db" "view db1 = view db" using begin_ok [OF assms(1)] by blast
  obtain e db2 where 2: "body db1 = (Inl e, db2)" "intx db2" "base db2 = view db"
    using body [OF 1(2-4)] 1(3) by auto
  obtain db3 where 3: "sq_exec S db2 ''ROLLBACK TRANSACTION'' = (None, db3)" "\<not> intx db3"
    "view db3 = view db" using rollback_ok [OF 2(2)] 2(3) by auto
  show ?thesis
    using 1 2 3 Transaction_dtor_idle [OF 3(2)]
    by (simp add: in_transaction_def Transaction_ctor_def Database_exec_def Transaction_rollback_def)
qed

end

lemma Statement_binds_all:
  assumes "length vs = length (aVar st)"
  shows "Statement_binds st 1 vs = Inr (st\<lparr>aVar := vs\<rparr>)"
proof -
  have "Statement_binds (st\<lparr>aVar := us @ ws\<rparr>) (int (length us) + 1) vs = Inr (st\<lparr>aVar := us @ vs\<rparr>)"
    if "length vs = length ws" for us ws vs
    using that
  proof (induction vs arbitrary: us ws)
    case Nil
    then show ?case by simp
  next
    case (Cons v vs)
    then obtain w ws' where ws: "ws = w # ws'" by (cases ws) auto
    have up: "(us @ w # ws')[nat (int (length us) + 1) - 1 := v] = us @ v # ws'"
      by (simp add: list_update_append nat_add_distrib)
    from Cons show ?case using Cons.IH [of ws' "us @ [v]"]
      by (simp add: Statement_bind_def ws up [simplified] add.commute [of 1])
  qed
  from this [of vs "aVar st" "[]"] assms show ?thesis by simp
qed

end
