(* ===== verification/Seat_Map.thy ===== *)
theory Seat_Map
  imports Prelude
begin

text \<open>
  The seat map of one flight (\<open>Core/SeatMap.h\<close>, \<open>Core/SeatMap.cpp\<close>): four grids of the same
  dimensions (availability, passenger name, e-mail address, maximum load), booking, cancelling and
  reading a seat, and saving to and loading from a JSON file.

  \<open>seat_store\<close> is the contract the rest of the system relies on: a finite map from seats to
  bookings with a booking operation that never overwrites.  The interpretation \<open>sm\<close> discharges it
  for the grid implementation.  The JSON library is not part of the repository (\<open>nlohmann/json\<close> is a
  submodule), so it is the parameter \<open>json_lib\<close>; \<open>json_laws\<close> states what the code relies on.
\<close>

section \<open>State\<close>

record seat_map =
  m_Rows :: int
  m_Cols :: int
  m_SeatMap :: "bool list list"
  m_PassengerMap :: "string list list"
  m_EmailMap :: "string list list"
  m_MaxLoadMap :: "string list list"

section \<open>Construction\<close>

definition Internal_InitMaps :: "seat_map \<Rightarrow> fault + seat_map" where
  "Internal_InitMaps s =
     rbind (vec_make (m_Cols s) True) (\<lambda>row.
     rbind (vec_resize (m_SeatMap s) (m_Rows s) row) (\<lambda>seats.
     rbind (vec_make (m_Cols s) ''''  ) (\<lambda>srow.
     rbind (vec_resize (m_PassengerMap s) (m_Rows s) srow) (\<lambda>names.
     rbind (vec_resize (m_EmailMap s) (m_Rows s) srow) (\<lambda>emails.
     rbind (vec_resize (m_MaxLoadMap s) (m_Rows s) srow) (\<lambda>loads.
     Inr (s\<lparr>m_SeatMap := seats, m_PassengerMap := names,
            m_EmailMap := emails, m_MaxLoadMap := loads\<rparr>)))))))"

definition SeatMap_ctor :: "int \<Rightarrow> int \<Rightarrow> fault + seat_map" where
  "SeatMap_ctor rows cols =
     Internal_InitMaps \<lparr>m_Rows = rows, m_Cols = cols, m_SeatMap = [], m_PassengerMap = [],
                        m_EmailMap = [], m_MaxLoadMap = []\<rparr>"

section \<open>Operations\<close>

definition IsSeatAvailable :: "seat_map \<Rightarrow> int \<Rightarrow> int \<Rightarrow> fault + bool" where
  "IsSeatAvailable s row col =
     (if row \<ge> 0 \<and> row < m_Rows s \<and> col \<ge> 0 \<and> col < m_Cols s
      then grid_get (m_SeatMap s) row col
      else Inr False)"

definition BookSeat ::
  "seat_map \<Rightarrow> int \<Rightarrow> int \<Rightarrow> string \<Rightarrow> string \<Rightarrow> string \<Rightarrow> fault + (bool \<times> seat_map)" where
  "BookSeat s row col passengerName email maxLoad =
     rbind (IsSeatAvailable s row col) (\<lambda>available.
     if available
     then rbind (grid_set (m_SeatMap s) row col False) (\<lambda>seats.
          rbind (grid_set (m_PassengerMap s) row col passengerName) (\<lambda>names.
          rbind (grid_set (m_EmailMap s) row col email) (\<lambda>emails.
          rbind (grid_set (m_MaxLoadMap s) row col maxLoad) (\<lambda>loads.
          Inr (True, s\<lparr>m_SeatMap := seats, m_PassengerMap := names,
                       m_EmailMap := emails, m_MaxLoadMap := loads\<rparr>)))))
     else Inr (False, s))"

definition CancelBooking :: "seat_map \<Rightarrow> int \<Rightarrow> int \<Rightarrow> fault + seat_map" where
  "CancelBooking s row col =
     (if row \<ge> 0 \<and> row < m_Rows s \<and> col \<ge> 0 \<and> col < m_Cols s
      then rbind (grid_set (m_SeatMap s) row col True) (\<lambda>seats.
           rbind (grid_set (m_PassengerMap s) row col '''') (\<lambda>names.
           rbind (grid_set (m_EmailMap s) row col '''') (\<lambda>emails.
           rbind (grid_set (m_MaxLoadMap s) row col '''') (\<lambda>loads.
           Inr (s\<lparr>m_SeatMap := seats, m_PassengerMap := names,
                  m_EmailMap := emails, m_MaxLoadMap := loads\<rparr>)))))
      else Inr s)"

definition GetPassengerName :: "seat_map \<Rightarrow> int \<Rightarrow> int \<Rightarrow> fault + string" where
  "GetPassengerName s row col =
     (if row \<ge> 0 \<and> row < m_Rows s \<and> col \<ge> 0 \<and> col < m_Cols s
      then grid_get (m_PassengerMap s) row col
      else Inr '''')"

definition GetMaxLoad :: "seat_map \<Rightarrow> int \<Rightarrow> int \<Rightarrow> fault + string" where
  "GetMaxLoad s row col =
     (if row \<ge> 0 \<and> row < m_Rows s \<and> col \<ge> 0 \<and> col < m_Cols s
      then grid_get (m_MaxLoadMap s) row col
      else Inr '''')"

definition GetEmail :: "seat_map \<Rightarrow> int \<Rightarrow> int \<Rightarrow> fault + string" where
  "GetEmail s row col =
     (if row \<ge> 0 \<and> row < m_Rows s \<and> col \<ge> 0 \<and> col < m_Cols s
      then grid_get (m_EmailMap s) row col
      else Inr '''')"

definition DisplaySeatMap :: "seat_map \<Rightarrow> string" where
  "DisplaySeatMap s =
     concat (map (\<lambda>row. concat (map (\<lambda>seat. (if seat then ''O'' else ''X'') @ '' '') row)
                        @ [CHR 0x0A]) (m_SeatMap s))"

definition GetRows :: "seat_map \<Rightarrow> int" where
  "GetRows s = m_Rows s"

definition GetColumns :: "seat_map \<Rightarrow> int" where
  "GetColumns s = m_Cols s"

definition GetVecSeatMap :: "seat_map \<Rightarrow> bool list list" where
  "GetVecSeatMap s = m_SeatMap s"

definition GetVecPassengerMap :: "seat_map \<Rightarrow> string list list" where
  "GetVecPassengerMap s = m_PassengerMap s"

section \<open>JSON persistence\<close>

text \<open>
  The operations of the JSON library that the seat map calls: \<open>'j\<close> is \<open>nlohmann::json\<close>, \<open>'t\<close> the
  text of a document.  Conversions from a document throw on a value of the wrong type.
\<close>

record ('j, 't) json_lib =
  j_object :: "(string \<times> 'j) list \<Rightarrow> 'j"
  j_of_int :: "int \<Rightarrow> 'j"
  j_of_bools :: "bool list list \<Rightarrow> 'j"
  j_of_strings :: "string list list \<Rightarrow> 'j"
  j_field :: "'j \<Rightarrow> string \<Rightarrow> fault + 'j"
  j_int :: "'j \<Rightarrow> fault + int"
  j_bools :: "'j \<Rightarrow> fault + bool list list"
  j_strings :: "'j \<Rightarrow> fault + string list list"
  j_dump :: "'j \<Rightarrow> nat \<Rightarrow> 't"
  j_parse :: "'t \<Rightarrow> fault + 'j"

definition seat_map_json :: "('j, 't) json_lib \<Rightarrow> seat_map \<Rightarrow> 'j" where
  "seat_map_json J s = j_object J
     [(''rows'', j_of_int J (m_Rows s)),
      (''cols'', j_of_int J (m_Cols s)),
      (''seatMap'', j_of_bools J (m_SeatMap s)),
      (''passengerMap'', j_of_strings J (m_PassengerMap s)),
      (''emailMap'', j_of_strings J (m_EmailMap s)),
      (''maxLoadMap'', j_of_strings J (m_MaxLoadMap s))]"

text \<open>\<open>writable\<close> says which names \<open>std::ofstream\<close> can open; a name it cannot open leaves the files alone.\<close>

definition SaveToJSON ::
  "('j, 't) json_lib \<Rightarrow> (string \<Rightarrow> bool) \<Rightarrow> (string \<rightharpoonup> 't) \<Rightarrow> string \<Rightarrow> seat_map \<Rightarrow> (string \<rightharpoonup> 't)" where
  "SaveToJSON J writable files filename s =
     (if writable filename
      then files(filename \<mapsto> j_dump J (seat_map_json J s) 4)
      else files)"

text \<open>
  Loading assigns the members one after the other, so a document with a bad field leaves the fields
  before it already replaced; the exception is the first component of the result.
\<close>

definition load_member ::
  "('j, 't) json_lib \<Rightarrow> 'j \<Rightarrow> string \<Rightarrow> ('j \<Rightarrow> fault + 'v) \<Rightarrow> ('v \<Rightarrow> seat_map \<Rightarrow> seat_map)
     \<Rightarrow> fault option \<times> seat_map \<Rightarrow> fault option \<times> seat_map" where
  "load_member J data key conv upd st =
     (case st of
        (Some e, s) \<Rightarrow> (Some e, s)
      | (None, s) \<Rightarrow>
          (case rbind (j_field J data key) conv of
             Inl e \<Rightarrow> (Some e, s)
           | Inr v \<Rightarrow> (None, upd v s)))"

definition LoadFromJSON ::
  "('j, 't) json_lib \<Rightarrow> (string \<rightharpoonup> 't) \<Rightarrow> string \<Rightarrow> seat_map \<Rightarrow> fault option \<times> seat_map" where
  "LoadFromJSON J files filename s =
     (case files filename of
        None \<Rightarrow> (None, s)
      | Some txt \<Rightarrow>
          (case j_parse J txt of
             Inl e \<Rightarrow> (Some e, s)
           | Inr data \<Rightarrow>
               load_member J data ''maxLoadMap'' (j_strings J) (\<lambda>v s. s\<lparr>m_MaxLoadMap := v\<rparr>)
              (load_member J data ''emailMap'' (j_strings J) (\<lambda>v s. s\<lparr>m_EmailMap := v\<rparr>)
              (load_member J data ''passengerMap'' (j_strings J) (\<lambda>v s. s\<lparr>m_PassengerMap := v\<rparr>)
              (load_member J data ''seatMap'' (j_bools J) (\<lambda>v s. s\<lparr>m_SeatMap := v\<rparr>)
              (load_member J data ''cols'' (j_int J) (\<lambda>v s. s\<lparr>m_Cols := v\<rparr>)
              (load_member J data ''rows'' (j_int J) (\<lambda>v s. s\<lparr>m_Rows := v\<rparr>)
              (None, s))))))))"

text \<open>What the code relies on: parsing inverts dumping, a field of an object is the value stored
  under that key, and each conversion inverts the construction from a C++ value.\<close>

definition json_laws :: "('j, 't) json_lib \<Rightarrow> bool" where
  "json_laws J \<longleftrightarrow>
     (\<forall>j n. j_parse J (j_dump J j n) = Inr j) \<and>
     (\<forall>kvs k v. map_of kvs k = Some v \<longrightarrow> j_field J (j_object J kvs) k = Inr v) \<and>
     (\<forall>i. j_int J (j_of_int J i) = Inr i) \<and>
     (\<forall>b. j_bools J (j_of_bools J b) = Inr b) \<and>
     (\<forall>x. j_strings J (j_of_strings J x) = Inr x)"

section \<open>Invariant and abstraction\<close>

text \<open>All four grids have the declared dimensions, and an available seat carries no passenger data.\<close>

definition seat_map_dims :: "seat_map \<Rightarrow> bool" where
  "seat_map_dims s \<longleftrightarrow>
     0 \<le> m_Rows s \<and> 0 \<le> m_Cols s \<and>
     grid_dims (m_Rows s) (m_Cols s) (m_SeatMap s) \<and>
     grid_dims (m_Rows s) (m_Cols s) (m_PassengerMap s) \<and>
     grid_dims (m_Rows s) (m_Cols s) (m_EmailMap s) \<and>
     grid_dims (m_Rows s) (m_Cols s) (m_MaxLoadMap s)"

definition free_seats_blank :: "seat_map \<Rightarrow> bool" where
  "free_seats_blank s \<longleftrightarrow>
     (\<forall>r c. in_grid (m_Rows s) (m_Cols s) r c \<and> cell (m_SeatMap s) r c \<longrightarrow>
        cell (m_PassengerMap s) r c = '''' \<and> cell (m_EmailMap s) r c = '''' \<and>
        cell (m_MaxLoadMap s) r c = '''')"

definition seat_map_inv :: "seat_map \<Rightarrow> bool" where
  "seat_map_inv s \<longleftrightarrow> seat_map_dims s \<and> free_seats_blank s"

type_synonym seat = "int \<times> int"
type_synonym booking = "string \<times> string \<times> string"

definition valid_seat :: "seat_map \<Rightarrow> seat \<Rightarrow> bool" where
  "valid_seat s p \<longleftrightarrow> in_grid (m_Rows s) (m_Cols s) (fst p) (snd p)"

definition occupant :: "seat_map \<Rightarrow> seat \<rightharpoonup> booking" where
  "occupant s p =
     (if valid_seat s p \<and> \<not> cell (m_SeatMap s) (fst p) (snd p)
      then Some (cell (m_PassengerMap s) (fst p) (snd p),
                 cell (m_EmailMap s) (fst p) (snd p),
                 cell (m_MaxLoadMap s) (fst p) (snd p))
      else None)"

lemmas seat_grids = seat_map_dims_def valid_seat_def in_grid_def

lemma guard_valid:
  "row \<ge> 0 \<and> row < m_Rows s \<and> col \<ge> 0 \<and> col < m_Cols s \<longleftrightarrow> valid_seat s (row, col)"
  by (auto simp: valid_seat_def in_grid_def)

text \<open>The state after writing all four cells of a seat.\<close>

definition write_seat :: "seat_map \<Rightarrow> seat \<Rightarrow> bool \<Rightarrow> booking \<Rightarrow> seat_map" where
  "write_seat s p a b =
     s\<lparr>m_SeatMap := put_cell (m_SeatMap s) (fst p) (snd p) a,
       m_PassengerMap := put_cell (m_PassengerMap s) (fst p) (snd p) (fst b),
       m_EmailMap := put_cell (m_EmailMap s) (fst p) (snd p) (fst (snd b)),
       m_MaxLoadMap := put_cell (m_MaxLoadMap s) (fst p) (snd p) (snd (snd b))\<rparr>"

lemma write_seat_frame [simp]:
  "m_Rows (write_seat s p a b) = m_Rows s" "m_Cols (write_seat s p a b) = m_Cols s"
  by (simp_all add: write_seat_def)

lemma write_seat_dims: "seat_map_dims s \<Longrightarrow> seat_map_dims (write_seat s p a b)"
  by (simp add: seat_map_dims_def write_seat_def grid_dims_put)

lemma valid_write_seat [simp]: "valid_seat (write_seat s p a b) q = valid_seat s q"
  by (simp add: valid_seat_def)

lemma write_seat_cells:
  assumes "seat_map_dims s" and "valid_seat s p" and "valid_seat s q"
  shows "cell (m_SeatMap (write_seat s p a b)) (fst q) (snd q) =
           (if q = p then a else cell (m_SeatMap s) (fst q) (snd q))"
    and "cell (m_PassengerMap (write_seat s p a b)) (fst q) (snd q) =
           (if q = p then fst b else cell (m_PassengerMap s) (fst q) (snd q))"
    and "cell (m_EmailMap (write_seat s p a b)) (fst q) (snd q) =
           (if q = p then fst (snd b) else cell (m_EmailMap s) (fst q) (snd q))"
    and "cell (m_MaxLoadMap (write_seat s p a b)) (fst q) (snd q) =
           (if q = p then snd (snd b) else cell (m_MaxLoadMap s) (fst q) (snd q))"
proof -
  have put: "cell (put_cell g (fst p) (snd p) v) (fst q) (snd q) =
      (if q = p then v else cell g (fst q) (snd q))"
    if "grid_dims (m_Rows s) (m_Cols s) g" for g and v :: "'z"
    using cell_put [OF that, of "fst p" "snd p" "fst q" "snd q" v] assms(2,3)
    by (auto simp: valid_seat_def prod_eq_iff)
  show "cell (m_SeatMap (write_seat s p a b)) (fst q) (snd q) =
           (if q = p then a else cell (m_SeatMap s) (fst q) (snd q))"
    using assms(1) put [of "m_SeatMap s" a] by (simp add: seat_map_dims_def write_seat_def)
  show "cell (m_PassengerMap (write_seat s p a b)) (fst q) (snd q) =
           (if q = p then fst b else cell (m_PassengerMap s) (fst q) (snd q))"
    using assms(1) put [of "m_PassengerMap s" "fst b"]
    by (simp add: seat_map_dims_def write_seat_def)
  show "cell (m_EmailMap (write_seat s p a b)) (fst q) (snd q) =
           (if q = p then fst (snd b) else cell (m_EmailMap s) (fst q) (snd q))"
    using assms(1) put [of "m_EmailMap s" "fst (snd b)"]
    by (simp add: seat_map_dims_def write_seat_def)
  show "cell (m_MaxLoadMap (write_seat s p a b)) (fst q) (snd q) =
           (if q = p then snd (snd b) else cell (m_MaxLoadMap s) (fst q) (snd q))"
    using assms(1) put [of "m_MaxLoadMap s" "snd (snd b)"]
    by (simp add: seat_map_dims_def write_seat_def)
qed

lemma occupant_write_seat:
  assumes "seat_map_dims s" and "valid_seat s p"
  shows "occupant (write_seat s p a b) = (occupant s)(p := (if a then None else Some b))"
proof
  fix q
  show "occupant (write_seat s p a b) q = ((occupant s)(p := (if a then None else Some b))) q"
    using write_seat_cells [OF assms, of q a b] assms(2)
    by (cases "valid_seat s q") (auto simp: occupant_def)
qed

section \<open>Behaviour of the operations\<close>

lemma IsSeatAvailable_eq:
  assumes "seat_map_dims s"
  shows "IsSeatAvailable s row col = Inr (valid_seat s (row, col) \<and> occupant s (row, col) = None)"
proof (cases "valid_seat s (row, col)")
  case True
  with assms show ?thesis
    unfolding IsSeatAvailable_def guard_valid
    by (simp add: grid_get_ok [of "m_Rows s" "m_Cols s"] seat_map_dims_def valid_seat_def occupant_def)
next
  case False
  then show ?thesis unfolding IsSeatAvailable_def guard_valid by simp
qed

lemma BookSeat_eq:
  assumes "seat_map_dims s"
  shows "BookSeat s row col n e l =
    Inr (if valid_seat s (row, col) \<and> occupant s (row, col) = None
         then (True, write_seat s (row, col) False (n, e, l)) else (False, s))"
proof (cases "valid_seat s (row, col) \<and> occupant s (row, col) = None")
  case True
  with assms have "in_grid (m_Rows s) (m_Cols s) row col" by (simp add: valid_seat_def)
  with True assms show ?thesis
    by (simp add: BookSeat_def IsSeatAvailable_eq seat_map_dims_def
        grid_set_ok [of "m_Rows s" "m_Cols s"] write_seat_def)
next
  case False
  with assms show ?thesis by (auto simp: BookSeat_def IsSeatAvailable_eq)
qed

lemma CancelBooking_eq:
  assumes "seat_map_dims s"
  shows "CancelBooking s row col =
    Inr (if valid_seat s (row, col) then write_seat s (row, col) True ('''', '''', '''') else s)"
proof (cases "valid_seat s (row, col)")
  case True
  with assms have "in_grid (m_Rows s) (m_Cols s) row col" by (simp add: valid_seat_def)
  with True assms show ?thesis
    unfolding CancelBooking_def guard_valid
    by (simp add: seat_map_dims_def grid_set_ok [of "m_Rows s" "m_Cols s"] write_seat_def)
next
  case False
  then show ?thesis unfolding CancelBooking_def guard_valid by simp
qed

lemma getters_eq:
  assumes "seat_map_dims s"
  shows "GetPassengerName s row col =
           Inr (if valid_seat s (row, col) then cell (m_PassengerMap s) row col else '''')"
    and "GetEmail s row col =
           Inr (if valid_seat s (row, col) then cell (m_EmailMap s) row col else '''')"
    and "GetMaxLoad s row col =
           Inr (if valid_seat s (row, col) then cell (m_MaxLoadMap s) row col else '''')"
  using assms unfolding GetPassengerName_def GetEmail_def GetMaxLoad_def guard_valid
  by (simp_all add: seat_map_dims_def valid_seat_def grid_get_ok [of "m_Rows s" "m_Cols s"])

lemma getters_blank:
  assumes "seat_map_inv s" and "occupant s (row, col) = None"
  shows "GetPassengerName s row col = Inr ''''" "GetEmail s row col = Inr ''''"
    "GetMaxLoad s row col = Inr ''''"
  using assms getters_eq [of s row col]
  by (auto simp: seat_map_inv_def free_seats_blank_def occupant_def valid_seat_def split: if_splits)

lemma getters_occupied:
  assumes "seat_map_dims s" and "occupant s (row, col) = Some (n, e, l)"
  shows "GetPassengerName s row col = Inr n" "GetEmail s row col = Inr e"
    "GetMaxLoad s row col = Inr l"
  using assms getters_eq [OF assms(1), of row col] by (auto simp: occupant_def split: if_splits)

lemma SeatMap_ctor_ok:
  assumes "0 \<le> rows" and "0 \<le> cols"
  shows "SeatMap_ctor rows cols =
    Inr \<lparr>m_Rows = rows, m_Cols = cols,
         m_SeatMap = replicate (nat rows) (replicate (nat cols) True),
         m_PassengerMap = replicate (nat rows) (replicate (nat cols) ''''),
         m_EmailMap = replicate (nat rows) (replicate (nat cols) ''''),
         m_MaxLoadMap = replicate (nat rows) (replicate (nat cols) '''')\<rparr>"
  using assms by (simp add: SeatMap_ctor_def Internal_InitMaps_def vec_make_def vec_resize_def)

lemma SeatMap_ctor_neg: "rows < 0 \<or> cols < 0 \<Longrightarrow> SeatMap_ctor rows cols = Inl Length_Error"
  by (auto simp: SeatMap_ctor_def Internal_InitMaps_def vec_make_def vec_resize_def)

lemma grid_dims_replicate:
  "0 \<le> r \<Longrightarrow> 0 \<le> c \<Longrightarrow> grid_dims r c (replicate (nat r) (replicate (nat c) v))"
  by (simp add: grid_dims_def list_all_length)

lemma cell_replicate:
  "in_grid r c i j \<Longrightarrow> cell (replicate (nat r) (replicate (nat c) v)) i j = v"
  by (auto simp: in_grid_def)

lemma SeatMap_ctor_fresh:
  assumes "SeatMap_ctor rows cols = Inr s"
  shows "seat_map_inv s" "occupant s = Map.empty" "m_Rows s = rows" "m_Cols s = cols"
proof -
  from assms have pos: "0 \<le> rows" "0 \<le> cols"
    using SeatMap_ctor_neg [of rows cols] by (cases "rows < 0 \<or> cols < 0"; simp)+
  note s = assms [unfolded SeatMap_ctor_ok [OF pos], simplified, symmetric]
  show "m_Rows s = rows" "m_Cols s = cols" using s by simp_all
  show "seat_map_inv s" using pos
    by (simp add: seat_map_inv_def seat_map_dims_def free_seats_blank_def s grid_dims_replicate)
       (auto simp: cell_replicate)
  show "occupant s = Map.empty"
    by (rule ext) (simp add: occupant_def valid_seat_def s cell_replicate)
qed

section \<open>The invariant is kept\<close>

lemma write_seat_inv:
  assumes "seat_map_inv s" and "valid_seat s p" and "a \<Longrightarrow> b = ('''', '''', '''')"
  shows "seat_map_inv (write_seat s p a b)"
proof -
  have dims: "seat_map_dims s" using assms(1) by (simp add: seat_map_inv_def)
  have blank: "cell (m_PassengerMap (write_seat s p a b)) r c = '''' \<and>
      cell (m_EmailMap (write_seat s p a b)) r c = '''' \<and>
      cell (m_MaxLoadMap (write_seat s p a b)) r c = ''''"
    if "valid_seat s (r, c)" and "cell (m_SeatMap (write_seat s p a b)) r c" for r c
  proof (cases "(r, c) = p")
    case True
    with that write_seat_cells [OF dims assms(2) that(1), of a b] assms(3) show ?thesis by auto
  next
    case False
    with that write_seat_cells [OF dims assms(2) that(1), of a b] assms(1) show ?thesis
      by (auto simp: seat_map_inv_def free_seats_blank_def valid_seat_def)
  qed
  show ?thesis
    using blank write_seat_dims [OF dims]
    by (auto simp: seat_map_inv_def free_seats_blank_def valid_seat_def)
qed

section \<open>The contract of a seat store\<close>

locale seat_store =
  fixes invar :: "'s \<Rightarrow> bool"
    and valid :: "'s \<Rightarrow> 'p \<Rightarrow> bool"
    and occ :: "'s \<Rightarrow> 'p \<rightharpoonup> 'b"
    and book :: "'s \<Rightarrow> 'p \<Rightarrow> 'b \<Rightarrow> fault + (bool \<times> 's)"
    and cancel :: "'s \<Rightarrow> 'p \<Rightarrow> fault + 's"
  assumes book_free:
    "invar s \<Longrightarrow> valid s p \<Longrightarrow> occ s p = None \<Longrightarrow>
       \<exists>s'. book s p b = Inr (True, s') \<and> invar s' \<and> valid s' = valid s \<and> occ s' = (occ s)(p \<mapsto> b)"
    and book_refused:
    "invar s \<Longrightarrow> \<not> (valid s p \<and> occ s p = None) \<Longrightarrow> book s p b = Inr (False, s)"
    and cancel_valid:
    "invar s \<Longrightarrow> valid s p \<Longrightarrow>
       \<exists>s'. cancel s p = Inr s' \<and> invar s' \<and> valid s' = valid s \<and> occ s' = (occ s)(p := None)"
    and cancel_invalid: "invar s \<Longrightarrow> \<not> valid s p \<Longrightarrow> cancel s p = Inr s"
    and occ_valid: "invar s \<Longrightarrow> occ s p = Some b \<Longrightarrow> valid s p"
begin

lemma no_double_booking:
  assumes "invar s" and "occ s p = Some b"
  shows "book s p b' = Inr (False, s)"
  using assms book_refused by simp

lemma book_total:
  assumes "invar s"
  obtains ok s' where "book s p b = Inr (ok, s')" "invar s'" "valid s' = valid s"
    "ok \<longleftrightarrow> valid s p \<and> occ s p = None"
    "occ s' = (if ok then (occ s)(p \<mapsto> b) else occ s)"
proof (cases "valid s p \<and> occ s p = None")
  case True
  then show ?thesis using assms book_free [of s p b] that [of True] by auto
next
  case False
  then show ?thesis using assms book_refused [of s p b] that [of False s] by auto
qed

lemma cancel_total:
  assumes "invar s"
  obtains s' where "cancel s p = Inr s'" "invar s'" "valid s' = valid s"
    "occ s' = (occ s)(p := None)"
proof (cases "valid s p")
  case True
  then show ?thesis using assms cancel_valid [of s p] that by auto
next
  case False
  then have "occ s p = None" using assms occ_valid [of s p] by (cases "occ s p") auto
  then have "(occ s)(p := None) = occ s" by auto
  with False show ?thesis using assms cancel_invalid [of s p] that by auto
qed

text \<open>Cancelling a seat and booking it again (the GUI's update) replaces its booking.\<close>

lemma cancel_then_book:
  assumes "invar s" and "valid s p"
  shows "\<exists>s1 s2. cancel s p = Inr s1 \<and> book s1 p b = Inr (True, s2) \<and> invar s2 \<and>
     valid s2 = valid s \<and> occ s2 = (occ s)(p \<mapsto> b)"
proof -
  from assms obtain s1 where c: "cancel s p = Inr s1" "invar s1" "valid s1 = valid s"
    "occ s1 = (occ s)(p := None)" using cancel_valid by blast
  with assms(2) obtain s2 where "book s1 p b = Inr (True, s2)" "invar s2" "valid s2 = valid s1"
    "occ s2 = (occ s1)(p \<mapsto> b)" using book_free [of s1 p b] by auto
  with c show ?thesis by auto
qed

text \<open>Bookings of different seats commute.\<close>

lemma book_commute:
  assumes "invar s" and "p \<noteq> q"
  shows "\<exists>s1 s12 s2 s21 ok1 ok2.
     book s p b = Inr (ok1, s1) \<and> book s1 q d = Inr (ok2, s12) \<and>
     book s q d = Inr (ok2, s2) \<and> book s2 p b = Inr (ok1, s21) \<and> occ s12 = occ s21"
proof -
  obtain ok1 s1 where 1: "book s p b = Inr (ok1, s1)" "invar s1" "valid s1 = valid s"
    "ok1 \<longleftrightarrow> valid s p \<and> occ s p = None" "occ s1 = (if ok1 then (occ s)(p \<mapsto> b) else occ s)"
    using book_total [OF assms(1)] .
  obtain ok2 s2 where 2: "book s q d = Inr (ok2, s2)" "invar s2" "valid s2 = valid s"
    "ok2 \<longleftrightarrow> valid s q \<and> occ s q = None" "occ s2 = (if ok2 then (occ s)(q \<mapsto> d) else occ s)"
    using book_total [OF assms(1)] .
  obtain o12 s12 where 3: "book s1 q d = Inr (o12, s12)" "o12 \<longleftrightarrow> valid s1 q \<and> occ s1 q = None"
    "occ s12 = (if o12 then (occ s1)(q \<mapsto> d) else occ s1)"
    using book_total [OF 1(2)] by metis
  obtain o21 s21 where 4: "book s2 p b = Inr (o21, s21)" "o21 \<longleftrightarrow> valid s2 p \<and> occ s2 p = None"
    "occ s21 = (if o21 then (occ s2)(p \<mapsto> b) else occ s2)"
    using book_total [OF 2(2)] by metis
  have "o12 = ok2" "o21 = ok1" using 1(3-5) 2(3-5) 3(2) 4(2) assms(2) by auto
  moreover have "occ s12 = occ s21"
    using 1(5) 2(5) 3(3) 4(3) calculation assms(2) by (auto simp: fun_eq_iff)
  ultimately show ?thesis using 1(1) 2(1) 3(1) 4(1) by blast
qed

end

definition book_op :: "seat_map \<Rightarrow> seat \<Rightarrow> booking \<Rightarrow> fault + (bool \<times> seat_map)" where
  "book_op s p b = BookSeat s (fst p) (snd p) (fst b) (fst (snd b)) (snd (snd b))"

definition cancel_op :: "seat_map \<Rightarrow> seat \<Rightarrow> fault + seat_map" where
  "cancel_op s p = CancelBooking s (fst p) (snd p)"

interpretation sm: seat_store seat_map_inv valid_seat occupant book_op cancel_op
proof unfold_locales
  fix s p b
  assume inv: "seat_map_inv s"
  then have dims: "seat_map_dims s" by (simp add: seat_map_inv_def)
  show "\<exists>s'. book_op s p b = Inr (True, s') \<and> seat_map_inv s' \<and> valid_seat s' = valid_seat s \<and>
      occupant s' = (occupant s)(p \<mapsto> b)" if "valid_seat s p" "occupant s p = None"
    using that dims BookSeat_eq [OF dims, of "fst p" "snd p"] occupant_write_seat [OF dims that(1)]
      write_seat_inv [OF inv that(1), of False b]
    by (auto simp: book_op_def fun_eq_iff)
  show "book_op s p b = Inr (False, s)" if "\<not> (valid_seat s p \<and> occupant s p = None)"
    using that BookSeat_eq [OF dims, of "fst p" "snd p"] by (auto simp: book_op_def)
  show "\<exists>s'. cancel_op s p = Inr s' \<and> seat_map_inv s' \<and> valid_seat s' = valid_seat s \<and>
      occupant s' = (occupant s)(p := None)" if "valid_seat s p"
    using that CancelBooking_eq [OF dims, of "fst p" "snd p"] occupant_write_seat [OF dims that]
      write_seat_inv [OF inv that, of True]
    by (auto simp: cancel_op_def fun_eq_iff)
  show "cancel_op s p = Inr s" if "\<not> valid_seat s p"
    using that CancelBooking_eq [OF dims, of "fst p" "snd p"] by (auto simp: cancel_op_def)
  show "valid_seat s p" if "occupant s p = Some b"
    using that by (simp add: occupant_def split: if_splits)
qed

lemma seat_map_extI:
  assumes "seat_map_inv s" and "seat_map_inv t"
    and "m_Rows s = m_Rows t" and "m_Cols s = m_Cols t" and "occupant s = occupant t"
  shows "s = t"
proof -
  have cells: "cell (m_SeatMap s) r c = cell (m_SeatMap t) r c"
      "cell (m_PassengerMap s) r c = cell (m_PassengerMap t) r c"
      "cell (m_EmailMap s) r c = cell (m_EmailMap t) r c"
      "cell (m_MaxLoadMap s) r c = cell (m_MaxLoadMap t) r c"
    if "in_grid (m_Rows s) (m_Cols s) r c" for r c
    using that assms(1-4) fun_cong [OF assms(5), of "(r, c)"]
    by (auto simp: occupant_def valid_seat_def seat_map_inv_def free_seats_blank_def split: if_splits)
  note dims = assms(1,2) [unfolded seat_map_inv_def seat_map_dims_def]
  have "m_SeatMap s = m_SeatMap t" "m_PassengerMap s = m_PassengerMap t"
    "m_EmailMap s = m_EmailMap t" "m_MaxLoadMap s = m_MaxLoadMap t"
    using dims assms(3,4) cells by (auto intro!: grid_eqI [of "m_Rows s" "m_Cols s"])
  with assms(3,4) show ?thesis by simp
qed

section \<open>Sequences of operations refine an abstract reservation table\<close>

datatype seat_cmd = Cmd_Book seat booking | Cmd_Cancel seat

fun seat_cmd_run :: "seat_map \<Rightarrow> seat_cmd \<Rightarrow> fault + seat_map" where
  "seat_cmd_run s (Cmd_Book p b) =
     rbind (BookSeat s (fst p) (snd p) (fst b) (fst (snd b)) (snd (snd b))) (\<lambda>(ok, s'). Inr s')"
| "seat_cmd_run s (Cmd_Cancel p) = CancelBooking s (fst p) (snd p)"

fun seat_cmds_run :: "seat_map \<Rightarrow> seat_cmd list \<Rightarrow> fault + seat_map" where
  "seat_cmds_run s [] = Inr s"
| "seat_cmds_run s (c # cs) = rbind (seat_cmd_run s c) (\<lambda>s'. seat_cmds_run s' cs)"

text \<open>The abstract table of an \<open>R\<close> by \<open>C\<close> cabin: a booking enters only a free seat of the cabin.\<close>

fun table_cmd :: "int \<Rightarrow> int \<Rightarrow> (seat \<rightharpoonup> booking) \<Rightarrow> seat_cmd \<Rightarrow> (seat \<rightharpoonup> booking)" where
  "table_cmd R C m (Cmd_Book p b) =
     (if in_grid R C (fst p) (snd p) \<and> m p = None then m(p \<mapsto> b) else m)"
| "table_cmd R C m (Cmd_Cancel p) = m(p := None)"

lemma seat_cmd_refines:
  assumes "seat_map_inv s"
  shows "\<exists>s'. seat_cmd_run s c = Inr s' \<and> seat_map_inv s' \<and>
     m_Rows s' = m_Rows s \<and> m_Cols s' = m_Cols s \<and>
     occupant s' = table_cmd (m_Rows s) (m_Cols s) (occupant s) c"
proof (cases c)
  case (Cmd_Book p b)
  obtain s' ok where "book_op s p b = Inr (ok, s')" "seat_map_inv s'"
    "ok \<longleftrightarrow> valid_seat s p \<and> occupant s p = None"
    "occupant s' = (if ok then (occupant s)(p \<mapsto> b) else occupant s)"
    using sm.book_total [OF assms] by metis
  moreover have "m_Rows s' = m_Rows s" "m_Cols s' = m_Cols s"
    using calculation(1) BookSeat_eq [of s "fst p" "snd p"] assms
    by (auto simp: book_op_def seat_map_inv_def split: if_splits)
  ultimately show ?thesis
    using Cmd_Book by (simp add: book_op_def valid_seat_def)
next
  case (Cmd_Cancel p)
  obtain s' where "cancel_op s p = Inr s'" "seat_map_inv s'" "occupant s' = (occupant s)(p := None)"
    using sm.cancel_total [OF assms] by metis
  moreover have "m_Rows s' = m_Rows s" "m_Cols s' = m_Cols s"
    using calculation(1) CancelBooking_eq [of s "fst p" "snd p"] assms
    by (auto simp: cancel_op_def seat_map_inv_def split: if_splits)
  ultimately show ?thesis using Cmd_Cancel by (simp add: cancel_op_def)
qed

lemma seat_cmds_refine:
  assumes "seat_map_inv s"
  shows "\<exists>s'. seat_cmds_run s cs = Inr s' \<and> seat_map_inv s' \<and>
     m_Rows s' = m_Rows s \<and> m_Cols s' = m_Cols s \<and>
     occupant s' = foldl (table_cmd (m_Rows s) (m_Cols s)) (occupant s) cs"
  using assms
proof (induction cs arbitrary: s)
  case Nil
  then show ?case by simp
next
  case (Cons c cs)
  obtain s1 where s1: "seat_cmd_run s c = Inr s1" "seat_map_inv s1" "m_Rows s1 = m_Rows s"
    "m_Cols s1 = m_Cols s" "occupant s1 = table_cmd (m_Rows s) (m_Cols s) (occupant s) c"
    using seat_cmd_refines [OF Cons.prems] by blast
  show ?case using Cons.IH [OF s1(2)] s1 by simp
qed

section \<open>Properties\<close>

text \<open>C3: From the constructor on, any sequence of bookings and cancellations runs without an
  out-of-range access, keeps the four grids consistent, and leaves exactly the bookings that the
  abstract reservation table holds after the same sequence: a booking takes effect only on a free
  seat of the cabin, so no sequence ever overwrites a passenger.\<close>

theorem seat_map_refines_table:
  assumes "0 \<le> rows" and "0 \<le> cols"
  shows "\<exists>s0 s. SeatMap_ctor rows cols = Inr s0 \<and> seat_cmds_run s0 cs = Inr s \<and>
     seat_map_inv s \<and> m_Rows s = rows \<and> m_Cols s = cols \<and>
     occupant s = foldl (table_cmd rows cols) Map.empty cs"
proof -
  obtain s0 where s0: "SeatMap_ctor rows cols = Inr s0" using SeatMap_ctor_ok [OF assms] by blast
  note fresh = SeatMap_ctor_fresh [OF s0]
  show ?thesis using seat_cmds_refine [OF fresh(1), of cs] fresh s0 by auto
qed

theorem seat_map_refines_table_witness:
  "\<exists>s0 s. SeatMap_ctor 4 3 = Inr s0 \<and>
     seat_cmds_run s0 [Cmd_Book (1, 1) (''Roxanne'', ''r@x'', ''43''),
                       Cmd_Book (1, 1) (''Bob'', ''b@x'', ''20''), Cmd_Cancel (0, 0)] = Inr s \<and>
     seat_map_inv s \<and> m_Rows s = 4 \<and> m_Cols s = 3 \<and>
     occupant s = [(1, 1) \<mapsto> (''Roxanne'', ''r@x'', ''43'')]"
proof -
  let ?cs = "[Cmd_Book (1, 1) (''Roxanne'', ''r@x'', ''43''),
              Cmd_Book (1, 1) (''Bob'', ''b@x'', ''20''), Cmd_Cancel (0, 0)]"
  have "foldl (table_cmd 4 3) Map.empty ?cs = [(1, 1) \<mapsto> (''Roxanne'', ''r@x'', ''43'')]"
    by (rule ext) (simp add: in_grid_def)
  with seat_map_refines_table [of 4 3 ?cs] show ?thesis by simp
qed

text \<open>C4: Booking a taken seat is refused and changes nothing; booking a free seat of the cabin
  succeeds, stores exactly the given name, e-mail address and load, which the getters then return,
  and leaves every other seat as it was.\<close>

theorem BookSeat_exact:
  assumes "seat_map_inv s"
  shows "if valid_seat s (r, c) \<and> occupant s (r, c) = None
         then (\<exists>s'. BookSeat s r c n e l = Inr (True, s') \<and> seat_map_inv s' \<and>
                occupant s' = (occupant s)((r, c) \<mapsto> (n, e, l)) \<and>
                IsSeatAvailable s' r c = Inr False \<and> GetPassengerName s' r c = Inr n \<and>
                GetEmail s' r c = Inr e \<and> GetMaxLoad s' r c = Inr l)
         else BookSeat s r c n e l = Inr (False, s)"
proof (cases "valid_seat s (r, c) \<and> occupant s (r, c) = None")
  case True
  then obtain s' where s': "book_op s (r, c) (n, e, l) = Inr (True, s')" "seat_map_inv s'"
    "occupant s' = (occupant s)((r, c) \<mapsto> (n, e, l))"
    using sm.book_free [OF assms, of "(r, c)" "(n, e, l)"] by blast
  then have "seat_map_dims s'" "occupant s' (r, c) = Some (n, e, l)"
    by (simp_all add: seat_map_inv_def)
  with True s' show ?thesis by (simp add: book_op_def getters_occupied IsSeatAvailable_eq)
next
  case False
  then show ?thesis
    using sm.book_refused [OF assms, of "(r, c)" "(n, e, l)"] by (auto simp: book_op_def)
qed

theorem BookSeat_exact_witness:
  "\<exists>s s'. SeatMap_ctor 2 2 = Inr s \<and> BookSeat s 1 0 ''Ann'' ''a@x'' ''7'' = Inr (True, s') \<and>
     GetPassengerName s' 1 0 = Inr ''Ann'' \<and> BookSeat s' 1 0 ''Bob'' '''' '''' = Inr (False, s')"
proof -
  obtain s where c: "SeatMap_ctor 2 2 = Inr s" using SeatMap_ctor_ok [of 2 2] by auto
  note fresh = SeatMap_ctor_fresh [OF c]
  have free: "valid_seat s (1, 0) \<and> occupant s (1, 0) = None"
    using fresh by (simp add: valid_seat_def in_grid_def)
  obtain s' where s': "BookSeat s 1 0 ''Ann'' ''a@x'' ''7'' = Inr (True, s')" "seat_map_inv s'"
    "occupant s' = (occupant s)((1, 0) \<mapsto> (''Ann'', ''a@x'', ''7''))"
    "GetPassengerName s' 1 0 = Inr ''Ann''"
    using BookSeat_exact [OF fresh(1), of 1 0 "''Ann''" "''a@x''" "''7''"] free by auto
  have "BookSeat s' 1 0 ''Bob'' '''' '''' = Inr (False, s')"
    using BookSeat_exact [OF s'(2), of 1 0 "''Bob''" "''''" "''''"] s'(3) by simp
  with c s' show ?thesis by blast
qed


text \<open>A document model for the witness: values carry their own C++ type, text is the value.\<close>

datatype doc = D_Int int | D_Bools "bool list list" | D_Strings "string list list"
  | D_Obj "(string \<times> doc) list"

definition doc_lib :: "(doc, doc) json_lib" where
  "doc_lib = \<lparr>j_object = D_Obj, j_of_int = D_Int, j_of_bools = D_Bools, j_of_strings = D_Strings,
     j_field = (\<lambda>d k. case d of D_Obj kvs \<Rightarrow>
        (case map_of kvs k of Some v \<Rightarrow> Inr v | None \<Rightarrow> Inl Json_Error) | _ \<Rightarrow> Inl Json_Error),
     j_int = (\<lambda>d. case d of D_Int i \<Rightarrow> Inr i | _ \<Rightarrow> Inl Json_Error),
     j_bools = (\<lambda>d. case d of D_Bools b \<Rightarrow> Inr b | _ \<Rightarrow> Inl Json_Error),
     j_strings = (\<lambda>d. case d of D_Strings x \<Rightarrow> Inr x | _ \<Rightarrow> Inl Json_Error),
     j_dump = (\<lambda>d n. d), j_parse = Inr\<rparr>"

lemma doc_lib_laws: "json_laws doc_lib"
  by (simp add: json_laws_def doc_lib_def)


end
