(* ===== verification/Flight_Model.thy ===== *)
theory Flight_Model
  imports Seat_Map
begin

text \<open>
  A flight (\<open>Core/Flight.h\<close>, \<open>Core/Flight.cpp\<close>): its identity, its times and its seat map, the
  operations it forwards to the seat map, and the printable seat code.  The row and column of a seat
  code are \<open>unsigned short\<close>, modelled as 16-bit words.  The interpretation \<open>fl\<close> shows that a flight
  offers the same seat store contract as its seat map.
\<close>

section \<open>State and forwarding operations\<close>

record flight =
  m_FlightID :: string
  m_Origin :: string
  m_Destination :: string
  m_DepartureTime :: int
  m_ArrivalTime :: int
  f_SeatMap :: seat_map

definition Flight_ctor ::
  "string \<Rightarrow> string \<Rightarrow> string \<Rightarrow> int \<Rightarrow> int \<Rightarrow> int \<Rightarrow> int \<Rightarrow> fault + flight" where
  "Flight_ctor flightID origin destination departureTime arrivalTime rows cols =
     rbind (SeatMap_ctor rows cols) (\<lambda>sm.
     Inr \<lparr>m_FlightID = flightID, m_Origin = origin, m_Destination = destination,
          m_DepartureTime = departureTime, m_ArrivalTime = arrivalTime, f_SeatMap = sm\<rparr>)"

definition Flight_BookSeat ::
  "flight \<Rightarrow> int \<Rightarrow> int \<Rightarrow> string \<Rightarrow> string \<Rightarrow> string \<Rightarrow> fault + (bool \<times> flight)" where
  "Flight_BookSeat f row col passengerName email maxLoad =
     rbind (BookSeat (f_SeatMap f) row col passengerName email maxLoad) (\<lambda>(ok, sm).
     Inr (ok, f\<lparr>f_SeatMap := sm\<rparr>))"

definition Flight_CancelBooking :: "flight \<Rightarrow> int \<Rightarrow> int \<Rightarrow> fault + flight" where
  "Flight_CancelBooking f row col =
     rbind (CancelBooking (f_SeatMap f) row col) (\<lambda>sm. Inr (f\<lparr>f_SeatMap := sm\<rparr>))"

definition Flight_SaveToJSON ::
  "('j, 't) json_lib \<Rightarrow> (string \<Rightarrow> bool) \<Rightarrow> (string \<rightharpoonup> 't) \<Rightarrow> string \<Rightarrow> flight \<Rightarrow> (string \<rightharpoonup> 't)" where
  "Flight_SaveToJSON J writable files filename f = SaveToJSON J writable files filename (f_SeatMap f)"

definition Flight_LoadFromJSON ::
  "('j, 't) json_lib \<Rightarrow> (string \<rightharpoonup> 't) \<Rightarrow> string \<Rightarrow> flight \<Rightarrow> fault option \<times> flight" where
  "Flight_LoadFromJSON J files filename f =
     (case LoadFromJSON J files filename (f_SeatMap f) of (e, sm) \<Rightarrow> (e, f\<lparr>f_SeatMap := sm\<rparr>))"

definition Flight_DisplayInfo :: "flight \<Rightarrow> string" where
  "Flight_DisplayInfo f =
     ''Flight '' @ m_FlightID f @ '' to '' @ m_Destination f @ [CHR 0x0A] @ DisplaySeatMap (f_SeatMap f)"

definition Flight_GetPassengerName :: "flight \<Rightarrow> int \<Rightarrow> int \<Rightarrow> fault + string" where
  "Flight_GetPassengerName f row col = GetPassengerName (f_SeatMap f) row col"

definition Flight_GetEmail :: "flight \<Rightarrow> int \<Rightarrow> int \<Rightarrow> fault + string" where
  "Flight_GetEmail f row col = GetEmail (f_SeatMap f) row col"

definition Flight_GetMaxLoad :: "flight \<Rightarrow> int \<Rightarrow> int \<Rightarrow> fault + string" where
  "Flight_GetMaxLoad f row col = GetMaxLoad (f_SeatMap f) row col"

definition GetFlightID :: "flight \<Rightarrow> string" where
  "GetFlightID f = m_FlightID f"

definition GetDestination :: "flight \<Rightarrow> string" where
  "GetDestination f = m_Destination f"

section \<open>Seat codes\<close>

function seat_code_loop :: "16 word \<Rightarrow> string \<Rightarrow> 16 word \<times> string" where
  "seat_code_loop procRow lHandCode =
     (if procRow > 90 then seat_code_loop (procRow - 26) (lHandCode @ ''Z'')
      else (procRow, lHandCode))"
  by pat_completeness auto

lemma word_sub_26:
  assumes "(90 :: 16 word) < w"
  shows "unat (w - 26) = unat w - 26" and "90 < unat w"
proof -
  show "90 < unat w" using assms by (simp add: word_less_nat_alt)
  then have "(26 :: 16 word) \<le> w" by (simp add: word_le_nat_alt)
  then show "unat (w - 26) = unat w - 26" by (simp add: unat_sub)
qed

termination seat_code_loop
proof (relation "measure (\<lambda>(procRow, lHandCode). unat procRow)")
  fix procRow :: "16 word" and lHandCode :: string
  assume "90 < procRow"
  from word_sub_26 [OF this]
  show "((procRow - 26, lHandCode @ ''Z''), procRow, lHandCode)
      \<in> measure (\<lambda>(procRow, lHandCode). unat procRow)" by simp
qed simp

declare seat_code_loop.simps [simp del]

definition GenerateSeatCode :: "16 word \<Rightarrow> 16 word \<Rightarrow> string" where
  "GenerateSeatCode row col =
     (case seat_code_loop (row + 65) '''' of (procRow, lHandCode) \<Rightarrow>
        (lHandCode @ [char_of (unat procRow)]) @ show_nat (unat col))"

text \<open>The letters of a row: one \<open>Z\<close> for every 26 rows before it, then a letter of the alphabet.\<close>

definition row_letters :: "nat \<Rightarrow> string" where
  "row_letters n = replicate (n div 26) CHR ''Z'' @ [char_of (65 + n mod 26)]"

lemma seat_code_loop_eq:
  assumes "65 \<le> unat w"
  shows "seat_code_loop w z =
    (word_of_nat (65 + (unat w - 65) mod 26), z @ replicate ((unat w - 65) div 26) CHR ''Z'')"
  using assms
proof (induction w z rule: seat_code_loop.induct)
  case (1 w z)
  show ?case
  proof (cases "90 < w")
    case True
    note sub = word_sub_26 [OF True]
    have split: "unat w - 65 = (unat (w - 26) - 65) + 26" and ge: "65 \<le> unat (w - 26)"
      using sub by auto
    have "seat_code_loop w z = seat_code_loop (w - 26) (z @ ''Z'')"
      using True by (simp add: seat_code_loop.simps [of w])
    also have "\<dots> = (word_of_nat (65 + (unat (w - 26) - 65) mod 26),
        (z @ ''Z'') @ replicate ((unat (w - 26) - 65) div 26) CHR ''Z'')"
      by (rule "1.IH" [OF True ge])
    finally show ?thesis unfolding split
      by (simp add: div_add_self2 mod_add_self2 replicate_append_same [symmetric])
  next
    case False
    then have "unat w - 65 < 26" by (simp add: word_less_nat_alt)
    with False "1.prems" show ?thesis by (simp add: seat_code_loop.simps [of w])
  qed
qed

lemma GenerateSeatCode_eq:
  assumes "unat row + 65 < 2 ^ 16"
  shows "GenerateSeatCode row col = row_letters (unat row) @ show_nat (unat col)"
proof -
  have u: "unat (row + 65) = unat row + 65"
    using assms by (simp add: unat_word_ariths)
  have "65 + unat row mod 26 < 2 ^ 16" by (simp add: trans_less_add1)
  then have v: "unat (word_of_nat (65 + unat row mod 26) :: 16 word) = 65 + unat row mod 26"
    by (simp only: unat_of_nat) simp
  show ?thesis
    by (simp add: GenerateSeatCode_def seat_code_loop_eq u row_letters_def v del: of_nat_add)
qed

lemma row_letters_not_digit: "c \<in> set (row_letters n) \<Longrightarrow> \<not> is_digit c"
proof -
  have "65 + n mod 26 < 256" by (simp add: trans_less_add1)
  then have "of_char (char_of (65 + n mod 26) :: char) = (65 + n mod 26 :: nat)" by simp
  then show "c \<in> set (row_letters n) \<Longrightarrow> \<not> is_digit c"
    by (auto simp: row_letters_def is_digit_def)
qed

lemma row_letters_inj:
  assumes "row_letters m = row_letters n"
  shows "m = n"
proof -
  have "m div 26 = n div 26" using arg_cong [OF assms, of length] by (simp add: row_letters_def)
  moreover have "m mod 26 = n mod 26"
  proof -
    have "65 + m mod 26 < 256" "65 + n mod 26 < 256" by (simp_all add: trans_less_add1)
    moreover have "(char_of (65 + m mod 26) :: char) = char_of (65 + n mod 26)"
      using assms \<open>m div 26 = n div 26\<close> by (simp add: row_letters_def)
    then have "(of_char (char_of (65 + m mod 26) :: char) :: nat)
      = of_char (char_of (65 + n mod 26) :: char)" by simp
    ultimately show ?thesis by simp
  qed
  ultimately show ?thesis by (metis div_mult_mod_eq)
qed

lemma takeWhile_code:
  "takeWhile (\<lambda>c. \<not> is_digit c) (row_letters n @ show_nat k) = row_letters n"
proof -
  obtain d ds where d: "show_nat k = d # ds" using show_nat_nonempty [of k] by (cases "show_nat k") auto
  moreover have "is_digit d" using show_nat_digits [of k] d by simp
  ultimately show ?thesis
    using row_letters_not_digit [of _ n] by (simp add: takeWhile_append2)
qed

section \<open>The flight is a seat store\<close>

definition flight_inv :: "flight \<Rightarrow> bool" where
  "flight_inv f \<longleftrightarrow> seat_map_inv (f_SeatMap f)"

definition flight_valid :: "flight \<Rightarrow> seat \<Rightarrow> bool" where
  "flight_valid f p \<longleftrightarrow> valid_seat (f_SeatMap f) p"

definition flight_occupant :: "flight \<Rightarrow> seat \<rightharpoonup> booking" where
  "flight_occupant f = occupant (f_SeatMap f)"

definition flight_book :: "flight \<Rightarrow> seat \<Rightarrow> booking \<Rightarrow> fault + (bool \<times> flight)" where
  "flight_book f p b = Flight_BookSeat f (fst p) (snd p) (fst b) (fst (snd b)) (snd (snd b))"

definition flight_cancel :: "flight \<Rightarrow> seat \<Rightarrow> fault + flight" where
  "flight_cancel f p = Flight_CancelBooking f (fst p) (snd p)"

lemmas flight_store_defs = flight_inv_def flight_valid_def flight_occupant_def flight_book_def
  flight_cancel_def Flight_BookSeat_def Flight_CancelBooking_def

interpretation fl: seat_store flight_inv flight_valid flight_occupant flight_book flight_cancel
proof unfold_locales
  fix f p b
  assume inv: "flight_inv f"
  then have i: "seat_map_inv (f_SeatMap f)" by (simp add: flight_inv_def)
  show "\<exists>f'. flight_book f p b = Inr (True, f') \<and> flight_inv f' \<and> flight_valid f' = flight_valid f \<and>
      flight_occupant f' = (flight_occupant f)(p \<mapsto> b)"
    if "flight_valid f p" "flight_occupant f p = None"
    using that sm.book_free [OF i, of p b] by (auto simp: flight_store_defs book_op_def fun_eq_iff)
  show "flight_book f p b = Inr (False, f)"
    if "\<not> (flight_valid f p \<and> flight_occupant f p = None)"
    using that sm.book_refused [OF i, of p b] by (auto simp: flight_store_defs book_op_def)
  show "\<exists>f'. flight_cancel f p = Inr f' \<and> flight_inv f' \<and> flight_valid f' = flight_valid f \<and>
      flight_occupant f' = (flight_occupant f)(p := None)" if "flight_valid f p"
    using that sm.cancel_valid [OF i, of p] by (auto simp: flight_store_defs cancel_op_def fun_eq_iff)
  show "flight_cancel f p = Inr f" if "\<not> flight_valid f p"
    using that sm.cancel_invalid [OF i, of p] by (auto simp: flight_store_defs cancel_op_def)
  show "flight_valid f p" if "flight_occupant f p = Some b"
    using that sm.occ_valid [OF i, of p b] by (simp add: flight_store_defs)
qed

section \<open>Properties\<close>

text \<open>Seat codes identify seats: for every row below 65471 (above it the 16-bit row number plus
  65 wraps around), two seats with the same printed code are the same seat.\<close>

theorem seat_code_unique:
  assumes "unat r1 + 65 < 2 ^ 16" and "unat r2 + 65 < 2 ^ 16"
    and "GenerateSeatCode r1 c1 = GenerateSeatCode r2 c2"
  shows "r1 = r2 \<and> c1 = c2"
proof -
  have eq: "row_letters (unat r1) @ show_nat (unat c1) = row_letters (unat r2) @ show_nat (unat c2)"
    using assms by (simp add: GenerateSeatCode_eq)
  then have l: "row_letters (unat r1) = row_letters (unat r2)"
    using takeWhile_code by metis
  with eq have "show_nat (unat c1) = show_nat (unat c2)" by simp
  with row_letters_inj [OF l] show ?thesis by (simp add: show_nat_inj word_unat_eq_iff)
qed

theorem seat_code_unique_witness:
  "unat (27 :: 16 word) + 65 < 2 ^ 16 \<and>
   (GenerateSeatCode 27 4 = GenerateSeatCode 27 (2 + 2) \<and> (27 :: 16 word) = 27 \<and> (4 :: 16 word) = 2 + 2)
   \<and> GenerateSeatCode 27 4 = ''ZB4''"
proof -
  have h: "unat (27 :: 16 word) + 65 < 2 ^ 16" by simp
  have e: "GenerateSeatCode 27 4 = GenerateSeatCode 27 (2 + 2)" by simp
  have "GenerateSeatCode 27 4 = ''ZB4''"
    using h by (simp add: GenerateSeatCode_eq row_letters_def show_nat.simps digit_char_def) code_simp
  with h e seat_code_unique [OF h h e] show ?thesis by blast
qed

text \<open>Cancelling a seat of a flight and booking it again, which is how the GUI updates a
  booking, always succeeds on a seat of the cabin and replaces exactly that seat's booking.\<close>

theorem flight_update_booking:
  assumes "flight_inv f" and "flight_valid f (r, c)"
  shows "\<exists>f1 f2. Flight_CancelBooking f r c = Inr f1 \<and>
     Flight_BookSeat f1 r c n e l = Inr (True, f2) \<and> flight_inv f2 \<and>
     flight_occupant f2 = (flight_occupant f)((r, c) \<mapsto> (n, e, l))"
  using fl.cancel_then_book [OF assms, of "(n, e, l)"]
  by (auto simp: flight_cancel_def flight_book_def)

theorem flight_update_booking_witness:
  "\<exists>f f1 f2. Flight_ctor ''AA123'' ''MAD'' ''PAR'' 0 0 4 3 = Inr f \<and>
     Flight_CancelBooking f 1 1 = Inr f1 \<and>
     Flight_BookSeat f1 1 1 ''Ann'' ''a@x'' ''7'' = Inr (True, f2) \<and> flight_inv f2 \<and>
     flight_occupant f2 = [(1, 1) \<mapsto> (''Ann'', ''a@x'', ''7'')]"
proof -
  obtain s where s: "SeatMap_ctor 4 3 = Inr s" using SeatMap_ctor_ok [of 4 3] by auto
  note fresh = SeatMap_ctor_fresh [OF s]
  define f where "f = \<lparr>m_FlightID = ''AA123'', m_Origin = ''MAD'', m_Destination = ''PAR'',
    m_DepartureTime = 0, m_ArrivalTime = 0, f_SeatMap = s\<rparr>"
  have c: "Flight_ctor ''AA123'' ''MAD'' ''PAR'' 0 0 4 3 = Inr f"
    by (simp add: Flight_ctor_def s f_def)
  have "flight_inv f" "flight_valid f (1, 1)" "flight_occupant f = Map.empty"
    using fresh by (simp_all add: f_def flight_store_defs valid_seat_def in_grid_def)
  with c flight_update_booking [of f 1 1 "''Ann''" "''a@x''" "''7''"] show ?thesis by fastforce
qed

end
