(* ===== verification/Persistence.thy ===== *)
theory Persistence
  imports Sql_Access Flight_Model
begin

text \<open>
  The persistence manager (\<open>Core/PersistenceManager.h\<close>, \<open>Core/PersistenceManager.cpp\<close>) and the part
  of the seat map that loads from it (\<open>SeatMap::LoadFromFlightInformation\<close>).  Every operation builds
  the SQL text the source builds and runs it through \<open>Sql_Access\<close>.

  \<open>sql_tables\<close> is the contract with the SQL engine: what each of these statements does to the
  flights table and to a booking table, as documented by SQLite.  The lemmas about saving and
  loading are proved once inside it; \<open>mem_sql\<close> is an executable store that satisfies it, and is
  the instance the witnesses run on.
\<close>

section \<open>Data\<close>

record FlightInformation =
  fi_flightID :: string
  fi_origin :: string
  fi_destination :: string
  fi_bookingTable :: string
  fi_departureTime :: int
  fi_arrivalTime :: int
  fi_rows :: int
  fi_cols :: int

record BookingInformation =
  bi_name :: string
  bi_email :: string
  bi_maxLoad :: string
  bi_row :: int
  bi_col :: int

section \<open>SQL texts\<close>

definition create_flights_sql :: string where
  "create_flights_sql =
     ''CREATE TABLE IF NOT EXISTS flights ('' @
     ''flightId TEXT PRIMARY KEY,'' @ ''origin TEXT,'' @ ''destination TEXT,'' @
     ''departureTime DATETIME,'' @ ''arrivalTime DATETIME,'' @ ''bookingTable TEXT,'' @
     ''rows INTEGER,'' @ ''cols INTEGER'' @ '');''"

definition insert_flight_sql :: string where
  "insert_flight_sql =
     ''INSERT or REPLACE INTO flights (flightId, origin, destination, departureTime, arrivalTime, bookingTable, rows, cols) '' @
     ''VALUES (?, ?, ?, ?, ?, ?, ?, ?);''"

definition insert_flight_info_sql :: string where
  "insert_flight_info_sql =
     ''INSERT or REPLACE INTO flights (flightId, origin, destination, departureTime, arrivalTime, bookingTable) '' @
     ''VALUES (?, ?, ?, ?, ?, ?);''"

definition create_booking_sql :: "string \<Rightarrow> string" where
  "create_booking_sql t =
     ''CREATE TABLE IF NOT EXISTS '' @ t @
     '' (name TEXT,email TEXT,maxLoad TEXT,row INTEGER,col INTEGER);''"

definition select_seat_sql :: "string \<Rightarrow> string" where
  "select_seat_sql t = ''SELECT row, col FROM '' @ t @ '' WHERE row = ? AND col = ?;''"

definition update_seat_sql :: "string \<Rightarrow> string" where
  "update_seat_sql t =
     ''UPDATE '' @ t @ '' SET name = ?, email = ?, maxLoad = ? WHERE row = ? AND col = ?;''"

definition insert_seat_sql :: "string \<Rightarrow> string" where
  "insert_seat_sql t =
     ''INSERT INTO '' @ t @ ''(name, email, maxLoad, row, col) VALUES (?, ?, ?, ?, ?);''"

definition delete_seat_sql :: "string \<Rightarrow> string" where
  "delete_seat_sql t = ''DELETE FROM '' @ t @ '' WHERE row = ? AND col = ? ''"

definition count_sql :: "string \<Rightarrow> string" where
  "count_sql t = ''SELECT COUNT(*) FROM '' @ t @ '';''"

definition select_all_sql :: "string \<Rightarrow> string" where
  "select_all_sql t = ''SELECT * FROM '' @ t @ '';''"

definition select_flights_sql :: string where
  "select_flights_sql = ''SELECT * FROM flights''"

section \<open>Writing operations\<close>

definition CreateFlightsTable :: "'db sqlite \<Rightarrow> (unit, 'db) db_op" where
  "CreateFlightsTable S = Database_exec S create_flights_sql"

definition run_bound :: "'db sqlite \<Rightarrow> string \<Rightarrow> sql_value list \<Rightarrow> (unit, 'db) db_op" where
  "run_bound S q vs =
     db_bind (Statement_ctor S q) (\<lambda>st.
     db_bind (db_lift (Statement_binds st 1 vs)) (\<lambda>st'. Statement_exec S st'))"

definition InsertFlight ::
  "'db sqlite \<Rightarrow> string \<Rightarrow> string \<Rightarrow> string \<Rightarrow> string \<Rightarrow> string \<Rightarrow> int \<Rightarrow> int \<Rightarrow> (unit, 'db) db_op" where
  "InsertFlight S flightId origin destination departureTime arrivalTime rows cols =
     (let bookingTable = ''booking'' @ flightId
      in in_transaction S (run_bound S insert_flight_sql
           [SQL_Text flightId, SQL_Text origin, SQL_Text destination, SQL_Text departureTime,
            SQL_Text arrivalTime, SQL_Text bookingTable, SQL_Int rows, SQL_Int cols]))"

definition InsertFlight_info :: "'db sqlite \<Rightarrow> FlightInformation \<Rightarrow> (unit, 'db) db_op" where
  "InsertFlight_info S info =
     (let bookingTable = ''booking'' @ fi_flightID info
      in in_transaction S (run_bound S insert_flight_info_sql
           [SQL_Text (fi_flightID info), SQL_Text (fi_origin info), SQL_Text (fi_destination info),
            SQL_Int (fi_departureTime info), SQL_Int (fi_arrivalTime info), SQL_Text bookingTable,
            SQL_Int (fi_rows info), SQL_Int (fi_cols info)]))"

definition CreateBookingTable :: "'db sqlite \<Rightarrow> string \<Rightarrow> (unit, 'db) db_op" where
  "CreateBookingTable S tableName = Database_exec S (create_booking_sql tableName)"

text \<open>The body of the transaction that stores one seat: update its row if there is one, else insert.\<close>

definition store_seat ::
  "'db sqlite \<Rightarrow> string \<Rightarrow> int \<Rightarrow> int \<Rightarrow> string \<Rightarrow> string \<Rightarrow> string \<Rightarrow> (unit, 'db) db_op" where
  "store_seat S tableName row col name email maxLoad =
     db_bind (Statement_ctor S (select_seat_sql tableName)) (\<lambda>chk.
     db_bind (db_lift (Statement_binds chk 1 [SQL_Int row, SQL_Int col])) (\<lambda>chk'.
     db_bind (Statement_executeStep S chk') (\<lambda>found.
       (case found of
          Some _ \<Rightarrow> run_bound S (update_seat_sql tableName)
                      [SQL_Text name, SQL_Text email, SQL_Text maxLoad, SQL_Int row, SQL_Int col]
        | None \<Rightarrow> run_bound S (insert_seat_sql tableName)
                      [SQL_Text name, SQL_Text email, SQL_Text maxLoad, SQL_Int row, SQL_Int col]))))"

text \<open>The two nested loops visit the seats in row-major order.\<close>

definition seat_positions :: "int \<Rightarrow> int \<Rightarrow> seat list" where
  "seat_positions rows cols = concat (map (\<lambda>r. map (\<lambda>c. (r, c)) [0..cols - 1]) [0..rows - 1])"

text \<open>One turn of the loops: a seat without a passenger name is skipped.\<close>

definition store_if_named :: "'db sqlite \<Rightarrow> string \<Rightarrow> seat_map \<Rightarrow> seat \<Rightarrow> (unit, 'db) db_op" where
  "store_if_named S tableName seatMap p =
     (case p of (row, col) \<Rightarrow>
        db_bind (db_lift (grid_get (GetVecPassengerMap seatMap) row col)) (\<lambda>name.
          if name = [] then db_return ()
          else db_bind (db_lift (GetEmail seatMap row col)) (\<lambda>email.
               db_bind (db_lift (GetMaxLoad seatMap row col)) (\<lambda>maxLoad.
                 in_transaction S (store_seat S tableName row col name email maxLoad)))))"

definition InsertBookingData :: "'db sqlite \<Rightarrow> flight \<Rightarrow> string \<Rightarrow> (unit, 'db) db_op" where
  "InsertBookingData S f tableName =
     (let seatMap = f_SeatMap f
      in db_for (seat_positions (m_Rows seatMap) (m_Cols seatMap)) (store_if_named S tableName seatMap))"

definition DeleteBookingData :: "'db sqlite \<Rightarrow> string \<Rightarrow> int \<Rightarrow> int \<Rightarrow> 'db \<Rightarrow> 'db" where
  "DeleteBookingData S tableName row col db =
     snd (run_bound S (delete_seat_sql tableName) [SQL_Int row, SQL_Int col] db)"

section \<open>Reading operations\<close>

text \<open>\<open>size_t\<close> has 64 bits; the error value \<open>-1\<close> becomes its greatest number.\<close>

definition CountEntriesInTable :: "'db sqlite \<Rightarrow> string \<Rightarrow> 'db \<Rightarrow> nat \<times> 'db" where
  "CountEntriesInTable S tableName db =
     (case db_bind (Statement_ctor S (count_sql tableName)) (Statement_executeStep S) db of
        (Inl e, db') \<Rightarrow> (unat (- 1 :: 64 word), db')
      | (Inr None, db') \<Rightarrow> (0, db')
      | (Inr (Some []), db') \<Rightarrow> (unat (- 1 :: 64 word), db')
      | (Inr (Some ((k, v) # _)), db') \<Rightarrow> (unat (word_of_int (getInt S v) :: 64 word), db'))"

text \<open>\<open>reserve\<close> throws above \<open>max_size()\<close> of a vector of 8-byte pointers.\<close>

definition vec_reserve :: "nat \<Rightarrow> fault + unit" where
  "vec_reserve n = (if n > 2 ^ 61 - 1 then Inl Length_Error else Inr ())"

definition booking_of_row :: "'db sqlite \<Rightarrow> sql_row \<Rightarrow> fault + BookingInformation" where
  "booking_of_row S row =
     rbind (column_string row ''name'') (\<lambda>name.
     rbind (column_string row ''email'') (\<lambda>email.
     rbind (column_string row ''maxLoad'') (\<lambda>maxLoad.
     rbind (column_int S row ''row'') (\<lambda>r.
     rbind (column_int S row ''col'') (\<lambda>c.
     Inr \<lparr>bi_name = name, bi_email = email, bi_maxLoad = maxLoad, bi_row = r, bi_col = c\<rparr>)))))"

definition flight_of_row ::
  "'db sqlite \<Rightarrow> (string \<Rightarrow> int) \<Rightarrow> sql_row \<Rightarrow> fault + FlightInformation" where
  "flight_of_row S DatetimeToInt row =
     rbind (column_string row ''flightId'') (\<lambda>flightID.
     rbind (column_string row ''origin'') (\<lambda>origin.
     rbind (column_string row ''destination'') (\<lambda>destination.
     rbind (column_string row ''bookingTable'') (\<lambda>bookingTable.
     rbind (column_string row ''departureTime'') (\<lambda>dep.
     rbind (column_string row ''arrivalTime'') (\<lambda>arr.
     rbind (column_int S row ''rows'') (\<lambda>rows.
     rbind (column_int S row ''cols'') (\<lambda>cols.
     Inr \<lparr>fi_flightID = flightID, fi_origin = origin, fi_destination = destination,
          fi_bookingTable = bookingTable, fi_departureTime = DatetimeToInt dep,
          fi_arrivalTime = DatetimeToInt arr, fi_rows = rows, fi_cols = cols\<rparr>))))))))"

text \<open>The exception of the query is caught: what was pushed before it is returned.\<close>

definition query_all ::
  "'db sqlite \<Rightarrow> string \<Rightarrow> string \<Rightarrow> (sql_row \<Rightarrow> fault + 'a) \<Rightarrow> ('a list, 'db) db_op" where
  "query_all S tableName q f db =
     (case CountEntriesInTable S tableName db of (numEntries, db1) \<Rightarrow>
       (case vec_reserve numEntries of
          Inl e \<Rightarrow> (Inl e, db1)
        | Inr _ \<Rightarrow>
            (case Statement_ctor S q db1 of
               (Inl e, db2) \<Rightarrow> (Inr [], db2)
             | (Inr st, db2) \<Rightarrow>
                 (case Statement_loop S st f db2 of ((xs, err), db3) \<Rightarrow> (Inr xs, db3)))))"

definition GetFlightsInfo ::
  "'db sqlite \<Rightarrow> (string \<Rightarrow> int) \<Rightarrow> (FlightInformation list, 'db) db_op" where
  "GetFlightsInfo S DatetimeToInt =
     query_all S ''flights'' select_flights_sql (flight_of_row S DatetimeToInt)"

definition GetBookingsInfo :: "'db sqlite \<Rightarrow> string \<Rightarrow> (BookingInformation list, 'db) db_op" where
  "GetBookingsInfo S tableName = query_all S tableName (select_all_sql tableName) (booking_of_row S)"

section \<open>Loading a seat map\<close>

definition place_booking :: "seat_map \<Rightarrow> BookingInformation \<Rightarrow> fault + seat_map" where
  "place_booking s b =
     rbind (grid_set (m_SeatMap s) (bi_row b) (bi_col b) False) (\<lambda>seats.
     rbind (grid_set (m_PassengerMap s) (bi_row b) (bi_col b) (bi_name b)) (\<lambda>names.
     rbind (grid_set (m_EmailMap s) (bi_row b) (bi_col b) (bi_email b)) (\<lambda>emails.
     rbind (grid_set (m_MaxLoadMap s) (bi_row b) (bi_col b) (bi_maxLoad b)) (\<lambda>loads.
     Inr (s\<lparr>m_SeatMap := seats, m_PassengerMap := names, m_EmailMap := emails,
            m_MaxLoadMap := loads\<rparr>)))))"

fun place_bookings :: "seat_map \<Rightarrow> BookingInformation list \<Rightarrow> fault + seat_map" where
  "place_bookings s [] = Inr s"
| "place_bookings s (b # bs) = rbind (place_booking s b) (\<lambda>s'. place_bookings s' bs)"

definition LoadFromFlightInformation ::
  "'db sqlite \<Rightarrow> FlightInformation \<Rightarrow> seat_map \<Rightarrow> (seat_map, 'db) db_op" where
  "LoadFromFlightInformation S info s =
     (let tableName = ''Booking'' @ fi_flightID info
      in db_bind (GetBookingsInfo S tableName) (\<lambda>bookingInfos.
         db_bind (db_lift (Internal_InitMaps (s\<lparr>m_Rows := fi_rows info, m_Cols := fi_cols info\<rparr>))) (\<lambda>s'.
         db_lift (place_bookings s' bookingInfos))))"

definition Flight_LoadFromFlightInformation ::
  "'db sqlite \<Rightarrow> FlightInformation \<Rightarrow> flight \<Rightarrow> (flight, 'db) db_op" where
  "Flight_LoadFromFlightInformation S info f =
     db_bind (LoadFromFlightInformation S info (f_SeatMap f)) (\<lambda>sm. db_return (f\<lparr>f_SeatMap := sm\<rparr>))"

section \<open>Printing\<close>

definition print_flight_row :: "'db sqlite \<Rightarrow> sql_row \<Rightarrow> fault + string" where
  "print_flight_row S row =
     rbind (column_string row ''flightId'') (\<lambda>flightId.
     rbind (column_string row ''origin'') (\<lambda>origin.
     rbind (column_string row ''destination'') (\<lambda>destination.
     rbind (column_string row ''departureTime'') (\<lambda>departureTime.
     rbind (column_string row ''arrivalTime'') (\<lambda>arrivalTime.
     rbind (column_int S row ''rows'') (\<lambda>rows.
     rbind (column_int S row ''cols'') (\<lambda>cols.
     let nl = [CHR 0x0A] in
     Inr (''Flight ID: '' @ flightId @ nl @ ''Origin: '' @ origin @ nl @
          ''Destination: '' @ destination @ nl @ ''Departure Time: '' @ departureTime @ nl @
          ''Arrival Time: '' @ arrivalTime @ nl @ ''Rows: '' @ show_int rows @ nl @
          ''Cols: '' @ show_int cols @ nl @ nl))))))))"

definition PrintFlights :: "'db sqlite \<Rightarrow> (string, 'db) db_op" where
  "PrintFlights S =
     db_bind (Statement_ctor S (select_all_sql ''flights'')) (\<lambda>st db.
       (case Statement_loop S st (print_flight_row S) db of
          ((out, None), db') \<Rightarrow> (Inr (concat out), db')
        | ((out, Some e), db') \<Rightarrow> (Inl e, db')))"

definition Save :: "(unit, 'db) db_op" where
  "Save = db_lift (Inl (Thrown ''Not Implemented''))"

definition print_booking_row :: "'db sqlite \<Rightarrow> sql_row \<Rightarrow> fault + string" where
  "print_booking_row S row =
     rbind (column_int S row ''row'') (\<lambda>r.
     rbind (column_int S row ''col'') (\<lambda>c.
     rbind (column_string row ''name'') (\<lambda>name.
     rbind (column_string row ''maxLoad'') (\<lambda>maxLoad.
     rbind (column_string row ''email'') (\<lambda>email.
     let nl = [CHR 0x0A] in
     Inr (''Seat Row: '' @ show_int r @ nl @ ''Seat Column: '' @ show_int c @ nl @
          ''Passenger Name: '' @ name @ nl @ ''Max Load: '' @ maxLoad @ nl @
          ''Email Address: '' @ email @ nl @ nl))))))"

definition PrintBooking :: "'db sqlite \<Rightarrow> string \<Rightarrow> (string, 'db) db_op" where
  "PrintBooking S tableName =
     db_bind (Statement_ctor S (select_all_sql tableName)) (\<lambda>st db.
       (case Statement_loop S st (print_booking_row S) db of
          ((out, None), db') \<Rightarrow> (Inr (concat out), db')
        | ((out, Some e), db') \<Rightarrow> (Inl e, db')))"

section \<open>The contract with the SQL engine\<close>

definition lower_char :: "char \<Rightarrow> char" where
  "lower_char c = (let n = (of_char c :: nat) in if 65 \<le> n \<and> n \<le> 90 then char_of (n + 32) else c)"

text \<open>SQL identifiers are case-insensitive: tables are keyed by the lower-case name.\<close>

definition sql_name :: "string \<Rightarrow> string" where
  "sql_name = map lower_char"

definition ident_char :: "char \<Rightarrow> bool" where
  "ident_char c \<longleftrightarrow> (let n = (of_char c :: nat) in
     (48 \<le> n \<and> n \<le> 57) \<or> (65 \<le> n \<and> n \<le> 90) \<or> (97 \<le> n \<and> n \<le> 122) \<or> n = 95)"

definition sql_ident :: "string \<Rightarrow> bool" where
  "sql_ident t \<longleftrightarrow> t \<noteq> [] \<and> \<not> is_digit (hd t) \<and> list_all ident_char t \<and> sql_name t \<noteq> ''flights''"

record tables =
  t_bookings :: "string \<rightharpoonup> BookingInformation list"
  t_flights :: "sql_row list option"

definition at_seat :: "int \<Rightarrow> int \<Rightarrow> BookingInformation \<Rightarrow> bool" where
  "at_seat r c b \<longleftrightarrow> bi_row b = r \<and> bi_col b = c"

definition booking_row :: "BookingInformation \<Rightarrow> sql_row" where
  "booking_row b =
     [(''name'', SQL_Text (bi_name b)), (''email'', SQL_Text (bi_email b)),
      (''maxLoad'', SQL_Text (bi_maxLoad b)), (''row'', SQL_Int (bi_row b)), (''col'', SQL_Int (bi_col b))]"

definition seat_row :: "BookingInformation \<Rightarrow> sql_row" where
  "seat_row b = [(''row'', SQL_Int (bi_row b)), (''col'', SQL_Int (bi_col b))]"

definition upd_booking :: "string \<Rightarrow> string \<Rightarrow> string \<Rightarrow> int \<Rightarrow> int \<Rightarrow> BookingInformation \<Rightarrow> BookingInformation" where
  "upd_booking n e l r c b = (if at_seat r c b then b\<lparr>bi_name := n, bi_email := e, bi_maxLoad := l\<rparr> else b)"

definition mk_booking :: "string \<Rightarrow> string \<Rightarrow> string \<Rightarrow> int \<Rightarrow> int \<Rightarrow> BookingInformation" where
  "mk_booking n e l r c = \<lparr>bi_name = n, bi_email = e, bi_maxLoad = l, bi_row = r, bi_col = c\<rparr>"

definition put_table :: "tables \<Rightarrow> string \<Rightarrow> BookingInformation list \<Rightarrow> tables" where
  "put_table v t bs = v\<lparr>t_bookings := (t_bookings v)(sql_name t \<mapsto> bs)\<rparr>"

lemma t_bookings_put [simp]: "t_bookings (put_table v t bs) = (t_bookings v)(sql_name t \<mapsto> bs)"
  by (simp add: put_table_def)

lemma t_flights_put [simp]: "t_flights (put_table v t bs) = t_flights v"
  by (simp add: put_table_def)

lemma put_put_table [simp]: "put_table (put_table v t as) t bs = put_table v t bs"
  by (rule tables.equality) auto

lemma put_table_same: "t_bookings v (sql_name t) = Some bs \<Longrightarrow> put_table v t bs = v"
  by (rule tables.equality) auto

locale sql_tables = sql_transactions S intx view base
  for S :: "'db sqlite" and intx :: "'db \<Rightarrow> bool" and view :: "'db \<Rightarrow> tables" and base :: "'db \<Rightarrow> tables" +
  fixes keeps :: "'db \<Rightarrow> 'db \<Rightarrow> bool"
  assumes keeps_iff: "keeps db db' \<longleftrightarrow> intx db' = intx db \<and> (intx db \<longrightarrow> base db' = base db)"
    and prepare_booking:
    "sql_ident t \<Longrightarrow> t_bookings (view db) (sql_name t) = Some bs \<Longrightarrow>
       sq_prepare S db (select_seat_sql t) = Inr 2 \<and> sq_prepare S db (update_seat_sql t) = Inr 5 \<and>
       sq_prepare S db (insert_seat_sql t) = Inr 5 \<and> sq_prepare S db (delete_seat_sql t) = Inr 2 \<and>
       sq_prepare S db (count_sql t) = Inr 0 \<and> sq_prepare S db (select_all_sql t) = Inr 0"
    and prepare_missing:
    "sql_ident t \<Longrightarrow> t_bookings (view db) (sql_name t) = None \<Longrightarrow>
       (\<exists>e. sq_prepare S db (count_sql t) = Inl e) \<and> (\<exists>e. sq_prepare S db (select_seat_sql t) = Inl e)"
    and prepare_flights:
    "t_flights (view db) = Some fs \<Longrightarrow> sq_prepare S db insert_flight_sql = Inr 8"
    and prepare_flights_missing:
    "t_flights (view db) = None \<Longrightarrow> \<exists>e. sq_prepare S db (count_sql ''flights'') = Inl e"
    and prepare_flight_info: "sq_prepare S db insert_flight_info_sql = Inr k \<Longrightarrow> k = 6"
    and run_select_seat:
    "sql_ident t \<Longrightarrow> t_bookings (view db) (sql_name t) = Some bs \<Longrightarrow>
       \<exists>db'. sq_run S db (select_seat_sql t) [SQL_Int r, SQL_Int c] =
               (map seat_row (filter (at_seat r c) bs), None, db') \<and> keeps db db' \<and> view db' = view db"
    and run_update_seat:
    "sql_ident t \<Longrightarrow> t_bookings (view db) (sql_name t) = Some bs \<Longrightarrow>
       \<exists>db'. sq_run S db (update_seat_sql t)
                [SQL_Text n, SQL_Text e, SQL_Text l, SQL_Int r, SQL_Int c] = ([], None, db') \<and>
             keeps db db' \<and> view db' = put_table (view db) t (map (upd_booking n e l r c) bs)"
    and run_insert_seat:
    "sql_ident t \<Longrightarrow> t_bookings (view db) (sql_name t) = Some bs \<Longrightarrow>
       \<exists>db'. sq_run S db (insert_seat_sql t)
                [SQL_Text n, SQL_Text e, SQL_Text l, SQL_Int r, SQL_Int c] = ([], None, db') \<and>
             keeps db db' \<and> view db' = put_table (view db) t (bs @ [mk_booking n e l r c])"
    and run_delete_seat:
    "sql_ident t \<Longrightarrow> t_bookings (view db) (sql_name t) = Some bs \<Longrightarrow>
       \<exists>db'. sq_run S db (delete_seat_sql t) [SQL_Int r, SQL_Int c] = ([], None, db') \<and>
             keeps db db' \<and> view db' = put_table (view db) t (filter (\<lambda>b. \<not> at_seat r c b) bs)"
    and run_count:
    "sql_ident t \<Longrightarrow> t_bookings (view db) (sql_name t) = Some bs \<Longrightarrow>
       \<exists>db'. sq_run S db (count_sql t) [] = ([[(''COUNT(*)'', SQL_Int (int (length bs)))]], None, db') \<and>
             keeps db db' \<and> view db' = view db"
    and run_select_all:
    "sql_ident t \<Longrightarrow> t_bookings (view db) (sql_name t) = Some bs \<Longrightarrow>
       \<exists>db'. sq_run S db (select_all_sql t) [] = (map booking_row bs, None, db') \<and>
             keeps db db' \<and> view db' = view db"
    and run_insert_flight:
    "t_flights (view db) = Some fs \<Longrightarrow> length vs = 8 \<Longrightarrow> hd vs = SQL_Text fid \<Longrightarrow>
       \<exists>db' row. sq_run S db insert_flight_sql vs = ([], None, db') \<and> keeps db db' \<and>
         map_of row ''flightId'' = Some (SQL_Text fid) \<and>
         view db' = (view db)\<lparr>t_flights :=
           Some (filter (\<lambda>r. map_of r ''flightId'' \<noteq> Some (SQL_Text fid)) fs @ [row])\<rparr>"
    and exec_create_booking:
    "sql_ident t \<Longrightarrow> \<exists>db'. sq_exec S db (create_booking_sql t) = (None, db') \<and> keeps db db' \<and>
       view db' = (case t_bookings (view db) (sql_name t) of
                     Some bs \<Rightarrow> view db | None \<Rightarrow> put_table (view db) t [])"
begin

lemma run_bound_eq:
  assumes "sq_prepare S db q = Inr (length vs)"
  shows "run_bound S q vs db = Statement_exec S \<lparr>mQuery = q, aVar = vs\<rparr> db"
  using assms Statement_binds_all [of vs "\<lparr>mQuery = q, aVar = replicate (length vs) SQL_Null\<rparr>"]
  by (simp add: run_bound_def Statement_ctor_def)

end

section \<open>What saving and loading do to a booking table\<close>

text \<open>Storing one seat in a table: update the rows of that seat, or append a row.\<close>

definition upsert :: "BookingInformation list \<Rightarrow> BookingInformation \<Rightarrow> BookingInformation list" where
  "upsert bs b =
     (if filter (at_seat (bi_row b) (bi_col b)) bs = []
      then bs @ [b]
      else map (upd_booking (bi_name b) (bi_email b) (bi_maxLoad b) (bi_row b) (bi_col b)) bs)"

definition seat_of :: "BookingInformation \<Rightarrow> seat" where
  "seat_of b = (bi_row b, bi_col b)"

definition booking_of :: "BookingInformation \<Rightarrow> booking" where
  "booking_of b = (bi_name b, bi_email b, bi_maxLoad b)"

text \<open>The bookings a table holds; a later row of the same seat wins, as it does when loading.\<close>

definition table_map :: "BookingInformation list \<Rightarrow> seat \<rightharpoonup> booking" where
  "table_map bs = map_of (rev (map (\<lambda>b. (seat_of b, booking_of b)) bs))"

text \<open>The rows that saving a seat map writes: every seat with a non-empty passenger name.\<close>

definition row_of_seat :: "seat_map \<Rightarrow> seat \<Rightarrow> BookingInformation" where
  "row_of_seat s p = mk_booking (cell (m_PassengerMap s) (fst p) (snd p))
     (cell (m_EmailMap s) (fst p) (snd p)) (cell (m_MaxLoadMap s) (fst p) (snd p)) (fst p) (snd p)"

definition named_seats :: "seat_map \<Rightarrow> seat list \<Rightarrow> seat list" where
  "named_seats s = filter (\<lambda>p. cell (m_PassengerMap s) (fst p) (snd p) \<noteq> [])"

definition saved_rows :: "seat_map \<Rightarrow> BookingInformation list" where
  "saved_rows s = map (row_of_seat s) (named_seats s (seat_positions (m_Rows s) (m_Cols s)))"

lemma set_seat_positions: "set (seat_positions R C) = {(r, c). in_grid R C r c}"
  by (auto simp: seat_positions_def in_grid_def)

lemma distinct_pairs:
  "distinct xs \<Longrightarrow> distinct ys \<Longrightarrow> distinct (concat (map (\<lambda>x. map (\<lambda>y. (x, y)) ys) xs))"
  by (induction xs) (auto simp: distinct_map inj_on_def)

lemma distinct_seat_positions: "distinct (seat_positions R C)"
  unfolding seat_positions_def by (rule distinct_pairs) simp_all

lemma at_seat_iff: "at_seat (bi_row b) (bi_col b) x \<longleftrightarrow> seat_of x = seat_of b"
  by (auto simp: at_seat_def seat_of_def)

lemma seat_of_upd [simp]: "seat_of (upd_booking n e l r c b) = seat_of b"
  by (simp add: upd_booking_def seat_of_def)

lemma table_map_Nil [simp]: "table_map [] = Map.empty"
  by (simp add: table_map_def)

lemma table_map_snoc: "table_map (bs @ [b]) = (table_map bs)(seat_of b \<mapsto> booking_of b)"
  by (rule ext) (simp add: table_map_def)

lemma table_map_in: "table_map bs p = Some x \<Longrightarrow> p \<in> seat_of ` set bs"
  unfolding table_map_def by (drule map_of_SomeD) auto

lemma dom_table_map: "dom (table_map bs) = seat_of ` set bs"
  by (simp add: table_map_def dom_map_of_conv_image_fst image_image)

lemma table_map_upd:
  "table_map (map (upd_booking n e l r c) bs) =
     (\<lambda>p. if p = (r, c) \<and> p \<in> seat_of ` set bs then Some (n, e, l) else table_map bs p)"
proof (induction bs rule: rev_induct)
  case Nil
  then show ?case by simp
next
  case (snoc b bs)
  have "table_map (map (upd_booking n e l r c) (bs @ [b])) =
      (table_map (map (upd_booking n e l r c) bs))
        (seat_of b \<mapsto> booking_of (upd_booking n e l r c b))"
    by (simp add: table_map_snoc)
  also have "\<dots> = (\<lambda>p. if p = (r, c) \<and> p \<in> seat_of ` set (bs @ [b]) then Some (n, e, l)
      else table_map (bs @ [b]) p)"
    unfolding snoc.IH table_map_snoc
    by (rule ext) (auto simp: upd_booking_def booking_of_def seat_of_def at_seat_def)
  finally show ?case .
qed

lemma table_map_upsert: "table_map (upsert bs b) = (table_map bs)(seat_of b \<mapsto> booking_of b)"
proof (cases "filter (at_seat (bi_row b) (bi_col b)) bs = []")
  case True
  then show ?thesis by (simp add: upsert_def table_map_snoc)
next
  case False
  then have "seat_of b \<in> seat_of ` set bs" by (auto simp: filter_empty_conv at_seat_iff) (metis imageI)
  then show ?thesis using False
    by (auto simp: upsert_def table_map_upd seat_of_def [of b] booking_of_def [of b] fun_eq_iff)
qed

lemma table_map_upserts:
  "table_map (foldl upsert bs xs) = table_map bs ++ table_map xs"
proof (induction xs rule: rev_induct)
  case Nil
  then show ?case by simp
next
  case (snoc x xs)
  have "table_map (foldl upsert bs (xs @ [x])) = (table_map bs ++ table_map xs)(seat_of x \<mapsto> booking_of x)"
    by (simp only: foldl_append foldl.simps table_map_upsert snoc)
  then show ?case by (simp only: table_map_snoc map_add_upd)
qed

lemma table_map_saved_rows:
  "table_map (saved_rows s) =
     (\<lambda>p. if valid_seat s p \<and> cell (m_PassengerMap s) (fst p) (snd p) \<noteq> []
        then Some (cell (m_PassengerMap s) (fst p) (snd p), cell (m_EmailMap s) (fst p) (snd p),
                   cell (m_MaxLoadMap s) (fst p) (snd p))
        else None)"
proof -
  let ?ps = "named_seats s (seat_positions (m_Rows s) (m_Cols s))"
  let ?g = "\<lambda>p. (cell (m_PassengerMap s) (fst p) (snd p), cell (m_EmailMap s) (fst p) (snd p),
    cell (m_MaxLoadMap s) (fst p) (snd p))"
  have "map (\<lambda>b. (seat_of b, booking_of b)) (saved_rows s) = map (\<lambda>p. (p, ?g p)) ?ps"
    by (simp add: saved_rows_def row_of_seat_def mk_booking_def seat_of_def booking_of_def)
  then have "table_map (saved_rows s) = map_of (map (\<lambda>p. (p, ?g p)) (rev ?ps))"
    by (simp add: table_map_def rev_map)
  also have "\<dots> = (\<lambda>p. if p \<in> set ?ps then Some (?g p) else None)"
    by (rule ext) (auto simp: map_of_map_restrict restrict_map_def)
  finally show ?thesis
    by (auto simp: fun_eq_iff named_seats_def set_seat_positions valid_seat_def)
qed

section \<open>Loading rows into a seat map\<close>

lemma place_booking_eq:
  assumes "seat_map_dims s" and "valid_seat s (seat_of b)"
  shows "place_booking s b = Inr (write_seat s (seat_of b) False (booking_of b))"
proof -
  have "in_grid (m_Rows s) (m_Cols s) (bi_row b) (bi_col b)"
    using assms(2) by (simp add: valid_seat_def seat_of_def)
  with assms(1) show ?thesis
    by (simp add: place_booking_def seat_map_dims_def grid_set_ok [of "m_Rows s" "m_Cols s"]
        write_seat_def seat_of_def booking_of_def)
qed

lemma place_bookings_ok:
  assumes "seat_map_inv s" and "\<And>b. b \<in> set bs \<Longrightarrow> valid_seat s (seat_of b)"
  shows "\<exists>s'. place_bookings s bs = Inr s' \<and> seat_map_inv s' \<and> m_Rows s' = m_Rows s \<and>
     m_Cols s' = m_Cols s \<and> occupant s' = occupant s ++ table_map bs"
  using assms
proof (induction bs arbitrary: s)
  case Nil
  then show ?case by simp
next
  case (Cons b bs)
  let ?s1 = "write_seat s (seat_of b) False (booking_of b)"
  have dims: "seat_map_dims s" and v: "valid_seat s (seat_of b)"
    using Cons.prems by (simp_all add: seat_map_inv_def)
  have inv1: "seat_map_inv ?s1" using write_seat_inv [OF Cons.prems(1) v, of False] by simp
  obtain s' where s': "place_bookings ?s1 bs = Inr s'" "seat_map_inv s'" "m_Rows s' = m_Rows s"
    "m_Cols s' = m_Cols s" "occupant s' = occupant ?s1 ++ table_map bs"
    using Cons.IH [OF inv1] Cons.prems(2) by auto
  have "occupant s' = occupant s ++ table_map (b # bs)"
    by (rule ext) (auto simp: s'(5) occupant_write_seat [OF dims v] table_map_def map_add_def
        map_of_append split: option.split)
  with s' show ?case by (simp add: place_booking_eq [OF dims v])
qed

text \<open>A row outside the cabin is an unchecked vector access.\<close>

lemma place_booking_out:
  assumes "seat_map_dims s" and "\<not> valid_seat s (seat_of b)"
  shows "place_booking s b = Inl Bad_Index"
proof (cases "0 \<le> bi_row b \<and> bi_row b < m_Rows s")
  case True
  then have "int (length (m_SeatMap s ! nat (bi_row b))) = m_Cols s"
    using assms(1) grid_dims_row [of "m_Rows s" "m_Cols s" "m_SeatMap s" "bi_row b"]
    by (simp add: seat_map_dims_def)
  with True assms show ?thesis
    by (auto simp: place_booking_def grid_set_def vec_get_def vec_set_def seat_map_dims_def
        grid_dims_def valid_seat_def in_grid_def seat_of_def)
next
  case False
  with assms(1) show ?thesis
    by (auto simp: place_booking_def grid_set_def vec_get_def seat_map_dims_def grid_dims_def)
qed

lemma booking_of_booking_row:
  assumes "is_int32 (bi_row b)" and "is_int32 (bi_col b)"
  shows "booking_of_row S (booking_row b) = Inr b"
  using assms
  by (simp add: booking_of_row_def booking_row_def column_string_def column_int_def getColumn_def
      getInt_def getString_def to_int32_id)

lemma push_booking_rows:
  assumes "\<And>b. b \<in> set bs \<Longrightarrow> is_int32 (bi_row b) \<and> is_int32 (bi_col b)"
  shows "push_rows (map booking_row bs) None (booking_of_row S) = (bs, None)"
  using assms by (induction bs) (simp_all add: booking_of_booking_row)

lemma to_size_small: "0 \<le> i \<Longrightarrow> i < 2 ^ 31 \<Longrightarrow> unat (word_of_int i :: 64 word) = nat i"
  by (simp add: unat_eq_nat_uint uint_word_of_int)

lemma vec_reserve_max: "vec_reserve (unat (- 1 :: 64 word)) = Inl Length_Error"
  by (simp add: vec_reserve_def unsigned_minus_1_eq_mask mask_eq_exp_minus_1)

context sql_tables
begin

lemma store_seat_ok:
  assumes "sql_ident t" and "t_bookings (view db) (sql_name t) = Some bs"
  shows "\<exists>db'. store_seat S t r c n e l db = (Inr (), db') \<and> keeps db db' \<and>
     view db' = put_table (view db) t (upsert bs (mk_booking n e l r c))"
proof -
  note prep = prepare_booking [OF assms]
  obtain db1 where 1: "sq_run S db (select_seat_sql t) [SQL_Int r, SQL_Int c] =
      (map seat_row (filter (at_seat r c) bs), None, db1)" "keeps db db1" "view db1 = view db"
    using run_select_seat [OF assms] by blast
  have t1: "t_bookings (view db1) (sql_name t) = Some bs" using 1 assms(2) by simp
  note prep1 = prepare_booking [OF assms(1) t1]
  let ?vs = "[SQL_Text n, SQL_Text e, SQL_Text l, SQL_Int r, SQL_Int c]"
  have sel: "store_seat S t r c n e l db =
      run_bound S (if filter (at_seat r c) bs = [] then insert_seat_sql t else update_seat_sql t) ?vs db1"
    using prep Statement_binds_all [of "[SQL_Int r, SQL_Int c]"
        "\<lparr>mQuery = select_seat_sql t, aVar = replicate 2 SQL_Null\<rparr>"] 1(1)
    by (cases "filter (at_seat r c) bs")
       (simp_all add: store_seat_def Statement_ctor_def Statement_executeStep_def)
  have trans: "keeps db db2" if "keeps db1 db2" for db2
    using that 1(2) by (auto simp: keeps_iff)
  show ?thesis
  proof (cases "filter (at_seat r c) bs = []")
    case True
    obtain db2 where "sq_run S db1 (insert_seat_sql t) ?vs = ([], None, db2)" "keeps db1 db2"
      "view db2 = put_table (view db1) t (bs @ [mk_booking n e l r c])"
      using run_insert_seat [OF assms(1) t1, of n e l r c] by blast
    with True sel prep1 1(3) trans show ?thesis
      by (simp add: run_bound_eq Statement_exec_def upsert_def mk_booking_def)
  next
    case False
    obtain db2 where "sq_run S db1 (update_seat_sql t) ?vs = ([], None, db2)" "keeps db1 db2"
      "view db2 = put_table (view db1) t (map (upd_booking n e l r c) bs)"
      using run_update_seat [OF assms(1) t1, of n e l r c] by blast
    with False sel prep1 1(3) trans show ?thesis
      by (simp add: run_bound_eq Statement_exec_def upsert_def mk_booking_def)
  qed
qed

lemma store_seat_transaction:
  assumes "sql_ident t" and "t_bookings (view db) (sql_name t) = Some bs" and "\<not> intx db"
  shows "\<exists>db'. in_transaction S (store_seat S t r c n e l) db = (Inr (), db') \<and> \<not> intx db' \<and>
     view db' = put_table (view db) t (upsert bs (mk_booking n e l r c))"
proof (rule in_transaction_commits [OF assms(3)])
  fix db1 assume "intx db1" "view db1 = view db"
  then show "\<exists>db2. store_seat S t r c n e l db1 = (Inr (), db2) \<and> intx db2 \<and>
      view db2 = put_table (view db) t (upsert bs (mk_booking n e l r c))"
    using store_seat_ok [of t db1 bs r c n e l] assms(1,2) by (auto simp: keeps_iff)
qed

text \<open>The loop of \<open>InsertBookingData\<close> over a list of seats.\<close>

lemma store_seats_ok:
  assumes "sql_ident t" and "t_bookings (view db) (sql_name t) = Some bs" and "\<not> intx db"
    and "seat_map_dims s" and "list_all (valid_seat s) ps"
  shows "\<exists>db'. db_for ps (store_if_named S t s) db = (Inr (), db') \<and> \<not> intx db' \<and>
     view db' = put_table (view db) t (foldl upsert bs (map (row_of_seat s) (named_seats s ps)))"
  using assms
proof (induction ps arbitrary: db bs)
  case Nil
  then show ?case by (simp add: db_return_def named_seats_def put_table_same)
next
  case (Cons p ps)
  obtain r c where p: "p = (r, c)" by (cases p)
  have v: "valid_seat s (r, c)" and vs: "list_all (valid_seat s) ps" using Cons.prems(5) p by simp_all
  have get: "grid_get (m_PassengerMap s) r c = Inr (cell (m_PassengerMap s) r c)"
    using v assms(4) by (simp add: grid_get_ok [of "m_Rows s" "m_Cols s"] seat_map_dims_def valid_seat_def)
  show ?case
  proof (cases "cell (m_PassengerMap s) r c = []")
    case True
    then have "store_if_named S t s p db = (Inr (), db)"
      by (simp add: store_if_named_def p GetVecPassengerMap_def get db_return_def)
    with True show ?thesis
      using Cons.IH [OF Cons.prems(1-4) vs] p by (simp add: named_seats_def)
  next
    case False
    obtain db1 where 1: "in_transaction S (store_seat S t r c (cell (m_PassengerMap s) r c)
        (cell (m_EmailMap s) r c) (cell (m_MaxLoadMap s) r c)) db = (Inr (), db1)" "\<not> intx db1"
      "view db1 = put_table (view db) t (upsert bs (row_of_seat s p))"
      using store_seat_transaction [OF Cons.prems(1-3)] unfolding row_of_seat_def p by fastforce
    have step: "store_if_named S t s p db = (Inr (), db1)"
      using False v by (simp add: store_if_named_def p GetVecPassengerMap_def get
          getters_eq [OF assms(4)] 1(1))
    have t1: "t_bookings (view db1) (sql_name t) = Some (upsert bs (row_of_seat s p))"
      using 1(3) by simp
    from Cons.IH [OF Cons.prems(1) t1 1(2) assms(4) vs] obtain db2 where
      2: "db_for ps (store_if_named S t s) db1 = (Inr (), db2)" "\<not> intx db2"
      "view db2 = put_table (view db1) t
         (foldl upsert (upsert bs (row_of_seat s p)) (map (row_of_seat s) (named_seats s ps)))"
      by blast
    show ?thesis
      using 1(3) 2 False p step by (simp add: named_seats_def)
  qed
qed

lemma InsertBookingData_ok:
  assumes "sql_ident t" and "t_bookings (view db) (sql_name t) = Some bs" and "\<not> intx db"
    and "flight_inv f"
  shows "\<exists>db'. InsertBookingData S f t db = (Inr (), db') \<and> \<not> intx db' \<and>
     view db' = put_table (view db) t (foldl upsert bs (saved_rows (f_SeatMap f)))"
proof -
  let ?s = "f_SeatMap f"
  have dims: "seat_map_dims ?s" using assms(4) by (simp add: flight_inv_def seat_map_inv_def)
  have "list_all (valid_seat ?s) (seat_positions (m_Rows ?s) (m_Cols ?s))"
    by (auto simp: set_seat_positions valid_seat_def list_all_iff)
  from store_seats_ok [OF assms(1-3) dims this] show ?thesis
    by (simp only: InsertBookingData_def saved_rows_def Let_def)
qed

lemma GetBookingsInfo_ok:
  assumes "sql_ident t" and "t_bookings (view db) (sql_name t) = Some bs"
    and "int (length bs) < 2 ^ 31"
    and "\<And>b. b \<in> set bs \<Longrightarrow> is_int32 (bi_row b) \<and> is_int32 (bi_col b)"
  shows "\<exists>db'. GetBookingsInfo S t db = (Inr bs, db') \<and> keeps db db' \<and> view db' = view db"
proof -
  obtain db1 where 1: "sq_run S db (count_sql t) [] =
      ([[(''COUNT(*)'', SQL_Int (int (length bs)))]], None, db1)" "keeps db db1" "view db1 = view db"
    using run_count [OF assms(1,2)] by blast
  have t1: "t_bookings (view db1) (sql_name t) = Some bs" using 1 assms(2) by simp
  obtain db2 where 2: "sq_run S db1 (select_all_sql t) [] = (map booking_row bs, None, db2)"
    "keeps db1 db2" "view db2 = view db1" using run_select_all [OF assms(1) t1] by blast
  have len: "is_int32 (int (length bs))" using assms(3) by (simp add: is_int32_def)
  have cnt: "CountEntriesInTable S t db = (length bs, db1)"
    using prepare_booking [OF assms(1,2)] 1(1) to_size_small [of "int (length bs)"] assms(3)
    by (simp add: CountEntriesInTable_def Statement_ctor_def Statement_executeStep_def getInt_def
        to_int32_id [OF len])
  have res: "vec_reserve (length bs) = Inr ()" using assms(3) by (simp add: vec_reserve_def)
  have "keeps db db2" using 1(2) 2(2) by (auto simp: keeps_iff)
  then show ?thesis
    using prepare_booking [OF assms(1) t1] 2 1(3) push_booking_rows [OF assms(4), of bs S]
    by (simp add: GetBookingsInfo_def query_all_def cnt res Statement_ctor_def Statement_loop_def)
qed

lemma GetBookingsInfo_missing:
  assumes "sql_ident t" and "t_bookings (view db) (sql_name t) = None"
  shows "GetBookingsInfo S t db = (Inl Length_Error, db)"
  using prepare_missing [OF assms]
  by (auto simp: GetBookingsInfo_def query_all_def CountEntriesInTable_def Statement_ctor_def
      db_bind_def vec_reserve_max)

lemma GetFlightsInfo_missing:
  assumes "t_flights (view db) = None"
  shows "GetFlightsInfo S dt db = (Inl Length_Error, db)"
  using prepare_flights_missing [OF assms]
  by (auto simp: GetFlightsInfo_def query_all_def CountEntriesInTable_def Statement_ctor_def
      db_bind_def vec_reserve_max)

lemma DeleteBookingData_ok:
  assumes "sql_ident t" and "t_bookings (view db) (sql_name t) = Some bs"
  shows "keeps db (DeleteBookingData S t r c db) \<and> view (DeleteBookingData S t r c db) =
     put_table (view db) t (filter (\<lambda>b. \<not> at_seat r c b) bs)"
proof -
  obtain db1 where "sq_run S db (delete_seat_sql t) [SQL_Int r, SQL_Int c] = ([], None, db1)"
    "keeps db db1" "view db1 = put_table (view db) t (filter (\<lambda>b. \<not> at_seat r c b) bs)"
    using run_delete_seat [OF assms] by blast
  then show ?thesis
    using prepare_booking [OF assms] by (simp add: DeleteBookingData_def run_bound_eq Statement_exec_def)
qed

lemma Load_ok:
  assumes "sql_ident (''Booking'' @ fi_flightID info)"
    and "t_bookings (view db) (sql_name (''Booking'' @ fi_flightID info)) = Some bs"
    and "int (length bs) < 2 ^ 31" and "SeatMap_ctor (fi_rows info) (fi_cols info) = Inr s"
    and "is_int32 (fi_rows info)" and "is_int32 (fi_cols info)"
    and "\<And>b. b \<in> set bs \<Longrightarrow> valid_seat s (seat_of b)"
  shows "\<exists>db' s'. LoadFromFlightInformation S info s db = (Inr s', db') \<and> view db' = view db \<and>
     keeps db db' \<and> seat_map_inv s' \<and> m_Rows s' = fi_rows info \<and> m_Cols s' = fi_cols info \<and>
     occupant s' = table_map bs"
proof -
  note fresh = SeatMap_ctor_fresh [OF assms(4)]
  have i32: "is_int32 (bi_row b) \<and> is_int32 (bi_col b)" if "b \<in> set bs" for b
    using assms(5,6) assms(7) [OF that] fresh(3,4)
    by (auto simp: valid_seat_def in_grid_def seat_of_def is_int32_def)
  obtain db1 where 1: "GetBookingsInfo S (''Booking'' @ fi_flightID info) db = (Inr bs, db1)"
    "keeps db db1" "view db1 = view db" using GetBookingsInfo_ok [OF assms(1-3) i32] by blast
  have init: "Internal_InitMaps (s\<lparr>m_Rows := fi_rows info, m_Cols := fi_cols info\<rparr>) = Inr s"
    using fresh(1,3,4)
    by (cases s) (auto simp: Internal_InitMaps_def vec_make_def seat_map_inv_def seat_map_dims_def
        grid_dims_def vec_resize_same)
  obtain s' where "place_bookings s bs = Inr s'" "seat_map_inv s'" "m_Rows s' = m_Rows s"
    "m_Cols s' = m_Cols s" "occupant s' = occupant s ++ table_map bs"
    using place_bookings_ok [OF fresh(1) assms(7)] by blast
  with 1 init fresh show ?thesis
    by (simp add: LoadFromFlightInformation_def db_lift_def)
qed

lemma InsertFlight_info_noop:
  assumes "\<not> intx db" and "\<And>d. keeps d d"
  shows "\<exists>db'. InsertFlight_info S info db = (Inr (), db') \<and> \<not> intx db' \<and> view db' = view db"
proof -
  have "\<exists>e. run_bound S insert_flight_info_sql
      [SQL_Text (fi_flightID info), SQL_Text (fi_origin info), SQL_Text (fi_destination info),
       SQL_Int (fi_departureTime info), SQL_Int (fi_arrivalTime info),
       SQL_Text (''booking'' @ fi_flightID info), SQL_Int (fi_rows info), SQL_Int (fi_cols info)] db1
      = (Inl e, db1)" for db1
  proof (cases "sq_prepare S db1 insert_flight_info_sql")
    case (Inl e)
    then show ?thesis by (simp add: run_bound_def Statement_ctor_def)
  next
    case (Inr n)
    then have "n = 6" by (rule prepare_flight_info)
    with Inr show ?thesis
      by (simp add: run_bound_def Statement_ctor_def Statement_bind_def)
  qed
  then show ?thesis
    unfolding InsertFlight_info_def Let_def
    by (intro in_transaction_rolls_back [OF assms(1)]) fastforce
qed

lemma InsertFlight_ok:
  assumes "\<not> intx db" and "t_flights (view db) = Some fs"
  shows "\<exists>db' row. InsertFlight S fid origin dest dep arr rows cols db = (Inr (), db') \<and> \<not> intx db' \<and>
     map_of row ''flightId'' = Some (SQL_Text fid) \<and>
     view db' = (view db)\<lparr>t_flights :=
       Some (filter (\<lambda>r. map_of r ''flightId'' \<noteq> Some (SQL_Text fid)) fs @ [row])\<rparr>"
proof -
  let ?vs = "[SQL_Text fid, SQL_Text origin, SQL_Text dest, SQL_Text dep, SQL_Text arr,
    SQL_Text (''booking'' @ fid), SQL_Int rows, SQL_Int cols]"
  obtain db1 where 1: "sq_exec S db ''BEGIN TRANSACTION'' = (None, db1)" "intx db1"
    "view db1 = view db" using begin_ok [OF assms(1)] by blast
  have f1: "t_flights (view db1) = Some fs" using 1(3) assms(2) by simp
  obtain db2 row where 2: "sq_run S db1 insert_flight_sql ?vs = ([], None, db2)" "keeps db1 db2"
    "map_of row ''flightId'' = Some (SQL_Text fid)"
    "view db2 = (view db1)\<lparr>t_flights :=
       Some (filter (\<lambda>r. map_of r ''flightId'' \<noteq> Some (SQL_Text fid)) fs @ [row])\<rparr>"
    using run_insert_flight [OF f1, of ?vs fid] by auto
  obtain db3 where 3: "sq_exec S db2 ''COMMIT TRANSACTION'' = (None, db3)" "\<not> intx db3"
    "view db3 = view db2" using commit_ok [of db2] 1(2) 2(2) by (auto simp: keeps_iff)
  have "run_bound S insert_flight_sql ?vs db1 = (Inr (), db2)"
    using prepare_flights [OF f1] 2(1) run_bound_eq [of db1 insert_flight_sql ?vs]
    by (simp add: Statement_exec_def)
  then have "InsertFlight S fid origin dest dep arr rows cols db = (Inr (), db3)"
    using 1(1) 3(1)
    by (simp add: InsertFlight_def in_transaction_def Transaction_ctor_def Database_exec_def
        Transaction_commit_def db_return_def Transaction_dtor_def)
  with 1 2 3 show ?thesis by auto
qed

end

section \<open>An executable store that satisfies the contract\<close>

text \<open>
  \<open>mem_sql\<close> keeps the tables in memory and recognises the statements the persistence manager issues
  by their text; inside a transaction it remembers the content to return to.
\<close>

record mem_db =
  mem_view :: tables
  mem_saved :: "tables option"

fun strip_pre :: "string \<Rightarrow> string \<Rightarrow> string option" where
  "strip_pre [] q = Some q"
| "strip_pre (p # ps) [] = None"
| "strip_pre (p # ps) (c # cs) = (if p = c then strip_pre ps cs else None)"

definition strip_mid :: "string \<Rightarrow> string \<Rightarrow> string \<Rightarrow> string option" where
  "strip_mid pre suf q =
     (case strip_pre pre q of
        None \<Rightarrow> None
      | Some r \<Rightarrow> map_option rev (strip_pre (rev suf) (rev r)))"

lemma strip_pre_append [simp]: "strip_pre p (p @ q) = Some q"
  by (induction p) auto

lemma strip_mid_app [simp]: "strip_mid p s (p @ t @ s) = Some t"
  by (simp add: strip_mid_def)

lemma strip_mid_fail: "strip_pre p q = None \<Longrightarrow> strip_mid p s q = None"
  by (simp add: strip_mid_def)

datatype mem_stmt =
    M_Select_Seat string | M_Update string | M_Insert string | M_Delete string
  | M_Count string | M_All string | M_Insert_Flight | M_Insert_Flight_Info | M_Flights | M_Other

definition try_stmt :: "string option \<Rightarrow> (string \<Rightarrow> mem_stmt) \<Rightarrow> mem_stmt \<Rightarrow> mem_stmt" where
  "try_stmt o1 k other = (case o1 of Some t \<Rightarrow> k t | None \<Rightarrow> other)"

definition mem_parse :: "string \<Rightarrow> mem_stmt" where
  "mem_parse q =
     (if q = insert_flight_sql then M_Insert_Flight
      else if q = insert_flight_info_sql then M_Insert_Flight_Info
      else if q = select_flights_sql then M_Flights
      else try_stmt (strip_mid ''SELECT row, col FROM '' '' WHERE row = ? AND col = ?;'' q) M_Select_Seat
          (try_stmt (strip_mid ''UPDATE '' '' SET name = ?, email = ?, maxLoad = ? WHERE row = ? AND col = ?;'' q) M_Update
          (try_stmt (strip_mid ''INSERT INTO '' ''(name, email, maxLoad, row, col) VALUES (?, ?, ?, ?, ?);'' q) M_Insert
          (try_stmt (strip_mid ''DELETE FROM '' '' WHERE row = ? AND col = ? '' q) M_Delete
          (try_stmt (strip_mid ''SELECT COUNT(*) FROM '' '';'' q) M_Count
          (try_stmt (strip_mid ''SELECT * FROM '' '';'' q) M_All M_Other))))))"

lemmas sql_texts = insert_flight_sql_def insert_flight_info_sql_def select_flights_sql_def
  select_seat_sql_def update_seat_sql_def insert_seat_sql_def delete_seat_sql_def count_sql_def
  select_all_sql_def

lemma mem_parse_texts [simp]:
  "mem_parse insert_flight_sql = M_Insert_Flight"
  "mem_parse insert_flight_info_sql = M_Insert_Flight_Info"
  "mem_parse select_flights_sql = M_Flights"
  by (simp_all add: mem_parse_def sql_texts)

lemma mem_parse_select [simp]: "mem_parse (select_seat_sql t) = M_Select_Seat t"
proof -
  have "strip_mid ''SELECT row, col FROM '' '' WHERE row = ? AND col = ?;'' (select_seat_sql t) = Some t"
    unfolding select_seat_sql_def by (rule strip_mid_app)
  moreover have "select_seat_sql t \<noteq> insert_flight_sql" "select_seat_sql t \<noteq> insert_flight_info_sql"
    "select_seat_sql t \<noteq> select_flights_sql" by (simp_all add: sql_texts)
  ultimately show ?thesis by (simp add: mem_parse_def try_stmt_def)
qed

lemma mem_parse_update [simp]: "mem_parse (update_seat_sql t) = M_Update t"
proof -
  have "strip_mid ''UPDATE '' '' SET name = ?, email = ?, maxLoad = ? WHERE row = ? AND col = ?;''
      (update_seat_sql t) = Some t" unfolding update_seat_sql_def by (rule strip_mid_app)
  moreover have "update_seat_sql t \<noteq> insert_flight_sql" "update_seat_sql t \<noteq> insert_flight_info_sql"
    "update_seat_sql t \<noteq> select_flights_sql"
    "strip_pre ''SELECT row, col FROM '' (update_seat_sql t) = None" by (simp_all add: sql_texts)
  ultimately show ?thesis by (simp add: mem_parse_def try_stmt_def strip_mid_fail)
qed

lemma mem_parse_insert [simp]: "mem_parse (insert_seat_sql t) = M_Insert t"
proof -
  have "strip_mid ''INSERT INTO '' ''(name, email, maxLoad, row, col) VALUES (?, ?, ?, ?, ?);''
      (insert_seat_sql t) = Some t" unfolding insert_seat_sql_def by (rule strip_mid_app)
  moreover have "insert_seat_sql t \<noteq> insert_flight_sql" "insert_seat_sql t \<noteq> insert_flight_info_sql"
    "insert_seat_sql t \<noteq> select_flights_sql"
    "strip_pre ''SELECT row, col FROM '' (insert_seat_sql t) = None"
    "strip_pre ''UPDATE '' (insert_seat_sql t) = None" by (simp_all add: sql_texts)
  ultimately show ?thesis by (simp add: mem_parse_def try_stmt_def strip_mid_fail)
qed

lemma mem_parse_delete [simp]: "mem_parse (delete_seat_sql t) = M_Delete t"
proof -
  have "strip_mid ''DELETE FROM '' '' WHERE row = ? AND col = ? '' (delete_seat_sql t) = Some t"
    unfolding delete_seat_sql_def by (rule strip_mid_app)
  moreover have "delete_seat_sql t \<noteq> insert_flight_sql" "delete_seat_sql t \<noteq> insert_flight_info_sql"
    "delete_seat_sql t \<noteq> select_flights_sql"
    "strip_pre ''SELECT row, col FROM '' (delete_seat_sql t) = None"
    "strip_pre ''UPDATE '' (delete_seat_sql t) = None"
    "strip_pre ''INSERT INTO '' (delete_seat_sql t) = None" by (simp_all add: sql_texts)
  ultimately show ?thesis by (simp add: mem_parse_def try_stmt_def strip_mid_fail)
qed

lemma mem_parse_count [simp]: "mem_parse (count_sql t) = M_Count t"
proof -
  have "strip_mid ''SELECT COUNT(*) FROM '' '';'' (count_sql t) = Some t"
    unfolding count_sql_def by (rule strip_mid_app)
  moreover have "count_sql t \<noteq> insert_flight_sql" "count_sql t \<noteq> insert_flight_info_sql"
    "count_sql t \<noteq> select_flights_sql" "strip_pre ''SELECT row, col FROM '' (count_sql t) = None"
    "strip_pre ''UPDATE '' (count_sql t) = None" "strip_pre ''INSERT INTO '' (count_sql t) = None"
    "strip_pre ''DELETE FROM '' (count_sql t) = None" by (simp_all add: sql_texts)
  ultimately show ?thesis by (simp add: mem_parse_def try_stmt_def strip_mid_fail)
qed

lemma mem_parse_all [simp]: "mem_parse (select_all_sql t) = M_All t"
proof -
  have "strip_mid ''SELECT * FROM '' '';'' (select_all_sql t) = Some t"
    unfolding select_all_sql_def by (rule strip_mid_app)
  moreover have "last (select_all_sql t) = CHR '';''" by (simp add: select_all_sql_def)
  then have "select_all_sql t \<noteq> select_flights_sql" by (auto simp: select_flights_sql_def)
  moreover have "select_all_sql t \<noteq> insert_flight_sql" "select_all_sql t \<noteq> insert_flight_info_sql"
    "strip_pre ''SELECT row, col FROM '' (select_all_sql t) = None"
    "strip_pre ''UPDATE '' (select_all_sql t) = None" "strip_pre ''INSERT INTO '' (select_all_sql t) = None"
    "strip_pre ''DELETE FROM '' (select_all_sql t) = None"
    "strip_pre ''SELECT COUNT(*) FROM '' (select_all_sql t) = None" by (simp_all add: sql_texts)
  ultimately show ?thesis by (simp add: mem_parse_def try_stmt_def strip_mid_fail)
qed

definition no_table :: fault where
  "no_table = Sql_Error ''no such table''"

definition mem_table :: "mem_db \<Rightarrow> string \<Rightarrow> BookingInformation list option" where
  "mem_table db t = t_bookings (mem_view db) (sql_name t)"

definition has_table :: "mem_db \<Rightarrow> string \<Rightarrow> nat \<Rightarrow> fault + nat" where
  "has_table db t n =
     (if sql_name t = ''flights''
      then (case t_flights (mem_view db) of None \<Rightarrow> Inl no_table | Some _ \<Rightarrow> Inr n)
      else (case mem_table db t of None \<Rightarrow> Inl no_table | Some _ \<Rightarrow> Inr n))"

definition mem_prepare :: "mem_db \<Rightarrow> string \<Rightarrow> fault + nat" where
  "mem_prepare db q =
     (case mem_parse q of
        M_Select_Seat t \<Rightarrow> has_table db t 2
      | M_Update t \<Rightarrow> has_table db t 5
      | M_Insert t \<Rightarrow> has_table db t 5
      | M_Delete t \<Rightarrow> has_table db t 2
      | M_Count t \<Rightarrow> has_table db t 0
      | M_All t \<Rightarrow> has_table db t 0
      | M_Insert_Flight \<Rightarrow> has_table db ''flights'' 8
      | M_Insert_Flight_Info \<Rightarrow> has_table db ''flights'' 6
      | M_Flights \<Rightarrow> has_table db ''flights'' 0
      | M_Other \<Rightarrow> Inl (Sql_Error ''not recognised''))"

definition flight_cols :: "string list" where
  "flight_cols = [''flightId'', ''origin'', ''destination'', ''departureTime'', ''arrivalTime'',
     ''bookingTable'', ''rows'', ''cols'']"

definition mem_put :: "mem_db \<Rightarrow> string \<Rightarrow> BookingInformation list \<Rightarrow> sql_row list \<times> fault option \<times> mem_db" where
  "mem_put db t bs = ([], None, db\<lparr>mem_view := put_table (mem_view db) t bs\<rparr>)"

definition mem_run :: "mem_db \<Rightarrow> string \<Rightarrow> sql_value list \<Rightarrow> sql_row list \<times> fault option \<times> mem_db" where
  "mem_run db q vs =
     (let bad = ([], Some (Sql_Error ''not recognised''), db);
          rows = (\<lambda>t. case mem_table db t of None \<Rightarrow> [] | Some bs \<Rightarrow> bs);
          flights = (case t_flights (mem_view db) of None \<Rightarrow> [] | Some fs \<Rightarrow> fs)
      in (case mem_parse q of
            M_Select_Seat t \<Rightarrow>
              (case vs of [SQL_Int r, SQL_Int c] \<Rightarrow>
                 (map seat_row (filter (at_seat r c) (rows t)), None, db) | _ \<Rightarrow> bad)
          | M_Update t \<Rightarrow>
              (case vs of [SQL_Text n, SQL_Text e, SQL_Text l, SQL_Int r, SQL_Int c] \<Rightarrow>
                 mem_put db t (map (upd_booking n e l r c) (rows t)) | _ \<Rightarrow> bad)
          | M_Insert t \<Rightarrow>
              (case vs of [SQL_Text n, SQL_Text e, SQL_Text l, SQL_Int r, SQL_Int c] \<Rightarrow>
                 mem_put db t (rows t @ [mk_booking n e l r c]) | _ \<Rightarrow> bad)
          | M_Delete t \<Rightarrow>
              (case vs of [SQL_Int r, SQL_Int c] \<Rightarrow>
                 mem_put db t (filter (\<lambda>b. \<not> at_seat r c b) (rows t)) | _ \<Rightarrow> bad)
          | M_Count t \<Rightarrow>
              ([[(''COUNT(*)'', SQL_Int (int (if sql_name t = ''flights'' then length flights
                                              else length (rows t))))]], None, db)
          | M_All t \<Rightarrow> (if sql_name t = ''flights'' then flights else map booking_row (rows t), None, db)
          | M_Flights \<Rightarrow> (flights, None, db)
          | M_Insert_Flight \<Rightarrow>
              ([], None, db\<lparr>mem_view := (mem_view db)\<lparr>t_flights :=
                 Some (filter (\<lambda>r. map_of r ''flightId'' \<noteq> Some (hd vs)) flights @ [zip flight_cols vs])\<rparr>\<rparr>)
          | M_Insert_Flight_Info \<Rightarrow>
              ([], None, db\<lparr>mem_view := (mem_view db)\<lparr>t_flights :=
                 Some (filter (\<lambda>r. map_of r ''flightId'' \<noteq> Some (hd vs)) flights @ [zip flight_cols vs])\<rparr>\<rparr>)
          | M_Other \<Rightarrow> bad))"

definition mem_exec :: "mem_db \<Rightarrow> string \<Rightarrow> fault option \<times> mem_db" where
  "mem_exec db q =
     (if q = ''BEGIN TRANSACTION'' then
        (if mem_saved db = None then (None, db\<lparr>mem_saved := Some (mem_view db)\<rparr>)
         else (Some (Sql_Error ''cannot start a transaction within a transaction''), db))
      else if q = ''COMMIT TRANSACTION'' then
        (if mem_saved db = None then (Some (Sql_Error ''no transaction is active''), db)
         else (None, db\<lparr>mem_saved := None\<rparr>))
      else if q = ''ROLLBACK TRANSACTION'' then
        (case mem_saved db of
           None \<Rightarrow> (Some (Sql_Error ''no transaction is active''), db)
         | Some v \<Rightarrow> (None, \<lparr>mem_view = v, mem_saved = None\<rparr>))
      else if q = create_flights_sql then
        (None, db\<lparr>mem_view := (mem_view db)\<lparr>t_flights :=
           Some (case t_flights (mem_view db) of None \<Rightarrow> [] | Some fs \<Rightarrow> fs)\<rparr>\<rparr>)
      else (case strip_mid ''CREATE TABLE IF NOT EXISTS ''
              '' (name TEXT,email TEXT,maxLoad TEXT,row INTEGER,col INTEGER);'' q of
              None \<Rightarrow> (Some (Sql_Error ''not recognised''), db)
            | Some t \<Rightarrow> (None,
                (case mem_table db t of
                   Some _ \<Rightarrow> db
                 | None \<Rightarrow> db\<lparr>mem_view := put_table (mem_view db) t []\<rparr>))))"

definition mem_sql :: "mem_db sqlite" where
  "mem_sql = \<lparr>sq_exec = mem_exec, sq_prepare = mem_prepare, sq_run = mem_run, sq_text_int = (\<lambda>_. 0)\<rparr>"

definition mem_intx :: "mem_db \<Rightarrow> bool" where
  "mem_intx db \<longleftrightarrow> mem_saved db \<noteq> None"

definition mem_base :: "mem_db \<Rightarrow> tables" where
  "mem_base db = (case mem_saved db of Some v \<Rightarrow> v | None \<Rightarrow> mem_view db)"

definition mem_keeps :: "mem_db \<Rightarrow> mem_db \<Rightarrow> bool" where
  "mem_keeps db db' \<longleftrightarrow> mem_intx db' = mem_intx db \<and> (mem_intx db \<longrightarrow> mem_base db' = mem_base db)"

lemma mem_create_booking:
  assumes "sql_ident t"
  shows "mem_exec db (create_booking_sql t) = (None,
    (case mem_table db t of Some _ \<Rightarrow> db | None \<Rightarrow> db\<lparr>mem_view := put_table (mem_view db) t []\<rparr>))"
proof -
  have "strip_mid ''CREATE TABLE IF NOT EXISTS ''
      '' (name TEXT,email TEXT,maxLoad TEXT,row INTEGER,col INTEGER);'' (create_booking_sql t) = Some t"
    unfolding create_booking_sql_def by (rule strip_mid_app)
  moreover have "create_booking_sql t \<noteq> create_flights_sql"
  proof
    assume "create_booking_sql t = create_flights_sql"
    then have "strip_pre (rev '' (name TEXT,email TEXT,maxLoad TEXT,row INTEGER,col INTEGER);'')
        (rev (create_booking_sql t)) =
      strip_pre (rev '' (name TEXT,email TEXT,maxLoad TEXT,row INTEGER,col INTEGER);'')
        (rev create_flights_sql)" by simp
    then show False by (simp add: create_booking_sql_def create_flights_sql_def)
  qed
  ultimately show ?thesis by (simp add: mem_exec_def create_booking_sql_def)
qed

lemma sql_name_flights [simp]: "sql_name ''flights'' = ''flights''"
  by code_simp

lemmas mem_defs = mem_sql_def mem_prepare_def mem_run_def has_table_def mem_table_def mem_put_def
  mem_intx_def mem_base_def mem_keeps_def sql_ident_def

interpretation mem: sql_transactions mem_sql mem_intx mem_view mem_base
  by unfold_locales (auto simp: mem_sql_def mem_exec_def mem_intx_def mem_base_def)

interpretation memt: sql_tables mem_sql mem_intx mem_view mem_base mem_keeps
proof unfold_locales
  show "\<exists>db' row. sq_run mem_sql db insert_flight_sql vs = ([], None, db') \<and> mem_keeps db db' \<and>
      map_of row ''flightId'' = Some (SQL_Text fid) \<and>
      mem_view db' = (mem_view db)\<lparr>t_flights :=
        Some (filter (\<lambda>r. map_of r ''flightId'' \<noteq> Some (SQL_Text fid)) fs @ [row])\<rparr>"
    if prem: "t_flights (mem_view db) = Some fs" "length vs = 8" "hd vs = SQL_Text fid" for db fs vs fid
  proof -
    obtain ws where "vs = SQL_Text fid # ws" using prem(2,3) by (cases vs) auto
    then have "map_of (zip flight_cols vs) ''flightId'' = Some (SQL_Text fid)"
      by (simp add: flight_cols_def)
    then show ?thesis using prem by (auto simp: mem_defs)
  qed
  show "\<exists>db'. sq_exec mem_sql db (create_booking_sql t) = (None, db') \<and> mem_keeps db db' \<and>
      mem_view db' = (case t_bookings (mem_view db) (sql_name t) of
        None \<Rightarrow> put_table (mem_view db) t [] | Some bs \<Rightarrow> mem_view db)" if "sql_ident t" for db t
    using mem_create_booking [OF that, of db]
    by (auto simp: mem_sql_def mem_table_def mem_keeps_def mem_intx_def mem_base_def split: option.split)
qed (auto simp: mem_defs split: option.splits)

section \<open>The shape of a table after saving\<close>

lemma upsert_seats: "seat_of ` set (upsert bs b) = insert (seat_of b) (seat_of ` set bs)"
proof (cases "filter (at_seat (bi_row b) (bi_col b)) bs = []")
  case True
  then show ?thesis by (simp add: upsert_def)
next
  case False
  then have "seat_of b \<in> seat_of ` set bs" by (auto simp: filter_empty_conv at_seat_iff) (metis imageI)
  with False show ?thesis by (auto simp: upsert_def image_image)
qed

lemma upsert_distinct: "distinct (map seat_of bs) \<Longrightarrow> distinct (map seat_of (upsert bs b))"
  by (auto simp: upsert_def comp_def filter_empty_conv at_seat_iff)

lemma upserts_seats: "seat_of ` set (foldl upsert bs xs) = seat_of ` set bs \<union> seat_of ` set xs"
  by (induction xs arbitrary: bs) (auto simp: upsert_seats)

lemma upserts_distinct: "distinct (map seat_of bs) \<Longrightarrow> distinct (map seat_of (foldl upsert bs xs))"
  by (induction xs arbitrary: bs) (auto simp: upsert_distinct)

lemma seat_positions_length: "0 \<le> R \<Longrightarrow> 0 \<le> C \<Longrightarrow> length (seat_positions R C) = nat (R * C)"
  by (simp add: seat_positions_def length_concat comp_def sum_list_triv nat_mult_distrib)

lemma distinct_rows_length:
  assumes "distinct (map seat_of bs)" and "seat_of ` set bs \<subseteq> {(r, c). in_grid R C r c}"
    and "0 \<le> R" and "0 \<le> C"
  shows "int (length bs) \<le> R * C"
proof -
  have "length bs = card (seat_of ` set bs)"
    using assms(1) distinct_card [of "map seat_of bs"] by simp
  also have "\<dots> \<le> card (set (seat_positions R C))"
    using assms(2) card_mono [OF finite_set, of "seat_of ` set bs" "seat_positions R C"]
    by (simp add: set_seat_positions)
  also have "\<dots> = nat (R * C)"
    using distinct_seat_positions [of R C] assms(3,4) by (simp add: distinct_card seat_positions_length)
  finally have "length bs \<le> nat (R * C)" .
  moreover have "0 \<le> R * C" using assms(3,4) by simp
  ultimately show ?thesis by linarith
qed

lemma free_seat_no_name:
  assumes "seat_map_inv s" and "valid_seat s p" and "occupant s p = None"
  shows "cell (m_PassengerMap s) (fst p) (snd p) = []"
  using assms
  by (auto simp: occupant_def seat_map_inv_def free_seats_blank_def valid_seat_def split: if_splits)

lemma saved_rows_occupant:
  assumes "seat_map_inv s" and "\<And>p b. occupant s p = Some b \<Longrightarrow> fst b \<noteq> []"
  shows "table_map (saved_rows s) = occupant s"
proof
  fix p
  show "table_map (saved_rows s) p = occupant s p"
  proof (cases "occupant s p")
    case None
    then show ?thesis using free_seat_no_name [OF assms(1), of p] by (simp add: table_map_saved_rows)
  next
    case (Some b)
    then show ?thesis using assms(2) [OF Some] sm.occ_valid [OF assms(1) Some]
      by (auto simp: table_map_saved_rows occupant_def split: if_splits)
  qed
qed

text \<open>What a table maps each seat to after saving.\<close>

lemma saved_table_map:
  assumes "flight_inv f"
  shows "table_map (foldl upsert bs (saved_rows (f_SeatMap f))) p =
     (case flight_occupant f p of
        Some b \<Rightarrow> (if fst b \<noteq> [] then Some b else table_map bs p)
      | None \<Rightarrow> table_map bs p)"
  using free_seat_no_name [of "f_SeatMap f" p] assms
  by (auto simp: flight_inv_def table_map_upserts table_map_saved_rows map_add_def flight_occupant_def
      occupant_def split: if_splits)

lemma sql_name_booking: "sql_name (''booking'' @ fid) = sql_name (''Booking'' @ fid)"
proof -
  have "sql_name ''booking'' = sql_name ''Booking''" by code_simp
  then show ?thesis by (simp add: sql_name_def)
qed

section \<open>A concrete flight and database for the witnesses\<close>

definition demo_seats :: seat_map where
  "demo_seats = \<lparr>m_Rows = 2, m_Cols = 2, m_SeatMap = [[True, True], [False, True]],
     m_PassengerMap = [[[], []], [''Ann'', []]], m_EmailMap = [[[], []], [''a@x'', []]],
     m_MaxLoadMap = [[[], []], [''7'', []]]\<rparr>"

definition demo_flight :: flight where
  "demo_flight = \<lparr>m_FlightID = ''AA1'', m_Origin = ''MAD'', m_Destination = ''PAR'',
     m_DepartureTime = 0, m_ArrivalTime = 0, f_SeatMap = demo_seats\<rparr>"

definition demo_info :: FlightInformation where
  "demo_info = \<lparr>fi_flightID = ''AA1'', fi_origin = ''MAD'', fi_destination = ''PAR'',
     fi_bookingTable = ''bookingAA1'', fi_departureTime = 0, fi_arrivalTime = 0, fi_rows = 2, fi_cols = 2\<rparr>"

definition demo_db :: mem_db where
  "demo_db = \<lparr>mem_view = \<lparr>t_bookings = [sql_name ''BookingAA1'' \<mapsto> []], t_flights = Some []\<rparr>,
     mem_saved = None\<rparr>"

lemma in_grid_2: "in_grid 2 2 r c \<longleftrightarrow> (r = 0 \<or> r = 1) \<and> (c = 0 \<or> c = 1)"
  by (auto simp: in_grid_def)

lemma demo_inv: "flight_inv demo_flight"
  by (auto simp: flight_inv_def demo_flight_def demo_seats_def seat_map_inv_def seat_map_dims_def
      grid_dims_def free_seats_blank_def in_grid_2)

lemma demo_named: "flight_occupant demo_flight p = Some b \<Longrightarrow> fst b \<noteq> []"
  by (auto simp: flight_occupant_def demo_flight_def demo_seats_def occupant_def valid_seat_def
      in_grid_2 split: if_splits)

lemma demo_ident: "sql_ident ''BookingAA1''"
  by code_simp

lemma demo_idle: "\<not> mem_intx demo_db"
  by (simp add: mem_intx_def demo_db_def)

lemma demo_table: "t_bookings (mem_view demo_db) (sql_name ''BookingAA1'') = Some []"
  by (simp add: demo_db_def)

lemma demo_id: "m_FlightID demo_flight = ''AA1''"
  by (simp add: demo_flight_def)

section \<open>Properties\<close>



text \<open>The persistence manager's second \<open>InsertFlight\<close> never stores a flight: its statement has
  six parameters and it binds eight values, so binding throws, the exception is caught and the
  transaction is rolled back; the tables are as before and the caller sees no error.\<close>

theorem InsertFlight_info_stores_nothing:
  assumes "sql_tables S intx view base keeps" and "\<not> intx db"
  shows "\<exists>db'. InsertFlight_info S info db = (Inr (), db') \<and> \<not> intx db' \<and> view db' = view db"
  using sql_tables.InsertFlight_info_noop [OF assms]
    sql_tables.keeps_iff [OF assms(1)] by blast

theorem InsertFlight_info_stores_nothing_witness:
  "\<exists>db'. InsertFlight_info mem_sql demo_info demo_db = (Inr (), db') \<and> \<not> mem_intx db' \<and>
     mem_view db' = mem_view demo_db \<and> t_flights (mem_view db') = Some []"
  using InsertFlight_info_stores_nothing [OF memt.sql_tables_axioms demo_idle, of demo_info]
  by (auto simp: demo_db_def)

text \<open>Reading the bookings of a flight whose booking table does not exist throws
  \<open>std::length_error\<close>: the failed count returns \<open>-1\<close>, which as a \<open>size_t\<close> is more than a vector can
  reserve, so the exception handler that was meant to give an empty list is never reached.  The same
  happens for the list of flights when the flights table does not exist.\<close>

theorem missing_table_throws:
  assumes "sql_tables S intx view base keeps"
  shows "(sql_ident t \<and> t_bookings (view db) (sql_name t) = None \<longrightarrow>
            GetBookingsInfo S t db = (Inl Length_Error, db)) \<and>
         (t_flights (view db) = None \<longrightarrow> GetFlightsInfo S dt db = (Inl Length_Error, db))"
  using sql_tables.GetBookingsInfo_missing [OF assms] sql_tables.GetFlightsInfo_missing [OF assms]
  by blast

theorem missing_table_throws_witness:
  "GetBookingsInfo mem_sql ''BookingZZ9'' demo_db = (Inl Length_Error, demo_db)"
proof -
  have "sql_ident ''BookingZZ9''" by code_simp
  moreover have "sql_name ''BookingZZ9'' \<noteq> sql_name ''BookingAA1''" by code_simp
  ultimately show ?thesis
    using missing_table_throws [OF memt.sql_tables_axioms, of "''BookingZZ9''" demo_db]
    by (simp add: demo_db_def)
qed

text \<open>Inserting a flight replaces the row of the same flight number, if there is one, and keeps
  every other row and every booking table.\<close>

theorem InsertFlight_replaces:
  assumes "sql_tables S intx view base keeps" and "\<not> intx db" and "t_flights (view db) = Some fs"
  shows "\<exists>db' row. InsertFlight S fid origin dest dep arr rows cols db = (Inr (), db') \<and>
     \<not> intx db' \<and> map_of row ''flightId'' = Some (SQL_Text fid) \<and>
     view db' = (view db)\<lparr>t_flights :=
       Some (filter (\<lambda>r. map_of r ''flightId'' \<noteq> Some (SQL_Text fid)) fs @ [row])\<rparr>"
  by (rule sql_tables.InsertFlight_ok [OF assms])

theorem InsertFlight_replaces_witness:
  "\<exists>db' row. InsertFlight mem_sql ''AA1'' ''MAD'' ''PAR'' ''2024-03-15 10:00:00''
       ''2024-03-15 14:00:00'' 4 3 demo_db = (Inr (), db') \<and>
     map_of row ''flightId'' = Some (SQL_Text ''AA1'') \<and> t_flights (mem_view db') = Some [row]"
  using InsertFlight_replaces [OF memt.sql_tables_axioms demo_idle, of "[]" "''AA1''" "''MAD''"
      "''PAR''" "''2024-03-15 10:00:00''" "''2024-03-15 14:00:00''" 4 3]
  by (fastforce simp: demo_db_def)



end
