(* ===== verification/Flight_Catalog.thy ===== *)
theory Flight_Catalog
  imports Persistence
begin

text \<open>
  The flights table together with the booking tables of its flights: what the windows of the
  application rely on.  \<open>sql_catalog\<close> adds to the contract with the SQL engine how the flights table
  is read.  \<open>catalog_ok\<close> says that the flights can be listed and that each has a booking table whose
  rows lie in its cabin; \<open>active_ok\<close> says that a flight in memory and its booking table hold the same
  bookings.  The lemmas of the locale show what saving, deleting and loading do to the two.
\<close>

section \<open>Well-formed flights and tables\<close>

text \<open>The edit fields of the windows are \<open>char[512]\<close>.\<close>

definition fits :: "string \<Rightarrow> bool" where
  "fits s \<longleftrightarrow> length s < 512"

definition booking_ok :: "booking \<Rightarrow> bool" where
  "booking_ok b \<longleftrightarrow> fst b \<noteq> [] \<and> fits (fst b) \<and> fits (fst (snd b)) \<and> fits (snd (snd b))"

definition rows_ok :: "int \<Rightarrow> int \<Rightarrow> BookingInformation list \<Rightarrow> bool" where
  "rows_ok R C bs \<longleftrightarrow> distinct (map seat_of bs) \<and>
     (\<forall>p b. table_map bs p = Some b \<longrightarrow> in_grid R C (fst p) (snd p) \<and> booking_ok b)"

definition booking_table :: "string \<Rightarrow> string" where
  "booking_table fid = ''Booking'' @ fid"

definition flight_info_ok :: "FlightInformation \<Rightarrow> bool" where
  "flight_info_ok fi \<longleftrightarrow> sql_ident (booking_table (fi_flightID fi)) \<and> 0 \<le> fi_rows fi \<and> 0 \<le> fi_cols fi \<and>
     is_int32 (fi_rows fi) \<and> is_int32 (fi_cols fi) \<and> fi_rows fi * fi_cols fi < 2 ^ 31"

definition same_cabin :: "FlightInformation \<Rightarrow> FlightInformation \<Rightarrow> bool" where
  "same_cabin fi fj \<longleftrightarrow> fi_rows fi = fi_rows fj \<and> fi_cols fi = fi_cols fj"

definition catalog_ok ::
  "'db sqlite \<Rightarrow> (string \<Rightarrow> int) \<Rightarrow> FlightInformation list \<Rightarrow> tables \<Rightarrow> bool" where
  "catalog_ok S dt fis v \<longleftrightarrow>
     (\<exists>fs. t_flights v = Some fs \<and> int (length fs) < 2 ^ 31 \<and> map (flight_of_row S dt) fs = map Inr fis) \<and>
     (\<forall>fi \<in> set fis. flight_info_ok fi \<and>
        (\<exists>bs. t_bookings v (sql_name (booking_table (fi_flightID fi))) = Some bs \<and>
              rows_ok (fi_rows fi) (fi_cols fi) bs)) \<and>
     (\<forall>fi \<in> set fis. \<forall>fj \<in> set fis.
        sql_name (booking_table (fi_flightID fi)) = sql_name (booking_table (fi_flightID fj)) \<longrightarrow>
        same_cabin fi fj)"

definition flight_of_info :: "FlightInformation \<Rightarrow> flight \<Rightarrow> bool" where
  "flight_of_info fi f \<longleftrightarrow> m_FlightID f = fi_flightID fi \<and> m_Rows (f_SeatMap f) = fi_rows fi \<and>
     m_Cols (f_SeatMap f) = fi_cols fi"

definition active_ok :: "FlightInformation list \<Rightarrow> tables \<Rightarrow> flight \<Rightarrow> bool" where
  "active_ok fis v f \<longleftrightarrow> flight_inv f \<and> (\<exists>fi \<in> set fis. flight_of_info fi f) \<and>
     (\<exists>bs. t_bookings v (sql_name (booking_table (m_FlightID f))) = Some bs \<and>
           distinct (map seat_of bs) \<and> table_map bs = flight_occupant f)"

lemma active_okE:
  assumes "active_ok fis v f"
  obtains fi bs where "fi \<in> set fis" "flight_of_info fi f" "flight_inv f"
    "t_bookings v (sql_name (booking_table (m_FlightID f))) = Some bs"
    "distinct (map seat_of bs)" "table_map bs = flight_occupant f"
  using assms unfolding active_ok_def by blast

lemma catalog_info: "catalog_ok S dt fis v \<Longrightarrow> fi \<in> set fis \<Longrightarrow> flight_info_ok fi"
  by (simp add: catalog_ok_def)

lemma active_bookings_ok:
  assumes "catalog_ok S dt fis v" and "active_ok fis v f" and "flight_occupant f p = Some b"
  shows "booking_ok b"
proof -
  obtain fi bs where *: "fi \<in> set fis" "flight_of_info fi f"
    "t_bookings v (sql_name (booking_table (m_FlightID f))) = Some bs" "table_map bs = flight_occupant f"
    using active_okE [OF assms(2)] by metis
  then have "t_bookings v (sql_name (booking_table (fi_flightID fi))) = Some bs"
    by (simp add: flight_of_info_def)
  with assms(1) *(1) have "rows_ok (fi_rows fi) (fi_cols fi) bs"
    unfolding catalog_ok_def by (metis option.inject)
  with *(4) assms(3) show ?thesis unfolding rows_ok_def by metis
qed

text \<open>Replacing the booking table of a flight by well-formed rows.\<close>

lemma catalog_put:
  assumes "catalog_ok S dt fis v" and "fi \<in> set fis" and "rows_ok (fi_rows fi) (fi_cols fi) bs"
  shows "catalog_ok S dt fis (put_table v (booking_table (fi_flightID fi)) bs)"
proof -
  have "\<exists>bs'. t_bookings (put_table v (booking_table (fi_flightID fi)) bs)
        (sql_name (booking_table (fi_flightID fj))) = Some bs' \<and> rows_ok (fi_rows fj) (fi_cols fj) bs'"
    if "fj \<in> set fis" for fj
  proof (cases "sql_name (booking_table (fi_flightID fj)) = sql_name (booking_table (fi_flightID fi))")
    case True
    with assms(1,2) that have "same_cabin fi fj" unfolding catalog_ok_def by metis
    with assms(3) True show ?thesis by (simp add: same_cabin_def)
  next
    case False
    with assms(1) that show ?thesis by (auto simp: catalog_ok_def)
  qed
  with assms(1) show ?thesis by (simp add: catalog_ok_def)
qed

lemma table_map_filter:
  "table_map (filter (\<lambda>b. \<not> at_seat r c b) bs) = (table_map bs)((r, c) := None)"
proof (induction bs rule: rev_induct)
  case Nil
  then show ?case by simp
next
  case (snoc b bs)
  show ?case
  proof (cases "at_seat r c b")
    case True
    then have "seat_of b = (r, c)" by (simp add: at_seat_def seat_of_def)
    with snoc True show ?thesis by (auto simp: table_map_snoc)
  next
    case False
    then have "seat_of b \<noteq> (r, c)" by (auto simp: at_seat_def seat_of_def)
    with snoc False show ?thesis by (auto simp: table_map_snoc fun_eq_iff)
  qed
qed

lemma distinct_filter_seats:
  "distinct (map seat_of bs) \<Longrightarrow> distinct (map seat_of (filter P bs))"
  by (rule distinct_map_filter)

lemma push_rows_all: "map f rs = map Inr xs \<Longrightarrow> push_rows rs None f = (xs, None)"
  by (induction rs arbitrary: xs) auto

section \<open>The contract with the SQL engine, extended\<close>

locale sql_catalog = sql_tables S intx view base keeps
  for S :: "'db sqlite" and intx :: "'db \<Rightarrow> bool" and view :: "'db \<Rightarrow> tables" and base :: "'db \<Rightarrow> tables"
    and keeps :: "'db \<Rightarrow> 'db \<Rightarrow> bool" +
  assumes prepare_select_flights:
    "t_flights (view db) = Some fs \<Longrightarrow>
       sq_prepare S db (count_sql ''flights'') = Inr 0 \<and> sq_prepare S db select_flights_sql = Inr 0"
    and run_count_flights:
    "t_flights (view db) = Some fs \<Longrightarrow>
       \<exists>db'. sq_run S db (count_sql ''flights'') [] =
               ([[(''COUNT(*)'', SQL_Int (int (length fs)))]], None, db') \<and>
             keeps db db' \<and> view db' = view db"
    and run_select_flights:
    "t_flights (view db) = Some fs \<Longrightarrow>
       \<exists>db'. sq_run S db select_flights_sql [] = (fs, None, db') \<and> keeps db db' \<and> view db' = view db"
begin

lemma keeps_trans: "keeps a b \<Longrightarrow> keeps b c \<Longrightarrow> keeps a c"
  by (auto simp: keeps_iff)

lemma keeps_idle: "keeps db db' \<Longrightarrow> \<not> intx db \<Longrightarrow> \<not> intx db'"
  by (simp add: keeps_iff)

lemma GetFlightsInfo_ok:
  assumes "t_flights (view db) = Some fs" and "int (length fs) < 2 ^ 31"
    and "map (flight_of_row S dt) fs = map Inr fis"
  shows "\<exists>db'. GetFlightsInfo S dt db = (Inr fis, db') \<and> keeps db db' \<and> view db' = view db"
proof -
  obtain db1 where 1: "sq_run S db (count_sql ''flights'') [] =
      ([[(''COUNT(*)'', SQL_Int (int (length fs)))]], None, db1)" "keeps db db1" "view db1 = view db"
    using run_count_flights [OF assms(1)] by blast
  have f1: "t_flights (view db1) = Some fs" using 1 assms(1) by simp
  obtain db2 where 2: "sq_run S db1 select_flights_sql [] = (fs, None, db2)" "keeps db1 db2"
    "view db2 = view db1" using run_select_flights [OF f1] by blast
  have len: "is_int32 (int (length fs))" using assms(2) by (simp add: is_int32_def)
  have cnt: "CountEntriesInTable S ''flights'' db = (length fs, db1)"
    using prepare_select_flights [OF assms(1)] 1(1) to_size_small [of "int (length fs)"] assms(2)
    by (simp add: CountEntriesInTable_def Statement_ctor_def Statement_executeStep_def getInt_def
        to_int32_id [OF len])
  have res: "vec_reserve (length fs) = Inr ()" using assms(2) by (simp add: vec_reserve_def)
  show ?thesis
    using prepare_select_flights [OF f1] 2 1(3) keeps_trans [OF 1(2) 2(2)] push_rows_all [OF assms(3)]
    by (simp add: GetFlightsInfo_def query_all_def cnt res Statement_ctor_def Statement_loop_def)
qed

text \<open>Saving a flight that has every booking of its table brings the two into agreement.\<close>

lemma save_active:
  assumes idle: "\<not> intx db" and cat: "catalog_ok S dt fis (view db)"
    and fi: "fi \<in> set fis" "flight_of_info fi f" and inv: "flight_inv f"
    and tab: "t_bookings (view db) (sql_name (booking_table (m_FlightID f))) = Some bs"
      "distinct (map seat_of bs)" "dom (table_map bs) \<subseteq> dom (flight_occupant f)"
    and good: "\<And>p b. flight_occupant f p = Some b \<Longrightarrow> booking_ok b"
  shows "\<exists>db'. InsertBookingData S f (booking_table (m_FlightID f)) db = (Inr (), db') \<and> \<not> intx db' \<and>
     catalog_ok S dt fis (view db') \<and> active_ok fis (view db') f"
proof -
  let ?s = "f_SeatMap f" and ?t = "booking_table (m_FlightID f)"
  let ?bs = "foldl upsert bs (saved_rows ?s)"
  have id: "m_FlightID f = fi_flightID fi" using fi(2) by (simp add: flight_of_info_def)
  have ident: "sql_ident ?t" using catalog_info [OF cat fi(1)] id by (simp add: flight_info_ok_def)
  obtain db' where db': "InsertBookingData S f ?t db = (Inr (), db')" "\<not> intx db'"
    "view db' = put_table (view db) ?t ?bs"
    using InsertBookingData_ok [OF ident tab(1) idle inv] by blast
  have sinv: "seat_map_inv ?s" using inv by (simp add: flight_inv_def)
  have "table_map (saved_rows ?s) = flight_occupant f"
    using saved_rows_occupant [OF sinv] good by (fastforce simp: flight_occupant_def booking_ok_def)
  then have map: "table_map ?bs = flight_occupant f"
    using tab(3) by (simp add: table_map_upserts map_add_subsumed1 [of "table_map bs"])
      (rule ext, auto simp: map_add_def split: option.split)
  have dist: "distinct (map seat_of ?bs)" by (rule upserts_distinct [OF tab(2)])
  have "in_grid (fi_rows fi) (fi_cols fi) (fst p) (snd p)" if "flight_occupant f p = Some b" for p b
    using sm.occ_valid [OF sinv] that fi(2)
    by (fastforce simp: flight_occupant_def valid_seat_def flight_of_info_def)
  then have rows: "rows_ok (fi_rows fi) (fi_cols fi) ?bs"
    using dist good by (simp add: rows_ok_def map)
  have "catalog_ok S dt fis (view db')"
    using catalog_put [OF cat fi(1) rows] db'(3) id by simp
  moreover have "active_ok fis (view db') f"
    using inv fi db'(3) dist map by (auto simp: active_ok_def)
  ultimately show ?thesis using db' by blast
qed

text \<open>Deleting the row of a seat follows cancelling that seat in memory.\<close>

lemma delete_active:
  assumes idle: "\<not> intx db" and cat: "catalog_ok S dt fis (view db)" and act: "active_ok fis (view db) f"
    and f': "flight_inv f'" "m_FlightID f' = m_FlightID f" "m_Rows (f_SeatMap f') = m_Rows (f_SeatMap f)"
      "m_Cols (f_SeatMap f') = m_Cols (f_SeatMap f)"
      "flight_occupant f' = (flight_occupant f)((r, c) := None)"
  shows "\<not> intx (DeleteBookingData S (booking_table (m_FlightID f)) r c db) \<and>
     catalog_ok S dt fis (view (DeleteBookingData S (booking_table (m_FlightID f)) r c db)) \<and>
     active_ok fis (view (DeleteBookingData S (booking_table (m_FlightID f)) r c db)) f'"
proof -
  obtain fi bs where *: "fi \<in> set fis" "flight_of_info fi f" "flight_inv f"
    "t_bookings (view db) (sql_name (booking_table (m_FlightID f))) = Some bs"
    "distinct (map seat_of bs)" "table_map bs = flight_occupant f"
    using active_okE [OF act] by metis
  let ?t = "booking_table (m_FlightID f)" and ?bs = "filter (\<lambda>b. \<not> at_seat r c b) bs"
  let ?db = "DeleteBookingData S ?t r c db"
  have id: "m_FlightID f = fi_flightID fi" using *(2) by (simp add: flight_of_info_def)
  have ident: "sql_ident ?t" using catalog_info [OF cat *(1)] id by (simp add: flight_info_ok_def)
  have db': "keeps db ?db" "view ?db = put_table (view db) ?t ?bs"
    using DeleteBookingData_ok [OF ident *(4)] by blast+
  have map: "table_map ?bs = flight_occupant f'" by (simp add: table_map_filter *(6) f'(5))
  have dist: "distinct (map seat_of ?bs)" by (rule distinct_filter_seats [OF *(5)])
  have "booking_ok b \<and> in_grid (fi_rows fi) (fi_cols fi) (fst p) (snd p)"
    if "flight_occupant f' p = Some b" for p b
  proof -
    have o: "flight_occupant f p = Some b" using that f'(5) by (auto split: if_splits)
    have "in_grid (fi_rows fi) (fi_cols fi) (fst p) (snd p)"
      using sm.occ_valid [of "f_SeatMap f" p b] o *(2,3)
      by (simp add: flight_occupant_def valid_seat_def flight_of_info_def flight_inv_def)
    with active_bookings_ok [OF cat act o] show ?thesis by simp
  qed
  then have rows: "rows_ok (fi_rows fi) (fi_cols fi) ?bs" using dist by (simp add: rows_ok_def map)
  have "catalog_ok S dt fis (view ?db)" using catalog_put [OF cat *(1) rows] db'(2) id by simp
  moreover have "flight_of_info fi f'" using *(2) f'(2-4) by (simp add: flight_of_info_def)
  then have "active_ok fis (view ?db) f'"
    using f'(1,2) *(1) db'(2) dist map by (auto simp: active_ok_def)
  ultimately show ?thesis using keeps_idle [OF db'(1) idle] by blast
qed

text \<open>Loading a flight of the list gives a flight that agrees with its table.\<close>

lemma load_active:
  assumes cat: "catalog_ok S dt fis (view db)" and fi: "fi \<in> set fis"
  shows "\<exists>f0 f db'. Flight_ctor (fi_flightID fi) (fi_origin fi) (fi_destination fi)
       (fi_departureTime fi) (fi_arrivalTime fi) (fi_rows fi) (fi_cols fi) = Inr f0 \<and>
     Flight_LoadFromFlightInformation S fi f0 db = (Inr f, db') \<and> keeps db db' \<and>
     view db' = view db \<and> active_ok fis (view db') f \<and> flight_of_info fi f"
proof -
  have ok: "flight_info_ok fi" by (rule catalog_info [OF cat fi])
  obtain bs where bs: "t_bookings (view db) (sql_name (booking_table (fi_flightID fi))) = Some bs"
    "rows_ok (fi_rows fi) (fi_cols fi) bs" using cat fi by (auto simp: catalog_ok_def)
  obtain s where s: "SeatMap_ctor (fi_rows fi) (fi_cols fi) = Inr s"
    using SeatMap_ctor_ok [of "fi_rows fi" "fi_cols fi"] ok by (auto simp: flight_info_ok_def)
  note fresh = SeatMap_ctor_fresh [OF s]
  have grid: "in_grid (fi_rows fi) (fi_cols fi) (fst p) (snd p)" if "p \<in> seat_of ` set bs" for p
  proof -
    have "p \<in> dom (table_map bs)" using that by (simp add: dom_table_map)
    then obtain b where "table_map bs p = Some b" by blast
    with bs(2) show ?thesis unfolding rows_ok_def by blast
  qed
  have valid: "valid_seat s (seat_of b)" if "b \<in> set bs" for b
    using grid [of "seat_of b"] that fresh(3,4) by (simp add: valid_seat_def)
  have "int (length bs) \<le> fi_rows fi * fi_cols fi"
    using distinct_rows_length [of bs "fi_rows fi" "fi_cols fi"] bs(2) grid ok
    by (fastforce simp: rows_ok_def flight_info_ok_def)
  then have len: "int (length bs) < 2 ^ 31" using ok by (simp add: flight_info_ok_def)
  have ok': "sql_ident (''Booking'' @ fi_flightID fi)" "is_int32 (fi_rows fi)" "is_int32 (fi_cols fi)"
    using ok by (simp_all add: flight_info_ok_def booking_table_def)
  obtain db' s' where l: "LoadFromFlightInformation S fi s db = (Inr s', db')" "view db' = view db"
    "keeps db db'" "seat_map_inv s'" "m_Rows s' = fi_rows fi" "m_Cols s' = fi_cols fi"
    "occupant s' = table_map bs"
    using Load_ok [OF ok'(1) bs(1) [unfolded booking_table_def] len s ok'(2,3) valid] by blast
  define f0 where "f0 = \<lparr>m_FlightID = fi_flightID fi, m_Origin = fi_origin fi,
    m_Destination = fi_destination fi, m_DepartureTime = fi_departureTime fi,
    m_ArrivalTime = fi_arrivalTime fi, f_SeatMap = s\<rparr>"
  have c: "Flight_ctor (fi_flightID fi) (fi_origin fi) (fi_destination fi)
       (fi_departureTime fi) (fi_arrivalTime fi) (fi_rows fi) (fi_cols fi) = Inr f0"
    by (simp add: Flight_ctor_def s f0_def)
  let ?f = "f0\<lparr>f_SeatMap := s'\<rparr>"
  have "Flight_LoadFromFlightInformation S fi f0 db = (Inr ?f, db')"
    using l(1) by (simp add: Flight_LoadFromFlightInformation_def f0_def db_return_def)
  moreover have "flight_of_info fi ?f" using l(5,6) by (simp add: flight_of_info_def f0_def)
  moreover have "active_ok fis (view db') ?f"
    using l bs fi calculation(2)
    by (auto simp: active_ok_def flight_inv_def flight_occupant_def rows_ok_def f0_def)
  ultimately show ?thesis using c l(2,3) by blast
qed

end

interpretation memc: sql_catalog mem_sql mem_intx mem_view mem_base mem_keeps
  by unfold_locales (auto simp: mem_defs)

end
