(* ===== verification/Amadeus.thy ===== *)
theory Amadeus
  imports Sql_Access
begin

text \<open>
  The flight search: the calendar popups and the search button of \<open>AmadeusWindow\<close>
  (\<open>Application.cpp\<close>), the client of the Amadeus web service (\<open>Core/AmadeusInterface.cpp\<close>) and the
  packed date of \<open>Util/Util.cpp\<close>.  libcurl and the JSON library are not part of the repository: they
  are the parameter \<open>web\<close>, whose operations thread the state \<open>'w\<close> of the network.  What the user
  does in a frame is the record \<open>amadeus_input\<close>.  Console output is left out.
\<close>

section \<open>Packed dates\<close>

definition int_result :: "int \<Rightarrow> fault + int" where
  "int_result i = (if is_int32 i then Inr i else Inl Int_Overflow)"

text \<open>Every intermediate result is an \<open>int\<close>.\<close>

definition DatetimeToInt :: "int \<Rightarrow> int \<Rightarrow> int \<Rightarrow> int \<Rightarrow> fault + int" where
  "DatetimeToInt year month day minutes =
     rbind (int_result (year * 100000000)) (\<lambda>y.
     rbind (int_result (month * 1000000)) (\<lambda>m.
     rbind (int_result (y + m)) (\<lambda>ym.
     rbind (int_result (day * 10000)) (\<lambda>d.
     rbind (int_result (ym + d)) (\<lambda>ymd.
     int_result (ymd + minutes))))))"

text \<open>The years that fit an \<open>int\<close> are those before 22; today's years overflow.\<close>

lemma DatetimeToInt_overflows: "22 \<le> year \<Longrightarrow> DatetimeToInt year month day minutes = Inl Int_Overflow"
  by (simp add: DatetimeToInt_def int_result_def is_int32_def)

lemma DatetimeToInt_fits:
  assumes "0 \<le> year" "year \<le> 20" "1 \<le> month" "month \<le> 12" "1 \<le> day" "day \<le> 31"
    "0 \<le> minutes" "minutes < 10000"
  shows "DatetimeToInt year month day minutes =
    Inr (year * 100000000 + month * 1000000 + day * 10000 + minutes)"
  using assms by (simp add: DatetimeToInt_def int_result_def is_int32_def)

section \<open>The web client\<close>

record request =
  rq_url :: string
  rq_headers :: "string list"
  rq_post :: "string option"

text \<open>\<open>web_perform\<close> gives the pieces handed to the write callback and whether the result is \<open>CURLE_OK\<close>.\<close>

record ('w, 'j) web =
  web_init :: "'w \<Rightarrow> bool \<times> 'w"
  web_perform :: "'w \<Rightarrow> request \<Rightarrow> (string list \<times> bool) \<times> 'w"
  web_parse :: "string \<Rightarrow> fault + 'j"
  web_token :: "'j \<Rightarrow> fault + string"
  web_dump :: "'j \<Rightarrow> nat \<Rightarrow> string"

record AmadeusInterface =
  m_AccessToken :: string

definition m_API_KEY :: string where
  "m_API_KEY = ''''"

definition m_API_SECRET :: string where
  "m_API_SECRET = ''''"

definition WriteCallback :: "string \<Rightarrow> string \<Rightarrow> nat \<times> string" where
  "WriteCallback contents response = (length contents, response @ contents)"

definition received :: "string list \<Rightarrow> string" where
  "received pieces = foldl (\<lambda>response contents. snd (WriteCallback contents response)) '''' pieces"

definition Internal_PerformHttpGet ::
  "('w, 'j) web \<Rightarrow> string \<Rightarrow> string \<Rightarrow> 'w \<Rightarrow> string \<times> 'w" where
  "Internal_PerformHttpGet W url authorizationHeader w =
     (case web_init W w of
        (False, w1) \<Rightarrow> ('''', w1)
      | (True, w1) \<Rightarrow>
          (case web_perform W w1
                  \<lparr>rq_url = url, rq_headers = [authorizationHeader], rq_post = None\<rparr> of
             ((pieces, ok), w2) \<Rightarrow> (received pieces, w2)))"

text \<open>Without a handle the request fails and the token stays empty, as after any other error.\<close>

definition GetAccessToken :: "('w, 'j) web \<Rightarrow> 'w \<Rightarrow> string \<times> 'w" where
  "GetAccessToken W w =
     (case web_init W w of
        (False, w1) \<Rightarrow> ('''', w1)
      | (True, w1) \<Rightarrow>
          (case web_perform W w1
                  \<lparr>rq_url = ''https://test.api.amadeus.com/v1/security/oauth2/token'',
                   rq_headers = [''Content-Type: application/x-www-form-urlencoded''],
                   rq_post = Some (''grant_type=client_credentials&client_id='' @ m_API_KEY @
                                   ''&client_secret='' @ m_API_SECRET)\<rparr> of
             ((pieces, ok), w2) \<Rightarrow>
               (if \<not> ok then ('''', w2)
                else (case rbind (web_parse W (received pieces)) (web_token W) of
                        Inl e \<Rightarrow> ('''', w2)
                      | Inr accessToken \<Rightarrow> (accessToken, w2)))))"

definition AmadeusInterface_ctor :: "('w, 'j) web \<Rightarrow> 'w \<Rightarrow> AmadeusInterface \<times> 'w" where
  "AmadeusInterface_ctor W w =
     (case GetAccessToken W w of (token, w') \<Rightarrow> (\<lparr>m_AccessToken = token\<rparr>, w'))"

text \<open>\<open>AmadeusInterface::Get\<close>: the instance is constructed by the first call.\<close>

definition AmadeusInterface_Get ::
  "('w, 'j) web \<Rightarrow> AmadeusInterface option \<Rightarrow> 'w \<Rightarrow> AmadeusInterface \<times> 'w" where
  "AmadeusInterface_Get W inst w =
     (case inst of Some i \<Rightarrow> (i, w) | None \<Rightarrow> AmadeusInterface_ctor W w)"

definition offers_url :: "string \<Rightarrow> string \<Rightarrow> string \<Rightarrow> string \<Rightarrow> string" where
  "offers_url origin destination departureDate returnDate =
     ''https://test.api.amadeus.com/v2/shopping/flight-offers?originLocationCode='' @ origin @
     ''&destinationLocationCode='' @ destination @ ''&departureDate='' @ departureDate @
     ''&returnDate='' @ returnDate @ ''&adults=1&nonStop=false''"

definition GetAvailableFlights ::
  "('w, 'j) web \<Rightarrow> string \<Rightarrow> string \<Rightarrow> string \<Rightarrow> string \<Rightarrow> 'w \<Rightarrow> (fault + 'j) \<times> 'w" where
  "GetAvailableFlights W origin destination departureDate returnDate w =
     (case GetAccessToken W w of
        (token, w1) \<Rightarrow>
          (case Internal_PerformHttpGet W (offers_url origin destination departureDate returnDate)
                  (''Authorization: Bearer '' @ token) w1 of
             (response, w2) \<Rightarrow> (web_parse W response, w2)))"

section \<open>The calendar\<close>

record Date =
  d_year :: int
  d_month :: int
  d_day :: int

definition Date_init :: Date where
  "Date_init = \<lparr>d_year = 2024, d_month = 3, d_day = 12\<rparr>"

definition leap_year :: "int \<Rightarrow> bool" where
  "leap_year y \<longleftrightarrow> y mod 4 = 0 \<and> (y mod 100 \<noteq> 0 \<or> y mod 400 = 0)"

definition daysInMonth :: "Date \<Rightarrow> int" where
  "daysInMonth d =
     (if d_month d = 2 then (if leap_year (d_year d) then 29 else 28)
      else if d_month d = 4 \<or> d_month d = 6 \<or> d_month d = 9 \<or> d_month d = 11 then 30
      else 31)"

text \<open>Which entries of the open popup are clicked in this frame.\<close>

record calendar_input =
  pick_month :: "int \<Rightarrow> bool"
  pick_year :: "int \<Rightarrow> bool"
  pick_day :: "int \<Rightarrow> bool"

definition select_from :: "(int \<Rightarrow> bool) \<Rightarrow> (int \<Rightarrow> 'a \<Rightarrow> 'a) \<Rightarrow> int list \<Rightarrow> 'a \<Rightarrow> 'a" where
  "select_from picked assign is x = foldl (\<lambda>x i. if picked i then assign i x else x) x is"

definition calendar_popup :: "calendar_input \<Rightarrow> Date \<Rightarrow> Date" where
  "calendar_popup c d0 =
     (let d1 = select_from (pick_month c) (\<lambda>m d. d\<lparr>d_month := m\<rparr>) [1..12] d0;
          d2 = select_from (pick_year c) (\<lambda>y d. d\<lparr>d_year := y\<rparr>) [2000..2100] d1
      in select_from (pick_day c) (\<lambda>n d. d\<lparr>d_day := n\<rparr>) [1..daysInMonth d2] d2)"

section \<open>Formatting\<close>

text \<open>\<open>%0wd\<close>\<close>

definition pad_int :: "nat \<Rightarrow> int \<Rightarrow> string" where
  "pad_int w i =
     (let s = show_nat (nat \<bar>i\<bar>); sign = (if i < 0 then ''-'' else '''')
      in sign @ replicate (w - length sign - length s) (CHR ''0'') @ s)"

text \<open>\<open>sprintf\<close> into \<open>char[11]\<close>, the final NUL included.\<close>

definition sprintf_date :: "Date \<Rightarrow> fault + string" where
  "sprintf_date d =
     (let s = pad_int 4 (d_year d) @ ''-'' @ pad_int 2 (d_month d) @ ''-'' @ pad_int 2 (d_day d)
      in if length s + 1 > 11 then Inl Buffer_Overrun else Inr s)"

section \<open>The window\<close>

record amadeus_input =
  in_origin :: "string \<Rightarrow> string"
  in_destination :: "string \<Rightarrow> string"
  departure_popup :: "calendar_input option"
  arrival_popup :: "calendar_input option"
  search_clicked :: bool

record 'w amadeus =
  originBuffer :: string
  destinationBuffer :: string
  departureDate :: Date
  arrivalDate :: Date
  am_instance :: "AmadeusInterface option"
  am_net :: 'w
  am_files :: "string \<rightharpoonup> string"

definition search_flights ::
  "('w, 'j) web \<Rightarrow> (string \<Rightarrow> bool) \<Rightarrow> string \<Rightarrow> string \<Rightarrow> 'w amadeus \<Rightarrow> fault + 'w amadeus" where
  "search_flights W writable departureDateString arrivalDateString a =
     (case AmadeusInterface_Get W (am_instance a) (am_net a) of
        (inst, w1) \<Rightarrow>
          (case GetAvailableFlights W (originBuffer a) (destinationBuffer a)
                  departureDateString arrivalDateString w1 of
             (Inl e, w2) \<Rightarrow> Inl e
           | (Inr resAvailableFlights, w2) \<Rightarrow>
               Inr (a\<lparr>am_instance := Some inst, am_net := w2,
                      am_files := (if writable ''availableFlights.json''
                                   then (am_files a)(''availableFlights.json'' \<mapsto>
                                          web_dump W resAvailableFlights 4)
                                   else am_files a)\<rparr>)))"

definition popup :: "calendar_input option \<Rightarrow> Date \<Rightarrow> Date" where
  "popup c d = (case c of None \<Rightarrow> d | Some i \<Rightarrow> calendar_popup i d)"

text \<open>Both texts are formatted from the arrival date, and the departure text is then taken from the
  arrival buffer, as in the source.\<close>

definition AmadeusWindow ::
  "('w, 'j) web \<Rightarrow> (string \<Rightarrow> bool) \<Rightarrow> amadeus_input \<Rightarrow> 'w amadeus \<Rightarrow> fault + 'w amadeus" where
  "AmadeusWindow W writable inp a0 =
     (let a1 = a0\<lparr>originBuffer := in_origin inp (originBuffer a0),
                  destinationBuffer := in_destination inp (destinationBuffer a0)\<rparr>;
          a2 = a1\<lparr>departureDate := popup (departure_popup inp) (departureDate a1)\<rparr>;
          a3 = a2\<lparr>arrivalDate := popup (arrival_popup inp) (arrivalDate a2)\<rparr>
      in rbind (sprintf_date (arrivalDate a3)) (\<lambda>formattedArrivalDate.
         let arrivalDateString = formattedArrivalDate
         in rbind (sprintf_date (arrivalDate a3)) (\<lambda>formattedDepartureDate.
            let departureDateString = formattedArrivalDate
            in if search_clicked inp
               then search_flights W writable departureDateString arrivalDateString a3
               else Inr a3)))"

section \<open>What the calendar and the formatting do\<close>

definition date_ok :: "Date \<Rightarrow> bool" where
  "date_ok d \<longleftrightarrow> 2000 \<le> d_year d \<and> d_year d \<le> 2100 \<and> 1 \<le> d_month d \<and> d_month d \<le> 12 \<and>
     1 \<le> d_day d \<and> d_day d \<le> 31"

lemma date_init_ok: "date_ok Date_init"
  by (simp add: date_ok_def Date_init_def)

lemma select_from_keeps:
  assumes "P x" and "\<And>i y. i \<in> set is \<Longrightarrow> P y \<Longrightarrow> P (assign i y)"
  shows "P (select_from picked assign is x)"
  using assms
proof (induction "is" arbitrary: x)
  case Nil
  then show ?case by (simp add: select_from_def)
next
  case (Cons i js)
  have "P (if picked i then assign i x else x)" using Cons.prems by simp
  from Cons.IH [OF this] Cons.prems(2) show ?case by (simp add: select_from_def)
qed

lemma daysInMonth_range: "28 \<le> daysInMonth d \<and> daysInMonth d \<le> 31"
  by (simp add: daysInMonth_def)

lemma calendar_popup_ok:
  assumes "date_ok d"
  shows "date_ok (calendar_popup c d)"
proof -
  define d1 where "d1 = select_from (pick_month c) (\<lambda>m d. d\<lparr>d_month := m\<rparr>) [1..12] d"
  define d2 where "d2 = select_from (pick_year c) (\<lambda>y d. d\<lparr>d_year := y\<rparr>) [2000..2100] d1"
  have "date_ok d1" unfolding d1_def
    by (rule select_from_keeps [where P = date_ok, OF assms]) (auto simp: date_ok_def)
  then have "date_ok d2" unfolding d2_def
    by (rule select_from_keeps [where P = date_ok]) (auto simp: date_ok_def)
  then have "date_ok (select_from (pick_day c) (\<lambda>n d. d\<lparr>d_day := n\<rparr>) [1..daysInMonth d2] d2)"
    using daysInMonth_range [of d2]
    by (intro select_from_keeps [where P = date_ok]) (auto simp: date_ok_def)
  then show ?thesis unfolding calendar_popup_def Let_def d2_def d1_def .
qed

lemma popup_ok: "date_ok d \<Longrightarrow> date_ok (popup c d)"
  by (simp add: popup_def calendar_popup_ok split: option.split)

lemma show_nat_len: "length (show_nat n) = (if n < 10 then 1 else Suc (length (show_nat (n div 10))))"
  by (simp add: show_nat.simps [of n])

lemma read_nat_zeros: "read_nat (replicate k (CHR ''0'') @ s) = read_nat s"
  by (induction k) (simp_all add: read_nat_def digit_val_def)

lemma pad_int_read: "0 \<le> i \<Longrightarrow> read_nat (pad_int w i) = nat i"
  by (simp add: pad_int_def read_nat_zeros read_show_nat Let_def)

lemma pad_int_2: "0 \<le> i \<Longrightarrow> i < 100 \<Longrightarrow> length (pad_int 2 i) = 2"
  by (simp add: pad_int_def show_nat_len [of "nat i"] show_nat_len [of "nat i div 10"])

lemma pad_int_4:
  assumes "0 \<le> i" and "i < 10000"
  shows "length (pad_int 4 i) = 4"
proof -
  have short: "1 \<le> length (show_nat (nat i))" "length (show_nat (nat i)) \<le> 4"
    using assms by (auto simp: show_nat_len [of "nat i"] show_nat_len [of "nat i div 10"]
        show_nat_len [of "nat i div 10 div 10"] show_nat_len [of "nat i div 10 div 10 div 10"])
  then show ?thesis using assms(1) by (simp add: pad_int_def Let_def)
qed

lemma sprintf_date_ok:
  assumes "date_ok d"
  shows "sprintf_date d = Inr (pad_int 4 (d_year d) @ ''-'' @ pad_int 2 (d_month d) @ ''-'' @
    pad_int 2 (d_day d))"
  using assms pad_int_4 [of "d_year d"] pad_int_2 [of "d_month d"] pad_int_2 [of "d_day d"]
  by (simp add: sprintf_date_def date_ok_def)

text \<open>The twelve months of a year add up to the length of the year.\<close>

lemma year_length:
  "(\<Sum>m \<leftarrow> [1..12]. daysInMonth \<lparr>d_year = y, d_month = m, d_day = k\<rparr>) = (if leap_year y then 366 else 365)"
  by (simp add: daysInMonth_def upto_rec1)

lemma foldl_ignore: "foldl (\<lambda>x i. x) x is = x"
  by (induction "is") auto

text \<open>Choosing another month or year does not correct the day: the popup leaves 31 February 2024.\<close>

lemma calendar_keeps_day:
  "calendar_popup \<lparr>pick_month = (\<lambda>m. m = 2), pick_year = (\<lambda>_. False), pick_day = (\<lambda>_. False)\<rparr>
     \<lparr>d_year = 2024, d_month = 3, d_day = 31\<rparr> = \<lparr>d_year = 2024, d_month = 2, d_day = 31\<rparr>"
  by (simp add: calendar_popup_def select_from_def upto_rec1 foldl_ignore Let_def)

section \<open>Properties\<close>

text \<open>C7: The dates of the flight search always fit their buffers: whatever is clicked in a calendar
  popup, the date stays between the years 2000 and 2100 with a month and a day in range, so
  \<open>sprintf\<close> writes exactly ten characters and the final NUL into \<open>char[11]\<close>, and the three numbers
  can be read back from the text.\<close>

theorem calendar_date_printed:
  assumes "date_ok d"
  shows "date_ok (calendar_popup c d) \<and>
     (\<exists>s. sprintf_date (calendar_popup c d) = Inr s \<and> length s = 10 \<and>
        int (read_nat (take 4 s)) = d_year (calendar_popup c d) \<and>
        int (read_nat (take 2 (drop 5 s))) = d_month (calendar_popup c d) \<and>
        int (read_nat (drop 8 s)) = d_day (calendar_popup c d))"
proof -
  let ?d = "calendar_popup c d"
  have ok: "date_ok ?d" by (rule calendar_popup_ok [OF assms])
  then have len: "length (pad_int 4 (d_year ?d)) = 4" "length (pad_int 2 (d_month ?d)) = 2"
    "length (pad_int 2 (d_day ?d)) = 2"
    by (simp_all add: date_ok_def pad_int_4 pad_int_2)
  with ok show ?thesis
    by (simp add: sprintf_date_ok) (simp add: date_ok_def pad_int_read)
qed

theorem calendar_date_printed_witness:
  "\<exists>d. d = calendar_popup \<lparr>pick_month = (\<lambda>m. m = 2), pick_year = (\<lambda>_. False), pick_day = (\<lambda>n. n = 29)\<rparr>
         Date_init \<and> d = \<lparr>d_year = 2024, d_month = 2, d_day = 29\<rparr> \<and>
     (\<exists>s. sprintf_date d = Inr s \<and> length s = 10 \<and> read_nat (drop 8 s) = 29)"
proof -
  let ?c = "\<lparr>pick_month = (\<lambda>m. m = 2), pick_year = (\<lambda>_. False), pick_day = (\<lambda>n. n = 29)\<rparr>"
  have "calendar_popup ?c Date_init = \<lparr>d_year = 2024, d_month = 2, d_day = 29\<rparr>"
    by (simp add: calendar_popup_def select_from_def upto_rec1 Date_init_def daysInMonth_def leap_year_def)
  with calendar_date_printed [OF date_init_ok, of ?c] show ?thesis by auto
qed

text \<open>The flight search never looks at the departure date: neither the requests it sends, nor the
  file it writes, nor its errors depend on the departure date or on what is clicked in the departure
  calendar, because the departure text is made from the arrival date.\<close>

theorem departure_date_ignored:
  "map_sum id (\<lambda>r. (am_net r, am_files r, arrivalDate r))
     (AmadeusWindow W writable (inp\<lparr>departure_popup := p\<rparr>) (a\<lparr>departureDate := d\<rparr>)) =
   map_sum id (\<lambda>r. (am_net r, am_files r, arrivalDate r)) (AmadeusWindow W writable inp a)"
proof (cases "sprintf_date (popup (arrival_popup inp) (arrivalDate a))")
  case (Inl e)
  then show ?thesis by (simp add: AmadeusWindow_def Let_def)
next
  case (Inr s)
  then show ?thesis
    by (simp add: AmadeusWindow_def Let_def search_flights_def split: prod.split sum.split)
qed

end
