(* ===== verification/Application.thy ===== *)
theory Application
  imports Flight_Catalog Amadeus
begin

text \<open>
  The application (\<open>Application.cpp\<close>) and the loop of the GUI wrapper (\<open>Gui/GuiApp.cpp\<close>): the global
  state of the program, one definition per window, the frame \<open>GUIMain\<close> that runs the windows in the
  order of the source, and the main loop.  ImGui answers the calls of a frame with what the user did;
  that is the record \<open>frame_input\<close>.  The database is threaded as in \<open>Persistence\<close>; an exception that
  a window throws is not caught by the program and ends the run.  Texts that are only displayed and
  the rendering are left out.
\<close>

section \<open>State and input\<close>

record gui_app =
  m_Run :: bool

record 'w app =
  activeFlight :: "flight option"
  g_SelectedRowCol :: "int \<times> int"
  flightId :: string
  g_LogBuf :: string
  passengerBuffer :: string
  emailBuffer :: string
  maxLoadBuffer :: string
  nameBuffer :: string
  newEmailBuffer :: string
  newMaxLoadBuffer :: string
  amadeus_state :: "'w amadeus"
  showAbout :: bool
  showHelp :: bool
  clipboard :: string
  guiInstance :: gui_app

text \<open>
  The buttons of the seat map and of the flight list are numbered in the order they are drawn.
  \<open>va_int\<close> is the number that \<open>%d\<close> reads from a pair of integers passed through the ellipsis.
\<close>

record frame_input =
  window_closed :: bool
  about_clicked :: bool
  exit_clicked :: bool
  help_clicked :: bool
  seat_clicked :: "nat \<Rightarrow> bool"
  amadeus_in :: amadeus_input
  new_name :: "string \<Rightarrow> string"
  new_email :: "string \<Rightarrow> string"
  new_maxLoad :: "string \<Rightarrow> string"
  book_clicked :: bool
  upd_name :: "string \<Rightarrow> string"
  upd_email :: "string \<Rightarrow> string"
  upd_maxLoad :: "string \<Rightarrow> string"
  update_clicked :: bool
  delete_clicked :: bool
  select_clicked :: "nat \<Rightarrow> bool"
  clear_clicked :: bool
  about_closed :: bool
  help_closed :: bool
  copy_link :: bool
  va_int :: "int \<times> int \<Rightarrow> int"

abbreviation nl :: string where
  "nl \<equiv> [CHR 0x0A]"

definition amadeus_init :: "'w \<Rightarrow> (string \<rightharpoonup> string) \<Rightarrow> 'w amadeus" where
  "amadeus_init w files =
     \<lparr>originBuffer = '''', destinationBuffer = '''', departureDate = Date_init, arrivalDate = Date_init,
      am_instance = None, am_net = w, am_files = files\<rparr>"

definition app_init :: "gui_app \<Rightarrow> 'w \<Rightarrow> (string \<rightharpoonup> string) \<Rightarrow> 'w app" where
  "app_init gui w files =
     \<lparr>activeFlight = None, g_SelectedRowCol = (0, 0), flightId = ''No Flight Selected'', g_LogBuf = '''',
      passengerBuffer = '''', emailBuffer = '''', maxLoadBuffer = '''',
      nameBuffer = '''', newEmailBuffer = '''', newMaxLoadBuffer = '''',
      amadeus_state = amadeus_init w files, showAbout = False, showHelp = False, clipboard = '''',
      guiInstance = gui\<rparr>"

definition log_add :: "string \<Rightarrow> 'w app \<Rightarrow> 'w app" where
  "log_add s a = a\<lparr>g_LogBuf := g_LogBuf a @ s\<rparr>"

definition GenerateBookingTableName :: "'w app \<Rightarrow> string" where
  "GenerateBookingTableName a =
     (case activeFlight a of Some f \<Rightarrow> ''Booking'' @ GetFlightID f | None \<Rightarrow> '''')"

section \<open>The seat map window\<close>

text \<open>\<open>strcpy_s\<close> of a \<open>c_str()\<close> into \<open>char[512]\<close>; it does not return when the text does not fit.\<close>

definition c_str :: "string \<Rightarrow> string" where
  "c_str s = takeWhile (\<lambda>c. c \<noteq> CHR 0x00) s"

definition strcpy_s :: "string \<Rightarrow> fault + string" where
  "strcpy_s s = (if length (c_str s) + 1 > 512 then Inl Buffer_Overrun else Inr (c_str s))"

text \<open>At every taken seat the edit fields are filled from the selected seat.\<close>

definition fill_buffers :: "flight \<Rightarrow> 'w app \<Rightarrow> fault + 'w app" where
  "fill_buffers f a =
     (case g_SelectedRowCol a of (row, col) \<Rightarrow>
        rbind (rbind (Flight_GetPassengerName f row col) strcpy_s) (\<lambda>name.
        rbind (rbind (Flight_GetEmail f row col) strcpy_s) (\<lambda>email.
        rbind (rbind (Flight_GetMaxLoad f row col) strcpy_s) (\<lambda>load.
        Inr (a\<lparr>passengerBuffer := name, emailBuffer := email, maxLoadBuffer := load\<rparr>)))))"

definition seat_button :: "frame_input \<Rightarrow> 16 word \<Rightarrow> 16 word \<Rightarrow> nat \<Rightarrow> bool \<Rightarrow> 'w app \<Rightarrow> 'w app" where
  "seat_button inp seatLNum seatRNum labelCounter seat a =
     (if seat_clicked inp labelCounter
      then log_add (''Selected seat is '' @ (if seat then ''AVAILABLE'' else ''TAKEN'') @ ''.'' @ nl)
             (a\<lparr>g_SelectedRowCol := (uint seatLNum, uint seatRNum)\<rparr>)
      else a)"

fun seat_buttons_row ::
  "frame_input \<Rightarrow> flight \<Rightarrow> 16 word \<Rightarrow> 16 word \<Rightarrow> nat \<Rightarrow> bool list \<Rightarrow> 'w app \<Rightarrow> fault + (nat \<times> 'w app)" where
  "seat_buttons_row inp f seatLNum seatRNum labelCounter [] a = Inr (labelCounter, a)"
| "seat_buttons_row inp f seatLNum seatRNum labelCounter (seat # row) a =
     rbind (if \<not> seat then fill_buffers f a else Inr a) (\<lambda>a'.
     seat_buttons_row inp f seatLNum (seatRNum + 1) (labelCounter + 1) row
       (seat_button inp seatLNum seatRNum labelCounter seat a'))"

fun seat_buttons ::
  "frame_input \<Rightarrow> flight \<Rightarrow> 16 word \<Rightarrow> nat \<Rightarrow> bool list list \<Rightarrow> 'w app \<Rightarrow> fault + 'w app" where
  "seat_buttons inp f seatLNum labelCounter [] a = Inr a"
| "seat_buttons inp f seatLNum labelCounter (row # rows) a =
     rbind (seat_buttons_row inp f seatLNum 0 labelCounter row a) (\<lambda>(labelCounter', a').
     seat_buttons inp f (seatLNum + 1) labelCounter' rows a')"

definition SeatMapGUI :: "frame_input \<Rightarrow> 'w app \<Rightarrow> fault + 'w app" where
  "SeatMapGUI inp a =
     (case activeFlight a of
        Some f \<Rightarrow> seat_buttons inp f 0 0 (GetVecSeatMap (f_SeatMap f)) a
      | None \<Rightarrow> Inr a)"

section \<open>Selecting a flight\<close>

definition select_flight ::
  "'db sqlite \<Rightarrow> FlightInformation \<Rightarrow> 'w app \<Rightarrow> ('w app, 'db) db_op" where
  "select_flight S fi a =
     db_bind (db_lift (Flight_ctor (fi_flightID fi) (fi_origin fi) (fi_destination fi)
                         (fi_departureTime fi) (fi_arrivalTime fi) (fi_rows fi) (fi_cols fi))) (\<lambda>f0.
     db_bind (Flight_LoadFromFlightInformation S fi f0) (\<lambda>f.
     db_return (log_add (''Flight Selected: '' @ flightId a @ nl) (a\<lparr>activeFlight := Some f\<rparr>))))"

fun select_flights ::
  "'db sqlite \<Rightarrow> frame_input \<Rightarrow> nat \<Rightarrow> FlightInformation list \<Rightarrow> 'w app \<Rightarrow> ('w app, 'db) db_op" where
  "select_flights S inp i [] a = db_return a"
| "select_flights S inp i (fi # fis) a =
     db_bind (if select_clicked inp i then select_flight S fi a else db_return a)
       (\<lambda>a'. select_flights S inp (i + 1) fis a')"

definition SelectFlight ::
  "'db sqlite \<Rightarrow> (string \<Rightarrow> int) \<Rightarrow> frame_input \<Rightarrow> 'w app \<Rightarrow> ('w app, 'db) db_op" where
  "SelectFlight S dt inp a =
     db_bind (GetFlightsInfo S dt) (\<lambda>flightsInformation. select_flights S inp 0 flightsInformation a)"

section \<open>Managing and creating bookings\<close>

definition update_booking ::
  "'db sqlite \<Rightarrow> frame_input \<Rightarrow> flight \<Rightarrow> 'w app \<Rightarrow> ('w app, 'db) db_op" where
  "update_booking S inp f a =
     (case g_SelectedRowCol a of (row, col) \<Rightarrow>
        db_bind (db_lift (Flight_CancelBooking f row col)) (\<lambda>f1.
        db_bind (db_lift (Flight_BookSeat f1 row col (passengerBuffer a) (emailBuffer a) (maxLoadBuffer a)))
          (\<lambda>(ok, f2).
        let a' = a\<lparr>activeFlight := Some f2\<rparr>
        in db_bind (InsertBookingData S f2 (GenerateBookingTableName a')) (\<lambda>_.
           db_return (log_add (''Booking Updated!'' @ nl @ ''Passenger Name: '' @ passengerBuffer a @ nl @
             ''(Row, Col): ('' @ show_int row @ '', '' @ show_int (va_int inp (row, col)) @ '')'' @ nl) a')))))"

definition delete_booking :: "'db sqlite \<Rightarrow> flight \<Rightarrow> 'w app \<Rightarrow> ('w app, 'db) db_op" where
  "delete_booking S f a =
     (case g_SelectedRowCol a of (row, col) \<Rightarrow>
        db_bind (db_lift (Flight_CancelBooking f row col)) (\<lambda>f1 db.
        let a' = a\<lparr>activeFlight := Some f1\<rparr>
        in db_return (log_add (''Booking Deleted!'' @ nl @ nl @ ''(Row, Col): ('' @ show_int row @ '', '' @
             show_int col @ '')'' @ nl) a')
           (DeleteBookingData S (GenerateBookingTableName a') row col db)))"

text \<open>The three fields of the selected seat that are displayed.\<close>

definition seat_information :: "flight \<Rightarrow> int \<Rightarrow> int \<Rightarrow> fault + booking" where
  "seat_information f row col =
     rbind (Flight_GetPassengerName f row col) (\<lambda>name.
     rbind (Flight_GetEmail f row col) (\<lambda>email.
     rbind (Flight_GetMaxLoad f row col) (\<lambda>load. Inr (name, email, load))))"

definition on_flight :: "'w app \<Rightarrow> (flight \<Rightarrow> ('w app, 'db) db_op) \<Rightarrow> ('w app, 'db) db_op" where
  "on_flight a k = (case activeFlight a of None \<Rightarrow> db_return a | Some f \<Rightarrow> k f)"

definition ManageBookings :: "'db sqlite \<Rightarrow> frame_input \<Rightarrow> 'w app \<Rightarrow> ('w app, 'db) db_op" where
  "ManageBookings S inp a =
     on_flight a (\<lambda>f.
     case g_SelectedRowCol a of (row, col) \<Rightarrow>
       db_bind (db_lift (IsSeatAvailable (f_SeatMap f) row col)) (\<lambda>available.
       if available then db_return a
       else db_bind (db_lift (seat_information f row col)) (\<lambda>_.
            let a1 = a\<lparr>passengerBuffer := upd_name inp (passengerBuffer a),
                       emailBuffer := upd_email inp (emailBuffer a),
                       maxLoadBuffer := upd_maxLoad inp (maxLoadBuffer a)\<rparr>
            in db_bind (if update_clicked inp then update_booking S inp f a1 else db_return a1) (\<lambda>a2.
               if delete_clicked inp then on_flight a2 (\<lambda>f. delete_booking S f a2) else db_return a2))))"

definition book_seat :: "'db sqlite \<Rightarrow> flight \<Rightarrow> 'w app \<Rightarrow> ('w app, 'db) db_op" where
  "book_seat S f a =
     (case g_SelectedRowCol a of (row, col) \<Rightarrow>
        db_bind (db_lift (Flight_BookSeat f row col (nameBuffer a) (newEmailBuffer a) (newMaxLoadBuffer a)))
          (\<lambda>(ok, f1).
        let a' = a\<lparr>activeFlight := Some f1\<rparr>
        in if ok
           then db_bind (InsertBookingData S f1 (GenerateBookingTableName a')) (\<lambda>_.
                db_return (log_add (''Booking Created!'' @ nl @ ''Passenger Name: '' @ nameBuffer a @ nl @
                  ''(Row, Col): ('' @ show_int row @ '', '' @ show_int col @ '')'' @ nl) a'))
           else db_return (log_add (''Error Booking!'' @ nl @ ''Check if seat is available.'' @ nl) a')))"

definition CreateBookings :: "'db sqlite \<Rightarrow> frame_input \<Rightarrow> 'w app \<Rightarrow> ('w app, 'db) db_op" where
  "CreateBookings S inp a =
     on_flight a (\<lambda>f.
       let a1 = a\<lparr>nameBuffer := new_name inp (nameBuffer a), newEmailBuffer := new_email inp (newEmailBuffer a),
                  newMaxLoadBuffer := new_maxLoad inp (newMaxLoadBuffer a)\<rparr>
       in if book_clicked inp then book_seat S f a1 else db_return a1)"

section \<open>The frame\<close>

definition About :: "frame_input \<Rightarrow> 'w app \<Rightarrow> 'w app" where
  "About inp a = (if about_closed inp then a\<lparr>showAbout := False\<rparr> else a)"

definition Help :: "frame_input \<Rightarrow> 'w app \<Rightarrow> 'w app" where
  "Help inp a0 =
     (let a = (if help_closed inp then a0\<lparr>showHelp := False\<rparr> else a0)
      in if copy_link inp
         then a\<lparr>clipboard := ''https://github.com/HawtStrokes/AirlineReservationSystem''\<rparr>
         else a)"

text \<open>The title bar and the two menus, and the flight number shown below them.\<close>

definition main_menu :: "frame_input \<Rightarrow> 'w app \<Rightarrow> 'w app" where
  "main_menu inp a0 =
     (let a1 = (if window_closed inp then a0\<lparr>guiInstance := (guiInstance a0)\<lparr>m_Run := False\<rparr>\<rparr> else a0);
          a2 = (if about_clicked inp then a1\<lparr>showAbout := True\<rparr> else a1);
          a3 = (if exit_clicked inp then a2\<lparr>guiInstance := (guiInstance a2)\<lparr>m_Run := False\<rparr>\<rparr> else a2);
          a4 = (if help_clicked inp then a3\<lparr>showHelp := True\<rparr> else a3)
      in (case activeFlight a4 of Some f \<Rightarrow> a4\<lparr>flightId := GetFlightID f\<rparr> | None \<Rightarrow> a4))"

definition log_window :: "frame_input \<Rightarrow> 'w app \<Rightarrow> 'w app" where
  "log_window inp a = (if clear_clicked inp then a\<lparr>g_LogBuf := ''''\<rparr> else a)"

definition amadeus_window ::
  "('w, 'j) web \<Rightarrow> (string \<Rightarrow> bool) \<Rightarrow> frame_input \<Rightarrow> 'w app \<Rightarrow> fault + 'w app" where
  "amadeus_window W writable inp a =
     rbind (AmadeusWindow W writable (amadeus_in inp) (amadeus_state a)) (\<lambda>m. Inr (a\<lparr>amadeus_state := m\<rparr>))"

definition GUIMain ::
  "('w, 'j) web \<Rightarrow> (string \<Rightarrow> bool) \<Rightarrow> 'db sqlite \<Rightarrow> (string \<Rightarrow> int) \<Rightarrow> frame_input \<Rightarrow> 'w app \<Rightarrow>
     ('w app, 'db) db_op" where
  "GUIMain W writable S dt inp a =
     db_bind (db_lift (SeatMapGUI inp (main_menu inp a))) (\<lambda>a1.
     db_bind (db_lift (amadeus_window W writable inp a1)) (\<lambda>a2.
     db_bind (CreateBookings S inp a2) (\<lambda>a3.
     db_bind (ManageBookings S inp a3) (\<lambda>a4.
     db_bind (SelectFlight S dt inp a4) (\<lambda>a5.
     let a6 = log_window inp a5;
         a7 = (if showAbout a6 then About inp a6 else a6);
         a8 = (if showHelp a7 then Help inp a7 else a7)
     in db_return a8)))))"

section \<open>The GUI wrapper and the main program\<close>

text \<open>\<open>init\<close> is whether \<open>Internal_Init\<close>, which only sets up the graphics libraries, returned 0.\<close>

definition GuiApp_ctor :: "bool \<Rightarrow> fault + gui_app" where
  "GuiApp_ctor init =
     (if \<not> init then Inl (Gui_Error ''Error Initializing GUI Components!'') else Inr \<lparr>m_Run = True\<rparr>)"

definition InitGui :: "bool \<Rightarrow> gui_app option \<Rightarrow> fault + gui_app option" where
  "InitGui init m_Instance =
     (case m_Instance of
        Some _ \<Rightarrow> Inl (Gui_Error ''GuiApp already Initialized!'')
      | None \<Rightarrow> rbind (GuiApp_ctor init) (\<lambda>g. Inr (Some g)))"

definition GuiApp_Get :: "gui_app option \<Rightarrow> fault + gui_app" where
  "GuiApp_Get m_Instance =
     (case m_Instance of
        None \<Rightarrow> Inl (Gui_Error ''GuiApp Not Initialized! Call InitGui first'')
      | Some g \<Rightarrow> Inr g)"

text \<open>The main loop; it also ends when the window is to close, which is the end of the list.\<close>

fun Run :: "(frame_input \<Rightarrow> 'w app \<Rightarrow> ('w app, 'db) db_op) \<Rightarrow> frame_input list \<Rightarrow> 'w app \<Rightarrow>
     ('w app, 'db) db_op" where
  "Run m_Function [] a = db_return a"
| "Run m_Function (inp # inps) a =
     (if m_Run (guiInstance a)
      then db_bind (m_Function inp a) (\<lambda>a'. Run m_Function inps a')
      else db_return a)"

definition main_program ::
  "('w, 'j) web \<Rightarrow> (string \<Rightarrow> bool) \<Rightarrow> 'db sqlite \<Rightarrow> (string \<Rightarrow> int) \<Rightarrow> bool \<Rightarrow> 'w \<Rightarrow> (string \<rightharpoonup> string) \<Rightarrow>
     frame_input list \<Rightarrow> ('w app, 'db) db_op" where
  "main_program W writable S dt init w files inps =
     db_bind (db_lift (InitGui init None)) (\<lambda>inst.
     db_bind (db_lift (GuiApp_Get inst)) (\<lambda>g.
     Run (GUIMain W writable S dt) inps (app_init g w files)))"

text \<open>The test routine, which \<open>main\<close> does not call.\<close>

definition TestSQLiteCPP :: "'db sqlite \<Rightarrow> 'w app \<Rightarrow> ('w app \<times> string, 'db) db_op" where
  "TestSQLiteCPP S a =
     db_bind (db_lift (DatetimeToInt 2024 3 15 0)) (\<lambda>dep.
     db_bind (db_lift (DatetimeToInt 2024 3 30 0)) (\<lambda>arr.
     db_bind (db_lift (Flight_ctor ''AA123'' ''MAD'' ''PAR'' dep arr 4 3)) (\<lambda>f.
     db_bind (db_lift (Flight_BookSeat f 1 1 ''Roxanne Cocaine'' ''Roxanne.ca3.com'' ''43'')) (\<lambda>(ok, f1).
     let tableName = ''BookingAA123''
     in db_bind (CreateFlightsTable S) (\<lambda>_.
        db_bind (InsertFlight S ''AA123'' ''New York'' ''Los Angeles'' ''2024-03-15 10:00:00''
                   ''2024-03-15 14:00:00'' 4 3) (\<lambda>_.
        db_bind (CreateBookingTable S tableName) (\<lambda>_.
        db_bind (InsertBookingData S f1 tableName) (\<lambda>_.
        db_bind (PrintFlights S) (\<lambda>flights.
        db_bind (PrintBooking S tableName) (\<lambda>bookings.
        db_return (a\<lparr>activeFlight := Some f1\<rparr>, flights @ bookings)))))))))))"

lemma TestSQLiteCPP_overflows: "TestSQLiteCPP S a db = (Inl Int_Overflow, db)"
  by (simp add: TestSQLiteCPP_def DatetimeToInt_overflows)

end
