(* ===== verification/Application_Run.thy ===== *)
theory Application_Run
  imports Application
begin

text \<open>
  What a run of the application guarantees.  \<open>input_ok\<close> states what is assumed of the user's input,
  \<open>app_inv\<close> is the invariant of the global state against the tables of the database: texts that fit
  the buffers, valid dates, and an active flight that holds exactly the bookings of its table.  The
  lemmas in \<open>sql_catalog\<close> show for every window, the frame and the main loop that the invariant is
  kept; the properties instantiate them.
\<close>

section \<open>The invariant\<close>

text \<open>What is promised of the input of a frame: the fields keep texts that fit, and a booking is
  made or updated under a non-empty name.\<close>

definition edits_fit :: "(string \<Rightarrow> string) \<Rightarrow> bool" where
  "edits_fit e \<longleftrightarrow> (\<forall>s. fits s \<longrightarrow> fits (e s))"

definition input_ok :: "frame_input \<Rightarrow> bool" where
  "input_ok inp \<longleftrightarrow> edits_fit (new_name inp) \<and> edits_fit (new_email inp) \<and> edits_fit (new_maxLoad inp) \<and>
     edits_fit (upd_name inp) \<and> edits_fit (upd_email inp) \<and> edits_fit (upd_maxLoad inp) \<and>
     (book_clicked inp \<longrightarrow> (\<forall>s. new_name inp s \<noteq> [])) \<and> (update_clicked inp \<longrightarrow> (\<forall>s. upd_name inp s \<noteq> []))"

definition buffers_ok :: "'w app \<Rightarrow> bool" where
  "buffers_ok a \<longleftrightarrow> fits (passengerBuffer a) \<and> fits (emailBuffer a) \<and> fits (maxLoadBuffer a) \<and>
     fits (nameBuffer a) \<and> fits (newEmailBuffer a) \<and> fits (newMaxLoadBuffer a) \<and>
     date_ok (departureDate (amadeus_state a)) \<and> date_ok (arrivalDate (amadeus_state a))"

definition bookings_ok :: "flight \<Rightarrow> bool" where
  "bookings_ok f \<longleftrightarrow> (\<forall>p b. flight_occupant f p = Some b \<longrightarrow> booking_ok b)"

definition app_inv :: "FlightInformation list \<Rightarrow> tables \<Rightarrow> 'w app \<Rightarrow> bool" where
  "app_inv fis v a \<longleftrightarrow> buffers_ok a \<and> (\<forall>f. activeFlight a = Some f \<longrightarrow> active_ok fis v f)"

lemma edits_fitD: "edits_fit e \<Longrightarrow> fits s \<Longrightarrow> fits (e s)"
  by (simp add: edits_fit_def)

lemma log_add_simps [simp]:
  "activeFlight (log_add s a) = activeFlight a" "g_SelectedRowCol (log_add s a) = g_SelectedRowCol a"
  "buffers_ok (log_add s a) = buffers_ok a" "guiInstance (log_add s a) = guiInstance a"
  "amadeus_state (log_add s a) = amadeus_state a"
  by (simp_all add: log_add_def buffers_ok_def)

lemma app_inv_log [simp]: "app_inv fis v (log_add s a) = app_inv fis v a"
  by (simp add: app_inv_def)

lemma table_name: "activeFlight a = Some f \<Longrightarrow> GenerateBookingTableName a = booking_table (m_FlightID f)"
  by (simp add: GenerateBookingTableName_def GetFlightID_def booking_table_def)

lemma app_inv_active:
  "activeFlight a = Some f \<Longrightarrow> buffers_ok a \<Longrightarrow> active_ok fis v f \<Longrightarrow> app_inv fis v a"
  by (simp add: app_inv_def)

subsection \<open>Flights: cabin and identity\<close>

lemma Flight_BookSeat_frame:
  assumes "flight_inv f" and "Flight_BookSeat f r c n e l = Inr (ok, f')"
  shows "m_FlightID f' = m_FlightID f" "m_Rows (f_SeatMap f') = m_Rows (f_SeatMap f)"
    "m_Cols (f_SeatMap f') = m_Cols (f_SeatMap f)"
  using assms
  by (auto simp: Flight_BookSeat_def BookSeat_eq flight_inv_def seat_map_inv_def split: if_splits)

lemma Flight_CancelBooking_frame:
  assumes "flight_inv f" and "Flight_CancelBooking f r c = Inr f'"
  shows "m_FlightID f' = m_FlightID f" "m_Rows (f_SeatMap f') = m_Rows (f_SeatMap f)"
    "m_Cols (f_SeatMap f') = m_Cols (f_SeatMap f)"
  using assms
  by (auto simp: Flight_CancelBooking_def CancelBooking_eq flight_inv_def seat_map_inv_def split: if_splits)

text \<open>Booking and cancelling through the flight's contract, with what they leave alone.\<close>

lemma book_flight:
  assumes "flight_inv f"
  obtains ok f' where "Flight_BookSeat f r c n e l = Inr (ok, f')" "flight_inv f'"
    "m_FlightID f' = m_FlightID f" "m_Rows (f_SeatMap f') = m_Rows (f_SeatMap f)"
    "m_Cols (f_SeatMap f') = m_Cols (f_SeatMap f)"
    "ok \<longleftrightarrow> flight_valid f (r, c) \<and> flight_occupant f (r, c) = None"
    "flight_occupant f' = (if ok then (flight_occupant f)((r, c) \<mapsto> (n, e, l)) else flight_occupant f)"
proof -
  obtain ok f' where "flight_book f (r, c) (n, e, l) = Inr (ok, f')" "flight_inv f'"
    "ok \<longleftrightarrow> flight_valid f (r, c) \<and> flight_occupant f (r, c) = None"
    "flight_occupant f' = (if ok then (flight_occupant f)((r, c) \<mapsto> (n, e, l)) else flight_occupant f)"
    using fl.book_total [OF assms, of "(r, c)" "(n, e, l)"] by metis
  with that Flight_BookSeat_frame [OF assms, of r c n e l ok f'] show thesis
    by (simp add: flight_book_def)
qed

lemma cancel_flight:
  assumes "flight_inv f"
  obtains f' where "Flight_CancelBooking f r c = Inr f'" "flight_inv f'"
    "flight_valid f' = flight_valid f" "m_FlightID f' = m_FlightID f"
    "m_Rows (f_SeatMap f') = m_Rows (f_SeatMap f)" "m_Cols (f_SeatMap f') = m_Cols (f_SeatMap f)"
    "flight_occupant f' = (flight_occupant f)((r, c) := None)"
proof -
  obtain f' where "flight_cancel f (r, c) = Inr f'" "flight_inv f'" "flight_valid f' = flight_valid f"
    "flight_occupant f' = (flight_occupant f)((r, c) := None)"
    using fl.cancel_total [OF assms, of "(r, c)"] by metis
  with that Flight_CancelBooking_frame [OF assms, of r c f'] show thesis
    by (simp add: flight_cancel_def)
qed

subsection \<open>The windows keep the invariant\<close>

lemma c_str_length: "length (c_str s) \<le> length s"
  by (simp add: c_str_def length_takeWhile_le)

lemma strcpy_s_ok: "fits s \<Longrightarrow> strcpy_s s = Inr (c_str s) \<and> fits (c_str s)"
  using c_str_length [of s] by (simp add: strcpy_s_def fits_def)

lemma seat_fields_fit:
  assumes "flight_inv f" and "bookings_ok f"
  obtains n e l where "Flight_GetPassengerName f r c = Inr n" "Flight_GetEmail f r c = Inr e"
    "Flight_GetMaxLoad f r c = Inr l" "fits n" "fits e" "fits l"
proof -
  have inv: "seat_map_inv (f_SeatMap f)" using assms(1) by (simp add: flight_inv_def)
  then have dims: "seat_map_dims (f_SeatMap f)" by (simp add: seat_map_inv_def)
  show thesis
  proof (cases "occupant (f_SeatMap f) (r, c)")
    case None
    then show thesis using that [of "''''" "''''" "''''"] getters_blank [OF inv None]
      by (simp add: Flight_GetPassengerName_def Flight_GetEmail_def Flight_GetMaxLoad_def fits_def)
  next
    case (Some b)
    obtain n e l where b: "b = (n, e, l)" by (cases b) auto
    have "booking_ok b" using assms(2) Some unfolding flight_occupant_def bookings_ok_def by blast
    with that [of n e l] getters_occupied [OF dims Some [unfolded b]] show thesis
      by (simp add: Flight_GetPassengerName_def Flight_GetEmail_def Flight_GetMaxLoad_def b booking_ok_def)
  qed
qed

lemma seat_information_ok:
  assumes "flight_inv f" and "bookings_ok f"
  shows "\<exists>b. seat_information f r c = Inr b"
proof -
  obtain n e l where "Flight_GetPassengerName f r c = Inr n" "Flight_GetEmail f r c = Inr e"
    "Flight_GetMaxLoad f r c = Inr l"
    using seat_fields_fit [OF assms] by blast
  then show ?thesis by (simp add: seat_information_def)
qed

lemma fill_buffers_ok:
  assumes "flight_inv f" and "bookings_ok f" and "buffers_ok a"
  shows "\<exists>a'. fill_buffers f a = Inr a' \<and> buffers_ok a' \<and> activeFlight a' = activeFlight a \<and>
     g_SelectedRowCol a' = g_SelectedRowCol a"
proof -
  obtain r c where sel: "g_SelectedRowCol a = (r, c)" by (cases "g_SelectedRowCol a")
  obtain n e l where "Flight_GetPassengerName f r c = Inr n" "Flight_GetEmail f r c = Inr e"
    "Flight_GetMaxLoad f r c = Inr l" "fits n" "fits e" "fits l"
    using seat_fields_fit [OF assms(1,2)] by blast
  with assms(3) sel show ?thesis
    by (simp add: fill_buffers_def strcpy_s_ok buffers_ok_def)
qed

lemma seat_button_simps [simp]:
  "buffers_ok (seat_button inp L R k seat a) = buffers_ok a"
  "activeFlight (seat_button inp L R k seat a) = activeFlight a"
  by (simp_all add: seat_button_def buffers_ok_def log_add_def)

lemma seat_row_ok:
  assumes "flight_inv f" and "bookings_ok f" and "buffers_ok a"
  shows "\<exists>a'. seat_buttons_row inp f L R k row a = Inr (k + length row, a') \<and> buffers_ok a' \<and>
     activeFlight a' = activeFlight a"
  using assms(3)
proof (induction row arbitrary: R k a)
  case Nil
  then show ?case by simp
next
  case (Cons seat row)
  obtain a1 where a1: "(if \<not> seat then fill_buffers f a else Inr a) = Inr a1" "buffers_ok a1"
    "activeFlight a1 = activeFlight a"
    using fill_buffers_ok [OF assms(1,2) Cons.prems] Cons.prems by (cases seat) auto
  from Cons.IH [of "seat_button inp L R k seat a1" "R + 1" "k + 1"] a1 show ?case by simp
qed

lemma seat_buttons_ok:
  assumes "flight_inv f" and "bookings_ok f" and "buffers_ok a"
  shows "\<exists>a'. seat_buttons inp f L k rows a = Inr a' \<and> buffers_ok a' \<and> activeFlight a' = activeFlight a"
  using assms(3)
proof (induction rows arbitrary: L k a)
  case Nil
  then show ?case by simp
next
  case (Cons row rows)
  obtain a' where a': "seat_buttons_row inp f L 0 k row a = Inr (k + length row, a')" "buffers_ok a'"
    "activeFlight a' = activeFlight a" using seat_row_ok [OF assms(1,2) Cons.prems] by blast
  from Cons.IH [OF a'(2), of "L + 1" "k + length row"] a' show ?case by simp
qed

lemma SeatMapGUI_ok:
  fixes a :: "'w app"
  assumes "catalog_ok S dt fis v" and "app_inv fis v a"
  shows "\<exists>a'. SeatMapGUI inp a = Inr a' \<and> app_inv fis v a' \<and> activeFlight a' = activeFlight a"
proof (cases "activeFlight a")
  case None
  with assms(2) show ?thesis by (simp add: SeatMapGUI_def)
next
  case (Some f)
  have act: "active_ok fis v f" and buf: "buffers_ok a" using assms(2) Some by (auto simp: app_inv_def)
  have inv: "flight_inv f" using act by (simp add: active_ok_def)
  have good: "bookings_ok f" using active_bookings_ok [OF assms(1) act] by (simp add: bookings_ok_def)
  from seat_buttons_ok [OF inv good buf] Some act show ?thesis
    by (fastforce simp: SeatMapGUI_def app_inv_def)
qed

lemma search_flights_ok:
  "(\<exists>m'. search_flights W writable d1 d2 m = Inr m' \<and> departureDate m' = departureDate m \<and>
       arrivalDate m' = arrivalDate m) \<or>
     (\<exists>e txt. search_flights W writable d1 d2 m = Inl e \<and> web_parse W txt = Inl e)"
  by (auto simp: search_flights_def GetAvailableFlights_def split: prod.split sum.split)

lemma AmadeusWindow_ok:
  assumes "date_ok (departureDate m)" and "date_ok (arrivalDate m)"
  shows "(\<exists>m'. AmadeusWindow W writable inp m = Inr m' \<and> date_ok (departureDate m') \<and>
       date_ok (arrivalDate m')) \<or>
     (\<exists>e txt. AmadeusWindow W writable inp m = Inl e \<and> search_clicked inp \<and> web_parse W txt = Inl e)"
proof -
  define m3 where "m3 = m\<lparr>originBuffer := in_origin inp (originBuffer m),
    destinationBuffer := in_destination inp (destinationBuffer m),
    departureDate := popup (departure_popup inp) (departureDate m),
    arrivalDate := popup (arrival_popup inp) (arrivalDate m)\<rparr>"
  have d: "date_ok (departureDate m3)" "date_ok (arrivalDate m3)"
    using assms by (simp_all add: m3_def popup_ok)
  obtain s where s: "sprintf_date (arrivalDate m3) = Inr s" using sprintf_date_ok [OF d(2)] by blast
  then have "AmadeusWindow W writable inp m =
      (if search_clicked inp then search_flights W writable s s m3 else Inr m3)"
    by (simp add: AmadeusWindow_def Let_def m3_def)
  then show ?thesis using d search_flights_ok [of W writable s s m3] by auto
qed

lemma amadeus_window_ok:
  assumes "app_inv fis v a"
  shows "(\<exists>a'. amadeus_window W writable inp a = Inr a' \<and> app_inv fis v a') \<or>
     (\<exists>e txt. amadeus_window W writable inp a = Inl e \<and> search_clicked (amadeus_in inp) \<and>
        web_parse W txt = Inl e)"
  using AmadeusWindow_ok [of "amadeus_state a" W writable "amadeus_in inp"] assms
  by (auto simp: amadeus_window_def app_inv_def buffers_ok_def)

lemma main_menu_ok: "app_inv fis v a \<Longrightarrow> app_inv fis v (main_menu inp a)"
  by (auto simp: main_menu_def Let_def app_inv_def buffers_ok_def split: option.split)

lemma last_windows_ok:
  "app_inv fis v a \<Longrightarrow> app_inv fis v (log_window inp a)"
  "app_inv fis v a \<Longrightarrow> app_inv fis v (About inp a)"
  "app_inv fis v a \<Longrightarrow> app_inv fis v (Help inp a)"
  by (auto simp: log_window_def About_def Help_def Let_def app_inv_def buffers_ok_def)

section \<open>Windows that use the database\<close>

context sql_catalog
begin

text \<open>Saving the active flight after a change that only adds or replaces bookings.\<close>

lemma save_changed:
  assumes idle: "\<not> intx db" and cat: "catalog_ok S dt fis (view db)" and act: "active_ok fis (view db) f"
    and f': "flight_inv f'" "m_FlightID f' = m_FlightID f" "m_Rows (f_SeatMap f') = m_Rows (f_SeatMap f)"
      "m_Cols (f_SeatMap f') = m_Cols (f_SeatMap f)"
    and more: "flight_occupant f' = flight_occupant f \<or>
      flight_occupant f' = (flight_occupant f)(p \<mapsto> b) \<and> booking_ok b"
  shows "\<exists>db'. InsertBookingData S f' (booking_table (m_FlightID f')) db = (Inr (), db') \<and> \<not> intx db' \<and>
     catalog_ok S dt fis (view db') \<and> active_ok fis (view db') f'"
proof -
  obtain fi bs where *: "fi \<in> set fis" "flight_of_info fi f"
    "t_bookings (view db) (sql_name (booking_table (m_FlightID f))) = Some bs"
    "distinct (map seat_of bs)" "table_map bs = flight_occupant f"
    using active_okE [OF act] by metis
  have info: "flight_of_info fi f'" using *(2) f' by (simp add: flight_of_info_def)
  have good: "booking_ok x" if "flight_occupant f' q = Some x" for q x
    using that more active_bookings_ok [OF cat act, of q x] by (auto split: if_splits)
  have dom: "dom (table_map bs) \<subseteq> dom (flight_occupant f')" using more *(5) by (elim disjE conjE) (simp_all add: subset_insertI)
  have tab: "t_bookings (view db) (sql_name (booking_table (m_FlightID f'))) = Some bs"
    using *(3) f'(2) by simp
  show ?thesis by (rule save_active [OF idle cat *(1) info f'(1) tab *(4) dom good])
qed

lemma book_seat_ok:
  assumes "\<not> intx db" and "catalog_ok S dt fis (view db)" and "app_inv fis (view db) a"
    and act: "activeFlight a = Some f" and "nameBuffer a \<noteq> []"
  shows "\<exists>a' db'. book_seat S f a db = (Inr a', db') \<and> \<not> intx db' \<and> catalog_ok S dt fis (view db') \<and>
     app_inv fis (view db') a'"
proof -
  obtain r c where sel: "g_SelectedRowCol a = (r, c)" by (cases "g_SelectedRowCol a")
  have ok: "active_ok fis (view db) f" and buf: "buffers_ok a" using assms(3) act by (auto simp: app_inv_def)
  have inv: "flight_inv f" using ok by (simp add: active_ok_def)
  have b: "booking_ok (nameBuffer a, newEmailBuffer a, newMaxLoadBuffer a)"
    using buf assms(5) by (simp add: booking_ok_def buffers_ok_def)
  obtain succ f' where f': "Flight_BookSeat f r c (nameBuffer a) (newEmailBuffer a) (newMaxLoadBuffer a) =
      Inr (succ, f')" "flight_inv f'" "m_FlightID f' = m_FlightID f"
    "m_Rows (f_SeatMap f') = m_Rows (f_SeatMap f)" "m_Cols (f_SeatMap f') = m_Cols (f_SeatMap f)"
    "flight_occupant f' = (if succ then (flight_occupant f)((r, c) \<mapsto>
        (nameBuffer a, newEmailBuffer a, newMaxLoadBuffer a)) else flight_occupant f)"
    using book_flight [OF inv] by metis
  have buf': "buffers_ok (a\<lparr>activeFlight := Some f'\<rparr>)" using buf by (simp add: buffers_ok_def)
  show ?thesis
  proof (cases succ)
    case True
    obtain db' where db': "InsertBookingData S f' (booking_table (m_FlightID f')) db = (Inr (), db')"
      "\<not> intx db'" "catalog_ok S dt fis (view db')" "active_ok fis (view db') f'"
      using save_changed [OF assms(1,2) ok f'(2-5)] f'(6) b True by metis
    then show ?thesis
      using f'(1) True sel buf'
      by (simp add: book_seat_def Let_def table_name db_return_def app_inv_active)
  next
    case False
    have "f' = f"
      using f'(1) False inv
      by (auto simp: Flight_BookSeat_def BookSeat_eq flight_inv_def seat_map_inv_def split: if_splits)
    then show ?thesis
      using f'(1) False sel buf' ok assms(1,2)
      by (simp add: book_seat_def Let_def db_return_def app_inv_active)
  qed
qed

lemma CreateBookings_ok:
  assumes "\<not> intx db" and "catalog_ok S dt fis (view db)" and "app_inv fis (view db) a" and "input_ok inp"
  shows "\<exists>a' db'. CreateBookings S inp a db = (Inr a', db') \<and> \<not> intx db' \<and>
     catalog_ok S dt fis (view db') \<and> app_inv fis (view db') a'"
proof (cases "activeFlight a")
  case None
  with assms show ?thesis by (simp add: CreateBookings_def on_flight_def db_return_def)
next
  case (Some f)
  let ?a = "a\<lparr>nameBuffer := new_name inp (nameBuffer a), newEmailBuffer := new_email inp (newEmailBuffer a),
    newMaxLoadBuffer := new_maxLoad inp (newMaxLoadBuffer a)\<rparr>"
  have i: "app_inv fis (view db) ?a"
    using assms(3,4) by (auto simp: app_inv_def buffers_ok_def input_ok_def edits_fitD)
  have "nameBuffer ?a \<noteq> []" if "book_clicked inp" using that assms(4) by (simp add: input_ok_def)
  then show ?thesis
    using book_seat_ok [OF assms(1,2) i, of f] Some i assms(1,2)
    by (simp add: CreateBookings_def on_flight_def Let_def db_return_def)
qed

lemma update_booking_ok:
  assumes "\<not> intx db" and "catalog_ok S dt fis (view db)" and "app_inv fis (view db) a"
    and act: "activeFlight a = Some f" and "passengerBuffer a \<noteq> []"
  shows "\<exists>a' db'. update_booking S inp f a db = (Inr a', db') \<and> \<not> intx db' \<and>
     catalog_ok S dt fis (view db') \<and> app_inv fis (view db') a'"
proof -
  obtain r c where sel: "g_SelectedRowCol a = (r, c)" by (cases "g_SelectedRowCol a")
  have ok: "active_ok fis (view db) f" and buf: "buffers_ok a" using assms(3) act by (auto simp: app_inv_def)
  have inv: "flight_inv f" using ok by (simp add: active_ok_def)
  let ?b = "(passengerBuffer a, emailBuffer a, maxLoadBuffer a)"
  have b: "booking_ok ?b" using buf assms(5) by (simp add: booking_ok_def buffers_ok_def)
  obtain f1 where f1: "Flight_CancelBooking f r c = Inr f1" "flight_inv f1"
    "flight_valid f1 = flight_valid f" "m_FlightID f1 = m_FlightID f"
    "m_Rows (f_SeatMap f1) = m_Rows (f_SeatMap f)" "m_Cols (f_SeatMap f1) = m_Cols (f_SeatMap f)"
    "flight_occupant f1 = (flight_occupant f)((r, c) := None)"
    using cancel_flight [OF inv] by metis
  obtain succ f2 where f2: "Flight_BookSeat f1 r c (passengerBuffer a) (emailBuffer a) (maxLoadBuffer a) =
      Inr (succ, f2)" "flight_inv f2" "m_FlightID f2 = m_FlightID f1"
    "m_Rows (f_SeatMap f2) = m_Rows (f_SeatMap f1)" "m_Cols (f_SeatMap f2) = m_Cols (f_SeatMap f1)"
    "succ \<longleftrightarrow> flight_valid f1 (r, c) \<and> flight_occupant f1 (r, c) = None"
    "flight_occupant f2 = (if succ then (flight_occupant f1)((r, c) \<mapsto> ?b) else flight_occupant f1)"
    using book_flight [OF f1(2)] by metis
  have frame: "m_FlightID f2 = m_FlightID f" "m_Rows (f_SeatMap f2) = m_Rows (f_SeatMap f)"
    "m_Cols (f_SeatMap f2) = m_Cols (f_SeatMap f)" using f1 f2 by simp_all
  have "flight_occupant f2 = flight_occupant f \<or>
      flight_occupant f2 = (flight_occupant f)((r, c) \<mapsto> ?b) \<and> booking_ok ?b"
  proof (cases "flight_valid f (r, c)")
    case True
    then show ?thesis using f1(3,7) f2(6,7) b by auto
  next
    case False
    then have "flight_occupant f (r, c) = None"
      using fl.occ_valid [OF inv, of "(r, c)"] by (cases "flight_occupant f (r, c)") auto
    with False show ?thesis using f1(3,7) f2(6,7) by auto
  qed
  from save_changed [OF assms(1,2) ok f2(2) frame this]
  obtain db' where db': "InsertBookingData S f2 (booking_table (m_FlightID f2)) db = (Inr (), db')"
    "\<not> intx db'" "catalog_ok S dt fis (view db')" "active_ok fis (view db') f2" by metis
  have "buffers_ok (a\<lparr>activeFlight := Some f2\<rparr>)" using buf by (simp add: buffers_ok_def)
  with db' show ?thesis
    using f1(1) f2(1) sel
    by (simp add: update_booking_def Let_def table_name db_return_def app_inv_active)
qed

lemma delete_booking_ok:
  assumes "\<not> intx db" and "catalog_ok S dt fis (view db)" and "app_inv fis (view db) a"
    and act: "activeFlight a = Some f"
  shows "\<exists>a' db'. delete_booking S f a db = (Inr a', db') \<and> \<not> intx db' \<and>
     catalog_ok S dt fis (view db') \<and> app_inv fis (view db') a'"
proof -
  obtain r c where sel: "g_SelectedRowCol a = (r, c)" by (cases "g_SelectedRowCol a")
  have ok: "active_ok fis (view db) f" and buf: "buffers_ok a" using assms(3) act by (auto simp: app_inv_def)
  have inv: "flight_inv f" using ok by (simp add: active_ok_def)
  obtain f1 where f1: "Flight_CancelBooking f r c = Inr f1" "flight_inv f1" "m_FlightID f1 = m_FlightID f"
    "m_Rows (f_SeatMap f1) = m_Rows (f_SeatMap f)" "m_Cols (f_SeatMap f1) = m_Cols (f_SeatMap f)"
    "flight_occupant f1 = (flight_occupant f)((r, c) := None)"
    using cancel_flight [OF inv] by metis
  have "buffers_ok (a\<lparr>activeFlight := Some f1\<rparr>)" using buf by (simp add: buffers_ok_def)
  with delete_active [OF assms(1,2) ok f1(2-6)] show ?thesis
    using f1(1,3) sel
    by (simp add: delete_booking_def Let_def table_name db_return_def app_inv_active)
qed

lemma ManageBookings_ok:
  assumes "\<not> intx db" and "catalog_ok S dt fis (view db)" and "app_inv fis (view db) a" and "input_ok inp"
  shows "\<exists>a' db'. ManageBookings S inp a db = (Inr a', db') \<and> \<not> intx db' \<and>
     catalog_ok S dt fis (view db') \<and> app_inv fis (view db') a'"
proof (cases "activeFlight a")
  case None
  with assms show ?thesis by (simp add: ManageBookings_def on_flight_def db_return_def)
next
  case (Some f)
  obtain r c where sel: "g_SelectedRowCol a = (r, c)" by (cases "g_SelectedRowCol a")
  have ok: "active_ok fis (view db) f" using assms(3) Some by (auto simp: app_inv_def)
  have inv: "flight_inv f" using ok by (simp add: active_ok_def)
  have "bookings_ok f" using active_bookings_ok [OF assms(2) ok] by (simp add: bookings_ok_def)
  from seat_information_ok [OF inv this]
  obtain b where fields: "seat_information f r c = Inr b" by blast
  obtain free where free: "IsSeatAvailable (f_SeatMap f) r c = Inr free"
    using IsSeatAvailable_eq inv by (metis flight_inv_def seat_map_inv_def)
  let ?a = "a\<lparr>passengerBuffer := upd_name inp (passengerBuffer a), emailBuffer := upd_email inp (emailBuffer a),
    maxLoadBuffer := upd_maxLoad inp (maxLoadBuffer a)\<rparr>"
  have i: "app_inv fis (view db) ?a"
    using assms(3,4) by (auto simp: app_inv_def buffers_ok_def input_ok_def edits_fitD)
  obtain a2 db2 where a2: "(if update_clicked inp then update_booking S inp f ?a else db_return ?a) db =
      (Inr a2, db2)" "\<not> intx db2" "catalog_ok S dt fis (view db2)" "app_inv fis (view db2) a2"
    using update_booking_ok [OF assms(1,2) i, of f inp] Some i assms(1,2,4)
    by (cases "update_clicked inp") (auto simp: db_return_def input_ok_def)
  have del: "\<exists>a' db'. (if delete_clicked inp then on_flight a2 (\<lambda>f. delete_booking S f a2) else db_return a2) db2 =
      (Inr a', db') \<and> \<not> intx db' \<and> catalog_ok S dt fis (view db') \<and> app_inv fis (view db') a'"
    using delete_booking_ok [OF a2(2-4)] a2(2-4)
    by (cases "activeFlight a2") (simp_all add: on_flight_def db_return_def)
  have "ManageBookings S inp a db = (if free then (Inr a, db) else
      (if delete_clicked inp then on_flight a2 (\<lambda>f. delete_booking S f a2) else db_return a2) db2)"
    using a2(1) Some sel
    by (simp add: ManageBookings_def on_flight_def free fields db_return_def Let_def)
  then show ?thesis using del assms(1-3) by (cases free) simp_all
qed

lemma select_flights_ok:
  assumes "\<not> intx db" and "catalog_ok S dt fis (view db)" and "app_inv fis (view db) a" and "set gs \<subseteq> set fis"
  shows "\<exists>a' db'. select_flights S inp i gs a db = (Inr a', db') \<and> \<not> intx db' \<and> view db' = view db \<and>
     app_inv fis (view db') a'"
  using assms
proof (induction gs arbitrary: i a db)
  case Nil
  then show ?case by (simp add: db_return_def)
next
  case (Cons fi gs)
  have step: "\<exists>a1 db1. (if select_clicked inp i then select_flight S fi a else db_return a) db = (Inr a1, db1) \<and>
      \<not> intx db1 \<and> view db1 = view db \<and> app_inv fis (view db1) a1"
  proof (cases "select_clicked inp i")
    case True
    have "fi \<in> set fis" using Cons.prems(4) by simp
    from load_active [OF Cons.prems(2) this]
    obtain f0 f db' where l: "Flight_ctor (fi_flightID fi) (fi_origin fi) (fi_destination fi)
        (fi_departureTime fi) (fi_arrivalTime fi) (fi_rows fi) (fi_cols fi) = Inr f0"
      "Flight_LoadFromFlightInformation S fi f0 db = (Inr f, db')" "keeps db db'" "view db' = view db"
      "active_ok fis (view db') f" by blast
    have "buffers_ok (a\<lparr>activeFlight := Some f\<rparr>)" using Cons.prems(3) by (simp add: app_inv_def buffers_ok_def)
    with l True keeps_idle [OF l(3) Cons.prems(1)] show ?thesis
      by (simp add: select_flight_def db_return_def app_inv_active)
  next
    case False
    then show ?thesis using Cons.prems by (simp add: db_return_def)
  qed
  then obtain a1 db1 where 1: "(if select_clicked inp i then select_flight S fi a else db_return a) db =
      (Inr a1, db1)" "\<not> intx db1" "view db1 = view db" "app_inv fis (view db1) a1" by blast
  have "set gs \<subseteq> set fis" using Cons.prems(4) by simp
  from Cons.IH [OF 1(2) _ 1(4) this, of "i + 1"] 1 Cons.prems(2) show ?case by simp
qed

lemma SelectFlight_ok:
  assumes "\<not> intx db" and "catalog_ok S dt fis (view db)" and "app_inv fis (view db) a"
  shows "\<exists>a' db'. SelectFlight S dt inp a db = (Inr a', db') \<and> \<not> intx db' \<and>
     catalog_ok S dt fis (view db') \<and> app_inv fis (view db') a'"
proof -
  obtain fs where fs: "t_flights (view db) = Some fs" "int (length fs) < 2 ^ 31"
    "map (flight_of_row S dt) fs = map Inr fis" using assms(2) by (auto simp: catalog_ok_def)
  obtain db1 where 1: "GetFlightsInfo S dt db = (Inr fis, db1)" "keeps db db1" "view db1 = view db"
    using GetFlightsInfo_ok [OF fs] by blast
  have i: "\<not> intx db1" "catalog_ok S dt fis (view db1)" "app_inv fis (view db1) a"
    using 1 assms keeps_idle [OF 1(2)] by simp_all
  from select_flights_ok [OF i subset_refl, of inp 0] 1 i(2) show ?thesis
    by (auto simp: SelectFlight_def)
qed

text \<open>One frame: either it keeps the invariant, or the reply to a search could not be parsed.\<close>

lemma GUIMain_ok:
  assumes "\<not> intx db" and "catalog_ok S dt fis (view db)" and "app_inv fis (view db) a" and "input_ok inp"
  shows "(\<exists>a' db'. GUIMain W writable S dt inp a db = (Inr a', db') \<and> \<not> intx db' \<and>
       catalog_ok S dt fis (view db') \<and> app_inv fis (view db') a') \<or>
     (\<exists>e txt. GUIMain W writable S dt inp a db = (Inl e, db) \<and> search_clicked (amadeus_in inp) \<and>
        web_parse W txt = Inl e)"
proof -
  obtain a1 where a1: "SeatMapGUI inp (main_menu inp a) = Inr a1" "app_inv fis (view db) a1"
    using SeatMapGUI_ok [OF assms(2) main_menu_ok [OF assms(3)]] by blast
  from amadeus_window_ok [OF a1(2), of W writable inp] show ?thesis
  proof
    assume "\<exists>a'. amadeus_window W writable inp a1 = Inr a' \<and> app_inv fis (view db) a'"
    then obtain a2 where a2: "amadeus_window W writable inp a1 = Inr a2" "app_inv fis (view db) a2" by blast
    obtain a3 db3 where a3: "CreateBookings S inp a2 db = (Inr a3, db3)" "\<not> intx db3"
      "catalog_ok S dt fis (view db3)" "app_inv fis (view db3) a3"
      using CreateBookings_ok [OF assms(1,2) a2(2) assms(4)] by blast
    obtain a4 db4 where a4: "ManageBookings S inp a3 db3 = (Inr a4, db4)" "\<not> intx db4"
      "catalog_ok S dt fis (view db4)" "app_inv fis (view db4) a4"
      using ManageBookings_ok [OF a3(2-4) assms(4)] by blast
    obtain a5 db5 where a5: "SelectFlight S dt inp a4 db4 = (Inr a5, db5)" "\<not> intx db5"
      "catalog_ok S dt fis (view db5)" "app_inv fis (view db5) a5"
      using SelectFlight_ok [OF a4(2-4)] by blast
    show ?thesis
      using a1(1) a2(1) a3(1) a4(1) a5
      by (simp add: GUIMain_def Let_def db_return_def last_windows_ok)
  next
    assume "\<exists>e txt. amadeus_window W writable inp a1 = Inl e \<and> search_clicked (amadeus_in inp) \<and>
      web_parse W txt = Inl e"
    then show ?thesis using a1(1) by (auto simp: GUIMain_def)
  qed
qed

lemma Run_ok:
  assumes "\<not> intx db" and "catalog_ok S dt fis (view db)" and "app_inv fis (view db) a"
    and "\<forall>inp \<in> set inps. input_ok inp"
  shows "\<exists>r db'. Run (GUIMain W writable S dt) inps a db = (r, db') \<and> \<not> intx db' \<and>
     catalog_ok S dt fis (view db') \<and>
     (case r of Inr a' \<Rightarrow> app_inv fis (view db') a'
      | Inl e \<Rightarrow> (\<exists>inp \<in> set inps. search_clicked (amadeus_in inp)) \<and> (\<exists>txt. web_parse W txt = Inl e))"
  using assms
proof (induction inps arbitrary: a db)
  case Nil
  then show ?case by (simp add: db_return_def)
next
  case (Cons inp inps)
  have ok: "input_ok inp" "\<forall>inp \<in> set inps. input_ok inp" using Cons.prems(4) by simp_all
  show ?case
  proof (cases "m_Run (guiInstance a)")
    case False
    then show ?thesis using Cons.prems(1-3) by (simp add: db_return_def)
  next
    case True
    from GUIMain_ok [OF Cons.prems(1-3) ok(1), of W writable] show ?thesis
    proof
      assume "\<exists>a' db'. GUIMain W writable S dt inp a db = (Inr a', db') \<and> \<not> intx db' \<and>
        catalog_ok S dt fis (view db') \<and> app_inv fis (view db') a'"
      then obtain a1 db1 where 1: "GUIMain W writable S dt inp a db = (Inr a1, db1)" "\<not> intx db1"
        "catalog_ok S dt fis (view db1)" "app_inv fis (view db1) a1" by blast
      obtain r db' where "Run (GUIMain W writable S dt) inps a1 db1 = (r, db')" "\<not> intx db'"
        "catalog_ok S dt fis (view db')"
        "case r of Inr a' \<Rightarrow> app_inv fis (view db') a'
          | Inl e \<Rightarrow> (\<exists>inp \<in> set inps. search_clicked (amadeus_in inp)) \<and> (\<exists>txt. web_parse W txt = Inl e)"
        using Cons.IH [OF 1(2-4) ok(2)] by blast
      then show ?thesis using True 1(1) by (auto split: sum.splits)
    next
      assume "\<exists>e txt. GUIMain W writable S dt inp a db = (Inl e, db) \<and> search_clicked (amadeus_in inp) \<and>
        web_parse W txt = Inl e"
      then show ?thesis using True Cons.prems(1,2) by auto
    qed
  qed
qed

end

section \<open>Clicking a seat\<close>

definition click_line :: "bool \<Rightarrow> string" where
  "click_line seat = ''Selected seat is '' @ (if seat then ''AVAILABLE'' else ''TAKEN'') @ ''.'' @ nl"

lemma fill_buffers_frame:
  assumes "fill_buffers f a = Inr a'"
  shows "g_SelectedRowCol a' = g_SelectedRowCol a" "g_LogBuf a' = g_LogBuf a"
  using assms by (auto simp: fill_buffers_def rbind_simps split: prod.splits)

text \<open>Only the button that is clicked changes the selection and the log.\<close>

lemma seat_row_click:
  assumes "seat_clicked inp = (\<lambda>k. k = n)" and "seat_buttons_row inp f L R k row a = Inr (k', a')"
  shows "k' = k + length row \<and>
     (if k \<le> n \<and> n < k + length row
      then g_SelectedRowCol a' = (uint L, uint (R + word_of_nat (n - k))) \<and>
           g_LogBuf a' = g_LogBuf a @ click_line (row ! (n - k))
      else g_SelectedRowCol a' = g_SelectedRowCol a \<and> g_LogBuf a' = g_LogBuf a)"
  using assms(2)
proof (induction row arbitrary: R k a)
  case Nil
  then show ?case by auto
next
  case (Cons seat row)
  obtain a1 where a1: "(if \<not> seat then fill_buffers f a else Inr a) = Inr a1"
    and rest: "seat_buttons_row inp f L (R + 1) (k + 1) row (seat_button inp L R k seat a1) = Inr (k', a')"
    using Cons.prems by (auto simp: rbind_simps)
  have fr: "g_SelectedRowCol a1 = g_SelectedRowCol a" "g_LogBuf a1 = g_LogBuf a"
    using a1 fill_buffers_frame [of f a a1] by (auto split: if_splits)
  note ih = Cons.IH [OF rest]
  consider "n = k" | "k < n" | "n < k" by linarith
  then show ?case
  proof cases
    case 1
    then show ?thesis using ih fr assms(1) by (simp add: seat_button_def log_add_def click_line_def)
  next
    case 2
    have "R + 1 + word_of_nat (n - (k + 1)) = R + word_of_nat (n - k)"
      using 2 by (simp add: of_nat_diff)
    moreover have "(seat # row) ! (n - k) = row ! (n - (k + 1))" using 2 by (simp add: nth_Cons')
    ultimately show ?thesis using ih fr assms(1) 2 by (auto simp: seat_button_def)
  next
    case 3
    then show ?thesis using ih fr assms(1) by (simp add: seat_button_def)
  qed
qed

lemma seat_rows_click:
  assumes "seat_clicked inp = (\<lambda>k. k = n)" and "seat_buttons inp f L k rows a = Inr a'"
    and "list_all (\<lambda>row. length row = C) rows" and "k \<le> n" and "n < k + length rows * C"
  shows "g_SelectedRowCol a' = (uint (L + word_of_nat ((n - k) div C)), uint (word_of_nat ((n - k) mod C) :: 16 word)) \<and>
     g_LogBuf a' = g_LogBuf a @ click_line (rows ! ((n - k) div C) ! ((n - k) mod C))"
proof -
  have before: "g_SelectedRowCol x' = g_SelectedRowCol x \<and> g_LogBuf x' = g_LogBuf x"
    if "n < k" "seat_buttons inp f L k rows x = Inr x'" for L k rows x x'
    using that
  proof (induction rows arbitrary: L k x)
    case Nil
    then show ?case by simp
  next
    case (Cons row rows)
    obtain k1 x1 where 1: "seat_buttons_row inp f L 0 k row x = Inr (k1, x1)"
      "seat_buttons inp f (L + 1) k1 rows x1 = Inr x'" using Cons.prems(2) by (auto simp: rbind_simps)
    from seat_row_click [OF assms(1) 1(1)] Cons.prems(1) Cons.IH [OF _ 1(2)] show ?case by auto
  qed
  show ?thesis
    using assms(2-5)
  proof (induction rows arbitrary: L k a)
    case Nil
    then show ?case by simp
  next
    case (Cons row rows)
    obtain k1 a1 where 1: "seat_buttons_row inp f L 0 k row a = Inr (k1, a1)"
      "seat_buttons inp f (L + 1) k1 rows a1 = Inr a'" using Cons.prems(1) by (auto simp: rbind_simps)
    have C: "length row = C" and Cs: "list_all (\<lambda>row. length row = C) rows" using Cons.prems(2) by simp_all
    note row = seat_row_click [OF assms(1) 1(1)]
    show ?case
    proof (cases "n < k + C")
      case True
      then have "g_SelectedRowCol a1 = (uint L, uint (word_of_nat (n - k) :: 16 word))"
        "g_LogBuf a1 = g_LogBuf a @ click_line (row ! (n - k))" "n < k1"
        using row C Cons.prems(3) by simp_all
      moreover have "(n - k) div C = 0" "(n - k) mod C = n - k" using True Cons.prems(3) by simp_all
      ultimately show ?thesis using before [OF _ 1(2)] by simp
    next
      case False
      then have a1: "g_SelectedRowCol a1 = g_SelectedRowCol a" "g_LogBuf a1 = g_LogBuf a" "k1 = k + C"
        using row C by simp_all
      have "C > 0" using Cons.prems(4) False C by (cases C) auto
      moreover have "n - k = (n - k1) + C" using False a1(3) by simp
      ultimately have d: "(n - k) div C = Suc ((n - k1) div C)" "(n - k) mod C = (n - k1) mod C"
        by (simp_all add: div_add_self2)
      have "n < k1 + length rows * C" "k1 \<le> n" using Cons.prems(4) False a1(3) by simp_all
      from Cons.IH [OF 1(2) Cs this(2,1)] a1 show ?thesis by (simp add: d add.assoc)
    qed
  qed
qed

section \<open>A concrete session for the witnesses\<close>

definition idle_amadeus :: amadeus_input where
  "idle_amadeus = \<lparr>in_origin = id, in_destination = id, departure_popup = None, arrival_popup = None,
     search_clicked = False\<rparr>"

definition idle_input :: frame_input where
  "idle_input = \<lparr>window_closed = False, about_clicked = False, exit_clicked = False, help_clicked = False,
     seat_clicked = (\<lambda>_. False), amadeus_in = idle_amadeus, new_name = id, new_email = id, new_maxLoad = id,
     book_clicked = False, upd_name = id, upd_email = id, upd_maxLoad = id, update_clicked = False,
     delete_clicked = False, select_clicked = (\<lambda>_. False), clear_clicked = False, about_closed = False,
     help_closed = False, copy_link = False, va_int = fst\<rparr>"

definition offline :: "(unit, string) web" where
  "offline = \<lparr>web_init = (\<lambda>w. (True, w)), web_perform = (\<lambda>w r. (([], False), w)),
     web_parse = (\<lambda>s. if s = [] then Inl Json_Error else Inr s), web_token = Inr, web_dump = (\<lambda>s n. s)\<rparr>"

definition session_row :: sql_row where
  "session_row = zip flight_cols [SQL_Text ''AA1'', SQL_Text ''MAD'', SQL_Text ''PAR'',
     SQL_Text ''2024-03-15 10:00:00'', SQL_Text ''2024-03-15 14:00:00'', SQL_Text ''bookingAA1'',
     SQL_Int 2, SQL_Int 2]"

definition session_db :: mem_db where
  "session_db = \<lparr>mem_view = \<lparr>t_bookings = [sql_name ''BookingAA1'' \<mapsto>
       [mk_booking ''Ann'' ''a@x'' ''7'' 1 0]], t_flights = Some [session_row]\<rparr>, mem_saved = None\<rparr>"

text \<open>Select the flight, click seat (0, 1), book it for Bob.\<close>

definition session_inputs :: "frame_input list" where
  "session_inputs =
     [idle_input\<lparr>select_clicked := (\<lambda>k. k = 0)\<rparr>,
      idle_input\<lparr>seat_clicked := (\<lambda>k. k = 1)\<rparr>,
      idle_input\<lparr>new_name := (\<lambda>_. ''Bob''), book_clicked := True\<rparr>]"

lemma session_catalog: "catalog_ok mem_sql (\<lambda>_. 0) [demo_info] (mem_view session_db)"
proof -
  have row: "flight_of_row mem_sql (\<lambda>_. 0) session_row = Inr demo_info"
    by (simp add: session_row_def flight_of_row_def column_string_def column_int_def getColumn_def
        getString_def getInt_def flight_cols_def demo_info_def to_int32_id is_int32_def)
  have "table_map [mk_booking ''Ann'' ''a@x'' ''7'' 1 0] = [(1, 0) \<mapsto> (''Ann'', ''a@x'', ''7'')]"
    by (simp add: table_map_def seat_of_def booking_of_def mk_booking_def)
  then have rows: "rows_ok 2 2 [mk_booking ''Ann'' ''a@x'' ''7'' 1 0]"
    by (simp add: rows_ok_def in_grid_def booking_ok_def fits_def)
  have info: "flight_info_ok demo_info"
    using demo_ident by (simp add: flight_info_ok_def demo_info_def booking_table_def is_int32_def)
  show ?thesis
    using row rows info
    by (simp add: catalog_ok_def session_db_def same_cabin_def demo_info_def booking_table_def)
qed

lemma session_idle: "\<not> mem_intx session_db"
  by (simp add: mem_intx_def session_db_def)

lemma session_inputs_ok: "inp \<in> set session_inputs \<Longrightarrow> input_ok inp \<and> \<not> search_clicked (amadeus_in inp)"
  by (auto simp: session_inputs_def input_ok_def idle_input_def idle_amadeus_def edits_fit_def fits_def)

lemma demo_occupant: "flight_occupant demo_flight = [(1, 0) \<mapsto> (''Ann'', ''a@x'', ''7'')]"
  by (rule ext) (auto simp: flight_occupant_def demo_flight_def demo_seats_def occupant_def valid_seat_def
      in_grid_2)

section \<open>Properties\<close>



text \<open>Clicking a seat selects it: on a cabin of at most 65536 rows and columns the button that is
  drawn at position \<open>r * columns + c\<close> selects row \<open>r\<close> and column \<open>c\<close>, the log says whether the
  seat is taken, and the flight stays as it is.\<close>

theorem seat_click_selects:
  assumes "activeFlight a = Some f" and "flight_inv f" and "bookings_ok f" and "buffers_ok a"
    and "flight_valid f (r, c)" and "m_Rows (f_SeatMap f) \<le> 2 ^ 16" and "m_Cols (f_SeatMap f) \<le> 2 ^ 16"
    and "seat_clicked inp = (\<lambda>k. k = nat (r * m_Cols (f_SeatMap f) + c))"
  shows "\<exists>a'. SeatMapGUI inp a = Inr a' \<and> g_SelectedRowCol a' = (r, c) \<and> activeFlight a' = Some f \<and>
     g_LogBuf a' = g_LogBuf a @ ''Selected seat is '' @
       (if flight_occupant f (r, c) = None then ''AVAILABLE'' else ''TAKEN'') @ ''.'' @ nl"
proof -
  let ?s = "f_SeatMap f"
  let ?R = "m_Rows ?s" and ?C = "m_Cols ?s"
  have dims: "grid_dims ?R ?C (m_SeatMap ?s)" and pos: "0 \<le> ?C"
    using assms(2) by (simp_all add: flight_inv_def seat_map_inv_def seat_map_dims_def)
  have rc: "0 \<le> r" "r < ?R" "0 \<le> c" "c < ?C"
    using assms(5) by (simp_all add: flight_valid_def valid_seat_def in_grid_def)
  define n where "n = nat r * nat ?C + nat c"
  have click: "seat_clicked inp = (\<lambda>k. k = n)"
    using assms(8) rc by (simp add: n_def nat_add_distrib nat_mult_distrib)
  obtain a' where a': "seat_buttons inp f 0 0 (m_SeatMap ?s) a = Inr a'" "activeFlight a' = activeFlight a"
    using seat_buttons_ok [OF assms(2-4)] by blast
  have len: "length (m_SeatMap ?s) = nat ?R" "list_all (\<lambda>row. length row = nat ?C) (m_SeatMap ?s)"
    using dims by (auto simp: grid_dims_def list_all_length)
  have n: "n div nat ?C = nat r" "n mod nat ?C = nat c" using rc by (auto simp: n_def)
  have "nat r * nat ?C + nat c < (nat r + 1) * nat ?C" using rc by simp
  also have "\<dots> \<le> nat ?R * nat ?C" using rc by (intro mult_right_mono) auto
  finally have "n < 0 + length (m_SeatMap ?s) * nat ?C" by (simp add: n_def len)
  from seat_rows_click [OF click a'(1) len(2) le0 this]
  have sel: "g_SelectedRowCol a' = (uint (word_of_nat (nat r) :: 16 word), uint (word_of_nat (nat c) :: 16 word))"
    "g_LogBuf a' = g_LogBuf a @ click_line (m_SeatMap ?s ! nat r ! nat c)" by (simp_all add: n)
  have "uint (word_of_nat (nat r) :: 16 word) = r" "uint (word_of_nat (nat c) :: 16 word) = c"
    using rc assms(6,7) by (simp_all add: uint_word_of_int_eq take_bit_int_eq_self)
  moreover have "m_SeatMap ?s ! nat r ! nat c \<longleftrightarrow> flight_occupant f (r, c) = None"
    using assms(5) by (simp add: flight_occupant_def occupant_def flight_valid_def)
  ultimately show ?thesis
    using a' sel assms(1)
    by (simp add: SeatMapGUI_def GetVecSeatMap_def click_line_def)
qed

theorem seat_click_selects_witness:
  "\<exists>(a :: unit app) a'. activeFlight a = Some demo_flight \<and>
     SeatMapGUI (idle_input\<lparr>seat_clicked := (\<lambda>k. k = 2)\<rparr>) a = Inr a' \<and> g_SelectedRowCol a' = (1, 0) \<and>
     g_LogBuf a' = ''Selected seat is TAKEN.'' @ nl"
proof -
  let ?a = "(app_init \<lparr>m_Run = True\<rparr> () Map.empty)\<lparr>activeFlight := Some demo_flight\<rparr>"
  have occ: "flight_occupant demo_flight (1, 0) = Some (''Ann'', ''a@x'', ''7'')"
    by (simp add: demo_occupant)
  have dims: "m_Rows (f_SeatMap demo_flight) = 2" "m_Cols (f_SeatMap demo_flight) = 2"
    by (simp_all add: demo_flight_def demo_seats_def)
  have good: "bookings_ok demo_flight" by (simp add: demo_occupant bookings_ok_def booking_ok_def fits_def)
  have buf: "buffers_ok ?a"
    by (simp add: app_init_def buffers_ok_def amadeus_init_def fits_def date_init_ok)
  have val: "flight_valid demo_flight (1, 0)" by (simp add: flight_valid_def valid_seat_def dims in_grid_2)
  have act: "activeFlight ?a = Some demo_flight" and log: "g_LogBuf ?a = ''''" by (simp_all add: app_init_def)
  have small: "m_Rows (f_SeatMap demo_flight) \<le> 2 ^ 16" "m_Cols (f_SeatMap demo_flight) \<le> 2 ^ 16"
    by (simp_all add: dims)
  have click: "seat_clicked (idle_input\<lparr>seat_clicked := (\<lambda>k. k = 2)\<rparr>) =
      (\<lambda>k. k = nat (1 * m_Cols (f_SeatMap demo_flight) + 0))" by (simp add: dims)
  from seat_click_selects [OF act demo_inv good buf val small click] occ act log
  show ?thesis by - (rule exI [of _ ?a], auto)
qed

text \<open>Updating a booking to an empty passenger name is not saved: in memory the seat is then held
  under the empty name, but the booking table keeps the old booking.\<close>

theorem update_to_empty_name_lost:
  assumes "sql_catalog S intx view base keeps" and "\<not> intx db" and "catalog_ok S dt fis (view db)"
    and "app_inv fis (view db) a" and "activeFlight a = Some f"
    and "flight_occupant f (g_SelectedRowCol a) = Some b"
    and "update_clicked inp" and "\<not> delete_clicked inp" and "upd_name inp = (\<lambda>_. '''')"
  shows "\<exists>a' db' f' e l bs. ManageBookings S inp a db = (Inr a', db') \<and> activeFlight a' = Some f' \<and>
     m_FlightID f' = m_FlightID f \<and> flight_occupant f' (g_SelectedRowCol a) = Some ('''', e, l) \<and>
     t_bookings (view db') (sql_name (''Booking'' @ m_FlightID f)) = Some bs \<and>
     table_map bs (g_SelectedRowCol a) = Some b"
proof -
  obtain r c where sel: "g_SelectedRowCol a = (r, c)" by (cases "g_SelectedRowCol a")
  have act: "active_ok fis (view db) f" using assms(4,5) by (simp add: app_inv_def)
  then obtain fi bs where *: "fi \<in> set fis" "flight_of_info fi f" "flight_inv f"
    "t_bookings (view db) (sql_name (booking_table (m_FlightID f))) = Some bs"
    "table_map bs = flight_occupant f" using active_okE by metis
  have occ: "flight_occupant f (r, c) = Some b" using assms(6) sel by simp
  have val: "flight_valid f (r, c)" by (rule fl.occ_valid [OF *(3) occ])
  let ?e = "upd_email inp (emailBuffer a)" and ?l = "upd_maxLoad inp (maxLoadBuffer a)"
  obtain f1 where f1: "Flight_CancelBooking f r c = Inr f1" "flight_inv f1"
    "flight_valid f1 = flight_valid f" "m_FlightID f1 = m_FlightID f"
    "flight_occupant f1 = (flight_occupant f)((r, c) := None)"
    using cancel_flight [OF *(3)] by metis
  obtain succ f2 where f2: "Flight_BookSeat f1 r c '''' ?e ?l = Inr (succ, f2)" "flight_inv f2"
    "m_FlightID f2 = m_FlightID f1" "succ \<longleftrightarrow> flight_valid f1 (r, c) \<and> flight_occupant f1 (r, c) = None"
    "flight_occupant f2 = (if succ then (flight_occupant f1)((r, c) \<mapsto> ('''', ?e, ?l)) else flight_occupant f1)"
    using book_flight [OF f1(2)] by metis
  have o2: "flight_occupant f2 (r, c) = Some ('''', ?e, ?l)" using f1 f2 val by simp
  have id: "m_FlightID f2 = m_FlightID f" "m_FlightID f = fi_flightID fi"
    using f1 f2 *(2) by (simp_all add: flight_of_info_def)
  have ident: "sql_ident (booking_table (m_FlightID f2))"
    using catalog_info [OF assms(3) *(1)] id by (simp add: flight_info_ok_def)
  have tab: "t_bookings (view db) (sql_name (booking_table (m_FlightID f2))) = Some bs" using *(4) id by simp
  have tables: "sql_tables S intx view base keeps" using assms(1) by (simp add: sql_catalog_def)
  obtain db' where db': "InsertBookingData S f2 (booking_table (m_FlightID f2)) db = (Inr (), db')"
    "view db' = put_table (view db) (booking_table (m_FlightID f2)) (foldl upsert bs (saved_rows (f_SeatMap f2)))"
    using sql_tables.InsertBookingData_ok [OF tables ident tab assms(2) f2(2)] by blast
  have "table_map (foldl upsert bs (saved_rows (f_SeatMap f2))) (r, c) = Some b"
    using saved_table_map [OF f2(2)] o2 *(5) occ by simp
  moreover have "bookings_ok f" using active_bookings_ok [OF assms(3) act] by (simp add: bookings_ok_def)
  from seat_information_ok [OF *(3) this] obtain x where "seat_information f r c = Inr x" by blast
  moreover have "IsSeatAvailable (f_SeatMap f) r c = Inr False"
    using IsSeatAvailable_eq [of "f_SeatMap f" r c] *(3) occ
    by (simp add: flight_inv_def seat_map_inv_def flight_occupant_def)
  ultimately show ?thesis
    using assms(5,7-9) sel f1(1) f2(1) db' id(1) o2
    by (simp add: ManageBookings_def on_flight_def update_booking_def Let_def db_return_def table_name
        booking_table_def)
qed

theorem update_to_empty_name_lost_witness:
  "\<exists>(a :: unit app) a' db' f' e l bs.
     ManageBookings mem_sql (idle_input\<lparr>update_clicked := True, upd_name := (\<lambda>_. '''')\<rparr>) a session_db = (Inr a', db') \<and>
     activeFlight a' = Some f' \<and> flight_occupant f' (1, 0) = Some ('''', e, l) \<and>
     t_bookings (mem_view db') (sql_name ''BookingAA1'') = Some bs \<and>
     table_map bs (1, 0) = Some (''Ann'', ''a@x'', ''7'')"
proof -
  let ?a = "(app_init \<lparr>m_Run = True\<rparr> () Map.empty)\<lparr>activeFlight := Some demo_flight, g_SelectedRowCol := (1, 0)\<rparr>"
  let ?inp = "idle_input\<lparr>update_clicked := True, upd_name := (\<lambda>_. '''')\<rparr>"
  have buf: "buffers_ok ?a"
    by (simp add: app_init_def buffers_ok_def amadeus_init_def fits_def date_init_ok)
  have "flight_of_info demo_info demo_flight"
    by (simp add: flight_of_info_def demo_info_def demo_flight_def demo_seats_def)
  moreover have "table_map [mk_booking ''Ann'' ''a@x'' ''7'' 1 0] = flight_occupant demo_flight"
    by (simp add: demo_occupant table_map_def seat_of_def booking_of_def mk_booking_def)
  ultimately have "active_ok [demo_info] (mem_view session_db) demo_flight"
    using demo_inv by (simp add: active_ok_def session_db_def booking_table_def demo_id)
  then have inv: "app_inv [demo_info] (mem_view session_db) ?a" using buf by (simp add: app_inv_def)
  have sel: "g_SelectedRowCol ?a = (1, 0)" and act: "activeFlight ?a = Some demo_flight" by simp_all
  have occ: "flight_occupant demo_flight (g_SelectedRowCol ?a) = Some (''Ann'', ''a@x'', ''7'')"
    by (simp add: demo_occupant)
  have u: "update_clicked ?inp" "\<not> delete_clicked ?inp" "upd_name ?inp = (\<lambda>_. '''')"
    by (simp_all add: idle_input_def)
  from update_to_empty_name_lost [OF memc.sql_catalog_axioms session_idle session_catalog inv act occ u]
  show ?thesis unfolding sel demo_id append.simps by blast
qed

end
