(* ===== verification/Bytes.thy ===== *)
theory Bytes
  imports Prelude
begin

text \<open>
  The C data the command-line shell's routines work on: bytes, byte buffers read through a pointer,
  and \<open>int\<close> arithmetic with its wrap-around.

  A pointer into a NUL-terminated buffer is the list of the bytes from it to the terminator: \<open>rd p\<close> is
  \<open>*p\<close> (the terminator, 0, at the end) and \<open>tl p\<close> is \<open>p+1\<close>.
\<close>

unbundle bit_operations_syntax

type_synonym byte = "8 word"

definition rd :: "byte list \<Rightarrow> byte" where
  "rd p = (case p of [] \<Rightarrow> 0 | c # _ \<Rightarrow> c)"

lemma rd_simps [simp]: "rd [] = 0" "rd (c # p) = c"
  by (simp_all add: rd_def)

definition bytes_of :: "string \<Rightarrow> byte list" where
  "bytes_of s = map of_char s"

text \<open>\<open>int\<close> arithmetic of the compiled program: two's complement, 32 bits.\<close>

definition int32 :: "int \<Rightarrow> int" where
  "int32 i = sint (word_of_int i :: 32 word)"

lemma int32_id: "- (2 ^ 31) \<le> i \<Longrightarrow> i < 2 ^ 31 \<Longrightarrow> int32 i = i"
  by (simp add: int32_def signed_of_int signed_take_bit_int_eq_self)

lemma sint_word_ge32: "- (2 ^ 31) \<le> int32 i"
  unfolding int32_def using sint_ge [of "word_of_int i :: 32 word"] by simp

text \<open>Bits of 8-bit and 32-bit values, one by one.\<close>

lemma less_8_cases: "n < 8 \<longleftrightarrow> n \<in> {0, 1, 2, 3, 4, 5, 6, 7 :: nat}"
  by auto

lemma byte_eqI:
  fixes v w :: byte
  assumes "\<And>n. n \<in> {0, 1, 2, 3, 4, 5, 6, 7} \<Longrightarrow> bit v n = bit w n"
  shows "v = w"
proof (rule bit_word_eqI)
  fix n assume "n < LENGTH(8)"
  then have "n \<in> {0, 1, 2, 3, 4, 5, 6, 7}" using less_8_cases [of n] by simp
  then show "bit v n = bit w n" by (rule assms)
qed

lemma and_mask_bits:
  fixes w :: "'a :: len word"
  shows "w AND 0x3f = take_bit 6 w" and "w AND 0xff = take_bit 8 w" and "w AND 0xf = take_bit 4 w"
  by (simp_all add: take_bit_eq_mask mask_eq_exp_minus_1)

lemma byte_bit_high [simp]: "8 \<le> n \<Longrightarrow> \<not> bit (b :: byte) n"
  using bit_imp_le_length [of b n] by auto

lemmas byte_bits = byte_eqI bit_simps

lemma unat_ucast_byte: "unat w < 256 \<Longrightarrow> unat (ucast w :: byte) = unat w"
  by (simp add: unsigned_ucast_eq take_bit_nat_eq_self)

lemma unat_ucast_up: "unat (ucast (b :: byte) :: 32 word) = unat b"
proof -
  have "unat b < 2 ^ 32" using unsigned_less [of b, where 'a = nat] by simp
  then show ?thesis by (simp add: unsigned_ucast_eq take_bit_nat_eq_self)
qed

lemma ucast_ucast_byte: "unat (w :: 32 word) < 256 \<Longrightarrow> ucast (ucast w :: byte) = w"
  by (simp only: word_unat_eq_iff unat_ucast_up unat_ucast_byte)

text \<open>Division of C: the quotient is truncated toward zero.\<close>

definition cdiv :: "int \<Rightarrow> int \<Rightarrow> int" where
  "cdiv a b = sgn a * sgn b * (\<bar>a\<bar> div \<bar>b\<bar>)"

lemma cdiv_nonneg: "0 \<le> a \<Longrightarrow> 0 < b \<Longrightarrow> cdiv a b = a div b"
  by (cases "a = 0") (simp_all add: cdiv_def)

section \<open>Arguments and results of SQL functions\<close>

datatype sqlite3_value =
    V_Null | V_Int int | V_Float "64 word" | V_Text "byte list" | V_Blob "byte list"

datatype sqlite3_result =
    R_Null | R_Error string | R_Int int | R_Float "64 word" | R_Text "byte list" | R_Blob "byte list"

lemma less_80: "b < 0x80 \<longleftrightarrow> \<not> bit (b :: byte) 7"
proof -
  have "bit b 7 \<longleftrightarrow> bit (uint b) 7" by (simp add: bit_uint_iff)
  also have "\<dots> \<longleftrightarrow> odd (uint b div 128)" by (simp add: bit_iff_odd)
  finally have "bit b 7 \<longleftrightarrow> odd (uint b div 128)" .
  moreover have "odd (uint b div 128) \<longleftrightarrow> \<not> uint b < 128"
  proof (cases "uint b < 128")
    case False
    have "uint b div 128 = 1" by (rule int_div_pos_eq [where r = "uint b - 128"]) (use False uint_lt2p [of b] in simp_all)
    then show ?thesis using False by simp
  qed (simp add: div_pos_pos_trivial)
  ultimately show ?thesis by (simp add: word_less_def)
qed

lemma byte_32 [simp]: "ucast (ucast b :: 32 word) = (b :: byte)" "ucast (ucast b :: 32 word) = (ucast (b :: byte) :: 64 word)"
proof -
  show "ucast (ucast b :: 32 word) = b"
  proof (rule bit_word_eqI)
    fix n show "bit (ucast (ucast b :: 32 word) :: byte) n = bit b n" by (cases "n < 8") (auto simp: bit_simps)
  qed
  show "ucast (ucast b :: 32 word) = (ucast b :: 64 word)"
  proof (rule bit_word_eqI)
    fix n show "bit (ucast (ucast b :: 32 word) :: 64 word) n = bit (ucast b :: 64 word) n"
      by (cases "n < 8") (auto simp: bit_simps)
  qed
qed

end
