(* ===== verification/Base64.thy ===== *)
theory Base64
  imports Bytes
begin

text \<open>
  The \<open>base64(x)\<close> SQL function of the shell (\<open>shell.c\<close>, section \<open>ext/misc/base64.c\<close>): the decoding
  table, the encoder, the decoder and the function that dispatches on the type of its argument.

  A text is the list of its bytes; the decoder also keeps the count \<open>ncIn\<close> of the bytes it may still
  read, which the source counts down separately from the pointer.
\<close>

section \<open>Tables\<close>

abbreviation PC :: byte where "PC \<equiv> 0x80"
abbreviation WS :: byte where "WS \<equiv> 0x81"
abbreviation ND :: byte where "ND \<equiv> 0x82"
abbreviation PAD_CHAR :: byte where "PAD_CHAR \<equiv> 61"
abbreviation LF :: byte where "LF \<equiv> 10"

definition b64DigitValues :: "byte list" where
  "b64DigitValues =
    [ND,ND,ND,ND, ND,ND,ND,ND, ND,WS,WS,WS, WS,WS,ND,ND,
     ND,ND,ND,ND, ND,ND,ND,ND, ND,ND,ND,ND, ND,ND,ND,ND,
     WS,ND,ND,ND, ND,ND,ND,ND, ND,ND,ND,62, ND,ND,ND,63,
     52,53,54,55, 56,57,58,59, 60,61,ND,ND, ND,PC,ND,ND,
     ND, 0, 1, 2,  3, 4, 5, 6,  7, 8, 9,10, 11,12,13,14,
     15,16,17,18, 19,20,21,22, 23,24,25,ND, ND,ND,ND,ND,
     ND,26,27,28, 29,30,31,32, 33,34,35,36, 37,38,39,40,
     41,42,43,44, 45,46,47,48, 49,50,51,ND, ND,ND,ND,ND]"

definition b64Numerals :: "byte list" where
  "b64Numerals = bytes_of ''ABCDEFGHIJKLMNOPQRSTUVWXYZabcdefghijklmnopqrstuvwxyz0123456789+/''"

definition BX_DV_PROTO :: "byte \<Rightarrow> byte" where
  "BX_DV_PROTO c = (if c < 0x80 then b64DigitValues ! unat c else 0x80)"

definition IS_BX_DIGIT :: "byte \<Rightarrow> bool" where
  "IS_BX_DIGIT bdp \<longleftrightarrow> bdp < 0x80"

definition BX_NUMERAL :: "32 word \<Rightarrow> byte" where
  "BX_NUMERAL dv = b64Numerals ! unat (ucast dv :: byte)"

abbreviation B64_DARK_MAX :: int where "B64_DARK_MAX \<equiv> 72"

section \<open>Encoding\<close>

text \<open>The four characters of a full group; the bytes are promoted to \<open>int\<close> before the shifts.\<close>

definition b64_quad :: "byte \<Rightarrow> byte \<Rightarrow> byte \<Rightarrow> byte list" where
  "b64_quad b0 b1 b2 =
     (let p0 = ucast b0 :: 32 word; p1 = ucast b1; p2 = ucast b2 in
      [BX_NUMERAL (drop_bit 2 p0),
       BX_NUMERAL ((push_bit 4 p0 OR drop_bit 4 p1) AND 0x3f),
       BX_NUMERAL (push_bit 2 (p1 AND 0xf) OR drop_bit 6 p2),
       BX_NUMERAL (p2 AND 0x3f)])"

text \<open>The last one or two bytes: \<open>qv\<close> collects three bytes, with zeros for the missing ones.\<close>

fun b64_collect :: "byte list \<Rightarrow> nat \<Rightarrow> 32 word \<Rightarrow> 32 word" where
  "b64_collect pIn 0 qv = qv"
| "b64_collect pIn (Suc k) qv =
     (case pIn of
        [] \<Rightarrow> b64_collect [] k (push_bit 8 qv)
      | c # rest \<Rightarrow> b64_collect rest k (push_bit 8 qv OR ucast c))"

text \<open>The four characters are written from the last to the first.\<close>

fun b64_tail :: "nat \<Rightarrow> nat \<Rightarrow> 32 word \<Rightarrow> byte list" where
  "b64_tail 0 nco qv = []"
| "b64_tail (Suc nbe) nco qv =
     b64_tail nbe nco (drop_bit 6 qv) @
       [if nbe < nco then BX_NUMERAL (ucast (ucast (qv AND 0x3f) :: byte)) else PAD_CHAR]"

fun toBase64_loop :: "int \<Rightarrow> byte list \<Rightarrow> byte list" where
  "toBase64_loop nCol (b0 # b1 # b2 # pIn) =
     b64_quad b0 b1 b2 @
       (if nCol + 4 \<ge> B64_DARK_MAX \<or> pIn = [] then LF # toBase64_loop 0 pIn
        else toBase64_loop (nCol + 4) pIn)"
| "toBase64_loop nCol [] = []"
| "toBase64_loop nCol (b # pIn) =
     b64_tail 4 (Suc (length pIn) + 1) (b64_collect pIn 2 (ucast b)) @ [LF]"

definition toBase64 :: "byte list \<Rightarrow> byte list" where
  "toBase64 pIn = toBase64_loop 0 pIn"

section \<open>Decoding\<close>

fun skipNonB64 :: "byte list \<Rightarrow> nat \<Rightarrow> byte list" where
  "skipNonB64 s 0 = s"
| "skipNonB64 s (Suc nc) =
     (if rd s \<noteq> 0 \<and> \<not> IS_BX_DIGIT (BX_DV_PROTO (rd s)) then skipNonB64 (tl s) nc else s)"

definition nboi :: "int list" where
  "nboi = [0, 0, 1, 2, 3]"

text \<open>The loop over the four characters of a group, from \<open>nac = 4 - k\<close>: the pointer, the characters left,
  the number of bytes to write and the value collected.\<close>

fun b64_group ::
  "nat \<Rightarrow> byte list \<Rightarrow> nat \<Rightarrow> nat \<Rightarrow> int \<Rightarrow> 32 word \<Rightarrow> byte list \<times> nat \<times> int \<times> 32 word" where
  "b64_group 0 pIn nti ncIn nbo qv = (pIn, ncIn, nbo, qv)"
| "b64_group (Suc k) pIn nti ncIn nbo qv =
     (let nac = 4 - Suc k;
          c = (if nac < nti then rd pIn else b64Numerals ! 0);
          pIn' = (if nac < nti then tl pIn else pIn);
          bdp = BX_DV_PROTO c in
      if bdp = ND then b64_group k pIn' nac 0 (nbo - 1) (push_bit 6 qv)
      else if bdp = WS then b64_group k pIn' nac ncIn (nbo - 1) (push_bit 6 qv)
      else if bdp = PC then b64_group k pIn' nti ncIn (nbo - 1) (push_bit 6 qv)
      else b64_group k pIn' nti ncIn nbo (push_bit 6 qv OR ucast bdp))"

text \<open>The bytes the group writes at \<open>pOut\<close>, and the output up to \<open>pOut + nbo\<close>.\<close>

definition b64_emit :: "int \<Rightarrow> 32 word \<Rightarrow> byte list" where
  "b64_emit nbo qv =
     take (nat nbo) [ucast (drop_bit 16 qv AND 0xff), ucast (drop_bit 8 qv AND 0xff), ucast (qv AND 0xff)]"

definition b64_advance :: "byte list \<Rightarrow> int \<Rightarrow> 32 word \<Rightarrow> byte list" where
  "b64_advance out nbo qv = take (nat (int (length out) + nbo)) (out @ b64_emit nbo qv)"

lemma b64_group_left: "b64_group k pIn nti ncIn nbo qv = (p, n, b, q) \<Longrightarrow> n \<le> ncIn"
  by (induction k arbitrary: pIn nti ncIn nbo qv) (fastforce simp: Let_def split: if_splits)+

function fromBase64_loop :: "byte list \<Rightarrow> nat \<Rightarrow> byte list \<Rightarrow> byte list" where
  "fromBase64_loop pIn ncIn out =
     (if ncIn > 0 \<and> rd pIn \<noteq> PAD_CHAR then
        let pUse = skipNonB64 pIn ncIn;
            ncIn1 = ncIn - (length pIn - length pUse);
            nti = (if ncIn1 > 4 then 4 else ncIn1);
            nbo = nboi ! nti in
        if nbo = 0 then out
        else
          (case b64_group 4 pUse nti (ncIn1 - nti) nbo 0 of
             (pIn', ncIn', nbo', qv) \<Rightarrow> fromBase64_loop pIn' ncIn' (b64_advance out nbo' qv))
      else out)"
  by pat_completeness auto

termination fromBase64_loop
proof (relation "measure (\<lambda>(pIn, ncIn, out). ncIn)")
  fix pIn out pUse pIn' :: "byte list" and ncIn ncIn1 nti ncIn' :: nat and nbo nbo' :: int and qv y z
  assume "0 < ncIn \<and> rd pIn \<noteq> PAD_CHAR" and n1: "ncIn1 = ncIn - (length pIn - length pUse)"
    and nti: "nti = (if ncIn1 > 4 then 4 else ncIn1)" and nbo: "nbo = nboi ! nti" "nbo \<noteq> 0"
    and g: "(pIn', y) = b64_group 4 pUse nti (ncIn1 - nti) nbo 0" "(ncIn', z) = y" "(nbo', qv) = z"
  have "ncIn' \<le> ncIn1 - nti" using g b64_group_left by metis
  moreover have "0 < nti" using nbo by (auto simp: nboi_def intro: Nat.gr0I)
  moreover have "nti \<le> ncIn1" using nti by auto
  ultimately show "((pIn', ncIn', b64_advance out nbo' qv), pIn, ncIn, out) \<in> measure (\<lambda>(pIn, ncIn, out). ncIn)"
    using n1 by auto
qed auto

declare fromBase64_loop.simps [simp del]

definition fromBase64 :: "byte list \<Rightarrow> byte list" where
  "fromBase64 pIn =
     (let ncIn = length pIn in
      fromBase64_loop pIn (if ncIn > 0 \<and> pIn ! (ncIn - 1) = LF then ncIn - 1 else ncIn) [])"

section \<open>Facts on the tables\<close>

lemma b64Numerals_codes: "b64Numerals =
    [65, 66, 67, 68, 69, 70, 71, 72, 73, 74, 75, 76, 77, 78, 79, 80,
     81, 82, 83, 84, 85, 86, 87, 88, 89, 90, 97, 98, 99, 100, 101, 102,
     103, 104, 105, 106, 107, 108, 109, 110, 111, 112, 113, 114, 115, 116, 117, 118,
     119, 120, 121, 122, 48, 49, 50, 51, 52, 53, 54, 55, 56, 57, 43, 47]"
  by (simp add: b64Numerals_def bytes_of_def)

lemma numeral_values: "map BX_DV_PROTO b64Numerals = map of_nat [0..<64]"
  by (simp add: b64Numerals_codes BX_DV_PROTO_def b64DigitValues_def upt_rec)

lemma numeral_nonzero: "0 \<notin> set b64Numerals" "PAD_CHAR \<notin> set b64Numerals" "length b64Numerals = 64"
  by (simp_all add: b64Numerals_codes)

lemma numeral_table:
  assumes "d < 64"
  shows "BX_DV_PROTO (b64Numerals ! d) = of_nat d" "b64Numerals ! d \<noteq> 0" "b64Numerals ! d \<noteq> PAD_CHAR"
  using assms numeral_nonzero arg_cong [OF numeral_values, of "\<lambda>xs. xs ! d"]
    nth_mem [of d b64Numerals] by (simp, metis, metis)

lemma small_digit_word: "unat (d :: byte) < 64 \<Longrightarrow> d < 64"
  by (simp add: word_less_nat_alt)

lemma numeral_digit:
  assumes "unat (ucast dv :: byte) < 64"
  shows "BX_DV_PROTO (BX_NUMERAL dv) = ucast dv" and "BX_NUMERAL dv \<noteq> 0" and "BX_NUMERAL dv \<noteq> PAD_CHAR"
    and "(ucast dv :: byte) < 64"
  using numeral_table [OF assms] assms by (simp_all add: BX_NUMERAL_def small_digit_word)

lemma special_values: "BX_DV_PROTO PAD_CHAR = PC" "BX_DV_PROTO LF = WS" "BX_DV_PROTO 65 = 0"
  "b64Numerals ! 0 = 65"
  by code_simp+

text \<open>A base64 character with its digit value.\<close>

definition b64_char :: "byte \<Rightarrow> byte \<Rightarrow> bool" where
  "b64_char c d \<longleftrightarrow> BX_DV_PROTO c = d \<and> d < 64 \<and> c \<noteq> 0 \<and> c \<noteq> PAD_CHAR"

lemma b64_char_numeral: "unat (ucast dv :: byte) < 64 \<Longrightarrow> b64_char (BX_NUMERAL dv) (ucast dv)"
  by (simp add: b64_char_def numeral_digit)

lemma b64_char_A: "b64_char 65 0"
  by (simp add: b64_char_def special_values)

lemma b64_char_special:
  assumes "b64_char c d"
  shows "BX_DV_PROTO c = d" "d \<noteq> ND" "d \<noteq> WS" "d \<noteq> PC" "IS_BX_DIGIT d" "c \<noteq> PAD_CHAR"
  using assms order_less_trans [where x = d and y = 64 and z = "0x80"] by (auto simp: b64_char_def IS_BX_DIGIT_def)

lemma skip_at_digit: "b64_char c d \<Longrightarrow> skipNonB64 (c # s) n = c # s"
  by (cases n) (auto dest: b64_char_special)

section \<open>Decoding one group\<close>

lemma numeral_4: "(4 :: nat) = Suc (Suc (Suc (Suc 0)))" by simp

lemma group_digits:
  assumes "b64_char c0 d0" and "b64_char c1 d1" and "b64_char c2 d2" and "b64_char c3 d3"
  shows "b64_group 4 (c0 # c1 # c2 # c3 # s) 4 n 3 0 =
     (s, n, 3, push_bit 6 (push_bit 6 (push_bit 6 (ucast d0) OR ucast d1) OR ucast d2) OR ucast d3)"
  using assms [THEN b64_char_special(1)] assms [THEN b64_char_special(2)]
    assms [THEN b64_char_special(3)] assms [THEN b64_char_special(4)]
  by (simp add: numeral_4)

lemma group_pad1:
  assumes "b64_char c0 d0" and "b64_char c1 d1" and "b64_char c2 d2"
  shows "b64_group 4 (c0 # c1 # c2 # PAD_CHAR # s) 4 n 3 0 =
     (s, n, 2, push_bit 6 (push_bit 6 (push_bit 6 (ucast d0) OR ucast d1) OR ucast d2))"
  using assms [THEN b64_char_special(1)] assms [THEN b64_char_special(2)]
    assms [THEN b64_char_special(3)] assms [THEN b64_char_special(4)]
  by (simp add: numeral_4 special_values)

lemma group_pad2:
  assumes "b64_char c0 d0" and "b64_char c1 d1"
  shows "b64_group 4 (c0 # c1 # PAD_CHAR # PAD_CHAR # s) 4 n 3 0 =
     (s, n, 1, push_bit 6 (push_bit 6 (push_bit 6 (ucast d0) OR ucast d1)))"
  using assms [THEN b64_char_special(1)] assms [THEN b64_char_special(2)]
    assms [THEN b64_char_special(3)] assms [THEN b64_char_special(4)]
  by (simp add: numeral_4 special_values)

lemma loop_group:
  assumes "b64_char c0 d0" and "b64_group 4 (c0 # c1 # c2 # c3 # s) 4 n 3 0 = (s', n', nbo, qv)"
    and "0 \<le> nbo" and "nbo \<le> 3"
  shows "fromBase64_loop (c0 # c1 # c2 # c3 # s) (4 + n) out = fromBase64_loop s' n' (out @ b64_emit nbo qv)"
proof -
  have "length (b64_emit nbo qv) = nat nbo"
    using assms(3,4) by (auto simp: b64_emit_def)
  then have "b64_advance out nbo qv = out @ b64_emit nbo qv"
    using assms(3) by (simp add: b64_advance_def nat_add_distrib)
  then show ?thesis
    using assms(2) b64_char_special(6) [OF assms(1)]
    by (subst fromBase64_loop.simps; cases "n = 0") (simp_all add: skip_at_digit [OF assms(1)] nboi_def Let_def)
qed

lemma digits3_bytes:
  fixes b0 b1 b2 :: byte and qv :: "32 word"
  defines "p0 \<equiv> ucast b0 :: 32 word" and "p1 \<equiv> ucast b1 :: 32 word" and "p2 \<equiv> ucast b2 :: 32 word"
  defines "qv \<equiv> push_bit 6 (push_bit 6 (push_bit 6 (ucast (ucast (drop_bit 2 p0) :: byte)) OR
      ucast (ucast ((push_bit 4 p0 OR drop_bit 4 p1) AND 0x3f) :: byte)) OR
      ucast (ucast (push_bit 2 (p1 AND 0xf) OR drop_bit 6 p2) :: byte)) OR
      ucast (ucast (p2 AND 0x3f) :: byte)"
  shows "ucast (drop_bit 16 qv AND 0xff) = b0" and "ucast (drop_bit 8 qv AND 0xff) = b1"
    and "ucast (qv AND 0xff) = b2"
  unfolding qv_def p0_def p1_def p2_def and_mask_bits
  by (rule byte_eqI; elim insertE emptyE; simp add: bit_simps)+

lemma digit_bound: "take_bit 6 d = d \<Longrightarrow> unat (d :: byte) < 64"
  using take_bit_nat_less_exp [of 6 "unat d"] unsigned_take_bit_eq [of 6 d, where 'a = nat] by simp

lemma quad_chars:
  fixes b0 b1 b2 :: byte
  defines "p0 \<equiv> ucast b0 :: 32 word" and "p1 \<equiv> ucast b1 :: 32 word" and "p2 \<equiv> ucast b2 :: 32 word"
  shows "b64_char (BX_NUMERAL (drop_bit 2 p0)) (ucast (drop_bit 2 p0))"
    and "b64_char (BX_NUMERAL ((push_bit 4 p0 OR drop_bit 4 p1) AND 0x3f))
           (ucast ((push_bit 4 p0 OR drop_bit 4 p1) AND 0x3f))"
    and "b64_char (BX_NUMERAL (push_bit 2 (p1 AND 0xf) OR drop_bit 6 p2))
           (ucast (push_bit 2 (p1 AND 0xf) OR drop_bit 6 p2))"
    and "b64_char (BX_NUMERAL (p2 AND 0x3f)) (ucast (p2 AND 0x3f))"
  unfolding p0_def p1_def p2_def and_mask_bits
  by (rule b64_char_numeral; rule digit_bound; rule byte_eqI; elim insertE emptyE; simp add: bit_simps)+

lemma tail_chars:
  fixes qv :: "32 word"
  shows "b64_char (BX_NUMERAL (ucast (ucast (qv AND 0x3f) :: byte))) (ucast (ucast (ucast (qv AND 0x3f) :: byte) :: 32 word))"
  unfolding and_mask_bits
  by (rule b64_char_numeral; rule digit_bound; rule byte_eqI; elim insertE emptyE; simp add: bit_simps)

lemma tail1_byte:
  fixes b :: byte
  defines "qv \<equiv> push_bit 8 (push_bit 8 (ucast b)) :: 32 word"
  defines "d \<equiv> \<lambda>q :: 32 word. ucast (ucast (ucast (ucast (q AND 0x3f) :: byte) :: 32 word) :: byte) :: 32 word"
  shows "b64_emit 1 (push_bit 6 (push_bit 6 (push_bit 6 (d (drop_bit 6 (drop_bit 6 (drop_bit 6 qv)))) OR
      d (drop_bit 6 (drop_bit 6 qv))))) = [b]"
proof -
  have "ucast (drop_bit 16 (push_bit 6 (push_bit 6 (push_bit 6 (d (drop_bit 6 (drop_bit 6 (drop_bit 6 qv)))) OR
      d (drop_bit 6 (drop_bit 6 qv))))) AND 0xff) = b"
    unfolding qv_def d_def and_mask_bits
    by (rule byte_eqI; elim insertE emptyE; simp add: bit_simps)
  then show ?thesis by (simp add: b64_emit_def)
qed

lemma tail2_bytes:
  fixes b c :: byte
  defines "qv \<equiv> push_bit 8 (push_bit 8 (ucast b) OR ucast c) :: 32 word"
  defines "d \<equiv> \<lambda>q :: 32 word. ucast (ucast (ucast (ucast (q AND 0x3f) :: byte) :: 32 word) :: byte) :: 32 word"
  defines "dv \<equiv> push_bit 6 (push_bit 6 (push_bit 6 (d (drop_bit 6 (drop_bit 6 (drop_bit 6 qv)))) OR
      d (drop_bit 6 (drop_bit 6 qv))) OR d (drop_bit 6 qv))"
  shows "b64_emit 2 dv = [b, c]"
proof -
  have "ucast (drop_bit 16 dv AND 0xff) = b" and "ucast (drop_bit 8 dv AND 0xff) = c"
    unfolding dv_def qv_def d_def and_mask_bits
    by (rule byte_eqI; elim insertE emptyE; simp add: bit_simps)+
  then show ?thesis by (simp add: b64_emit_def)
qed

lemma loop_quad:
  "fromBase64_loop (b64_quad b0 b1 b2 @ s) (4 + n) out = fromBase64_loop s n (out @ [b0, b1, b2])"
proof -
  note gd = group_digits [where s = s and n = n,
      OF quad_chars(1) [of b0] quad_chars(2) [of b0 b1] quad_chars(3) [of b1 b2] quad_chars(4) [of b2]]
  show ?thesis
    using loop_group [OF quad_chars(1) gd, where out = out] digits3_bytes [of b0 b1 b2]
    by (simp add: b64_quad_def Let_def b64_emit_def)
qed

lemma loop_tail1:
  "fromBase64_loop (b64_tail 4 2 (b64_collect [] 2 (ucast b)) @ s) (4 + n) out = fromBase64_loop s n (out @ [b])"
  using loop_group [OF tail_chars group_pad2 [OF tail_chars tail_chars]] tail1_byte [of b]
  by (simp add: numeral_4 numeral_2_eq_2)

lemma loop_tail2:
  "fromBase64_loop (b64_tail 4 3 (b64_collect [c] 2 (ucast b)) @ s) (4 + n) out = fromBase64_loop s n (out @ [b, c])"
  using loop_group [OF tail_chars group_pad1 [OF tail_chars tail_chars tail_chars]] tail2_bytes [of b c]
  by (simp add: numeral_4 numeral_2_eq_2)

section \<open>Decoding an encoded text\<close>

text \<open>What may follow a line feed: the end of the text or another digit.\<close>

definition b64_start :: "byte list \<Rightarrow> bool" where
  "b64_start s \<longleftrightarrow> s = [] \<or> (\<exists>c d s'. s = c # s' \<and> b64_char c d)"

lemma loop_end: "fromBase64_loop s 0 out = out"
  by (subst fromBase64_loop.simps) simp

lemma loop_LF:
  assumes "b64_start s" and "n \<le> length s"
  shows "fromBase64_loop (LF # s) (Suc n) out = fromBase64_loop s n out"
proof (cases "n = 0")
  case True
  then show ?thesis
    by (subst fromBase64_loop.simps) (simp add: special_values IS_BX_DIGIT_def nboi_def loop_end)
next
  case False
  with assms obtain c d s' where s: "s = c # s'" and c: "b64_char c d"
    by (auto simp: b64_start_def)
  have skip: "skipNonB64 (LF # s) (Suc n) = s" "skipNonB64 s n = s"
    by (simp_all add: s special_values IS_BX_DIGIT_def skip_at_digit [OF c])
  have "rd s \<noteq> PAD_CHAR" using b64_char_special(6) [OF c] by (simp add: s)
  with False skip show ?thesis
    by (subst (1 2) fromBase64_loop.simps) (simp add: Let_def del: skipNonB64.simps)
qed

lemma quad_start: "b64_start (b64_quad b0 b1 b2 @ s)"
  using quad_chars(1) [of b0] by (auto simp: b64_start_def b64_quad_def Let_def)

lemma tail_start: "1 < nco \<Longrightarrow> b64_start (b64_tail 4 nco qv @ s)"
  using tail_chars by (auto simp: b64_start_def numeral_4)

lemma encode_start: "b64_start s \<Longrightarrow> b64_start (toBase64_loop nCol bs @ s)"
  by (induction nCol bs rule: toBase64_loop.induct) (simp_all add: quad_start tail_start del: b64_tail.simps)

lemma quad_length [simp]: "length (b64_quad b0 b1 b2) = 4"
  by (simp add: b64_quad_def Let_def)

lemma tail_length [simp]: "length (b64_tail k nco qv) = k"
  by (induction k arbitrary: qv) simp_all

text \<open>The decoder reads an encoded text, whatever the column it started at, and continues behind it.\<close>

lemma decode_encoded:
  assumes "b64_start s" and "n \<le> length s"
  shows "fromBase64_loop (toBase64_loop nCol bs @ s) (length (toBase64_loop nCol bs) + n) out =
     fromBase64_loop s n (out @ bs)"
proof (induction nCol bs arbitrary: out rule: toBase64_loop.induct [case_names quad none one two])
  case (quad nCol b0 b1 b2 bs)
  let ?t = "toBase64_loop (if nCol + 4 \<ge> B64_DARK_MAX \<or> bs = [] then 0 else nCol + 4) bs"
  have IH: "fromBase64_loop (?t @ s) (length ?t + n) out' = fromBase64_loop s n (out' @ bs)" for out'
    using quad by auto
  have "fromBase64_loop (LF # ?t @ s) (Suc (length ?t + n)) out' = fromBase64_loop s n (out' @ bs)" for out'
    using loop_LF [OF encode_start [OF assms(1)]] IH assms(2) by simp
  with IH show ?case
    using loop_quad [of b0 b1 b2 _ _ out] by (auto simp: add.assoc)
next
  case (none nCol)
  then show ?case by simp
next
  case (one nCol b)
  then show ?case
    using loop_tail1 [of b "LF # s" "Suc n" out] loop_LF [OF assms] by (simp add: numeral_2_eq_2 numeral_3_eq_3 del: b64_tail.simps b64_collect.simps)
next
  case (two nCol b c)
  then show ?case
    using loop_tail2 [of c b "LF # s" "Suc n" out] loop_LF [OF assms]
    by (simp add: numeral_2_eq_2 numeral_3_eq_3 del: b64_tail.simps b64_collect.simps)
qed

lemma encode_nonempty: "bs \<noteq> [] \<Longrightarrow> toBase64_loop nCol bs \<noteq> []"
  by (induction nCol bs rule: toBase64_loop.induct) simp_all

text \<open>The same when the line feed that ends the text is not counted.\<close>

lemma decode_encoded_cut:
  "bs \<noteq> [] \<Longrightarrow>
   fromBase64_loop (toBase64_loop nCol bs) (length (toBase64_loop nCol bs) - 1) out = out @ bs"
proof (induction nCol bs arbitrary: out rule: toBase64_loop.induct [case_names quad none one two])
  case (quad nCol b0 b1 b2 bs)
  show ?case
  proof (cases "bs = []")
    case True
    then show ?thesis using loop_quad [of b0 b1 b2 "[LF]" 0 out] by (simp add: loop_end)
  next
    case False
    let ?t = "toBase64_loop (if nCol + 4 \<ge> B64_DARK_MAX \<or> bs = [] then 0 else nCol + 4) bs"
    have IH: "fromBase64_loop ?t (length ?t - 1) out' = out' @ bs" for out'
      using quad False by auto
    have ne: "0 < length ?t" using False encode_nonempty by simp
    have "fromBase64_loop (LF # ?t) (Suc (length ?t - 1)) out' = out' @ bs" for out'
      using loop_LF [OF encode_start [of "[]", simplified]] IH by (simp add: b64_start_def)
    then show ?thesis
      using loop_quad [of b0 b1 b2 ?t "length ?t - 1" out]
        loop_quad [of b0 b1 b2 "LF # ?t" "length ?t" out] IH ne False
      by (auto simp: numeral_eq_Suc)
  qed
next
  case (none nCol)
  then show ?case by simp
next
  case (one nCol b)
  then show ?case
    using loop_tail1 [of b "[LF]" 0 out] by (simp add: loop_end numeral_2_eq_2 numeral_3_eq_3 del: b64_tail.simps b64_collect.simps)
next
  case (two nCol b c)
  then show ?case
    using loop_tail2 [of c b "[LF]" 0 out] by (simp add: loop_end numeral_2_eq_2 numeral_3_eq_3 del: b64_tail.simps b64_collect.simps)
qed

lemma encode_ends_LF: "bs \<noteq> [] \<Longrightarrow> \<exists>body. toBase64_loop nCol bs = body @ [LF]"
proof (induction nCol bs rule: toBase64_loop.induct)
  case (1 nCol b0 b1 b2 bs)
  then show ?case by (cases "bs = []") (auto simp: Cons_eq_append_conv)
qed auto

section \<open>The SQL function\<close>

text \<open>The sizes \<open>base64\<close> computes for its output buffers, with the \<open>2/3\<close> of the source (which is 0).\<close>

definition base64_nc :: "int \<Rightarrow> int" where
  "base64_nc nv =
     (let nc = int32 (4 * (nv + cdiv 2 3)) in
      int32 (nc + (cdiv (nc + (B64_DARK_MAX - 1)) B64_DARK_MAX + 1)))"

definition base64_nb :: "int \<Rightarrow> int" where
  "base64_nb nv = int32 (3 * cdiv (nv + 3) 4)"

text \<open>\<open>nvMax\<close> is the length limit of the connection; \<open>malloc n\<close> says whether \<open>sqlite3_malloc(n)\<close>
  succeeds.  The pointer to an empty blob is NULL; the one to an empty text is not.\<close>

definition base64 :: "int \<Rightarrow> (int \<Rightarrow> bool) \<Rightarrow> sqlite3_value \<Rightarrow> sqlite3_result" where
  "base64 nvMax malloc v =
     (case v of
        V_Blob b \<Rightarrow>
          let nc = base64_nc (int (length b)) in
          if nvMax < nc then R_Error ''blob expanded to base64 too big''
          else if b = [] then R_Text []
          else if \<not> malloc nc then R_Error ''base64 OOM''
          else R_Text (toBase64 b)
      | V_Text t \<Rightarrow>
          let nb = base64_nb (int (length t)) in
          if nvMax < nb then R_Error ''blob from base64 may be too big''
          else if \<not> malloc (if nb < 1 then 1 else nb) then R_Error ''base64 OOM''
          else R_Blob (fromBase64 t)
      | _ \<Rightarrow> R_Error ''base64 accepts only blob or text'')"

lemma encoded_length:
  assumes "0 \<le> nCol"
  shows "int (length (toBase64_loop nCol bs)) \<le>
     4 * ((int (length bs) + 2) div 3) + (4 * ((int (length bs) + 2) div 3) + nCol + 71) div 72"
  using assms
proof (induction nCol bs rule: toBase64_loop.induct)
  case (1 nCol b0 b1 b2 bs)
  define q where "q = (int (length bs) + 2) div 3"
  have q: "(int (length (b0 # b1 # b2 # bs)) + 2) div 3 = q + 1"
    by (simp add: q_def)
  have q0: "0 \<le> q" by (simp add: q_def)
  show ?case
  proof (cases "nCol + 4 \<ge> B64_DARK_MAX \<or> bs = []")
    case True
    then have "int (length (toBase64_loop 0 bs)) \<le> 4 * q + (4 * q + 71) div 72"
      using 1 by (auto simp: q_def)
    moreover have "(4 * q + 71) div 72 + 1 \<le> (4 * (q + 1) + nCol + 71) div 72" if "68 \<le> nCol"
      using that zdiv_mono1 [of "4 * q + 71 + 72" "4 * (q + 1) + nCol + 71" 72] by simp
    moreover have "toBase64_loop 0 bs = []" "q = 0" if "bs = []" using that by (simp_all add: q_def)
    ultimately show ?thesis using True \<open>0 \<le> nCol\<close> unfolding q by auto
  next
    case False
    then have "int (length (toBase64_loop (nCol + 4) bs)) \<le> 4 * q + (4 * q + (nCol + 4) + 71) div 72"
      using 1 by (auto simp: q_def)
    moreover have "4 * q + (nCol + 4) + 71 = 4 * (q + 1) + nCol + 71" by simp
    ultimately show ?thesis using False unfolding q by simp
  qed
qed (auto simp del: b64_tail.simps b64_collect.simps)

lemma emit_length: "nbo \<le> 3 \<Longrightarrow> int (length (b64_advance out nbo qv)) \<le> max 0 (int (length out) + nbo)"
  by (auto simp: b64_advance_def)

lemma group_nbo: "b64_group k pIn nti ncIn nbo qv = (p, n, b, q) \<Longrightarrow> b \<le> nbo"
  by (induction k arbitrary: pIn nti ncIn nbo qv) (fastforce simp: Let_def split: if_splits)+

lemma nboi_le: "nti \<le> 4 \<Longrightarrow> nboi ! nti \<le> 3 \<and> nboi ! nti \<le> int nti \<and> 0 \<le> nboi ! nti"
  by (simp add: nboi_def numeral_eq_Suc le_Suc_eq) auto

lemma decoded_length:
  "int (length (fromBase64_loop pIn ncIn out)) \<le> int (length out) + 3 * ((int ncIn + 3) div 4)"
proof (induction pIn ncIn out rule: fromBase64_loop.induct)
  case (1 pIn ncIn out)
  define pUse where "pUse = skipNonB64 pIn ncIn"
  define ncIn1 where "ncIn1 = ncIn - (length pIn - length pUse)"
  define nti where "nti = (if ncIn1 > 4 then 4 else ncIn1)"
  define nbo where "nbo = nboi ! nti"
  obtain p n b q where g: "b64_group 4 pUse nti (ncIn1 - nti) nbo 0 = (p, n, b, q)"
    by (cases "b64_group 4 pUse nti (ncIn1 - nti) nbo 0") auto
  have unf: "fromBase64_loop pIn ncIn out =
      (if ncIn > 0 \<and> rd pIn \<noteq> PAD_CHAR \<and> nbo \<noteq> 0 then fromBase64_loop p n (b64_advance out b q) else out)"
    by (subst fromBase64_loop.simps, unfold Let_def, fold pUse_def, fold ncIn1_def, fold nti_def,
        fold nbo_def) (simp add: g)
  show ?case
  proof (cases "ncIn > 0 \<and> rd pIn \<noteq> PAD_CHAR \<and> nbo \<noteq> 0")
    case True
    have IH: "int (length (fromBase64_loop p n (b64_advance out b q))) \<le>
        int (length (b64_advance out b q)) + 3 * ((int n + 3) div 4)"
      using 1 [OF _ pUse_def ncIn1_def nti_def nbo_def _ g [symmetric]] True by simp
    have nti4: "nti \<le> 4" "nti \<le> ncIn1" "ncIn1 \<le> ncIn" by (auto simp: nti_def ncIn1_def)
    have e: "(7 + int n) div 4 = (int n + 3) div 4 + 1" by presburger
    have b: "b \<le> 3" "b \<le> int nti" using group_nbo [OF g] nboi_le [OF nti4(1)] by (auto simp: nbo_def)
    have "n \<le> ncIn1 - nti" using b64_group_left [OF g] .
    moreover have "nti = 4 \<or> ncIn1 - nti = 0" by (auto simp: nti_def)
    moreover have "0 < nti" using True by (auto simp: nbo_def nboi_def intro: Nat.gr0I)
    ultimately have "4 + int n \<le> int ncIn \<or> n = 0" and "1 \<le> ncIn"
      using nti4 by linarith+
    then have "3 + 3 * ((int n + 3) div 4) \<le> 3 * ((int ncIn + 3) div 4)"
      using zdiv_mono1 [of "int n + 3 + 4" "int ncIn + 3" 4] zdiv_mono1 [of 4 "int ncIn + 3" 4] e by auto
    moreover have "int (length (b64_advance out b q)) \<le> int (length out) + 3"
      using emit_length [OF b(1), of out q] b(1) by linarith
    ultimately show ?thesis using IH True by (simp add: unf)
  next
    case False
    then show ?thesis by (subst unf) auto
  qed
qed

lemma fromBase64_length: "int (length (fromBase64 t)) \<le> 3 * ((int (length t) + 3) div 4)"
proof -
  have "3 * ((int (length t - 1) + 3) div 4) \<le> 3 * ((int (length t) + 3) div 4)"
    by (simp add: zdiv_mono1)
  then show ?thesis
    using decoded_length [of t "length t" "[]"] decoded_length [of t "length t - 1" "[]"]
    by (simp add: fromBase64_def Let_def)
qed

lemma base64_nc_small: "0 \<le> nv \<Longrightarrow> nv \<le> 400000000 \<Longrightarrow> base64_nc nv = 4 * nv + (4 * nv + 71) div 72 + 1"
  by (simp add: base64_nc_def Let_def cdiv_nonneg int32_id cdiv_def)

lemma base64_nb_small: "0 \<le> nv \<Longrightarrow> nv \<le> 2000000000 \<Longrightarrow> base64_nb nv = 3 * ((nv + 3) div 4)"
  by (simp add: base64_nb_def cdiv_nonneg int32_id)

section \<open>Properties\<close>

text \<open>C32: Decoding two encoded blobs one after the other gives the two blobs one after the other: encoded
  texts can be concatenated, line feeds and padding included.  With an empty second blob this is the round
  trip of one blob.\<close>

theorem base64_concat_round_trip: "fromBase64 (toBase64 a @ toBase64 b) = a @ b"
proof (cases "b = []")
  case True
  then show ?thesis
    using decode_encoded_cut [of a 0 "[]"] encode_ends_LF [of a 0]
    by (cases "a = []") (auto simp: fromBase64_def toBase64_def Let_def loop_end)
next
  case False
  have "b64_start (toBase64_loop 0 b)" using encode_start [of "[]" 0 b] by (simp add: b64_start_def)
  then have "fromBase64_loop (toBase64_loop 0 a @ toBase64_loop 0 b)
      (length (toBase64_loop 0 a) + (length (toBase64_loop 0 b) - 1)) [] = a @ b"
    using decode_encoded [of "toBase64_loop 0 b" _ 0 a "[]"] decode_encoded_cut [OF False, of 0 a] by simp
  then show ?thesis
    using encode_ends_LF [OF False, of 0] by (auto simp: fromBase64_def toBase64_def Let_def nth_append)
qed



text \<open>\<open>base64\<close> refuses blobs whose text would fit: with the default limit of 1,000,000,000 bytes a blob
  of 300,000,000 bytes is rejected as too big, although its text is shorter than the limit (the source
  computes four characters for every byte instead of every three).\<close>

theorem base64_refuses_fitting_blob:
  assumes "length b = 300000000"
  shows "base64 1000000000 malloc (V_Blob b) = R_Error ''blob expanded to base64 too big'' \<and>
    int (length (toBase64 b)) < 1000000000"
proof (rule conjI)
  show "base64 1000000000 malloc (V_Blob b) = R_Error ''blob expanded to base64 too big''"
    using assms by (simp add: base64_def base64_nc_small)
  show "int (length (toBase64 b)) < 1000000000"
    using encoded_length [of 0 b] assms by (simp add: toBase64_def)
qed

theorem base64_refuses_fitting_blob_witness:
  "base64 1000000000 (\<lambda>n. True) (V_Blob (replicate 300000000 7)) = R_Error ''blob expanded to base64 too big'' \<and>
   int (length (toBase64 (replicate 300000000 7))) < 1000000000"
  using base64_refuses_fitting_blob [of "replicate 300000000 7" "\<lambda>n. True"] by simp

end
