(* ===== verification/Base85.thy ===== *)
theory Base85
  imports Bytes
begin

text \<open>
  The \<open>base85(x)\<close> and \<open>is_base85(t)\<close> SQL functions of the shell (\<open>shell.c\<close>, section
  \<open>ext/misc/base85.c\<close>): groups of four bytes as five digits in base 85, optionally with a separator every
  80 characters.  \<open>char\<close> is signed, as on the platforms the program is built for.
\<close>

section \<open>Digits\<close>

definition B85_CLASS :: "byte \<Rightarrow> nat" where
  "B85_CLASS c = of_bool (sint c \<ge> 35) + of_bool (sint c > 38) + of_bool (sint c \<ge> 42) + of_bool (sint c > 122)"

definition b85_cOffset :: "byte list" where
  "b85_cOffset = [0, 35, 0, 42 - 4, 0]"

definition B85_DNOS :: "byte \<Rightarrow> byte" where
  "B85_DNOS c = b85_cOffset ! B85_CLASS c"

definition IS_B85 :: "byte \<Rightarrow> bool" where
  "IS_B85 c \<longleftrightarrow> odd (B85_CLASS c)"

abbreviation B85_DARK_MAX :: int where "B85_DARK_MAX \<equiv> 80"

fun skipNonB85 :: "byte list \<Rightarrow> nat \<Rightarrow> byte list" where
  "skipNonB85 s 0 = s"
| "skipNonB85 s (Suc nc) = (if rd s \<noteq> 0 \<and> \<not> IS_B85 (rd s) then skipNonB85 (tl s) nc else s)"

definition base85Numeral :: "byte \<Rightarrow> byte" where
  "base85Numeral dn = (if dn < 4 then dn + 35 else dn - 4 + 42)"

text \<open>\<open>putcs\<close> copies a string up to its terminator.\<close>

definition putcs :: "byte list \<Rightarrow> byte list" where
  "putcs s = takeWhile (\<lambda>c. c \<noteq> 0) s"

section \<open>Encoding\<close>

definition b85_quad :: "byte \<Rightarrow> byte \<Rightarrow> byte \<Rightarrow> byte \<Rightarrow> 32 word" where
  "b85_quad b0 b1 b2 b3 =
     push_bit 24 (ucast b0) OR push_bit 16 (ucast b1) OR push_bit 8 (ucast b2) OR ucast b3"

text \<open>The digits of a group, written from the last to the first: by a quotient and its remainder for a
  full group, by \<open>%\<close> and \<open>/\<close> for the last one.\<close>

fun b85_digits :: "nat \<Rightarrow> 32 word \<Rightarrow> byte list" where
  "b85_digits 0 qbv = []"
| "b85_digits (Suc nco) qbv =
     (let nqv = qbv div 85; dv = ucast (qbv - 85 * nqv) in
      b85_digits nco nqv @ [base85Numeral dv])"

fun b85_tail_digits :: "nat \<Rightarrow> 32 word \<Rightarrow> byte list" where
  "b85_tail_digits 0 qv = []"
| "b85_tail_digits (Suc nco) qv =
     (let dv = ucast (qv mod 85) in b85_tail_digits nco (qv div 85) @ [base85Numeral dv])"

fun b85_collect :: "byte list \<Rightarrow> 32 word \<Rightarrow> 32 word" where
  "b85_collect [] qv = qv"
| "b85_collect (c # pIn) qv = b85_collect pIn (push_bit 8 qv OR ucast c)"

definition b85_sep :: "byte list option \<Rightarrow> byte list" where
  "b85_sep pSep = (case pSep of None \<Rightarrow> [] | Some s \<Rightarrow> putcs s)"

fun toBase85_loop :: "int \<Rightarrow> byte list option \<Rightarrow> byte list \<Rightarrow> byte list" where
  "toBase85_loop nCol pSep (b0 # b1 # b2 # b3 # pIn) =
     b85_digits 5 (b85_quad b0 b1 b2 b3) @
     (if pSep = None then toBase85_loop nCol pSep pIn
      else if nCol + 5 \<ge> B85_DARK_MAX then b85_sep pSep @ toBase85_loop 0 pSep pIn
      else toBase85_loop (nCol + 5) pSep pIn)"
| "toBase85_loop nCol pSep [] = (if nCol > 0 then b85_sep pSep else [])"
| "toBase85_loop nCol pSep (b # pIn) =
     (let nco = Suc (length pIn) + 1 in
      b85_tail_digits nco (b85_collect pIn (ucast b)) @
      (if nCol + int nco > 0 then b85_sep pSep else []))"

definition toBase85 :: "byte list \<Rightarrow> byte list option \<Rightarrow> byte list" where
  "toBase85 pIn pSep = toBase85_loop 0 pSep pIn"

section \<open>Decoding\<close>

definition nboi85 :: "int list" where
  "nboi85 = [0, 0, 1, 2, 3, 4]"

text \<open>One group: the pointer, the characters left, the digits still missing and the value.\<close>

fun b85_group :: "nat \<Rightarrow> byte list \<Rightarrow> nat \<Rightarrow> 32 word \<Rightarrow> byte list \<times> nat \<times> nat \<times> 32 word" where
  "b85_group 0 pIn ncIn qv = (pIn, ncIn, 0, qv)"
| "b85_group (Suc nti) pIn ncIn qv =
     (let c = rd pIn; cdo = B85_DNOS c in
      if cdo = 0 then (tl pIn, ncIn - 1, Suc nti, qv)
      else b85_group nti (tl pIn) (ncIn - 1) (85 * qv + (scast c - ucast cdo)))"

definition b85_emit :: "int \<Rightarrow> 32 word \<Rightarrow> byte list" where
  "b85_emit nbo qv =
     (if 1 \<le> nbo \<and> nbo \<le> 4
      then drop (4 - nat nbo)
        [ucast (drop_bit 24 qv AND 0xff), ucast (drop_bit 16 qv AND 0xff),
         ucast (drop_bit 8 qv AND 0xff), ucast (qv AND 0xff)]
      else [])"

lemma b85_group_left: "b85_group k p ncIn qv = (p', n, m, q) \<Longrightarrow> n \<le> ncIn \<and> (0 < k \<and> 0 < ncIn \<longrightarrow> n < ncIn)"
proof (induction k arbitrary: p ncIn qv)
  case (Suc k)
  then have "n \<le> ncIn - 1" by (fastforce simp: Let_def split: if_splits)
  then show ?case by auto
qed simp

function fromBase85_loop :: "byte list \<Rightarrow> nat \<Rightarrow> byte list \<Rightarrow> byte list" where
  "fromBase85_loop pIn ncIn out =
     (if ncIn > 0 then
        let pUse = skipNonB85 pIn ncIn;
            ncIn1 = ncIn - (length pIn - length pUse);
            nti = (if ncIn1 > 5 then 5 else ncIn1);
            nbo = nboi85 ! nti in
        if nbo = 0 then out
        else
          (case b85_group nti pUse ncIn1 0 of
             (pIn', ncIn', nti', qv) \<Rightarrow>
               fromBase85_loop pIn' ncIn' (out @ b85_emit (nbo - int nti') qv))
      else out)"
  by pat_completeness auto

termination fromBase85_loop
proof (relation "measure (\<lambda>(pIn, ncIn, out). ncIn)")
  fix pIn out pUse pIn' :: "byte list" and ncIn ncIn1 nti ncIn' nti' :: nat and nbo :: int and qv y z
  assume n0: "0 < ncIn" and n1: "ncIn1 = ncIn - (length pIn - length pUse)"
    and nti: "nti = (if ncIn1 > 5 then 5 else ncIn1)" and nbo: "nbo = nboi85 ! nti" "nbo \<noteq> 0"
    and g: "(pIn', y) = b85_group nti pUse ncIn1 0" "(ncIn', z) = y" "(nti', qv) = z"
  have "0 < nti" using nbo by (auto simp: nboi85_def intro: Nat.gr0I)
  moreover from this have "0 < ncIn1" using nti by (auto split: if_splits)
  ultimately have "ncIn' < ncIn1" using g b85_group_left [of nti pUse ncIn1 0] by metis
  then show "((pIn', ncIn', out @ b85_emit (nbo - int nti') qv), pIn, ncIn, out)
      \<in> measure (\<lambda>(pIn, ncIn, out). ncIn)"
    using n1 by auto
qed auto

declare fromBase85_loop.simps [simp del]

definition fromBase85 :: "byte list \<Rightarrow> byte list" where
  "fromBase85 pIn =
     (let ncIn = length pIn in
      fromBase85_loop pIn (if ncIn > 0 \<and> pIn ! (ncIn - 1) = 10 then ncIn - 1 else ncIn) [])"

section \<open>The checker and the SQL functions\<close>

definition is_space :: "byte \<Rightarrow> bool" where
  "is_space c \<longleftrightarrow> c = 32 \<or> (9 \<le> c \<and> c \<le> 13)"

fun allBase85 :: "byte list \<Rightarrow> int" where
  "allBase85 [] = 1"
| "allBase85 (c # p) = (if c = 0 then 1 else if \<not> IS_B85 c \<and> \<not> is_space c then 0 else allBase85 p)"

definition is_base85 :: "sqlite3_value \<Rightarrow> sqlite3_result" where
  "is_base85 v =
     (case v of
        V_Text t \<Rightarrow> R_Int (allBase85 t)
      | V_Null \<Rightarrow> R_Null
      | _ \<Rightarrow> R_Error ''is_base85 accepts only text or NULL'')"

definition base85_nc :: "int \<Rightarrow> int" where
  "base85_nc nv = int32 (5 * (nv div 4) + nv mod 4 + nv div 64 + 1 + 2)"

definition base85_nb :: "int \<Rightarrow> int" where
  "base85_nb nv = int32 (4 * (nv div 5) + nv mod 5)"

definition base85 :: "int \<Rightarrow> (int \<Rightarrow> bool) \<Rightarrow> sqlite3_value \<Rightarrow> sqlite3_result" where
  "base85 nvMax malloc v =
     (case v of
        V_Blob b \<Rightarrow>
          let nc = base85_nc (int (length b)) in
          if nvMax < nc then R_Error ''blob expanded to base85 too big''
          else if b = [] then R_Text []
          else if \<not> malloc nc then R_Error ''base85 OOM''
          else R_Text (toBase85 b (Some [10]))
      | V_Text t \<Rightarrow>
          let nb = base85_nb (int (length t)) in
          if nvMax < nb then R_Error ''blob from base85 may be too big''
          else if \<not> malloc (if nb < 1 then 1 else nb) then R_Error ''base85 OOM''
          else R_Blob (fromBase85 t)
      | _ \<Rightarrow> R_Error ''base85 accepts only blob or text.'')"

section \<open>Facts on digits\<close>

lemma numeral85_table:
  "list_all (\<lambda>d. let c = base85Numeral d in
      B85_DNOS c \<noteq> 0 \<and> (scast c - ucast (B85_DNOS c) :: 32 word) = ucast d \<and> c \<noteq> 0 \<and> IS_B85 c)
     (map of_nat [0..<85])"
  by code_simp

text \<open>A base85 character with its digit value.\<close>

definition b85_char :: "byte \<Rightarrow> 32 word \<Rightarrow> bool" where
  "b85_char c d \<longleftrightarrow> B85_DNOS c \<noteq> 0 \<and> (scast c - ucast (B85_DNOS c)) = d \<and> c \<noteq> 0 \<and> IS_B85 c"

lemma b85_char_numeral:
  assumes "unat d < 85"
  shows "b85_char (base85Numeral d) (ucast d)"
proof -
  have "of_nat (unat d) \<in> set (map of_nat [0..<85] :: byte list)" using assms by (auto intro!: image_eqI [of _ _ "unat d"])
  then show ?thesis
    using numeral85_table by (auto simp: list_all_iff Let_def b85_char_def)
qed

lemma LF85: "B85_DNOS 10 = 0" "\<not> IS_B85 10"
  by code_simp+

lemma skip85_at_digit: "b85_char c d \<Longrightarrow> skipNonB85 (c # s) n = c # s"
  by (cases n) (auto simp: b85_char_def)

text \<open>The digit values of a number, most significant first.\<close>

fun digits85 :: "nat \<Rightarrow> 32 word \<Rightarrow> 32 word list" where
  "digits85 0 q = []"
| "digits85 (Suc n) q = digits85 n (q div 85) @ [q mod 85]"

definition horner85 :: "32 word \<Rightarrow> 32 word list \<Rightarrow> 32 word" where
  "horner85 = foldl (\<lambda>q d. 85 * q + d)"

lemma length_digits85 [simp]: "length (digits85 n q) = n"
  by (induction n arbitrary: q) simp_all

lemma horner_digits85: "unat q < 85 ^ n \<Longrightarrow> horner85 0 (digits85 n q) = q"
proof (induction n arbitrary: q)
  case 0
  then show ?case by (simp add: horner85_def unat_eq_zero)
next
  case (Suc n)
  have "unat (q div 85) < 85 ^ n"
    using Suc.prems by (simp add: unat_div less_mult_imp_div_less mult.commute)
  then have "horner85 0 (digits85 n (q div 85)) = q div 85" by (rule Suc.IH)
  moreover have "85 * (q div 85) + q mod 85 = q" by (metis div_mult_mod_eq mult.commute)
  ultimately show ?case by (simp add: horner85_def)
qed

lemma mod85_small:
  "unat (ucast (q mod 85 :: 32 word) :: byte) < 85" "ucast (ucast (q mod 85 :: 32 word) :: byte) = (q mod 85 :: 32 word)"
proof -
  have l: "unat (q mod 85) < 85" by (simp add: unat_mod)
  then show "unat (ucast (q mod 85 :: 32 word) :: byte) < 85" by (simp add: unat_ucast_byte)
  show "ucast (ucast (q mod 85 :: 32 word) :: byte) = (q mod 85 :: 32 word)"
    using l by (simp add: ucast_ucast_byte)
qed

lemma sub_mult_div85: "q - 85 * (q div 85) = (q mod 85 :: 32 word)"
  by (metis minus_mult_div_eq_mod)

lemma digits_chars:
  "list_all2 b85_char (b85_digits n q) (digits85 n q)" "list_all2 b85_char (b85_tail_digits n q) (digits85 n q)"
proof -
  have c: "b85_char (base85Numeral (ucast (q mod 85))) (q mod 85)" for q
    using b85_char_numeral [OF mod85_small(1)] mod85_small(2) by simp
  show "list_all2 b85_char (b85_digits n q) (digits85 n q)"
    by (induction n arbitrary: q) (simp_all add: Let_def sub_mult_div85 c list_all2_appendI)
  show "list_all2 b85_char (b85_tail_digits n q) (digits85 n q)"
    by (induction n arbitrary: q) (simp_all add: Let_def c list_all2_appendI)
qed

section \<open>Decoding one group\<close>

lemma group85_full:
  "list_all2 b85_char cs ds \<Longrightarrow>
   b85_group (length cs) (cs @ s) (length cs + n) q = (s, n, 0, horner85 q ds)"
  by (induction cs ds arbitrary: q rule: list_all2_induct) (simp_all add: horner85_def b85_char_def)

lemma group85_short:
  "list_all2 b85_char cs ds \<Longrightarrow>
   b85_group (length cs + Suc m) (cs @ 10 # s) (length cs + Suc n) q = (s, n, Suc m, horner85 q ds)"
  by (induction cs ds arbitrary: q rule: list_all2_induct) (simp_all add: horner85_def b85_char_def LF85)

definition b85_start :: "byte list \<Rightarrow> bool" where
  "b85_start s \<longleftrightarrow> s = [] \<or> (\<exists>c d s'. s = c # s' \<and> b85_char c d)"

lemma digits_start:
  assumes "list_all2 b85_char cs ds" and "cs \<noteq> []"
  shows "b85_start (cs @ s)" and "skipNonB85 (cs @ s) n = cs @ s"
  using assms by (cases cs; auto simp: list_all2_Cons1 b85_start_def skip85_at_digit)+

lemma nboi85_eq: "1 \<le> k \<Longrightarrow> k \<le> 5 \<Longrightarrow> nboi85 ! k = int k - 1"
  by (simp add: nboi85_def numeral_eq_Suc le_Suc_eq) auto

lemma loop85_end: "fromBase85_loop s 0 out = out"
  by (subst fromBase85_loop.simps) simp

lemma loop85_full:
  assumes "list_all2 b85_char cs ds" and "length cs = 5"
  shows "fromBase85_loop (cs @ s) (5 + n) out = fromBase85_loop s n (out @ b85_emit 4 (horner85 0 ds))"
proof -
  have "skipNonB85 (cs @ s) (5 + n) = cs @ s" using assms(2) by (intro digits_start(2) [OF assms(1)]) auto
  then show ?thesis
    using group85_full [OF assms(1), of s n 0] assms(2)
    by (subst fromBase85_loop.simps, cases "n = 0") (simp_all add: Let_def nboi85_eq)
qed

lemma loop85_short:
  assumes "list_all2 b85_char cs ds" and "2 \<le> length cs" and "length cs < 5"
  shows "fromBase85_loop (cs @ 10 # s) (length cs + Suc n) out =
     fromBase85_loop s n (out @ b85_emit (int (length cs) - 1) (horner85 0 ds))"
proof -
  define nti where "nti = (if length cs + Suc n > 5 then 5 else length cs + Suc n)"
  have lt: "length cs < nti" using assms(3) by (simp add: nti_def)
  obtain m where m: "nti = length cs + Suc m"
    using less_imp_Suc_add [OF lt] by auto
  have nb: "nboi85 ! nti = int nti - 1" "nboi85 ! nti \<noteq> 0"
    using nboi85_eq [of nti] assms(2) by (auto simp: nti_def)
  have skip: "skipNonB85 (cs @ 10 # s) (length cs + Suc n) = cs @ 10 # s"
    using assms(2) by (intro digits_start(2) [OF assms(1)]) auto
  show ?thesis
    using group85_short [OF assms(1), of m s n 0] nb
    by (subst fromBase85_loop.simps, unfold Let_def skip, simp only: diff_self_eq_0 minus_nat.diff_0, fold nti_def)
      (simp add: m)
qed

lemma loop85_last:
  assumes "list_all2 b85_char cs ds" and "2 \<le> length cs" and "length cs < 5"
  shows "fromBase85_loop (cs @ s) (length cs) out = out @ b85_emit (int (length cs) - 1) (horner85 0 ds)"
proof -
  have "skipNonB85 (cs @ s) (length cs) = cs @ s"
    using assms(2) by (intro digits_start(2) [OF assms(1)]) auto
  then show ?thesis
    using group85_full [OF assms(1), of s 0 0] assms(2,3)
    by (subst fromBase85_loop.simps) (auto simp: Let_def nboi85_eq loop85_end)
qed

lemma loop85_LF:
  assumes "b85_start s" and "n \<le> length s"
  shows "fromBase85_loop (10 # s) (Suc n) out = fromBase85_loop s n out"
proof (cases "n = 0")
  case True
  then show ?thesis
    by (subst fromBase85_loop.simps) (simp add: LF85 nboi85_def loop85_end)
next
  case False
  with assms obtain c d s' where s: "s = c # s'" and c: "b85_char c d"
    by (auto simp: b85_start_def)
  have skip: "skipNonB85 (10 # s) (Suc n) = s" "skipNonB85 s n = s"
    by (simp_all add: s LF85 skip85_at_digit [OF c])
  with False show ?thesis
    by (subst (1 2) fromBase85_loop.simps) (simp add: Let_def del: skipNonB85.simps)
qed

section \<open>Values of the groups\<close>

lemma quad85_bytes: "b85_emit 4 (b85_quad b0 b1 b2 b3) = [b0, b1, b2, b3]"
proof -
  have "ucast (drop_bit 24 (b85_quad b0 b1 b2 b3) AND 0xff) = b0"
    and "ucast (drop_bit 16 (b85_quad b0 b1 b2 b3) AND 0xff) = b1"
    and "ucast (drop_bit 8 (b85_quad b0 b1 b2 b3) AND 0xff) = b2"
    and "ucast (b85_quad b0 b1 b2 b3 AND 0xff) = b3"
    unfolding b85_quad_def and_mask_bits
    by (rule byte_eqI; elim insertE emptyE; simp add: bit_simps)+
  then show ?thesis by (simp add: b85_emit_def)
qed

lemma tail85_bytes:
  fixes b c d :: byte
  shows "b85_emit 1 (ucast b) = [b]" and "b85_emit 2 (push_bit 8 (ucast b) OR ucast c) = [b, c]"
    and "b85_emit 3 (push_bit 8 (push_bit 8 (ucast b) OR ucast c) OR ucast d) = [b, c, d]"
proof -
  let ?q2 = "push_bit 8 (ucast b) OR ucast c :: 32 word"
  let ?q3 = "push_bit 8 (push_bit 8 (ucast b) OR ucast c) OR ucast d :: 32 word"
  have "ucast (ucast b AND 0xff :: 32 word) = b"
    and "ucast (drop_bit 8 ?q2 AND 0xff) = b" "ucast (?q2 AND 0xff) = c"
    and "ucast (drop_bit 16 ?q3 AND 0xff) = b" "ucast (drop_bit 8 ?q3 AND 0xff) = c" "ucast (?q3 AND 0xff) = d"
    unfolding and_mask_bits
    by (rule byte_eqI; elim insertE emptyE; simp add: bit_simps)+
  then show "b85_emit 1 (ucast b) = [b]" "b85_emit 2 ?q2 = [b, c]" "b85_emit 3 ?q3 = [b, c, d]"
    by (simp_all add: b85_emit_def)
qed

text \<open>\<open>k\<close> bytes fit in \<open>k + 1\<close> digits.\<close>

lemma take_bit_bound:
  fixes q :: "32 word"
  assumes "take_bit k q = q"
  shows "unat q < 2 ^ k"
  using assms unsigned_take_bit_eq [of k q, where 'a = nat] take_bit_nat_less_exp [of k "unat q"] by simp

lemma quad85_bound: "unat q < (85 :: nat) ^ 5" for q :: "32 word"
  using unsigned_less [of q, where 'a = nat] by simp

lemma tail85_bounds:
  fixes b c d :: byte
  shows "unat (ucast b :: 32 word) < (85 :: nat) ^ 2"
    and "unat (push_bit 8 (ucast b) OR ucast c :: 32 word) < (85 :: nat) ^ 3"
    and "unat (push_bit 8 (push_bit 8 (ucast b) OR ucast c) OR ucast d :: 32 word) < (85 :: nat) ^ 4"
proof -
  have "unat (push_bit 8 (ucast b) OR ucast c :: 32 word) < 2 ^ 16"
    and "unat (push_bit 8 (push_bit 8 (ucast b) OR ucast c) OR ucast d :: 32 word) < 2 ^ 24"
    by (rule take_bit_bound; rule bit_word_eqI; auto simp: bit_simps dest: bit_imp_le_length)+
  then show "unat (push_bit 8 (ucast b) OR ucast c :: 32 word) < (85 :: nat) ^ 3"
    and "unat (push_bit 8 (push_bit 8 (ucast b) OR ucast c) OR ucast d :: 32 word) < (85 :: nat) ^ 4"
    by simp_all
  show "unat (ucast b :: 32 word) < (85 :: nat) ^ 2"
    using unsigned_less [of b, where 'a = nat] by (simp add: unat_ucast_up)
qed

lemmas quad85 = loop85_full [OF digits_chars(1)]

lemma length_b85_digits [simp]: "length (b85_digits n q) = n" "length (b85_tail_digits n q) = n"
  using digits_chars [of n q, THEN list_all2_lengthD] by simp_all

lemma loop85_quad:
  "fromBase85_loop (b85_digits 5 (b85_quad b0 b1 b2 b3) @ s) (5 + n) out =
   fromBase85_loop s n (out @ [b0, b1, b2, b3])"
  using loop85_full [OF digits_chars(1)] by (simp add: horner_digits85 [OF quad85_bound] quad85_bytes)

text \<open>The last group, of \<open>k\<close> bytes.\<close>

definition tail_ok :: "byte list \<Rightarrow> bool" where
  "tail_ok bs \<longleftrightarrow> bs \<noteq> [] \<and> length bs < 4"

lemma tail_value:
  assumes "tail_ok (b # bs)"
  defines "q \<equiv> b85_collect bs (ucast b)"
  shows "b85_emit (int (length bs) + 1) q = b # bs" and "unat q < 85 ^ (length bs + 2)"
proof -
  consider "bs = []" | c where "bs = [c]" | c d where "bs = [c, d]"
    using assms(1) by (auto simp: tail_ok_def length_Suc_conv less_Suc_eq numeral_eq_Suc)
  note cases = this
  show "b85_emit (int (length bs) + 1) q = b # bs"
    by (rule cases) (use tail85_bytes in \<open>auto simp: q_def\<close>)
  show "unat q < 85 ^ (length bs + 2)"
    by (rule cases) (use tail85_bounds in \<open>auto simp: q_def\<close>)
qed

lemma loop85_tail:
  assumes "tail_ok (b # bs)"
  defines "t \<equiv> b85_tail_digits (Suc (length bs) + 1) (b85_collect bs (ucast b))"
  shows "fromBase85_loop (t @ 10 # s) (length t + Suc n) out = fromBase85_loop s n (out @ b # bs)"
    and "fromBase85_loop (t @ s) (length t) out = out @ b # bs"
proof -
  let ?q = "b85_collect bs (ucast b) :: 32 word" and ?k = "length bs + 2"
  have t: "t = b85_tail_digits ?k ?q" unfolding t_def by (rule arg_cong2 [where f = b85_tail_digits]) simp_all
  have "int ?k - 1 = int (length bs) + 1" by simp
  then have e: "b85_emit (int ?k - 1) (horner85 0 (digits85 ?k ?q)) = b # bs"
    using tail_value [OF assms(1)] by (simp only: horner_digits85)
  have k: "2 \<le> ?k" "?k < 5" using assms(1) by (simp_all add: tail_ok_def)
  show "fromBase85_loop (t @ 10 # s) (length t + Suc n) out = fromBase85_loop s n (out @ b # bs)"
    using loop85_short [OF digits_chars(2), of ?k ?q s n out] k e unfolding t by (simp only: length_b85_digits)
  show "fromBase85_loop (t @ s) (length t) out = out @ b # bs"
    using loop85_last [OF digits_chars(2), of ?k ?q s out] k e unfolding t by (simp only: length_b85_digits)
qed

lemma encode85_tail:
  assumes "tail_ok (b # bs)" and "0 \<le> nCol"
  shows "toBase85_loop nCol pSep (b # bs) =
     b85_tail_digits (Suc (length bs) + 1) (b85_collect bs (ucast b)) @ b85_sep pSep"
proof -
  consider "bs = []" | c where "bs = [c]" | c d where "bs = [c, d]"
    using assms(1) by (auto simp: tail_ok_def length_Suc_conv less_Suc_eq numeral_eq_Suc)
  then show ?thesis
    using assms(2) by cases (simp_all add: Let_def del: b85_tail_digits.simps b85_collect.simps)
qed

text \<open>Induction over the groups of an input, the last one shorter than four bytes.\<close>

lemma groups85_induct [consumes 1, case_names group stop tail]:
  assumes "0 \<le> (nCol :: int)"
    and "\<And>nCol b0 b1 b2 b3 bs. 0 \<le> nCol \<Longrightarrow> (\<And>m. 0 \<le> m \<Longrightarrow> P m bs) \<Longrightarrow> P nCol (b0 # b1 # b2 # b3 # bs)"
    and "\<And>nCol. 0 \<le> nCol \<Longrightarrow> P nCol []"
    and "\<And>nCol b bs. 0 \<le> nCol \<Longrightarrow> tail_ok (b # bs) \<Longrightarrow> P nCol (b # bs)"
  shows "P nCol (bs :: byte list)"
  using assms(1)
proof (induction "length bs" arbitrary: nCol bs rule: less_induct)
  case less
  consider "bs = []" | b bs' where "bs = b # bs'" "tail_ok bs" | b0 b1 b2 b3 bs' where "bs = b0 # b1 # b2 # b3 # bs'"
    by (cases bs rule: remdups_adj.cases; cases "tl (tl bs)" rule: remdups_adj.cases) (auto simp: tail_ok_def)
  then show ?case
    by cases (use assms(2-4) less in auto)
qed

lemma encode85_start:
  assumes "0 \<le> nCol"
  shows "bs \<noteq> [] \<longrightarrow> b85_start (toBase85_loop nCol pSep bs @ s)"
  using assms
proof (induction nCol bs rule: groups85_induct)
  case (group nCol b0 b1 b2 b3 bs)
  have "b85_digits 5 (b85_quad b0 b1 b2 b3) \<noteq> []" by (metis length_b85_digits(1) list.size(3) zero_neq_numeral)
  then show ?case using digits_start(1) [OF digits_chars(1)] by (simp del: b85_digits.simps)
next
  case (tail nCol b bs)
  have "b85_tail_digits (Suc (length bs) + 1) q \<noteq> []" for q by simp
  then show ?case
    using digits_start(1) [OF digits_chars(2)]
    by (simp add: encode85_tail [OF tail(2,1)] del: b85_tail_digits.simps)
qed simp

lemma encode85_start': "b85_start s \<Longrightarrow> b85_start (toBase85_loop 0 pSep bs @ s)"
  by (cases "bs = []") (simp_all add: encode85_start)

lemma sep_LF [simp]: "b85_sep (Some [10]) = [10]" "b85_sep None = []"
  by (simp_all add: b85_sep_def putcs_def)

lemma decode85_encoded:
  assumes "0 \<le> nCol" and "b85_start s" and "n \<le> length s"
  shows "fromBase85_loop (toBase85_loop nCol (Some [10]) bs @ s) (length (toBase85_loop nCol (Some [10]) bs) + n) out =
     fromBase85_loop s n (out @ bs)"
  using assms(1)
proof (induction nCol bs arbitrary: out rule: groups85_induct)
  case (group nCol b0 b1 b2 b3 bs)
  let ?t = "toBase85_loop (if nCol + 5 \<ge> B85_DARK_MAX then 0 else nCol + 5) (Some [10]) bs"
  have IH: "fromBase85_loop (?t @ s) (length ?t + n) out' = fromBase85_loop s n (out' @ bs)" for out'
    using group by auto
  have "fromBase85_loop (10 # ?t @ s) (Suc (length ?t + n)) out' = fromBase85_loop s n (out' @ bs)"
    if "nCol + 5 \<ge> B85_DARK_MAX" for out'
    using loop85_LF [OF encode85_start' [OF assms(2)]] IH assms(3) that by simp
  with IH show ?case
    using loop85_quad [of b0 b1 b2 b3 _ _ out] by (auto simp: add.assoc simp del: b85_digits.simps)
next
  case (stop nCol)
  then show ?case using loop85_LF [OF assms(2,3)] by simp
next
  case (tail nCol b bs)
  then show ?case
    using loop85_tail(1) [OF tail(2), of s n out]
    by (simp add: encode85_tail [OF tail(2,1)] del: b85_tail_digits.simps)
qed

lemma decode85_encoded_cut:
  assumes "0 \<le> nCol"
  shows "0 < nCol \<or> bs \<noteq> [] \<longrightarrow>
     fromBase85_loop (toBase85_loop nCol (Some [10]) bs) (length (toBase85_loop nCol (Some [10]) bs) - 1) out =
       out @ bs"
  using assms
proof (induction nCol bs arbitrary: out rule: groups85_induct)
  case (group nCol b0 b1 b2 b3 bs)
  let ?d = "b85_digits 5 (b85_quad b0 b1 b2 b3)"
  show ?case
  proof (cases "nCol + 5 \<ge> B85_DARK_MAX")
    case True
    let ?t = "toBase85_loop 0 (Some [10]) bs"
    have "fromBase85_loop (10 # ?t) (length ?t) out' = out' @ bs" for out'
    proof (cases "bs = []")
      case False
      then have ne: "0 < length ?t" using encode85_start [of 0 bs "Some [10]" "[]"]
        group(2) [of 0 "[]"] by (cases bs) (auto simp: loop85_end intro: Nat.gr0I)
      have "fromBase85_loop (10 # ?t) (Suc (length ?t - 1)) out' = fromBase85_loop ?t (length ?t - 1) out'"
        using False encode85_start [of 0 bs "Some [10]" "[]"] by (intro loop85_LF) auto
      with ne group(2) [of 0 out'] False show ?thesis by simp
    qed (simp add: loop85_end)
    with True show ?thesis using loop85_quad [of b0 b1 b2 b3 "10 # ?t" "length ?t" out]
      by (simp add: numeral_eq_Suc del: b85_digits.simps)
  next
    case False
    let ?t = "toBase85_loop (nCol + 5) (Some [10]) bs"
    have "0 < length ?t" using group(1) group(2) [of "nCol + 5" "[]"]
      by (cases "bs = []") (auto simp: loop85_end intro: Nat.gr0I)
    with False group(1) group(2) [of "nCol + 5" "out @ [b0, b1, b2, b3]"] show ?thesis
      using loop85_quad [of b0 b1 b2 b3 ?t "length ?t - 1" out]
      by (simp add: numeral_eq_Suc del: b85_digits.simps)
  qed
next
  case (stop nCol)
  then show ?case by (simp add: loop85_end)
next
  case (tail nCol b bs)
  then show ?case
    using loop85_tail(2) [OF tail(2), of "[10]" out]
    by (simp add: encode85_tail [OF tail(2,1)] del: b85_tail_digits.simps)
qed

lemma decode85_plain:
  assumes "0 \<le> (nCol :: int)"
  shows "fromBase85_loop (toBase85_loop 0 None bs) (length (toBase85_loop 0 None bs)) out = out @ bs"
  using assms
proof (induction nCol bs arbitrary: out rule: groups85_induct)
  case (group nCol b0 b1 b2 b3 bs)
  then show ?case
    using loop85_quad [of b0 b1 b2 b3 "toBase85_loop 0 None bs" "length (toBase85_loop 0 None bs)" out]
    by (auto simp del: b85_digits.simps)
next
  case (stop nCol)
  then show ?case by (simp add: loop85_end)
next
  case (tail nCol b bs)
  then show ?case
    using loop85_tail(2) [OF tail(2), of "[]" out]
    by (simp add: encode85_tail [OF tail(2)] del: b85_tail_digits.simps)
qed

lemma digits85_set: "c \<in> set (b85_digits n q) \<union> set (b85_tail_digits n q) \<Longrightarrow> c \<noteq> 0 \<and> IS_B85 c"
  using digits_chars [of n q] by (auto simp: list_all2_conv_all_nth in_set_conv_nth b85_char_def)

lemma encode85_set:
  assumes "0 \<le> nCol"
  shows "c \<in> set (toBase85_loop nCol pSep bs) \<longrightarrow> (c \<noteq> 0 \<and> IS_B85 c) \<or> c \<in> set (b85_sep pSep)"
  using assms
proof (induction nCol bs rule: groups85_induct)
  case (group nCol b0 b1 b2 b3 bs)
  then show ?case
    using digits85_set [of c 5] group(2) [of nCol] group(2) [of "nCol + 5"] group(2) [of 0]
    by (auto simp del: b85_digits.simps)
next
  case (tail nCol b bs)
  then show ?case using digits85_set [of c "Suc (length bs) + 1"]
    by (auto simp: encode85_tail simp del: b85_tail_digits.simps)
qed simp

lemma encode85_ends_LF:
  assumes "0 \<le> nCol"
  shows "0 < nCol \<or> bs \<noteq> [] \<longrightarrow> (\<exists>body. toBase85_loop nCol (Some [10]) bs = body @ [10])"
  using assms
proof (induction nCol bs rule: groups85_induct)
  case (group nCol b0 b1 b2 b3 bs)
  have "\<exists>body. 10 # toBase85_loop 0 (Some [10]) bs = body @ [10]"
    using group(2) [of 0] by (cases "bs = []") (auto simp: Cons_eq_append_conv)
  with group(1) group(2) [of "nCol + 5"] show ?case by (auto simp del: b85_digits.simps)
next
  case (tail nCol b bs)
  then show ?case by (simp add: encode85_tail del: b85_tail_digits.simps)
qed simp

section \<open>Sizes\<close>

lemma encode85_length:
  assumes "0 \<le> nCol"
  shows "nCol < 80 \<longrightarrow> int (length (toBase85_loop nCol (Some [10]) bs)) \<le>
     5 * (int (length bs) div 4) + int (length bs) mod 4 + 1 + (nCol + 5 * (int (length bs) div 4)) div 80 + 1"
  using assms
proof (induction nCol bs rule: groups85_induct)
  case (group nCol b0 b1 b2 b3 bs)
  define k where "k = int (length bs) div 4"
  have k: "int (length (b0 # b1 # b2 # b3 # bs)) div 4 = k + 1"
    "int (length (b0 # b1 # b2 # b3 # bs)) mod 4 = int (length bs) mod 4"
    by (simp_all add: k_def)
  have k0: "0 \<le> k" by (simp add: k_def)
  show ?case
  proof (cases "nCol + 5 \<ge> B85_DARK_MAX")
    case True
    have "5 * k div 80 + 1 \<le> (nCol + 5 * (k + 1)) div 80"
      using zdiv_mono1 [of "5 * k + 80" "nCol + 5 * (k + 1)" 80] True by simp
    with True group(2) [of 0] show ?thesis unfolding k by (auto simp flip: k_def)
  next
    case False
    have "nCol + 5 + 5 * k = nCol + 5 * (k + 1)" by simp
    with False group(1) group(2) [of "nCol + 5"] show ?thesis unfolding k by (auto simp flip: k_def)
  qed
next
  case (tail nCol b bs)
  then have "int (length (b # bs)) div 4 = 0" "int (length (b # bs)) mod 4 = int (length (b # bs))"
    by (auto simp: tail_ok_def div_pos_pos_trivial mod_pos_pos_trivial)
  with tail(1) show ?case by (simp add: encode85_tail [OF tail(2,1)] del: b85_tail_digits.simps)
qed simp

lemma group85_count: "b85_group k p n q = (p', n', m, q') \<Longrightarrow> m \<le> k \<and> n' + (k - m) \<le> max n (k - m)"
proof (induction k arbitrary: p n q)
  case (Suc k)
  show ?case
  proof (cases "B85_DNOS (rd p) = 0")
    case False
    then have "m \<le> k \<and> n' + (k - m) \<le> max (n - 1) (k - m)"
      by (intro Suc.IH [of "tl p" "n - 1"]) (use Suc.prems in \<open>simp add: Let_def\<close>)
    then show ?thesis by auto
  qed (use Suc in \<open>auto simp: Let_def\<close>)
qed simp

lemma emit85_length: "int (length (b85_emit nbo q)) = (if 1 \<le> nbo \<and> nbo \<le> 4 then nbo else 0)"
  by (auto simp: b85_emit_def)

lemma less_by_fifth:
  fixes n d :: int
  assumes "1 \<le> d" and "d \<le> 5"
  shows "n - d - (n - d) div 5 + (d - 1) \<le> n - n div 5"
  using assms by linarith

lemma decode85_length:
  "int (length (fromBase85_loop pIn ncIn out)) \<le> int (length out) + (int ncIn - int ncIn div 5)"
proof (induction pIn ncIn out rule: fromBase85_loop.induct)
  case (1 pIn ncIn out)
  define pUse where "pUse = skipNonB85 pIn ncIn"
  define ncIn1 where "ncIn1 = ncIn - (length pIn - length pUse)"
  define nti where "nti = (if ncIn1 > 5 then 5 else ncIn1)"
  define nbo where "nbo = nboi85 ! nti"
  obtain p n m q where g: "b85_group nti pUse ncIn1 0 = (p, n, m, q)"
    by (cases "b85_group nti pUse ncIn1 0") auto
  have unf: "fromBase85_loop pIn ncIn out =
      (if ncIn > 0 \<and> nbo \<noteq> 0 then fromBase85_loop p n (out @ b85_emit (nbo - int m) q) else out)"
    by (subst fromBase85_loop.simps, unfold Let_def, fold pUse_def, fold ncIn1_def, fold nti_def,
        fold nbo_def) (simp add: g)
  show ?case
  proof (cases "ncIn > 0 \<and> nbo \<noteq> 0")
    case True
    have nti5: "nti \<le> 5" "nti \<le> ncIn1" "ncIn1 \<le> ncIn" by (auto simp: nti_def ncIn1_def)
    have nt: "0 < nti" using True by (auto simp: nbo_def nboi85_def intro: Nat.gr0I)
    with nti5 have nbo: "nbo = int nti - 1" by (simp add: nbo_def nboi85_eq)
    have IH: "int (length (fromBase85_loop p n (out @ b85_emit (nbo - int m) q))) \<le>
        int (length (out @ b85_emit (nbo - int m) q)) + (int n - int n div 5)"
      using 1 [OF _ pUse_def ncIn1_def nti_def nbo_def _ g [symmetric]] True by simp
    let ?d = "int nti - int m"
    have d: "m \<le> nti" "int n + ?d \<le> int ncIn1" using group85_count [OF g] nti5 by auto
    have mono: "int n - int n div 5 \<le> (int ncIn - ?d) - (int ncIn - ?d) div 5"
      using d nti5 by linarith
    have step: "int n - int n div 5 + (?d - 1) \<le> int ncIn - int ncIn div 5" if "1 \<le> ?d"
      using less_by_fifth [of ?d "int ncIn"] mono that nti5 by simp
    have zero: "int n - int n div 5 \<le> int ncIn - int ncIn div 5"
      using d nti5 by linarith
    show ?thesis
    proof (cases "2 \<le> ?d")
      case True
      then show ?thesis
        using IH step \<open>ncIn > 0 \<and> nbo \<noteq> 0\<close> nti5 by (subst unf) (simp add: emit85_length nbo)
    next
      case False
      then have "b85_emit (nbo - int m) q = []" by (simp add: b85_emit_def nbo)
      then show ?thesis using IH zero \<open>ncIn > 0 \<and> nbo \<noteq> 0\<close> by (subst unf) simp
    qed
  next
    case False
    then show ?thesis by (subst unf) auto
  qed
qed

lemma fromBase85_length: "int (length (fromBase85 t)) \<le> int (length t) - int (length t) div 5"
proof -
  have "int (length t - 1) - int (length t - 1) div 5 \<le> int (length t) - int (length t) div 5"
    by (cases "length t") (simp, linarith)
  then show ?thesis
    using decode85_length [of t "length t" "[]"] decode85_length [of t "length t - 1" "[]"]
    by (auto simp: fromBase85_def Let_def)
qed

lemma is_space_LF: "is_space 10"
  by (simp add: is_space_def)

lemma allBase85_true: "(\<And>c. c \<in> set cs \<Longrightarrow> IS_B85 c \<or> is_space c) \<Longrightarrow> allBase85 cs = 1"
proof (induction cs)
  case (Cons c cs)
  have "IS_B85 c \<or> is_space c" by (rule Cons.prems) simp
  moreover have "allBase85 cs = 1" by (rule Cons.IH) (rule Cons.prems, simp)
  ultimately show ?case by auto
qed simp

section \<open>Properties\<close>

text \<open>C34: Decoding base85 gives back what was encoded: two blobs encoded with line feeds and concatenated
  decode to the concatenation of the blobs, and a blob encoded without separator decodes to itself.\<close>

theorem base85_round_trip:
  "fromBase85 (toBase85 a (Some [10]) @ toBase85 b (Some [10])) = a @ b \<and> fromBase85 (toBase85 a None) = a"
proof (rule conjI)
  have cut: "fromBase85_loop (toBase85_loop 0 (Some [10]) x) (length (toBase85_loop 0 (Some [10]) x) - 1) out = out @ x"
    if "x \<noteq> []" for x out
    using decode85_encoded_cut [of 0 x out] that by simp
  show "fromBase85 (toBase85 a (Some [10]) @ toBase85 b (Some [10])) = a @ b"
  proof (cases "b = []")
    case True
    then show ?thesis
      using cut [of a "[]"] encode85_ends_LF [of 0 a]
      by (cases "a = []") (auto simp: fromBase85_def toBase85_def Let_def loop85_end)
  next
    case False
    have "fromBase85_loop (toBase85_loop 0 (Some [10]) a @ toBase85_loop 0 (Some [10]) b)
        (length (toBase85_loop 0 (Some [10]) a) + (length (toBase85_loop 0 (Some [10]) b) - 1)) [] = a @ b"
      using decode85_encoded [of 0 "toBase85_loop 0 (Some [10]) b" _ a "[]"] cut [OF False, of a]
        encode85_start [of 0 b "Some [10]" "[]"] False by simp
    then show ?thesis
      using encode85_ends_LF [of 0 b] False by (auto simp: fromBase85_def toBase85_def Let_def nth_append)
  qed
  have "last (toBase85_loop 0 None a) \<noteq> 10" if "toBase85_loop 0 None a \<noteq> []"
    using encode85_set [of 0 "last (toBase85_loop 0 None a)" None a] last_in_set [OF that] LF85 by auto
  then show "fromBase85 (toBase85 a None) = a"
    using decode85_plain [of 0 a "[]"] by (auto simp: fromBase85_def toBase85_def Let_def last_conv_nth)
qed

text \<open>The buffers \<open>base85\<close> allocates are large enough in both directions (for arguments of up to a
  billion bytes, the default limit): the encoded text with its terminator fits in \<open>nc\<close> bytes, the decoded
  blob in \<open>nb\<close> bytes.\<close>

theorem base85_buffers_suffice:
  assumes "length x \<le> 1000000000"
  shows "int (length (toBase85 x (Some [10]))) + 1 \<le> base85_nc (int (length x)) \<and>
    int (length (fromBase85 x)) \<le> base85_nb (int (length x))"
proof (rule conjI)
  let ?n = "int (length x)"
  have "5 * (?n div 4) div 80 \<le> ?n div 64" by linarith
  moreover have "base85_nc ?n = 5 * (?n div 4) + ?n mod 4 + ?n div 64 + 1 + 2"
    unfolding base85_nc_def using assms by (intro int32_id; simp; linarith)
  ultimately show "int (length (toBase85 x (Some [10]))) + 1 \<le> base85_nc ?n"
    using encode85_length [of 0 x] by (simp add: toBase85_def)
next
  let ?n = "int (length x)"
  have "base85_nb ?n = 4 * (?n div 5) + ?n mod 5"
    unfolding base85_nb_def using assms by (intro int32_id; simp; linarith)
  moreover have "4 * (?n div 5) + ?n mod 5 = ?n - ?n div 5" by presburger
  ultimately show "int (length (fromBase85 x)) \<le> base85_nb ?n"
    using fromBase85_length [of x] by simp
qed

theorem base85_buffers_suffice_witness:
  "int (length (toBase85 [1, 2, 3, 4, 5] (Some [10]))) + 1 \<le> base85_nc 5 \<and>
   int (length (fromBase85 [1, 2, 3, 4, 5])) \<le> base85_nb 5"
  using base85_buffers_suffice [of "[1, 2, 3, 4, 5]"] by simp

text \<open>What \<open>base85\<close> returns for a blob passes \<open>is_base85\<close>, and \<open>base85\<close> of it returns the blob, when
  the limit and the allocator allow.\<close>

theorem base85_result_accepted:
  assumes "base85 nvMax malloc (V_Blob b) = R_Text t" and "base85_nb (int (length t)) \<le> nvMax"
    and "malloc (if base85_nb (int (length t)) < 1 then 1 else base85_nb (int (length t)))"
  shows "is_base85 (V_Text t) = R_Int 1 \<and> base85 nvMax malloc (V_Text t) = R_Blob b"
proof (rule conjI)
  have t: "t = toBase85 b (Some [10])"
    using assms(1) by (auto simp: base85_def Let_def toBase85_def split: if_splits)
  have "IS_B85 c \<or> c = 10" if "c \<in> set t" for c
    using encode85_set [of 0 c "Some [10]" b] that by (auto simp: t toBase85_def)
  then have "allBase85 t = 1" by (intro allBase85_true) (metis is_space_LF)
  then show "is_base85 (V_Text t) = R_Int 1" by (simp add: is_base85_def)
  have "fromBase85 t = b"
    using decode85_encoded_cut [of 0 b "[]"] encode85_ends_LF [of 0 b]
    by (cases "b = []") (auto simp: t fromBase85_def toBase85_def Let_def loop85_end)
  then show "base85 nvMax malloc (V_Text t) = R_Blob b"
    using assms(2,3) by (simp add: base85_def Let_def not_less)
qed

theorem base85_result_accepted_witness:
  "is_base85 (V_Text (toBase85 [65] (Some [10]))) = R_Int 1 \<and>
   base85 100 (\<lambda>n. True) (V_Text (toBase85 [65] (Some [10]))) = R_Blob [65]"
proof -
  have "length (toBase85 [65] (Some [10])) = 3"
    by (simp add: toBase85_def Let_def del: b85_tail_digits.simps)
  then show ?thesis
    using base85_result_accepted [of 100 "\<lambda>n. True" "[65]" "toBase85 [65] (Some [10])"]
    by (simp add: base85_def base85_nc_def base85_nb_def int32_id)
qed

end
