(* ===== verification/Keccak.thy ===== *)
theory Keccak
  imports Bytes
begin

text \<open>
  The mixing function of the shell's SHA3 implementation (\<open>shell.c\<close>, section \<open>ext/misc/shathree.c\<close>):
  \<open>KeccakF1600Step\<close>, which runs the 24 rounds of Keccak four at a time, in place and fully unrolled, each of
  the four rounds finding the lanes where the one before it left them.

  The rounds are translated line by line, the assignments to lanes as shadowing \<open>let\<close>s.  The reference is
  the round of FIPS 202 on a 5 by 5 matrix of lanes: theta, rho, pi, chi and iota.  The result: after four
  unrolled rounds the lanes are back in place and hold what four reference rounds give.
\<close>

type_synonym u64 = "64 word"

definition ROL64 :: "u64 \<Rightarrow> nat \<Rightarrow> u64" where
  "ROL64 a x = push_bit x a OR drop_bit (64 - x) a"

datatype lanes =
  Lanes u64 u64 u64 u64 u64  u64 u64 u64 u64 u64  u64 u64 u64 u64 u64
        u64 u64 u64 u64 u64  u64 u64 u64 u64 u64

definition RC :: "u64 list" where
  "RC =
    [0x0000000000000001, 0x0000000000008082, 0x800000000000808a,
     0x8000000080008000, 0x000000000000808b, 0x0000000080000001,
     0x8000000080008081, 0x8000000000008009, 0x000000000000008a,
     0x0000000000000088, 0x0000000080008009, 0x000000008000000a,
     0x000000008000808b, 0x800000000000008b, 0x8000000000008089,
     0x8000000000008003, 0x8000000000008002, 0x8000000000000080,
     0x000000000000800a, 0x800000008000000a, 0x8000000080008081,
     0x8000000000008080, 0x0000000080000001, 0x8000000080008008]"

section \<open>The four unrolled rounds\<close>

definition keccak_round0 :: "u64 \<Rightarrow> lanes \<Rightarrow> lanes" where
  "keccak_round0 rc s =
     (case s of Lanes a00 a01 a02 a03 a04 a10 a11 a12 a13 a14 a20 a21 a22
        a23 a24 a30 a31 a32 a33 a34 a40 a41 a42 a43 a44 \<Rightarrow>
      let
      c0 = a00 XOR a10 XOR a20 XOR a30 XOR a40;
      c1 = a01 XOR a11 XOR a21 XOR a31 XOR a41;
      c2 = a02 XOR a12 XOR a22 XOR a32 XOR a42;
      c3 = a03 XOR a13 XOR a23 XOR a33 XOR a43;
      c4 = a04 XOR a14 XOR a24 XOR a34 XOR a44;
      d0 = c4 XOR ROL64 c1 1;
      d1 = c0 XOR ROL64 c2 1;
      d2 = c1 XOR ROL64 c3 1;
      d3 = c2 XOR ROL64 c4 1;
      d4 = c3 XOR ROL64 c0 1;
      b0 = (a00 XOR d0);
      b1 = ROL64 (a11 XOR d1) 44;
      b2 = ROL64 (a22 XOR d2) 43;
      b3 = ROL64 (a33 XOR d3) 21;
      b4 = ROL64 (a44 XOR d4) 14;
      a00 = b0 XOR (NOT b1 AND b2);
      a00 = a00 XOR rc;
      a11 = b1 XOR (NOT b2 AND b3);
      a22 = b2 XOR (NOT b3 AND b4);
      a33 = b3 XOR (NOT b4 AND b0);
      a44 = b4 XOR (NOT b0 AND b1);
      b2 = ROL64 (a20 XOR d0) 3;
      b3 = ROL64 (a31 XOR d1) 45;
      b4 = ROL64 (a42 XOR d2) 61;
      b0 = ROL64 (a03 XOR d3) 28;
      b1 = ROL64 (a14 XOR d4) 20;
      a20 = b0 XOR (NOT b1 AND b2);
      a31 = b1 XOR (NOT b2 AND b3);
      a42 = b2 XOR (NOT b3 AND b4);
      a03 = b3 XOR (NOT b4 AND b0);
      a14 = b4 XOR (NOT b0 AND b1);
      b4 = ROL64 (a40 XOR d0) 18;
      b0 = ROL64 (a01 XOR d1) 1;
      b1 = ROL64 (a12 XOR d2) 6;
      b2 = ROL64 (a23 XOR d3) 25;
      b3 = ROL64 (a34 XOR d4) 8;
      a40 = b0 XOR (NOT b1 AND b2);
      a01 = b1 XOR (NOT b2 AND b3);
      a12 = b2 XOR (NOT b3 AND b4);
      a23 = b3 XOR (NOT b4 AND b0);
      a34 = b4 XOR (NOT b0 AND b1);
      b1 = ROL64 (a10 XOR d0) 36;
      b2 = ROL64 (a21 XOR d1) 10;
      b3 = ROL64 (a32 XOR d2) 15;
      b4 = ROL64 (a43 XOR d3) 56;
      b0 = ROL64 (a04 XOR d4) 27;
      a10 = b0 XOR (NOT b1 AND b2);
      a21 = b1 XOR (NOT b2 AND b3);
      a32 = b2 XOR (NOT b3 AND b4);
      a43 = b3 XOR (NOT b4 AND b0);
      a04 = b4 XOR (NOT b0 AND b1);
      b3 = ROL64 (a30 XOR d0) 41;
      b4 = ROL64 (a41 XOR d1) 2;
      b0 = ROL64 (a02 XOR d2) 62;
      b1 = ROL64 (a13 XOR d3) 55;
      b2 = ROL64 (a24 XOR d4) 39;
      a30 = b0 XOR (NOT b1 AND b2);
      a41 = b1 XOR (NOT b2 AND b3);
      a02 = b2 XOR (NOT b3 AND b4);
      a13 = b3 XOR (NOT b4 AND b0);
      a24 = b4 XOR (NOT b0 AND b1)
      in Lanes a00 a01 a02 a03 a04 a10 a11 a12 a13 a14 a20 a21 a22
        a23 a24 a30 a31 a32 a33 a34 a40 a41 a42 a43 a44)"

definition keccak_round1 :: "u64 \<Rightarrow> lanes \<Rightarrow> lanes" where
  "keccak_round1 rc s =
     (case s of Lanes a00 a01 a02 a03 a04 a10 a11 a12 a13 a14 a20 a21 a22
        a23 a24 a30 a31 a32 a33 a34 a40 a41 a42 a43 a44 \<Rightarrow>
      let
      c0 = a00 XOR a20 XOR a40 XOR a10 XOR a30;
      c1 = a11 XOR a31 XOR a01 XOR a21 XOR a41;
      c2 = a22 XOR a42 XOR a12 XOR a32 XOR a02;
      c3 = a33 XOR a03 XOR a23 XOR a43 XOR a13;
      c4 = a44 XOR a14 XOR a34 XOR a04 XOR a24;
      d0 = c4 XOR ROL64 c1 1;
      d1 = c0 XOR ROL64 c2 1;
      d2 = c1 XOR ROL64 c3 1;
      d3 = c2 XOR ROL64 c4 1;
      d4 = c3 XOR ROL64 c0 1;
      b0 = (a00 XOR d0);
      b1 = ROL64 (a31 XOR d1) 44;
      b2 = ROL64 (a12 XOR d2) 43;
      b3 = ROL64 (a43 XOR d3) 21;
      b4 = ROL64 (a24 XOR d4) 14;
      a00 = b0 XOR (NOT b1 AND b2);
      a00 = a00 XOR rc;
      a31 = b1 XOR (NOT b2 AND b3);
      a12 = b2 XOR (NOT b3 AND b4);
      a43 = b3 XOR (NOT b4 AND b0);
      a24 = b4 XOR (NOT b0 AND b1);
      b2 = ROL64 (a40 XOR d0) 3;
      b3 = ROL64 (a21 XOR d1) 45;
      b4 = ROL64 (a02 XOR d2) 61;
      b0 = ROL64 (a33 XOR d3) 28;
      b1 = ROL64 (a14 XOR d4) 20;
      a40 = b0 XOR (NOT b1 AND b2);
      a21 = b1 XOR (NOT b2 AND b3);
      a02 = b2 XOR (NOT b3 AND b4);
      a33 = b3 XOR (NOT b4 AND b0);
      a14 = b4 XOR (NOT b0 AND b1);
      b4 = ROL64 (a30 XOR d0) 18;
      b0 = ROL64 (a11 XOR d1) 1;
      b1 = ROL64 (a42 XOR d2) 6;
      b2 = ROL64 (a23 XOR d3) 25;
      b3 = ROL64 (a04 XOR d4) 8;
      a30 = b0 XOR (NOT b1 AND b2);
      a11 = b1 XOR (NOT b2 AND b3);
      a42 = b2 XOR (NOT b3 AND b4);
      a23 = b3 XOR (NOT b4 AND b0);
      a04 = b4 XOR (NOT b0 AND b1);
      b1 = ROL64 (a20 XOR d0) 36;
      b2 = ROL64 (a01 XOR d1) 10;
      b3 = ROL64 (a32 XOR d2) 15;
      b4 = ROL64 (a13 XOR d3) 56;
      b0 = ROL64 (a44 XOR d4) 27;
      a20 = b0 XOR (NOT b1 AND b2);
      a01 = b1 XOR (NOT b2 AND b3);
      a32 = b2 XOR (NOT b3 AND b4);
      a13 = b3 XOR (NOT b4 AND b0);
      a44 = b4 XOR (NOT b0 AND b1);
      b3 = ROL64 (a10 XOR d0) 41;
      b4 = ROL64 (a41 XOR d1) 2;
      b0 = ROL64 (a22 XOR d2) 62;
      b1 = ROL64 (a03 XOR d3) 55;
      b2 = ROL64 (a34 XOR d4) 39;
      a10 = b0 XOR (NOT b1 AND b2);
      a41 = b1 XOR (NOT b2 AND b3);
      a22 = b2 XOR (NOT b3 AND b4);
      a03 = b3 XOR (NOT b4 AND b0);
      a34 = b4 XOR (NOT b0 AND b1)
      in Lanes a00 a01 a02 a03 a04 a10 a11 a12 a13 a14 a20 a21 a22
        a23 a24 a30 a31 a32 a33 a34 a40 a41 a42 a43 a44)"

definition keccak_round2 :: "u64 \<Rightarrow> lanes \<Rightarrow> lanes" where
  "keccak_round2 rc s =
     (case s of Lanes a00 a01 a02 a03 a04 a10 a11 a12 a13 a14 a20 a21 a22
        a23 a24 a30 a31 a32 a33 a34 a40 a41 a42 a43 a44 \<Rightarrow>
      let
      c0 = a00 XOR a40 XOR a30 XOR a20 XOR a10;
      c1 = a31 XOR a21 XOR a11 XOR a01 XOR a41;
      c2 = a12 XOR a02 XOR a42 XOR a32 XOR a22;
      c3 = a43 XOR a33 XOR a23 XOR a13 XOR a03;
      c4 = a24 XOR a14 XOR a04 XOR a44 XOR a34;
      d0 = c4 XOR ROL64 c1 1;
      d1 = c0 XOR ROL64 c2 1;
      d2 = c1 XOR ROL64 c3 1;
      d3 = c2 XOR ROL64 c4 1;
      d4 = c3 XOR ROL64 c0 1;
      b0 = (a00 XOR d0);
      b1 = ROL64 (a21 XOR d1) 44;
      b2 = ROL64 (a42 XOR d2) 43;
      b3 = ROL64 (a13 XOR d3) 21;
      b4 = ROL64 (a34 XOR d4) 14;
      a00 = b0 XOR (NOT b1 AND b2);
      a00 = a00 XOR rc;
      a21 = b1 XOR (NOT b2 AND b3);
      a42 = b2 XOR (NOT b3 AND b4);
      a13 = b3 XOR (NOT b4 AND b0);
      a34 = b4 XOR (NOT b0 AND b1);
      b2 = ROL64 (a30 XOR d0) 3;
      b3 = ROL64 (a01 XOR d1) 45;
      b4 = ROL64 (a22 XOR d2) 61;
      b0 = ROL64 (a43 XOR d3) 28;
      b1 = ROL64 (a14 XOR d4) 20;
      a30 = b0 XOR (NOT b1 AND b2);
      a01 = b1 XOR (NOT b2 AND b3);
      a22 = b2 XOR (NOT b3 AND b4);
      a43 = b3 XOR (NOT b4 AND b0);
      a14 = b4 XOR (NOT b0 AND b1);
      b4 = ROL64 (a10 XOR d0) 18;
      b0 = ROL64 (a31 XOR d1) 1;
      b1 = ROL64 (a02 XOR d2) 6;
      b2 = ROL64 (a23 XOR d3) 25;
      b3 = ROL64 (a44 XOR d4) 8;
      a10 = b0 XOR (NOT b1 AND b2);
      a31 = b1 XOR (NOT b2 AND b3);
      a02 = b2 XOR (NOT b3 AND b4);
      a23 = b3 XOR (NOT b4 AND b0);
      a44 = b4 XOR (NOT b0 AND b1);
      b1 = ROL64 (a40 XOR d0) 36;
      b2 = ROL64 (a11 XOR d1) 10;
      b3 = ROL64 (a32 XOR d2) 15;
      b4 = ROL64 (a03 XOR d3) 56;
      b0 = ROL64 (a24 XOR d4) 27;
      a40 = b0 XOR (NOT b1 AND b2);
      a11 = b1 XOR (NOT b2 AND b3);
      a32 = b2 XOR (NOT b3 AND b4);
      a03 = b3 XOR (NOT b4 AND b0);
      a24 = b4 XOR (NOT b0 AND b1);
      b3 = ROL64 (a20 XOR d0) 41;
      b4 = ROL64 (a41 XOR d1) 2;
      b0 = ROL64 (a12 XOR d2) 62;
      b1 = ROL64 (a33 XOR d3) 55;
      b2 = ROL64 (a04 XOR d4) 39;
      a20 = b0 XOR (NOT b1 AND b2);
      a41 = b1 XOR (NOT b2 AND b3);
      a12 = b2 XOR (NOT b3 AND b4);
      a33 = b3 XOR (NOT b4 AND b0);
      a04 = b4 XOR (NOT b0 AND b1)
      in Lanes a00 a01 a02 a03 a04 a10 a11 a12 a13 a14 a20 a21 a22
        a23 a24 a30 a31 a32 a33 a34 a40 a41 a42 a43 a44)"

definition keccak_round3 :: "u64 \<Rightarrow> lanes \<Rightarrow> lanes" where
  "keccak_round3 rc s =
     (case s of Lanes a00 a01 a02 a03 a04 a10 a11 a12 a13 a14 a20 a21 a22
        a23 a24 a30 a31 a32 a33 a34 a40 a41 a42 a43 a44 \<Rightarrow>
      let
      c0 = a00 XOR a30 XOR a10 XOR a40 XOR a20;
      c1 = a21 XOR a01 XOR a31 XOR a11 XOR a41;
      c2 = a42 XOR a22 XOR a02 XOR a32 XOR a12;
      c3 = a13 XOR a43 XOR a23 XOR a03 XOR a33;
      c4 = a34 XOR a14 XOR a44 XOR a24 XOR a04;
      d0 = c4 XOR ROL64 c1 1;
      d1 = c0 XOR ROL64 c2 1;
      d2 = c1 XOR ROL64 c3 1;
      d3 = c2 XOR ROL64 c4 1;
      d4 = c3 XOR ROL64 c0 1;
      b0 = (a00 XOR d0);
      b1 = ROL64 (a01 XOR d1) 44;
      b2 = ROL64 (a02 XOR d2) 43;
      b3 = ROL64 (a03 XOR d3) 21;
      b4 = ROL64 (a04 XOR d4) 14;
      a00 = b0 XOR (NOT b1 AND b2);
      a00 = a00 XOR rc;
      a01 = b1 XOR (NOT b2 AND b3);
      a02 = b2 XOR (NOT b3 AND b4);
      a03 = b3 XOR (NOT b4 AND b0);
      a04 = b4 XOR (NOT b0 AND b1);
      b2 = ROL64 (a10 XOR d0) 3;
      b3 = ROL64 (a11 XOR d1) 45;
      b4 = ROL64 (a12 XOR d2) 61;
      b0 = ROL64 (a13 XOR d3) 28;
      b1 = ROL64 (a14 XOR d4) 20;
      a10 = b0 XOR (NOT b1 AND b2);
      a11 = b1 XOR (NOT b2 AND b3);
      a12 = b2 XOR (NOT b3 AND b4);
      a13 = b3 XOR (NOT b4 AND b0);
      a14 = b4 XOR (NOT b0 AND b1);
      b4 = ROL64 (a20 XOR d0) 18;
      b0 = ROL64 (a21 XOR d1) 1;
      b1 = ROL64 (a22 XOR d2) 6;
      b2 = ROL64 (a23 XOR d3) 25;
      b3 = ROL64 (a24 XOR d4) 8;
      a20 = b0 XOR (NOT b1 AND b2);
      a21 = b1 XOR (NOT b2 AND b3);
      a22 = b2 XOR (NOT b3 AND b4);
      a23 = b3 XOR (NOT b4 AND b0);
      a24 = b4 XOR (NOT b0 AND b1);
      b1 = ROL64 (a30 XOR d0) 36;
      b2 = ROL64 (a31 XOR d1) 10;
      b3 = ROL64 (a32 XOR d2) 15;
      b4 = ROL64 (a33 XOR d3) 56;
      b0 = ROL64 (a34 XOR d4) 27;
      a30 = b0 XOR (NOT b1 AND b2);
      a31 = b1 XOR (NOT b2 AND b3);
      a32 = b2 XOR (NOT b3 AND b4);
      a33 = b3 XOR (NOT b4 AND b0);
      a34 = b4 XOR (NOT b0 AND b1);
      b3 = ROL64 (a40 XOR d0) 41;
      b4 = ROL64 (a41 XOR d1) 2;
      b0 = ROL64 (a42 XOR d2) 62;
      b1 = ROL64 (a43 XOR d3) 55;
      b2 = ROL64 (a44 XOR d4) 39;
      a40 = b0 XOR (NOT b1 AND b2);
      a41 = b1 XOR (NOT b2 AND b3);
      a42 = b2 XOR (NOT b3 AND b4);
      a43 = b3 XOR (NOT b4 AND b0);
      a44 = b4 XOR (NOT b0 AND b1)
      in Lanes a00 a01 a02 a03 a04 a10 a11 a12 a13 a14 a20 a21 a22
        a23 a24 a30 a31 a32 a33 a34 a40 a41 a42 a43 a44)"

fun KeccakF1600_loop :: "nat \<Rightarrow> nat \<Rightarrow> lanes \<Rightarrow> lanes" where
  "KeccakF1600_loop i 0 s = s"
| "KeccakF1600_loop i (Suc n) s =
     KeccakF1600_loop (i + 4) n
       (keccak_round3 (RC ! (i + 3)) (keccak_round2 (RC ! (i + 2))
          (keccak_round1 (RC ! (i + 1)) (keccak_round0 (RC ! i) s))))"

definition KeccakF1600 :: "lanes \<Rightarrow> lanes" where
  "KeccakF1600 s = KeccakF1600_loop 0 6 s"

section \<open>The reference round\<close>

type_synonym matrix = "nat \<Rightarrow> nat \<Rightarrow> u64"

definition theta :: "matrix \<Rightarrow> matrix" where
  "theta A x y =
     (let C = (\<lambda>x. A x 0 XOR A x 1 XOR A x 2 XOR A x 3 XOR A x 4) in
      A x y XOR (C ((x + 4) mod 5) XOR word_rotl 1 (C ((x + 1) mod 5))))"

text \<open>The rotation offsets, by column and row.\<close>

definition rho_offset :: "nat \<Rightarrow> nat \<Rightarrow> nat" where
  "rho_offset x y =
     [[0, 36, 3, 41, 18], [1, 44, 10, 45, 2], [62, 6, 43, 15, 61], [28, 55, 25, 21, 56], [27, 20, 39, 8, 14]] ! x ! y"

definition rho :: "matrix \<Rightarrow> matrix" where
  "rho A x y = word_rotl (rho_offset x y) (A x y)"

definition pi_step :: "matrix \<Rightarrow> matrix" where
  "pi_step A x y = A ((x + 3 * y) mod 5) x"

definition chi :: "matrix \<Rightarrow> matrix" where
  "chi A x y = A x y XOR (NOT (A ((x + 1) mod 5) y) AND A ((x + 2) mod 5) y)"

definition iota :: "u64 \<Rightarrow> matrix \<Rightarrow> matrix" where
  "iota rc A x y = (if x = 0 \<and> y = 0 then A x y XOR rc else A x y)"

definition keccak_round :: "u64 \<Rightarrow> matrix \<Rightarrow> matrix" where
  "keccak_round rc A = iota rc (chi (pi_step (rho (theta A))))"

section \<open>Where the lanes are\<close>

fun lanes_list :: "lanes \<Rightarrow> u64 list" where
  "lanes_list (Lanes a00 a01 a02 a03 a04 a10 a11 a12 a13 a14 a20 a21 a22
        a23 a24 a30 a31 a32 a33 a34 a40 a41 a42 a43 a44) =
   [a00, a01, a02, a03, a04, a10, a11, a12, a13, a14, a20, a21, a22,
        a23, a24, a30, a31, a32, a33, a34, a40, a41, a42, a43, a44]"

text \<open>The matrix before round \<open>k\<close> of four: lane \<open>(x, y)\<close> is in row \<open>2^k * y + (2^k - 1) * x\<close>.\<close>

definition lane_view :: "nat \<Rightarrow> lanes \<Rightarrow> matrix" where
  "lane_view k s x y = lanes_list s ! (5 * ((2 ^ k * y + (2 ^ k - 1) * x) mod 5) + x)"

lemma rotl_ROL64:
  assumes "0 < n" and "n < 64"
  shows "word_rotl n a = ROL64 a n"
proof (rule bit_word_eqI)
  fix i assume i: "i < LENGTH(64)"
  have "(i + (64 - n mod 64)) mod 64 = (if n \<le> i then i - n else 64 - n + i)"
    using i assms by (auto simp: mod_if)
  then show "bit (word_rotl n a) i = bit (ROL64 a n) i"
    using i assms by (auto simp: bit_word_rotl_iff ROL64_def bit_simps dest: bit_imp_le_length)
qed

lemma less_5_cases: "x < 5 \<longleftrightarrow> x = 0 \<or> x = 1 \<or> x = 2 \<or> x = 3 \<or> x = (4 :: nat)"
  by auto

lemmas round0_lanes = keccak_round0_def
  [of rc "Lanes a00 a01 a02 a03 a04 a10 a11 a12 a13 a14 a20 a21 a22
        a23 a24 a30 a31 a32 a33 a34 a40 a41 a42 a43 a44", unfolded lanes.case Let_def]
  for rc a00 a01 a02 a03 a04 a10 a11 a12 a13 a14 a20 a21 a22
        a23 a24 a30 a31 a32 a33 a34 a40 a41 a42 a43 a44

lemmas round1_lanes = keccak_round1_def
  [of rc "Lanes a00 a01 a02 a03 a04 a10 a11 a12 a13 a14 a20 a21 a22
        a23 a24 a30 a31 a32 a33 a34 a40 a41 a42 a43 a44", unfolded lanes.case Let_def]
  for rc a00 a01 a02 a03 a04 a10 a11 a12 a13 a14 a20 a21 a22
        a23 a24 a30 a31 a32 a33 a34 a40 a41 a42 a43 a44

lemmas round2_lanes = keccak_round2_def
  [of rc "Lanes a00 a01 a02 a03 a04 a10 a11 a12 a13 a14 a20 a21 a22
        a23 a24 a30 a31 a32 a33 a34 a40 a41 a42 a43 a44", unfolded lanes.case Let_def]
  for rc a00 a01 a02 a03 a04 a10 a11 a12 a13 a14 a20 a21 a22
        a23 a24 a30 a31 a32 a33 a34 a40 a41 a42 a43 a44

lemmas round3_lanes = keccak_round3_def
  [of rc "Lanes a00 a01 a02 a03 a04 a10 a11 a12 a13 a14 a20 a21 a22
        a23 a24 a30 a31 a32 a33 a34 a40 a41 a42 a43 a44", unfolded lanes.case Let_def]
  for rc a00 a01 a02 a03 a04 a10 a11 a12 a13 a14 a20 a21 a22
        a23 a24 a30 a31 a32 a33 a34 a40 a41 a42 a43 a44

lemma lanes_nth:
  assumes "s = Lanes a00 a01 a02 a03 a04 a10 a11 a12 a13 a14 a20 a21 a22
        a23 a24 a30 a31 a32 a33 a34 a40 a41 a42 a43 a44"
  shows
    "lanes_list s ! 0 = a00"
    "lanes_list s ! Suc 0 = a01"
    "lanes_list s ! 2 = a02" "lanes_list s ! Suc (Suc 0) = a02"
    "lanes_list s ! 3 = a03"
    "lanes_list s ! 4 = a04"
    "lanes_list s ! 5 = a10"
    "lanes_list s ! 6 = a11"
    "lanes_list s ! 7 = a12"
    "lanes_list s ! 8 = a13"
    "lanes_list s ! 9 = a14"
    "lanes_list s ! 10 = a20"
    "lanes_list s ! 11 = a21"
    "lanes_list s ! 12 = a22"
    "lanes_list s ! 13 = a23"
    "lanes_list s ! 14 = a24"
    "lanes_list s ! 15 = a30"
    "lanes_list s ! 16 = a31"
    "lanes_list s ! 17 = a32"
    "lanes_list s ! 18 = a33"
    "lanes_list s ! 19 = a34"
    "lanes_list s ! 20 = a40"
    "lanes_list s ! 21 = a41"
    "lanes_list s ! 22 = a42"
    "lanes_list s ! 23 = a43"
    "lanes_list s ! 24 = a44"
  by (simp_all add: assms)

text \<open>The reference round at a position, in terms of rotated lanes.\<close>

definition theta_rho :: "matrix \<Rightarrow> nat \<Rightarrow> nat \<Rightarrow> u64" where
  "theta_rho A x y = rho (theta A) x y"

lemmas round_at = keccak_round_def iota_def chi_def pi_step_def theta_rho_def [symmetric]

lemma rotl_0: "word_rotl 0 a = (a :: u64)"
  by (rule bit_word_eqI) (simp add: bit_word_rotl_iff)

lemmas theta_rho_at = theta_rho_def rho_def theta_def rho_offset_def Let_def rotl_0 rotl_ROL64

lemma round_ok:
  assumes "x < 5" and "y < 5"
  shows "lane_view 1 (keccak_round0 rc s) x y = keccak_round rc (lane_view 0 s) x y"
    and "lane_view 2 (keccak_round1 rc s) x y = keccak_round rc (lane_view 1 s) x y"
    and "lane_view 3 (keccak_round2 rc s) x y = keccak_round rc (lane_view 2 s) x y"
    and "lane_view 4 (keccak_round3 rc s) x y = keccak_round rc (lane_view 3 s) x y"
  using assms
  by (unfold less_5_cases; elim disjE; simp only: round_at; simp add: theta_rho_at; simp add: lane_view_def;
      cases s; simp only: round0_lanes round1_lanes round2_lanes round3_lanes lanes_nth [OF refl] One_nat_def)+

lemma lane_view_4:
  assumes "x < 5" and "y < 5"
  shows "lane_view 4 s x y = lane_view 0 s x y"
  using assms by (unfold less_5_cases; elim disjE; simp add: lane_view_def)

text \<open>A round reads only the 25 lanes.\<close>

definition same_lanes :: "matrix \<Rightarrow> matrix \<Rightarrow> bool" where
  "same_lanes A B \<longleftrightarrow> (\<forall>x < 5. \<forall>y < 5. A x y = B x y)"

lemma same_lanes_round: "same_lanes A B \<Longrightarrow> same_lanes (keccak_round rc A) (keccak_round rc B)"
  by (auto simp: same_lanes_def keccak_round_def iota_def chi_def pi_step_def rho_def theta_def Let_def)

lemma same_lanes_trans: "same_lanes A B \<Longrightarrow> same_lanes B C \<Longrightarrow> same_lanes A C"
  by (simp add: same_lanes_def)

definition keccak_rounds :: "u64 list \<Rightarrow> matrix \<Rightarrow> matrix" where
  "keccak_rounds rcs A = foldl (\<lambda>A rc. keccak_round rc A) A rcs"

lemma four_rounds:
  "same_lanes (lane_view 0 (keccak_round3 r3 (keccak_round2 r2 (keccak_round1 r1 (keccak_round0 r0 s)))))
     (keccak_rounds [r0, r1, r2, r3] (lane_view 0 s))"
proof -
  let ?s1 = "keccak_round0 r0 s"
  let ?s2 = "keccak_round1 r1 ?s1"
  let ?s3 = "keccak_round2 r2 ?s2"
  have 1: "same_lanes (lane_view 1 ?s1) (keccak_round r0 (lane_view 0 s))"
    by (simp add: same_lanes_def round_ok(1) del: One_nat_def)
  have 2: "same_lanes (lane_view 2 ?s2) (keccak_round r1 (keccak_round r0 (lane_view 0 s)))"
    using same_lanes_round [OF 1] by (simp add: same_lanes_def round_ok(2) del: One_nat_def)
  have 3: "same_lanes (lane_view 3 ?s3) (keccak_round r2 (keccak_round r1 (keccak_round r0 (lane_view 0 s))))"
    using same_lanes_round [OF 2] by (simp add: same_lanes_def round_ok(3))
  show ?thesis
    using same_lanes_round [OF 3] by (simp add: same_lanes_def keccak_rounds_def round_ok(4) flip: lane_view_4)
qed

lemma same_lanes_rounds: "same_lanes A B \<Longrightarrow> same_lanes (keccak_rounds rcs A) (keccak_rounds rcs B)"
  by (induction rcs arbitrary: A B) (auto simp: keccak_rounds_def same_lanes_round)

lemma loop_rounds:
  assumes "i + 4 * n = length RC"
  shows "same_lanes (lane_view 0 (KeccakF1600_loop i n s)) (keccak_rounds (drop i RC) (lane_view 0 s))"
  using assms
proof (induction n arbitrary: i s)
  case 0
  then show ?case by (simp add: keccak_rounds_def same_lanes_def)
next
  case (Suc n)
  let ?s = "keccak_round3 (RC ! (i + 3)) (keccak_round2 (RC ! (i + 2))
          (keccak_round1 (RC ! (i + 1)) (keccak_round0 (RC ! i) s)))"
  have d: "drop i RC = RC ! i # RC ! (i + 1) # RC ! (i + 2) # RC ! (i + 3) # drop (i + 4) RC"
    using Suc.prems by (simp add: Cons_nth_drop_Suc [symmetric] numeral_eq_Suc)
  have "same_lanes (lane_view 0 (KeccakF1600_loop (i + 4) n ?s)) (keccak_rounds (drop (i + 4) RC) (lane_view 0 ?s))"
    using Suc by auto
  moreover have "keccak_rounds (drop i RC) A =
      keccak_rounds (drop (i + 4) RC) (keccak_rounds [RC ! i, RC ! (i + 1), RC ! (i + 2), RC ! (i + 3)] A)" for A
    by (simp add: d keccak_rounds_def)
  ultimately show ?case
    using same_lanes_trans same_lanes_rounds [OF four_rounds] by simp
qed

section \<open>The round constants\<close>

text \<open>FIPS 202 defines them by a shift register of eight bits.\<close>

fun lfsr_step :: "byte \<Rightarrow> nat \<Rightarrow> u64 \<Rightarrow> byte \<times> u64" where
  "lfsr_step r j rc =
     (if r AND 0x80 = 0 then push_bit 1 r else push_bit 1 r XOR 0x71,
      if r AND 1 = 0 then rc else rc XOR push_bit (2 ^ j - 1) 1)"

definition lfsr_constant :: "byte \<Rightarrow> byte \<times> u64" where
  "lfsr_constant r = foldl (\<lambda>(r, rc) j. lfsr_step r j rc) (r, 0) [0..<7]"

fun lfsr_constants :: "nat \<Rightarrow> byte \<Rightarrow> u64 list" where
  "lfsr_constants 0 r = []"
| "lfsr_constants (Suc n) r = (case lfsr_constant r of (r', rc) \<Rightarrow> rc # lfsr_constants n r')"

lemma RC_constants: "RC = lfsr_constants 24 1"
  by code_simp

lemma KeccakF1600_lane:
  assumes "x < 5" and "y < 5"
  shows "lanes_list (KeccakF1600 s) ! (5 * y + x) =
     keccak_rounds (lfsr_constants 24 1) (\<lambda>x y. lanes_list s ! (5 * y + x)) x y"
proof -
  have v: "same_lanes (lane_view 0 s) (\<lambda>x y. lanes_list s ! (5 * y + x))" for s
    by (simp add: same_lanes_def lane_view_def)
  have "same_lanes (lane_view 0 (KeccakF1600 s)) (keccak_rounds RC (lane_view 0 s))"
    using loop_rounds [of 0 6 s] by (simp add: KeccakF1600_def RC_def)
  with same_lanes_rounds [OF v, of RC s] v [of "KeccakF1600 s"] show ?thesis
    using assms by (simp add: same_lanes_def RC_constants)
qed

section \<open>Properties\<close>

text \<open>\<open>KeccakF1600Step\<close> is the Keccak permutation of FIPS 202: on every lane the unrolled, in-place code
  computes the 24 reference rounds (theta, rho, pi, chi, iota), with the round constants of the standard's
  shift register.\<close>

theorem KeccakF1600_ok:
  assumes "x < 5" and "y < 5"
  shows "lanes_list (KeccakF1600 s) ! (5 * y + x) =
     keccak_rounds (lfsr_constants 24 1) (\<lambda>x y. lanes_list s ! (5 * y + x)) x y"
  using assms by (rule KeccakF1600_lane)

theorem KeccakF1600_ok_witness:
  "lanes_list (KeccakF1600 (Lanes 1 2 3 4 5 6 7 8 9 10 11 12 13 14 15 16 17 18 19 20 21 22 23 24 25)) ! (5 * 4 + 2) =
     keccak_rounds (lfsr_constants 24 1)
       (\<lambda>x y. lanes_list (Lanes 1 2 3 4 5 6 7 8 9 10 11 12 13 14 15 16 17 18 19 20 21 22 23 24 25) ! (5 * y + x)) 2 4"
  by (rule KeccakF1600_ok) simp_all

end
