(* ===== verification/Sha3.thy ===== *)
theory Sha3
  imports Keccak
begin

text \<open>
  The SHA3 hash of the shell (\<open>shell.c\<close>, section \<open>ext/misc/shathree.c\<close>) above the mixing function:
  \<open>SHA3Init\<close>, \<open>SHA3Update\<close> (with its path for eight bytes at a time), \<open>SHA3Final\<close> and the SQL functions
  \<open>sha3\<close> and \<open>sha3_query\<close>, in the little-endian build (\<open>SHA3_BYTEORDER==1234\<close>).

  The reference is the sponge of FIPS 202: the message with its domain bits and padding, absorbed block by
  block with the reference permutation.  Whether a buffer starts at a multiple of eight, on which the choice
  of path depends, is a parameter, and so is the engine that prepares the statements of \<open>sha3_query\<close>.
\<close>

section \<open>The hash in progress\<close>

record SHA3Context =
  us :: "u64 list"
  nRate :: nat
  nLoaded :: nat

definition lanes_of :: "u64 list \<Rightarrow> lanes" where
  "lanes_of a = Lanes (a!0) (a!1) (a!2) (a!3) (a!4) (a!5) (a!6) (a!7) (a!8) (a!9) (a!10) (a!11) (a!12)
     (a!13) (a!14) (a!15) (a!16) (a!17) (a!18) (a!19) (a!20) (a!21) (a!22) (a!23) (a!24)"

definition KeccakF1600Step :: "SHA3Context \<Rightarrow> SHA3Context" where
  "KeccakF1600Step p = p\<lparr>us := lanes_list (KeccakF1600 (lanes_of (us p)))\<rparr>"

definition SHA3Init :: "int \<Rightarrow> SHA3Context" where
  "SHA3Init iSize =
     \<lparr>us = replicate 25 0,
      nRate = nat (if iSize \<ge> 128 \<and> iSize \<le> 512 then (1600 - ((iSize + 31) AND NOT 31) * 2) div 8
                   else (1600 - 2 * 256) div 8),
      nLoaded = 0\<rparr>"

text \<open>\<open>p->u.x[n] ^= b\<close>: byte \<open>n\<close> of the state is a byte of lane \<open>n/8\<close>.\<close>

definition xor_byte :: "u64 list \<Rightarrow> nat \<Rightarrow> byte \<Rightarrow> u64 list" where
  "xor_byte s n b = s[n div 8 := s ! (n div 8) XOR push_bit (8 * (n mod 8)) (ucast b)]"

definition sha3_byte :: "SHA3Context \<Rightarrow> byte \<Rightarrow> SHA3Context" where
  "sha3_byte p b =
     (let p1 = p\<lparr>us := xor_byte (us p) (nLoaded p) b, nLoaded := nLoaded p + 1\<rparr> in
      if nLoaded p1 = nRate p1 then (KeccakF1600Step p1)\<lparr>nLoaded := 0\<rparr> else p1)"

text \<open>\<open>*(u64* )&aData[i]\<close>.\<close>

fun le64 :: "byte list \<Rightarrow> u64" where
  "le64 [] = 0"
| "le64 (b # bs) = ucast b OR push_bit 8 (le64 bs)"

definition sha3_word :: "SHA3Context \<Rightarrow> u64 \<Rightarrow> SHA3Context" where
  "sha3_word p w =
     (let p1 = p\<lparr>us := (us p)[nLoaded p div 8 := us p ! (nLoaded p div 8) XOR w], nLoaded := nLoaded p + 8\<rparr> in
      if nLoaded p1 \<ge> nRate p1 then (KeccakF1600Step p1)\<lparr>nLoaded := 0\<rparr> else p1)"

fun sha3_words :: "SHA3Context \<Rightarrow> byte list \<Rightarrow> SHA3Context \<times> byte list" where
  "sha3_words p (b0 # b1 # b2 # b3 # b4 # b5 # b6 # b7 # rest) =
     sha3_words (sha3_word p (le64 [b0, b1, b2, b3, b4, b5, b6, b7])) rest"
| "sha3_words p rest = (p, rest)"

definition SHA3Update :: "bool \<Rightarrow> SHA3Context \<Rightarrow> byte list option \<Rightarrow> SHA3Context" where
  "SHA3Update aligned p aData =
     (case aData of
        None \<Rightarrow> p
      | Some bs \<Rightarrow>
          let (p1, rest) = (if nLoaded p mod 8 = 0 \<and> aligned then sha3_words p bs else (p, bs)) in
          foldl sha3_byte p1 rest)"

definition state_byte :: "u64 list \<Rightarrow> nat \<Rightarrow> byte" where
  "state_byte s i = ucast (drop_bit (8 * (i mod 8)) (s ! (i div 8)))"

text \<open>The bytes at the pointer \<open>SHA3Final\<close> returns.  \<open>al\<close> says whether its one-byte buffers are aligned.\<close>

definition SHA3Final :: "bool \<Rightarrow> SHA3Context \<Rightarrow> byte list" where
  "SHA3Final al p =
     (let p1 = (if nLoaded p = nRate p - 1 then SHA3Update al p (Some [0x86])
                else
                  let p2 = SHA3Update al p (Some [0x06]) in
                  SHA3Update al (p2\<lparr>nLoaded := nRate p2 - 1\<rparr>) (Some [0x80])) in
      map (state_byte (us p1)) [0..<nRate p1])"

section \<open>The SQL functions\<close>

definition sha3_size_ok :: "int \<Rightarrow> bool" where
  "sha3_size_ok iSize \<longleftrightarrow> iSize = 224 \<or> iSize = 256 \<or> iSize = 384 \<or> iSize = 512"

definition sha3_size_error :: string where
  "sha3_size_error = ''SHA3 size should be one of: 224 256 384 512''"

definition sha3Func ::
  "(sqlite3_value \<Rightarrow> byte list) \<Rightarrow> bool \<Rightarrow> int option \<Rightarrow> sqlite3_value \<Rightarrow> sqlite3_result" where
  "sha3Func value_text al bits v =
     (let iSize = (case bits of None \<Rightarrow> 256 | Some n \<Rightarrow> n) in
      if bits \<noteq> None \<and> \<not> sha3_size_ok iSize then R_Error sha3_size_error
      else
        case v of
          V_Null \<Rightarrow> R_Null
        | V_Blob x \<Rightarrow> R_Blob (take (nat (iSize div 8))
            (SHA3Final al (SHA3Update al (SHA3Init iSize) (if x = [] then None else Some x))))
        | _ \<Rightarrow> R_Blob (take (nat (iSize div 8)) (SHA3Final al (SHA3Update al (SHA3Init iSize) (Some (value_text v))))))"

record prepared =
  st_readonly :: bool
  st_sql :: "byte list option"
  st_rows :: "sqlite3_value list list"

text \<open>The \<open>i\<close>-th call of \<open>SHA3Update\<close> in a run of \<open>sha3_query\<close>: \<open>al i\<close> is the alignment of its buffer.\<close>

definition feed :: "(nat \<Rightarrow> bool) \<Rightarrow> SHA3Context \<times> nat \<Rightarrow> byte list \<Rightarrow> SHA3Context \<times> nat" where
  "feed al cx bs = (SHA3Update (al (snd cx)) (fst cx) (Some bs), snd cx + 1)"

definition sha3_step_vformat :: "(nat \<Rightarrow> bool) \<Rightarrow> SHA3Context \<times> nat \<Rightarrow> char \<Rightarrow> int \<Rightarrow> SHA3Context \<times> nat" where
  "sha3_step_vformat al cx c n = feed al cx (bytes_of (c # show_int n @ '':''))"

text \<open>Eight bytes of an integer or a double, the most significant first.\<close>

fun be_bytes :: "nat \<Rightarrow> u64 \<Rightarrow> byte list" where
  "be_bytes 0 u = []"
| "be_bytes (Suc j) u = be_bytes j (drop_bit 8 u) @ [ucast (u AND 0xff)]"

definition sha3_column :: "(nat \<Rightarrow> bool) \<Rightarrow> SHA3Context \<times> nat \<Rightarrow> sqlite3_value \<Rightarrow> SHA3Context \<times> nat" where
  "sha3_column al cx v =
     (case v of
        V_Null \<Rightarrow> feed al cx (bytes_of ''N'')
      | V_Int i \<Rightarrow> feed al cx (bytes_of ''I'' @ be_bytes 8 (word_of_int i))
      | V_Float r \<Rightarrow> feed al cx (bytes_of ''F'' @ be_bytes 8 r)
      | V_Text z \<Rightarrow> feed al (sha3_step_vformat al cx CHR ''T'' (int (length z))) z
      | V_Blob z \<Rightarrow> feed al (sha3_step_vformat al cx CHR ''B'' (int (length z))) z)"

definition sha3_row :: "(nat \<Rightarrow> bool) \<Rightarrow> SHA3Context \<times> nat \<Rightarrow> sqlite3_value list \<Rightarrow> SHA3Context \<times> nat" where
  "sha3_row al cx row = foldl (sha3_column al) (feed al cx (bytes_of ''R'')) row"

definition sha3_stmt :: "(nat \<Rightarrow> bool) \<Rightarrow> SHA3Context \<times> nat \<Rightarrow> prepared \<Rightarrow> SHA3Context \<times> nat" where
  "sha3_stmt al cx st =
     (let cx1 = (case st_sql st of
                   None \<Rightarrow> cx
                 | Some z \<Rightarrow> feed al (sha3_step_vformat al cx CHR ''S'' (int (length z))) z) in
      foldl (sha3_row al) cx1 (st_rows st))"

definition text_of :: "byte list \<Rightarrow> string" where
  "text_of z = map (\<lambda>b. char_of (unat b)) z"

text \<open>The loop over the statements.  \<open>prepare\<close> gives the rest of the text together with the message of the
  error or the statement.\<close>

partial_function (option) sha3_query_loop ::
  "(byte list \<Rightarrow> (byte list \<times> string) + prepared \<times> byte list) \<Rightarrow> (nat \<Rightarrow> bool) \<Rightarrow> byte list \<Rightarrow> SHA3Context \<times> nat \<Rightarrow>
     (string + SHA3Context \<times> nat) option" where
  "sha3_query_loop prepare al zSql cx =
     (if rd zSql = 0 then Some (Inr cx)
      else
        case prepare zSql of
          Inl (zTail, msg) \<Rightarrow> Some (Inl (''error SQL statement ['' @ text_of zTail @ '']: '' @ msg))
        | Inr (st, zTail) \<Rightarrow>
            if \<not> st_readonly st then Some (Inl (''non-query: ['' @ text_of (case st_sql st of None \<Rightarrow> [] | Some z \<Rightarrow> z) @ '']''))
            else sha3_query_loop prepare al zTail (sha3_stmt al cx st))"

definition sha3QueryFunc ::
  "(byte list \<Rightarrow> (byte list \<times> string) + prepared \<times> byte list) \<Rightarrow> (nat \<Rightarrow> bool) \<Rightarrow> bool \<Rightarrow> int option \<Rightarrow> byte list option \<Rightarrow>
     sqlite3_result option" where
  "sha3QueryFunc prepare al alf bits zSql =
     (let iSize = (case bits of None \<Rightarrow> 256 | Some n \<Rightarrow> n) in
      if bits \<noteq> None \<and> \<not> sha3_size_ok iSize then Some (R_Error sha3_size_error)
      else
        case zSql of
          None \<Rightarrow> Some R_Null
        | Some z \<Rightarrow>
            (case sha3_query_loop prepare al z (SHA3Init iSize, 0) of
               None \<Rightarrow> None
             | Some (Inl msg) \<Rightarrow> Some (R_Error msg)
             | Some (Inr (cx, _)) \<Rightarrow> Some (R_Blob (take (nat (iSize div 8)) (SHA3Final alf cx)))))"

section \<open>The reference sponge\<close>

definition keccak_f :: "u64 list \<Rightarrow> u64 list" where
  "keccak_f s = map (\<lambda>i. keccak_rounds (lfsr_constants 24 1) (\<lambda>x y. s ! (5 * y + x)) (i mod 5) (i div 5)) [0..<25]"

fun xor_bytes :: "u64 list \<Rightarrow> nat \<Rightarrow> byte list \<Rightarrow> u64 list" where
  "xor_bytes s n [] = s"
| "xor_bytes s n (b # bs) = xor_bytes (xor_byte s n b) (Suc n) bs"

fun absorb :: "nat \<Rightarrow> u64 list \<Rightarrow> byte list list \<Rightarrow> u64 list" where
  "absorb rate s [] = s"
| "absorb rate s (blk # blks) = absorb rate (keccak_f (xor_bytes s 0 blk)) blks"

text \<open>The domain bits \<open>01\<close> and the padding \<open>10*1\<close>, in bytes, after \<open>l\<close> bytes of a block.\<close>

definition sha3_pad :: "nat \<Rightarrow> nat \<Rightarrow> byte list" where
  "sha3_pad rate l = (if l = rate - 1 then [0x86] else 0x06 # replicate (rate - 2 - l) 0 @ [0x80])"

function blocks :: "nat \<Rightarrow> byte list \<Rightarrow> byte list list" where
  "blocks rate bs = (if bs = [] \<or> rate = 0 then [] else take rate bs # blocks rate (drop rate bs))"
  by pat_completeness auto

termination blocks
  by (relation "measure (\<lambda>(rate, bs). length bs)") auto

declare blocks.simps [simp del]

definition sha3_reference :: "nat \<Rightarrow> byte list \<Rightarrow> byte list" where
  "sha3_reference bits m =
     (let rate = (1600 - 2 * bits) div 8;
          s = absorb rate (replicate 25 0) (blocks rate (m @ sha3_pad rate (length m mod rate))) in
      take (bits div 8) (map (state_byte s) [0..<rate]))"

section \<open>The permutation on the state\<close>

lemma lanes_of_list: "length a = 25 \<Longrightarrow> lanes_list (lanes_of a) = a"
  by (rule nth_equalityI) (auto simp: lanes_of_def nth_Cons' less_Suc_eq numeral_eq_Suc)

lemma length_lanes_list [simp]: "length (lanes_list s) = 25"
  by (cases s) simp

lemma step_keccak_f:
  assumes "length a = 25"
  shows "lanes_list (KeccakF1600 (lanes_of a)) = keccak_f a"
proof (rule nth_equalityI)
  show "length (lanes_list (KeccakF1600 (lanes_of a))) = length (keccak_f a)" by (simp add: keccak_f_def)
  fix i assume "i < length (lanes_list (KeccakF1600 (lanes_of a)))"
  then have i: "i mod 5 < 5" "i div 5 < 5" "5 * (i div 5) + i mod 5 = i" "i < 25" by auto
  show "lanes_list (KeccakF1600 (lanes_of a)) ! i = keccak_f a ! i"
    using KeccakF1600_lane [OF i(1,2), of "lanes_of a"] i(3,4) by (simp add: keccak_f_def lanes_of_list assms)
qed

text \<open>What a hash in progress keeps: 25 lanes, a rate of whole lanes, and less than a block loaded.\<close>

definition sha3_inv :: "SHA3Context \<Rightarrow> bool" where
  "sha3_inv p \<longleftrightarrow> length (us p) = 25 \<and> 8 dvd nRate p \<and> 8 \<le> nRate p \<and> nRate p \<le> 200 \<and> nLoaded p < nRate p"

lemma length_xor_byte [simp]: "length (xor_byte s n b) = length s"
  by (simp add: xor_byte_def)

lemma length_xor_bytes [simp]: "length (xor_bytes s n bs) = length s"
  by (induction bs arbitrary: s n) simp_all

lemma length_keccak_f [simp]: "length (keccak_f s) = 25"
  by (simp add: keccak_f_def)

lemma sha3_byte_eq:
  assumes "sha3_inv p"
  shows "sha3_byte p b =
     (if nLoaded p + 1 = nRate p then p\<lparr>us := keccak_f (xor_byte (us p) (nLoaded p) b), nLoaded := 0\<rparr>
      else p\<lparr>us := xor_byte (us p) (nLoaded p) b, nLoaded := nLoaded p + 1\<rparr>)"
  using assms by (simp add: sha3_byte_def KeccakF1600Step_def sha3_inv_def step_keccak_f)

lemma sha3_byte_inv: "sha3_inv p \<Longrightarrow> sha3_inv (sha3_byte p b)"
  by (simp add: sha3_byte_eq) (auto simp: sha3_inv_def)

lemma sha3_byte_rate: "sha3_inv p \<Longrightarrow> nRate (sha3_byte p b) = nRate p"
  by (simp add: sha3_byte_eq)

lemma sha3_bytes_inv: "sha3_inv p \<Longrightarrow> sha3_inv (foldl sha3_byte p bs) \<and> nRate (foldl sha3_byte p bs) = nRate p"
  by (induction bs arbitrary: p) (simp_all add: sha3_byte_inv sha3_byte_rate)

text \<open>Bytes that do not fill the block are only xored in.\<close>

lemma sha3_bytes_part:
  "sha3_inv p \<Longrightarrow> nLoaded p + length bs < nRate p \<Longrightarrow>
   foldl sha3_byte p bs = p\<lparr>us := xor_bytes (us p) (nLoaded p) bs, nLoaded := nLoaded p + length bs\<rparr>"
proof (induction bs arbitrary: p)
  case (Cons b bs)
  then have "sha3_byte p b = p\<lparr>us := xor_byte (us p) (nLoaded p) b, nLoaded := nLoaded p + 1\<rparr>"
    by (simp add: sha3_byte_eq)
  moreover have "sha3_inv (sha3_byte p b)" using Cons.prems by (simp add: sha3_byte_inv)
  ultimately show ?case using Cons.IH [of "sha3_byte p b"] Cons.prems by simp
qed simp

lemma xor_bytes_append: "xor_bytes s n (xs @ ys) = xor_bytes (xor_bytes s n xs) (n + length xs) ys"
  by (induction xs arbitrary: s n) simp_all

text \<open>Bytes that fill it exactly end in a permutation.\<close>

lemma sha3_bytes_block:
  assumes "sha3_inv p" and "nLoaded p + length bs = nRate p"
  shows "foldl sha3_byte p bs = p\<lparr>us := keccak_f (xor_bytes (us p) (nLoaded p) bs), nLoaded := 0\<rparr>"
proof -
  have "bs \<noteq> []" using assms by (auto simp: sha3_inv_def)
  then obtain cs b where bs: "bs = cs @ [b]" by (metis rev_exhaust)
  have p: "foldl sha3_byte p cs = p\<lparr>us := xor_bytes (us p) (nLoaded p) cs, nLoaded := nLoaded p + length cs\<rparr>"
    using assms bs by (intro sha3_bytes_part) auto
  have "sha3_inv (foldl sha3_byte p cs)" using sha3_bytes_inv [OF assms(1)] by simp
  from sha3_byte_eq [OF this, of b] show ?thesis
    using assms(2) by (simp add: bs p xor_bytes_append)
qed

section \<open>Eight bytes at a time\<close>

lemma le64_Cons: "le64 (b # bs) = ucast b XOR push_bit 8 (le64 bs)"
  by (rule bit_word_eqI) (auto simp: bit_simps)

lemma xor_bytes_word:
  assumes "n mod 8 = 0" and "n div 8 < length s"
  shows "xor_bytes s n [b0, b1, b2, b3, b4, b5, b6, b7] =
     s[n div 8 := s ! (n div 8) XOR le64 [b0, b1, b2, b3, b4, b5, b6, b7]]"
proof -
  obtain q where n: "n = 8 * q" using assms(1) by auto
  have d: "Suc (q * 8) div 8 = q" "Suc (q * 8) mod 8 = 1" "Suc (Suc (q * 8)) div 8 = q" "Suc (Suc (q * 8)) mod 8 = 2"
    by presburger+
  show ?thesis
    using assms(2)
    by (simp add: n xor_byte_def le64_Cons push_bit_push_bit ac_simps d del: le64.simps)
qed

lemma sha3_word_bytes:
  assumes "sha3_inv p" and "nLoaded p mod 8 = 0" and "length bs = 8"
  shows "sha3_word p (le64 bs) = foldl sha3_byte p bs"
proof -
  have le: "nLoaded p + 8 \<le> nRate p"
    using assms by (auto simp: sha3_inv_def dvd_def mod_eq_0_iff_dvd) 
  obtain b0 b1 b2 b3 b4 b5 b6 b7 where bs: "bs = [b0, b1, b2, b3, b4, b5, b6, b7]"
    using assms(3) by (auto simp: length_Suc_conv numeral_eq_Suc)
  have q: "nLoaded p div 8 < length (us p)" using assms(1) by (auto simp: sha3_inv_def)
  note w = xor_bytes_word [OF assms(2) q, of b0 b1 b2 b3 b4 b5 b6 b7, folded bs]
  show ?thesis
  proof (cases "nLoaded p + 8 = nRate p")
    case True
    then show ?thesis
      using sha3_bytes_block [OF assms(1), of bs] assms(1,3) w [symmetric]
      by (simp add: sha3_word_def KeccakF1600Step_def step_keccak_f sha3_inv_def)
  next
    case False
    then show ?thesis
      using sha3_bytes_part [OF assms(1), of bs] assms(3) w [symmetric] le by (simp add: sha3_word_def)
  qed
qed

lemma sha3_words_bytes:
  "sha3_inv p \<Longrightarrow> nLoaded p mod 8 = 0 \<Longrightarrow> sha3_words p bs = (p1, rest) \<Longrightarrow>
   foldl sha3_byte p bs = foldl sha3_byte p1 rest"
proof (induction p bs arbitrary: p1 rest rule: sha3_words.induct)
  case (1 p b0 b1 b2 b3 b4 b5 b6 b7 bs)
  let ?c = "[b0, b1, b2, b3, b4, b5, b6, b7]"
  let ?p = "sha3_word p (le64 ?c)"
  have e: "?p = foldl sha3_byte p ?c" by (rule sha3_word_bytes) (use 1 in simp_all)
  then have "sha3_inv ?p" using sha3_bytes_inv [OF 1(2), of ?c] by simp
  moreover have "nLoaded ?p mod 8 = 0"
    using 1(3) by (simp add: sha3_word_def Let_def KeccakF1600Step_def del: le64.simps)
  ultimately have "foldl sha3_byte ?p bs = foldl sha3_byte p1 rest"
    using 1 by (simp del: le64.simps)
  then show ?case by (simp only: e) simp
qed simp_all

lemma SHA3Update_bytes:
  assumes "sha3_inv p"
  shows "SHA3Update al p (Some bs) = foldl sha3_byte p bs"
  using sha3_words_bytes [OF assms, of bs]
  by (auto simp: SHA3Update_def split: prod.splits)

section \<open>Padding and blocks\<close>

lemma xor_byte_0: "xor_byte s n 0 = s"
  by (simp add: xor_byte_def)

lemma xor_bytes_zeros: "xor_bytes s n (replicate k 0) = s"
  by (induction k arbitrary: n) (simp_all add: xor_byte_0)

lemma xor_bytes_pad: "xor_bytes s n (b # replicate k 0 @ [c]) = xor_byte (xor_byte s n b) (n + k + 1) c"
  by (simp add: xor_bytes_append xor_bytes_zeros)

lemma pad_length: "l < rate \<Longrightarrow> l + length (sha3_pad rate l) = rate"
proof (cases "l = rate - 1")
  case False
  assume "l < rate"
  with False have "l + (rate - 2 - l) + 2 = rate" by arith
  then show ?thesis using False by (simp add: sha3_pad_def)
qed (simp add: sha3_pad_def)

lemma SHA3Final_eq:
  assumes "sha3_inv p"
  shows "SHA3Final al p =
     map (state_byte (us (foldl sha3_byte p (sha3_pad (nRate p) (nLoaded p))))) [0..<nRate p]"
proof (cases "nLoaded p = nRate p - 1")
  case True
  then show ?thesis
    using SHA3Update_bytes [OF assms] sha3_byte_rate [OF assms]
    by (simp add: SHA3Final_def Let_def sha3_pad_def)
next
  case False
  then have l: "nLoaded p + 1 < nRate p" using assms by (auto simp: sha3_inv_def)
  let ?p1 = "p\<lparr>us := xor_byte (us p) (nLoaded p) 0x06, nLoaded := nLoaded p + 1\<rparr>"
  let ?p2 = "?p1\<lparr>nLoaded := nRate p - 1\<rparr>"
  have p1: "SHA3Update al p (Some [0x06]) = ?p1"
    using SHA3Update_bytes [OF assms] l by (simp add: sha3_byte_eq [OF assms])
  have i2: "sha3_inv ?p2" using assms by (auto simp: sha3_inv_def)
  have f: "foldl sha3_byte p (sha3_pad (nRate p) (nLoaded p)) =
      p\<lparr>us := keccak_f (xor_bytes (us p) (nLoaded p) (sha3_pad (nRate p) (nLoaded p))), nLoaded := 0\<rparr>"
    using assms by (intro sha3_bytes_block) (simp_all add: pad_length sha3_inv_def)
  have e: "nLoaded p + (nRate p - 2 - nLoaded p) + 1 = nRate p - 1" using l by arith
  have pad: "xor_bytes (us p) (nLoaded p) (sha3_pad (nRate p) (nLoaded p)) =
      xor_byte (xor_byte (us p) (nLoaded p) 0x06) (nRate p - 1) 0x80"
    using False xor_bytes_pad [of "us p" "nLoaded p" "0x06" "nRate p - 2 - nLoaded p" "0x80"]
    unfolding e by (simp only: sha3_pad_def if_False)
  have "SHA3Update al ?p2 (Some [0x80]) = p\<lparr>us := keccak_f (xor_byte (us ?p2) (nRate p - 1) 0x80), nLoaded := 0\<rparr>"
    using SHA3Update_bytes [OF i2] sha3_byte_eq [OF i2] assms by (simp add: sha3_inv_def)
  then show ?thesis using False by (simp add: SHA3Final_def Let_def p1 f pad)
qed

lemma absorb_blocks:
  assumes "sha3_inv p" and "nLoaded p = 0" and "length bs mod nRate p = 0"
  shows "us (foldl sha3_byte p bs) = absorb (nRate p) (us p) (blocks (nRate p) bs)"
  using assms
proof (induction "nRate p" bs arbitrary: p rule: blocks.induct)
  case (1 bs p)
  show ?case
  proof (cases "bs = []")
    case True
    then show ?thesis by (simp add: blocks.simps)
  next
    case False
    let ?r = "nRate p"
    have r: "0 < ?r" using 1(2) by (simp add: sha3_inv_def)
    have le: "?r \<le> length bs"
    proof (rule ccontr)
      assume "\<not> ?r \<le> length bs"
      then have "length bs mod ?r = length bs" by simp
      with 1(4) False show False by simp
    qed
    let ?p = "p\<lparr>us := keccak_f (xor_bytes (us p) 0 (take ?r bs)), nLoaded := 0\<rparr>"
    have b: "foldl sha3_byte p (take ?r bs) = ?p"
      using sha3_bytes_block [OF 1(2), of "take ?r bs"] 1(3) le by simp
    have "foldl sha3_byte p (take ?r bs @ drop ?r bs) = foldl sha3_byte ?p (drop ?r bs)"
      by (simp only: foldl_append b)
    then have "foldl sha3_byte p bs = foldl sha3_byte ?p (drop ?r bs)" by simp
    moreover have "sha3_inv ?p" using 1(2) r by (simp add: sha3_inv_def)
    moreover have "length (drop ?r bs) mod ?r = 0" using 1(4) le by (simp add: mod_if [of "length bs"])
    ultimately have "us (foldl sha3_byte p bs) = absorb ?r (us ?p) (blocks ?r (drop ?r bs))"
      using 1(1) [of ?p] False r by simp
    then show ?thesis using False r by (simp add: blocks.simps [of ?r bs])
  qed
qed

lemma SHA3Init_inv: "sha3_size_ok n \<Longrightarrow>
  sha3_inv (SHA3Init n) \<and> nRate (SHA3Init n) = (1600 - 2 * nat n) div 8 \<and> nLoaded (SHA3Init n) = 0 \<and>
  us (SHA3Init n) = replicate 25 0"
  by (auto simp: sha3_size_ok_def SHA3Init_def sha3_inv_def)

text \<open>Loaded bytes are the rest of the message modulo the rate.\<close>

lemma sha3_bytes_loaded:
  "sha3_inv p \<Longrightarrow> nLoaded (foldl sha3_byte p bs) = (nLoaded p + length bs) mod nRate p"
proof (induction bs arbitrary: p)
  case (Cons b bs)
  have "nLoaded (sha3_byte p b) = (nLoaded p + 1) mod nRate p"
    using Cons.prems by (auto simp: sha3_byte_eq sha3_inv_def)
  with Cons.IH [OF sha3_byte_inv [OF Cons.prems]] Cons.prems show ?case
    by (simp add: sha3_byte_rate mod_simps)
qed (simp add: sha3_inv_def)

lemma sha3_hash:
  assumes "sha3_size_ok n"
  shows "take (nat (n div 8)) (SHA3Final al (foldl sha3_byte (SHA3Init n) m)) = sha3_reference (nat n) m"
proof -
  let ?q = "SHA3Init n"
  let ?p = "foldl sha3_byte ?q m"
  let ?r = "nRate ?q"
  note init = SHA3Init_inv [OF assms]
  have p: "sha3_inv ?p" "nRate ?p = ?r" "nLoaded ?p = length m mod ?r"
    using sha3_bytes_inv [of ?q m] sha3_bytes_loaded [of ?q m] init by simp_all
  let ?pad = "sha3_pad ?r (length m mod ?r)"
  have r: "0 < ?r" using init by (simp add: sha3_inv_def)
  have len: "length m mod ?r + length ?pad = ?r" using r by (simp add: pad_length)
  have "(length m + length ?pad) mod ?r = (length m mod ?r + length ?pad) mod ?r" by (simp only: mod_add_left_eq)
  then have "length (m @ ?pad) mod ?r = 0" using len by simp
  then have "us (foldl sha3_byte ?q (m @ ?pad)) = absorb ?r (replicate 25 0) (blocks ?r (m @ ?pad))"
    using absorb_blocks [of ?q "m @ ?pad"] init by simp
  then show ?thesis
    using SHA3Final_eq [OF p(1), of al] init p(2,3) assms
    by (auto simp: sha3_reference_def Let_def sha3_size_ok_def)
qed

section \<open>The stream of a query\<close>

text \<open>The bytes a query's results stand for: segments \<open>S\<close>, \<open>R\<close>, \<open>N\<close>, \<open>I\<close>, \<open>F\<close>, \<open>T\<close> and \<open>B\<close>.\<close>

definition sized :: "char \<Rightarrow> byte list \<Rightarrow> byte list" where
  "sized c z = bytes_of (c # show_int (int (length z)) @ '':'') @ z"

fun column_bytes :: "sqlite3_value \<Rightarrow> byte list" where
  "column_bytes V_Null = bytes_of ''N''"
| "column_bytes (V_Int i) = bytes_of ''I'' @ be_bytes 8 (word_of_int i)"
| "column_bytes (V_Float r) = bytes_of ''F'' @ be_bytes 8 r"
| "column_bytes (V_Text z) = sized CHR ''T'' z"
| "column_bytes (V_Blob z) = sized CHR ''B'' z"

definition stmt_bytes :: "prepared \<Rightarrow> byte list" where
  "stmt_bytes st = (case st_sql st of None \<Rightarrow> [] | Some z \<Rightarrow> sized CHR ''S'' z) @
     concat (map (\<lambda>row. bytes_of ''R'' @ concat (map column_bytes row)) (st_rows st))"

text \<open>Feeding a context in pieces is the same as feeding the bytes one by one, whatever the alignments.\<close>

definition fed :: "SHA3Context \<times> nat \<Rightarrow> byte list \<Rightarrow> SHA3Context \<times> nat \<Rightarrow> bool" where
  "fed cx bs cx' \<longleftrightarrow> sha3_inv (fst cx) \<longrightarrow> fst cx' = foldl sha3_byte (fst cx) bs \<and> sha3_inv (fst cx')"

lemma fed_trans: "fed cx xs cy \<Longrightarrow> fed cy ys cz \<Longrightarrow> fed cx (xs @ ys) cz"
  by (auto simp: fed_def)

lemma fed_Nil: "fed cx [] cx"
  by (simp add: fed_def)

lemma fed_feed: "fed cx bs (feed al cx bs)"
  using sha3_bytes_inv [of "fst cx" bs] by (simp add: fed_def feed_def SHA3Update_bytes)

lemma fed_sized: "fed cx (sized c z) (feed al (sha3_step_vformat al cx c (int (length z))) z)"
  unfolding sized_def sha3_step_vformat_def by (rule fed_trans [OF fed_feed fed_feed])

lemma fed_column: "fed cx (column_bytes v) (sha3_column al cx v)"
  by (cases v) (simp_all add: sha3_column_def fed_feed fed_sized del: be_bytes.simps)

lemma fed_foldl:
  assumes "\<And>cx x. fed cx (f x) (g cx x)"
  shows "fed cx (concat (map f xs)) (foldl g cx xs)"
proof (induction xs arbitrary: cx)
  case (Cons x xs)
  show ?case using fed_trans [OF assms [of cx x] Cons.IH] by simp
qed (simp add: fed_Nil)

lemma fed_row: "fed cx (bytes_of ''R'' @ concat (map column_bytes row)) (sha3_row al cx row)"
  unfolding sha3_row_def by (rule fed_trans [OF fed_feed fed_foldl [OF fed_column]])

lemma fed_stmt: "fed cx (stmt_bytes st) (sha3_stmt al cx st)"
  unfolding sha3_stmt_def stmt_bytes_def Let_def
  by (rule fed_trans [OF _ fed_foldl [OF fed_row]]) (simp add: fed_Nil fed_sized split: option.splits)

text \<open>The statements of a text, when the engine accepts all of them.\<close>

inductive runs ::
  "(byte list \<Rightarrow> (byte list \<times> string) + prepared \<times> byte list) \<Rightarrow> byte list \<Rightarrow> prepared list \<Rightarrow> bool"
  for prepare where
  stop: "rd z = 0 \<Longrightarrow> runs prepare z []"
| more: "rd z \<noteq> 0 \<Longrightarrow> prepare z = Inr (st, zTail) \<Longrightarrow> st_readonly st \<Longrightarrow> runs prepare zTail sts \<Longrightarrow>
    runs prepare z (st # sts)"

lemma query_loop_runs:
  "runs prepare z sts \<Longrightarrow>
   \<exists>cx'. sha3_query_loop prepare al z cx = Some (Inr cx') \<and> fed cx (concat (map stmt_bytes sts)) cx'"
proof (induction arbitrary: cx rule: runs.induct)
  case (stop z)
  then show ?case by (subst sha3_query_loop.simps) (simp add: fed_Nil)
next
  case (more z st zTail sts)
  from more.IH [of "sha3_stmt al cx st"] obtain cx' where
    "sha3_query_loop prepare al zTail (sha3_stmt al cx st) = Some (Inr cx')"
    "fed (sha3_stmt al cx st) (concat (map stmt_bytes sts)) cx'" by blast
  with more(1-3) fed_trans [OF fed_stmt] show ?case
    by (subst sha3_query_loop.simps) auto
qed

section \<open>Properties\<close>



text \<open>\<open>SHA3Update\<close> gives the same hash in progress whether the buffer is aligned or not, and adding two
  buffers one after the other is adding their concatenation.\<close>

theorem SHA3Update_append:
  assumes "sha3_inv p"
  shows "SHA3Update al (SHA3Update al' p (Some xs)) (Some ys) = SHA3Update al'' p (Some (xs @ ys))"
  using SHA3Update_bytes [OF assms] sha3_bytes_inv [OF assms, of xs]
  by (simp add: SHA3Update_bytes)

theorem SHA3Update_append_witness:
  "SHA3Update True (SHA3Update False (SHA3Init 256) (Some [1])) (Some [2]) =
   SHA3Update True (SHA3Init 256) (Some [1, 2])"
  using SHA3Update_append [of "SHA3Init 256" True False "[1]" "[2]" True] SHA3Init_inv [of 256]
  by (simp add: sha3_size_ok_def)


definition demo_prepare :: "byte list \<Rightarrow> (byte list \<times> string) + prepared \<times> byte list" where
  "demo_prepare z = Inr (\<lparr>st_readonly = True, st_sql = Some [hd z], st_rows = [[V_Int 7]]\<rparr>, tl z)"


end
