(* ===== verification/Uint_Collation.thy ===== *)
theory Uint_Collation
  imports Bytes
begin

text \<open>
  The \<open>UINT\<close> collating sequence of the shell (\<open>shell.c\<close>, section \<open>ext/misc/uint.c\<close>), which compares text
  byte by byte except that runs of digits compare as numbers.

  The function walks over two byte strings with indices \<open>i\<close> and \<open>j\<close>; in the model each string is the list of
  the bytes from its index on.  The specification cuts both strings into tokens, numbers and other bytes, and
  compares the lists of tokens lexicographically; from it follow the laws a collation has to satisfy.
\<close>

section \<open>The function\<close>

definition isdigit :: "byte \<Rightarrow> bool" where
  "isdigit c \<longleftrightarrow> 48 \<le> c \<and> c \<le> 57"

text \<open>\<open>memcmp\<close>: the sign of the first difference.\<close>

fun memcmp :: "byte list \<Rightarrow> byte list \<Rightarrow> int" where
  "memcmp (a # as) (b # bs) = (if a = b then memcmp as bs else if a < b then - 1 else 1)"
| "memcmp _ _ = 0"

text \<open>The number \<open>k\<close> of positions at which both strings go on with a digit.\<close>

fun common_digits :: "byte list \<Rightarrow> byte list \<Rightarrow> nat" where
  "common_digits (a # zA) (b # zB) = (if isdigit a \<and> isdigit b then Suc (common_digits zA zB) else 0)"
| "common_digits _ _ = 0"

definition skip_zeros :: "byte list \<Rightarrow> byte list" where
  "skip_zeros z = dropWhile (\<lambda>c. c = 48) z"

definition digit_at :: "byte list \<Rightarrow> nat \<Rightarrow> bool" where
  "digit_at z k \<longleftrightarrow> k < length z \<and> isdigit (z ! k)"

function uintCollFunc :: "byte list \<Rightarrow> byte list \<Rightarrow> int" where
  "uintCollFunc (a # zA) (b # zB) =
     (let x = uint a - uint b in
      if isdigit a then
        if \<not> isdigit b then x
        else
          let A = skip_zeros (a # zA); B = skip_zeros (b # zB); k = common_digits A B in
          if digit_at A k then 1
          else if digit_at B k then - 1
          else
            let x = memcmp (take k A) (take k B) in
            if x \<noteq> 0 then x else uintCollFunc (drop k A) (drop k B)
      else if x \<noteq> 0 then x
      else uintCollFunc zA zB)"
| "uintCollFunc [] zB = 0 - int (length zB)"
| "uintCollFunc (a # zA) [] = int (length (a # zA)) - 0"
  by pat_completeness auto

lemma skip_zeros_length: "length (skip_zeros z) \<le> length z"
  by (simp add: skip_zeros_def length_dropWhile_le)

lemma skip_zeros_zero: "length (skip_zeros (48 # z)) < length (48 # z)"
  using skip_zeros_length [of z] by (simp add: skip_zeros_def)

termination uintCollFunc
proof (relation "measure (\<lambda>(zA, zB). length zA + length zB)")
  fix a b :: byte and zA zB :: "byte list" and x A B k y
  assume d: "isdigit a" "\<not> \<not> isdigit b" and A: "A = skip_zeros (a # zA)" and B: "B = skip_zeros (b # zB)"
    and k: "k = common_digits A B"
  have "length (drop k A) + length (drop k B) < length (a # zA) + length (b # zB)"
  proof (cases "a = 48 \<or> b = 48")
    case True
    then have "length A + length B < length (a # zA) + length (b # zB)"
      using skip_zeros_length [of "a # zA"] skip_zeros_length [of "b # zB"] skip_zeros_zero [of zA]
        skip_zeros_zero [of zB] unfolding A B by auto
    then show ?thesis by auto
  next
    case False
    then have "A = a # zA" "B = b # zB" by (simp_all add: A B skip_zeros_def)
    moreover from this have "0 < k" using d k by simp
    ultimately show ?thesis by auto
  qed
  then show "((drop k A, drop k B), a # zA, b # zB) \<in> measure (\<lambda>(zA, zB). length zA + length zB)" by simp
qed auto

declare uintCollFunc.simps(1) [simp del]

section \<open>The specification\<close>

datatype token = Num nat | Other byte

definition digits_value :: "byte list \<Rightarrow> nat" where
  "digits_value = foldl (\<lambda>n c. 10 * n + (unat c - 48)) 0"

function tokens :: "byte list \<Rightarrow> token list" where
  "tokens z =
     (case z of
        [] \<Rightarrow> []
      | c # cs \<Rightarrow>
          if isdigit c then Num (digits_value (takeWhile isdigit z)) # tokens (dropWhile isdigit z)
          else Other c # tokens cs)"
  by pat_completeness auto

termination tokens
proof (relation "measure length")
  fix z :: "byte list" and c cs
  assume "z = c # cs" and "isdigit c"
  then show "(dropWhile isdigit z, z) \<in> measure length"
    using length_dropWhile_le [of isdigit cs] by simp
qed auto

declare tokens.simps [simp del]

fun cmp_token :: "token \<Rightarrow> token \<Rightarrow> int" where
  "cmp_token (Num m) (Num n) = sgn (int m - int n)"
| "cmp_token (Other a) (Other b) = sgn (uint a - uint b)"
| "cmp_token (Num m) (Other b) = (if b < 48 then 1 else - 1)"
| "cmp_token (Other a) (Num n) = (if a < 48 then - 1 else 1)"

fun cmp_tokens :: "token list \<Rightarrow> token list \<Rightarrow> int" where
  "cmp_tokens [] [] = 0"
| "cmp_tokens [] (u # us) = - 1"
| "cmp_tokens (t # ts) [] = 1"
| "cmp_tokens (t # ts) (u # us) = (if cmp_token t u \<noteq> 0 then cmp_token t u else cmp_tokens ts us)"

section \<open>Runs of digits\<close>

lemma digits_value_acc: "foldl (\<lambda>n c. 10 * n + (unat c - 48)) m cs = m * 10 ^ length cs + digits_value cs"
proof (induction cs arbitrary: m)
  case (Cons c cs)
  show ?case
    using Cons [of "10 * m + (unat c - 48)"] Cons [of "unat c - 48"]
    by (simp add: digits_value_def algebra_simps)
qed (simp add: digits_value_def)

lemma digits_value_simps [simp]:
  "digits_value [] = 0" "digits_value (c # cs) = (unat c - 48) * 10 ^ length cs + digits_value cs"
  using digits_value_acc [of "unat c - 48" cs] by (simp_all add: digits_value_def)

lemma isdigit_value: "isdigit c \<longleftrightarrow> 48 \<le> unat c \<and> unat c \<le> 57"
  by (simp add: isdigit_def word_le_nat_alt)

lemma digits_value_less: "list_all isdigit cs \<Longrightarrow> digits_value cs < 10 ^ length cs"
proof (induction cs)
  case (Cons c cs)
  then have "unat c - 48 \<le> 9" using isdigit_value [of c] by auto
  then have "(unat c - 48) * 10 ^ length cs \<le> 9 * 10 ^ length cs" by (rule mult_le_mono1)
  moreover have "digits_value cs < 10 ^ length cs" using Cons by simp
  ultimately have "(unat c - 48) * 10 ^ length cs + digits_value cs < 10 * 10 ^ length cs" by linarith
  then show ?case by simp
qed simp

lemma digits_value_ge: "isdigit c \<Longrightarrow> c \<noteq> 48 \<Longrightarrow> 10 ^ length cs \<le> digits_value (c # cs)"
proof -
  assume "isdigit c" "c \<noteq> 48"
  then have "1 \<le> unat c - 48" by (auto simp: isdigit_value word_unat_eq_iff)
  then have "1 * 10 ^ length cs \<le> (unat c - 48) * 10 ^ length cs" by (rule mult_le_mono1)
  then show ?thesis by (simp only: digits_value_simps mult_1 trans_le_add1)
qed

lemma memcmp_digits:
  "length as = length bs \<Longrightarrow> list_all isdigit as \<Longrightarrow> list_all isdigit bs \<Longrightarrow>
   sgn (int (digits_value as) - int (digits_value bs)) = memcmp as bs"
proof (induction as bs rule: list_induct2)
  case (Cons a as b bs)
  have lt: "(p :: nat) * m + v < q * m + w" if "p < q" "v < m" for p q v w m
  proof -
    have "p * m + v < Suc p * m" using that(2) by simp
    also have "\<dots> \<le> q * m" using that(1) by (intro mult_le_mono1) simp
    finally show ?thesis by simp
  qed
  have v: "digits_value as < 10 ^ length bs" "digits_value bs < 10 ^ length bs"
    using Cons digits_value_less [of as] digits_value_less [of bs] by simp_all
  have d: "48 \<le> unat a" "48 \<le> unat b" using Cons.prems isdigit_value [of a] isdigit_value [of b] by auto
  consider "a = b" | "a < b" | "b < a" by (rule linorder_cases [of a b]) auto
  then show ?case
  proof cases
    case 1
    then show ?thesis using Cons by simp
  next
    case 2
    then have "unat a - 48 < unat b - 48" using d by (simp add: word_less_nat_alt)
    from lt [OF this v(1), of "digits_value bs"] have "digits_value (a # as) < digits_value (b # bs)"
      using Cons(1) by simp
    moreover have "a \<noteq> b" using 2 by auto
    ultimately show ?thesis using 2 by (simp add: sgn_if del: digits_value_simps)
  next
    case 3
    then have "unat b - 48 < unat a - 48" using d by (simp add: word_less_nat_alt)
    from lt [OF this v(2), of "digits_value as"] have "digits_value (b # bs) < digits_value (a # as)"
      using Cons(1) by simp
    moreover have "a \<noteq> b" "\<not> a < b" using 3 by auto
    ultimately show ?thesis by (simp add: sgn_if del: digits_value_simps)
  qed
qed simp

lemma digits_value_zeros: "digits_value (dropWhile (\<lambda>c. c = 48) cs) = digits_value cs"
  by (induction cs) simp_all

lemma digits_longer:
  assumes "list_all isdigit as" and "list_all isdigit bs" and "length bs < length as" and "hd as \<noteq> 48"
  shows "digits_value bs < digits_value as"
proof -
  obtain a as' where as: "as = a # as'" using assms(3) by (cases as) auto
  have "digits_value bs < 10 ^ length bs" using digits_value_less [OF assms(2)] .
  also have "\<dots> \<le> 10 ^ length as'" using assms(3) as by (intro power_increasing) auto
  also have "\<dots> \<le> digits_value as" using assms digits_value_ge [of a as'] by (simp add: as)
  finally show ?thesis .
qed

text \<open>The parts of a string that starts with a digit.\<close>

definition run :: "byte list \<Rightarrow> byte list" where
  "run z = dropWhile (\<lambda>c. c = 48) (takeWhile isdigit z)"

lemma isdigit_48: "isdigit 48"
  by (simp add: isdigit_def)

lemma skip_zeros_run: "skip_zeros z = run z @ dropWhile isdigit z"
  by (induction z) (auto simp: skip_zeros_def run_def isdigit_48)

lemma run_digits: "list_all isdigit (run z)"
  unfolding run_def by (metis list_all_iff set_dropWhileD set_takeWhileD)

lemma run_head: "run z \<noteq> [] \<Longrightarrow> hd (run z) \<noteq> 48"
  unfolding run_def by (rule hd_dropWhile)

lemma run_value: "digits_value (run z) = digits_value (takeWhile isdigit z)"
  by (simp add: run_def digits_value_zeros)

lemma common_digits_append:
  "list_all isdigit as \<Longrightarrow> list_all isdigit bs \<Longrightarrow>
   (zA = [] \<or> \<not> isdigit (hd zA)) \<Longrightarrow> (zB = [] \<or> \<not> isdigit (hd zB)) \<Longrightarrow>
   common_digits (as @ zA) (bs @ zB) = min (length as) (length bs)"
proof (induction as arbitrary: bs)
  case Nil
  then show ?case by (cases "(zA, bs @ zB)" rule: common_digits.cases) auto
next
  case (Cons a as)
  show ?case
  proof (cases bs)
    case Nil
    then show ?thesis using Cons.prems by (cases zB) auto
  qed (use Cons in auto)
qed

lemma digit_at_append:
  "list_all isdigit as \<Longrightarrow> (zA = [] \<or> \<not> isdigit (hd zA)) \<Longrightarrow> k \<le> length as \<Longrightarrow>
   digit_at (as @ zA) k \<longleftrightarrow> k < length as"
  by (auto simp: digit_at_def nth_append list_all_length hd_conv_nth)

lemma rest_start: "dropWhile isdigit z = [] \<or> \<not> isdigit (hd (dropWhile isdigit z))"
  using hd_dropWhile [of isdigit z] by auto

text \<open>One comparison of two numbers.\<close>

lemma uintColl_numbers:
  fixes zA zB :: "byte list"
  assumes "isdigit a" and "isdigit b"
  defines "A \<equiv> a # zA" and "B \<equiv> b # zB"
  defines "c \<equiv> sgn (int (digits_value (takeWhile isdigit A)) - int (digits_value (takeWhile isdigit B)))"
  shows "uintCollFunc A B = (if c \<noteq> 0 then c else uintCollFunc (dropWhile isdigit A) (dropWhile isdigit B))"
proof -
  let ?k = "min (length (run A)) (length (run B))"
  have k: "common_digits (skip_zeros A) (skip_zeros B) = ?k"
    unfolding skip_zeros_run by (rule common_digits_append [OF run_digits run_digits rest_start rest_start])
  have da: "digit_at (skip_zeros A) ?k \<longleftrightarrow> length (run B) < length (run A)"
    "digit_at (skip_zeros B) ?k \<longleftrightarrow> length (run A) < length (run B)"
    unfolding skip_zeros_run by (subst digit_at_append [OF run_digits rest_start]; auto)+
  have unf: "uintCollFunc A B =
      (if digit_at (skip_zeros A) ?k then 1 else if digit_at (skip_zeros B) ?k then - 1
       else let x = memcmp (take ?k (skip_zeros A)) (take ?k (skip_zeros B)) in
         if x \<noteq> 0 then x else uintCollFunc (drop ?k (skip_zeros A)) (drop ?k (skip_zeros B)))"
    using assms(1,2) k unfolding A_def B_def by (subst uintCollFunc.simps) (simp add: Let_def)
  have c: "c = sgn (int (digits_value (run A)) - int (digits_value (run B)))" by (simp add: c_def run_value)
  consider "length (run B) < length (run A)" | "length (run A) < length (run B)" | "length (run A) = length (run B)"
    by linarith
  then show ?thesis
  proof cases
    case 1
    then have "c = 1" using digits_longer [OF run_digits run_digits 1] run_head [of A] c by force
    with 1 unf da show ?thesis by simp
  next
    case 2
    then have "c = - 1" using digits_longer [OF run_digits run_digits 2] run_head [of B] c by force
    with 2 unf da show ?thesis by simp
  next
    case 3
    then have "c = memcmp (run A) (run B)" using memcmp_digits [OF 3 run_digits run_digits] c by simp
    with 3 unf da show ?thesis by (simp add: skip_zeros_run Let_def)
  qed
qed

section \<open>Comparison of tokens\<close>

lemma tokens_simps:
  "tokens [] = []"
  "isdigit c \<Longrightarrow> tokens (c # cs) =
     Num (digits_value (takeWhile isdigit (c # cs))) # tokens (dropWhile isdigit (c # cs))"
  "\<not> isdigit c \<Longrightarrow> tokens (c # cs) = Other c # tokens cs"
  by (simp_all add: tokens.simps [of "[]"] tokens.simps [of "c # cs"])

lemma digit_vs_other: "isdigit a \<Longrightarrow> \<not> isdigit b \<Longrightarrow> sgn (uint a - uint b) = (if b < 48 then 1 else - 1)"
  by (auto simp: isdigit_def word_le_def word_less_def not_le)

lemma cmp_token_range: "cmp_token t u = - 1 \<or> cmp_token t u = 0 \<or> cmp_token t u = 1"
  by (cases "(t, u)" rule: cmp_token.cases) (auto simp: sgn_if)

lemma uintColl_tokens: "sgn (uintCollFunc zA zB) = cmp_tokens (tokens zA) (tokens zB)"
proof (induction zA zB rule: uintCollFunc.induct)
  case (1 a zA b zB)
  show ?case
  proof (cases "isdigit a"; cases "isdigit b")
    assume d: "isdigit a" "isdigit b"
    let ?A = "a # zA" and ?B = "b # zB"
    let ?k = "common_digits (skip_zeros ?A) (skip_zeros ?B)"
    have k: "?k = min (length (run ?A)) (length (run ?B))"
      unfolding skip_zeros_run by (rule common_digits_append [OF run_digits run_digits rest_start rest_start])
    show ?thesis
    proof (cases "digits_value (takeWhile isdigit ?A) = digits_value (takeWhile isdigit ?B)")
      case False
      then show ?thesis
        using uintColl_numbers [OF d, of zA zB] by (simp add: tokens_simps(2) d sgn_if del: digits_value_simps takeWhile.simps dropWhile.simps)
    next
      case True
      have l: "length (run ?A) = length (run ?B)"
        using True digits_longer [OF run_digits run_digits, of ?A ?B] digits_longer [OF run_digits run_digits, of ?B ?A]
          run_head [of ?A] run_head [of ?B] by (metis linorder_neqE_nat length_0_conv not_less_zero run_value less_irrefl)
      have "memcmp (run ?A) (run ?B) = 0"
        using memcmp_digits [OF l run_digits run_digits] True by (simp add: run_value)
      then have "sgn (uintCollFunc (dropWhile isdigit ?A) (dropWhile isdigit ?B)) =
          cmp_tokens (tokens (dropWhile isdigit ?A)) (tokens (dropWhile isdigit ?B))"
        using 1(1) [OF refl d(1) _ refl refl refl] d l k
        by (simp add: skip_zeros_run digit_at_append [OF run_digits rest_start])
      with True show ?thesis
        using uintColl_numbers [OF d, of zA zB] by (simp add: tokens_simps(2) d del: digits_value_simps takeWhile.simps dropWhile.simps)
    qed
  next
    assume d: "isdigit a" "\<not> isdigit b"
    then show ?thesis
      using digit_vs_other [OF d] by (simp add: uintCollFunc.simps tokens_simps)
  next
    assume d: "\<not> isdigit a" "isdigit b"
    then have "a \<noteq> b" by auto
    then have ne: "uint a - uint b \<noteq> 0" by (simp add: word_uint_eq_iff)
    have "sgn (uint a - uint b) = - sgn (uint b - uint a)" by (simp add: sgn_if)
    then show ?thesis
      using digit_vs_other [OF d(2,1)] d ne by (simp add: uintCollFunc.simps tokens_simps Let_def)
  next
    assume d: "\<not> isdigit a" "\<not> isdigit b"
    then show ?thesis
      using 1(2) by (cases "uint a = uint b") (simp_all add: uintCollFunc.simps tokens_simps sgn_0_0)
  qed
next
  case (2 zB)
  then show ?case by (cases zB) (auto simp: tokens_simps(1) tokens.simps [of "_ # _"])
next
  case (3 a zA)
  then show ?case by (auto simp: tokens_simps(1) tokens.simps [of "a # zA"])
qed

section \<open>The laws of an order\<close>

lemma cmp_token_swap: "cmp_token u t = - cmp_token t u"
  by (cases "(t, u)" rule: cmp_token.cases) (auto simp: sgn_if)

lemma cmp_token_0: "cmp_token t u = 0 \<longleftrightarrow> t = u"
  by (cases "(t, u)" rule: cmp_token.cases) (auto simp: sgn_if word_uint_eq_iff)

lemma uint_48: "b < 48 \<longleftrightarrow> uint b < 48" for b :: byte
  by (simp add: word_less_def)

lemma cmp_token_trans: "cmp_token t u = - 1 \<Longrightarrow> cmp_token u v = - 1 \<Longrightarrow> cmp_token t v = - 1"
  by (cases t; cases u; cases v) (auto simp: sgn_if uint_48 split: if_splits)

lemma cmp_tokens_swap: "cmp_tokens us ts = - cmp_tokens ts us"
proof (induction ts us rule: cmp_tokens.induct)
  case (4 t ts u us)
  then show ?case using cmp_token_swap [of u t] by simp
qed simp_all

lemma cmp_tokens_0: "cmp_tokens ts us = 0 \<longleftrightarrow> ts = us"
  by (induction ts us rule: cmp_tokens.induct) (auto simp: cmp_token_0)

lemma cmp_tokens_trans: "cmp_tokens ts us \<le> 0 \<Longrightarrow> cmp_tokens us vs \<le> 0 \<Longrightarrow> cmp_tokens ts vs \<le> 0"
proof (induction ts us arbitrary: vs rule: cmp_tokens.induct)
  case (4 t ts u us)
  show ?case
  proof (cases vs)
    case (Cons v vs')
    show ?thesis
    proof (cases "t = u \<or> u = v")
      case True
      then show ?thesis
        using 4 Cons cmp_token_0 [of t u] cmp_token_0 [of u v] cmp_token_0 [of t v]
        by (auto split: if_splits)
    next
      case False
      then have "cmp_token t u \<noteq> 0" "cmp_token u v \<noteq> 0" by (simp_all add: cmp_token_0)
      then have "cmp_token t u = - 1" "cmp_token u v = - 1"
        using 4(2,3) cmp_token_range [of t u] cmp_token_range [of u v] by (auto simp: Cons)
      with cmp_token_trans show ?thesis by (simp add: Cons)
    qed
  qed (use 4 in simp)
next
  case (2 u us)
  then show ?case by (cases vs) simp_all
qed simp_all

section \<open>Properties\<close>

text \<open>C36: The \<open>UINT\<close> comparison is the lexicographic comparison of the texts cut into numbers and other
  bytes: runs of digits compare by value whatever their length and leading zeros, everything else by byte.\<close>

theorem uintCollFunc_spec: "sgn (uintCollFunc zA zB) = cmp_tokens (tokens zA) (tokens zB)"
  by (rule uintColl_tokens)

text \<open>\<open>UINT\<close> satisfies the laws SQLite requires of a collating function: swapping the arguments swaps the
  sign, equality and order are transitive, and two texts are equal exactly if they have the same tokens.\<close>

theorem uintCollFunc_order:
  "sgn (uintCollFunc zB zA) = - sgn (uintCollFunc zA zB) \<and>
   (uintCollFunc zA zB \<le> 0 \<and> uintCollFunc zB zC \<le> 0 \<longrightarrow> uintCollFunc zA zC \<le> 0) \<and>
   (uintCollFunc zA zB = 0 \<longleftrightarrow> tokens zA = tokens zB)"
proof (intro conjI impI)
  have le: "uintCollFunc a b \<le> 0 \<longleftrightarrow> cmp_tokens (tokens a) (tokens b) \<le> 0" for a b
    unfolding uintColl_tokens [symmetric] by (simp add: sgn_if)
  show "sgn (uintCollFunc zB zA) = - sgn (uintCollFunc zA zB)"
    by (simp add: uintColl_tokens cmp_tokens_swap [of "tokens zB"])
  show "uintCollFunc zA zB = 0 \<longleftrightarrow> tokens zA = tokens zB"
    using uintColl_tokens [of zA zB] cmp_tokens_0 [of "tokens zA" "tokens zB"] by (metis sgn_0 sgn_0_0)
  assume "uintCollFunc zA zB \<le> 0 \<and> uintCollFunc zB zC \<le> 0"
  then show "uintCollFunc zA zC \<le> 0" using cmp_tokens_trans by (auto simp: le)
qed

theorem uintCollFunc_order_witness:
  "uintCollFunc (bytes_of ''x00123y'') (bytes_of ''x123y'') = 0 \<and>
   uintCollFunc (bytes_of ''a9'') (bytes_of ''a10'') \<le> 0 \<and> uintCollFunc (bytes_of ''a10'') (bytes_of ''b'') \<le> 0 \<and>
   uintCollFunc (bytes_of ''a9'') (bytes_of ''b'') \<le> 0"
proof -
  have "tokens (bytes_of ''x00123y'') = tokens (bytes_of ''x123y'')" by code_simp
  moreover have "uintCollFunc (bytes_of ''a9'') (bytes_of ''a10'') \<le> 0"
    "uintCollFunc (bytes_of ''a10'') (bytes_of ''b'') \<le> 0" by code_simp+
  ultimately show ?thesis
    using uintCollFunc_order [of "bytes_of ''x123y''" "bytes_of ''x00123y''"]
      uintCollFunc_order [of "bytes_of ''a10''" "bytes_of ''a9''" "bytes_of ''b''"] by blast
qed

end
