(* ===== verification/Ieee754.thy ===== *)
theory Ieee754
  imports Bytes
begin

text \<open>
  The \<open>ieee754\<close> family of SQL functions of the shell (\<open>shell.c\<close>, section \<open>ext/misc/ieee754.c\<close>), which
  take a binary64 value apart into \<open>m * 2^e\<close> and put it together again.  A \<open>double\<close> is its bit pattern, a
  \<open>64 word\<close> (the source moves it to an integer with \<open>memcpy\<close>); \<open>sqlite3_int64\<close> values are integers, with
  the wrap-around of the negation written out.  How the engine converts an SQL value to a double or to an
  integer is a parameter.
\<close>

section \<open>The operations\<close>

type_synonym f64 = "64 word"

definition int64 :: "int \<Rightarrow> int" where
  "int64 i = sint (word_of_int i :: 64 word)"

text \<open>\<open>r < 0.0\<close>: the sign bit is set, and the value is neither a NaN nor the negative zero.\<close>

definition f64_nan :: "f64 \<Rightarrow> bool" where
  "f64_nan r \<longleftrightarrow> uint r mod 2 ^ 63 > 0x7ff * 2 ^ 52"

definition f64_negative :: "f64 \<Rightarrow> bool" where
  "f64_negative r \<longleftrightarrow> uint r > 2 ^ 63 \<and> \<not> f64_nan r"

definition f64_neg :: "f64 \<Rightarrow> f64" where
  "f64_neg r = word_of_int (2 ^ 63) XOR r"

text \<open>The eight bytes of a blob, big-endian.\<close>

definition blob_f64 :: "byte list \<Rightarrow> f64" where
  "blob_f64 x = foldl (\<lambda>v b. push_bit 8 v OR ucast b) 0 x"

function strip_zeros :: "int \<Rightarrow> int \<Rightarrow> int \<times> int" where
  "strip_zeros m e =
     (if e < 1075 \<and> m > 0 \<and> m AND 1 = 0 then strip_zeros (drop_bit 1 m) (e + 1) else (m, e))"
  by pat_completeness auto

termination strip_zeros
  by (relation "measure (\<lambda>(m, e). nat (1075 - e))") auto

declare strip_zeros.simps [simp del]

text \<open>The integer and the biased exponent of a double.\<close>

definition ieee754_split :: "f64 \<Rightarrow> int \<times> int" where
  "ieee754_split r0 =
     (let isNeg = f64_negative r0;
          r = (if isNeg then f64_neg r0 else r0);
          a = sint r in
      if a = 0 then (0, 0)
      else
        let e = drop_bit 52 a;
            m = a AND (2 ^ 52 - 1);
            m1 = (if e = 0 then push_bit 1 m else m OR 2 ^ 52);
            (m2, e2) = strip_zeros m1 e in
        (if isNeg then - m2 else m2, e2))"

text \<open>The two loops that bring the integer into the range of a mantissa.  The source runs them on an
  \<open>sqlite3_int64\<close> that is not negative; the guards \<open>m > 0\<close> and \<open>m < 2 ^ 63\<close> say so, and let them end on
  every integer.\<close>

function norm_down :: "int \<Rightarrow> int \<Rightarrow> int \<times> int" where
  "norm_down m e =
     (if m > 0 \<and> drop_bit 32 m AND 0xffe00000 \<noteq> 0 then norm_down (drop_bit 1 m) (e + 1) else (m, e))"
  by pat_completeness auto

termination norm_down
  by (relation "measure (\<lambda>(m, e). nat m)") (auto simp: drop_bit_int_def)

declare norm_down.simps [simp del]

function norm_up :: "int \<Rightarrow> int \<Rightarrow> int \<times> int" where
  "norm_up m e =
     (if 0 < m \<and> m < 2 ^ 63 \<and> drop_bit 32 m AND 0xfff00000 = 0 then norm_up (push_bit 1 m) (e - 1) else (m, e))"
  by pat_completeness auto

termination norm_up
  by (relation "measure (\<lambda>(m, e). nat (2 ^ 63 - m))") (auto simp: push_bit_int_def)

declare norm_up.simps [simp del]

text \<open>The last steps: the exponent field, subnormals, overflow and the sign.\<close>

definition ieee754_pack :: "bool \<Rightarrow> int \<Rightarrow> int \<Rightarrow> f64" where
  "ieee754_pack isNeg m e0 =
     (let e = e0 + 1075;
          (m1, e1) =
            (if e \<le> 0 then (if 1 - e \<ge> 64 then 0 else drop_bit (nat (1 - e)) m, 0)
             else if e > 0x7ff then (m, 0x7ff) else (m, e));
          a = (m1 AND (2 ^ 52 - 1)) OR push_bit 52 e1 in
      word_of_int (if isNeg then a OR 2 ^ 63 else a))"

text \<open>\<open>ieee754(m, e)\<close>: no result (NULL) when \<open>-m\<close> overflows.\<close>

definition ieee754_join :: "int \<Rightarrow> int \<Rightarrow> f64 option" where
  "ieee754_join m e =
     (let e1 = (if e > 10000 then 10000 else if e < - 10000 then - 10000 else e);
          isNeg = m < 0;
          m1 = (if m < 0 then int64 (- m) else m) in
      if m1 < 0 then None
      else if m = 0 \<and> e1 > - 1000 \<and> e1 < 1000 then Some 0
      else
        let (m2, e2) = norm_down m1 e1; (m3, e3) = norm_up m2 e2 in
        Some (ieee754_pack isNeg m3 e3))"

datatype ieee_aux = Aux_Text | Aux_Mantissa | Aux_Exponent

definition ieee754func1 :: "(sqlite3_value \<Rightarrow> f64) \<Rightarrow> ieee_aux \<Rightarrow> sqlite3_value \<Rightarrow> sqlite3_result" where
  "ieee754func1 value_double aux v =
     (let r = (case v of
                 V_Blob x \<Rightarrow> if length x = 8 then blob_f64 x else value_double v
               | _ \<Rightarrow> value_double v);
          (m, e) = ieee754_split r in
      case aux of
        Aux_Text \<Rightarrow> R_Text (bytes_of (''ieee754('' @ show_int m @ '','' @ show_int (e - 1075) @ '')''))
      | Aux_Mantissa \<Rightarrow> R_Int m
      | Aux_Exponent \<Rightarrow> R_Int (e - 1075))"

definition ieee754func2 :: "(sqlite3_value \<Rightarrow> int) \<Rightarrow> sqlite3_value \<Rightarrow> sqlite3_value \<Rightarrow> sqlite3_result" where
  "ieee754func2 value_int64 v w =
     (case ieee754_join (value_int64 v) (value_int64 w) of None \<Rightarrow> R_Null | Some r \<Rightarrow> R_Float r)"

definition ieee754func_from_blob :: "sqlite3_value \<Rightarrow> sqlite3_result" where
  "ieee754func_from_blob v =
     (case v of V_Blob x \<Rightarrow> if length x = 8 then R_Float (blob_f64 x) else R_Null | _ \<Rightarrow> R_Null)"

text \<open>The bytes are written from the last to the first.\<close>

fun f64_bytes :: "nat \<Rightarrow> f64 \<Rightarrow> byte list" where
  "f64_bytes 0 v = []"
| "f64_bytes (Suc i) v = f64_bytes i (drop_bit 8 v) @ [ucast (v AND 0xff)]"

definition ieee754func_to_blob :: "(sqlite3_value \<Rightarrow> f64) \<Rightarrow> sqlite3_value \<Rightarrow> sqlite3_result" where
  "ieee754func_to_blob value_double v =
     (case v of
        V_Float _ \<Rightarrow> R_Blob (f64_bytes 8 (value_double v))
      | V_Int _ \<Rightarrow> R_Blob (f64_bytes 8 (value_double v))
      | _ \<Rightarrow> R_Null)"

definition ieee754inc :: "(sqlite3_value \<Rightarrow> f64) \<Rightarrow> (sqlite3_value \<Rightarrow> int) \<Rightarrow> sqlite3_value \<Rightarrow> sqlite3_value \<Rightarrow> sqlite3_result" where
  "ieee754inc value_double value_int64 v w = R_Float (value_double v + word_of_int (value_int64 w))"

section \<open>Arithmetic of the bit operations\<close>

lemma and_push_bit: "x AND push_bit k c = push_bit k (drop_bit k x AND c)" for x c :: int
  by (rule bit_eqI) (auto simp: bit_simps)

lemma and_0xffe00000: "0 \<le> x \<Longrightarrow> x < 2 ^ 21 \<Longrightarrow> x AND 0xffe00000 = 0" for x :: int
  using and_push_bit [of x 21 "0x7ff"] by (simp add: push_bit_int_def drop_bit_int_def div_pos_pos_trivial)

lemma and_0xfff00000:
  fixes x :: int
  assumes "0 \<le> x" and "x < 2 ^ 21"
  shows "x AND 0xfff00000 = 0 \<longleftrightarrow> x < 2 ^ 20"
proof -
  have "x div 2 ^ 20 = (if x < 2 ^ 20 then 0 else 1)"
    using assms by (simp, linarith)
  then show ?thesis
    using and_push_bit [of x 20 "0xfff"] by (auto simp: push_bit_int_def drop_bit_int_def)
qed

lemma mask_or_shift:
  fixes m e :: int
  assumes "0 \<le> e"
  shows "(m AND (2 ^ 52 - 1)) OR push_bit 52 e = m mod 2 ^ 52 + e * 2 ^ 52"
proof -
  have m: "m AND (2 ^ 52 - 1) = take_bit 52 m" by (simp only: take_bit_eq_mask mask_eq_exp_minus_1)
  have "take_bit 52 m AND push_bit 52 e = 0" by (rule bit_eqI) (auto simp: bit_simps)
  then show ?thesis
    unfolding m by (simp add: disjunctive_add_eq_or [symmetric] take_bit_int_def push_bit_int_def)
qed

lemma or_sign:
  fixes a :: int
  assumes "0 \<le> a" and "a < 2 ^ 63"
  shows "a OR 2 ^ 63 = a + 2 ^ 63"
proof -
  have "take_bit 63 a = a" using assms by (simp add: take_bit_int_eq_self)
  then have "\<not> bit a 63" by (metis bit_take_bit_iff less_irrefl)
  then have "a AND 2 ^ 63 = 0" by (simp only: and_exp_eq_0_iff_not_bit not_False_eq_True)
  then show ?thesis by (rule disjunctive_add_eq_or [symmetric])
qed

section \<open>The loops\<close>

lemma strip_zeros_ok:
  "0 < m \<Longrightarrow> \<exists>k m'. strip_zeros m e = (m', e + int k) \<and> m = m' * 2 ^ k \<and> 0 < m'"
proof (induction m e rule: strip_zeros.induct)
  case (1 m e)
  show ?case
  proof (cases "e < 1075 \<and> m > 0 \<and> m AND 1 = 0")
    case True
    then have ev: "m = 2 * (m div 2)" "0 < m div 2"
      using 1(2) by (auto simp: and_one_eq mod2_eq_if split: if_splits)
    with 1(1) [OF True] obtain k m' where
      "strip_zeros (m div 2) (e + 1) = (m', e + 1 + int k)" "m div 2 = m' * 2 ^ k" "0 < m'"
      by (auto simp: drop_bit_int_def)
    with True ev(1) show ?thesis
      by (subst strip_zeros.simps) (auto simp: drop_bit_int_def intro!: exI [of _ "Suc k"] exI [of _ m'])
  next
    case False
    then show ?thesis using 1(2) by (subst strip_zeros.simps) (auto intro: exI [of _ 0])
  qed
qed

lemma norm_down_small: "0 \<le> m \<Longrightarrow> m < 2 ^ 53 \<Longrightarrow> norm_down m e = (m, e)"
proof -
  assume m: "0 \<le> m" "m < 2 ^ 53"
  have "m div 2 ^ 32 < 2 ^ 21" using m zdiv_mono1 [of m "2 ^ 53 - 1" "2 ^ 32"] by simp
  then have "drop_bit 32 m AND 0xffe00000 = 0"
    using and_0xffe00000 [of "m div 2 ^ 32"] m by (simp add: drop_bit_int_def)
  then show ?thesis by (subst norm_down.simps) simp
qed

lemma norm_up_ok:
  assumes "0 < m" and "m < 2 ^ 53"
  shows "\<exists>j. norm_up m e = (m * 2 ^ j, e - int j) \<and> 2 ^ 52 \<le> m * 2 ^ j \<and> m * 2 ^ j < 2 ^ 53"
  using assms
proof (induction m e rule: norm_up.induct)
  case (1 m e)
  have x: "0 \<le> m div 2 ^ 32" "m div 2 ^ 32 < 2 ^ 21" "m div 2 ^ 32 < 2 ^ 20 \<longleftrightarrow> m < 2 ^ 52"
    using 1(2,3) zdiv_mono1 [of m "2 ^ 53 - 1" "2 ^ 32"] zdiv_mono1 [of m "2 ^ 52 - 1" "2 ^ 32"]
      zdiv_mono1 [of "2 ^ 52" m "2 ^ 32"] by auto
  then have test: "drop_bit 32 m AND 0xfff00000 = 0 \<longleftrightarrow> m < 2 ^ 52"
    using and_0xfff00000 [of "m div 2 ^ 32"] by (simp add: drop_bit_int_def)
  show ?case
  proof (cases "m < 2 ^ 52")
    case True
    then have guard: "0 < m \<and> m < 2 ^ 63 \<and> drop_bit 32 m AND 0xfff00000 = 0" using test 1(2) by simp
    with 1(1) 1(2) True obtain j where
      "norm_up (push_bit 1 m) (e - 1) = (m * 2 * 2 ^ j, e - 1 - int j)" "2 ^ 52 \<le> m * 2 * 2 ^ j" "m * 2 * 2 ^ j < 2 ^ 53"
      by (auto simp: push_bit_int_def)
    with guard show ?thesis
      by (subst norm_up.simps) (auto intro!: exI [of _ "Suc j"])
  next
    case False
    then show ?thesis using 1(3) test by (subst norm_up.simps) (auto intro: exI [of _ 0])
  qed
qed

lemma double_le:
  fixes m :: int
  assumes "0 < m" and "j < k"
  shows "2 * (m * 2 ^ j) \<le> m * 2 ^ k"
proof -
  have "m * 2 ^ Suc j \<le> m * 2 ^ k" using assms by (intro mult_left_mono power_increasing) auto
  then show ?thesis by simp
qed

text \<open>What the exponent field and the fraction of a finite pattern \<open>u\<close> give back.\<close>

lemma pack_normal:
  assumes "2 ^ 52 \<le> m" and "m < 2 ^ 53" and "1 \<le> e" and "e < 0x7ff"
  shows "ieee754_pack neg m (e - 1075) = word_of_int (m - 2 ^ 52 + e * 2 ^ 52 + (if neg then 2 ^ 63 else 0))"
proof -
  have m: "m mod 2 ^ 52 = m - 2 ^ 52"
    using assms(1,2) mod_pos_pos_trivial [of "m - 2 ^ 52" "2 ^ 52"] by (simp add: minus_mod_self2)
  have a: "(m AND (2 ^ 52 - 1)) OR push_bit 52 e = m - 2 ^ 52 + e * 2 ^ 52"
    unfolding mask_or_shift [of e m, OF order_trans [OF zero_le_one assms(3)]] m by (rule refl)
  have "(m - 2 ^ 52 + e * 2 ^ 52) OR 2 ^ 63 = m - 2 ^ 52 + e * 2 ^ 52 + 2 ^ 63"
    using assms by (intro or_sign) simp_all
  then show ?thesis
    using assms(3,4) a unfolding ieee754_pack_def Let_def by simp
qed

lemma pack_subnormal:
  assumes "0 \<le> m0" and "m0 < 2 ^ 52" and "d < 63"
  shows "ieee754_pack neg (m0 * 2 ^ Suc d) (- int d - 1075) = word_of_int (m0 + (if neg then 2 ^ 63 else 0))"
proof -
  have d: "drop_bit (nat (1 + int d)) (m0 * 2 ^ Suc d) = m0"
    by (simp add: drop_bit_int_def nat_add_distrib)
  have a: "(m0 AND (2 ^ 52 - 1)) OR push_bit 52 0 = m0"
    using assms(1,2) mask_or_shift [of 0 m0] by (simp add: mod_pos_pos_trivial)
  have "m0 OR 2 ^ 63 = m0 + 2 ^ 63"
    using assms(1,2) by (intro or_sign) simp_all
  then show ?thesis
    using assms(3) a d unfolding ieee754_pack_def Let_def by simp
qed

text \<open>The mantissa and exponent the source starts from, and that joining recovers the pattern.\<close>

lemma join_of_strip:
  assumes u: "0 < u" "u < 0x7ff * 2 ^ 52"
  defines "e0 \<equiv> u div 2 ^ 52" and "m0 \<equiv> u mod 2 ^ 52"
  defines "M \<equiv> (if e0 = 0 then 2 * m0 else m0 + 2 ^ 52)"
  shows "\<exists>m e m3 e3. strip_zeros M e0 = (m, e) \<and> 0 < m \<and> m < 2 ^ 53 \<and> - 2000 < e - 1075 \<and> e - 1075 < 2000 \<and>
     norm_down m (e - 1075) = (m, e - 1075) \<and> norm_up m (e - 1075) = (m3, e3) \<and>
     (\<forall>neg. ieee754_pack neg m3 e3 = word_of_int (u + (if neg then 2 ^ 63 else 0)))"
proof -
  have um: "u = e0 * 2 ^ 52 + m0" "0 \<le> m0" "m0 < 2 ^ 52" "0 \<le> e0" "e0 < 0x7ff"
    using u by (simp_all add: e0_def m0_def)
  have M: "0 < M" "M < 2 ^ 53" using um u by (auto simp: M_def)
  obtain k m where km: "strip_zeros M e0 = (m, e0 + int k)" "M = m * 2 ^ k" "0 < m"
    using strip_zeros_ok [OF M(1)] by blast
  have p1: "(1 :: int) \<le> 2 ^ k" and exp53: "2 * 2 ^ 52 = (2 :: int) ^ 53" by simp_all
  have mM: "m \<le> M" using km(2,3) p1 by (simp add: mult_le_cancel_left1)
  have k53: "k < 53"
  proof (rule ccontr)
    assume "\<not> k < 53"
    then have "(2 :: int) ^ 53 \<le> 2 ^ k" by (intro power_increasing) auto
    also have "\<dots> \<le> M" using km(2,3) by (simp add: mult_le_cancel_right1)
    finally show False using M(2) by simp
  qed
  obtain j where j: "norm_up m (e0 + int k - 1075) = (m * 2 ^ j, e0 + int k - 1075 - int j)"
    "2 ^ 52 \<le> m * 2 ^ j" "m * 2 ^ j < 2 ^ 53"
    using norm_up_ok [OF km(3), of "e0 + int k - 1075"] mM M(2) by auto
  have "\<forall>neg. ieee754_pack neg (m * 2 ^ j) (e0 + int k - 1075 - int j) =
      word_of_int (u + (if neg then 2 ^ 63 else 0))"
  proof (cases "e0 = 0")
    case False
    then have "2 ^ 52 \<le> m * 2 ^ k" using um km(2) by (simp add: M_def)
    then have "\<not> j < k" "\<not> k < j"
      using double_le [OF km(3), of j k] double_le [OF km(3), of k j] j(2,3) M(2) km(2) exp53 by fastforce+
    then have "j = k" by simp
    then have "m * 2 ^ j = M" "e0 + int k - 1075 - int j = e0 - 1075" using km(2) by simp_all
    moreover have "M - 2 ^ 52 + e0 * 2 ^ 52 = u" "2 ^ 52 \<le> M" using False um by (simp_all add: M_def)
    ultimately show ?thesis
      using pack_normal [of M e0] M(2) um(4,5) False by simp
  next
    case True
    then have m0: "2 * m0 = m * 2 ^ k" using km(2) by (simp add: M_def)
    have "\<not> j < k" using double_le [OF km(3), of j k] j(2) M(2) km(2) exp53 by fastforce
    then have "k \<le> j" by simp
    then obtain d where d: "j = k + d" using le_Suc_ex by blast
    have "m * 2 ^ j = m0 * 2 ^ Suc d" using m0 by (simp add: d power_add)
    moreover have "d < 63"
    proof (rule ccontr)
      assume "\<not> d < 63"
      then have "(2 :: int) ^ 53 \<le> 2 ^ j" by (intro power_increasing) (auto simp: d)
      also have "\<dots> \<le> m * 2 ^ j" using km(3) by (simp add: mult_le_cancel_right1)
      finally show False using j(3) by simp
    qed
    ultimately show ?thesis
      using pack_subnormal [of m0 d] um True by (simp add: d algebra_simps)
  qed
  moreover have "m < 2 ^ 53" using mM M(2) by linarith
  moreover from this have "norm_down m (e0 + int k - 1075) = (m, e0 + int k - 1075)"
    using km(3) by (intro norm_down_small) auto
  moreover have "- 2000 < e0 + int k - 1075" "e0 + int k - 1075 < 2000" using um(4,5) k53 by auto
  ultimately show ?thesis using km j(1) by blast
qed

definition f64_finite :: "f64 \<Rightarrow> bool" where
  "f64_finite r \<longleftrightarrow> uint r mod 2 ^ 63 < 0x7ff * 2 ^ 52"

lemma uint_sign:
  fixes r :: f64
  shows "uint r = uint r mod 2 ^ 63 + (if uint r \<ge> 2 ^ 63 then 2 ^ 63 else 0)"
proof -
  have "0 \<le> uint r" "uint r < 2 ^ 64" using uint_lt2p [of r] by simp_all
  then show ?thesis
    using mod_pos_pos_trivial [of "uint r" "2 ^ 63"] mod_pos_pos_trivial [of "uint r - 2 ^ 63" "2 ^ 63"]
      minus_mod_self2 [of "uint r" "2 ^ 63"] by auto
qed

lemma sint_pattern: "0 \<le> u \<Longrightarrow> u < 2 ^ 63 \<Longrightarrow> sint (word_of_int u :: f64) = u"
  by (simp add: signed_of_int signed_take_bit_int_eq_self)

lemma uint_pattern: "0 \<le> u \<Longrightarrow> u < 2 ^ 64 \<Longrightarrow> uint (word_of_int u :: f64) = u"
  by (simp add: unsigned_of_int take_bit_int_eq_self)

lemma neg_pattern:
  assumes "0 \<le> u" and "u < 2 ^ 63"
  shows "f64_neg (word_of_int (u + 2 ^ 63)) = word_of_int u"
proof -
  have "take_bit 63 u = u" using assms by (simp add: take_bit_int_eq_self)
  then have "\<not> bit u 63" by (metis bit_take_bit_iff less_irrefl)
  then have "u AND 2 ^ 63 = 0" by (simp only: and_exp_eq_0_iff_not_bit not_False_eq_True)
  then have "2 ^ 63 XOR (u + 2 ^ 63) = u"
    by (simp only: disjunctive_add_eq_xor) (simp only: xor.left_commute [of _ u] xor_self_eq xor.right_neutral)
  then show ?thesis unfolding f64_neg_def by (simp only: word_wi_log_defs)
qed

text \<open>The first steps of the source on a finite pattern other than a zero.\<close>

lemma split_pattern:
  assumes u: "0 < u" "u < 0x7ff * 2 ^ 52"
  defines "e0 \<equiv> u div 2 ^ 52" and "m0 \<equiv> u mod 2 ^ 52"
  shows "ieee754_split (word_of_int (u + (if neg then 2 ^ 63 else 0))) =
     (case strip_zeros (if e0 = 0 then 2 * m0 else m0 + 2 ^ 52) e0 of
        (m, e) \<Rightarrow> (if neg then - m else m, e))"
proof -
  let ?r = "word_of_int (u + (if neg then 2 ^ 63 else 0)) :: f64"
  have ur: "uint ?r = u + (if neg then 2 ^ 63 else 0)"
    using u by (intro uint_pattern) auto
  have um: "uint ?r mod 2 ^ 63 = u"
    unfolding ur using u by (auto simp: mod_pos_pos_trivial)
  have neg: "f64_negative ?r \<longleftrightarrow> neg"
    using u unfolding f64_negative_def f64_nan_def um unfolding ur by auto
  have a: "sint (if neg then f64_neg ?r else ?r) = u"
    using u neg_pattern [of u] sint_pattern [of u] by auto
  have m: "u AND (2 ^ 52 - 1) = m0"
    unfolding m0_def by (simp only: take_bit_int_def [symmetric] take_bit_eq_mask mask_eq_exp_minus_1)
  have "m0 AND push_bit 52 1 = 0"
    unfolding m0_def and_push_bit by (simp add: drop_bit_int_def div_pos_pos_trivial)
  then have or: "m0 OR 2 ^ 52 = m0 + 2 ^ 52"
    using disjunctive_add_eq_or [of m0 "push_bit 52 1"] by (simp add: push_bit_int_def)
  show ?thesis
    unfolding ieee754_split_def Let_def neg a m using u
    by (simp add: or [simplified] drop_bit_int_def push_bit_int_def e0_def mult.commute split: prod.splits)
qed

lemma join_eq:
  assumes "norm_down m e = (m, e)" and "norm_up m e = (m3, e3)" and "0 < m" and "m < 2 ^ 53"
    and "- 2000 < e" and "e < 2000"
  shows "ieee754_join (if neg then - m else m) e = Some (ieee754_pack neg m3 e3)"
proof -
  have "int64 m = m" using sint_pattern [of m] assms(3,4) by (simp add: int64_def)
  then show ?thesis using assms by (auto simp: ieee754_join_def Let_def)
qed

lemma split_zero: "ieee754_split 0 = (0, 0)"
  by (simp add: ieee754_split_def f64_negative_def)

lemma join_zero: "ieee754_join 0 (- 1075) = Some 0"
proof -
  have "norm_down 0 (- 1075) = (0, - 1075)" "norm_up 0 (- 1075) = (0, - 1075)"
    by (subst norm_down.simps, simp) (subst norm_up.simps, simp)
  then show ?thesis by (simp add: ieee754_join_def ieee754_pack_def)
qed

section \<open>Properties\<close>



text \<open>\<open>ieee754\<close> does not describe the negative zero: for the blob \<open>x'8000000000000000'\<close> it reports the
  mantissa 1 and the exponent -3071 (a number that is not zero), and joining the two gives the positive zero.\<close>

theorem ieee754_negative_zero:
  "ieee754func1 value_double Aux_Mantissa (V_Blob [0x80, 0, 0, 0, 0, 0, 0, 0]) = R_Int 1 \<and>
   ieee754func1 value_double Aux_Exponent (V_Blob [0x80, 0, 0, 0, 0, 0, 0, 0]) = R_Int (- 3071) \<and>
   ieee754_join 1 (- 3071) = Some 0"
proof (intro conjI)
  have b: "blob_f64 [0x80, 0, 0, 0, 0, 0, 0, 0] = 0x8000000000000000"
    by (simp add: blob_f64_def)
  have "strip_zeros (2 ^ k) e = (1, e + int k)" if "e + int k < 1075" for k and e
    using that
  proof (induction k arbitrary: e)
    case 0
    then show ?case by (subst strip_zeros.simps) (simp add: and_one_eq)
  next
    case (Suc k)
    then show ?case by (subst strip_zeros.simps) (simp add: and_one_eq drop_bit_int_def)
  qed
  from this [of "- 2048" 52] have s: "strip_zeros 4503599627370496 (- 2048) = (1, - 1996)" by simp
  have "ieee754_split 0x8000000000000000 = (1, - 1996)"
    using s by (simp add: ieee754_split_def f64_negative_def drop_bit_int_def)
  then show "ieee754func1 value_double Aux_Mantissa (V_Blob [0x80, 0, 0, 0, 0, 0, 0, 0]) = R_Int 1"
    "ieee754func1 value_double Aux_Exponent (V_Blob [0x80, 0, 0, 0, 0, 0, 0, 0]) = R_Int (- 3071)"
    by (simp_all add: ieee754func1_def b)
  obtain j where j: "norm_up 1 (- 3071) = (2 ^ j, - 3071 - int j)" using norm_up_ok [of 1 "- 3071"] by auto
  then show "ieee754_join 1 (- 3071) = Some 0"
    by (simp add: ieee754_join_def norm_down_small ieee754_pack_def)
qed

lemma f64_bytes_length [simp]: "length (f64_bytes n r) = n"
  by (induction n arbitrary: r) simp_all

lemma blob_f64_bytes: "blob_f64 (f64_bytes n r) = take_bit (8 * n) r"
proof (induction n arbitrary: r)
  case (Suc n)
  have "push_bit 8 (take_bit (8 * n) (drop_bit 8 r)) OR ucast (ucast (r AND 0xff) :: byte) = take_bit (8 * Suc n) r"
    unfolding and_mask_bits by (rule bit_word_eqI) (auto simp: bit_simps)
  with Suc [of "drop_bit 8 r"] show ?case by (simp add: blob_f64_def)
qed (simp add: blob_f64_def)

text \<open>\<open>ieee754_from_blob(ieee754_to_blob(r))\<close> is \<open>r\<close>, for every double.\<close>

theorem ieee754_blob_round_trip:
  assumes "value_double (V_Float r) = r"
  shows "\<exists>x. ieee754func_to_blob value_double (V_Float r) = R_Blob x \<and> length x = 8 \<and>
     ieee754func_from_blob (V_Blob x) = R_Float r"
proof -
  have "blob_f64 (f64_bytes 8 r) = r" using blob_f64_bytes [of 8 r] by (simp add: take_bit_word_eq_self)
  then show ?thesis
    using assms by (simp add: ieee754func_to_blob_def ieee754func_from_blob_def del: f64_bytes.simps)
qed

theorem ieee754_blob_round_trip_witness:
  "\<exists>x. ieee754func_to_blob (\<lambda>v. case v of V_Float r \<Rightarrow> r | _ \<Rightarrow> 0) (V_Float 0x3ff0000000000000) = R_Blob x \<and>
     length x = 8 \<and> ieee754func_from_blob (V_Blob x) = R_Float 0x3ff0000000000000"
  by (rule ieee754_blob_round_trip) simp

end
