(* ===== verification/Decimal.thy ===== *)
theory Decimal
  imports Complex_Main Ieee754
begin

text \<open>
  Arbitrary-precision decimal arithmetic of the shell (\<open>shell.c\<close>, section \<open>ext/misc/decimal.c\<close>): parsing and
  printing of decimal text, comparison, addition, subtraction, multiplication, powers of two, the expansion
  of doubles, the aggregate \<open>decimal_sum\<close> and the collation.

  A \<open>Decimal\<close> keeps its digits as a list, most significant first, so that \<open>nDigit\<close> is its length.  Whether an
  allocation of a given size succeeds is the parameter \<open>malloc\<close>; a failed allocation of the object is \<open>None\<close>, one
  of its digits sets the field \<open>oom\<close>.  The specification is the rational number a decimal stands for.
\<close>

section \<open>Decimal objects\<close>

record Decimal =
  d_sign :: bool
  d_oom :: bool
  d_isNull :: bool
  d_isInit :: bool
  d_nFrac :: int
  d_a :: "int list"

abbreviation nDigit :: "Decimal \<Rightarrow> int" where
  "nDigit p \<equiv> int (length (d_a p))"

section \<open>Parsing\<close>

definition is_dec_digit :: "byte \<Rightarrow> bool" where
  "is_dec_digit c \<longleftrightarrow> 48 \<le> c \<and> c \<le> 57"

definition c_isspace :: "byte \<Rightarrow> bool" where
  "c_isspace c \<longleftrightarrow> c = 32 \<or> (9 \<le> c \<and> c \<le> 13)"

definition dec_digit :: "byte \<Rightarrow> int" where
  "dec_digit c = uint c - 48"

fun dec_exponent :: "byte list \<Rightarrow> int \<Rightarrow> int" where
  "dec_exponent [] iExp = iExp"
| "dec_exponent (c # z) iExp =
     (if iExp < 1000000 then dec_exponent z (if is_dec_digit c then iExp * 10 + dec_digit c else iExp) else iExp)"

definition dec_signed_exponent :: "byte list \<Rightarrow> int" where
  "dec_signed_exponent z =
     (case z of
        [] \<Rightarrow> 0
      | c # z' \<Rightarrow>
          if c = 45 then - dec_exponent z' 0
          else if c = 43 then dec_exponent z' 0
          else dec_exponent z 0)"

text \<open>The loop over the digits: the digits stored so far, the mark of the decimal point and the exponent.\<close>

fun dec_scan :: "byte list \<Rightarrow> int list \<Rightarrow> int \<Rightarrow> int list \<times> int \<times> int" where
  "dec_scan [] a nFrac = (a, nFrac, 0)"
| "dec_scan (c # z) a nFrac =
     (if is_dec_digit c then dec_scan z (a @ [dec_digit c]) nFrac
      else if c = 46 then dec_scan z a (int (length a) + 1)
      else if c = 101 \<or> c = 69 then (a, nFrac, dec_signed_exponent z)
      else dec_scan z a nFrac)"

definition dec_skip_sign :: "byte list \<Rightarrow> bool \<times> byte list" where
  "dec_skip_sign z = (if rd z = 45 then (True, tl z) else if rd z = 43 then (False, tl z) else (False, z))"

text \<open>A positive exponent moves the decimal point to the right and appends zeros.\<close>

definition dec_shift_right :: "(int \<Rightarrow> bool) \<Rightarrow> int list \<Rightarrow> int \<Rightarrow> int \<Rightarrow> (int list \<times> int) option" where
  "dec_shift_right malloc a nFrac iExp =
     (let (nFrac1, iExp1) =
            (if nFrac > 0 then (if iExp \<le> nFrac then (nFrac - iExp, 0) else (0, iExp - nFrac)) else (nFrac, iExp)) in
      if iExp1 > 0 then
        (if malloc (int (length a) + iExp1 + 1) then Some (a @ replicate (nat iExp1) 0, nFrac1) else None)
      else Some (a, nFrac1))"

text \<open>A negative one (here \<open>iExp\<close> is its absolute value) moves it to the left and prepends zeros.\<close>

definition dec_shift_left :: "(int \<Rightarrow> bool) \<Rightarrow> int list \<Rightarrow> int \<Rightarrow> int \<Rightarrow> (int list \<times> int) option" where
  "dec_shift_left malloc a nFrac iExp =
     (let nExtra = int (length a) - nFrac - 1;
          (nFrac1, iExp1) =
            (if nExtra \<noteq> 0 then
               (if nExtra \<ge> iExp then (nFrac + iExp, 0) else (int (length a) - 1, iExp - nExtra))
             else (nFrac, iExp)) in
      if iExp1 > 0 then
        (if malloc (int (length a) + iExp1 + 1) then Some (replicate (nat iExp1) 0 @ a, nFrac1 + iExp1) else None)
      else Some (a, nFrac1))"

definition sizeof_Decimal :: int where
  "sizeof_Decimal = 24"

definition decimalNewFromText :: "(int \<Rightarrow> bool) \<Rightarrow> byte list \<Rightarrow> Decimal option" where
  "decimalNewFromText malloc zIn =
     (if \<not> malloc sizeof_Decimal \<or> \<not> malloc (int (length zIn) + 1) then None
      else
        let (sign, z) = dec_skip_sign (dropWhile c_isspace zIn);
            (a, mark, iExp) = dec_scan (dropWhile (\<lambda>c. c = 48) z) [] 0;
            nFrac = (if mark \<noteq> 0 then int (length a) - (mark - 1) else mark);
            shifted =
              (if iExp > 0 then dec_shift_right malloc a nFrac iExp
               else if iExp < 0 then dec_shift_left malloc a nFrac (- iExp)
               else Some (a, nFrac)) in
        case shifted of
          None \<Rightarrow> None
        | Some (a', nFrac') \<Rightarrow>
            Some \<lparr>d_sign = sign, d_oom = False, d_isNull = False, d_isInit = True, d_nFrac = nFrac', d_a = a'\<rparr>)"

section \<open>Printing\<close>

definition digit_byte :: "int \<Rightarrow> byte" where
  "digit_byte d = word_of_int (d + 48)"

text \<open>The leading zeros the integer part loses, all but its last digit.\<close>

fun dec_trim :: "int \<Rightarrow> int list \<Rightarrow> int \<times> int list" where
  "dec_trim n [] = (n, [])"
| "dec_trim n (d # a) = (if n > 1 \<and> d = 0 then dec_trim (n - 1) a else (n, d # a))"

definition decimal_text :: "Decimal \<Rightarrow> byte list" where
  "decimal_text p =
     (let sign = (d_sign p \<and> \<not> (nDigit p = 0 \<or> (nDigit p = 1 \<and> hd (d_a p) = 0)));
          n = nDigit p - d_nFrac p;
          (n1, a1) = dec_trim n (d_a p);
          ip = take (nat n1) a1; fp = drop (nat n1) a1 in
      (if sign then [45] else []) @ (if n \<le> 0 then [48] else []) @ map digit_byte ip @
      (if d_nFrac p \<noteq> 0 then 46 # map digit_byte fp else []))"

definition decimal_result :: "(int \<Rightarrow> bool) \<Rightarrow> Decimal option \<Rightarrow> sqlite3_result" where
  "decimal_result malloc po =
     (case po of
        None \<Rightarrow> R_Error ''out of memory''
      | Some p \<Rightarrow>
          if d_oom p then R_Error ''out of memory''
          else if d_isNull p then R_Null
          else if \<not> malloc (nDigit p + 4) then R_Error ''out of memory''
          else R_Text (decimal_text p))"

text \<open>\<open>%+03d\<close>: a sign and at least two digits.\<close>

definition show_exponent :: "int \<Rightarrow> byte list" where
  "show_exponent e =
     (let s = show_nat (nat \<bar>e\<bar>) in
      bytes_of ((if e < 0 then ''-'' else ''+'') @ (if length s < 2 then ''0'' else []) @ s))"

definition strip_trailing :: "int list \<Rightarrow> int list" where
  "strip_trailing a = rev (dropWhile (\<lambda>d. d = 0) (rev a))"

definition decimal_text_sci :: "Decimal \<Rightarrow> byte list" where
  "decimal_text_sci p =
     (let a0 = strip_trailing (d_a p);
          nFrac0 = d_nFrac p + (int (length a0) - nDigit p);
          a1 = dropWhile (\<lambda>d. d = 0) a0;
          (a, nFrac) = (if a1 = [] then ([0], 0) else (a1, nFrac0)) in
      (if d_sign p then [45] else [43]) @ [digit_byte (hd a), 46] @
      (if length a = 1 then [48] else map digit_byte (tl a)) @
      [101] @ show_exponent (int (length a) - nFrac - 1))"

definition decimal_result_sci :: "(int \<Rightarrow> bool) \<Rightarrow> Decimal option \<Rightarrow> sqlite3_result" where
  "decimal_result_sci malloc po =
     (case po of
        None \<Rightarrow> R_Error ''out of memory''
      | Some p \<Rightarrow>
          if d_oom p then R_Error ''out of memory''
          else if d_isNull p then R_Null
          else if \<not> malloc (int (length (dropWhile (\<lambda>d. d = 0) (strip_trailing (d_a p)))) + 20)
          then R_Error ''out of memory''
          else R_Text (decimal_text_sci p))"

section \<open>Comparison\<close>

fun cmp_digits :: "int list \<Rightarrow> int list \<Rightarrow> int" where
  "cmp_digits (x # a) (y # b) = (if x = y then cmp_digits a b else if x < y then - 1 else 1)"
| "cmp_digits _ _ = 0"

definition decimal_cmp :: "Decimal \<Rightarrow> Decimal \<Rightarrow> int" where
  "decimal_cmp pA0 pB0 =
     (if d_sign pA0 \<noteq> d_sign pB0 then (if d_sign pA0 then - 1 else 1)
      else
        let (pA, pB) = (if d_sign pA0 then (pB0, pA0) else (pA0, pB0));
            nASig = nDigit pA - d_nFrac pA;
            nBSig = nDigit pB - d_nFrac pB in
        if nASig \<noteq> nBSig then nASig - nBSig
        else
          let n = (if nDigit pA > nDigit pB then nDigit pB else nDigit pA);
              rc = cmp_digits (take (nat n) (d_a pA)) (take (nat n) (d_a pB)) in
          if rc = 0 then nDigit pA - nDigit pB else rc)"

section \<open>Addition\<close>

definition decimal_expand :: "(int \<Rightarrow> bool) \<Rightarrow> Decimal \<Rightarrow> int \<Rightarrow> int \<Rightarrow> Decimal" where
  "decimal_expand malloc p nD nF =
     (let nAddFrac = nF - d_nFrac p;
          nAddSig = (nD - nDigit p) - nAddFrac in
      if nAddFrac = 0 \<and> nAddSig = 0 then p
      else if \<not> malloc (nD + 1) then p\<lparr>d_oom := True, d_a := []\<rparr>
      else
        p\<lparr>d_a := (replicate (nat nAddSig) 0 @ d_a p) @ replicate (nat nAddFrac) 0,
          d_nFrac := d_nFrac p + nAddFrac\<rparr>)"

text \<open>The loops run from the last digit to the first: on the reversed lists.\<close>

fun add_loop :: "int list \<Rightarrow> int list \<Rightarrow> int \<Rightarrow> int list" where
  "add_loop (x # a) (y # b) carry =
     (let s = x + y + carry in
      if s \<ge> 10 then (s - 10) # add_loop a b 1 else s # add_loop a b 0)"
| "add_loop _ _ carry = []"

fun sub_loop :: "int list \<Rightarrow> int list \<Rightarrow> int \<Rightarrow> int list" where
  "sub_loop (x # a) (y # b) borrow =
     (let s = x - y - borrow in
      if s < 0 then (s + 10) # sub_loop a b 1 else s # sub_loop a b 0)"
| "sub_loop _ _ borrow = []"

definition decimal_add_digits :: "Decimal \<Rightarrow> Decimal \<Rightarrow> Decimal" where
  "decimal_add_digits pA pB =
     (if d_sign pA = d_sign pB then pA\<lparr>d_a := rev (add_loop (rev (d_a pA)) (rev (d_a pB)) 0)\<rparr>
      else if cmp_digits (d_a pA) (d_a pB) < 0
      then pA\<lparr>d_sign := \<not> d_sign pA, d_a := rev (sub_loop (rev (d_a pB)) (rev (d_a pA)) 0)\<rparr>
      else pA\<lparr>d_a := rev (sub_loop (rev (d_a pA)) (rev (d_a pB)) 0)\<rparr>)"

definition add_width :: "Decimal \<Rightarrow> Decimal \<Rightarrow> int \<times> int" where
  "add_width pA pB =
     (let nSig0 = nDigit pA - d_nFrac pA;
          nSig1 = (if nSig0 \<noteq> 0 \<and> hd (d_a pA) = 0 then nSig0 - 1 else nSig0);
          nSig = (if nSig1 < nDigit pB - d_nFrac pB then nDigit pB - d_nFrac pB else nSig1);
          nFrac = (if d_nFrac pA < d_nFrac pB then d_nFrac pB else d_nFrac pA) in
      (nSig + nFrac + 1, nFrac))"

definition decimal_add :: "(int \<Rightarrow> bool) \<Rightarrow> Decimal option \<Rightarrow> Decimal option \<Rightarrow> Decimal option" where
  "decimal_add malloc poA poB =
     (case poA of
        None \<Rightarrow> None
      | Some pA \<Rightarrow>
          (case poB of
             None \<Rightarrow> Some (pA\<lparr>d_oom := True\<rparr>)
           | Some pB \<Rightarrow>
               if d_oom pA \<or> d_oom pB then Some (pA\<lparr>d_oom := True\<rparr>)
               else if d_isNull pA \<or> d_isNull pB then Some (pA\<lparr>d_isNull := True\<rparr>)
               else
                 let (nD, nF) = add_width pA pB;
                     pA' = decimal_expand malloc pA nD nF;
                     pB' = decimal_expand malloc pB nD nF in
                 if d_oom pA' \<or> d_oom pB' then Some (pA'\<lparr>d_oom := True\<rparr>)
                 else Some (decimal_add_digits pA' pB')))"

section \<open>Multiplication\<close>

text \<open>One row: \<open>acc[k] += f * b[j]\<close> from the last digit of \<open>b\<close>, with the carries.\<close>

fun mul_inner :: "int list \<Rightarrow> int \<Rightarrow> int list \<Rightarrow> nat \<Rightarrow> int \<Rightarrow> int list \<times> nat \<times> int" where
  "mul_inner acc f [] k carry = (acc, k, carry)"
| "mul_inner acc f (y # b) k carry =
     (let x = acc ! k + f * y + carry in mul_inner (acc[k := x mod 10]) f b (k - 1) (x div 10))"

definition mul_row :: "int list \<Rightarrow> nat \<Rightarrow> int \<Rightarrow> int list \<Rightarrow> int list" where
  "mul_row acc i f b =
     (case mul_inner acc f (rev b) (i + length b + 2) 0 of
        (acc1, k, carry) \<Rightarrow>
          let x = acc1 ! k + carry;
              acc2 = acc1[k := x mod 10] in
          acc2[k - 1 := acc2 ! (k - 1) + x div 10])"

fun mul_rows :: "int list \<Rightarrow> nat \<Rightarrow> int list \<Rightarrow> int list \<Rightarrow> int list" where
  "mul_rows acc 0 a b = acc"
| "mul_rows acc (Suc i) a b = mul_rows (mul_row acc i (a ! i) b) i a b"

text \<open>Trailing zeros are dropped while the fraction is longer than \<open>minFrac\<close>; the digits are reversed.\<close>

fun mul_trim :: "int list \<Rightarrow> int \<Rightarrow> int \<Rightarrow> int list \<times> int" where
  "mul_trim [] nFrac minFrac = ([], nFrac)"
| "mul_trim (d # ra) nFrac minFrac =
     (if nFrac > minFrac \<and> d = 0 then mul_trim ra (nFrac - 1) minFrac else (d # ra, nFrac))"

definition decimalMul :: "(int \<Rightarrow> bool) \<Rightarrow> Decimal option \<Rightarrow> Decimal option \<Rightarrow> Decimal option" where
  "decimalMul malloc poA poB =
     (case (poA, poB) of
        (Some pA, Some pB) \<Rightarrow>
          if d_oom pA \<or> d_isNull pA \<or> d_oom pB \<or> d_isNull pB then Some pA
          else if \<not> malloc (nDigit pA + nDigit pB + 2) then Some (pA\<lparr>d_oom := True\<rparr>)
          else
            let minFrac = (if d_nFrac pB < d_nFrac pA then d_nFrac pB else d_nFrac pA);
                acc = mul_rows (replicate (length (d_a pA) + length (d_a pB) + 2) 0)
                        (length (d_a pA)) (d_a pA) (d_a pB);
                (ra, nF) = mul_trim (rev acc) (d_nFrac pA + d_nFrac pB) minFrac in
            Some (pA\<lparr>d_a := rev ra, d_nFrac := nF, d_sign := (d_sign pA \<noteq> d_sign pB)\<rparr>)
      | _ \<Rightarrow> poA)"

section \<open>Powers of two and doubles\<close>

text \<open>The loop of \<open>decimalPow2\<close>; \<open>None\<close> is the jump to \<open>pow2_fault\<close>.\<close>

function pow2_loop :: "(int \<Rightarrow> bool) \<Rightarrow> nat \<Rightarrow> Decimal \<Rightarrow> Decimal \<Rightarrow> Decimal option" where
  "pow2_loop malloc N pA pX =
     (let pA1 = (if odd N then the (decimalMul malloc (Some pA) (Some pX)) else pA) in
      if odd N \<and> d_oom pA1 then None
      else if N div 2 = 0 then Some pA1
      else pow2_loop malloc (N div 2) pA1 (the (decimalMul malloc (Some pX) (Some pX))))"
  by pat_completeness auto

termination pow2_loop
  by (relation "measure (\<lambda>(malloc, N, pA, pX). N)") auto

declare pow2_loop.simps [simp del]

definition decimalPow2 :: "(int \<Rightarrow> bool) \<Rightarrow> int \<Rightarrow> Decimal option" where
  "decimalPow2 malloc N =
     (if N < - 20000 \<or> N > 20000 then None
      else
        case decimalNewFromText malloc (bytes_of ''1.0'') of
          None \<Rightarrow> None
        | Some pA \<Rightarrow>
            if d_oom pA then None
            else if N = 0 then Some pA
            else
              (case decimalNewFromText malloc (bytes_of (if N > 0 then ''2.0'' else ''0.5'')) of
                 None \<Rightarrow> None
               | Some pX \<Rightarrow> if d_oom pX then None else pow2_loop malloc (nat \<bar>N\<bar>) pA pX))"

definition decimalFromDouble :: "(int \<Rightarrow> bool) \<Rightarrow> f64 \<Rightarrow> Decimal option" where
  "decimalFromDouble malloc r =
     (let (m, e0) = ieee754_split r;
          e = (if sint (if f64_negative r then f64_neg r else r) = 0 then 0 else e0 - 1075) in
      if e > 971 then None
      else
        decimalMul malloc (decimalNewFromText malloc (bytes_of (show_int m))) (decimalPow2 malloc e))"

section \<open>The SQL functions\<close>

definition decimal_new ::
  "(int \<Rightarrow> bool) \<Rightarrow> (sqlite3_value \<Rightarrow> byte list) \<Rightarrow> bool \<Rightarrow> sqlite3_value \<Rightarrow> Decimal option" where
  "decimal_new malloc value_text bTextOnly pIn =
     (case pIn of
        V_Text t \<Rightarrow> decimalNewFromText malloc t
      | V_Int i \<Rightarrow> decimalNewFromText malloc (bytes_of (show_int i))
      | V_Float r \<Rightarrow> if bTextOnly then decimalNewFromText malloc (value_text pIn) else decimalFromDouble malloc r
      | V_Blob x \<Rightarrow>
          if bTextOnly then decimalNewFromText malloc (value_text pIn)
          else if length x \<noteq> 8 then None
          else decimalFromDouble malloc (blob_f64 x)
      | V_Null \<Rightarrow> None)"

text \<open>\<open>decimal_new\<close> reports an allocation failure of a text on the context.\<close>

definition decimal_new_failed ::
  "(int \<Rightarrow> bool) \<Rightarrow> (sqlite3_value \<Rightarrow> byte list) \<Rightarrow> bool \<Rightarrow> sqlite3_value \<Rightarrow> bool" where
  "decimal_new_failed malloc value_text bTextOnly pIn \<longleftrightarrow>
     (case pIn of V_Text _ \<Rightarrow> True | V_Int _ \<Rightarrow> True | V_Float _ \<Rightarrow> bTextOnly | V_Blob _ \<Rightarrow> bTextOnly | V_Null \<Rightarrow> False) \<and>
     decimal_new malloc value_text bTextOnly pIn = None"

definition nomem :: sqlite3_result where
  "nomem = R_Error ''out of memory''"

definition decimalFunc :: "(int \<Rightarrow> bool) \<Rightarrow> (sqlite3_value \<Rightarrow> byte list) \<Rightarrow> bool \<Rightarrow> sqlite3_value \<Rightarrow> sqlite3_result" where
  "decimalFunc malloc value_text sci v =
     (case decimal_new malloc value_text False v of
        None \<Rightarrow> if decimal_new_failed malloc value_text False v then nomem else R_Null
      | Some p \<Rightarrow> if sci then decimal_result_sci malloc (Some p) else decimal_result malloc (Some p))"

definition decimalCmpFunc ::
  "(int \<Rightarrow> bool) \<Rightarrow> (sqlite3_value \<Rightarrow> byte list) \<Rightarrow> sqlite3_value \<Rightarrow> sqlite3_value \<Rightarrow> sqlite3_result" where
  "decimalCmpFunc malloc value_text v w =
     (case decimal_new malloc value_text True v of
        None \<Rightarrow> if decimal_new_failed malloc value_text True v then nomem else R_Null
      | Some pA \<Rightarrow>
          if d_isNull pA then R_Null
          else
            (case decimal_new malloc value_text True w of
               None \<Rightarrow> if decimal_new_failed malloc value_text True w then nomem else R_Null
             | Some pB \<Rightarrow>
                 if d_isNull pB then R_Null
                 else
                   let rc = decimal_cmp pA pB in
                   R_Int (if rc < 0 then - 1 else if rc > 0 then 1 else rc)))"

definition decimalAddFunc ::
  "(int \<Rightarrow> bool) \<Rightarrow> (sqlite3_value \<Rightarrow> byte list) \<Rightarrow> sqlite3_value \<Rightarrow> sqlite3_value \<Rightarrow> sqlite3_result" where
  "decimalAddFunc malloc value_text v w =
     decimal_result malloc
       (decimal_add malloc (decimal_new malloc value_text True v) (decimal_new malloc value_text True w))"

definition negate :: "Decimal \<Rightarrow> Decimal" where
  "negate p = p\<lparr>d_sign := \<not> d_sign p\<rparr>"

definition decimalSubFunc ::
  "(int \<Rightarrow> bool) \<Rightarrow> (sqlite3_value \<Rightarrow> byte list) \<Rightarrow> sqlite3_value \<Rightarrow> sqlite3_value \<Rightarrow> sqlite3_result" where
  "decimalSubFunc malloc value_text v w =
     (case decimal_new malloc value_text True w of
        None \<Rightarrow> if decimal_new_failed malloc value_text True v \<or> decimal_new_failed malloc value_text True w
                then nomem else R_Null
      | Some pB \<Rightarrow>
          decimal_result malloc (decimal_add malloc (decimal_new malloc value_text True v) (Some (negate pB))))"

definition decimalMulFunc ::
  "(int \<Rightarrow> bool) \<Rightarrow> (sqlite3_value \<Rightarrow> byte list) \<Rightarrow> sqlite3_value \<Rightarrow> sqlite3_value \<Rightarrow> sqlite3_result" where
  "decimalMulFunc malloc value_text v w =
     (case (decimal_new malloc value_text True v, decimal_new malloc value_text True w) of
        (Some pA, Some pB) \<Rightarrow>
          if d_oom pA \<or> d_isNull pA \<or> d_oom pB \<or> d_isNull pB then R_Null
          else
            (case decimalMul malloc (Some pA) (Some pB) of
               None \<Rightarrow> R_Null
             | Some p \<Rightarrow> if d_oom p then R_Null else decimal_result malloc (Some p))
      | _ \<Rightarrow> if decimal_new_failed malloc value_text True v \<or> decimal_new_failed malloc value_text True w
             then nomem else R_Null)"

definition decimalPow2Func :: "(int \<Rightarrow> bool) \<Rightarrow> sqlite3_value \<Rightarrow> sqlite3_result" where
  "decimalPow2Func malloc v =
     (case v of V_Int i \<Rightarrow> decimal_result_sci malloc (decimalPow2 malloc (int32 i)) | _ \<Rightarrow> R_Null)"

definition decimalCollFunc :: "(int \<Rightarrow> bool) \<Rightarrow> byte list \<Rightarrow> byte list \<Rightarrow> int" where
  "decimalCollFunc malloc zA zB =
     (case (decimalNewFromText malloc zA, decimalNewFromText malloc zB) of
        (Some pA, Some pB) \<Rightarrow> decimal_cmp pA pB
      | _ \<Rightarrow> 0)"

text \<open>The aggregate \<open>decimal_sum\<close>: its context is zeroed memory before the first step.\<close>

definition sum_fresh :: Decimal where
  "sum_fresh = \<lparr>d_sign = False, d_oom = False, d_isNull = False, d_isInit = False, d_nFrac = 0, d_a = []\<rparr>"

definition sum_init :: "(int \<Rightarrow> bool) \<Rightarrow> Decimal \<Rightarrow> Decimal" where
  "sum_init malloc p =
     (if d_isInit p then p
      else p\<lparr>d_isInit := True, d_oom := (d_oom p \<or> \<not> malloc 2), d_a := [0], d_nFrac := 0\<rparr>)"

definition decimalSumStep ::
  "(int \<Rightarrow> bool) \<Rightarrow> (sqlite3_value \<Rightarrow> byte list) \<Rightarrow> Decimal \<Rightarrow> sqlite3_value \<Rightarrow> Decimal" where
  "decimalSumStep malloc value_text p v =
     (let p1 = sum_init malloc p in
      if v = V_Null then p1 else the (decimal_add malloc (Some p1) (decimal_new malloc value_text True v)))"

definition decimalSumInverse ::
  "(int \<Rightarrow> bool) \<Rightarrow> (sqlite3_value \<Rightarrow> byte list) \<Rightarrow> Decimal \<Rightarrow> sqlite3_value \<Rightarrow> Decimal" where
  "decimalSumInverse malloc value_text p v =
     (if v = V_Null then p
      else the (decimal_add malloc (Some p) (map_option negate (decimal_new malloc value_text True v))))"

text \<open>Printing the value clears the sign of a zero.\<close>

definition decimalSumValue :: "(int \<Rightarrow> bool) \<Rightarrow> Decimal \<Rightarrow> sqlite3_result \<times> Decimal" where
  "decimalSumValue malloc p =
     (decimal_result malloc (Some p),
      if \<not> d_oom p \<and> \<not> d_isNull p \<and> malloc (nDigit p + 4) \<and> (nDigit p = 0 \<or> (nDigit p = 1 \<and> hd (d_a p) = 0))
      then p\<lparr>d_sign := False\<rparr> else p)"

definition decimalSumFinalize :: "(int \<Rightarrow> bool) \<Rightarrow> Decimal \<Rightarrow> sqlite3_result" where
  "decimalSumFinalize malloc p = decimal_result malloc (Some p)"

section \<open>The number a decimal stands for\<close>

definition digits_val :: "int list \<Rightarrow> int" where
  "digits_val = foldl (\<lambda>n d. 10 * n + d) 0"

definition dec_val :: "Decimal \<Rightarrow> rat" where
  "dec_val p = (if d_sign p then - 1 else 1) * of_int (digits_val (d_a p)) / 10 ^ nat (d_nFrac p)"

definition digits_ok :: "int list \<Rightarrow> bool" where
  "digits_ok a \<longleftrightarrow> list_all (\<lambda>d. 0 \<le> d \<and> d \<le> 9) a"

definition dec_ok :: "Decimal \<Rightarrow> bool" where
  "dec_ok p \<longleftrightarrow> digits_ok (d_a p) \<and> 0 \<le> d_nFrac p \<and> d_nFrac p \<le> nDigit p \<and> \<not> d_oom p \<and> \<not> d_isNull p"

lemma digits_val_acc: "foldl (\<lambda>n d. 10 * n + d) m a = m * 10 ^ length a + digits_val a"
proof (induction a arbitrary: m)
  case (Cons d a)
  show ?case using Cons [of "10 * m + d"] Cons [of d] by (simp add: digits_val_def algebra_simps)
qed (simp add: digits_val_def)

lemma digits_val_simps [simp]:
  "digits_val [] = 0" "digits_val (d # a) = d * 10 ^ length a + digits_val a"
  using digits_val_acc [of d a] by (simp_all add: digits_val_def)

lemma digits_val_append [simp]: "digits_val (a @ b) = digits_val a * 10 ^ length b + digits_val b"
  by (induction a) (simp_all add: algebra_simps power_add)

lemma digits_val_zeros [simp]: "digits_val (replicate n 0) = 0"
  by (induction n) simp_all

lemma digits_ok_simps [simp]:
  "digits_ok []" "digits_ok (d # a) \<longleftrightarrow> 0 \<le> d \<and> d \<le> 9 \<and> digits_ok a"
  "digits_ok (a @ b) \<longleftrightarrow> digits_ok a \<and> digits_ok b" "digits_ok (rev a) \<longleftrightarrow> digits_ok a" "digits_ok (replicate n 0)"
  by (auto simp: digits_ok_def list_all_iff)

lemma digits_val_bounds: "digits_ok a \<Longrightarrow> 0 \<le> digits_val a \<and> digits_val a < 10 ^ length a"
proof (induction a)
  case (Cons d a)
  then have "0 \<le> d" "d \<le> 9" and IH: "0 \<le> digits_val a" "digits_val a < 10 ^ length a" by auto
  then have "d * 10 ^ length a \<le> 9 * 10 ^ length a" "0 \<le> d * 10 ^ length a"
    by (auto intro: mult_right_mono)
  with IH have "0 \<le> d * 10 ^ length a + digits_val a" "d * 10 ^ length a + digits_val a < 10 * 10 ^ length a"
    by linarith+
  then show ?case by simp
qed simp

section \<open>Addition is correct\<close>

lemma add_loop_ok:
  assumes "length a = length b" and "digits_ok a" and "digits_ok b" and "c = 0 \<or> c = 1"
  shows "digits_ok (add_loop a b c) \<and> length (add_loop a b c) = length a \<and>
    (\<exists>c'. (c' = 0 \<or> c' = 1) \<and>
      digits_val (rev (add_loop a b c)) + c' * 10 ^ length a = digits_val (rev a) + digits_val (rev b) + c)"
  using assms
proof (induction a b arbitrary: c rule: list_induct2)
  case Nil
  then show ?case by (auto intro: exI [of _ c])
next
  case (Cons x a y b)
  let ?s = "x + y + c"
  let ?d = "if ?s \<ge> 10 then ?s - 10 else ?s" and ?c = "if ?s \<ge> 10 then 1 else 0 :: int"
  have e: "add_loop (x # a) (y # b) c = ?d # add_loop a b ?c" by (simp add: Let_def)
  have "digits_ok a" "digits_ok b" "?c = 0 \<or> ?c = 1" using Cons.prems by auto
  from Cons.IH [OF this] obtain c' where c': "c' = 0 \<or> c' = 1"
    and v: "digits_val (rev (add_loop a b ?c)) + c' * 10 ^ length a = digits_val (rev a) + digits_val (rev b) + ?c"
    and o: "digits_ok (add_loop a b ?c)" "length (add_loop a b ?c) = length a" by blast
  have d: "?d + 10 * ?c = x + y + c" "0 \<le> ?d" "?d \<le> 9" using Cons.prems by auto
  have "digits_val (rev (add_loop (x # a) (y # b) c)) + c' * 10 ^ length (x # a) =
      10 * (digits_val (rev (add_loop a b ?c)) + c' * 10 ^ length a) + ?d"
    unfolding e by simp
  also have "\<dots> = 10 * (digits_val (rev a) + digits_val (rev b)) + (x + y + c)"
    unfolding v using d(1) by simp
  finally show ?case using c' o d(2,3) unfolding e by (intro conjI exI [of _ c']) auto
qed

lemma sub_loop_ok:
  assumes "length a = length b" and "digits_ok a" and "digits_ok b" and "c = 0 \<or> c = 1"
  shows "digits_ok (sub_loop a b c) \<and> length (sub_loop a b c) = length a \<and>
    (\<exists>c'. (c' = 0 \<or> c' = 1) \<and>
      digits_val (rev (sub_loop a b c)) - c' * 10 ^ length a = digits_val (rev a) - digits_val (rev b) - c)"
  using assms
proof (induction a b arbitrary: c rule: list_induct2)
  case Nil
  then show ?case by (auto intro: exI [of _ c])
next
  case (Cons x a y b)
  let ?s = "x - y - c"
  let ?d = "if ?s < 0 then ?s + 10 else ?s" and ?c = "if ?s < 0 then 1 else 0 :: int"
  have e: "sub_loop (x # a) (y # b) c = ?d # sub_loop a b ?c" by (simp add: Let_def)
  have "digits_ok a" "digits_ok b" "?c = 0 \<or> ?c = 1" using Cons.prems by auto
  from Cons.IH [OF this] obtain c' where c': "c' = 0 \<or> c' = 1"
    and v: "digits_val (rev (sub_loop a b ?c)) - c' * 10 ^ length a = digits_val (rev a) - digits_val (rev b) - ?c"
    and o: "digits_ok (sub_loop a b ?c)" "length (sub_loop a b ?c) = length a" by blast
  have d: "?d - 10 * ?c = x - y - c" "0 \<le> ?d" "?d \<le> 9" using Cons.prems by auto
  have "digits_val (rev (sub_loop (x # a) (y # b) c)) - c' * 10 ^ length (x # a) =
      10 * (digits_val (rev (sub_loop a b ?c)) - c' * 10 ^ length a) + ?d"
    unfolding e by simp
  also have "\<dots> = 10 * (digits_val (rev a) - digits_val (rev b)) + (x - y - c)"
    unfolding v using d(1) by simp
  finally show ?case using c' o d(2,3) unfolding e by (intro conjI exI [of _ c']) auto
qed

lemma cmp_digits_sgn:
  "length a = length b \<Longrightarrow> digits_ok a \<Longrightarrow> digits_ok b \<Longrightarrow> cmp_digits a b = sgn (digits_val a - digits_val b)"
proof (induction a b rule: list_induct2)
  case (Cons x a y b)
  have v: "0 \<le> digits_val a" "digits_val a < 10 ^ length b" "0 \<le> digits_val b" "digits_val b < 10 ^ length b"
    using Cons digits_val_bounds [of a] digits_val_bounds [of b] by auto
  have lt: "p * m + u < q * m + w" if "p + 1 \<le> q" "0 \<le> m" "u < m" "0 \<le> w" for p q u w m :: int
  proof -
    have "(p + 1) * m \<le> q * m" using that by (intro mult_right_mono)
    with that show ?thesis by (simp add: algebra_simps)
  qed
  consider "x = y" | "x < y" | "y < x" by linarith
  then show ?case
  proof cases
    case 1
    then show ?thesis using Cons by simp
  next
    case 2
    then have "digits_val (x # a) < digits_val (y # b)" using lt [of x y "10 ^ length b"] v Cons(1) by simp
    then show ?thesis using 2 by (simp add: sgn_if del: digits_val_simps)
  next
    case 3
    then have "digits_val (y # b) < digits_val (x # a)" using lt [of y x "10 ^ length b"] v Cons(1) by simp
    then show ?thesis using 3 by (simp add: sgn_if del: digits_val_simps)
  qed
qed simp

lemma add_loop_sum:
  assumes "length a = length b" and "digits_ok a" and "digits_ok b"
    and "digits_val a + digits_val b < 10 ^ length a"
  shows "digits_val (rev (add_loop (rev a) (rev b) 0)) = digits_val a + digits_val b"
    and "digits_ok (rev (add_loop (rev a) (rev b) 0))" "length (add_loop (rev a) (rev b) 0) = length a"
proof -
  obtain c' where c: "c' = 0 \<or> c' = 1" and ok: "digits_ok (add_loop (rev a) (rev b) 0)"
    and len: "length (add_loop (rev a) (rev b) 0) = length a"
    and v: "digits_val (rev (add_loop (rev a) (rev b) 0)) + c' * 10 ^ length a = digits_val a + digits_val b"
    using add_loop_ok [of "rev a" "rev b" 0] assms by auto
  have "0 \<le> digits_val (rev (add_loop (rev a) (rev b) 0))" using ok digits_val_bounds by simp
  with v c assms(4) show "digits_val (rev (add_loop (rev a) (rev b) 0)) = digits_val a + digits_val b" by auto
  show "digits_ok (rev (add_loop (rev a) (rev b) 0))" "length (add_loop (rev a) (rev b) 0) = length a"
    using ok len by simp_all
qed

lemma sub_loop_diff:
  assumes "length a = length b" and "digits_ok a" and "digits_ok b" and "digits_val b \<le> digits_val a"
  shows "digits_val (rev (sub_loop (rev a) (rev b) 0)) = digits_val a - digits_val b"
    and "digits_ok (rev (sub_loop (rev a) (rev b) 0))" "length (sub_loop (rev a) (rev b) 0) = length a"
proof -
  obtain c' where c: "c' = 0 \<or> c' = 1" and ok: "digits_ok (sub_loop (rev a) (rev b) 0)"
    and len: "length (sub_loop (rev a) (rev b) 0) = length a"
    and v: "digits_val (rev (sub_loop (rev a) (rev b) 0)) - c' * 10 ^ length a = digits_val a - digits_val b"
    using sub_loop_ok [of "rev a" "rev b" 0] assms by auto
  have "digits_val (rev (sub_loop (rev a) (rev b) 0)) < 10 ^ length a"
    using digits_val_bounds [of "rev (sub_loop (rev a) (rev b) 0)"] ok len by simp
  with v c assms(4) show "digits_val (rev (sub_loop (rev a) (rev b) 0)) = digits_val a - digits_val b" by auto
  show "digits_ok (rev (sub_loop (rev a) (rev b) 0))" "length (sub_loop (rev a) (rev b) 0) = length a"
    using ok len by simp_all
qed

text \<open>Signed value of the digits.\<close>

definition sig_val :: "Decimal \<Rightarrow> int" where
  "sig_val p = (if d_sign p then - 1 else 1) * digits_val (d_a p)"

lemma dec_val_sig: "dec_val p = of_int (sig_val p) / 10 ^ nat (d_nFrac p)"
  by (simp add: dec_val_def sig_val_def)

lemma add_digits_ok:
  assumes "length (d_a pA) = length (d_a pB)" and "digits_ok (d_a pA)" and "digits_ok (d_a pB)"
    and "digits_val (d_a pA) + digits_val (d_a pB) < 10 ^ length (d_a pA)"
  shows "sig_val (decimal_add_digits pA pB) = sig_val pA + sig_val pB"
    and "digits_ok (d_a (decimal_add_digits pA pB))" "nDigit (decimal_add_digits pA pB) = nDigit pA"
proof -
  note s = add_loop_sum [OF assms(1-4)]
  have c: "cmp_digits (d_a pA) (d_a pB) < 0 \<longleftrightarrow> digits_val (d_a pA) < digits_val (d_a pB)"
    using cmp_digits_sgn [OF assms(1-3)] by (simp add: sgn_if)
  note d = sub_loop_diff [OF assms(1-3)] and d' = sub_loop_diff [OF assms(1) [symmetric] assms(3,2)]
  show "sig_val (decimal_add_digits pA pB) = sig_val pA + sig_val pB"
    "digits_ok (d_a (decimal_add_digits pA pB))" "nDigit (decimal_add_digits pA pB) = nDigit pA"
    using s d d' assms(1) by (auto simp: decimal_add_digits_def sig_val_def c)
qed

lemma expand_ok:
  assumes "dec_ok p" and "d_nFrac p \<le> nF" and "nDigit p - d_nFrac p \<le> nD - nF"
    and "\<not> d_oom (decimal_expand malloc p nD nF)"
  defines "p' \<equiv> decimal_expand malloc p nD nF"
  shows "nDigit p' = nD" "d_nFrac p' = nF" "d_sign p' = d_sign p" "digits_ok (d_a p')" "\<not> d_isNull p'"
    "digits_val (d_a p') = digits_val (d_a p) * 10 ^ nat (nF - d_nFrac p)"
  using assms by (auto simp: decimal_expand_def Let_def dec_ok_def algebra_simps split: if_splits)

lemma expand_oom: "\<forall>n. malloc n \<Longrightarrow> \<not> d_oom p \<Longrightarrow> \<not> d_oom (decimal_expand malloc p nD nF)"
  by (simp add: decimal_expand_def Let_def)

text \<open>Digits that count: a leading zero does not.\<close>

lemma add_width_ok:
  assumes "dec_ok pA" and "dec_ok pB" and "add_width pA pB = (nD, nF)"
  shows "d_nFrac pA \<le> nF" "d_nFrac pB \<le> nF" "nDigit pA - d_nFrac pA \<le> nD - nF" "nDigit pB - d_nFrac pB \<le> nD - nF"
    "digits_val (d_a pA) * 10 ^ nat (nF - d_nFrac pA) < 10 ^ nat (nD - 1)"
    "digits_val (d_a pB) * 10 ^ nat (nF - d_nFrac pB) < 10 ^ nat (nD - 1)" "0 \<le> nF" "1 \<le> nD"
proof -
  note a = assms(1) [unfolded dec_ok_def] and b = assms(2) [unfolded dec_ok_def]
  have up: "v * 10 ^ nat (nF - k) < 10 ^ nat (nD - 1)"
    if "0 \<le> v" "v < 10 ^ m" "int m + (nF - k) \<le> nD - 1" "k \<le> nF" for v :: int and m k
  proof -
    have "v * 10 ^ nat (nF - k) < 10 ^ m * 10 ^ nat (nF - k)" using that(2) by simp
    also have "\<dots> = 10 ^ (m + nat (nF - k))" by (simp add: power_add)
    also have "\<dots> \<le> 10 ^ nat (nD - 1)" using that(3,4) by (intro power_increasing) auto
    finally show ?thesis .
  qed
  show w: "d_nFrac pA \<le> nF" "d_nFrac pB \<le> nF" "nDigit pA - d_nFrac pA \<le> nD - nF" "nDigit pB - d_nFrac pB \<le> nD - nF"
    "0 \<le> nF" "1 \<le> nD"
    using assms(3) a b by (auto simp: add_width_def Let_def split: if_splits)
  show "digits_val (d_a pB) * 10 ^ nat (nF - d_nFrac pB) < 10 ^ nat (nD - 1)"
    using digits_val_bounds [of "d_a pB"] assms(3) b w
    by (intro up [of _ "length (d_a pB)"]) (auto simp: add_width_def Let_def split: if_splits)
  show "digits_val (d_a pA) * 10 ^ nat (nF - d_nFrac pA) < 10 ^ nat (nD - 1)"
  proof (cases "nDigit pA - d_nFrac pA \<noteq> 0 \<and> hd (d_a pA) = 0")
    case True
    then obtain a' where a': "d_a pA = 0 # a'" using a by (cases "d_a pA") auto
    then show ?thesis
      using digits_val_bounds [of a'] assms(3) a w True
      by (intro up [of _ "length a'"]) (auto simp: add_width_def Let_def split: if_splits)
  next
    case False
    then show ?thesis
      using digits_val_bounds [of "d_a pA"] assms(3) a w
      by (intro up [of _ "length (d_a pA)"]) (auto simp: add_width_def Let_def split: if_splits)
  qed
qed

lemma frac_shift:
  assumes "0 \<le> k" and "k \<le> nF"
  shows "(of_int (s * 10 ^ nat (nF - k)) :: rat) / 10 ^ nat nF = of_int s / 10 ^ nat k"
proof -
  have "nat nF = nat (nF - k) + nat k" using assms by simp
  then have "(10 :: rat) ^ nat nF = 10 ^ nat (nF - k) * 10 ^ nat k" by (simp only: power_add)
  then show ?thesis by simp
qed

lemma decimal_add_ok:
  assumes "dec_ok pA" and "dec_ok pB"
  shows "\<exists>p. decimal_add malloc (Some pA) (Some pB) = Some p \<and>
    (d_oom p \<or> (dec_ok p \<and> dec_val p = dec_val pA + dec_val pB)) \<and> ((\<forall>n. malloc n) \<longrightarrow> \<not> d_oom p)"
proof -
  obtain nD nF where w: "add_width pA pB = (nD, nF)" by fastforce
  let ?A = "decimal_expand malloc pA nD nF" and ?B = "decimal_expand malloc pB nD nF"
  have fl: "\<not> d_oom pA" "\<not> d_oom pB" "\<not> d_isNull pA" "\<not> d_isNull pB" using assms by (simp_all add: dec_ok_def)
  show ?thesis
  proof (cases "d_oom ?A \<or> d_oom ?B")
    case True
    then have "\<not> (\<forall>n. malloc n)" using expand_oom [of malloc] fl by blast
    with True show ?thesis using w fl by (simp add: decimal_add_def)
  next
    case False
    note b = add_width_ok [OF assms w]
    from False have nA: "\<not> d_oom ?A" and nB: "\<not> d_oom ?B" by auto
    note eA = expand_ok [OF assms(1) b(1,3) nA] and eB = expand_ok [OF assms(2) b(2,4) nB]
    have len: "length (d_a ?A) = length (d_a ?B)" "length (d_a ?A) = Suc (nat (nD - 1))"
      using eA(1) eB(1) b(8) by auto
    have lt: "digits_val (d_a ?A) + digits_val (d_a ?B) < 10 ^ length (d_a ?A)"
      using b(5,6) zero_less_power [of "10 :: int" "nat (nD - 1)"] unfolding eA(6) eB(6) len(2) power_Suc by linarith
    let ?p = "decimal_add_digits ?A ?B"
    have ok: "digits_ok (d_a ?A)" "digits_ok (d_a ?B)" using eA(4) eB(4) by auto
    note s = add_digits_ok [OF len(1) ok lt]
    have fr: "d_nFrac ?p = nF" "\<not> d_oom ?p" "\<not> d_isNull ?p"
      using eA(2,5) nA by (auto simp: decimal_add_digits_def)
    have sA: "sig_val ?A = sig_val pA * 10 ^ nat (nF - d_nFrac pA)" "sig_val ?B = sig_val pB * 10 ^ nat (nF - d_nFrac pB)"
      using eA(3,6) eB(3,6) by (auto simp: sig_val_def)
    have "dec_val ?p = of_int (sig_val ?A) / 10 ^ nat nF + of_int (sig_val ?B) / 10 ^ nat nF"
      by (simp add: dec_val_sig fr s(1) add_divide_distrib)
    also have "\<dots> = dec_val pA + dec_val pB"
      unfolding sA dec_val_sig using frac_shift b(1,2) assms by (simp add: dec_ok_def)
    finally have val: "dec_val ?p = dec_val pA + dec_val pB" .
    have "nF \<le> nD" using b(3) assms(1) by (simp add: dec_ok_def)
    then have "dec_ok ?p" using s(2,3) eA(1) fr b(7) by (simp add: dec_ok_def)
    with val show ?thesis using False w fl fr by (simp add: decimal_add_def)
  qed
qed

section \<open>Multiplication is correct\<close>

lemma digits_val_update:
  "k < length a \<Longrightarrow> digits_val (a[k := v]) = digits_val a + (v - a ! k) * 10 ^ (length a - 1 - k)"
proof (induction a arbitrary: k)
  case (Cons d a)
  then show ?case by (cases k) (simp_all add: algebra_simps)
qed simp

lemma digits_ok_update: "digits_ok a \<Longrightarrow> 0 \<le> v \<Longrightarrow> v \<le> 9 \<Longrightarrow> digits_ok (a[k := v])"
  unfolding digits_ok_def list_all_iff using set_update_subset_insert [of a k v] by auto

lemma digits_ok_nth: "digits_ok a \<Longrightarrow> k < length a \<Longrightarrow> 0 \<le> a ! k \<and> a ! k \<le> 9"
  by (simp add: digits_ok_def list_all_length)

lemma mul_inner_ok:
  assumes "digits_ok acc" and "digits_ok rb" and "0 \<le> f" and "f \<le> 9" and "0 \<le> carry" and "carry \<le> 9"
    and "length rb \<le> k" and "k < length acc" and "mul_inner acc f rb k carry = (acc', k', carry')"
  shows "digits_ok acc' \<and> length acc' = length acc \<and> k' = k - length rb \<and> 0 \<le> carry' \<and> carry' \<le> 9 \<and>
    (\<forall>j \<le> k'. acc' ! j = acc ! j) \<and>
    digits_val acc' + carry' * 10 ^ (length acc - 1 - k') =
      digits_val acc + (f * digits_val (rev rb) + carry) * 10 ^ (length acc - 1 - k)"
  using assms
proof (induction rb arbitrary: acc k carry)
  case Nil
  then show ?case by simp
next
  case (Cons y rb)
  let ?x = "acc ! k + f * y + carry"
  let ?acc = "acc[k := ?x mod 10]"
  have d: "0 \<le> acc ! k" "acc ! k \<le> 9" using digits_ok_nth Cons.prems by auto
  have fy: "0 \<le> f * y" "f * y \<le> 81"
    using Cons.prems mult_mono [of f 9 y 9] by auto
  have x99: "0 \<le> ?x" "?x \<le> 99" using d fy Cons.prems(5,6) by linarith+
  have c: "0 \<le> ?x div 10" "?x div 10 \<le> 9"
    using x99 zdiv_mono1 [of ?x 99 10] by (simp_all add: pos_imp_zdiv_nonneg_iff)
  have m: "mul_inner ?acc f rb (k - 1) (?x div 10) = (acc', k', carry')"
    using Cons.prems by (simp add: Let_def)
  have p: "digits_ok ?acc" "digits_ok rb" "length rb \<le> k - 1" "k - 1 < length ?acc"
    using Cons.prems by (auto intro: digits_ok_update)
  note IH0 = Cons.IH [OF p(1,2) Cons.prems(3,4) c p(3,4) m, unfolded length_list_update]
  then have IH: "digits_ok acc'" "length acc' = length acc" "k' = k - 1 - length rb" "0 \<le> carry'" "carry' \<le> 9"
      "\<forall>j \<le> k'. acc' ! j = ?acc ! j"
    and v: "digits_val acc' + carry' * 10 ^ (length acc - 1 - k') =
      digits_val ?acc + (f * digits_val (rev rb) + ?x div 10) * 10 ^ (length acc - 1 - (k - 1))"
    by blast+
  have e: "length acc - 1 - (k - 1) = Suc (length acc - 1 - k)" using Cons.prems by simp
  have x: "?x mod 10 - acc ! k + 10 * (?x div 10) = f * y + carry"
    using mod_mult_div_eq [of ?x 10] by linarith
  have "digits_val ?acc = digits_val acc + (?x mod 10 - acc ! k) * 10 ^ (length acc - 1 - k)"
    using Cons.prems by (simp add: digits_val_update)
  then have "digits_val acc' + carry' * 10 ^ (length acc - 1 - k') =
      digits_val acc + (f * (10 * digits_val (rev rb)) + (?x mod 10 - acc ! k + 10 * (?x div 10))) * 10 ^ (length acc - 1 - k)"
    unfolding v e by (simp only: power_Suc) (simp only: algebra_simps)
  then have "digits_val acc' + carry' * 10 ^ (length acc - 1 - k') =
      digits_val acc + (f * digits_val (rev (y # rb)) + carry) * 10 ^ (length acc - 1 - k)"
    unfolding x by (simp add: algebra_simps)
  moreover have "\<forall>j \<le> k'. acc' ! j = acc ! j" using IH(3,6) Cons.prems(7) by auto
  ultimately show ?case using IH by auto
qed

lemma mul_row_ok:
  assumes "digits_ok acc" and "digits_ok b" and "0 \<le> f" and "f \<le> 9" and "i + length b + 2 < length acc"
    and "\<forall>j \<le> i + 1. acc ! j = 0"
  shows "digits_ok (mul_row acc i f b) \<and> length (mul_row acc i f b) = length acc \<and>
    (\<forall>j \<le> i. mul_row acc i f b ! j = 0) \<and>
    digits_val (mul_row acc i f b) = digits_val acc + f * digits_val b * 10 ^ (length acc - 1 - (i + length b + 2))"
proof -
  obtain acc1 k c where m: "mul_inner acc f (rev b) (i + length b + 2) 0 = (acc1, k, c)"
    by (cases "mul_inner acc f (rev b) (i + length b + 2) 0") auto
  have i: "digits_ok acc1" "length acc1 = length acc" "k = i + 2" "0 \<le> c" "c \<le> 9" "\<forall>j \<le> k. acc1 ! j = acc ! j"
    and v: "digits_val acc1 + c * 10 ^ (length acc - 1 - k) =
      digits_val acc + f * digits_val b * 10 ^ (length acc - 1 - (i + length b + 2))"
    using mul_inner_ok [OF assms(1) _ assms(3,4) _ _ _ assms(5) m] assms(2) by auto
  let ?x = "acc1 ! k + c"
  let ?acc2 = "acc1[k := ?x mod 10]"
  have kl: "k < length acc1" "k - 1 < length acc1" "k - 1 = i + 1" using assms(5) i(2,3) by auto
  have d: "0 \<le> ?x" "?x \<le> 18" using digits_ok_nth [OF i(1) kl(1)] i(4,5) by auto
  have z: "?acc2 ! (k - 1) = 0" using i(3,6) assms(6) kl by simp
  have row: "mul_row acc i f b = ?acc2[k - 1 := ?x div 10]"
    using m z by (simp add: mul_row_def Let_def)
  have ok: "digits_ok (mul_row acc i f b)"
    unfolding row using d i(1) by (intro digits_ok_update) auto
  have zs: "\<forall>j \<le> i. mul_row acc i f b ! j = 0" unfolding row using i(3,6) assms(6) by auto
  have e: "length acc - 1 - (k - 1) = Suc (length acc - 1 - k)" using kl i(2,3) by simp
  have "digits_val (mul_row acc i f b) = digits_val ?acc2 + (?x div 10 - ?acc2 ! (k - 1)) * 10 ^ (length ?acc2 - 1 - (k - 1))"
    unfolding row using kl(2) by (intro digits_val_update) simp
  also have "\<dots> = digits_val ?acc2 + (10 * (?x div 10)) * 10 ^ (length acc - 1 - k)"
    unfolding z length_list_update i(2) e by simp
  also have "digits_val ?acc2 = digits_val acc1 + (?x mod 10 - acc1 ! k) * 10 ^ (length acc - 1 - k)"
    using kl(1) i(2) by (simp add: digits_val_update)
  finally have "digits_val (mul_row acc i f b) =
      digits_val acc1 + (?x mod 10 - acc1 ! k + 10 * (?x div 10)) * 10 ^ (length acc - 1 - k)"
    by (simp only: distrib_right add.assoc)
  also have "?x mod 10 - acc1 ! k + 10 * (?x div 10) = c"
    using mod_mult_div_eq [of ?x 10] by linarith
  finally have "digits_val (mul_row acc i f b) =
      digits_val acc + f * digits_val b * 10 ^ (length acc - 1 - (i + length b + 2))"
    using v by simp
  with ok zs show ?thesis using i(2) by (simp add: row)
qed

lemma mul_rows_ok:
  assumes "digits_ok a" and "digits_ok b" and "digits_ok acc" and "length acc = length a + length b + 2"
    and "n \<le> length a" and "\<forall>j \<le> n. acc ! j = 0"
  shows "digits_ok (mul_rows acc n a b) \<and> length (mul_rows acc n a b) = length acc \<and>
    digits_val (mul_rows acc n a b) =
      digits_val acc + digits_val (take n a) * 10 ^ (length a - n) * digits_val b"
  using assms(3-6)
proof (induction n arbitrary: acc)
  case (Suc i)
  let ?acc = "mul_row acc i (a ! i) b"
  have ai: "0 \<le> a ! i" "a ! i \<le> 9" using digits_ok_nth [OF assms(1)] Suc.prems by auto
  have r: "digits_ok ?acc" "length ?acc = length acc" "\<forall>j \<le> i. ?acc ! j = 0"
    "digits_val ?acc = digits_val acc + a ! i * digits_val b * 10 ^ (length acc - 1 - (i + length b + 2))"
    using mul_row_ok [OF Suc.prems(1) assms(2) ai, of i] Suc.prems by auto
  have IH: "digits_ok (mul_rows ?acc i a b)" "length (mul_rows ?acc i a b) = length acc"
    "digits_val (mul_rows ?acc i a b) = digits_val ?acc + digits_val (take i a) * 10 ^ (length a - i) * digits_val b"
    using Suc.IH [OF r(1)] r(2,3) Suc.prems by auto
  have e: "length acc - 1 - (i + length b + 2) = length a - Suc i" "length a - i = Suc (length a - Suc i)"
    using Suc.prems by auto
  have t: "take (Suc i) a = take i a @ [a ! i]" using Suc.prems by (simp add: take_Suc_conv_app_nth)
  show ?case using IH r(4) unfolding mul_rows.simps e t by (simp add: algebra_simps)
qed simp

lemma mul_trim_ok:
  assumes "mul_trim ra nF minF = (ra', nF')" and "digits_ok ra" and "0 \<le> minF" and "minF \<le> nF" and "nF \<le> int (length ra)"
  shows "digits_ok ra' \<and> minF \<le> nF' \<and> nF' \<le> nF \<and> int (length ra') = int (length ra) - (nF - nF') \<and>
    digits_val (rev ra) = digits_val (rev ra') * 10 ^ nat (nF - nF')"
  using assms
proof (induction ra nF minF rule: mul_trim.induct)
  case (2 d ra nF minF)
  show ?case
  proof (cases "nF > minF \<and> d = 0")
    case True
    then have IH: "digits_ok ra'" "minF \<le> nF'" "nF' \<le> nF - 1" "int (length ra') = int (length ra) - (nF - 1 - nF')"
      "digits_val (rev ra) = digits_val (rev ra') * 10 ^ nat (nF - 1 - nF')"
      using 2 by auto
    have "nat (nF - nF') = Suc (nat (nF - 1 - nF'))" using IH(3) by simp
    with IH True show ?thesis by simp
  qed (use 2 in auto)
qed auto

lemma decimalMul_ok:
  assumes "dec_ok pA" and "dec_ok pB"
  shows "\<exists>p. decimalMul malloc (Some pA) (Some pB) = Some p \<and>
    (d_oom p \<or> (dec_ok p \<and> dec_val p = dec_val pA * dec_val pB)) \<and> ((\<forall>n. malloc n) \<longrightarrow> \<not> d_oom p)"
proof (cases "malloc (nDigit pA + nDigit pB + 2)")
  case False
  then show ?thesis using assms by (auto simp: decimalMul_def dec_ok_def)
next
  case True
  let ?a = "d_a pA" and ?b = "d_a pB"
  let ?z = "replicate (length ?a + length ?b + 2) (0 :: int)"
  let ?acc = "mul_rows ?z (length ?a) ?a ?b"
  let ?nF = "d_nFrac pA + d_nFrac pB" and ?min = "if d_nFrac pB < d_nFrac pA then d_nFrac pB else d_nFrac pA"
  note a = assms(1) [unfolded dec_ok_def] and b = assms(2) [unfolded dec_ok_def]
  have acc: "digits_ok ?acc" "length ?acc = length ?a + length ?b + 2" "digits_val ?acc = digits_val ?a * digits_val ?b"
    using mul_rows_ok [of ?a ?b ?z "length ?a"] a b by (auto simp: nth_append simp del: replicate_Suc)
  obtain ra nF' where t: "mul_trim (rev ?acc) ?nF ?min = (ra, nF')" by fastforce
  have tr: "digits_ok ra" "?min \<le> nF'" "nF' \<le> ?nF" "int (length ra) = int (length ?acc) - (?nF - nF')"
    "digits_val ?acc = digits_val (rev ra) * 10 ^ nat (?nF - nF')"
    using mul_trim_ok [OF t] acc(1,2) a b by (auto split: if_splits)
  let ?p = "pA\<lparr>d_a := rev ra, d_nFrac := nF', d_sign := (d_sign pA \<noteq> d_sign pB)\<rparr>"
  have r: "decimalMul malloc (Some pA) (Some pB) = Some ?p"
    using True t a b by (simp add: decimalMul_def Let_def del: replicate_Suc mul_rows.simps)
  have n0: "0 \<le> nF'" using tr(2) a b by (auto split: if_splits)
  have ok: "dec_ok ?p" using tr n0 a b acc(2) by (simp add: dec_ok_def)
  have "dec_val ?p = of_int (sig_val ?p * 10 ^ nat (?nF - nF')) / 10 ^ nat ?nF"
    using frac_shift [OF n0 tr(3), of "sig_val ?p"] by (simp add: dec_val_sig)
  also have "sig_val ?p * 10 ^ nat (?nF - nF') = sig_val pA * sig_val pB"
    using tr(5) acc(3) by (auto simp: sig_val_def)
  also have "(of_int (sig_val pA * sig_val pB) :: rat) / 10 ^ nat ?nF = dec_val pA * dec_val pB"
    using a b by (simp add: dec_val_sig nat_add_distrib power_add)
  finally show ?thesis using r ok a by simp
qed

section \<open>Parsing is correct\<close>

lemma digit_byte_facts:
  assumes "0 \<le> d" and "d \<le> 9"
  shows "is_dec_digit (digit_byte d)" "dec_digit (digit_byte d) = d" "digit_byte d = 48 \<longleftrightarrow> d = 0"
    "\<not> c_isspace (digit_byte d)" "digit_byte d \<noteq> 45" "digit_byte d \<noteq> 43"
proof -
  have u: "uint (digit_byte d) = d + 48"
    unfolding digit_byte_def uint_word_of_int using assms by simp
  then show "is_dec_digit (digit_byte d)" "dec_digit (digit_byte d) = d" "digit_byte d = 48 \<longleftrightarrow> d = 0"
    "\<not> c_isspace (digit_byte d)" "digit_byte d \<noteq> 45" "digit_byte d \<noteq> 43"
    using assms by (auto simp: is_dec_digit_def dec_digit_def c_isspace_def word_le_def word_uint_eq_iff)
qed

abbreviation digit_text :: "int list \<Rightarrow> byte list" where
  "digit_text ds \<equiv> map digit_byte ds"

lemma dec_scan_digits: "digits_ok ds \<Longrightarrow> dec_scan (digit_text ds @ z) a mark = dec_scan z (a @ ds) mark"
  by (induction ds arbitrary: a) (simp_all add: digit_byte_facts)

lemma drop_zeros_text:
  assumes "digits_ok ds" and "rd z \<noteq> 48"
  shows "dropWhile (\<lambda>c. c = 48) (digit_text ds @ z) = digit_text (dropWhile (\<lambda>d. d = 0) ds) @ z"
  using assms
proof (induction ds)
  case Nil
  then show ?case by (cases z) simp_all
qed (simp add: digit_byte_facts)

lemma drop_zeros_val: "digits_val (dropWhile (\<lambda>d. d = 0) ds) = digits_val ds"
  by (induction ds) simp_all

lemma drop_zeros_ok: "digits_ok ds \<Longrightarrow> digits_ok (dropWhile (\<lambda>d. d = 0) ds)"
  by (induction ds) simp_all

text \<open>The exponent keeps the value: \<open>a / 10^nFrac\<close> becomes \<open>a * 10^iExp / 10^nFrac\<close>.\<close>

lemma shift_right_ok:
  assumes "digits_ok a" and "0 \<le> nFrac" and "nFrac \<le> int (length a)" and "0 < e" and "\<forall>n. malloc n"
  shows "\<exists>a' nF. dec_shift_right malloc a nFrac e = Some (a', nF) \<and> digits_ok a' \<and> 0 \<le> nF \<and> nF \<le> int (length a') \<and>
    (of_int (digits_val a') :: rat) / 10 ^ nat nF = of_int (digits_val a) / 10 ^ nat nFrac * 10 ^ nat e"
proof (cases "e \<le> nFrac")
  case True
  then have "dec_shift_right malloc a nFrac e = Some (a, nFrac - e)" using assms by (simp add: dec_shift_right_def)
  moreover have "nat nFrac = nat (nFrac - e) + nat e" using True assms by simp
  then have "(10 :: rat) ^ nat nFrac = 10 ^ nat (nFrac - e) * 10 ^ nat e" by (simp only: power_add)
  ultimately show ?thesis using assms True by simp
next
  case False
  have r: "dec_shift_right malloc a nFrac e = Some (a @ replicate (nat (e - nFrac)) 0, 0)"
    using assms False by (auto simp: dec_shift_right_def)
  have "nat e = nat (e - nFrac) + nat nFrac" using False assms by simp
  then have "(10 :: rat) ^ nat e = 10 ^ nat (e - nFrac) * 10 ^ nat nFrac" by (simp only: power_add)
  then show ?thesis using r assms by simp
qed

lemma shift_left_ok:
  assumes "digits_ok a" and "0 \<le> nFrac" and "nFrac \<le> int (length a)" and "0 < e" and "\<forall>n. malloc n"
  shows "\<exists>a' nF. dec_shift_left malloc a nFrac e = Some (a', nF) \<and> digits_ok a' \<and> 0 \<le> nF \<and> nF \<le> int (length a') \<and>
    (of_int (digits_val a') :: rat) / 10 ^ nat nF = of_int (digits_val a) / 10 ^ nat nFrac / 10 ^ nat e"
proof -
  let ?x = "int (length a) - nFrac - 1"
  have p: "(10 :: rat) ^ nat (nFrac + e) = 10 ^ nat nFrac * 10 ^ nat e"
    using assms(2,4) by (simp add: nat_add_distrib power_add)
  show ?thesis
  proof (cases "?x \<noteq> 0 \<and> ?x \<ge> e")
    case True
    then have "dec_shift_left malloc a nFrac e = Some (a, nFrac + e)" using assms by (simp add: dec_shift_left_def)
    then show ?thesis using assms True p by simp
  next
    case False
    then have pos: "0 < e - ?x" using assms(4) by auto
    have r: "dec_shift_left malloc a nFrac e = Some (replicate (nat (e - ?x)) 0 @ a, nFrac + e)"
      using assms False pos by (cases "?x = 0") (auto simp: dec_shift_left_def Let_def)
    then show ?thesis using assms p pos by simp
  qed
qed

text \<open>The decimal literals: a sign, an integer part, a fraction and an exponent, and the numbers they denote.\<close>

definition exp_text :: "(byte list \<times> int list) option \<Rightarrow> byte list" where
  "exp_text ex = (case ex of None \<Rightarrow> [] | Some (es, ed) \<Rightarrow> 101 # es @ digit_text ed)"

definition exp_val :: "(byte list \<times> int list) option \<Rightarrow> int" where
  "exp_val ex = (case ex of None \<Rightarrow> 0 | Some (es, ed) \<Rightarrow> if es = [45] then - digits_val ed else digits_val ed)"

definition sign_text :: "byte list \<Rightarrow> bool" where
  "sign_text s \<longleftrightarrow> s = [] \<or> s = [43] \<or> s = [45]"

definition exp_ok :: "(byte list \<times> int list) option \<Rightarrow> bool" where
  "exp_ok ex = (case ex of None \<Rightarrow> True | Some (es, ed) \<Rightarrow> sign_text es \<and> digits_ok ed \<and> digits_val ed < 1000000)"

definition dec_literal :: "byte list \<Rightarrow> int list \<Rightarrow> int list \<Rightarrow> (byte list \<times> int list) option \<Rightarrow> byte list" where
  "dec_literal sg ip fp ex = sg @ digit_text ip @ (if fp = [] then [] else 46 # digit_text fp) @ exp_text ex"

definition literal_val :: "byte list \<Rightarrow> int list \<Rightarrow> int list \<Rightarrow> (byte list \<times> int list) option \<Rightarrow> rat" where
  "literal_val sg ip fp ex =
     (if sg = [45] then - 1 else 1) * of_int (digits_val (ip @ fp)) / 10 ^ length fp * 10 powi exp_val ex"

lemma dec_exponent_digits:
  "digits_ok ed \<Longrightarrow> 0 \<le> i \<Longrightarrow> i * 10 ^ length ed + digits_val ed < 1000000 \<Longrightarrow>
    dec_exponent (digit_text ed) i = i * 10 ^ length ed + digits_val ed"
proof (induction ed arbitrary: i)
  case (Cons d ed)
  have "0 \<le> digits_val (d # ed)" using digits_val_bounds [OF Cons.prems(1)] by simp
  moreover have "i \<le> i * 10 ^ length (d # ed)" using Cons.prems(2) mult_left_mono [of 1 "10 ^ length (d # ed)" i] one_le_power [of "10 :: int" "length (d # ed)"] by simp
  ultimately have lt: "i < 1000000" using Cons.prems(3) by linarith
  have "dec_exponent (digit_text ed) (i * 10 + d) = (i * 10 + d) * 10 ^ length ed + digits_val ed"
    using Cons.prems by (intro Cons.IH) (auto simp: algebra_simps)
  then show ?case using lt Cons.prems(1) by (simp add: digit_byte_facts algebra_simps)
qed simp

lemma scan_exponent: "exp_ok ex \<Longrightarrow> dec_scan (exp_text ex) a mark = (a, mark, exp_val ex)"
proof (cases ex)
  case (Some e)
  obtain es ed where e: "e = (es, ed)" by fastforce
  assume "exp_ok ex"
  then have s: "sign_text es" and d: "digits_ok ed" "digits_val ed < 1000000" by (simp_all add: Some e exp_ok_def)
  have v: "dec_exponent (digit_text ed) 0 = digits_val ed" using dec_exponent_digits [OF d(1), of 0] d(2) by simp
  have "dec_signed_exponent (es @ digit_text ed) = exp_val ex"
  proof (cases "es = []")
    case True
    then show ?thesis using v d(1)
      by (cases ed) (auto simp: dec_signed_exponent_def exp_val_def Some e digit_byte_facts simp del: dec_exponent.simps(2))
  next
    case False
    then show ?thesis using v s by (auto simp: dec_signed_exponent_def exp_val_def Some e sign_text_def)
  qed
  then show ?thesis by (simp add: exp_text_def Some e is_dec_digit_def)
qed (simp add: exp_text_def exp_val_def)

lemma skip_sign_literal:
  assumes "sign_text sg" and "digits_ok ip"
  shows "dec_skip_sign (dropWhile c_isspace (dec_literal sg ip fp ex)) = (sg = [45], dec_literal [] ip fp ex)"
proof -
  let ?t = "dec_literal [] ip fp ex"
  have r: "?t = [] \<or> (\<not> c_isspace (rd ?t) \<and> rd ?t \<noteq> 45 \<and> rd ?t \<noteq> 43)"
  proof (cases ip)
    case Nil
    then show ?thesis by (cases ex) (auto simp: dec_literal_def exp_text_def c_isspace_def)
  next
    case (Cons d ds)
    then show ?thesis using assms(2) by (simp add: dec_literal_def digit_byte_facts)
  qed
  then have t: "dropWhile c_isspace ?t = ?t" "rd ?t \<noteq> 45" "rd ?t \<noteq> 43"
    by (cases ?t; simp)+
  have "dec_literal sg ip fp ex = sg @ ?t" by (simp add: dec_literal_def)
  then show ?thesis using assms(1) t
    by (auto simp: sign_text_def dec_skip_sign_def c_isspace_def)
qed

lemma scan_literal:
  assumes "digits_ok ip" and "digits_ok fp" and "exp_ok ex"
  shows "dec_scan (dropWhile (\<lambda>c. c = 48) (dec_literal [] ip fp ex)) [] 0 =
    (dropWhile (\<lambda>d. d = 0) ip @ fp, if fp = [] then 0 else int (length (dropWhile (\<lambda>d. d = 0) ip)) + 1, exp_val ex)"
proof -
  let ?rest = "(if fp = [] then [] else 46 # digit_text fp) @ exp_text ex"
  have "rd ?rest \<noteq> 48" by (cases ex) (auto simp: exp_text_def)
  then have "dropWhile (\<lambda>c. c = 48) (dec_literal [] ip fp ex) = digit_text (dropWhile (\<lambda>d. d = 0) ip) @ ?rest"
    using drop_zeros_text [OF assms(1)] by (simp only: dec_literal_def append.left_neutral append.assoc)
  then show ?thesis using assms
    by (simp add: dec_scan_digits drop_zeros_ok scan_exponent is_dec_digit_def)
qed

lemma parse_literal:
  assumes "\<forall>n. malloc n" and "sign_text sg" and "digits_ok ip" and "digits_ok fp" and "exp_ok ex"
  shows "\<exists>p. decimalNewFromText malloc (dec_literal sg ip fp ex) = Some p \<and> dec_ok p \<and> dec_val p = literal_val sg ip fp ex"
proof -
  let ?a = "dropWhile (\<lambda>d. d = 0) ip @ fp" and ?f = "int (length fp)" and ?e = "exp_val ex"
  let ?sh = "if ?e > 0 then dec_shift_right malloc ?a ?f ?e else if ?e < 0 then dec_shift_left malloc ?a ?f (- ?e) else Some (?a, ?f)"
  have a: "digits_ok ?a" "0 \<le> ?f" "?f \<le> int (length ?a)" using assms by (auto simp: drop_zeros_ok)
  have pw: "(10 :: rat) powi ?e = (if ?e > 0 then 10 ^ nat ?e else if ?e < 0 then 1 / 10 ^ nat (- ?e) else 1)"
    by (simp add: power_int_def power_one_over)
  have "\<exists>a' nF. ?sh = Some (a', nF) \<and> digits_ok a' \<and> 0 \<le> nF \<and> nF \<le> int (length a') \<and>
      (of_int (digits_val a') :: rat) / 10 ^ nat nF = of_int (digits_val ?a) / 10 ^ length fp * 10 powi ?e"
    using shift_right_ok [OF a, of ?e malloc] shift_left_ok [OF a, of "- ?e" malloc] a assms(1) unfolding pw by auto
  then obtain a' nF where sh: "?sh = Some (a', nF)" and ok: "digits_ok a'" "0 \<le> nF" "nF \<le> int (length a')"
    and v: "(of_int (digits_val a') :: rat) / 10 ^ nat nF = of_int (digits_val ?a) / 10 ^ length fp * 10 powi ?e"
    by blast
  let ?p = "\<lparr>d_sign = (sg = [45]), d_oom = False, d_isNull = False, d_isInit = True, d_nFrac = nF, d_a = a'\<rparr>"
  have m: "(if (if fp = [] then 0 else int (length (dropWhile (\<lambda>d. d = 0) ip)) + 1) \<noteq> 0
       then int (length ?a) - ((if fp = [] then 0 else int (length (dropWhile (\<lambda>d. d = 0) ip)) + 1) - 1)
       else (if fp = [] then 0 else int (length (dropWhile (\<lambda>d. d = 0) ip)) + 1)) = ?f" by auto
  have "decimalNewFromText malloc (dec_literal sg ip fp ex) = Some ?p"
    unfolding decimalNewFromText_def skip_sign_literal [OF assms(2,3)] Let_def case_prod_conv
      scan_literal [OF assms(3-5)] m sh
    using assms(1) by simp
  moreover have "dec_ok ?p" using ok by (simp add: dec_ok_def)
  moreover have "dec_val ?p = (if sg = [45] then - 1 else 1) * ((of_int (digits_val a') :: rat) / 10 ^ nat nF)"
    by (simp add: dec_val_def)
  then have "dec_val ?p = literal_val sg ip fp ex"
    unfolding v by (simp add: literal_val_def drop_zeros_val)
  ultimately show ?thesis by blast
qed

section \<open>Printing is correct\<close>

lemma dec_trim_ok:
  "dec_trim n a = (n1, a1) \<Longrightarrow> digits_ok a \<Longrightarrow> 0 \<le> n \<Longrightarrow> n \<le> int (length a) \<Longrightarrow>
    digits_ok a1 \<and> digits_val a1 = digits_val a \<and> 0 \<le> n1 \<and> n1 \<le> int (length a1) \<and>
    int (length a1) - n1 = int (length a) - n \<and> (n = 0 \<longrightarrow> n1 = 0)"
  by (induction n a rule: dec_trim.induct) (auto split: if_splits)

lemma digits_ok_take_drop: "digits_ok a \<Longrightarrow> digits_ok (take n a) \<and> digits_ok (drop n a)"
  unfolding digits_ok_def list_all_iff using set_take_subset set_drop_subset by fastforce

lemma print_literal:
  assumes "dec_ok p"
  shows "\<exists>sg ip fp. decimal_text p = dec_literal sg ip fp None \<and> sign_text sg \<and> digits_ok ip \<and> digits_ok fp \<and>
    literal_val sg ip fp None = dec_val p"
proof -
  let ?n = "nDigit p - d_nFrac p"
  note ok = assms [unfolded dec_ok_def]
  obtain n1 a1 where t: "dec_trim ?n (d_a p) = (n1, a1)" by fastforce
  have a1: "digits_ok a1" "digits_val a1 = digits_val (d_a p)" "0 \<le> n1" "n1 \<le> int (length a1)"
    "int (length a1) - n1 = d_nFrac p" "?n = 0 \<Longrightarrow> n1 = 0"
    using dec_trim_ok [OF t] ok by auto
  let ?z = "nDigit p = 0 \<or> (nDigit p = 1 \<and> hd (d_a p) = 0)"
  let ?sg = "if d_sign p \<and> \<not> ?z then [45] else [] :: byte list"
  let ?ip = "(if ?n \<le> 0 then [0] else []) @ take (nat n1) a1" and ?fp = "drop (nat n1) a1"
  have fl: "int (length ?fp) = d_nFrac p" using a1 by simp
  then have f0: "d_nFrac p = 0 \<longleftrightarrow> ?fp = []" unfolding fl [symmetric] by (simp only: of_nat_eq_0_iff length_0_conv)
  have tx: "decimal_text p = dec_literal ?sg ?ip ?fp None"
    unfolding decimal_text_def Let_def t case_prod_conv f0
    by (simp add: dec_literal_def exp_text_def digit_byte_def)
  have zero: "?z \<Longrightarrow> digits_val (d_a p) = 0" by (cases "d_a p") auto
  have "digits_val (?ip @ ?fp) = digits_val (take (nat n1) a1 @ drop (nat n1) a1)"
    by (simp del: append_take_drop_id)
  then have "digits_val (?ip @ ?fp) = digits_val (d_a p)" using a1(2) by simp
  moreover have "length ?fp = nat (d_nFrac p)" using fl by simp
  ultimately have "literal_val ?sg ?ip ?fp None = dec_val p"
    unfolding literal_val_def dec_val_def using zero by (auto simp: exp_val_def)
  moreover have "digits_ok ?ip" "digits_ok ?fp" using digits_ok_take_drop [OF a1(1)] by auto
  moreover have "sign_text ?sg" by (simp add: sign_text_def)
  ultimately show ?thesis using tx by blast
qed

lemma show_nat_literal: "\<exists>ds. bytes_of (show_nat n) = digit_text ds \<and> digits_ok ds \<and> digits_val ds = int n"
proof (induction n rule: show_nat.induct)
  case (1 n)
  have d: "of_char (digit_char k) = digit_byte (int k)" if "k < 10" for k
  proof -
    have "(of_char (digit_char k) :: nat) = 48 + k" unfolding digit_char_def using that by simp
    then have "(of_char (digit_char k) :: byte) = of_nat (48 + k)" by (metis of_nat_of_char)
    then show ?thesis by (simp add: digit_byte_def)
  qed
  show ?case
  proof (cases "n < 10")
    case True
    then show ?thesis
      by (intro exI [of _ "[int n]"]) (simp add: show_nat.simps [of n] bytes_of_def d)
  next
    case False
    with 1 obtain ds where "bytes_of (show_nat (n div 10)) = digit_text ds" "digits_ok ds" "digits_val ds = int (n div 10)"
      by blast
    with False show ?thesis
      by (intro exI [of _ "ds @ [int (n mod 10)]"])
        (simp add: show_nat.simps [of n] bytes_of_def d zdiv_int zmod_int)
  qed
qed

lemma parse_integer:
  assumes "\<forall>n. malloc n"
  shows "\<exists>p. decimalNewFromText malloc (bytes_of (show_int i)) = Some p \<and> dec_ok p \<and> dec_val p = of_int i"
proof -
  obtain ds where ds: "bytes_of (show_nat (nat \<bar>i\<bar>)) = digit_text ds" "digits_ok ds" "digits_val ds = \<bar>i\<bar>"
    using show_nat_literal [of "nat \<bar>i\<bar>"] by auto
  let ?sg = "if i < 0 then [45] else [] :: byte list"
  have "bytes_of (show_int i) = dec_literal ?sg ds [] None"
    using ds(1) by (auto simp: show_int_def dec_literal_def exp_text_def bytes_of_def)
  moreover have "literal_val ?sg ds [] None = of_int i" using ds(3) by (simp add: literal_val_def exp_val_def)
  ultimately show ?thesis using parse_literal [OF assms, of ?sg ds "[]" None] ds(2)
    by (simp add: sign_text_def exp_ok_def)
qed

section \<open>Powers of two and doubles are exact\<close>

lemma pow2_loop_ok:
  assumes "\<forall>n. malloc n" and "dec_ok pA" and "dec_ok pX"
  shows "\<exists>p. pow2_loop malloc N pA pX = Some p \<and> dec_ok p \<and> dec_val p = dec_val pA * dec_val pX ^ N"
  using assms(2,3)
proof (induction N arbitrary: pA pX rule: less_induct)
  case (less N)
  define pA1 where "pA1 = (if odd N then the (decimalMul malloc (Some pA) (Some pX)) else pA)"
  have A1: "dec_ok pA1" "dec_val pA1 = dec_val pA * dec_val pX ^ (N mod 2)"
    using decimalMul_ok [OF less.prems, of malloc] assms(1) less.prems
    by (auto simp: pA1_def mod2_eq_if)
  have step: "pow2_loop malloc N pA pX =
      (if N div 2 = 0 then Some pA1 else pow2_loop malloc (N div 2) pA1 (the (decimalMul malloc (Some pX) (Some pX))))"
    using A1(1) by (subst pow2_loop.simps) (simp add: pA1_def [symmetric] Let_def dec_ok_def)
  show ?case
  proof (cases "N div 2 = 0")
    case True
    then have "N mod 2 = N" by (simp add: div_eq_0_iff)
    then show ?thesis using A1 step True by simp
  next
    case False
    obtain pX2 where X2: "decimalMul malloc (Some pX) (Some pX) = Some pX2" "dec_ok pX2" "dec_val pX2 = (dec_val pX)\<^sup>2"
      using decimalMul_ok [OF less.prems(2,2), of malloc] assms(1) by (auto simp: power2_eq_square)
    have "N div 2 < N" using False by auto
    from less.IH [OF this A1(1) X2(2)] obtain p where
      p: "pow2_loop malloc (N div 2) pA1 pX2 = Some p" "dec_ok p" "dec_val p = dec_val pA1 * dec_val pX2 ^ (N div 2)"
      by blast
    have "dec_val p = dec_val pA * dec_val pX ^ (N mod 2 + 2 * (N div 2))"
      unfolding p(3) A1(2) X2(3) by (simp only: power_add power_mult mult.assoc)
    then have "dec_val p = dec_val pA * dec_val pX ^ N" by simp
    then show ?thesis using step False X2(1) p by auto
  qed
qed

lemma parse_two:
  assumes "\<forall>n. malloc n"
  shows "\<exists>p. decimalNewFromText malloc (bytes_of ''1.0'') = Some p \<and> dec_ok p \<and> dec_val p = 1"
    and "\<exists>p. decimalNewFromText malloc (bytes_of ''2.0'') = Some p \<and> dec_ok p \<and> dec_val p = 2"
    and "\<exists>p. decimalNewFromText malloc (bytes_of ''0.5'') = Some p \<and> dec_ok p \<and> dec_val p = 1 / 2"
  using parse_literal [OF assms, of "[]" "[1]" "[0]" None] parse_literal [OF assms, of "[]" "[2]" "[0]" None]
    parse_literal [OF assms, of "[]" "[0]" "[5]" None]
  by (simp_all add: sign_text_def exp_ok_def exp_val_def literal_val_def dec_literal_def exp_text_def bytes_of_def digit_byte_def)

lemma decimalPow2_ok:
  assumes "\<forall>n. malloc n" and "- 20000 \<le> N" and "N \<le> 20000"
  shows "\<exists>p. decimalPow2 malloc N = Some p \<and> dec_ok p \<and> dec_val p = 2 powi N"
proof -
  obtain pA where A: "decimalNewFromText malloc (bytes_of ''1.0'') = Some pA" "dec_ok pA" "dec_val pA = 1"
    using parse_two(1) [OF assms(1)] by blast
  let ?t = "bytes_of (if N > 0 then ''2.0'' else ''0.5'')"
  obtain pX where X: "decimalNewFromText malloc ?t = Some pX" "dec_ok pX" "dec_val pX = (if N > 0 then 2 else 1 / 2)"
    using parse_two(2,3) [OF assms(1)] by (cases "N > 0") auto
  obtain p where p: "pow2_loop malloc (nat \<bar>N\<bar>) pA pX = Some p" "dec_ok p" "dec_val p = dec_val pX ^ nat \<bar>N\<bar>"
    using pow2_loop_ok [OF assms(1) A(2) X(2)] A(3) by auto
  have v: "dec_val p = 2 powi N" using p(3) X(3) by (simp add: power_int_def power_one_over inverse_eq_divide)
  have nn: "\<not> d_oom pA" "\<not> d_oom pX" using A(2) X(2) by (simp_all add: dec_ok_def)
  show ?thesis
  proof (cases "N = 0")
    case True
    then show ?thesis using A nn by (simp add: decimalPow2_def)
  next
    case False
    have "decimalPow2 malloc N = Some p"
      unfolding decimalPow2_def A(1) X(1) option.case using assms(2,3) False nn p(1) by simp
    then show ?thesis using p(2) v by blast
  qed
qed

text \<open>The number a finite double stands for.\<close>

definition f64_val :: "f64 \<Rightarrow> rat" where
  "f64_val r =
     (let m = uint r mod 2 ^ 52; e = uint r mod 2 ^ 63 div 2 ^ 52 in
      (if uint r \<ge> 2 ^ 63 then - 1 else 1) *
      (of_int (if e = 0 then m else m + 2 ^ 52) * 2 powi ((if e = 0 then 1 else e) - 1075)))"

lemma strip_zeros_exponent: "snd (strip_zeros m e) \<le> max e 1075"
proof (induction m e rule: strip_zeros.induct)
  case (1 m e)
  then show ?case by (subst strip_zeros.simps) auto
qed

lemma split_value:
  assumes "f64_finite r" and "r \<noteq> word_of_int (2 ^ 63)" and "ieee754_split r = (m, e)"
  defines "e' \<equiv> if sint (if f64_negative r then f64_neg r else r) = 0 then 0 else e - 1075"
  shows "of_int m * 2 powi e' = f64_val r \<and> e' \<le> 971 \<and> - 20000 \<le> e'"
proof -
  define u where "u = uint r mod 2 ^ 63"
  define neg where "neg = (uint r \<ge> 2 ^ 63)"
  have ur: "uint r = u + (if neg then 2 ^ 63 else 0)" using uint_sign [of r] by (simp add: u_def neg_def)
  then have r: "r = word_of_int (u + (if neg then 2 ^ 63 else 0))" by (metis word_of_int_uint)
  have u: "0 \<le> u" "u < 0x7ff * 2 ^ 52" using assms(1) by (simp_all add: f64_finite_def u_def)
  show ?thesis
  proof (cases "u = 0")
    case True
    with r assms(2) have "r = 0" by (auto split: if_splits)
    moreover from this have "m = 0" using assms(3) split_zero by simp
    ultimately show ?thesis by (simp add: e'_def f64_negative_def f64_val_def)
  next
    case False
    with u have u0: "0 < u" by simp
    have n: "f64_negative r \<longleftrightarrow> neg"
      unfolding f64_negative_def f64_nan_def u_def [symmetric] using u u0 ur by auto
    have "sint (if neg then f64_neg r else r) = u"
      using u neg_pattern [of u] sint_pattern [of u] r by auto
    then have e': "e' = e - 1075" using u0 by (simp add: e'_def n)
    define e0 where "e0 = u div 2 ^ 52"
    define m0 where "m0 = u mod 2 ^ 52"
    define M where "M = (if e0 = 0 then 2 * m0 else m0 + 2 ^ 52)"
    have ud: "u = e0 * 2 ^ 52 + m0" by (simp only: e0_def m0_def div_mult_mod_eq)
    have m0: "0 \<le> m0" "m0 < 2 ^ 52" by (simp_all add: m0_def)
    have e0: "0 \<le> e0" "e0 \<le> 2046" using u ud m0 by simp_all
    have M: "0 < M" using u0 ud m0 by (auto simp: M_def)
    obtain k m' where s: "strip_zeros M e0 = (m', e0 + int k)" "M = m' * 2 ^ k" using strip_zeros_ok [OF M] by blast
    have me: "m = (if neg then - m' else m')" "e = e0 + int k"
      using split_pattern [OF u0 u(2), of neg, folded r e0_def m0_def, folded M_def, unfolded s(1) assms(3)] by simp_all
    have el: "e \<le> 2046" using strip_zeros_exponent [of M e0] s(1) me(2) e0 by simp
    have "(of_int M :: rat) * 2 powi (e0 - 1075) = of_int m' * (2 powi int k * 2 powi (e0 - 1075))"
      unfolding s(2) by (simp add: power_int_of_nat)
    also have "\<dots> = of_int m' * 2 powi (e - 1075)"
    proof -
      have ee: "e - 1075 = int k + (e0 - 1075)" unfolding me(2) by simp
      show ?thesis unfolding ee by (subst power_int_add) simp_all
    qed
    finally have mv: "(of_int m' :: rat) * 2 powi (e - 1075) = of_int M * 2 powi (e0 - 1075)" by simp
    have p2: "(2 :: rat) powi (1 + (e0 - 1075)) = 2 * 2 powi (e0 - 1075)"
      using power_int_add_1' [of "2 :: rat" "e0 - 1075"] by (simp only: add.commute) simp
    have f: "(of_int (if e0 = 0 then m0 else m0 + 2 ^ 52) :: rat) * 2 powi ((if e0 = 0 then 1 else e0) - 1075) =
        of_int M * 2 powi (e0 - 1075)"
    proof (cases "e0 = 0")
      case True
      then have "(if e0 = 0 then 1 else e0) - 1075 = 1 + (e0 - 1075)" by simp
      then show ?thesis unfolding M_def if_P [OF True] by (simp only: p2 of_int_mult of_int_numeral mult_ac)
    qed (simp add: M_def)
    have m0r: "uint r mod 2 ^ 52 = m0"
      unfolding m0_def u_def by (rule mod_mod_cancel [symmetric]) (rule le_imp_power_dvd, simp)
    have "f64_val r = (if neg then - 1 else 1) * (of_int M * 2 powi (e0 - 1075))"
      unfolding f64_val_def Let_def u_def [symmetric] neg_def [symmetric] m0r e0_def [symmetric] f ..
    then show ?thesis unfolding e' using mv me el e0 by (auto simp: me(1))
  qed
qed

lemma decimalFromDouble_ok:
  assumes "\<forall>n. malloc n" and "f64_finite r" and "r \<noteq> word_of_int (2 ^ 63)"
  shows "\<exists>p. decimalFromDouble malloc r = Some p \<and> dec_ok p \<and> dec_val p = f64_val r"
proof -
  obtain m e where s: "ieee754_split r = (m, e)" by fastforce
  define e' where "e' = (if sint (if f64_negative r then f64_neg r else r) = 0 then 0 else e - 1075)"
  have v: "of_int m * 2 powi e' = f64_val r" "e' \<le> 971" "- 20000 \<le> e'"
    using split_value [OF assms(2,3) s] by (simp_all add: e'_def)
  obtain pA where A: "decimalNewFromText malloc (bytes_of (show_int m)) = Some pA" "dec_ok pA" "dec_val pA = of_int m"
    using parse_integer [OF assms(1)] by blast
  obtain pX where X: "decimalPow2 malloc e' = Some pX" "dec_ok pX" "dec_val pX = 2 powi e'"
    using decimalPow2_ok [OF assms(1), of e'] v by auto
  have "decimalFromDouble malloc r = decimalMul malloc (Some pA) (Some pX)"
    using v(2) A(1) X(1) by (simp add: decimalFromDouble_def s e'_def [symmetric])
  then show ?thesis using decimalMul_ok [OF A(2) X(2), of malloc] assms(1) v(1) A(3) X(3) by auto
qed

section \<open>Comparison of normal forms is correct\<close>

text \<open>A decimal in normal form: no leading zero in the integer part, no trailing zero in the fraction, and no
  negative zero.\<close>

definition dec_normal :: "Decimal \<Rightarrow> bool" where
  "dec_normal p \<longleftrightarrow> dec_ok p \<and> (d_nFrac p < nDigit p \<longrightarrow> hd (d_a p) \<noteq> 0) \<and> (d_nFrac p > 0 \<longrightarrow> last (d_a p) \<noteq> 0) \<and>
     (d_sign p \<longrightarrow> digits_val (d_a p) \<noteq> 0)"

definition mag :: "Decimal \<Rightarrow> rat" where
  "mag p = of_int (digits_val (d_a p)) / 10 ^ nat (d_nFrac p)"

lemma mag_lt:
  assumes "dec_ok p"
  shows "mag p < 10 ^ nat (nDigit p - d_nFrac p)"
proof -
  have l: "length (d_a p) = nat (nDigit p - d_nFrac p) + nat (d_nFrac p)" using assms by (auto simp: dec_ok_def)
  have "digits_val (d_a p) < 10 ^ length (d_a p)" using assms digits_val_bounds by (simp add: dec_ok_def)
  then have "(of_int (digits_val (d_a p)) :: rat) < of_int (10 ^ length (d_a p))" by (simp only: of_int_less_iff)
  then have "(of_int (digits_val (d_a p)) :: rat) < 10 ^ nat (nDigit p - d_nFrac p) * 10 ^ nat (d_nFrac p)"
    unfolding of_int_power of_int_numeral by (subst (asm) l) (simp only: power_add)
  then show ?thesis by (simp add: mag_def pos_divide_less_eq)
qed

lemma mag_ge:
  assumes "dec_normal p" and "d_nFrac p < nDigit p"
  shows "10 ^ nat (nDigit p - d_nFrac p - 1) \<le> mag p"
proof -
  obtain d a where a: "d_a p = d # a" using assms by (cases "d_a p") (auto simp: dec_normal_def dec_ok_def)
  have d: "1 \<le> d" "digits_ok a" using assms a by (auto simp: dec_normal_def dec_ok_def)
  have l: "length a = nat (nDigit p - d_nFrac p - 1) + nat (d_nFrac p)"
    using assms a by (auto simp: dec_normal_def dec_ok_def)
  have "10 ^ length a \<le> d * 10 ^ length a" using d(1) by simp
  then have "10 ^ length a \<le> digits_val (d_a p)" using digits_val_bounds [OF d(2)] unfolding a digits_val_simps by linarith
  then have "(of_int (10 ^ length a) :: rat) \<le> of_int (digits_val (d_a p))" by (simp only: of_int_le_iff)
  then have "(10 :: rat) ^ nat (nDigit p - d_nFrac p - 1) * 10 ^ nat (d_nFrac p) \<le> of_int (digits_val (d_a p))"
    unfolding of_int_power of_int_numeral by (subst (asm) l) (simp only: power_add)
  then show ?thesis by (simp add: mag_def pos_le_divide_eq)
qed

lemma mag_more_digits:
  assumes "dec_ok p" and "dec_normal q" and "nDigit p - d_nFrac p < nDigit q - d_nFrac q"
  shows "mag p < mag q"
proof -
  have q: "d_nFrac q < nDigit q" using assms(1,3) by (simp add: dec_ok_def)
  have "(10 :: rat) ^ nat (nDigit p - d_nFrac p) \<le> 10 ^ nat (nDigit q - d_nFrac q - 1)"
    using assms(3) by (intro power_increasing) auto
  then show ?thesis using mag_lt [OF assms(1)] mag_ge [OF assms(2) q] by linarith
qed

text \<open>Equally many integer digits: the common prefix decides, then the longer fraction.\<close>

lemma last_nonzero_pos: "digits_ok a \<Longrightarrow> a \<noteq> [] \<Longrightarrow> last a \<noteq> 0 \<Longrightarrow> 0 < digits_val a"
proof (induction a)
  case (Cons d a)
  have v: "0 \<le> digits_val a" "0 \<le> d * 10 ^ length a" using Cons.prems digits_val_bounds [of a] by auto
  show ?case
  proof (cases "a = []")
    case False
    then have "0 < digits_val a" using Cons by simp
    then show ?thesis using v by simp
  qed (use Cons.prems v in auto)
qed simp

lemma sgn_of_int_div: "0 < c \<Longrightarrow> sgn (of_int D / c) = of_int (sgn D)" for c :: rat
  by (auto simp: sgn_if zero_less_divide_iff)

lemma cmp_prefix:
  assumes "dec_ok p" and "dec_normal q" and "nDigit p - d_nFrac p = nDigit q - d_nFrac q" and "nDigit p \<le> nDigit q"
  defines "rc \<equiv> cmp_digits (d_a p) (take (length (d_a p)) (d_a q))"
  shows "sgn (mag p - mag q) = of_int (if rc = 0 then sgn (nDigit p - nDigit q) else rc)"
proof -
  let ?a = "d_a p" and ?b = "d_a q" and ?n = "length (d_a p)"
  let ?t = "take ?n ?b" and ?r = "drop ?n ?b"
  note P = assms(1) [unfolded dec_ok_def] and Q = assms(2) [unfolded dec_normal_def dec_ok_def]
  have ok: "digits_ok ?t" "digits_ok ?r" using Q digits_ok_take_drop by auto
  have lt: "length ?t = ?n" using assms(4) by simp
  have rc: "rc = sgn (digits_val ?a - digits_val ?t)"
    unfolding rc_def using cmp_digits_sgn lt ok P by simp
  have rl: "length ?r = nat (d_nFrac q - d_nFrac p)" using assms(3,4) by simp
  have "digits_val (?t @ ?r) = digits_val ?t * 10 ^ length ?r + digits_val ?r" by (rule digits_val_append)
  then have b: "digits_val ?b = digits_val ?t * 10 ^ length ?r + digits_val ?r" by simp
  have r: "0 \<le> digits_val ?r" "digits_val ?r < 10 ^ length ?r" using digits_val_bounds [OF ok(2)] by auto
  have rpos: "0 < digits_val ?r \<longleftrightarrow> ?n < length ?b"
  proof
    assume "?n < length ?b"
    then show "0 < digits_val ?r" using ok(2) Q assms(3) P by (intro last_nonzero_pos) (auto simp: last_drop)
  next
    assume "0 < digits_val ?r"
    then show "?n < length ?b" by (cases "?n < length ?b") auto
  qed
  let ?D = "digits_val ?a * 10 ^ length ?r - digits_val ?b"
  have "mag p = of_int (digits_val ?a * 10 ^ nat (d_nFrac q - d_nFrac p)) / 10 ^ nat (d_nFrac q)"
    unfolding mag_def using frac_shift [of "d_nFrac p" "d_nFrac q" "digits_val ?a"] P assms(3,4) by simp
  then have "mag p - mag q = of_int ?D / 10 ^ nat (d_nFrac q)"
    by (simp only: mag_def rl of_int_diff diff_divide_distrib)
  then have s: "sgn (mag p - mag q) = of_int (sgn ?D)" by (simp only: sgn_of_int_div [of "10 ^ nat (d_nFrac q)"] zero_less_power zero_less_numeral)
  have D: "?D = (digits_val ?a - digits_val ?t) * 10 ^ length ?r - digits_val ?r"
    unfolding b by (simp add: algebra_simps)
  have "sgn ?D = (if digits_val ?a = digits_val ?t then - sgn (digits_val ?r) else sgn (digits_val ?a - digits_val ?t))"
  proof -
    consider "digits_val ?a = digits_val ?t" | "digits_val ?a + 1 \<le> digits_val ?t" | "digits_val ?t + 1 \<le> digits_val ?a"
      by linarith
    then show ?thesis
    proof cases
      case 1
      then have "?D = - digits_val ?r" unfolding D by simp
      then show ?thesis using 1 by (simp only: if_True) (simp add: sgn_if)
    next
      case 2
      then have "(digits_val ?a - digits_val ?t) * 10 ^ length ?r \<le> - 1 * 10 ^ length ?r" by (intro mult_right_mono) auto
      then have "?D < 0" unfolding D using r(1) zero_less_power [of "10 :: int" "length ?r"] by linarith
      then show ?thesis using 2 by simp
    next
      case 3
      then have "1 * 10 ^ length ?r \<le> (digits_val ?a - digits_val ?t) * 10 ^ length ?r" by (intro mult_right_mono) auto
      then have "?D > 0" unfolding D using r(2) by linarith
      then show ?thesis using 3 by simp
    qed
  qed
  moreover have "- sgn (digits_val ?r) = sgn (nDigit p - nDigit q)"
    using rpos r(1) assms(4) by (cases "?n < length ?b") auto
  ultimately show ?thesis unfolding s rc by (auto simp: sgn_if)
qed

lemma decimal_cmp_mag:
  assumes "dec_normal p" and "dec_normal q" and "d_sign p = d_sign q"
  shows "(of_int (sgn (decimal_cmp p q)) :: rat) = (if d_sign p then sgn (mag q - mag p) else sgn (mag p - mag q))"
proof -
  have ok: "dec_ok p" "dec_ok q" using assms by (simp_all add: dec_normal_def)
  have core: "of_int (sgn (let nASig = nDigit a - d_nFrac a; nBSig = nDigit b - d_nFrac b in
        if nASig \<noteq> nBSig then nASig - nBSig
        else
          let n = (if nDigit a > nDigit b then nDigit b else nDigit a);
              rc = cmp_digits (take (nat n) (d_a a)) (take (nat n) (d_a b)) in
          if rc = 0 then nDigit a - nDigit b else rc)) = sgn (mag a - mag b)"
    if "dec_normal a" "dec_normal b" for a b
  proof -
    have k: "dec_ok a" "dec_ok b" using that by (simp_all add: dec_normal_def)
    have flip: "cmp_digits x y = - cmp_digits y x" for x y by (induction x y rule: cmp_digits.induct) auto
    have sg: "sgn (cmp_digits x y) = cmp_digits x y" for x y by (induction x y rule: cmp_digits.induct) auto
    consider "nDigit a - d_nFrac a < nDigit b - d_nFrac b" | "nDigit b - d_nFrac b < nDigit a - d_nFrac a"
      | "nDigit a - d_nFrac a = nDigit b - d_nFrac b" "nDigit a \<le> nDigit b"
      | "nDigit a - d_nFrac a = nDigit b - d_nFrac b" "nDigit b < nDigit a"
      by linarith
    then show ?thesis
    proof cases
      case 1
      then show ?thesis using mag_more_digits [OF k(1) that(2) 1] by simp
    next
      case 2
      then show ?thesis using mag_more_digits [OF k(2) that(1) 2] by simp
    next
      case 3
      then show ?thesis using cmp_prefix [OF k(1) that(2) 3] sg by (simp add: Let_def)
    next
      case 4
      have "sgn (mag a - mag b) = - sgn (mag b - mag a)" by (simp add: sgn_if)
      then show ?thesis using cmp_prefix [OF k(2) that(1) 4(1) [symmetric]] 4 sg
        by (simp add: Let_def flip [of "take (length (d_a b)) (d_a a)" "d_a b"] sgn_minus [symmetric])
    qed
  qed
  show ?thesis
    using core [OF assms(1,2)] core [OF assms(2,1)] assms(3) by (simp add: decimal_cmp_def)
qed

lemma decimal_cmp_ok:
  assumes "dec_normal p" and "dec_normal q"
  shows "of_int (sgn (decimal_cmp p q)) = sgn (dec_val p - dec_val q)"
proof -
  have val: "dec_val x = (if d_sign x then - mag x else mag x)" for x by (simp add: dec_val_def mag_def)
  have nn: "0 \<le> mag x" "d_sign x \<Longrightarrow> 0 < mag x" if "dec_normal x" for x
    using that digits_val_bounds [of "d_a x"] by (auto simp: mag_def dec_normal_def dec_ok_def)
  show ?thesis
  proof (cases "d_sign p = d_sign q")
    case True
    then show ?thesis using decimal_cmp_mag [OF assms True] by (simp add: val)
  next
    case False
    then show ?thesis using nn [OF assms(1)] nn [OF assms(2)] by (auto simp: decimal_cmp_def val sgn_if)
  qed
qed

lemma sum_step_ok:
  assumes "\<forall>n. malloc n" and "dec_ok p"
  shows "dec_ok (decimalSumStep malloc vt p (V_Int i)) \<and> dec_val (decimalSumStep malloc vt p (V_Int i)) =
    (if d_isInit p then dec_val p else 0) + of_int i"
proof -
  obtain q where q: "decimal_new malloc vt True (V_Int i) = Some q" "dec_ok q" "dec_val q = of_int i"
    using parse_integer [OF assms(1)] by (auto simp: decimal_new_def)
  have "dec_ok (sum_init malloc p)" "dec_val (sum_init malloc p) = (if d_isInit p then dec_val p else 0)"
    using assms by (simp_all add: sum_init_def dec_ok_def dec_val_def)
  then show ?thesis using decimal_add_ok [OF _ q(2), of "sum_init malloc p" malloc] assms(1) q
    by (auto simp: decimalSumStep_def)
qed

lemma sum_inverse_ok:
  assumes "\<forall>n. malloc n" and "dec_ok p"
  shows "dec_ok (decimalSumInverse malloc vt p (V_Int i)) \<and> dec_val (decimalSumInverse malloc vt p (V_Int i)) =
    dec_val p - of_int i"
proof -
  obtain q where q: "decimal_new malloc vt True (V_Int i) = Some q" "dec_ok q" "dec_val q = of_int i"
    using parse_integer [OF assms(1)] by (auto simp: decimal_new_def)
  have "dec_ok (negate q)" "dec_val (negate q) = - of_int i"
    using q(2,3) by (auto simp: negate_def dec_ok_def dec_val_def)
  then show ?thesis using decimal_add_ok [OF assms(2), of "negate q" malloc] assms(1) q(1)
    by (auto simp: decimalSumInverse_def)
qed

lemma add_isInit: "decimal_add malloc (Some p) q = Some r \<Longrightarrow> d_isInit r = d_isInit p"
  by (auto simp: decimal_add_def decimal_add_digits_def decimal_expand_def Let_def split: option.splits if_splits prod.splits)

lemma sum_step_isInit: "d_isInit (decimalSumStep malloc vt p v)"
proof -
  have "\<exists>r. decimal_add malloc (Some p1) q = Some r" for p1 q
    by (simp add: decimal_add_def Let_def split: option.splits prod.splits)
  then obtain r where "decimal_add malloc (Some (sum_init malloc p)) (decimal_new malloc vt True v) = Some r" by blast
  then show ?thesis using add_isInit by (auto simp: decimalSumStep_def sum_init_def Let_def)
qed

lemma sum_steps_ok:
  assumes "\<forall>n. malloc n" and "dec_ok p" and "d_isInit p"
  shows "dec_ok (foldl (decimalSumStep malloc vt) p (map V_Int xs)) \<and>
    dec_val (foldl (decimalSumStep malloc vt) p (map V_Int xs)) = dec_val p + of_int (sum_list xs)"
  using assms(2,3)
proof (induction xs arbitrary: p)
  case (Cons i xs)
  then show ?case using sum_step_ok [OF assms(1) Cons.prems(1), of vt i] sum_step_isInit by simp
qed simp

section \<open>Properties\<close>



text \<open>The text \<open>decimal_result\<close> prints, without an exponent, is read back as the same number.\<close>

theorem decimal_print_parse:
  assumes "\<forall>n. malloc n" and "dec_ok p"
  shows "\<exists>q. decimal_result malloc (Some p) = R_Text (decimal_text p) \<and>
    decimalNewFromText malloc (decimal_text p) = Some q \<and> dec_ok q \<and> dec_val q = dec_val p"
proof -
  obtain sg ip fp where l: "decimal_text p = dec_literal sg ip fp None" "sign_text sg" "digits_ok ip" "digits_ok fp"
    "literal_val sg ip fp None = dec_val p" using print_literal [OF assms(2)] by blast
  obtain q where "decimalNewFromText malloc (decimal_text p) = Some q" "dec_ok q" "dec_val q = dec_val p"
    using parse_literal [OF assms(1) l(2-4), of None] l(1,5) by (auto simp: exp_ok_def)
  moreover have "decimal_result malloc (Some p) = R_Text (decimal_text p)"
    using assms by (simp add: decimal_result_def dec_ok_def)
  ultimately show ?thesis by blast
qed

definition dec_example :: "int list \<Rightarrow> int \<Rightarrow> bool \<Rightarrow> Decimal" where
  "dec_example a f s = \<lparr>d_sign = s, d_oom = False, d_isNull = False, d_isInit = True, d_nFrac = f, d_a = a\<rparr>"

theorem decimal_print_parse_witness:
  "\<exists>q. decimal_result (\<lambda>n. True) (Some (dec_example [0, 0, 7, 5] 2 True)) = R_Text (bytes_of ''-0.75'') \<and>
    decimalNewFromText (\<lambda>n. True) (bytes_of ''-0.75'') = Some q \<and> dec_ok q \<and>
    dec_val q = dec_val (dec_example [0, 0, 7, 5] 2 True)"
proof -
  have "decimal_text (dec_example [0, 0, 7, 5] 2 True) = bytes_of ''-0.75''"
    by (simp add: decimal_text_def dec_example_def bytes_of_def digit_byte_def)
  then show ?thesis
    using decimal_print_parse [of "\<lambda>n. True" "dec_example [0, 0, 7, 5] 2 True"]
    by (simp add: dec_ok_def dec_example_def)
qed

text \<open>C28: Addition is exact: for well-formed operands \<open>decimal_add\<close> yields a well-formed decimal whose value is
  the sum, or reports out of memory; the latter never when every allocation succeeds.  The one extra digit
  the code reserves absorbs every carry.\<close>

theorem decimal_add_exact:
  assumes "dec_ok pA" and "dec_ok pB"
  shows "\<exists>p. decimal_add malloc (Some pA) (Some pB) = Some p \<and>
    (d_oom p \<or> (dec_ok p \<and> dec_val p = dec_val pA + dec_val pB)) \<and> ((\<forall>n. malloc n) \<longrightarrow> \<not> d_oom p)"
  by (rule decimal_add_ok) (use assms in auto)

theorem decimal_add_exact_witness:
  "\<exists>p. decimal_add (\<lambda>n. True) (Some (dec_example [9, 9] 1 False)) (Some (dec_example [1] 1 False)) = Some p \<and>
    dec_ok p \<and> dec_val p = 10"
  using decimal_add_exact [of "dec_example [9, 9] 1 False" "dec_example [1] 1 False" "\<lambda>n. True"]
  by (auto simp: dec_ok_def dec_example_def dec_val_def)

text \<open>C29: Multiplication is exact, with the sign rule and the trimming of trailing zeros.\<close>

theorem decimalMul_exact:
  assumes "dec_ok pA" and "dec_ok pB"
  shows "\<exists>p. decimalMul malloc (Some pA) (Some pB) = Some p \<and>
    (d_oom p \<or> (dec_ok p \<and> dec_val p = dec_val pA * dec_val pB)) \<and> ((\<forall>n. malloc n) \<longrightarrow> \<not> d_oom p)"
  by (rule decimalMul_ok) (use assms in auto)

theorem decimalMul_exact_witness:
  "\<exists>p. decimalMul (\<lambda>n. True) (Some (dec_example [9, 9] 1 True)) (Some (dec_example [9, 9] 1 False)) = Some p \<and>
    dec_ok p \<and> dec_val p = - (9801 / 100)"
  using decimalMul_exact [of "dec_example [9, 9] 1 True" "dec_example [9, 9] 1 False" "\<lambda>n. True"]
  by (auto simp: dec_ok_def dec_example_def dec_val_def)

text \<open>C30: \<open>decimal(r)\<close> of a finite double is exactly the number the double stands for, for normal and
  subnormal doubles of either sign (the negative zero excepted).\<close>

theorem decimalFromDouble_exact:
  assumes "\<forall>n. malloc n" and "f64_finite r" and "r \<noteq> word_of_int (2 ^ 63)"
  shows "\<exists>p. decimalFromDouble malloc r = Some p \<and> dec_ok p \<and> dec_val p = f64_val r"
  by (rule decimalFromDouble_ok) (use assms in auto)

theorem decimalFromDouble_exact_witness:
  "\<exists>p. decimalFromDouble (\<lambda>n. True) 0xbff8000000000000 = Some p \<and> dec_ok p \<and> dec_val p = f64_val 0xbff8000000000000"
  by (rule decimalFromDouble_exact) (simp_all add: f64_finite_def)



text \<open>On normal forms (no superfluous zeros, no negative zero) \<open>decimal_cmp\<close> decides the order of the
  numbers.\<close>

theorem decimal_cmp_order:
  assumes "dec_normal p" and "dec_normal q"
  shows "of_int (sgn (decimal_cmp p q)) = sgn (dec_val p - dec_val q)"
  by (rule decimal_cmp_ok) (use assms in auto)

theorem decimal_cmp_order_witness:
  "decimal_cmp (dec_example [1, 2, 5] 1 True) (dec_example [1, 2] 0 True) < 0"
  using decimal_cmp_order [of "dec_example [1, 2, 5] 1 True" "dec_example [1, 2] 0 True"]
  by (simp add: dec_normal_def dec_ok_def dec_example_def dec_val_def sgn_if split: if_splits)

text \<open>Outside the normal forms it does not: the SQL function \<open>decimal_cmp\<close> orders \<open>1.0\<close> after \<open>1\<close>, and
  \<open>1e-2\<close> after \<open>0.5\<close>, because it compares the numbers of digits stored.\<close>

theorem decimal_cmp_counts_zeros:
  "decimalCmpFunc (\<lambda>n. True) value_text (V_Text (bytes_of ''1.0'')) (V_Text (bytes_of ''1'')) = R_Int 1 \<and>
   decimalCmpFunc (\<lambda>n. True) value_text (V_Text (bytes_of ''1e-2'')) (V_Text (bytes_of ''0.5'')) = R_Int 1"
  by (simp add: decimalCmpFunc_def decimal_new_def decimalNewFromText_def bytes_of_def c_isspace_def dec_skip_sign_def
      is_dec_digit_def dec_digit_def dec_signed_exponent_def dec_shift_left_def decimal_cmp_def)

text \<open>\<open>decimal_add\<close> of a NULL argument is not NULL but an out-of-memory error, even though every allocation
  succeeds; \<open>decimal_mul\<close> of a NULL is NULL.\<close>

theorem decimal_add_null_is_nomem:
  "decimalAddFunc (\<lambda>n. True) value_text V_Null w = R_Error ''out of memory'' \<and>
   decimalMulFunc (\<lambda>n. True) value_text V_Null w = (if decimal_new_failed (\<lambda>n. True) value_text True w then nomem else R_Null)"
  by (simp add: decimalAddFunc_def decimalMulFunc_def decimal_new_def decimal_add_def decimal_result_def decimal_new_failed_def)

end
