(* ===== verification/Generate_Series.thy ===== *)
theory Generate_Series
  imports Bytes "HOL-Library.Multiset"
begin

text \<open>
  The table-valued function \<open>generate_series(start, stop, step)\<close> of the shell (\<open>shell.c\<close>, section
  \<open>ext/misc/series.c\<close>), a virtual table: the planner calls \<open>seriesBestIndex\<close>, the engine then opens a cursor,
  positions it with \<open>seriesFilter\<close> and reads rows until \<open>seriesEof\<close>.  All numbers are 64-bit words that wrap, read as
  signed (\<open>sint\<close>) or unsigned (\<open>unat\<close>) the way the source declares them.  \<open>ULONG_MAX\<close>, which differs between
  platforms, and the engine's conversion \<open>sqlite3_value_int64\<close> are parameters.

  The locale \<open>vtab_cursor\<close> is the contract between the engine and a cursor: every step leads closer to the end.
\<close>

type_synonym i64 = "64 word"

section \<open>Scanning a cursor\<close>

text \<open>What the engine does with a positioned cursor; the fuel bounds the number of rows.\<close>

fun scan_rows :: "nat \<Rightarrow> ('s \<Rightarrow> 's) \<Rightarrow> ('s \<Rightarrow> bool) \<Rightarrow> ('s \<Rightarrow> 'r) \<Rightarrow> 's \<Rightarrow> 'r list option" where
  "scan_rows 0 xNext xEof xRow s = None"
| "scan_rows (Suc f) xNext xEof xRow s =
     (if xEof s then Some []
      else case scan_rows f xNext xEof xRow (xNext s) of None \<Rightarrow> None | Some rs \<Rightarrow> Some (xRow s # rs))"

locale vtab_cursor =
  fixes xNext :: "'s \<Rightarrow> 's" and xEof :: "'s \<Rightarrow> bool" and rank :: "'s \<Rightarrow> nat"
  assumes next_rank: "\<not> xEof s \<Longrightarrow> rank (xNext s) < rank s"
begin

lemma scan_ends: "rank s < f \<Longrightarrow> \<exists>rs. scan_rows f xNext xEof xRow s = Some rs \<and> length rs \<le> rank s"
proof (induction f arbitrary: s)
  case (Suc f)
  show ?case
  proof (cases "xEof s")
    case False
    have lt: "rank (xNext s) < rank s" using next_rank [OF False] .
    with Suc.prems have "rank (xNext s) < f" by simp
    from Suc.IH [OF this] obtain rs where "scan_rows f xNext xEof xRow (xNext s) = Some rs" "length rs \<le> rank (xNext s)"
      by blast
    with False lt show ?thesis by simp
  qed simp
qed simp

lemma scan_more_fuel: "scan_rows f xNext xEof xRow s = Some rs \<Longrightarrow> f \<le> g \<Longrightarrow> scan_rows g xNext xEof xRow s = Some rs"
proof (induction f arbitrary: g s rs)
  case (Suc f)
  then obtain g' where g: "g = Suc g'" "f \<le> g'" by (cases g) auto
  show ?case using Suc.prems(1) Suc.IH [OF _ g(2)] g(1) by (auto split: if_splits option.splits)
qed simp

end

section \<open>The sequence\<close>

definition LLONG_MAX :: i64 where
  "LLONG_MAX = 2 ^ 63 - 1"

definition LLONG_MIN :: i64 where
  "LLONG_MIN = 2 ^ 63"

definition genSeqMember :: "i64 \<Rightarrow> i64 \<Rightarrow> i64 \<Rightarrow> i64" where
  "genSeqMember smBase0 smStep ix0 =
     (let (smBase1, ix1) =
            (if ix0 \<ge> LLONG_MAX
             then (smBase0 + (LLONG_MAX div 2) * smStep + (LLONG_MAX - LLONG_MAX div 2) * smStep, ix0 - LLONG_MAX)
             else (smBase0, ix0));
          (smBase2, ix2) =
            (if ix1 \<ge> 2
             then (let h = word_of_int (cdiv (sint ix1) 2) in (smBase1 + h * smStep, ix1 - h))
             else (smBase1, ix1)) in
      smBase2 + ix2 * smStep)"

record SequenceSpec =
  iBase :: i64
  iTerm :: i64
  iStep :: i64
  uSeqIndexMax :: i64
  uSeqIndexNow :: i64
  iValueNow :: i64
  isNotEOF :: bool
  isReversing :: bool

text \<open>The distance from the smaller bound to the larger one, computed without a signed overflow.\<close>

definition seq_span :: "bool \<Rightarrow> i64 \<Rightarrow> i64 \<Rightarrow> i64" where
  "seq_span bSameSigns hi lo = (if bSameSigns then hi - lo else 1 + hi + (- (lo + 1)))"

definition setupSequence :: "nat \<Rightarrow> SequenceSpec \<Rightarrow> SequenceSpec" where
  "setupSequence ULONG_MAX pss =
     (let base = iBase pss; term = iTerm pss; step = iStep pss;
          bSameSigns = ((sint base < 0) = (sint term < 0));
          (notEOF, imax) =
            (if sint term < sint base then
               (let nuspan = seq_span bSameSigns base term in
                if sint step < 0 then
                  (True,
                   if unat nuspan = ULONG_MAX then (if step \<noteq> LLONG_MIN then nuspan div (- step) else 1)
                   else if step \<noteq> LLONG_MIN then nuspan div (- step)
                   else 0)
                else (False, 0))
             else if sint term > sint base then
               (let puspan = seq_span bSameSigns term base in
                if sint step > 0 then (True, puspan div step) else (False, 0))
             else (True, 0)) in
      pss\<lparr>uSeqIndexMax := imax, isNotEOF := notEOF,
          uSeqIndexNow := (if isReversing pss then imax else 0),
          iValueNow := (if isReversing pss then genSeqMember base step imax else base)\<rparr>)"

definition progressSequence :: "SequenceSpec \<Rightarrow> SequenceSpec" where
  "progressSequence pss =
     (if \<not> isNotEOF pss then pss
      else if isReversing pss then
        (if uSeqIndexNow pss > 0
         then pss\<lparr>uSeqIndexNow := uSeqIndexNow pss - 1, iValueNow := iValueNow pss - iStep pss\<rparr>
         else pss\<lparr>isNotEOF := False\<rparr>)
      else
        (if uSeqIndexNow pss < uSeqIndexMax pss
         then pss\<lparr>uSeqIndexNow := uSeqIndexNow pss + 1, iValueNow := iValueNow pss + iStep pss\<rparr>
         else pss\<lparr>isNotEOF := False\<rparr>))"

section \<open>The virtual table\<close>

definition seriesNext :: "SequenceSpec \<Rightarrow> SequenceSpec" where
  "seriesNext cur = progressSequence cur"

definition seriesColumn :: "SequenceSpec \<Rightarrow> int \<Rightarrow> int" where
  "seriesColumn cur i =
     sint (if i = 1 then iBase cur else if i = 2 then iTerm cur else if i = 3 then iStep cur else iValueNow cur)"

definition seriesRowid :: "SequenceSpec \<Rightarrow> int" where
  "seriesRowid cur = (let n = uSeqIndexNow cur in sint (if n < 2 ^ 64 - 1 then n + 1 else 0))"

definition seriesEof :: "SequenceSpec \<Rightarrow> bool" where
  "seriesEof cur = (\<not> isNotEOF cur)"

text \<open>A new cursor is zeroed memory.\<close>

definition seriesOpen :: "(int \<Rightarrow> bool) \<Rightarrow> SequenceSpec option" where
  "seriesOpen malloc =
     (if malloc 72 then
        Some \<lparr>iBase = 0, iTerm = 0, iStep = 0, uSeqIndexMax = 0, uSeqIndexNow = 0, iValueNow = 0,
              isNotEOF = False, isReversing = False\<rparr>
      else None)"

text \<open>The arguments are taken in the order of the columns, one for each of the bits 1, 2 and 4 of the plan.\<close>

definition take_arg :: "(sqlite3_value \<Rightarrow> i64) \<Rightarrow> bool \<Rightarrow> i64 \<Rightarrow> sqlite3_value list \<Rightarrow> i64 \<times> sqlite3_value list" where
  "take_arg value_int64 present dflt argv = (if present then (value_int64 (hd argv), tl argv) else (dflt, argv))"

definition seriesFilter ::
  "nat \<Rightarrow> (sqlite3_value \<Rightarrow> i64) \<Rightarrow> SequenceSpec \<Rightarrow> int \<Rightarrow> sqlite3_value list \<Rightarrow> SequenceSpec" where
  "seriesFilter ULONG_MAX value_int64 cur idxNum0 argv =
     (let (base, argv1) = take_arg value_int64 (idxNum0 AND 1 \<noteq> 0) 0 argv;
          (term, argv2) = take_arg value_int64 (idxNum0 AND 2 \<noteq> 0) 0xffffffff argv1;
          (step0, _) = take_arg value_int64 (idxNum0 AND 4 \<noteq> 0) 1 argv2;
          step = (if step0 = 0 then 1 else step0);
          idxNum = (if idxNum0 AND 4 \<noteq> 0 \<and> sint step0 < 0 \<and> idxNum0 AND 16 = 0 then idxNum0 OR 8 else idxNum0);
          (base', term', step') = (if V_Null \<in> set argv then (1, 0, 1) else (base, term, step)) in
      setupSequence ULONG_MAX
        (cur\<lparr>iBase := base', iTerm := term', iStep := step',
             isReversing := (if idxNum AND 8 \<noteq> 0 then sint step' > 0 else sint step' < 0)\<rparr>))"

section \<open>The query plan\<close>

record index_constraint =
  c_iColumn :: int
  c_usable :: bool
  c_eq :: bool

record index_plan =
  p_idxNum :: int
  p_argvIndex :: "nat \<Rightarrow> nat"
  p_rows :: int
  p_cost :: "int option"
  p_orderByConsumed :: bool

datatype plan_result = Plan_Ok index_plan | Plan_Constraint | Plan_Error string

text \<open>The loop over the constraints: the plan bits, whether a start was seen, the unusable columns, and the
  constraint chosen for each of the three columns.\<close>

fun series_constraints ::
  "nat \<Rightarrow> index_constraint list \<Rightarrow> int \<times> bool \<times> int \<times> nat option list \<Rightarrow> int \<times> bool \<times> int \<times> nat option list" where
  "series_constraints i [] st = st"
| "series_constraints i (c # cs) (idxNum, seen, unusable, aIdx) =
     (if c_iColumn c < 1 then series_constraints (i + 1) cs (idxNum, seen, unusable, aIdx)
      else
        let iCol = nat (c_iColumn c - 1); iMask = push_bit iCol 1; seen' = (seen \<or> iCol = 0) in
        if \<not> c_usable c then series_constraints (i + 1) cs (idxNum, seen', unusable OR iMask, aIdx)
        else if c_eq c then series_constraints (i + 1) cs (idxNum OR iMask, seen', unusable, aIdx[iCol := Some i])
        else series_constraints (i + 1) cs (idxNum, seen', unusable, aIdx))"

text \<open>The arguments \<open>1, 2, ...\<close> go to the constraints chosen, in the order of the columns.\<close>

fun assign_args :: "nat \<Rightarrow> nat option list \<Rightarrow> (nat \<Rightarrow> nat) \<Rightarrow> nat \<Rightarrow> nat" where
  "assign_args nArg [] u = u"
| "assign_args nArg (None # aIdx) u = assign_args nArg aIdx u"
| "assign_args nArg (Some j # aIdx) u = assign_args (nArg + 1) aIdx (u(j := nArg + 1))"

definition seriesBestIndex :: "index_constraint list \<Rightarrow> (int \<times> bool) list \<Rightarrow> plan_result" where
  "seriesBestIndex cs orderBy =
     (let (idxNum, bStartSeen, unusableMask, aIdx) = series_constraints 0 cs (0, False, 0, [None, None, None]);
          usage = assign_args 0 aIdx (\<lambda>j. 0) in
      if \<not> bStartSeen then Plan_Error ''first argument to \"generate_series()\" missing or unusable''
      else if unusableMask AND NOT idxNum \<noteq> 0 then Plan_Constraint
      else if idxNum AND 3 = 3 then
        (let sorted = (orderBy \<noteq> [] \<and> fst (hd orderBy) = 0) in
         Plan_Ok \<lparr>p_idxNum = (if sorted then (if snd (hd orderBy) then idxNum OR 8 else idxNum OR 16) else idxNum),
                  p_argvIndex = usage, p_rows = 1000, p_cost = Some (if idxNum AND 4 \<noteq> 0 then 1 else 2),
                  p_orderByConsumed = sorted\<rparr>)
      else
        Plan_Ok \<lparr>p_idxNum = idxNum, p_argvIndex = usage, p_rows = 2147483647, p_cost = None, p_orderByConsumed = False\<rparr>)"

section \<open>The sequence is right\<close>

lemma genSeqMember_eq: "genSeqMember b s ix = b + ix * s"
  by (simp add: genSeqMember_def Let_def algebra_simps)

text \<open>The rank of a cursor: the rows it still has.\<close>

definition series_rank :: "SequenceSpec \<Rightarrow> nat" where
  "series_rank s =
     (if isNotEOF s then Suc (if isReversing s then unat (uSeqIndexNow s) else unat (uSeqIndexMax s) - unat (uSeqIndexNow s)) else 0)"

lemma unat_pred: "0 < w \<Longrightarrow> unat (w - 1) = unat w - 1" for w :: i64
  by (simp add: unat_minus_one word_neq_0_conv)

lemma unat_succ: "v < w \<Longrightarrow> unat (v + 1) = unat v + 1" for v w :: i64
proof -
  assume "v < w"
  then have "unat v + 1 < 2 ^ 64" using unsigned_less [of w, where 'a = nat] by (simp add: word_less_nat_alt)
  then show ?thesis by (simp add: unat_word_ariths)
qed

interpretation series: vtab_cursor seriesNext seriesEof series_rank
proof
  fix s
  assume "\<not> seriesEof s"
  then show "series_rank (seriesNext s) < series_rank s"
    by (auto simp: seriesEof_def seriesNext_def progressSequence_def series_rank_def unat_pred unat_succ word_less_nat_alt)
qed

text \<open>A row: the value and the rowid.\<close>

definition series_row :: "SequenceSpec \<Rightarrow> int \<times> int" where
  "series_row s = (seriesColumn s 0, seriesRowid s)"

definition series_scan :: "nat \<Rightarrow> SequenceSpec \<Rightarrow> (int \<times> int) list option" where
  "series_scan f s = scan_rows f seriesNext seriesEof series_row s"

text \<open>The member with index \<open>n\<close> and its rowid, as the words the code computes.\<close>

definition member_row :: "SequenceSpec \<Rightarrow> nat \<Rightarrow> int \<times> int" where
  "member_row s n = (sint (iBase s + of_nat n * iStep s), sint (of_nat n + 1 :: i64))"

lemma series_row_member:
  assumes "iValueNow s = iBase s + uSeqIndexNow s * iStep s"
  shows "series_row s = member_row s (unat (uSeqIndexNow s))"
proof -
  have "(if uSeqIndexNow s < 2 ^ 64 - 1 then uSeqIndexNow s + 1 else 0) = uSeqIndexNow s + 1"
  proof (cases "uSeqIndexNow s = - 1")
    case False
    then have "uSeqIndexNow s < - 1" by (simp add: word_order.not_eq_extremum)
    moreover have "(2 ^ 64 - 1 :: i64) = - 1" by simp
    ultimately show ?thesis by (simp only: if_True)
  qed simp
  then show ?thesis using assms
    by (simp add: series_row_def member_row_def seriesColumn_def seriesRowid_def Let_def)
qed

lemma scan_forward:
  assumes "isNotEOF s" and "\<not> isReversing s" and "uSeqIndexNow s \<le> uSeqIndexMax s"
    and "iValueNow s = iBase s + uSeqIndexNow s * iStep s" and "unat (uSeqIndexMax s) - unat (uSeqIndexNow s) = k" and "k + 1 < f"
  shows "series_scan f s = Some (map (member_row s) [unat (uSeqIndexNow s)..<unat (uSeqIndexMax s) + 1])"
  using assms
proof (induction k arbitrary: s f)
  case 0
  then have e: "unat (uSeqIndexNow s) = unat (uSeqIndexMax s)" by (simp add: word_le_nat_alt)
  then have "\<not> uSeqIndexNow s < uSeqIndexMax s" by (simp add: word_less_nat_alt)
  moreover obtain f' where "f = Suc (Suc f')" using 0(6) by (auto simp: less_iff_Suc_add)
  ultimately show ?case using 0 e series_row_member [OF 0(4)]
    by (simp add: series_scan_def seriesEof_def seriesNext_def progressSequence_def)
next
  case (Suc k)
  obtain f' where f: "f = Suc f'" "k + 1 < f'" using Suc.prems(6) by (cases f) auto
  let ?s = "progressSequence s"
  have lt: "uSeqIndexNow s < uSeqIndexMax s" using Suc.prems(5) by (simp add: word_less_nat_alt)
  have s': "?s = s\<lparr>uSeqIndexNow := uSeqIndexNow s + 1, iValueNow := iValueNow s + iStep s\<rparr>"
    using Suc.prems lt by (simp add: progressSequence_def)
  have u: "unat (uSeqIndexNow s + 1) = unat (uSeqIndexNow s) + 1" by (rule unat_succ [OF lt])
  have "series_scan f' ?s = Some (map (member_row ?s) [unat (uSeqIndexNow ?s)..<unat (uSeqIndexMax ?s) + 1])"
    using Suc.prems lt u f(2) unfolding s' by (intro Suc.IH) (auto simp: word_le_nat_alt word_less_nat_alt algebra_simps)
  moreover have "member_row ?s = member_row s" unfolding s' by (rule ext) (simp add: member_row_def)
  ultimately have "series_scan f' ?s = Some (map (member_row s) [unat (uSeqIndexNow s) + 1..<unat (uSeqIndexMax s) + 1])"
    using u by (simp add: s')
  moreover have "[unat (uSeqIndexNow s)..<unat (uSeqIndexMax s) + 1] =
      unat (uSeqIndexNow s) # [unat (uSeqIndexNow s) + 1..<unat (uSeqIndexMax s) + 1]"
    using lt by (simp add: upt_rec word_less_nat_alt)
  ultimately show ?case using Suc.prems(1) f(1) series_row_member [OF Suc.prems(4)]
    by (simp add: series_scan_def seriesEof_def seriesNext_def)
qed

lemma scan_backward:
  assumes "isNotEOF s" and "isReversing s"
    and "iValueNow s = iBase s + uSeqIndexNow s * iStep s" and "unat (uSeqIndexNow s) = k" and "k + 1 < f"
  shows "series_scan f s = Some (map (member_row s) (rev [0..<k + 1]))"
  using assms
proof (induction k arbitrary: s f)
  case 0
  then have e: "uSeqIndexNow s = 0" by (simp add: unat_eq_zero)
  moreover obtain f' where "f = Suc (Suc f')" using 0(5) by (auto simp: less_iff_Suc_add)
  ultimately show ?case using 0 series_row_member [OF 0(3)]
    by (simp add: series_scan_def seriesEof_def seriesNext_def progressSequence_def)
next
  case (Suc k)
  obtain f' where f: "f = Suc f'" "k + 1 < f'" using Suc.prems(5) by (cases f) auto
  let ?s = "progressSequence s"
  have gt: "0 < uSeqIndexNow s" using Suc.prems(4) by (simp add: word_less_nat_alt)
  have s': "?s = s\<lparr>uSeqIndexNow := uSeqIndexNow s - 1, iValueNow := iValueNow s - iStep s\<rparr>"
    using Suc.prems gt by (simp add: progressSequence_def)
  have "series_scan f' ?s = Some (map (member_row ?s) (rev [0..<k + 1]))"
    using Suc.prems gt f(2) unfolding s' by (intro Suc.IH) (auto simp: unat_pred algebra_simps)
  moreover have "member_row ?s = member_row s" unfolding s' by (rule ext) (simp add: member_row_def)
  ultimately show ?case using Suc.prems(1) f(1) series_row_member [OF Suc.prems(3)] Suc.prems(4)
    by (simp add: series_scan_def seriesEof_def seriesNext_def)
qed

text \<open>The members of the series over the integers.\<close>

definition series_members :: "int \<Rightarrow> int \<Rightarrow> int \<Rightarrow> int list" where
  "series_members b t s =
     (if (b < t \<and> 0 < s) \<or> (t < b \<and> s < 0) \<or> b = t then map (\<lambda>n. b + int n * s) [0..<nat ((t - b) div s) + 1] else [])"

lemma sint_range: "- (2 ^ 63) \<le> sint w \<and> sint w < 2 ^ 63" for w :: i64
  using sint_ge [of w] sint_lt [of w] by simp

lemma unat_diff_sint:
  fixes hi lo :: i64
  assumes "sint lo \<le> sint hi"
  shows "unat (seq_span same hi lo) = nat (sint hi - sint lo)"
proof -
  have "seq_span same hi lo = hi - lo" by (simp add: seq_span_def)
  also have "\<dots> = word_of_int (sint hi - sint lo)" by simp
  finally have w: "seq_span same hi lo = word_of_int (sint hi - sint lo)" .
  have "uint (seq_span same hi lo) = (sint hi - sint lo) mod 2 ^ 64"
    unfolding w uint_word_of_int by simp
  also have "\<dots> = sint hi - sint lo"
    using sint_range [of hi] sint_range [of lo] assms by (intro mod_pos_pos_trivial) auto
  finally show ?thesis by (simp only: unat_eq_nat_uint)
qed

lemma unat_pos: "0 < sint w \<Longrightarrow> unat w = nat (sint w)" for w :: i64
  using unat_diff_sint [of 0 w True] by (simp add: seq_span_def)

lemma unat_neg: "sint w < 0 \<Longrightarrow> unat (- w) = nat (- sint w)" for w :: i64
  using unat_diff_sint [of w 0 True] by (simp add: seq_span_def)

lemma nat_div_bound: "0 < c \<Longrightarrow> 0 \<le> a \<Longrightarrow> n \<le> nat (a div c) \<Longrightarrow> int n * c \<le> a" for a c :: int
proof -
  assume c: "0 < c" and a: "0 \<le> a" and "n \<le> nat (a div c)"
  then have "int n \<le> a div c" using pos_imp_zdiv_nonneg_iff [of c a] by simp
  then have "int n * c \<le> a div c * c" using c by (intro mult_right_mono) auto
  also have "\<dots> \<le> a" using c div_mult_mod_eq [of a c] pos_mod_sign [of c a] by linarith
  finally show ?thesis .
qed

text \<open>No member leaves the range of the 64-bit integers, so that the wrapping arithmetic is exact.\<close>

lemma member_exact:
  fixes b t s :: i64
  assumes "(sint b < sint t \<and> 0 < sint s) \<or> (sint t < sint b \<and> sint s < 0) \<or> n = 0" and "n \<le> nat ((sint t - sint b) div sint s)"
  shows "sint (b + of_nat n * s :: i64) = sint b + int n * sint s"
proof -
  have "b + of_nat n * s = word_of_int (sint b + int n * sint s)" by simp
  moreover have "- (2 ^ 63) \<le> sint b + int n * sint s \<and> sint b + int n * sint s < 2 ^ 63"
  proof -
    consider "sint b < sint t" "0 < sint s" | "sint t < sint b" "sint s < 0" | "n = 0" using assms(1) by blast
    then show ?thesis
    proof cases
      case 1
      then have "int n * sint s \<le> sint t - sint b" using nat_div_bound assms(2) by simp
      moreover have "0 \<le> int n * sint s" using 1 by simp
      ultimately show ?thesis using sint_range [of b] sint_range [of t] by linarith
    next
      case 2
      have "(sint t - sint b) div sint s = (sint b - sint t) div (- sint s)" by (metis div_minus_minus minus_diff_eq)
      then have "int n * (- sint s) \<le> sint b - sint t" using nat_div_bound [of "- sint s" "sint b - sint t" n] assms(2) 2 by simp
      moreover have "0 \<le> int n * (- sint s)" using 2 by (intro mult_nonneg_nonneg) auto
      ultimately show ?thesis using sint_range [of b] sint_range [of t] unfolding mult_minus_right by linarith
    next
      case 3
      then show ?thesis using sint_range [of b] by simp
    qed
  qed
  ultimately show ?thesis by (simp only: signed_of_int) (simp add: signed_take_bit_int_eq_self)
qed

text \<open>The largest index \<open>setupSequence\<close> computes.\<close>

lemma setup_index:
  assumes "iStep s \<noteq> LLONG_MIN"
  shows "isNotEOF (setupSequence U s) \<longleftrightarrow> series_members (sint (iBase s)) (sint (iTerm s)) (sint (iStep s)) \<noteq> []"
    and "isNotEOF (setupSequence U s) \<Longrightarrow>
      unat (uSeqIndexMax (setupSequence U s)) = nat ((sint (iTerm s) - sint (iBase s)) div sint (iStep s))"
proof -
  let ?b = "sint (iBase s)" and ?t = "sint (iTerm s)" and ?s = "sint (iStep s)"
  show "isNotEOF (setupSequence U s) \<longleftrightarrow> series_members ?b ?t ?s \<noteq> []"
    by (auto simp: setupSequence_def series_members_def Let_def)
  assume "isNotEOF (setupSequence U s)"
  then consider "?t < ?b" "?s < 0" | "?b < ?t" "0 < ?s" | "?b = ?t"
    by (auto simp: setupSequence_def Let_def split: if_splits)
  then show "unat (uSeqIndexMax (setupSequence U s)) = nat ((?t - ?b) div ?s)"
  proof cases
    case 1
    have "nat ((?t - ?b) div ?s) = nat ((?b - ?t) div (- ?s))" by (metis div_minus_minus minus_diff_eq)
    also have "\<dots> = nat (?b - ?t) div nat (- ?s)" using 1 by (simp add: nat_div_distrib)
    finally show ?thesis using 1 assms
      by (simp add: setupSequence_def Let_def unat_div unat_diff_sint unat_neg)
  next
    case 2
    then show ?thesis by (simp add: setupSequence_def Let_def unat_div unat_diff_sint unat_pos nat_div_distrib)
  next
    case 3
    then show ?thesis by (simp add: setupSequence_def Let_def)
  qed
qed

lemma setup_fields:
  "iBase (setupSequence U s) = iBase s" "iTerm (setupSequence U s) = iTerm s" "iStep (setupSequence U s) = iStep s"
  "isReversing (setupSequence U s) = isReversing s"
  "uSeqIndexNow (setupSequence U s) = (if isReversing s then uSeqIndexMax (setupSequence U s) else 0)"
  "iValueNow (setupSequence U s) = iBase s + uSeqIndexNow (setupSequence U s) * iStep s"
  by (simp_all add: setupSequence_def Let_def genSeqMember_eq split: prod.splits)

lemma setup_scan:
  assumes "iStep s \<noteq> LLONG_MIN"
    and "ms = series_members (sint (iBase s)) (sint (iTerm s)) (sint (iStep s))" and "length ms + 1 < f"
  shows "map_option (map fst) (series_scan f (setupSequence U s)) = Some (if isReversing s then rev ms else ms)"
proof (cases "isNotEOF (setupSequence U s)")
  case False
  then have "ms = []" using setup_index(1) [OF assms(1)] assms(2) by simp
  moreover obtain f' where "f = Suc f'" using assms(3) by (cases f) auto
  ultimately show ?thesis using False by (simp add: series_scan_def seriesEof_def)
next
  case True
  let ?s = "setupSequence U s" and ?b = "sint (iBase s)" and ?t = "sint (iTerm s)" and ?st = "sint (iStep s)"
  let ?N = "nat ((?t - ?b) div ?st)"
  have N: "unat (uSeqIndexMax ?s) = ?N" using setup_index(2) [OF assms(1) True] .
  have c: "(?b < ?t \<and> 0 < ?st) \<or> (?t < ?b \<and> ?st < 0) \<or> ?b = ?t"
    using True setup_index(1) [OF assms(1), of U] by (auto simp: series_members_def split: if_splits)
  then have ms: "ms = map (\<lambda>n. ?b + int n * ?st) [0..<?N + 1]" using assms(2) by (auto simp: series_members_def)
  have row: "fst (member_row ?s n) = ?b + int n * ?st" if "n < ?N + 1" for n
  proof -
    have "n = 0" if "?b = ?t" using \<open>n < ?N + 1\<close> that by simp
    then show ?thesis using member_exact [of "iBase s" "iTerm s" "iStep s" n] c \<open>n < ?N + 1\<close>
      by (auto simp: member_row_def setup_fields)
  qed
  have rows: "map fst (map (member_row ?s) [0..<?N + 1]) = ms" "map fst (map (member_row ?s) (rev [0..<?N + 1])) = rev ms"
    unfolding ms by (simp_all add: row rev_map del: upt_Suc)
  have lt: "?N + 1 + 1 < f + 1" "?N + 1 < f" using assms(3) ms by simp_all
  show ?thesis
  proof (cases "isReversing s")
    case rv: True
    have "series_scan f ?s = Some (map (member_row ?s) (rev [0..<?N + 1]))"
      by (rule scan_backward) (use rv True N lt in \<open>simp_all add: setup_fields\<close>)
    then show ?thesis using rows rv by simp
  next
    case fw: False
    have "series_scan f ?s = Some (map (member_row ?s) [unat (uSeqIndexNow ?s)..<unat (uSeqIndexMax ?s) + 1])"
      by (rule scan_forward [where k = ?N]) (use fw True N lt in \<open>simp_all add: setup_fields\<close>)
    then show ?thesis using rows fw N by (simp add: setup_fields)
  qed
qed

text \<open>The order of the rows a plan asks for: as the step runs, descending (8) or ascending (16).\<close>

definition series_order :: "int \<Rightarrow> int list \<Rightarrow> int list" where
  "series_order ord ms = (if ord = 8 then rev (sort ms) else if ord = 16 then sort ms else ms)"

lemma series_sorted:
  "0 < s \<Longrightarrow> sort (series_members b t s) = series_members b t s"
  "s < 0 \<Longrightarrow> sort (series_members b t s) = rev (series_members b t s)"
proof -
  have up: "sorted (map (\<lambda>n. b + int n * s) [0..<k])" if "0 < s" for k
    using that by (auto simp: sorted_iff_nth_mono)
  have down: "sorted (rev (map (\<lambda>n. b + int n * s) [0..<k]))" if "s < 0" for k
    using that by (auto simp: sorted_iff_nth_mono rev_nth mult_right_mono_neg)
  show "0 < s \<Longrightarrow> sort (series_members b t s) = series_members b t s"
    using up by (simp add: series_members_def sorted_sort_id del: upt_Suc)
  show "s < 0 \<Longrightarrow> sort (series_members b t s) = rev (series_members b t s)"
    using down by (intro properties_for_sort) (auto simp: series_members_def simp del: upt_Suc)
qed

section \<open>The plan and the cursor agree\<close>

text \<open>The last usable equality on a column.\<close>

fun last_eq :: "nat \<Rightarrow> index_constraint list \<Rightarrow> int \<Rightarrow> nat option" where
  "last_eq i [] col = None"
| "last_eq i (c # cs) col =
     (case last_eq (i + 1) cs col of
        Some j \<Rightarrow> Some j
      | None \<Rightarrow> if c_usable c \<and> c_eq c \<and> c_iColumn c = col then Some i else None)"

lemma last_eq_col: "last_eq i cs col = Some j \<Longrightarrow> i \<le> j \<and> j < i + length cs \<and> c_iColumn (cs ! (j - i)) = col"
proof (induction cs arbitrary: i)
  case (Cons c cs)
  show ?case
  proof (cases "last_eq (i + 1) cs col")
    case None
    then show ?thesis using Cons.prems by (auto split: if_splits)
  next
    case (Some j')
    then have "j' = j" using Cons.prems by simp
    with Some Cons.IH [of "i + 1"] have "i + 1 \<le> j" "j < i + 1 + length cs" "c_iColumn (cs ! (j - (i + 1))) = col" by auto
    moreover from this have "(c # cs) ! (j - i) = cs ! (j - (i + 1))" by (simp add: nth_Cons')
    ultimately show ?thesis by simp
  qed
qed simp

lemma last_eq_distinct: "last_eq i cs c = Some j \<Longrightarrow> last_eq i cs d = Some j \<Longrightarrow> c = d"
  by (metis last_eq_col)

definition over :: "'a option \<Rightarrow> 'a option \<Rightarrow> 'a option" where
  "over x y = (case x of None \<Rightarrow> y | Some _ \<Rightarrow> x)"

lemma over_simps [simp]: "over None y = y" "over (Some a) y = Some a" "over x None = x"
  by (auto simp: over_def split: option.splits)

lemma constraints_loop:
  assumes "\<forall>c \<in> set cs. c_iColumn c \<le> 3" and "series_constraints i cs (n, seen, u, [a0, a1, a2]) = (n', seen', u', aIdx)"
  shows "aIdx = [over (last_eq i cs 1) a0, over (last_eq i cs 2) a1, over (last_eq i cs 3) a2] \<and>
    n' = n OR (if last_eq i cs 1 = None then 0 else 1) OR (if last_eq i cs 2 = None then 0 else 2) OR
      (if last_eq i cs 3 = None then 0 else 4)"
  using assms
proof (induction cs arbitrary: i n seen u a0 a1 a2)
  case (Cons c cs)
  let ?h = "\<lambda>k. c_usable c \<and> c_eq c \<and> c_iColumn c = k"
  have col: "c_iColumn c < 1 \<or> c_iColumn c = 1 \<or> c_iColumn c = 2 \<or> c_iColumn c = 3" using Cons.prems(1) by auto
  have p: "push_bit (Suc 0) 1 = (2 :: int)" "push_bit (Suc (Suc 0)) 1 = (4 :: int)" by (simp_all add: push_bit_int_def)
  define s'' where "s'' = (seen \<or> c_iColumn c = 1)"
  define u'' where "u'' = (if 1 \<le> c_iColumn c \<and> \<not> c_usable c then u OR push_bit (nat (c_iColumn c - 1)) 1 else u)"
  have st: "series_constraints i (c # cs) (n, seen, u, [a0, a1, a2]) =
      series_constraints (i + 1) cs
        (n OR (if ?h 1 then 1 else 0) OR (if ?h 2 then 2 else 0) OR (if ?h 3 then 4 else 0), s'', u'',
         [if ?h 1 then Some i else a0, if ?h 2 then Some i else a1, if ?h 3 then Some i else a2])"
    unfolding s''_def u''_def using col
    by (elim disjE; cases "c_usable c"; cases "c_eq c"; simp add: Let_def p numeral_2_eq_2)
  have le: "last_eq i (c # cs) k = over (last_eq (i + 1) cs k) (if ?h k then Some i else None)" for k
    by (simp add: over_def split: option.splits)
  have bits: "(if over x y = None then 0 else m) = (if x = None then 0 else m) OR (if y = None then 0 else m)"
    for x y :: "nat option" and m :: int by (cases x; cases y) (simp_all add: over_def)
  have sel: "over (over x (if b then Some i else None)) a = over x (if b then Some i else a)" for x a b
    by (simp add: over_def split: option.splits)
  have fl: "(if (if b then Some i else None) = None then 0 else m) = (if b then m else 0)" for b and m :: int by simp
  have pr: "\<forall>c \<in> set cs. c_iColumn c \<le> 3" using Cons.prems(1) by simp
  from Cons.IH [OF pr Cons.prems(2) [unfolded st]]
  show ?case unfolding le bits sel fl by (simp only: or.assoc or.commute or.left_commute simp_thms)
qed simp

text \<open>The arguments the engine passes for a plan: argument \<open>k\<close> is the right-hand side of the constraint whose
  \<open>argvIndex\<close> is \<open>k\<close>.\<close>

definition plan_argv :: "index_plan \<Rightarrow> nat \<Rightarrow> (nat \<Rightarrow> sqlite3_value) \<Rightarrow> sqlite3_value list" where
  "plan_argv p n vals = concat (map (\<lambda>k. map vals (filter (\<lambda>j. p_argvIndex p j = k) [0..<n])) [1, 2, 3])"

lemma filter_unique: "j < n \<Longrightarrow> (\<And>i. i < n \<Longrightarrow> P i \<longleftrightarrow> i = j) \<Longrightarrow> filter P [0..<n] = [j]"
proof (induction n)
  case (Suc n)
  show ?case
  proof (cases "j = n")
    case True
    then have "filter P [0..<n] = []" using Suc.prems by (auto simp: filter_empty_conv)
    then show ?thesis using Suc.prems True by simp
  next
    case False
    then have "filter P [0..<n] = [j]" using Suc by simp
    then show ?thesis using Suc.prems False by simp
  qed
qed simp

lemma plan_fields:
  assumes "seriesBestIndex cs ob = Plan_Ok p" and "\<forall>c \<in> set cs. c_iColumn c \<le> 3"
  defines "l \<equiv> last_eq 0 cs"
  shows "p_argvIndex p = assign_args 0 [l 1, l 2, l 3] (\<lambda>j. 0)"
    and "(p_idxNum p AND 1 \<noteq> 0) = (l 1 \<noteq> None)" "(p_idxNum p AND 2 \<noteq> 0) = (l 2 \<noteq> None)" "(p_idxNum p AND 4 \<noteq> 0) = (l 3 \<noteq> None)"
proof -
  obtain n seen u aIdx where r: "series_constraints 0 cs (0, False, 0, [None, None, None]) = (n, seen, u, aIdx)"
    by (cases "series_constraints 0 cs (0, False, 0, [None, None, None])") auto
  have a: "aIdx = [l 1, l 2, l 3]"
    and n: "n = 0 OR (if l 1 = None then 0 else 1) OR (if l 2 = None then 0 else 2) OR (if l 3 = None then 0 else 4)"
    using constraints_loop [OF assms(2) r] by (simp_all add: l_def)
  have p: "p_argvIndex p = assign_args 0 aIdx (\<lambda>j. 0)" "p_idxNum p = n \<or> p_idxNum p = n OR 8 \<or> p_idxNum p = n OR 16"
    using assms(1) by (auto simp: seriesBestIndex_def r Let_def split: if_splits)
  from p(1) show "p_argvIndex p = assign_args 0 [l 1, l 2, l 3] (\<lambda>j. 0)" by (simp only: a)
  show "(p_idxNum p AND 1 \<noteq> 0) = (l 1 \<noteq> None)" "(p_idxNum p AND 2 \<noteq> 0) = (l 2 \<noteq> None)" "(p_idxNum p AND 4 \<noteq> 0) = (l 3 \<noteq> None)"
    using p(2) unfolding n by (cases "l 1"; cases "l 2"; cases "l 3"; auto)+
qed

definition chosen :: "nat option list \<Rightarrow> nat list" where
  "chosen xs = concat (map (\<lambda>x. case x of None \<Rightarrow> [] | Some j \<Rightarrow> [j]) xs)"

lemma chosen_simps [simp]: "chosen [] = []" "chosen (None # xs) = chosen xs" "chosen (Some j # xs) = j # chosen xs"
  by (simp_all add: chosen_def)

lemma assign_other: "j \<notin> set (chosen xs) \<Longrightarrow> assign_args m xs u j = u j"
  by (induction m xs u rule: assign_args.induct) simp_all

lemma assign_nth: "distinct (chosen xs) \<Longrightarrow> i < length (chosen xs) \<Longrightarrow> assign_args m xs u (chosen xs ! i) = m + 1 + i"
proof (induction m xs u arbitrary: i rule: assign_args.induct)
  case (3 nArg j aIdx u)
  then show ?case by (cases i) (simp_all add: assign_other fun_upd_def)
qed simp_all

lemma filter_assigned:
  assumes "distinct (chosen xs)" and "\<forall>j \<in> set (chosen xs). j < n" and "0 < k"
  shows "filter (\<lambda>j. assign_args 0 xs (\<lambda>j. 0) j = k) [0..<n] = (if k \<le> length (chosen xs) then [chosen xs ! (k - 1)] else [])"
proof -
  have a: "assign_args 0 xs (\<lambda>j. 0) j = k \<longleftrightarrow> k \<le> length (chosen xs) \<and> j = chosen xs ! (k - 1)" for j
  proof (cases "j \<in> set (chosen xs)")
    case True
    then obtain i where i: "i < length (chosen xs)" "j = chosen xs ! i" by (metis in_set_conv_nth)
    then have "assign_args 0 xs (\<lambda>j. 0) j = 1 + i" using assign_nth [OF assms(1)] by simp
    then show ?thesis using i assms(1,3) nth_eq_iff_index_eq [OF assms(1), of i "k - 1"] by auto
  next
    case False
    then have "assign_args 0 xs (\<lambda>j. 0) j = 0" by (rule assign_other)
    then show ?thesis using False assms(3) nth_mem [of "k - 1" "chosen xs"] by auto
  qed
  show ?thesis
  proof (cases "k \<le> length (chosen xs)")
    case True
    then have "chosen xs ! (k - 1) < n" using assms(2,3) by simp
    from filter_unique [OF this, of "\<lambda>j. j = chosen xs ! (k - 1)"] True show ?thesis by (simp add: a)
  qed (simp add: a)
qed

lemma plan_argv_values:
  assumes "seriesBestIndex cs ob = Plan_Ok p" and "\<forall>c \<in> set cs. c_iColumn c \<le> 3"
  shows "plan_argv p (length cs) vals = map vals (chosen [last_eq 0 cs 1, last_eq 0 cs 2, last_eq 0 cs 3])"
proof -
  let ?l = "last_eq 0 cs" let ?xs = "[?l 1, ?l 2, ?l 3]"
  have b: "?l c = Some j \<Longrightarrow> j < length cs" for c j using last_eq_col [of 0 cs c j] by simp
  have d: "?l c = Some j \<Longrightarrow> ?l d = Some j \<Longrightarrow> c = d" for c d j by (rule last_eq_distinct)
  have ok: "distinct (chosen ?xs)" "\<forall>j \<in> set (chosen ?xs). j < length cs" "length (chosen ?xs) \<le> 3"
    using b [of 1] b [of 2] b [of 3] d [of 1 _ 2] d [of 1 _ 3] d [of 2 _ 3]
    by (cases "?l 1"; cases "?l 2"; cases "?l 3"; force)+
  have three: "concat (map (\<lambda>k. map vals (if k \<le> length js then [js ! (k - 1)] else [])) [1, 2, 3]) = map vals js"
    if "length js \<le> 3" for js :: "nat list"
    using that by (cases js rule: list.exhaust; cases "tl js"; cases "tl (tl js)") (auto simp: numeral_eq_Suc)
  show ?thesis
    unfolding plan_argv_def plan_fields(1) [OF assms]
    using three [OF ok(3)] filter_assigned [OF ok(1,2)] by simp
qed

section \<open>Properties\<close>



text \<open>\<open>seriesBestIndex\<close> and \<open>seriesFilter\<close> agree on the order of the arguments: when the planner accepts a set of
  constraints, the cursor starts with the right-hand sides of the last usable equality on each of the hidden
  columns, and with 0, 4294967295 and 1 for the columns without one.\<close>

theorem series_plan_feeds_filter:
  assumes "seriesBestIndex cs ob = Plan_Ok p" and "\<forall>c \<in> set cs. c_iColumn c \<le> 3" and "\<forall>j. vals j \<noteq> V_Null"
    and "s = seriesFilter ULONG_MAX value_int64 cur (p_idxNum p) (plan_argv p (length cs) vals)"
  shows "iBase s = (case last_eq 0 cs 1 of None \<Rightarrow> 0 | Some j \<Rightarrow> value_int64 (vals j)) \<and>
    iTerm s = (case last_eq 0 cs 2 of None \<Rightarrow> 0xffffffff | Some j \<Rightarrow> value_int64 (vals j)) \<and>
    iStep s = (case last_eq 0 cs 3 of None \<Rightarrow> 1 | Some j \<Rightarrow> if value_int64 (vals j) = 0 then 1 else value_int64 (vals j))"
proof -
  note f = plan_fields(2-4) [OF assms(1,2)]
  have n: "V_Null \<noteq> vals j" for j using assms(3) by metis
  show ?thesis
    unfolding assms(4) seriesFilter_def Let_def take_arg_def f plan_argv_values [OF assms(1,2)]
    by (cases "last_eq 0 cs 1"; cases "last_eq 0 cs 2"; cases "last_eq 0 cs 3")
      (simp_all add: setup_fields n)
qed

definition eq_on :: "int \<Rightarrow> index_constraint" where
  "eq_on col = \<lparr>c_iColumn = col, c_usable = True, c_eq = True\<rparr>"

theorem series_plan_feeds_filter_witness:
  "\<exists>p. seriesBestIndex [eq_on 2, eq_on 1] [] = Plan_Ok p \<and>
    iTerm (seriesFilter 0xffffffff (\<lambda>v. case v of V_Int i \<Rightarrow> word_of_int i | _ \<Rightarrow> 0) (the (seriesOpen (\<lambda>n. True)))
      (p_idxNum p) (plan_argv p (length [eq_on 2, eq_on 1]) (\<lambda>j. V_Int (int j + 20)))) = 20"
proof -
  have "\<exists>p. seriesBestIndex [eq_on 2, eq_on 1] [] = Plan_Ok p"
    by (simp add: seriesBestIndex_def eq_on_def Let_def)
  then obtain p where p: "seriesBestIndex [eq_on 2, eq_on 1] [] = Plan_Ok p" by blast
  from series_plan_feeds_filter [OF p, of "\<lambda>j. V_Int (int j + 20)" _ "0xffffffff" "\<lambda>v. case v of V_Int i \<Rightarrow> word_of_int i | _ \<Rightarrow> 0"]
  show ?thesis using p by (auto simp: eq_on_def)
qed

text \<open>The step excluded above is not handled: with \<open>generate_series(9223372036854775807, -1, -9223372036854775808)\<close>
  the members are the start and \<open>-1\<close>, but the scan returns the start only.\<close>

theorem smallest_step_drops_member:
  "series_members (2 ^ 63 - 1) (- 1) (- (2 ^ 63)) = [2 ^ 63 - 1, - 1] \<and>
   map_option (map fst) (series_scan (Suc (Suc 0)) (setupSequence 0xffffffff
     ((the (seriesOpen (\<lambda>n. True)))\<lparr>iBase := LLONG_MAX, iTerm := - 1, iStep := LLONG_MIN\<rparr>))) = Some [2 ^ 63 - 1]"
proof -
  let ?s0 = "(the (seriesOpen (\<lambda>n. True)))\<lparr>iBase := LLONG_MAX, iTerm := - 1, iStep := LLONG_MIN\<rparr>"
  have sp: "unat (seq_span False LLONG_MAX (- 1)) = 2 ^ 63" by (simp add: seq_span_def LLONG_MAX_def)
  have "setupSequence 0xffffffff ?s0 = ?s0\<lparr>isNotEOF := True, iValueNow := LLONG_MAX\<rparr>"
    using sp by (simp add: setupSequence_def seriesOpen_def LLONG_MAX_def LLONG_MIN_def Let_def)
  then show ?thesis
    by (simp add: series_members_def upt_rec series_scan_def seriesOpen_def LLONG_MAX_def seriesEof_def seriesNext_def
        progressSequence_def series_row_def seriesColumn_def)
qed

end
