(* ===== verification/Regexp.thy ===== *)
theory Regexp
  imports Bytes
begin

text \<open>
  The \<open>regexp\<close> and \<open>regexpi\<close> functions of the shell (\<open>shell.c\<close>, section \<open>ext/misc/regexp.c\<close>): a compiler from
  the text of a regular expression to the opcodes of a nondeterministic automaton, and a matcher that runs all
  its states at once.

  The arrays \<open>aOp\<close> and \<open>aArg\<close> are one list of pairs, so that \<open>nState\<close> is its length; the capacity \<open>nAlloc\<close> and the
  outcome of every allocation (the parameter \<open>malloc\<close>) are kept, because a failed one silently drops
  instructions.  Characters are integers.  An access outside the arrays is the value \<open>None\<close> of the matcher.  The
  mutually recursive parsing routines carry fuel; \<open>re_compile\<close> gives them enough for every pattern.
\<close>

section \<open>Input\<close>

definition at :: "byte list \<Rightarrow> nat \<Rightarrow> int" where
  "at z i = (if i < length z then uint (z ! i) else 0)"

definition cont :: "int \<Rightarrow> bool" where
  "cont b \<longleftrightarrow> b AND 0xc0 = 0x80"

definition re_next_char :: "byte list \<Rightarrow> nat \<Rightarrow> int \<times> nat" where
  "re_next_char z i =
     (if i \<ge> length z then (0, i)
      else
        let c = at z i; b1 = at z (i + 1); b2 = at z (i + 2); b3 = at z (i + 3) in
        if c < 0x80 then (c, i + 1)
        else if c AND 0xe0 = 0xc0 \<and> i + 1 < length z \<and> cont b1 then
          (let c' = push_bit 6 (c AND 0x1f) OR (b1 AND 0x3f) in (if c' < 0x80 then 0xfffd else c', i + 2))
        else if c AND 0xf0 = 0xe0 \<and> i + 2 < length z \<and> cont b1 \<and> cont b2 then
          (let c' = push_bit 12 (c AND 0x0f) OR push_bit 6 (b1 AND 0x3f) OR (b2 AND 0x3f) in
           (if c' \<le> 0x7ff \<or> (c' \<ge> 0xd800 \<and> c' \<le> 0xdfff) then 0xfffd else c', i + 3))
        else if c AND 0xf8 = 0xf0 \<and> i + 3 < length z \<and> cont b1 \<and> cont b2 \<and> cont b3 then
          (let c' = push_bit 18 (c AND 0x07) OR push_bit 12 (b1 AND 0x3f) OR push_bit 6 (b2 AND 0x3f) OR (b3 AND 0x3f) in
           (if c' \<le> 0xffff \<or> c' > 0x10ffff then 0xfffd else c', i + 4))
        else (0xfffd, i + 1))"

definition re_next_char_nocase :: "byte list \<Rightarrow> nat \<Rightarrow> int \<times> nat" where
  "re_next_char_nocase z i =
     (let (c, i') = re_next_char z i in (if c \<ge> 65 \<and> c \<le> 90 then c + 32 else c, i'))"

definition xNextChar :: "bool \<Rightarrow> byte list \<Rightarrow> nat \<Rightarrow> int \<times> nat" where
  "xNextChar noCase = (if noCase then re_next_char_nocase else re_next_char)"

definition re_word_char :: "int \<Rightarrow> bool" where
  "re_word_char c \<longleftrightarrow> (c \<ge> 48 \<and> c \<le> 57) \<or> (c \<ge> 97 \<and> c \<le> 122) \<or> (c \<ge> 65 \<and> c \<le> 90) \<or> c = 95"

definition re_digit_char :: "int \<Rightarrow> bool" where
  "re_digit_char c \<longleftrightarrow> c \<ge> 48 \<and> c \<le> 57"

definition re_space_char :: "int \<Rightarrow> bool" where
  "re_space_char c \<longleftrightarrow> c = 32 \<or> c = 9 \<or> c = 10 \<or> c = 13 \<or> c = 11 \<or> c = 12"

section \<open>The automaton\<close>

datatype re_opcode =
    RE_OP_MATCH | RE_OP_ANY | RE_OP_ANYSTAR | RE_OP_FORK | RE_OP_GOTO | RE_OP_ACCEPT
  | RE_OP_CC_INC | RE_OP_CC_EXC | RE_OP_CC_VALUE | RE_OP_CC_RANGE
  | RE_OP_WORD | RE_OP_NOTWORD | RE_OP_DIGIT | RE_OP_NOTDIGIT | RE_OP_SPACE | RE_OP_NOTSPACE
  | RE_OP_BOUNDARY | RE_OP_ATSTART

type_synonym re_code = "(re_opcode \<times> int) list"

definition RE_START :: int where
  "RE_START = 0xfffffff"

record ReCompiled =
  r_z :: "byte list"
  r_i :: nat
  r_zErr :: "string option"
  r_code :: re_code
  r_nAlloc :: int
  r_zInit :: "byte list"

abbreviation nState :: "ReCompiled \<Rightarrow> int" where
  "nState p \<equiv> int (length (r_code p))"

section \<open>Matching\<close>

text \<open>State numbers are kept in 16 bits.\<close>

definition re_add_state :: "int list \<Rightarrow> int \<Rightarrow> int list" where
  "re_add_state S newState = (if newState \<in> set S then S else S @ [newState mod 65536])"

definition op_at :: "re_code \<Rightarrow> int \<Rightarrow> (re_opcode \<times> int) option" where
  "op_at code x = (if 0 \<le> x \<and> x < int (length code) then Some (code ! nat x) else None)"

text \<open>The loop over a character class; \<open>None\<close> is a read behind the arrays.\<close>

function cc_hit :: "re_code \<Rightarrow> int \<Rightarrow> int \<Rightarrow> int \<Rightarrow> int \<Rightarrow> bool option" where
  "cc_hit code x n c j =
     (if j > 0 \<and> j < n then
        (case op_at code (x + j) of
           None \<Rightarrow> None
         | Some (op, a) \<Rightarrow>
             if op = RE_OP_CC_VALUE then (if a = c then Some True else cc_hit code x n c (j + 1))
             else if a \<le> c then
               (case op_at code (x + j + 1) of
                  None \<Rightarrow> None
                | Some (_, b) \<Rightarrow> if b \<ge> c then Some True else cc_hit code x n c (j + 2))
             else cc_hit code x n c (j + 2))
      else Some False)"
  by pat_completeness auto

termination cc_hit
  by (relation "measure (\<lambda>(code, x, n, c, j). nat (n - j))") auto

declare cc_hit.simps [simp del]

text \<open>The switch over the opcode of state \<open>x\<close>: whether it accepts, the states added to \<open>pThis\<close> and those added to
  \<open>pNext\<close>.\<close>

definition re_switch :: "re_code \<Rightarrow> int \<Rightarrow> int \<Rightarrow> int \<Rightarrow> (bool \<times> int list \<times> int list) option" where
  "re_switch code c cPrev x =
     (case op_at code x of
        None \<Rightarrow> None
      | Some (op, arg) \<Rightarrow>
          (case op of
             RE_OP_MATCH \<Rightarrow> Some (False, [], if arg = c then [x + 1] else [])
           | RE_OP_ATSTART \<Rightarrow> Some (False, if cPrev = RE_START then [x + 1] else [], [])
           | RE_OP_ANY \<Rightarrow> Some (False, [], if c \<noteq> 0 then [x + 1] else [])
           | RE_OP_WORD \<Rightarrow> Some (False, [], if re_word_char c then [x + 1] else [])
           | RE_OP_NOTWORD \<Rightarrow> Some (False, [], if \<not> re_word_char c \<and> c \<noteq> 0 then [x + 1] else [])
           | RE_OP_DIGIT \<Rightarrow> Some (False, [], if re_digit_char c then [x + 1] else [])
           | RE_OP_NOTDIGIT \<Rightarrow> Some (False, [], if \<not> re_digit_char c \<and> c \<noteq> 0 then [x + 1] else [])
           | RE_OP_SPACE \<Rightarrow> Some (False, [], if re_space_char c then [x + 1] else [])
           | RE_OP_NOTSPACE \<Rightarrow> Some (False, [], if \<not> re_space_char c \<and> c \<noteq> 0 then [x + 1] else [])
           | RE_OP_BOUNDARY \<Rightarrow> Some (False, if re_word_char c \<noteq> re_word_char cPrev then [x + 1] else [], [])
           | RE_OP_ANYSTAR \<Rightarrow> Some (False, [x + 1], [x])
           | RE_OP_FORK \<Rightarrow> Some (False, [x + arg, x + 1], [])
           | RE_OP_GOTO \<Rightarrow> Some (False, [x + arg], [])
           | RE_OP_ACCEPT \<Rightarrow> Some (True, [], [])
           | RE_OP_CC_EXC \<Rightarrow>
               if c = 0 then Some (False, [], [])
               else (case cc_hit code x arg c 1 of
                       None \<Rightarrow> None
                     | Some hit \<Rightarrow> Some (False, [], if \<not> hit then [x + arg] else []))
           | RE_OP_CC_INC \<Rightarrow>
               (case cc_hit code x arg c 1 of
                  None \<Rightarrow> None
                | Some hit \<Rightarrow> Some (False, [], if hit then [x + arg] else []))
           | RE_OP_CC_VALUE \<Rightarrow> Some (False, [], [])
           | RE_OP_CC_RANGE \<Rightarrow> Some (False, [], [])))"

text \<open>The loop over \<open>pThis\<close>, which grows while it runs.  Each set has room for \<open>nState\<close> states.\<close>

function re_states :: "re_code \<Rightarrow> int \<Rightarrow> int \<Rightarrow> nat \<Rightarrow> int list \<Rightarrow> int list \<Rightarrow> (bool \<times> int list) option" where
  "re_states code c cPrev i this nxt =
     (if i < length this then
        (if length this > length code \<or> length nxt > length code then None
         else
           case re_switch code c cPrev (this ! i) of
             None \<Rightarrow> None
           | Some (accept, addThis, addNext) \<Rightarrow>
               if accept then Some (True, nxt)
               else re_states code c cPrev (i + 1) (foldl re_add_state this addThis) (foldl re_add_state nxt addNext))
      else if length this > length code \<or> length nxt > length code then None
      else Some (False, nxt))"
  by pat_completeness auto

termination re_states
  by (relation "measure (\<lambda>(code, c, cPrev, i, this, nxt). length code - i)") auto

declare re_states.simps [simp del]

text \<open>The last loop: the states left at the end of the input, through their jumps.  The fuel bounds a chain of
  jumps.\<close>

fun goto_chain :: "nat \<Rightarrow> re_code \<Rightarrow> int \<Rightarrow> bool option" where
  "goto_chain 0 code x = None"
| "goto_chain (Suc f) code x =
     (case op_at code x of
        None \<Rightarrow> None
      | Some (op, arg) \<Rightarrow> if op = RE_OP_GOTO then goto_chain f code (x + arg) else Some (op = RE_OP_ACCEPT))"

fun re_final :: "re_code \<Rightarrow> int list \<Rightarrow> bool option" where
  "re_final code [] = Some False"
| "re_final code (x # xs) =
     (case goto_chain (length code + 1) code x of
        None \<Rightarrow> None
      | Some True \<Rightarrow> Some True
      | Some False \<Rightarrow> re_final code xs)"

lemma re_next_char_progress: "xNextChar noCase z i = (c, i') \<Longrightarrow> i < length z \<Longrightarrow> i < i'"
  by (auto simp: xNextChar_def re_next_char_nocase_def re_next_char_def Let_def split: if_splits prod.splits)

lemma re_next_char_end: "xNextChar noCase z i = (c, i') \<Longrightarrow> length z \<le> i \<Longrightarrow> c = 0 \<and> i' = i"
  by (auto simp: xNextChar_def re_next_char_nocase_def re_next_char_def Let_def split: if_splits prod.splits)

text \<open>The loop over the characters of the input.\<close>

function re_run :: "re_code \<Rightarrow> bool \<Rightarrow> byte list \<Rightarrow> nat \<Rightarrow> int \<Rightarrow> int list \<Rightarrow> bool option" where
  "re_run code noCase z i c pNext =
     (if c \<noteq> 0 \<and> pNext \<noteq> [] then
        (case xNextChar noCase z i of
           (c', i') \<Rightarrow>
             (case re_states code c' c 0 pNext [] of
                None \<Rightarrow> None
              | Some (accept, pNext') \<Rightarrow> if accept then Some True else re_run code noCase z i' c' pNext'))
      else re_final code pNext)"
  by pat_completeness auto

termination re_run
proof (relation "measure (\<lambda>(code, noCase, z, i, c, pNext). if c = 0 then 0 else Suc (length z - i))", goal_cases)
  case (2 code noCase z i c pNext c' i')
  then show ?case using re_next_char_progress [of noCase z i c' i'] re_next_char_end [of noCase z i c' i']
    by (cases "i < length z") auto
qed simp

declare re_run.simps [simp del]

text \<open>Skipping to the first place where the initial bytes match.\<close>

function re_find_init :: "byte list \<Rightarrow> byte list \<Rightarrow> nat \<Rightarrow> nat" where
  "re_find_init zInit z i =
     (if zInit \<noteq> [] \<and> i + length zInit \<le> length z \<and> take (length zInit) (drop i z) \<noteq> zInit
      then re_find_init zInit z (i + 1) else i)"
  by pat_completeness auto

termination re_find_init
proof (relation "measure (\<lambda>(zInit, z, i). length z - i)", goal_cases)
  case (2 zInit z i)
  then have "0 < length zInit" "i + length zInit \<le> length z" by auto
  then have "i < length z" by linarith
  then show ?case by simp
qed simp

declare re_find_init.simps [simp del]

definition re_match :: "(int \<Rightarrow> bool) \<Rightarrow> ReCompiled \<Rightarrow> bool \<Rightarrow> byte list \<Rightarrow> int option" where
  "re_match malloc pRe noCase zIn =
     (let i = re_find_init (r_zInit pRe) zIn 0;
          c = (if r_zInit pRe \<noteq> [] then RE_START - 1 else RE_START) in
      if r_zInit pRe \<noteq> [] \<and> i + length (r_zInit pRe) > length zIn then Some 0
      else if nState pRe > 50 \<and> \<not> malloc (4 * nState pRe) then Some (- 1)
      else map_option (\<lambda>b. if b then 1 else 0) (re_run (r_code pRe) noCase zIn i c (re_add_state [] 0)))"

section \<open>Compiling\<close>

definition quoted :: "string \<Rightarrow> string" where
  "quoted s = [CHR 0x27] @ s @ [CHR 0x27]"

text \<open>\<open>re_resize\<close>: both arrays are reallocated.\<close>

definition re_resize :: "(int \<Rightarrow> bool) \<Rightarrow> ReCompiled \<Rightarrow> int \<Rightarrow> bool \<times> ReCompiled" where
  "re_resize malloc p N = (if malloc N \<and> malloc (4 * N) then (False, p\<lparr>r_nAlloc := N\<rparr>) else (True, p))"

text \<open>On a failed allocation nothing is inserted and 0 is returned.\<close>

definition re_insert :: "(int \<Rightarrow> bool) \<Rightarrow> ReCompiled \<Rightarrow> int \<Rightarrow> re_opcode \<Rightarrow> int \<Rightarrow> ReCompiled \<times> int" where
  "re_insert malloc p iBefore op arg =
     (let (failed, p1) = (if r_nAlloc p \<le> nState p then re_resize malloc p (r_nAlloc p * 2) else (False, p)) in
      if failed then (p1, 0)
      else (p1\<lparr>r_code := take (nat iBefore) (r_code p1) @ (op, arg) # drop (nat iBefore) (r_code p1)\<rparr>, iBefore))"

definition re_append :: "(int \<Rightarrow> bool) \<Rightarrow> ReCompiled \<Rightarrow> re_opcode \<Rightarrow> int \<Rightarrow> ReCompiled \<times> int" where
  "re_append malloc p op arg = re_insert malloc p (nState p) op arg"

definition re_copy :: "(int \<Rightarrow> bool) \<Rightarrow> int \<Rightarrow> int \<Rightarrow> ReCompiled \<Rightarrow> ReCompiled" where
  "re_copy malloc iStart N p =
     (let (failed, p1) = (if nState p + N \<ge> r_nAlloc p then re_resize malloc p (r_nAlloc p * 2 + N) else (False, p)) in
      if failed then p1
      else p1\<lparr>r_code := r_code p1 @ take (nat N) (drop (nat iStart) (r_code p1))\<rparr>)"

definition set_arg :: "ReCompiled \<Rightarrow> int \<Rightarrow> int \<Rightarrow> ReCompiled" where
  "set_arg p k arg = p\<lparr>r_code := (r_code p)[nat k := (fst (r_code p ! nat k), arg)]\<rparr>"

definition re_hex :: "int \<Rightarrow> int \<Rightarrow> int option" where
  "re_hex c v =
     (if c \<ge> 48 \<and> c \<le> 57 then Some (v * 16 + (c - 48))
      else if c \<ge> 97 \<and> c \<le> 102 then Some (v * 16 + (c - 87))
      else if c \<ge> 65 \<and> c \<le> 70 then Some (v * 16 + (c - 55))
      else None)"

fun re_hexs :: "int list \<Rightarrow> int \<Rightarrow> int option" where
  "re_hexs [] v = Some v"
| "re_hexs (c # cs) v = (case re_hex c v of None \<Rightarrow> None | Some v' \<Rightarrow> re_hexs cs v')"

definition zEsc :: "int list" where
  "zEsc = map of_char (''afnrtv'' @ [CHR 0x5c] @ ''()*.+?[$^{|}]'')"

definition zTrans :: "int list" where
  "zTrans = [7, 12, 10, 13, 9, 11]"

text \<open>The character after a backslash.  The source reads it into a \<open>char\<close>, which is signed.\<close>

definition re_esc_char :: "ReCompiled \<Rightarrow> int \<times> ReCompiled" where
  "re_esc_char p =
     (let i = r_i p; z = r_z p; mx = length z in
      if i \<ge> mx then (0, p)
      else
        let c = at z i; sc = (if c \<ge> 128 then c - 256 else c);
            u = (if c = 117 \<and> i + 4 < mx then re_hexs [at z (i + 1), at z (i + 2), at z (i + 3), at z (i + 4)] 0 else None);
            h = (if c = 120 \<and> i + 2 < mx then re_hexs [at z (i + 1), at z (i + 2)] 0 else None);
            k = length (takeWhile (\<lambda>e. e \<noteq> sc) zEsc) in
        case u of
          Some v \<Rightarrow> (v, p\<lparr>r_i := i + 5\<rparr>)
        | None \<Rightarrow>
            (case h of
               Some v \<Rightarrow> (v, p\<lparr>r_i := i + 3\<rparr>)
             | None \<Rightarrow>
                 if k < length zEsc then (if k < 6 then zTrans ! k else sc, p\<lparr>r_i := i + 1\<rparr>)
                 else (sc, p\<lparr>r_zErr := Some (''unknown '' @ [CHR 0x5c] @ '' escape'')\<rparr>)))"

definition rePeek :: "ReCompiled \<Rightarrow> int" where
  "rePeek p = at (r_z p) (r_i p)"

definition re_getc :: "bool \<Rightarrow> ReCompiled \<Rightarrow> int \<times> ReCompiled" where
  "re_getc noCase p = (case xNextChar noCase (r_z p) (r_i p) of (c, i) \<Rightarrow> (c, p\<lparr>r_i := i\<rparr>))"

definition re_skip :: "ReCompiled \<Rightarrow> ReCompiled" where
  "re_skip p = p\<lparr>r_i := r_i p + 1\<rparr>"

definition app :: "(int \<Rightarrow> bool) \<Rightarrow> re_opcode \<Rightarrow> int \<Rightarrow> ReCompiled \<Rightarrow> ReCompiled" where
  "app malloc op arg p = fst (re_append malloc p op arg)"

text \<open>A decimal number of an interval; the value and the bytes read.\<close>

fun re_number :: "byte list \<Rightarrow> int \<Rightarrow> int \<times> nat" where
  "re_number [] m = (m, 0)"
| "re_number (b # z) m =
     (if re_digit_char (uint b) then (case re_number z (int32 (m * 10 + uint b - 48)) of (m', k) \<Rightarrow> (m', k + 1)) else (m, 0))"

definition re_getnum :: "ReCompiled \<Rightarrow> int \<times> ReCompiled" where
  "re_getnum p = (case re_number (drop (r_i p) (r_z p)) 0 of (m, k) \<Rightarrow> (m, p\<lparr>r_i := r_i p + k\<rparr>))"

text \<open>The expansion of \<open>X{m,n}\<close>, where \<open>X\<close> is the code from \<open>iPrev\<close> on.\<close>

definition re_repeat :: "(int \<Rightarrow> bool) \<Rightarrow> int \<Rightarrow> int \<Rightarrow> int \<Rightarrow> ReCompiled \<Rightarrow> ReCompiled \<times> string option" where
  "re_repeat malloc iPrev m n p =
     (let sz = nState p - iPrev in
      if m = 0 \<and> n = 0 then (p, Some (''both m and n are zero in '' @ quoted ''{m,n}''))
      else
        let (p1, iPrev1, n1) =
              (if m = 0 then (fst (re_insert malloc p iPrev RE_OP_FORK (sz + 1)), iPrev + 1, n - 1)
               else ((re_copy malloc iPrev sz ^^ nat (m - 1)) p, iPrev, n));
            p2 = ((\<lambda>q. re_copy malloc iPrev1 sz (app malloc RE_OP_FORK (sz + 1) q)) ^^ nat (n1 - m)) p1;
            p3 = (if n1 = 0 \<and> m > 0 then app malloc RE_OP_FORK (- sz) p2 else p2) in
        (p3, None))"

definition re_interval :: "(int \<Rightarrow> bool) \<Rightarrow> int \<Rightarrow> ReCompiled \<Rightarrow> ReCompiled \<times> string option" where
  "re_interval malloc iPrev p =
     (if iPrev < 0 then (p, Some (quoted ''{m,n}'' @ '' without operand''))
      else
        let (m, p1) = re_getnum p;
            (n, p2) = (if rePeek p1 = 44 then re_getnum (re_skip p1) else (m, p1)) in
        if rePeek p2 \<noteq> 125 then (p2, Some (''unmatched '' @ quoted ''{''))
        else if n > 0 \<and> n < m then (p2, Some (''n less than m in '' @ quoted ''{m,n}''))
        else re_repeat malloc iPrev m n (re_skip p2))"

text \<open>The members of a class up to the closing bracket; also the last character read.  \<open>None\<close>: out of fuel.\<close>

definition re_maybe_esc :: "int \<Rightarrow> ReCompiled \<Rightarrow> int \<times> ReCompiled" where
  "re_maybe_esc c p = (if c = 92 then re_esc_char p else (c, p))"

fun re_class :: "nat \<Rightarrow> (int \<Rightarrow> bool) \<Rightarrow> bool \<Rightarrow> ReCompiled \<Rightarrow> (ReCompiled \<times> int \<times> string option) option" where
  "re_class 0 malloc noCase p = None"
| "re_class (Suc f) malloc noCase p =
     (let (c0, p0) = re_getc noCase p in
      if c0 = 0 then Some (p0, 0, None)
      else if c0 = 91 \<and> rePeek p0 = 58 then Some (p0, c0, Some ''POSIX character classes not supported'')
      else
        let (c1, p1) = re_maybe_esc c0 p0;
            (c2, p2) =
              (if rePeek p1 = 45 then
                 (let (c, q) = re_getc noCase (re_skip (app malloc RE_OP_CC_RANGE c1 p1));
                      (c', q') = re_maybe_esc c q in
                  (c', app malloc RE_OP_CC_RANGE c' q'))
               else (c1, app malloc RE_OP_CC_VALUE c1 p1)) in
        if rePeek p2 = 93 then Some (re_skip p2, c2, None) else re_class f malloc noCase p2)"

definition re_bracket :: "(int \<Rightarrow> bool) \<Rightarrow> bool \<Rightarrow> ReCompiled \<Rightarrow> (ReCompiled \<times> string option) option" where
  "re_bracket malloc noCase p =
     (let iFirst = nState p;
          p1 = (if rePeek p = 94 then re_skip (app malloc RE_OP_CC_EXC 0 p) else app malloc RE_OP_CC_INC 0 p) in
      case re_class (Suc (length (r_z p))) malloc noCase p1 of
        None \<Rightarrow> None
      | Some (p2, c, Some e) \<Rightarrow> Some (p2, Some e)
      | Some (p2, c, None) \<Rightarrow>
          if c = 0 then Some (p2, Some (''unclosed '' @ quoted ''[''))
          else Some (if nState p2 > iFirst then set_arg p2 iFirst (nState p2 - iFirst) else p2, None))"

definition re_backslash :: "(int \<Rightarrow> bool) \<Rightarrow> ReCompiled \<Rightarrow> ReCompiled" where
  "re_backslash malloc p =
     (let b = rePeek p;
          special = (if b = 98 then Some RE_OP_BOUNDARY else if b = 100 then Some RE_OP_DIGIT
            else if b = 68 then Some RE_OP_NOTDIGIT else if b = 115 then Some RE_OP_SPACE
            else if b = 83 then Some RE_OP_NOTSPACE else if b = 119 then Some RE_OP_WORD
            else if b = 87 then Some RE_OP_NOTWORD else None) in
      case special of
        Some op \<Rightarrow> app malloc op 0 (re_skip p)
      | None \<Rightarrow> (let (c, q) = re_esc_char p in app malloc RE_OP_MATCH c q))"

text \<open>One element of a string, other than a parenthesis.\<close>

definition re_element ::
  "(int \<Rightarrow> bool) \<Rightarrow> bool \<Rightarrow> int \<Rightarrow> int \<Rightarrow> ReCompiled \<Rightarrow> (ReCompiled \<times> string option) option" where
  "re_element malloc noCase c iPrev p =
     (if c = 46 then
        Some (if rePeek p = 42 then re_skip (app malloc RE_OP_ANYSTAR 0 p) else app malloc RE_OP_ANY 0 p, None)
      else if c = 42 then
        (if iPrev < 0 then Some (p, Some (quoted ''*'' @ '' without operand''))
         else
           let p1 = fst (re_insert malloc p iPrev RE_OP_GOTO (nState p - iPrev + 1)) in
           Some (app malloc RE_OP_FORK (iPrev - nState p1 + 1) p1, None))
      else if c = 43 then
        (if iPrev < 0 then Some (p, Some (quoted ''+'' @ '' without operand''))
         else Some (app malloc RE_OP_FORK (iPrev - nState p) p, None))
      else if c = 63 then
        (if iPrev < 0 then Some (p, Some (quoted ''?'' @ '' without operand''))
         else Some (fst (re_insert malloc p iPrev RE_OP_FORK (nState p - iPrev + 1)), None))
      else if c = 36 then Some (app malloc RE_OP_MATCH 0 p, None)
      else if c = 94 then Some (app malloc RE_OP_ATSTART 0 p, None)
      else if c = 123 then Some (re_interval malloc iPrev p)
      else if c = 91 then re_bracket malloc noCase p
      else if c = 92 then Some (re_backslash malloc p, None)
      else Some (app malloc RE_OP_MATCH c p, None))"

fun re_subcompile_re ::
    "nat \<Rightarrow> (int \<Rightarrow> bool) \<Rightarrow> bool \<Rightarrow> ReCompiled \<Rightarrow> (ReCompiled \<times> string option) option"
  and re_alternatives ::
    "nat \<Rightarrow> (int \<Rightarrow> bool) \<Rightarrow> bool \<Rightarrow> int \<Rightarrow> ReCompiled \<Rightarrow> (ReCompiled \<times> string option) option"
  and re_subcompile_string ::
    "nat \<Rightarrow> (int \<Rightarrow> bool) \<Rightarrow> bool \<Rightarrow> int \<Rightarrow> ReCompiled \<Rightarrow> (ReCompiled \<times> string option) option" where
  "re_subcompile_re 0 malloc noCase p = None"
| "re_subcompile_re (Suc f) malloc noCase p =
     (case re_subcompile_string f malloc noCase (- 1) p of
        None \<Rightarrow> None
      | Some (p1, Some e) \<Rightarrow> Some (p1, Some e)
      | Some (p1, None) \<Rightarrow> re_alternatives f malloc noCase (nState p) p1)"
| "re_alternatives 0 malloc noCase iStart p = None"
| "re_alternatives (Suc f) malloc noCase iStart p =
     (if rePeek p = 124 then
        (let iEnd = nState p;
             p1 = fst (re_insert malloc p iStart RE_OP_FORK (iEnd + 2 - iStart));
             (p2, iGoto) = re_append malloc p1 RE_OP_GOTO 0 in
         case re_subcompile_string f malloc noCase (- 1) (re_skip p2) of
           None \<Rightarrow> None
         | Some (p3, Some e) \<Rightarrow> Some (p3, Some e)
         | Some (p3, None) \<Rightarrow> re_alternatives f malloc noCase iStart (set_arg p3 iGoto (nState p3 - iGoto)))
      else Some (p, None))"
| "re_subcompile_string 0 malloc noCase iPrev p = None"
| "re_subcompile_string (Suc f) malloc noCase iPrev p =
     (let (c, p1) = re_getc noCase p; iStart = nState p in
      if c = 0 then Some (p1, None)
      else if c = 124 \<or> c = 41 then Some (p1\<lparr>r_i := r_i p1 - 1\<rparr>, None)
      else if c = 40 then
        (case re_subcompile_re f malloc noCase p1 of
           None \<Rightarrow> None
         | Some (p2, Some e) \<Rightarrow> Some (p2, Some e)
         | Some (p2, None) \<Rightarrow>
             if rePeek p2 \<noteq> 41 then Some (p2, Some (''unmatched '' @ quoted ''(''))
             else re_subcompile_string f malloc noCase iStart (re_skip p2))
      else
        (case re_element malloc noCase c iPrev p1 of
           None \<Rightarrow> None
         | Some (p2, Some e) \<Rightarrow> Some (p2, Some e)
         | Some (p2, None) \<Rightarrow> re_subcompile_string f malloc noCase iStart p2))"

text \<open>The initial bytes every match starts with: the literal characters behind the leading \<open>.*\<close>, in UTF-8.  The
  buffer has twelve bytes.\<close>

fun re_init_bytes :: "re_code \<Rightarrow> byte list \<Rightarrow> byte list" where
  "re_init_bytes [] zInit = zInit"
| "re_init_bytes ((op, x) # code) zInit =
     (if length zInit < 10 \<and> op = RE_OP_MATCH then
        (if 0 \<le> x \<and> x \<le> 0x7f then re_init_bytes code (zInit @ [word_of_int x])
         else if 0 \<le> x \<and> x \<le> 0x7ff then
           re_init_bytes code (zInit @ [word_of_int (0xc0 OR drop_bit 6 x), word_of_int (0x80 OR (x AND 0x3f))])
         else if 0 \<le> x \<and> x \<le> 0xffff then
           re_init_bytes code (zInit @ [word_of_int (0xe0 OR drop_bit 12 x),
             word_of_int (0x80 OR (drop_bit 6 x AND 0x3f)), word_of_int (0x80 OR (x AND 0x3f))])
         else zInit)
      else zInit)"

definition re_init :: "bool \<Rightarrow> re_code \<Rightarrow> byte list" where
  "re_init noCase code =
     (if fst (hd code) = RE_OP_ANYSTAR \<and> \<not> noCase then
        (let zInit = re_init_bytes (tl code) [] in
         if zInit \<noteq> [] \<and> last zInit = 0 then butlast zInit else zInit)
      else [])"

definition re_fuel :: "byte list \<Rightarrow> nat" where
  "re_fuel z = 3 * length z + 3"

datatype re_compile_result = Re_Ok ReCompiled | Re_Err string | Re_NoFuel

definition re_start :: "(int \<Rightarrow> bool) \<Rightarrow> byte list \<Rightarrow> ReCompiled" where
  "re_start malloc zIn =
     (let p = \<lparr>r_z = (if rd zIn = 94 then tl zIn else zIn), r_i = 0, r_zErr = None, r_code = [], r_nAlloc = 30, r_zInit = []\<rparr> in
      if rd zIn = 94 then p else app malloc RE_OP_ANYSTAR 0 p)"

definition re_compile :: "(int \<Rightarrow> bool) \<Rightarrow> byte list \<Rightarrow> bool \<Rightarrow> re_compile_result" where
  "re_compile malloc zIn noCase =
     (if \<not> malloc 72 \<or> \<not> malloc 30 \<or> \<not> malloc 120 then Re_Err ''out of memory''
      else
        case re_subcompile_re (re_fuel zIn) malloc noCase (re_start malloc zIn) of
          None \<Rightarrow> Re_NoFuel
        | Some (p, Some e) \<Rightarrow> Re_Err e
        | Some (p, None) \<Rightarrow>
            if r_i p \<ge> length (r_z p) then
              (let p1 = app malloc RE_OP_ACCEPT 0 p; p2 = p1\<lparr>r_zInit := re_init noCase (r_code p1)\<rparr> in
               case r_zErr p2 of Some e \<Rightarrow> Re_Err e | None \<Rightarrow> Re_Ok p2)
            else Re_Err ''unrecognized character'')"

text \<open>\<open>regexp(pattern, text)\<close>; the arguments are the texts of the SQL values, \<open>None\<close> for NULL.  A match outside the
  arrays has no result.\<close>

definition re_sql_func ::
  "(int \<Rightarrow> bool) \<Rightarrow> bool \<Rightarrow> byte list option \<Rightarrow> byte list option \<Rightarrow> sqlite3_result option" where
  "re_sql_func malloc noCase zPattern zStr =
     (case zPattern of
        None \<Rightarrow> Some R_Null
      | Some pat \<Rightarrow>
          (case re_compile malloc pat noCase of
             Re_NoFuel \<Rightarrow> None
           | Re_Err e \<Rightarrow> Some (R_Error e)
           | Re_Ok pRe \<Rightarrow>
               (case zStr of
                  None \<Rightarrow> Some R_Null
                | Some s \<Rightarrow> map_option R_Int (re_match malloc pRe noCase s))))"

end
