(* ===== verification/Regexp_Match.thy ===== *)
theory Regexp_Match
  imports Regexp
begin

text \<open>
  The matcher runs the automaton: for code whose jumps stay inside the arrays, \<open>re_match\<close> never leaves them, always
  ends, and answers whether the automaton has an accepting run on the characters of the text.  The runs are given by
  inductive step relations, one rule for each opcode.
\<close>

section \<open>Runs of the automaton\<close>

text \<open>Moves that do not read a character; \<open>c\<close> is the character ahead and \<open>cPrev\<close> the one before.\<close>

inductive nfa_eps :: "re_code \<Rightarrow> int \<Rightarrow> int \<Rightarrow> int \<Rightarrow> int \<Rightarrow> bool" for code c cPrev where
  atstart: "op_at code x = Some (RE_OP_ATSTART, a) \<Longrightarrow> cPrev = RE_START \<Longrightarrow> nfa_eps code c cPrev x (x + 1)"
| boundary: "op_at code x = Some (RE_OP_BOUNDARY, a) \<Longrightarrow> re_word_char c \<noteq> re_word_char cPrev \<Longrightarrow> nfa_eps code c cPrev x (x + 1)"
| anystar: "op_at code x = Some (RE_OP_ANYSTAR, a) \<Longrightarrow> nfa_eps code c cPrev x (x + 1)"
| fork_next: "op_at code x = Some (RE_OP_FORK, a) \<Longrightarrow> nfa_eps code c cPrev x (x + 1)"
| fork_jump: "op_at code x = Some (RE_OP_FORK, a) \<Longrightarrow> nfa_eps code c cPrev x (x + a)"
| goto_jump: "op_at code x = Some (RE_OP_GOTO, a) \<Longrightarrow> nfa_eps code c cPrev x (x + a)"

text \<open>Moves that read the character \<open>c\<close>; the end of the input is read as 0.\<close>

inductive nfa_read :: "re_code \<Rightarrow> int \<Rightarrow> int \<Rightarrow> int \<Rightarrow> bool" for code c where
  literal: "op_at code x = Some (RE_OP_MATCH, c) \<Longrightarrow> nfa_read code c x (x + 1)"
| any_char: "op_at code x = Some (RE_OP_ANY, a) \<Longrightarrow> c \<noteq> 0 \<Longrightarrow> nfa_read code c x (x + 1)"
| any_star: "op_at code x = Some (RE_OP_ANYSTAR, a) \<Longrightarrow> nfa_read code c x x"
| word: "op_at code x = Some (RE_OP_WORD, a) \<Longrightarrow> re_word_char c \<Longrightarrow> nfa_read code c x (x + 1)"
| notword: "op_at code x = Some (RE_OP_NOTWORD, a) \<Longrightarrow> \<not> re_word_char c \<Longrightarrow> c \<noteq> 0 \<Longrightarrow> nfa_read code c x (x + 1)"
| digit: "op_at code x = Some (RE_OP_DIGIT, a) \<Longrightarrow> re_digit_char c \<Longrightarrow> nfa_read code c x (x + 1)"
| notdigit: "op_at code x = Some (RE_OP_NOTDIGIT, a) \<Longrightarrow> \<not> re_digit_char c \<Longrightarrow> c \<noteq> 0 \<Longrightarrow> nfa_read code c x (x + 1)"
| space: "op_at code x = Some (RE_OP_SPACE, a) \<Longrightarrow> re_space_char c \<Longrightarrow> nfa_read code c x (x + 1)"
| notspace: "op_at code x = Some (RE_OP_NOTSPACE, a) \<Longrightarrow> \<not> re_space_char c \<Longrightarrow> c \<noteq> 0 \<Longrightarrow> nfa_read code c x (x + 1)"
| class_in: "op_at code x = Some (RE_OP_CC_INC, n) \<Longrightarrow> cc_hit code x n c 1 = Some True \<Longrightarrow> nfa_read code c x (x + n)"
| class_out: "op_at code x = Some (RE_OP_CC_EXC, n) \<Longrightarrow> cc_hit code x n c 1 = Some False \<Longrightarrow> c \<noteq> 0 \<Longrightarrow> nfa_read code c x (x + n)"

definition accepting :: "re_code \<Rightarrow> int \<Rightarrow> bool" where
  "accepting code x \<longleftrightarrow> (\<exists>a. op_at code x = Some (RE_OP_ACCEPT, a))"

text \<open>Behind the end of the input only jumps are followed.\<close>

inductive ends_accepting :: "re_code \<Rightarrow> int \<Rightarrow> bool" for code where
  here: "accepting code x \<Longrightarrow> ends_accepting code x"
| jump: "op_at code x = Some (RE_OP_GOTO, a) \<Longrightarrow> ends_accepting code (x + a) \<Longrightarrow> ends_accepting code x"

text \<open>An accepting run from state \<open>x\<close> on the characters ahead, the last of which is 0, the end of the input.\<close>

inductive nfa_accepts :: "re_code \<Rightarrow> int \<Rightarrow> int list \<Rightarrow> int \<Rightarrow> bool" for code where
  stop: "accepting code x \<Longrightarrow> nfa_accepts code cPrev (c # cs) x"
| move: "nfa_eps code c cPrev x y \<Longrightarrow> nfa_accepts code cPrev (c # cs) y \<Longrightarrow> nfa_accepts code cPrev (c # cs) x"
| read: "nfa_read code c x y \<Longrightarrow> c \<noteq> 0 \<Longrightarrow> nfa_accepts code c cs y \<Longrightarrow> nfa_accepts code cPrev (c # cs) x"
| finish: "nfa_read code 0 x y \<Longrightarrow> ends_accepting code y \<Longrightarrow> nfa_accepts code cPrev [0] x"

inductive_cases nfa_acceptsE: "nfa_accepts code cPrev (c # cs) x"
inductive_cases ends_acceptingE: "ends_accepting code x"

text \<open>The characters of a text from byte \<open>i\<close> on, closed by the end of the input.\<close>

function re_chars :: "bool \<Rightarrow> byte list \<Rightarrow> nat \<Rightarrow> int list" where
  "re_chars noCase z i =
     (case xNextChar noCase z i of (c, i') \<Rightarrow> if c = 0 then [0] else c # re_chars noCase z i')"
  by pat_completeness auto

termination re_chars
proof (relation "measure (\<lambda>(noCase, z, i). length z - i)", goal_cases)
  case (2 noCase z i c i')
  then show ?case using re_next_char_progress [of noCase z i c i'] re_next_char_end [of noCase z i c i']
    by (cases "i < length z") auto
qed simp

declare re_chars.simps [simp del]

section \<open>Code that stays inside the arrays\<close>

definition targets :: "int \<Rightarrow> re_opcode \<times> int \<Rightarrow> int list" where
  "targets k instr =
     (case instr of
        (op, a) \<Rightarrow>
          if op = RE_OP_ACCEPT \<or> op = RE_OP_CC_VALUE \<or> op = RE_OP_CC_RANGE then []
          else if op = RE_OP_FORK then [k + 1, k + a]
          else if op = RE_OP_GOTO \<or> op = RE_OP_CC_INC \<or> op = RE_OP_CC_EXC then [k + a]
          else [k + 1])"

definition forward_arg :: "re_opcode \<times> int \<Rightarrow> bool" where
  "forward_arg instr \<longleftrightarrow> (fst instr = RE_OP_GOTO \<or> fst instr = RE_OP_CC_INC \<or> fst instr = RE_OP_CC_EXC \<longrightarrow> 0 < snd instr)"

definition code_ok :: "re_code \<Rightarrow> bool" where
  "code_ok code \<longleftrightarrow>
     length code \<le> 65536 \<and>
     (\<forall>k < length code. forward_arg (code ! k) \<and>
        (\<forall>t \<in> set (targets (int k) (code ! k)). 0 \<le> t \<and> t < int (length code)))"

definition states_of :: "re_code \<Rightarrow> int set" where
  "states_of code = {0..<int (length code)}"

lemma op_at_some: "x \<in> states_of code \<Longrightarrow> op_at code x = Some (code ! nat x)"
  by (simp add: op_at_def states_of_def)

lemma code_ok_targets:
  assumes "code_ok code" and "op_at code x = Some instr"
  shows "forward_arg instr" and "set (targets x instr) \<subseteq> states_of code"
proof -
  have x: "0 \<le> x" "nat x < length code" "instr = code ! nat x"
    using assms(2) by (auto simp: op_at_def split: if_splits)
  have "forward_arg (code ! nat x) \<and> (\<forall>t \<in> set (targets (int (nat x)) (code ! nat x)). 0 \<le> t \<and> t < int (length code))"
    using assms(1) x(2) unfolding code_ok_def by blast
  then show "forward_arg instr" "set (targets x instr) \<subseteq> states_of code"
    unfolding x(3) [symmetric] int_nat_eq if_P [OF x(1)] by (auto simp: states_of_def)
qed

lemma cc_hit_in_range: "0 \<le> x \<Longrightarrow> x + n < int (length code) \<Longrightarrow> 0 < j \<Longrightarrow> cc_hit code x n c j \<noteq> None"
proof (induction code x n c j rule: cc_hit.induct)
  case (1 code x n c j)
  show ?case
  proof (cases "j < n")
    case True
    obtain op a where o1: "op_at code (x + j) = Some (op, a)"
      using op_at_some [of "x + j" code] True 1(4-6) by (cases "code ! nat (x + j)") (auto simp: states_of_def)
    obtain op' b where o2: "op_at code (x + j + 1) = Some (op', b)"
      using op_at_some [of "x + j + 1" code] True 1(4-6) by (cases "code ! nat (x + j + 1)") (auto simp: states_of_def)
    show ?thesis using True o1 o2 1 by (subst cc_hit.simps) auto
  qed (subst cc_hit.simps, simp)
qed

lemma eps_iff:
  "op_at code x = Some (op, a) \<Longrightarrow>
    nfa_eps code c cPrev x y \<longleftrightarrow>
      (y = x + 1 \<and> (op = RE_OP_ATSTART \<and> cPrev = RE_START \<or> op = RE_OP_BOUNDARY \<and> re_word_char c \<noteq> re_word_char cPrev \<or>
         op = RE_OP_ANYSTAR \<or> op = RE_OP_FORK)) \<or>
      (y = x + a \<and> (op = RE_OP_FORK \<or> op = RE_OP_GOTO))"
  by (subst nfa_eps.simps) auto

lemma read_iff:
  "op_at code x = Some (op, a) \<Longrightarrow>
    nfa_read code c x y \<longleftrightarrow>
      (y = x + 1 \<and>
        (op = RE_OP_MATCH \<and> a = c \<or> op = RE_OP_ANY \<and> c \<noteq> 0 \<or> op = RE_OP_WORD \<and> re_word_char c \<or>
         op = RE_OP_NOTWORD \<and> \<not> re_word_char c \<and> c \<noteq> 0 \<or> op = RE_OP_DIGIT \<and> re_digit_char c \<or>
         op = RE_OP_NOTDIGIT \<and> \<not> re_digit_char c \<and> c \<noteq> 0 \<or> op = RE_OP_SPACE \<and> re_space_char c \<or>
         op = RE_OP_NOTSPACE \<and> \<not> re_space_char c \<and> c \<noteq> 0)) \<or>
      (y = x \<and> op = RE_OP_ANYSTAR) \<or>
      (y = x + a \<and> (op = RE_OP_CC_INC \<and> cc_hit code x a c 1 = Some True \<or>
         op = RE_OP_CC_EXC \<and> cc_hit code x a c 1 = Some False \<and> c \<noteq> 0))"
  by (subst nfa_read.simps) auto

lemma switch_spec:
  assumes "code_ok code" and "op_at code x = Some (op, arg)" and "x \<in> states_of code" and "re_switch code c cPrev x = Some (a, t, n)"
  shows "(a \<longleftrightarrow> accepting code x) \<and> (\<forall>y. y \<in> set t \<longleftrightarrow> nfa_eps code c cPrev x y) \<and>
    (\<forall>y. y \<in> set n \<longleftrightarrow> nfa_read code c x y) \<and> set t \<subseteq> states_of code \<and> set n \<subseteq> states_of code"
  using assms(2-4) code_ok_targets(2) [OF assms(1,2)]
  by (cases op) (auto simp: re_switch_def accepting_def targets_def eps_iff read_iff split: if_splits option.splits)

lemma switch_ok:
  assumes "code_ok code" and "x \<in> states_of code"
  obtains a t n where "re_switch code c cPrev x = Some (a, t, n)" and "a \<longleftrightarrow> accepting code x"
    and "\<forall>y. y \<in> set t \<longleftrightarrow> nfa_eps code c cPrev x y" and "\<forall>y. y \<in> set n \<longleftrightarrow> nfa_read code c x y"
    and "set t \<subseteq> states_of code" and "set n \<subseteq> states_of code"
proof -
  obtain op arg where o: "op_at code x = Some (op, arg)" using op_at_some [OF assms(2)] by (cases "code ! nat x") auto
  note tg = code_ok_targets [OF assms(1) o]
  have cc: "cc_hit code x arg c 1 \<noteq> None" if "op = RE_OP_CC_INC \<or> op = RE_OP_CC_EXC"
    using that tg assms(2) by (intro cc_hit_in_range) (auto simp: targets_def states_of_def)
  have "re_switch code c cPrev x \<noteq> None"
    using o cc by (cases op) (auto simp: re_switch_def split: option.splits)
  then obtain a t n where r: "re_switch code c cPrev x = Some (a, t, n)" by (metis not_None_eq prod.collapse)
  from switch_spec [OF assms(1) o assms(2) r] r show ?thesis using that by blast
qed

section \<open>State sets\<close>

lemma add_state_ok:
  assumes "code_ok code" and "y \<in> states_of code"
  shows "set (re_add_state S y) = insert y (set S)" and "distinct S \<Longrightarrow> distinct (re_add_state S y)"
proof -
  have "y mod 65536 = y" using assms by (intro mod_pos_pos_trivial) (auto simp: code_ok_def states_of_def)
  then show "set (re_add_state S y) = insert y (set S)" "distinct S \<Longrightarrow> distinct (re_add_state S y)"
    by (auto simp: re_add_state_def)
qed

lemma add_states_ok:
  assumes "code_ok code"
  shows "set ys \<subseteq> states_of code \<Longrightarrow> set (foldl re_add_state S ys) = set S \<union> set ys \<and>
    (distinct S \<longrightarrow> distinct (foldl re_add_state S ys)) \<and> (\<exists>S'. foldl re_add_state S ys = S @ S')"
proof (induction ys arbitrary: S)
  case (Cons y ys)
  have y: "y \<in> states_of code" "set ys \<subseteq> states_of code" using Cons.prems by auto
  have "\<exists>S'. re_add_state S y = S @ S'" by (simp add: re_add_state_def)
  then show ?case using Cons.IH [OF y(2), of "re_add_state S y"] add_state_ok [OF assms y(1), of S] by auto
qed simp

lemma states_length:
  assumes "distinct S" and "set S \<subseteq> states_of code"
  shows "length S \<le> length code"
proof -
  have "card (set S) \<le> card (states_of code)" using assms(2) by (intro card_mono) (simp_all add: states_of_def)
  then show ?thesis using assms(1) by (simp add: distinct_card states_of_def)
qed

definition eps_rel :: "re_code \<Rightarrow> int \<Rightarrow> int \<Rightarrow> (int \<times> int) set" where
  "eps_rel code c cPrev = {(x, y). nfa_eps code c cPrev x y}"

definition read_rel :: "re_code \<Rightarrow> int \<Rightarrow> (int \<times> int) set" where
  "read_rel code c = {(x, y). nfa_read code c x y}"

text \<open>The invariant of the loop: what is before \<open>i\<close> is done, everything in \<open>pThis\<close> is reachable from the states it
  started with.\<close>

definition states_inv :: "re_code \<Rightarrow> int \<Rightarrow> int \<Rightarrow> int set \<Rightarrow> nat \<Rightarrow> int list \<Rightarrow> int list \<Rightarrow> bool" where
  "states_inv code c cPrev S0 i this nxt \<longleftrightarrow>
     distinct this \<and> distinct nxt \<and> set this \<subseteq> states_of code \<and> set nxt \<subseteq> states_of code \<and> i \<le> length this \<and>
     S0 \<subseteq> set this \<and> set this \<subseteq> (eps_rel code c cPrev)\<^sup>* `` S0 \<and>
     set nxt = read_rel code c `` set (take i this) \<and>
     eps_rel code c cPrev `` set (take i this) \<subseteq> set this \<and>
     (\<forall>x \<in> set (take i this). \<not> accepting code x)"

lemma re_states_ok:
  "code_ok code \<Longrightarrow> states_inv code c cPrev S0 i this nxt \<Longrightarrow>
    \<exists>acc nxt'. re_states code c cPrev i this nxt = Some (acc, nxt') \<and>
      (acc \<longleftrightarrow> (\<exists>x \<in> (eps_rel code c cPrev)\<^sup>* `` S0. accepting code x)) \<and>
      (\<not> acc \<longrightarrow> distinct nxt' \<and> set nxt' \<subseteq> states_of code \<and>
        set nxt' = read_rel code c `` ((eps_rel code c cPrev)\<^sup>* `` S0))"
proof (induction code c cPrev i this nxt rule: re_states.induct)
  case (1 code c cPrev i this nxt)
  let ?E = "eps_rel code c cPrev" and ?K = "read_rel code c"
  note assms = 1(2) and inv = 1(3) [unfolded states_inv_def]
  have len: "length this \<le> length code" "length nxt \<le> length code" using inv states_length by blast+
  show ?case
  proof (cases "i < length this")
    case False
    then have i: "i = length this" using inv by simp
    then have cl: "?E `` set this \<subseteq> set this" "set nxt = ?K `` set this" "\<forall>x \<in> set this. \<not> accepting code x"
      using inv by auto
    have "?E\<^sup>* `` set this = set this" using cl(1) by (rule Image_closed_trancl)
    moreover have "?E\<^sup>* `` S0 \<subseteq> ?E\<^sup>* `` set this" using inv by blast
    ultimately have "?E\<^sup>* `` S0 = set this" using inv by blast
    then show ?thesis using False len cl inv by (subst re_states.simps) auto
  next
    case True
    let ?x = "this ! i"
    have x: "?x \<in> states_of code" "?x \<in> ?E\<^sup>* `` S0" using True inv nth_mem by blast+
    obtain a t n where sw: "re_switch code c cPrev ?x = Some (a, t, n)" "a \<longleftrightarrow> accepting code ?x"
      "\<forall>y. y \<in> set t \<longleftrightarrow> nfa_eps code c cPrev ?x y" "\<forall>y. y \<in> set n \<longleftrightarrow> nfa_read code c ?x y"
      "set t \<subseteq> states_of code" "set n \<subseteq> states_of code" using switch_ok [OF assms x(1)] by blast
    show ?thesis
    proof (cases a)
      case acc: True
      then have "re_states code c cPrev i this nxt = Some (True, nxt)"
        using True len sw(1) by (subst re_states.simps) simp
      then show ?thesis using x(2) sw(2) acc by auto
    next
      case rej: False
      let ?pThis = "foldl re_add_state this t" and ?nxt = "foldl re_add_state nxt n"
      have step: "re_states code c cPrev i this nxt = re_states code c cPrev (i + 1) ?pThis ?nxt"
        using True len sw(1) rej by (subst re_states.simps) simp
      obtain s' where th: "?pThis = this @ s'" "set ?pThis = set this \<union> set t" "distinct ?pThis"
        using add_states_ok [OF assms sw(5), of this] inv by auto
      have nx: "set ?nxt = set nxt \<union> set n" "distinct ?nxt" using add_states_ok [OF assms sw(6), of nxt] inv by auto
      have tk: "take (i + 1) ?pThis = take i this @ [?x]" using True th(1) by (simp add: take_Suc_conv_app_nth)
      have im: "set t = ?E `` {?x}" "set n = ?K `` {?x}" using sw(3,4) by (auto simp: eps_rel_def read_rel_def)
      have "?E `` {?x} \<subseteq> ?E\<^sup>* `` S0" using x(2) by (auto intro: rtrancl_into_rtrancl)
      then have inv': "states_inv code c cPrev S0 (i + 1) ?pThis ?nxt"
        using inv th nx sw(2,5,6) rej im True unfolding states_inv_def tk by (auto simp: th(1))
      have "\<not> (length code < length this \<or> length code < length nxt)" using len by auto
      from 1(1) [OF True this sw(1) refl refl rej assms inv'] step show ?thesis by simp
    qed
  qed
qed

section \<open>The end of the input\<close>

text \<open>Jumps go forward, so a chain of them is shorter than the code.\<close>

lemma goto_chain_ok:
  assumes "code_ok code"
  shows "x \<in> states_of code \<Longrightarrow> int (length code) - x < int f \<Longrightarrow>
    \<exists>b. goto_chain f code x = Some b \<and> (b \<longleftrightarrow> ends_accepting code x)"
proof (induction f arbitrary: x)
  case 0
  then show ?case by (simp add: states_of_def)
next
  case (Suc f)
  obtain op arg where o: "op_at code x = Some (op, arg)" using op_at_some [OF Suc.prems(1)] by (cases "code ! nat x") auto
  note tg = code_ok_targets [OF assms o]
  show ?case
  proof (cases "op = RE_OP_GOTO")
    case True
    then have y: "x + arg \<in> states_of code" "int (length code) - (x + arg) < int f"
      using tg Suc.prems by (auto simp: forward_arg_def targets_def)
    have "ends_accepting code x \<longleftrightarrow> ends_accepting code (x + arg)"
      using o True by (auto intro: ends_accepting.intros elim: ends_acceptingE simp: accepting_def)
    with Suc.IH [OF y] o True show ?thesis by simp
  next
    case False
    then have "ends_accepting code x \<longleftrightarrow> op = RE_OP_ACCEPT"
      using o by (auto intro: ends_accepting.intros elim: ends_acceptingE simp: accepting_def)
    then show ?thesis using o False by simp
  qed
qed

lemma re_final_ok:
  assumes "code_ok code"
  shows "set xs \<subseteq> states_of code \<Longrightarrow> re_final code xs = Some (\<exists>x \<in> set xs. ends_accepting code x)"
proof (induction xs)
  case (Cons x xs)
  have "x \<in> states_of code" using Cons.prems by simp
  then obtain b where b: "goto_chain (length code + 1) code x = Some b" "b \<longleftrightarrow> ends_accepting code x"
    using goto_chain_ok [OF assms, of x "length code + 1"] by (auto simp: states_of_def)
  then show ?case using Cons by (cases b) auto
qed simp

section \<open>The whole run\<close>

lemma accepts_after_eps: "(x, y) \<in> (eps_rel code c cPrev)\<^sup>* \<Longrightarrow> nfa_accepts code cPrev (c # cs) y \<Longrightarrow> nfa_accepts code cPrev (c # cs) x"
  by (induction rule: converse_rtrancl_induct) (auto simp: eps_rel_def intro: nfa_accepts.move)

text \<open>An accepting run is a chain of silent moves, then acceptance or the reading of the next character.\<close>

lemma accepts_unfold:
  "nfa_accepts code cPrev (c # cs) x \<longleftrightarrow>
     (\<exists>y \<in> (eps_rel code c cPrev)\<^sup>* `` {x}. accepting code y \<or>
        (\<exists>w. nfa_read code c y w \<and> (if c \<noteq> 0 then nfa_accepts code c cs w else cs = [] \<and> ends_accepting code w)))"
  (is "?A x \<longleftrightarrow> (\<exists>y \<in> ?E\<^sup>* `` {x}. ?B y)")
proof
  assume "?A x"
  then have "\<exists>y. (x, y) \<in> ?E\<^sup>* \<and> ?B y"
  proof (induction cPrev "c # cs" x rule: nfa_accepts.induct)
    case (move cPrev x y)
    then have "(x, y) \<in> eps_rel code c cPrev" by (simp add: eps_rel_def)
    with move(3) show ?case by (blast intro: converse_rtrancl_into_rtrancl)
  qed auto
  then show "\<exists>y \<in> ?E\<^sup>* `` {x}. ?B y" by blast
next
  assume "\<exists>y \<in> ?E\<^sup>* `` {x}. ?B y"
  then obtain y where y: "(x, y) \<in> ?E\<^sup>*" "?B y" by blast
  then have "?A y" by (auto intro: nfa_accepts.intros split: if_splits)
  then show "?A x" using y(1) accepts_after_eps by blast
qed

definition runs_from :: "re_code \<Rightarrow> bool \<Rightarrow> byte list \<Rightarrow> nat \<Rightarrow> int \<Rightarrow> int set \<Rightarrow> bool" where
  "runs_from code noCase z i c S \<longleftrightarrow>
     (if c \<noteq> 0 then \<exists>x \<in> S. nfa_accepts code c (re_chars noCase z i) x else \<exists>x \<in> S. ends_accepting code x)"

lemma re_run_ok:
  "code_ok code \<Longrightarrow> distinct pNext \<Longrightarrow> set pNext \<subseteq> states_of code \<Longrightarrow>
    re_run code noCase z i c pNext = Some (runs_from code noCase z i c (set pNext))"
proof (induction code noCase z i c pNext rule: re_run.induct)
  case (1 code noCase z i c pNext)
  show ?case
  proof (cases "c \<noteq> 0 \<and> pNext \<noteq> []")
    case False
    then show ?thesis using re_final_ok [OF 1(2), of pNext] 1(4)
      by (subst re_run.simps) (auto simp: runs_from_def)
  next
    case True
    obtain c' i' where n: "xNextChar noCase z i = (c', i')" by fastforce
    let ?E = "eps_rel code c' c" and ?K = "read_rel code c'"
    have "states_inv code c' c (set pNext) 0 pNext []" using 1(3,4) by (auto simp: states_inv_def)
    from re_states_ok [OF 1(2) this] obtain acc nxt where r: "re_states code c' c 0 pNext [] = Some (acc, nxt)"
      and a: "acc \<longleftrightarrow> (\<exists>x \<in> ?E\<^sup>* `` set pNext. accepting code x)"
      and s: "\<not> acc \<Longrightarrow> distinct nxt \<and> set nxt \<subseteq> states_of code \<and> set nxt = ?K `` (?E\<^sup>* `` set pNext)" by blast
    let ?cs = "if c' = 0 then [] else re_chars noCase z i'"
    have ch: "re_chars noCase z i = c' # ?cs" by (subst re_chars.simps) (simp add: n)
    have acc_iff: "runs_from code noCase z i c (set pNext) \<longleftrightarrow>
        (\<exists>y \<in> ?E\<^sup>* `` set pNext. accepting code y \<or>
          (\<exists>w. (y, w) \<in> ?K \<and> (if c' \<noteq> 0 then nfa_accepts code c' ?cs w else ends_accepting code w)))"
      using True unfolding runs_from_def ch accepts_unfold read_rel_def by auto
    show ?thesis
    proof (cases acc)
      case True
      then have "re_run code noCase z i c pNext = Some True" using \<open>c \<noteq> 0 \<and> pNext \<noteq> []\<close> n r
        by (subst re_run.simps) simp
      then show ?thesis using acc_iff a True by auto
    next
      case False
      note s = s [OF False]
      have step: "re_run code noCase z i c pNext = re_run code noCase z i' c' nxt" using True n r False
        by (subst re_run.simps) simp
      have "re_run code noCase z i' c' nxt = Some (runs_from code noCase z i' c' (set nxt))"
        by (rule 1(1) [OF True n [symmetric] r refl False 1(2)]) (use s in blast)+
      moreover have "runs_from code noCase z i' c' (set nxt) = runs_from code noCase z i c (set pNext)"
        unfolding acc_iff using s a False by (auto simp: runs_from_def)
      ultimately show ?thesis using step by simp
    qed
  qed
qed

lemma re_match_ok:
  assumes "code_ok (r_code pRe)" and "r_code pRe \<noteq> []" and "r_zInit pRe = []" and "\<forall>n. malloc n"
  shows "re_match malloc pRe noCase z =
    Some (if nfa_accepts (r_code pRe) RE_START (re_chars noCase z 0) 0 then 1 else 0)"
proof -
  have "set (re_add_state [] 0) = {0}" "distinct (re_add_state [] 0)" by (simp_all add: re_add_state_def)
  moreover have "{0} \<subseteq> states_of (r_code pRe)" using assms(2) by (simp add: states_of_def)
  moreover have "re_find_init [] z 0 = 0" by (subst re_find_init.simps) simp
  ultimately show ?thesis
    using re_run_ok [OF assms(1), of "re_add_state [] 0" noCase z 0 RE_START] assms(3,4)
    by (simp add: re_match_def runs_from_def RE_START_def)
qed

text \<open>With initial bytes the matcher still stays inside the arrays and ends.\<close>

lemma re_match_total:
  assumes "code_ok (r_code pRe)" and "r_code pRe \<noteq> []"
  shows "\<exists>r. re_match malloc pRe noCase z = Some r \<and> r \<in> {- 1, 0, 1}"
proof -
  have "set (re_add_state [] 0) \<subseteq> states_of (r_code pRe)" "distinct (re_add_state [] 0)"
    using assms(2) by (simp_all add: re_add_state_def states_of_def)
  then show ?thesis using re_run_ok [OF assms(1)] by (simp add: re_match_def Let_def)
qed

end
