(* ===== verification/Regexp_Compile.thy ===== *)
theory Regexp_Compile
  imports Regexp_Match
begin

text \<open>
  The compiler ends on every pattern with the fuel \<open>re_compile\<close> gives it, and (when every allocation succeeds) what
  it emits is code whose jumps stay inside the arrays: the hypothesis under which the matcher is correct.
\<close>

section \<open>Blocks of code\<close>

text \<open>A block at offset \<open>off\<close> in code of length \<open>L\<close>: every target lies in \<open>0..L\<close>.\<close>

fun blk_ok :: "int \<Rightarrow> int \<Rightarrow> re_code \<Rightarrow> bool" where
  "blk_ok off L [] = True"
| "blk_ok off L (i # is) = (forward_arg i \<and> (\<forall>t \<in> set (targets off i). 0 \<le> t \<and> t \<le> L) \<and> blk_ok (off + 1) L is)"

abbreviation closed_code :: "re_code \<Rightarrow> bool" where
  "closed_code xs \<equiv> blk_ok 0 (int (length xs)) xs"

lemma blk_append [simp]: "blk_ok off L (xs @ ys) \<longleftrightarrow> blk_ok off L xs \<and> blk_ok (off + int (length xs)) L ys"
  by (induction xs arbitrary: off) (auto simp: algebra_simps)

lemma blk_mono: "blk_ok off L xs \<Longrightarrow> L \<le> M \<Longrightarrow> blk_ok off M xs"
  by (induction xs arbitrary: off) fastforce+

lemma targets_shift: "targets (k + d) i = map (\<lambda>t. t + d) (targets k i)"
  by (cases i) (simp add: targets_def)

lemma blk_shift: "blk_ok off L xs \<Longrightarrow> 0 \<le> d \<Longrightarrow> blk_ok (off + d) (L + d) xs"
proof (induction xs arbitrary: off)
  case (Cons i xs)
  have "blk_ok (off + 1 + d) (L + d) xs" using Cons by simp
  then have "blk_ok (off + d + 1) (L + d) xs" by (simp add: algebra_simps)
  moreover have "targets (off + d) i = map (\<lambda>t. t + d) (targets off i)" by (rule targets_shift)
  ultimately show ?case using Cons.prems by auto
qed simp

lemma blk_move: "blk_ok off L xs \<Longrightarrow> off \<le> off' \<Longrightarrow> L + (off' - off) \<le> L' \<Longrightarrow> blk_ok off' L' xs"
  using blk_shift [of off L xs "off' - off"] blk_mono by fastforce

lemma blk_nth: "blk_ok off L xs \<Longrightarrow> k < length xs \<Longrightarrow> forward_arg (xs ! k) \<and> (\<forall>t \<in> set (targets (off + int k) (xs ! k)). 0 \<le> t \<and> t \<le> L)"
proof (induction xs arbitrary: off k)
  case (Cons i xs)
  show ?case
  proof (cases k)
    case (Suc k')
    then show ?thesis using Cons.IH [of "off + 1" k'] Cons.prems by (simp add: algebra_simps)
  qed (use Cons.prems in simp)
qed simp

lemma closed_insert:
  assumes "closed_code (xs @ ys)" and "forward_arg i"
    and "\<forall>t \<in> set (targets (int (length xs)) i). 0 \<le> t \<and> t \<le> int (length xs + length ys + 1)"
  shows "closed_code (xs @ i # ys)"
  using assms blk_mono [of 0 "int (length xs + length ys)" xs "int (length xs + length ys + 1)"]
    blk_move [of "int (length xs)" "int (length xs + length ys)" ys "int (length xs) + 1" "int (length xs + length ys + 1)"]
  by (simp add: algebra_simps)

lemma closed_snoc:
  assumes "closed_code xs" and "forward_arg i" and "\<forall>t \<in> set (targets (int (length xs)) i). 0 \<le> t \<and> t \<le> int (length xs) + 1"
  shows "closed_code (xs @ [i])"
  using closed_insert [of xs "[]" i] assms by (simp add: algebra_simps)

lemma closed_join: "closed_code xs \<Longrightarrow> closed_code ys \<Longrightarrow> closed_code (xs @ ys)"
  using blk_mono [of 0 "int (length xs)" xs "int (length xs + length ys)"]
    blk_move [of 0 "int (length ys)" ys "int (length xs)" "int (length xs + length ys)"] by simp

text \<open>The end of the code is the accepting instruction.\<close>

lemma code_ok_accept:
  assumes "closed_code xs" and "length xs < 65536"
  shows "code_ok (xs @ [(RE_OP_ACCEPT, a)])"
proof -
  have "forward_arg ((xs @ [(RE_OP_ACCEPT, a)]) ! k) \<and>
      (\<forall>t \<in> set (targets (int k) ((xs @ [(RE_OP_ACCEPT, a)]) ! k)). 0 \<le> t \<and> t < int (length (xs @ [(RE_OP_ACCEPT, a)])))"
    if "k < length (xs @ [(RE_OP_ACCEPT, a)])" for k
  proof (cases "k < length xs")
    case True
    then show ?thesis using blk_nth [OF assms(1) True] by (auto simp: nth_append)
  next
    case False
    then have "k = length xs" using that by simp
    then show ?thesis by (simp add: targets_def forward_arg_def)
  qed
  then show ?thesis using assms(2) by (simp add: code_ok_def)
qed

section \<open>What the building blocks emit\<close>

lemma insert_code:
  assumes "\<forall>n. malloc n" and "r_code p = base @ xs @ ys" and "k = int (length base + length xs)"
  shows "r_code (fst (re_insert malloc p k op a)) = base @ xs @ (op, a) # ys"
  using assms by (simp add: re_insert_def re_resize_def)

lemma append_code:
  assumes "\<forall>n. malloc n"
  shows "r_code (fst (re_append malloc p op a)) = r_code p @ [(op, a)]" and "snd (re_append malloc p op a) = nState p"
  using assms by (simp_all add: re_append_def re_insert_def re_resize_def)

lemma app_code: "\<forall>n. malloc n \<Longrightarrow> r_code (app malloc op a p) = r_code p @ [(op, a)]"
  by (simp add: app_def append_code)

lemma copy_code:
  assumes "\<forall>n. malloc n" and "r_code p = base @ src @ rest" and "k = int (length base)" and "n = int (length src)"
  shows "r_code (re_copy malloc k n p) = r_code p @ src"
  using assms by (simp add: re_copy_def re_resize_def)

lemma esc_code: "re_esc_char p = (c, q) \<Longrightarrow> r_code q = r_code p"
  by (auto simp: re_esc_char_def Let_def split: if_splits option.splits)

lemma getc_code [simp]: "re_getc noCase p = (c, q) \<Longrightarrow> r_code q = r_code p"
  by (auto simp: re_getc_def split: prod.splits)

lemma skip_code [simp]: "r_code (re_skip p) = r_code p"
  by (simp add: re_skip_def)

lemma getnum_code: "re_getnum p = (m, q) \<Longrightarrow> r_code q = r_code p"
  by (auto simp: re_getnum_def split: prod.splits)

lemma maybe_esc_code: "re_maybe_esc c p = (c', q) \<Longrightarrow> r_code q = r_code p"
  by (auto simp: re_maybe_esc_def esc_code split: if_splits)

text \<open>The members of a class are never executed.\<close>

definition members :: "re_code \<Rightarrow> bool" where
  "members es \<longleftrightarrow> (\<forall>e \<in> set es. fst e = RE_OP_CC_VALUE \<or> fst e = RE_OP_CC_RANGE)"

lemma members_blk: "members es \<Longrightarrow> blk_ok off L es"
  by (induction es arbitrary: off) (auto simp: members_def forward_arg_def targets_def)

lemma class_code:
  assumes "\<forall>n. malloc n"
  shows "re_class f malloc noCase p = Some (p', c, e) \<Longrightarrow> \<exists>es. r_code p' = r_code p @ es \<and> members es"
proof (induction f arbitrary: p)
  case (Suc f)
  obtain c0 p0 where g: "re_getc noCase p = (c0, p0)" by fastforce
  obtain c1 p1 where m: "re_maybe_esc c0 p0 = (c1, p1)" by fastforce
  obtain d q where gq: "re_getc noCase (re_skip (app malloc RE_OP_CC_RANGE c1 p1)) = (d, q)" by fastforce
  obtain d' q' where mq: "re_maybe_esc d q = (d', q')" by fastforce
  let ?p2 = "if rePeek p1 = 45 then app malloc RE_OP_CC_RANGE d' q' else app malloc RE_OP_CC_VALUE c1 p1"
  have p1: "r_code p1 = r_code p" "r_code p0 = r_code p" using g m maybe_esc_code by auto
  have "r_code q' = r_code p @ [(RE_OP_CC_RANGE, c1)]"
    using maybe_esc_code [OF mq] getc_code [OF gq] p1 app_code [OF assms] by simp
  then have "\<exists>es. r_code ?p2 = r_code p @ es \<and> members es"
    using p1 app_code [OF assms] by (auto simp: members_def)
  then obtain es where es: "r_code ?p2 = r_code p @ es" "members es" by blast
  show ?case
  proof (cases "c0 = 0 \<or> (c0 = 91 \<and> rePeek p0 = 58)")
    case True
    then show ?thesis using Suc.prems g p1(2) by (auto simp: members_def)
  next
    case False
    then have r: "(if rePeek ?p2 = 93 then Some (re_skip ?p2, if rePeek p1 = 45 then d' else c1, None)
        else re_class f malloc noCase ?p2) = Some (p', c, e)"
      using Suc.prems g m gq mq by (auto simp: Let_def split: if_splits)
    show ?thesis
    proof (cases "rePeek ?p2 = 93")
      case True
      then show ?thesis using r es by auto
    next
      case no: False
      then have "re_class f malloc noCase ?p2 = Some (p', c, e)" using r by simp
      from Suc.IH [OF this] es show ?thesis by (auto simp: members_def)
    qed
  qed
qed simp

section \<open>The elements emit closed code\<close>

text \<open>The state of a string: closed code behind the base, and the place of the last operand.\<close>

definition operand_ok :: "re_code \<Rightarrow> re_code \<Rightarrow> int \<Rightarrow> bool" where
  "operand_ok base seg iPrev \<longleftrightarrow> iPrev < 0 \<or> (int (length base) \<le> iPrev \<and> iPrev \<le> int (length base + length seg))"

lemma operand_split:
  assumes "operand_ok base seg iPrev" and "0 \<le> iPrev"
  obtains xs ys where "seg = xs @ ys" and "iPrev = int (length base + length xs)"
proof
  let ?r = "nat (iPrev - int (length base))"
  show "seg = take ?r seg @ drop ?r seg" by simp
  show "iPrev = int (length base + length (take ?r seg))" using assms by (auto simp: operand_ok_def)
qed

lemma rpt_copies:
  assumes "\<forall>n. malloc n" and "closed_code (xs @ src)" and "r_code p = base @ xs @ src"
  shows "\<exists>zs. r_code ((re_copy malloc (int (length base + length xs)) (int (length src)) ^^ k) p) =
      base @ xs @ src @ zs \<and> closed_code (xs @ src @ zs)"
proof (induction k)
  case 0
  then show ?case using assms(2,3) by simp
next
  case (Suc k)
  let ?q = "(re_copy malloc (int (length base + length xs)) (int (length src)) ^^ k) p"
  obtain zs where q: "r_code ?q = base @ xs @ src @ zs" "closed_code (xs @ src @ zs)" using Suc by blast
  have c: "r_code (re_copy malloc (int (length base + length xs)) (int (length src)) ?q) = base @ xs @ src @ zs @ src"
    using copy_code [OF assms(1), of ?q "base @ xs" src zs "int (length base + length xs)"] q(1) by simp
  let ?L = "int (length (xs @ src @ zs @ src))"
  have "blk_ok (int (length (xs @ src @ zs))) ?L src"
    using blk_move [of "int (length xs)" "int (length xs + length src)" src "int (length (xs @ src @ zs))" ?L] assms(2) by simp
  moreover have "blk_ok 0 ?L (xs @ src @ zs)" using q(2) by (rule blk_mono) simp
  ultimately have "closed_code (xs @ src @ zs @ src)" by (simp add: algebra_simps)
  with c show ?case unfolding funpow.simps o_apply by blast
qed

lemma rpt_optional:
  assumes "\<forall>n. malloc n" and "closed_code (xs @ src @ zs)" and "closed_code (xs @ src)"
    and "r_code p = base @ xs @ src @ zs"
  shows "\<exists>zs'. r_code (((\<lambda>q. re_copy malloc (int (length base + length xs)) (int (length src))
        (app malloc RE_OP_FORK (int (length src) + 1) q)) ^^ k) p) = base @ xs @ src @ zs' \<and>
      closed_code (xs @ src @ zs')"
proof (induction k)
  case 0
  then show ?case using assms by auto
next
  case (Suc k)
  let ?F = "\<lambda>q. re_copy malloc (int (length base + length xs)) (int (length src)) (app malloc RE_OP_FORK (int (length src) + 1) q)"
  obtain zs' where q: "r_code ((?F ^^ k) p) = base @ xs @ src @ zs'" "closed_code (xs @ src @ zs')" using Suc by blast
  let ?f = "(RE_OP_FORK, int (length src) + 1)"
  have c: "r_code (?F ((?F ^^ k) p)) = base @ xs @ src @ zs' @ ?f # src"
    using copy_code [OF assms(1), of "app malloc RE_OP_FORK (int (length src) + 1) ((?F ^^ k) p)" "base @ xs" src
        "zs' @ [?f]" "int (length base + length xs)"] q(1) app_code [OF assms(1)] by simp
  let ?L = "int (length (xs @ src @ zs' @ ?f # src))"
  have "blk_ok (int (length (xs @ src @ zs')) + 1) ?L src"
    using blk_move [of "int (length xs)" "int (length xs + length src)" src "int (length (xs @ src @ zs')) + 1" ?L] assms(3) by simp
  moreover have "blk_ok 0 ?L (xs @ src @ zs')" using q(2) by (rule blk_mono) simp
  ultimately have "closed_code (xs @ src @ zs' @ ?f # src)"
    by (simp add: algebra_simps targets_def forward_arg_def)
  with c show ?case unfolding funpow.simps o_apply by blast
qed

lemma repeat_code:
  assumes "\<forall>n. malloc n" and "r_code p = base @ xs @ ys" and "iPrev = int (length base + length xs)"
    and "closed_code (xs @ ys)" and "re_repeat malloc iPrev m n p = (p', None)"
  shows "\<exists>seg. r_code p' = base @ seg \<and> closed_code seg \<and> length (xs @ ys) \<le> length seg"
proof -
  let ?sz = "int (length ys)"
  have sz: "nState p - iPrev = ?sz" using assms(2,3) by simp
  let ?f = "(RE_OP_FORK, ?sz + 1)"
  define p1 xs' n1 where "p1 = (if m = 0 then fst (re_insert malloc p iPrev RE_OP_FORK (?sz + 1))
      else (re_copy malloc iPrev ?sz ^^ nat (m - 1)) p)"
    and "xs' = (if m = 0 then xs @ [?f] else xs)" and "n1 = (if m = 0 then n - 1 else n)"
  have ins: "closed_code (xs @ ?f # ys)"
    by (rule closed_insert [OF assms(4)]) (auto simp: targets_def forward_arg_def)
  have xy: "xs' @ ys = (if m = 0 then xs @ ?f # ys else xs @ ys)" by (simp add: xs'_def)
  have cl: "closed_code (xs' @ ys)"
    unfolding xy using ins assms(4) by (cases "m = 0") (simp_all only: if_True if_False refl)
  have "\<exists>zs. r_code p1 = base @ xs' @ ys @ zs \<and> closed_code (xs' @ ys @ zs)"
  proof (cases "m = 0")
    case True
    then show ?thesis using insert_code [OF assms(1-3), of RE_OP_FORK "?sz + 1"] cl by (auto simp: p1_def xs'_def)
  next
    case False
    then show ?thesis using rpt_copies [OF assms(1,4), of p base "nat (m - 1)"] assms(2,3) by (auto simp: p1_def xs'_def)
  qed
  then obtain zs where z: "r_code p1 = base @ xs' @ ys @ zs" "closed_code (xs' @ ys @ zs)" by blast
  define p2 where "p2 = ((\<lambda>q. re_copy malloc (int (length base + length xs')) ?sz (app malloc RE_OP_FORK (?sz + 1) q)) ^^ nat (n1 - m)) p1"
  obtain zs' where z': "r_code p2 = base @ xs' @ ys @ zs'" "closed_code (xs' @ ys @ zs')"
    using rpt_optional [OF assms(1) z(2) cl z(1)] unfolding p2_def by blast
  have ip: "(if m = 0 then iPrev + 1 else iPrev) = int (length base + length xs')" using assms(3) by (simp add: xs'_def)
  have p': "p' = (if n1 = 0 \<and> m > 0 then app malloc RE_OP_FORK (- ?sz) p2 else p2)"
    using assms(5) ip unfolding re_repeat_def sz Let_def p1_def p2_def n1_def
    by (auto simp: Let_def split: if_splits)
  have "closed_code ((xs' @ ys @ zs') @ [(RE_OP_FORK, - ?sz)])"
    by (rule closed_snoc [OF z'(2)]) (simp_all add: targets_def forward_arg_def)
  then have "closed_code (xs' @ ys @ zs' @ [(RE_OP_FORK, - ?sz)])" by simp
  moreover have "length (xs @ ys) \<le> length (xs' @ ys @ zs')" by (simp add: xs'_def)
  ultimately show ?thesis using p' z' app_code [OF assms(1)] by (cases "n1 = 0 \<and> m > 0") auto
qed

lemma set_arg_code: "r_code p = base @ xs @ (op, b) # ys \<Longrightarrow> k = int (length base + length xs) \<Longrightarrow>
    r_code (set_arg p k a) = base @ xs @ (op, a) # ys"
proof -
  assume r: "r_code p = base @ xs @ (op, b) # ys" and "k = int (length base + length xs)"
  then have k: "nat k = length (base @ xs)" by simp
  have r': "r_code p = (base @ xs) @ (op, b) # ys" using r by simp
  show ?thesis by (simp only: set_arg_def r' k nth_append_length list_update_length ReCompiled.simps ReCompiled.update_convs fst_conv)
      simp
qed

lemma bracket_code:
  assumes "\<forall>n. malloc n" and "re_bracket malloc noCase p = Some (p', None)"
  shows "\<exists>blk. r_code p' = r_code p @ blk \<and> closed_code blk"
proof -
  define op where "op = (if rePeek p = 94 then RE_OP_CC_EXC else RE_OP_CC_INC)"
  define p1 where "p1 = (if rePeek p = 94 then re_skip (app malloc RE_OP_CC_EXC 0 p) else app malloc RE_OP_CC_INC 0 p)"
  have p1: "r_code p1 = r_code p @ [(op, 0)]" using app_code [OF assms(1)] by (simp add: p1_def op_def)
  obtain p2 c where c: "re_class (Suc (length (r_z p))) malloc noCase p1 = Some (p2, c, None)" "c \<noteq> 0"
    and p': "p' = (if nState p2 > nState p then set_arg p2 (nState p) (nState p2 - nState p) else p2)"
    using assms(2) unfolding re_bracket_def Let_def p1_def [symmetric] by (auto split: option.splits if_splits)
  obtain es where es: "r_code p2 = r_code p1 @ es" "members es" using class_code [OF assms(1) c(1)] by blast
  let ?i = "(op, int (length es) + 1)"
  have "r_code p' = r_code p @ ?i # es"
    using set_arg_code [of p2 "r_code p" "[]" op 0 es "nState p" "nState p2 - nState p"] p1 es(1) p' by simp
  moreover have "closed_code (?i # es)"
    using members_blk [OF es(2)] by (simp add: targets_def forward_arg_def op_def)
  ultimately show ?thesis by blast
qed

lemma interval_code:
  assumes "\<forall>n. malloc n" and "r_code p = base @ seg" and "closed_code seg" and "operand_ok base seg iPrev"
    and "re_interval malloc iPrev p = (p', None)"
  shows "\<exists>seg'. r_code p' = base @ seg' \<and> closed_code seg' \<and> length seg \<le> length seg'"
proof -
  obtain m p1 where n1: "re_getnum p = (m, p1)" by fastforce
  obtain n p2 where n2: "(if rePeek p1 = 44 then re_getnum (re_skip p1) else (m, p1)) = (n, p2)" by fastforce
  have rp: "0 \<le> iPrev" "re_repeat malloc iPrev m n (re_skip p2) = (p', None)"
    using assms(5) by (auto simp: re_interval_def n1 n2 Let_def split: if_splits)
  obtain xs ys where s: "seg = xs @ ys" "iPrev = int (length base + length xs)" using operand_split [OF assms(4) rp(1)] by blast
  have "r_code p2 = r_code p" using getnum_code [OF n1] n2 getnum_code [of "re_skip p1" n p2] by (auto split: if_splits)
  then show ?thesis using repeat_code [OF assms(1) _ s(2) _ rp(2)] assms(2,3) s(1) by simp
qed

lemma plain_closed: "closed_code [(op, a)]" if "op \<notin> {RE_OP_FORK, RE_OP_GOTO, RE_OP_CC_INC, RE_OP_CC_EXC}"
  using that by (simp add: targets_def forward_arg_def)

lemma element_code:
  assumes "\<forall>n. malloc n" and "r_code p = base @ seg" and "closed_code seg" and "operand_ok base seg iPrev"
    and "re_element malloc noCase c iPrev p = Some (p', None)"
  shows "\<exists>seg'. r_code p' = base @ seg' \<and> closed_code seg' \<and> length seg \<le> length seg'"
proof -
  have app1: ?thesis if "r_code p' = r_code p @ blk" "closed_code blk" for blk
    using closed_join [OF assms(3) that(2)] that(1) assms(2) by (intro exI [of _ "seg @ blk"]) simp
  have app: ?thesis if "r_code p' = r_code p @ [(op, a)]" "op \<notin> {RE_OP_FORK, RE_OP_GOTO, RE_OP_CC_INC, RE_OP_CC_EXC}" for op a
    by (rule app1 [OF that(1) plain_closed [OF that(2)]])
  have split: "\<exists>xs ys. seg = xs @ ys \<and> iPrev = int (length base + length xs)" if "0 \<le> iPrev"
    using operand_split [OF assms(4) that] by blast
  note ac = app_code [OF assms(1)]
  consider "c = 46" | "c = 42" | "c = 43" | "c = 63" | "c = 36" | "c = 94" | "c = 123" | "c = 91" | "c = 92"
    | "c \<notin> {46, 42, 43, 63, 36, 94, 123, 91, 92}" by blast
  then show ?thesis
  proof cases
    case 1
    then show ?thesis using assms(5) app [of RE_OP_ANYSTAR 0] app [of RE_OP_ANY 0] ac
      by (auto simp: re_element_def split: if_splits)
  next
    case 2
    then have i: "0 \<le> iPrev" using assms(5) by (auto simp: re_element_def split: if_splits)
    obtain xs ys where s: "seg = xs @ ys" "iPrev = int (length base + length xs)" using split [OF i] by blast
    let ?g = "(RE_OP_GOTO, int (length ys) + 1)" and ?f = "(RE_OP_FORK, - int (length ys))"
    let ?p1 = "fst (re_insert malloc p iPrev RE_OP_GOTO (nState p - iPrev + 1))"
    have p1: "r_code ?p1 = base @ xs @ ?g # ys"
      using insert_code [OF assms(1), of p base xs ys iPrev] assms(2) s by simp
    have "p' = app malloc RE_OP_FORK (iPrev - nState ?p1 + 1) ?p1"
      using assms(5) 2 i by (simp add: re_element_def Let_def)
    then have "r_code p' = base @ (xs @ ?g # ys) @ [?f]" using p1 ac s(2) by simp
    moreover have "closed_code (xs @ ?g # ys)"
      using assms(3) s(1) by (intro closed_insert) (auto simp: targets_def forward_arg_def)
    then have "closed_code ((xs @ ?g # ys) @ [?f])" by (rule closed_snoc) (auto simp: targets_def forward_arg_def)
    ultimately show ?thesis using s(1) by (intro exI [of _ "(xs @ ?g # ys) @ [?f]"] conjI) simp_all
  next
    case 3
    then have i: "0 \<le> iPrev" using assms(5) by (auto simp: re_element_def split: if_splits)
    obtain xs ys where s: "seg = xs @ ys" "iPrev = int (length base + length xs)" using split [OF i] by blast
    let ?f = "(RE_OP_FORK, - int (length ys))"
    have "p' = app malloc RE_OP_FORK (iPrev - nState p) p" using assms(5) 3 i by (simp add: re_element_def)
    then have "r_code p' = base @ seg @ [?f]" using assms(2) ac s by simp
    moreover have "closed_code (seg @ [?f])"
      by (rule closed_snoc [OF assms(3)]) (auto simp: targets_def forward_arg_def s(1))
    ultimately show ?thesis by (intro exI [of _ "seg @ [?f]"] conjI) simp_all
  next
    case 4
    then have i: "0 \<le> iPrev" using assms(5) by (auto simp: re_element_def split: if_splits)
    obtain xs ys where s: "seg = xs @ ys" "iPrev = int (length base + length xs)" using split [OF i] by blast
    let ?f = "(RE_OP_FORK, int (length ys) + 1)"
    have "r_code p' = base @ xs @ ?f # ys"
      using insert_code [OF assms(1), of p base xs ys iPrev RE_OP_FORK "nState p - iPrev + 1"] assms(2,5) s i 4
      by (simp add: re_element_def)
    moreover have "closed_code (xs @ ?f # ys)"
      using assms(3) s(1) by (intro closed_insert) (auto simp: targets_def forward_arg_def)
    ultimately show ?thesis using s(1) by (intro exI [of _ "xs @ ?f # ys"] conjI) simp_all
  next
    case 5
    then show ?thesis using assms(5) app [of RE_OP_MATCH 0] ac by (auto simp: re_element_def)
  next
    case 6
    then show ?thesis using assms(5) app [of RE_OP_ATSTART 0] ac by (auto simp: re_element_def)
  next
    case 7
    then show ?thesis using assms(5) interval_code [OF assms(1-4)] by (auto simp: re_element_def)
  next
    case 8
    then have "re_bracket malloc noCase p = Some (p', None)" using assms(5) by (simp add: re_element_def)
    from bracket_code [OF assms(1) this] show ?thesis using app1 by blast
  next
    case 9
    then have p': "p' = re_backslash malloc p" using assms(5) by (simp add: re_element_def)
    obtain d q where e: "re_esc_char p = (d, q)" by fastforce
    have "\<exists>op a. r_code p' = r_code p @ [(op, a)] \<and> op \<notin> {RE_OP_FORK, RE_OP_GOTO, RE_OP_CC_INC, RE_OP_CC_EXC}"
      unfolding p' re_backslash_def Let_def e using ac esc_code [OF e] by auto
    then show ?thesis using app by blast
  next
    case 10
    then show ?thesis using assms(5) app [of RE_OP_MATCH c] ac by (auto simp: re_element_def)
  qed
qed

section \<open>The parser emits closed code\<close>

lemma subcompile_code:
  assumes "\<forall>n. malloc n"
  shows "re_subcompile_re f malloc noCase p = Some (p', None) \<Longrightarrow> \<exists>seg. r_code p' = r_code p @ seg \<and> closed_code seg"
    and "re_alternatives f malloc noCase k p = Some (p', None) \<Longrightarrow> r_code p = base @ seg \<Longrightarrow> closed_code seg \<Longrightarrow>
      k = int (length base) \<Longrightarrow> \<exists>seg'. r_code p' = base @ seg' \<and> closed_code seg'"
    and "re_subcompile_string f malloc noCase k p = Some (p', None) \<Longrightarrow> r_code p = base @ seg \<Longrightarrow> closed_code seg \<Longrightarrow>
      operand_ok base seg k \<Longrightarrow> \<exists>seg'. r_code p' = base @ seg' \<and> closed_code seg'"
proof (induction f arbitrary: p p' base seg k)
  case (Suc f)
  note IH = Suc.IH
  {
    case 1
    then obtain p1 where p1: "re_subcompile_string f malloc noCase (- 1) p = Some (p1, None)"
      and r: "re_alternatives f malloc noCase (nState p) p1 = Some (p', None)"
      by (auto split: option.splits)
    from IH(3) [OF p1, of "r_code p" "[]"] obtain seg where "r_code p1 = r_code p @ seg" "closed_code seg"
      by (auto simp: operand_ok_def)
    from IH(2) [OF r this] show ?case by simp
  next
    case 2
    show ?case
    proof (cases "rePeek p = 124")
      case False
      then show ?thesis using 2 by auto
    next
      case True
      let ?f = "(RE_OP_FORK, int (length seg) + 2)"
      let ?p1 = "fst (re_insert malloc p k RE_OP_FORK (nState p + 2 - k))"
      let ?p2 = "fst (re_append malloc ?p1 RE_OP_GOTO 0)" and ?g = "snd (re_append malloc ?p1 RE_OP_GOTO 0)"
      have p1: "r_code ?p1 = base @ ?f # seg"
        using insert_code [OF assms, of p base "[]" seg k RE_OP_FORK "nState p + 2 - k"] 2(2,4) by simp
      have p2: "r_code (re_skip ?p2) = base @ ?f # seg @ [(RE_OP_GOTO, 0)]" "?g = int (length base + length (?f # seg))"
        using append_code [OF assms] p1 by simp_all
      obtain p3 where p3: "re_subcompile_string f malloc noCase (- 1) (re_skip ?p2) = Some (p3, None)"
        and r: "re_alternatives f malloc noCase k (set_arg p3 ?g (nState p3 - ?g)) = Some (p', None)"
        using 2(1) True by (auto simp: Let_def case_prod_beta split: option.splits)
      from IH(3) [OF p3, of "base @ ?f # seg @ [(RE_OP_GOTO, 0)]" "[]"] p2(1) obtain s2
        where s2: "r_code p3 = base @ ?f # seg @ (RE_OP_GOTO, 0) # s2" "closed_code s2" by (auto simp: operand_ok_def)
      let ?j = "(RE_OP_GOTO, int (length s2) + 1)"
      have p4: "r_code (set_arg p3 ?g (nState p3 - ?g)) = base @ ?f # seg @ ?j # s2"
        using set_arg_code [of p3 base "?f # seg" RE_OP_GOTO 0 s2 ?g "nState p3 - ?g"] s2(1) p2(2) by simp
      have "closed_code (seg @ s2)" using closed_join [OF 2(3) s2(2)] .
      then have "closed_code (seg @ ?j # s2)" by (rule closed_insert) (auto simp: targets_def forward_arg_def)
      then have "closed_code ([] @ ?f # (seg @ ?j # s2))" by (intro closed_insert) (auto simp: targets_def forward_arg_def)
      then have c: "closed_code (?f # seg @ ?j # s2)" by (simp only: append_Nil)
      show ?thesis by (rule IH(2) [OF r p4 c 2(4)])
    qed
  next
    case 3
    obtain c p1 where g: "re_getc noCase p = (c, p1)" by fastforce
    have p1: "r_code p1 = base @ seg" using getc_code [OF g] 3(2) by simp
    consider "c = 0 \<or> c = 124 \<or> c = 41" | "c = 40" | "c \<notin> {0, 124, 41, 40}" by blast
    then show ?case
    proof cases
      case 1
      then have "p' = p1 \<or> p' = p1\<lparr>r_i := r_i p1 - 1\<rparr>" using 3(1) g by (auto split: if_splits)
      then show ?thesis using p1 3(3) by auto
    next
      case 2
      then obtain p2 where r: "re_subcompile_re f malloc noCase p1 = Some (p2, None)"
        and s: "re_subcompile_string f malloc noCase (nState p) (re_skip p2) = Some (p', None)"
        using 3(1) g by (auto split: option.splits if_splits)
      obtain s2 where "r_code p2 = r_code p1 @ s2" "closed_code s2" using IH(1) [OF r] by blast
      then have p2: "r_code (re_skip p2) = base @ (seg @ s2)" "closed_code (seg @ s2)"
        using p1 closed_join [OF 3(3)] by simp_all
      show ?thesis using IH(3) [OF s p2] 3(2) by (simp add: operand_ok_def)
    next
      case c: 3
      obtain p2 where e: "re_element malloc noCase c k p1 = Some (p2, None)"
        and s: "re_subcompile_string f malloc noCase (nState p) p2 = Some (p', None)"
        using 3(1) g c by (auto split: option.splits)
      obtain s2 where s2: "r_code p2 = base @ s2" "closed_code s2" "length seg \<le> length s2"
        using element_code [OF assms p1 3(3,4) e] by blast
      show ?thesis using IH(3) [OF s s2(1,2)] 3(2) s2(3) by (simp add: operand_ok_def)
    qed
  }
qed auto

section \<open>The parser ends\<close>

definition adv :: "ReCompiled \<Rightarrow> ReCompiled \<Rightarrow> bool" where
  "adv p q \<longleftrightarrow> r_z q = r_z p \<and> r_i p \<le> r_i q"

lemma adv_refl [simp]: "adv p p"
  by (simp add: adv_def)

lemma adv_trans: "adv p q \<Longrightarrow> adv q r \<Longrightarrow> adv p r"
  by (simp add: adv_def)

lemma adv_left: "adv p q \<Longrightarrow> length (r_z q) - r_i q \<le> length (r_z p) - r_i p"
  by (simp add: adv_def diff_le_mono2)

lemma adv_less: "adv p q \<Longrightarrow> r_i p < length (r_z p) \<Longrightarrow> r_i p < r_i q \<Longrightarrow> length (r_z q) - r_i q < length (r_z p) - r_i p"
  by (auto simp: adv_def)

lemma insert_adv [simp]: "adv p (fst (re_insert malloc q k op a)) \<longleftrightarrow> adv p q"
  by (simp add: re_insert_def re_resize_def adv_def Let_def)

lemma append_adv [simp]: "adv p (fst (re_append malloc q op a)) \<longleftrightarrow> adv p q" "adv p (app malloc op a q) \<longleftrightarrow> adv p q"
  by (simp_all add: re_append_def app_def)

lemma copy_adv [simp]: "adv p (re_copy malloc k n q) \<longleftrightarrow> adv p q"
  by (simp add: re_copy_def re_resize_def adv_def Let_def)

lemma set_arg_adv [simp]: "adv p (set_arg q k a) \<longleftrightarrow> adv p q"
  by (simp add: set_arg_def adv_def)

lemma skip_adv: "adv p q \<Longrightarrow> adv p (re_skip q)"
  by (simp add: re_skip_def adv_def)

lemma getc_adv: "re_getc noCase p = (c, q) \<Longrightarrow> adv p q \<and> (c \<noteq> 0 \<longrightarrow> r_i p < length (r_z p) \<and> r_i p < r_i q)"
proof -
  assume "re_getc noCase p = (c, q)"
  then obtain i where n: "xNextChar noCase (r_z p) (r_i p) = (c, i)" and q: "q = p\<lparr>r_i := i\<rparr>"
    by (auto simp: re_getc_def split: prod.splits)
  then show ?thesis using re_next_char_progress [OF n] re_next_char_end [OF n]
    by (cases "r_i p < length (r_z p)") (auto simp: adv_def)
qed

lemma esc_adv: "re_esc_char p = (c, q) \<Longrightarrow> adv p q"
  by (auto simp: re_esc_char_def adv_def Let_def split: if_splits option.splits)

lemma maybe_esc_adv: "re_maybe_esc c p = (c', q) \<Longrightarrow> adv p q"
  by (auto simp: re_maybe_esc_def esc_adv split: if_splits)

lemma getnum_adv: "re_getnum p = (m, q) \<Longrightarrow> adv p q"
  by (auto simp: re_getnum_def adv_def split: prod.splits)

lemma class_total:
  "length (r_z p) - r_i p < f \<Longrightarrow> \<exists>p' c e. re_class f malloc noCase p = Some (p', c, e) \<and> adv p p'"
proof (induction f arbitrary: p)
  case (Suc f)
  obtain c0 p0 where g: "re_getc noCase p = (c0, p0)" by fastforce
  obtain c1 p1 where m: "re_maybe_esc c0 p0 = (c1, p1)" by fastforce
  obtain d q where gq: "re_getc noCase (re_skip (app malloc RE_OP_CC_RANGE c1 p1)) = (d, q)" by fastforce
  obtain d' q' where mq: "re_maybe_esc d q = (d', q')" by fastforce
  let ?p2 = "if rePeek p1 = 45 then app malloc RE_OP_CC_RANGE d' q' else app malloc RE_OP_CC_VALUE c1 p1"
  have a0: "adv p p0" "c0 \<noteq> 0 \<Longrightarrow> r_i p < length (r_z p) \<and> r_i p < r_i p0" using getc_adv [OF g] by auto
  have a1: "adv p0 p1" by (rule maybe_esc_adv [OF m])
  have "adv p1 (re_skip (app malloc RE_OP_CC_RANGE c1 p1))" by (intro skip_adv) simp
  then have "adv p1 q'" using getc_adv [OF gq] maybe_esc_adv [OF mq] adv_trans by blast
  then have a2: "adv p0 ?p2" using a1 by (auto intro: adv_trans)
  show ?case
  proof (cases "c0 = 0 \<or> (c0 = 91 \<and> rePeek p0 = 58)")
    case True
    then show ?thesis using g a0(1) by auto
  next
    case False
    have r: "re_class (Suc f) malloc noCase p =
        (if rePeek ?p2 = 93 then Some (re_skip ?p2, if rePeek p1 = 45 then d' else c1, None) else re_class f malloc noCase ?p2)"
      using False g m gq mq by (auto simp: Let_def)
    have "length (r_z ?p2) - r_i ?p2 < f" using a0 a2 False Suc.prems by (auto simp: adv_def)
    from Suc.IH [OF this] obtain p' c e where IH: "re_class f malloc noCase ?p2 = Some (p', c, e)" "adv ?p2 p'" by blast
    have ap: "adv p ?p2" using a0(1) a2 adv_trans by blast
    show ?thesis
    proof (cases "rePeek ?p2 = 93")
      case True
      then show ?thesis using r skip_adv [OF ap] by simp
    next
      case no: False
      then show ?thesis using r IH adv_trans [OF ap IH(2)] by simp
    qed
  qed
qed simp

lemma funpow_adv: "(\<And>q. adv p q \<Longrightarrow> adv p (f q)) \<Longrightarrow> adv p q \<Longrightarrow> adv p ((f ^^ k) q)"
  by (induction k) auto

lemma repeat_adv: "adv p (fst (re_repeat malloc iPrev m n p))"
proof -
  have "adv p (((\<lambda>q. re_copy malloc k s (app malloc RE_OP_FORK (s + 1) q)) ^^ j) q)" if "adv p q" for k s j q
    by (rule funpow_adv [OF _ that]) simp
  moreover have "adv p ((re_copy malloc k s ^^ j) p)" for k s j by (rule funpow_adv) simp_all
  ultimately show ?thesis by (simp add: re_repeat_def Let_def)
qed

lemma interval_adv: "adv p (fst (re_interval malloc iPrev p))"
proof -
  obtain m p1 where n1: "re_getnum p = (m, p1)" by fastforce
  obtain n p2 where n2: "(if rePeek p1 = 44 then re_getnum (re_skip p1) else (m, p1)) = (n, p2)" by fastforce
  have "adv p p1" by (rule getnum_adv [OF n1])
  moreover have "adv p1 p2" using n2 getnum_adv [of "re_skip p1" n p2] skip_adv [OF adv_refl, of p1]
    by (auto split: if_splits intro: adv_trans)
  ultimately have "adv p p2" by (rule adv_trans)
  moreover have "adv p (fst (re_repeat malloc iPrev m n (re_skip p2)))"
    using adv_trans [OF skip_adv [OF \<open>adv p p2\<close>] repeat_adv] .
  ultimately show ?thesis by (auto simp: re_interval_def n1 n2 Let_def)
qed

lemma bracket_total: "\<exists>q e. re_bracket malloc noCase p = Some (q, e) \<and> adv p q"
proof -
  let ?p1 = "if rePeek p = 94 then re_skip (app malloc RE_OP_CC_EXC 0 p) else app malloc RE_OP_CC_INC 0 p"
  have a: "adv p ?p1" by (auto intro: skip_adv)
  then have "length (r_z ?p1) - r_i ?p1 < Suc (length (r_z p))" by (simp add: adv_def)
  from class_total [OF this] obtain q c e where "re_class (Suc (length (r_z p))) malloc noCase ?p1 = Some (q, c, e)" "adv ?p1 q" by blast
  moreover from this a have "adv p q" using adv_trans by blast
  ultimately show ?thesis by (cases e) (auto simp: re_bracket_def Let_def)
qed

lemma element_total: "\<exists>q e. re_element malloc noCase c iPrev p = Some (q, e) \<and> adv p q"
proof -
  obtain d q where e: "re_esc_char p = (d, q)" by fastforce
  have "adv p (re_backslash malloc p)"
    using esc_adv [OF e] by (auto simp: re_backslash_def Let_def e intro!: skip_adv)
  moreover have "\<exists>q e. Some (re_interval malloc iPrev p) = Some (q, e) \<and> adv p q"
    using interval_adv [of p malloc iPrev] by (metis prod.collapse)
  ultimately show ?thesis
    using bracket_total [of malloc noCase p] by (auto simp: re_element_def Let_def intro!: skip_adv)
qed

text \<open>The fuel each routine needs for the \<open>r\<close> bytes that are left.\<close>

lemma subcompile_total:
  "3 * (length (r_z p) - r_i p) + 3 \<le> f \<Longrightarrow> \<exists>q e. re_subcompile_re f malloc noCase p = Some (q, e) \<and> adv p q"
  "3 * (length (r_z p) - r_i p) + 2 \<le> f \<Longrightarrow> \<exists>q e. re_alternatives f malloc noCase k p = Some (q, e) \<and> adv p q"
  "3 * (length (r_z p) - r_i p) + 1 \<le> f \<Longrightarrow> \<exists>q e. re_subcompile_string f malloc noCase k p = Some (q, e) \<and> adv p q"
proof (induction f arbitrary: p k)
  case (Suc f)
  note IH = Suc.IH
  {
    case 1
    obtain q e where s: "re_subcompile_string f malloc noCase (- 1) p = Some (q, e)" "adv p q"
      using IH(3) [of p "- 1"] 1 by auto
    have "3 * (length (r_z q) - r_i q) + 2 \<le> f" using 1 adv_left [OF s(2)] by linarith
    from IH(2) [OF this, of "nState p"] obtain q' e' where
      "re_alternatives f malloc noCase (nState p) q = Some (q', e')" "adv q q'" by blast
    then show ?case using s by (cases e) (auto intro: adv_trans)
  next
    case 2
    show ?case
    proof (cases "rePeek p = 124")
      case False
      then show ?thesis by simp
    next
      case True
      then have lt: "r_i p < length (r_z p)" by (auto simp: rePeek_def at_def split: if_splits)
      let ?p1 = "fst (re_insert malloc p k RE_OP_FORK (nState p + 2 - k))"
      let ?p2 = "re_skip (fst (re_append malloc ?p1 RE_OP_GOTO 0))" and ?g = "snd (re_append malloc ?p1 RE_OP_GOTO 0)"
      have a: "adv p (fst (re_append malloc ?p1 RE_OP_GOTO 0))" by simp
      then have a2: "adv p ?p2" "r_i p < r_i ?p2" by (auto simp: re_skip_def adv_def)
      note left = adv_less [OF a2(1) lt a2(2)]
      then have "3 * (length (r_z ?p2) - r_i ?p2) + 1 \<le> f" using 2 by linarith
      from IH(3) [OF this, of "- 1"] obtain q e where s: "re_subcompile_string f malloc noCase (- 1) ?p2 = Some (q, e)" "adv ?p2 q"
        by blast
      let ?q = "set_arg q ?g (nState q - ?g)"
      have aq: "adv ?p2 ?q" using s(2) by simp
      have "3 * (length (r_z ?q) - r_i ?q) + 2 \<le> f" using 2 left adv_left [OF aq] by linarith
      from IH(2) [OF this, of k] obtain q' e' where "re_alternatives f malloc noCase k ?q = Some (q', e')" "adv ?q q'" by blast
      moreover from this(2) have "adv p q'" using a2(1) aq adv_trans by blast
      moreover have "adv p q" using a2(1) s(2) adv_trans by blast
      ultimately show ?thesis using True s(1) by (cases e) (auto simp: Let_def case_prod_beta)
    qed
  next
    case 3
    obtain c p1 where g: "re_getc noCase p = (c, p1)" by fastforce
    have a1: "adv p p1" "c \<noteq> 0 \<Longrightarrow> r_i p < length (r_z p) \<and> r_i p < r_i p1" using getc_adv [OF g] by auto
    consider "c = 0" | "c = 124 \<or> c = 41" | "c = 40" | "c \<notin> {0, 124, 41, 40}" by blast
    then show ?case
    proof cases
      case 1
      then show ?thesis using g a1 by simp
    next
      case 2
      then show ?thesis using g a1 by (auto simp: adv_def)
    next
      case c: 3
      then have "length (r_z p1) - r_i p1 < length (r_z p) - r_i p" using adv_less a1 by simp
      then have b: "3 * (length (r_z p1) - r_i p1) + 3 \<le> f" using 3 by linarith
      from IH(1) [OF b] obtain q e where s: "re_subcompile_re f malloc noCase p1 = Some (q, e)" "adv p1 q" by blast
      have aq: "adv p1 (re_skip q)" by (rule skip_adv [OF s(2)])
      have "3 * (length (r_z (re_skip q)) - r_i (re_skip q)) + 1 \<le> f" using b adv_left [OF aq] by linarith
      from IH(3) [OF this, of "nState p"] obtain q' e' where
        "re_subcompile_string f malloc noCase (nState p) (re_skip q) = Some (q', e')" "adv (re_skip q) q'" by blast
      moreover have "adv p q" "adv p (re_skip q)" using a1(1) s(2) aq adv_trans by blast+
      ultimately show ?thesis using g c s(1) by (cases e) (auto intro: adv_trans)
    next
      case c: 4
      obtain q e where s: "re_element malloc noCase c k p1 = Some (q, e)" "adv p1 q" using element_total by blast
      have "length (r_z p1) - r_i p1 < length (r_z p) - r_i p" using adv_less a1 c by simp
      then have "3 * (length (r_z q) - r_i q) + 1 \<le> f" using 3 adv_left [OF s(2)] by linarith
      from IH(3) [OF this, of "nState p"] obtain q' e' where
        "re_subcompile_string f malloc noCase (nState p) q = Some (q', e')" "adv q q'" by blast
      moreover have "adv p q" using a1(1) s(2) adv_trans by blast
      ultimately show ?thesis using g c s(1) by (cases e) (auto intro: adv_trans)
    qed
  }
qed auto

section \<open>Properties\<close>

lemma compiled_code:
  assumes "\<forall>n. malloc n" and "re_compile malloc z noCase = Re_Ok pRe" and "length (r_code pRe) \<le> 65536"
  shows "code_ok (r_code pRe)" and "r_code pRe \<noteq> []"
proof -
  obtain p where p: "re_subcompile_re (re_fuel z) malloc noCase (re_start malloc z) = Some (p, None)"
    and r: "r_code pRe = r_code (app malloc RE_OP_ACCEPT 0 p)"
    using assms(1,2) by (auto simp: re_compile_def Let_def split: option.splits if_splits)
  obtain seg where s: "r_code p = r_code (re_start malloc z) @ seg" "closed_code seg"
    using subcompile_code(1) [OF assms(1) p] by blast
  have "closed_code (r_code (re_start malloc z))"
    using app_code [OF assms(1)] by (simp add: re_start_def targets_def forward_arg_def)
  then have c: "closed_code (r_code p)" unfolding s(1) using s(2) by (rule closed_join)
  have code: "r_code pRe = r_code p @ [(RE_OP_ACCEPT, 0)]" using r app_code [OF assms(1)] by simp
  then show "r_code pRe \<noteq> []" by simp
  show "code_ok (r_code pRe)" unfolding code by (rule code_ok_accept [OF c]) (use assms(3) code in simp)
qed

text \<open>C39: The compiler ends on every pattern, with or without failing allocations: the recursion of its parsing
  routines is bounded by three calls for each byte of the pattern.\<close>

theorem re_compile_ends: "re_compile malloc zIn noCase \<noteq> Re_NoFuel"
proof -
  let ?p = "re_start malloc zIn"
  have "length (r_z ?p) \<le> length zIn" by (simp add: re_start_def app_def re_append_def re_insert_def re_resize_def Let_def)
  then have "3 * (length (r_z ?p) - r_i ?p) + 3 \<le> re_fuel zIn" by (simp add: re_fuel_def)
  from subcompile_total(1) [OF this] obtain q e where "re_subcompile_re (re_fuel zIn) malloc noCase ?p = Some (q, e)" by blast
  then show ?thesis by (auto simp: re_compile_def Let_def split: option.splits)
qed


definition demo_pattern :: "byte list" where
  "demo_pattern = bytes_of ''^(a|b)+$''"

definition demo_re :: ReCompiled where
  "demo_re = \<lparr>r_z = bytes_of ''(a|b)+$'', r_i = 7, r_zErr = None,
     r_code = [(RE_OP_FORK, 3), (RE_OP_MATCH, 97), (RE_OP_GOTO, 2), (RE_OP_MATCH, 98), (RE_OP_FORK, - 4),
       (RE_OP_MATCH, 0), (RE_OP_ACCEPT, 0)],
     r_nAlloc = 30, r_zInit = []\<rparr>"

lemma demo_compiles: "re_compile (\<lambda>n. True) demo_pattern False = Re_Ok demo_re"
  by code_simp




text \<open>At the end of the text only jumps are followed, not forks, and the end is read once.  So a dollar under a
  repetition, or twice, does not match, although the group before it does.\<close>

lemma repeated_dollar_fails:
  "re_sql_func (\<lambda>n. True) False (Some (bytes_of ''^(a$)+'')) (Some (bytes_of ''a'')) = Some (R_Int 0) \<and>
   re_sql_func (\<lambda>n. True) False (Some (bytes_of ''^(a$)'')) (Some (bytes_of ''a'')) = Some (R_Int 1) \<and>
   re_sql_func (\<lambda>n. True) False (Some (bytes_of ''^a$$'')) (Some (bytes_of ''a'')) = Some (R_Int 0)"
  by code_simp

text \<open>A second repetition operator applies to the last instruction of the first one: the empty text is not matched.\<close>

lemma double_star_fails:
  "re_sql_func (\<lambda>n. True) False (Some (bytes_of ''^a**$'')) (Some (bytes_of '''')) = Some (R_Int 0) \<and>
   re_sql_func (\<lambda>n. True) False (Some (bytes_of ''^a*$'')) (Some (bytes_of '''')) = Some (R_Int 1)"
  by code_simp

end
