(* ===== verification/Shell_Csv.thy ===== *)
theory Shell_Csv
  imports Bytes
begin

text \<open>
  CSV in the command line shell (\<open>shell.c\<close>): the output of a row in CSV mode (\<open>output_csv\<close>), the readers
  of one field (\<open>csv_read_one_field\<close>, \<open>ascii_read_one_field\<close>) and the loop of \<open>.import\<close> that binds the
  fields of each row and inserts it.  The input stream is the list of the bytes that are left; a failed
  allocation ends the shell and is not modelled.  \<open>None\<close> stands for a read before the start of the field
  buffer, which is proved not to happen, or for a loop that does not end.
\<close>

section \<open>Writing\<close>

text \<open>\<open>%w\<close> of \<open>sqlite3_mprintf\<close> doubles the double quotes.\<close>

definition dq :: "byte list \<Rightarrow> byte list" where
  "dq z = concat (map (\<lambda>b. if b = 34 then [34, 34] else [b]) z)"

definition needCsvQuote :: "bool list" where
  "needCsvQuote = replicate 32 True @ [True, False, True, False, False, False, False, True] @
     replicate 87 False @ [True] @ replicate 128 True"

definition needs_quote :: "byte \<Rightarrow> bool" where
  "needs_quote b \<longleftrightarrow> needCsvQuote ! unat b"

fun strstr_found :: "byte list \<Rightarrow> byte list \<Rightarrow> bool" where
  "strstr_found [] pat \<longleftrightarrow> pat = []"
| "strstr_found (b # z) pat \<longleftrightarrow> take (length pat) (b # z) = pat \<or> strstr_found z pat"

text \<open>The index the scan for a character that needs quotes ends with: it is set back to 0 at one.\<close>

fun quote_scan :: "nat \<Rightarrow> byte list \<Rightarrow> nat" where
  "quote_scan i [] = i"
| "quote_scan i (b # z) = (if needs_quote b then 0 else quote_scan (i + 1) z)"

definition output_csv :: "byte list \<Rightarrow> byte list \<Rightarrow> byte list option \<Rightarrow> bool \<Rightarrow> byte list" where
  "output_csv nullValue colSeparator zo bSep =
     (case zo of
        None \<Rightarrow> nullValue
      | Some z \<Rightarrow> (if quote_scan 0 z = 0 \<or> strstr_found z colSeparator then [34] @ dq z @ [34] else z)) @
     (if bSep then colSeparator else [])"

text \<open>A row of \<open>MODE_Csv\<close>.\<close>

fun csv_fields :: "byte list \<Rightarrow> byte list \<Rightarrow> byte list option list \<Rightarrow> byte list" where
  "csv_fields nullValue colSep [] = []"
| "csv_fields nullValue colSep (z # zs) = output_csv nullValue colSep z (zs \<noteq> []) @ csv_fields nullValue colSep zs"

definition csv_row :: "byte list \<Rightarrow> byte list \<Rightarrow> byte list \<Rightarrow> byte list option list \<Rightarrow> byte list" where
  "csv_row nullValue colSep rowSep azArg =
     (if azArg \<noteq> [] then csv_fields nullValue colSep azArg @ rowSep else [])"

section \<open>Reading one field\<close>

datatype import_error =
    Unescaped int            \<comment> \<open>line\<close>
  | Unterminated int         \<comment> \<open>first line of the field\<close>
  | Too_Few int nat nat      \<comment> \<open>line, columns expected and found\<close>
  | Too_Many int nat nat
  | Insert_Failed int

text \<open>\<open>ic_z\<close> is the first \<open>n\<close> bytes of the buffer, \<open>None\<close> while the buffer is not allocated.\<close>

record ImportCtx =
  ic_in :: "byte list"
  ic_z :: "byte list option"
  ic_nLine :: int
  ic_nRow :: int
  ic_nErr :: int
  ic_bNotFirst :: bool
  ic_cTerm :: int
  ic_cColSep :: byte
  ic_cRowSep :: byte
  ic_errs :: "import_error list"

definition import_append_char :: "ImportCtx \<Rightarrow> byte \<Rightarrow> ImportCtx" where
  "import_append_char p c = p\<lparr>ic_z := Some ((case ic_z p of None \<Rightarrow> [] | Some z \<Rightarrow> z) @ [c])\<rparr>"

definition set_n0 :: "ImportCtx \<Rightarrow> ImportCtx" where
  "set_n0 p = p\<lparr>ic_z := map_option (\<lambda>_. []) (ic_z p)\<rparr>"

definition ic_err :: "import_error \<Rightarrow> ImportCtx \<Rightarrow> ImportCtx" where
  "ic_err e p = p\<lparr>ic_errs := ic_errs p @ [e]\<rparr>"

definition count_line :: "byte \<Rightarrow> ImportCtx \<Rightarrow> ImportCtx" where
  "count_line c p = (if c = ic_cRowSep p then p\<lparr>ic_nLine := ic_nLine p + 1\<rparr> else p)"

text \<open>\<open>do{ p->n--; }while( p->z[p->n]!=cQuote );\<close>\<close>

definition close_quote :: "int \<Rightarrow> ImportCtx \<Rightarrow> ImportCtx option" where
  "close_quote c p =
     (case ic_z p of
        None \<Rightarrow> None
      | Some z \<Rightarrow>
          (case dropWhile (\<lambda>b. b \<noteq> 34) (rev z) of
             [] \<Rightarrow> None
           | _ # r \<Rightarrow> Some (p\<lparr>ic_z := Some (rev r), ic_cTerm := c\<rparr>)))"

text \<open>The loop inside quotes, on the bytes that are left; \<open>pc\<close> and \<open>ppc\<close> are the last two characters.\<close>

fun csv_quoted :: "int \<Rightarrow> int \<Rightarrow> int \<Rightarrow> byte list \<Rightarrow> ImportCtx \<Rightarrow> ImportCtx option" where
  "csv_quoted pc ppc startLine [] p0 =
     (let p = p0\<lparr>ic_in := []\<rparr> in
      if pc = 34 then close_quote (-1) p
      else Some ((ic_err (Unterminated startLine) p)\<lparr>ic_cTerm := -1\<rparr>))"
| "csv_quoted pc ppc startLine (b # bs) p0 =
     (let c = uint b;
          p = count_line b (p0\<lparr>ic_in := bs\<rparr>)
      in if c = 34 \<and> pc = 34 then csv_quoted 0 ppc startLine bs p
         else if b = ic_cColSep p \<and> pc = 34 \<or> b = ic_cRowSep p \<and> pc = 34 \<or>
                 b = ic_cRowSep p \<and> pc = 13 \<and> ppc = 34
         then close_quote c p
         else (let p1 = (if pc = 34 \<and> c \<noteq> 13 then ic_err (Unescaped (ic_nLine p)) p else p)
               in csv_quoted c pc startLine bs (import_append_char p1 b)))"

text \<open>The end of an unquoted field: a carriage return before the row separator is dropped.\<close>

definition drop_cr :: "byte list \<Rightarrow> byte list" where
  "drop_cr z = (if z \<noteq> [] \<and> last z = 13 then butlast z else z)"

definition csv_end_plain :: "byte \<Rightarrow> ImportCtx \<Rightarrow> ImportCtx" where
  "csv_end_plain c p =
     (if c = ic_cRowSep p then p\<lparr>ic_nLine := ic_nLine p + 1, ic_z := map_option drop_cr (ic_z p)\<rparr> else p)
       \<lparr>ic_cTerm := uint c\<rparr>"

fun csv_plain :: "byte list \<Rightarrow> ImportCtx \<Rightarrow> ImportCtx" where
  "csv_plain [] p = p\<lparr>ic_in := [], ic_cTerm := -1\<rparr>"
| "csv_plain (c # bs) p =
     (if c = ic_cColSep p \<or> c = ic_cRowSep p then csv_end_plain c (p\<lparr>ic_in := bs\<rparr>)
      else csv_plain bs (import_append_char p c))"

text \<open>A byte order mark at the start of the file is skipped; a part of one is data.\<close>

fun csv_bom :: "ImportCtx \<Rightarrow> byte list \<Rightarrow> byte list option" where
  "csv_bom p (c1 # c2 # c3 # bs) =
     (if c1 = 0xef \<and> \<not> ic_bNotFirst p \<and> c2 = 0xbb \<and> c3 = 0xbf then Some bs else None)"
| "csv_bom p bs = None"

text \<open>After the first test a leading byte \<open>0xef\<close>, and \<open>0xbb\<close> after it, are appended without looking whether they
  are separators.\<close>

definition csv_start_plain :: "ImportCtx \<Rightarrow> byte list \<Rightarrow> ImportCtx \<times> byte list" where
  "csv_start_plain p bs =
     (case bs of
        c1 # bs1 \<Rightarrow>
          (if c1 = 0xef \<and> \<not> ic_bNotFirst p
           then (case bs1 of
                   c2 # bs2 \<Rightarrow>
                     (if c2 = 0xbb then (import_append_char (import_append_char p c1) c2, bs2)
                      else (import_append_char p c1, bs1))
                 | [] \<Rightarrow> (import_append_char p c1, []))
           else (p, bs))
      | [] \<Rightarrow> (p, []))"

definition finish_field :: "ImportCtx \<Rightarrow> byte list option \<times> ImportCtx" where
  "finish_field p = (ic_z p, p\<lparr>ic_bNotFirst := True\<rparr>)"

definition csv_field :: "ImportCtx \<Rightarrow> (byte list option \<times> ImportCtx) option" where
  "csv_field p0 =
     (let p = set_n0 p0 in
      case ic_in p of
        [] \<Rightarrow> Some (None, p\<lparr>ic_cTerm := -1\<rparr>)
      | c # bs \<Rightarrow>
          (if c = 34 then map_option finish_field (csv_quoted 0 0 (ic_nLine p) bs (p\<lparr>ic_in := bs\<rparr>))
           else (case csv_start_plain p (c # bs) of
                   (p1, bs1) \<Rightarrow> Some (finish_field (csv_plain bs1 p1)))))"

definition csv_read_one_field :: "ImportCtx \<Rightarrow> (byte list option \<times> ImportCtx) option" where
  "csv_read_one_field p =
     (case csv_bom p (ic_in p) of
        Some bs \<Rightarrow> csv_field (p\<lparr>ic_in := bs, ic_z := Some [], ic_bNotFirst := True\<rparr>)
      | None \<Rightarrow> csv_field p)"

fun ascii_plain :: "byte list \<Rightarrow> ImportCtx \<Rightarrow> ImportCtx" where
  "ascii_plain [] p = p\<lparr>ic_in := [], ic_cTerm := -1\<rparr>"
| "ascii_plain (c # bs) p =
     (if c = ic_cColSep p \<or> c = ic_cRowSep p
      then (count_line c (p\<lparr>ic_in := bs\<rparr>))\<lparr>ic_cTerm := uint c\<rparr>
      else ascii_plain bs (import_append_char p c))"

definition ascii_read_one_field :: "ImportCtx \<Rightarrow> (byte list option \<times> ImportCtx) option" where
  "ascii_read_one_field p0 =
     (let p = set_n0 p0 in
      case ic_in p of
        [] \<Rightarrow> Some (None, p\<lparr>ic_cTerm := -1\<rparr>)
      | bs \<Rightarrow> (let p1 = ascii_plain bs p in Some (ic_z p1, p1)))"

section \<open>The loop of \<open>.import\<close>\<close>

type_synonym field_reader = "ImportCtx \<Rightarrow> (byte list option \<times> ImportCtx) option"

definition c_text :: "byte list \<Rightarrow> byte list" where
  "c_text z = takeWhile (\<lambda>b. b \<noteq> 0) z"

definition at_sep :: "ImportCtx \<Rightarrow> bool" where
  "at_sep p \<longleftrightarrow> ic_cTerm p = uint (ic_cColSep p)"

text \<open>The fields of one row; the result is the loop variable \<open>i\<close>, the values bound and the context.\<close>

function import_fields ::
  "field_reader \<Rightarrow> bool \<Rightarrow> bool \<Rightarrow> nat \<Rightarrow> int \<Rightarrow> nat \<Rightarrow> byte list option list \<Rightarrow> ImportCtx \<Rightarrow>
     (nat \<times> byte list option list \<times> ImportCtx) option" where
  "import_fields xRead isCsv asciiMode nCol startLine i bound p =
     (if i \<ge> nCol then Some (i, bound, p)
      else (case xRead p of
              None \<Rightarrow> None
            | Some (z, p1) \<Rightarrow>
                if z = None \<and> i = 0 then Some (i, bound, p1)
                else if asciiMode \<and> (case z of None \<Rightarrow> True | Some t \<Rightarrow> c_text t = []) \<and> i = 0
                then Some (i, bound, p1)
                else (let z1 = (if z = None \<and> isCsv \<and> i = nCol - 1 \<and> i > 0 then Some [] else z);
                          bound1 = bound @ [map_option c_text z1]
                      in if i < nCol - 1 \<and> \<not> at_sep p1
                         then Some (nCol + 2, bound1 @ replicate (nCol - 1 - i) None,
                                    ic_err (Too_Few startLine nCol (i + 1)) p1)
                         else import_fields xRead isCsv asciiMode nCol startLine (i + 1) bound1 p1)))"
  by pat_completeness auto

termination import_fields
  by (relation "measure (\<lambda>(xRead, isCsv, asciiMode, nCol, startLine, i, bound, p). nCol - i)") auto

declare import_fields.simps [simp del]

text \<open>Reading past the extra fields of a row.\<close>

partial_function (option) import_extras :: "field_reader \<Rightarrow> nat \<Rightarrow> ImportCtx \<Rightarrow> (nat \<times> ImportCtx) option" where
  "import_extras xRead i p =
     (case xRead p of
        None \<Rightarrow> None
      | Some (z, p1) \<Rightarrow>
          (if at_sep p1 then import_extras xRead (i + 1) p1 else Some (i + 1, p1)))"

definition import_row ::
  "field_reader \<Rightarrow> bool \<Rightarrow> bool \<Rightarrow> nat \<Rightarrow> (byte list option list \<Rightarrow> 't \<Rightarrow> bool \<times> 't) \<Rightarrow> ImportCtx \<Rightarrow> 't \<Rightarrow>
     (ImportCtx \<times> 't) option" where
  "import_row xRead isCsv asciiMode nCol step p t =
     (case import_fields xRead isCsv asciiMode nCol (ic_nLine p) 0 [] p of
        None \<Rightarrow> None
      | Some (i, bound, p1) \<Rightarrow>
          (case (if at_sep p1 then import_extras xRead i p1 else Some (i, p1)) of
             None \<Rightarrow> None
           | Some (i2, p2) \<Rightarrow>
               (let p3 = (if at_sep p1 then ic_err (Too_Many (ic_nLine p) nCol i2) p2 else p2)
                in if i2 \<ge> nCol
                   then (case step bound t of
                           (True, t') \<Rightarrow> Some (p3\<lparr>ic_nRow := ic_nRow p3 + 1\<rparr>, t')
                         | (False, t') \<Rightarrow>
                             Some ((ic_err (Insert_Failed (ic_nLine p)) p3)\<lparr>ic_nErr := ic_nErr p3 + 1\<rparr>, t'))
                   else Some (p3, t))))"

partial_function (option) import_loop ::
  "(ImportCtx \<Rightarrow> 't \<Rightarrow> (ImportCtx \<times> 't) option) \<Rightarrow> ImportCtx \<Rightarrow> 't \<Rightarrow> (ImportCtx \<times> 't) option" where
  "import_loop row p t =
     (case row p t of
        None \<Rightarrow> None
      | Some (p1, t1) \<Rightarrow> (if ic_cTerm p1 \<noteq> -1 then import_loop row p1 t1 else Some (p1, t1)))"

section \<open>The contract of a field reader\<close>

definition zbuf :: "ImportCtx \<Rightarrow> byte list" where
  "zbuf p = (case ic_z p of None \<Rightarrow> [] | Some z \<Rightarrow> z)"

definition same_seps :: "ImportCtx \<Rightarrow> ImportCtx \<Rightarrow> bool" where
  "same_seps p p' \<longleftrightarrow> ic_cColSep p' = ic_cColSep p \<and> ic_cRowSep p' = ic_cRowSep p"

text \<open>At the end of the stream the terminator is \<open>EOF\<close>; otherwise something is read.\<close>

definition advances :: "ImportCtx \<Rightarrow> ImportCtx \<Rightarrow> bool" where
  "advances p p' \<longleftrightarrow> (if ic_in p = [] then ic_in p' = [] \<and> ic_cTerm p' = -1
                       else length (ic_in p') < length (ic_in p))"

lemma advances_trans: "advances p q \<Longrightarrow> advances q r \<Longrightarrow> advances p r"
  by (auto simp: advances_def split: if_splits)

locale reads_fields =
  fixes xRead :: field_reader
  assumes reads: "\<exists>z p'. xRead p = Some (z, p') \<and> advances p p' \<and> same_seps p p'"
begin

lemma fields_total:
  assumes "i \<le> nCol"
  shows "\<exists>j b p'. import_fields xRead isCsv asciiMode nCol l i bound p = Some (j, b, p') \<and>
     (i < nCol \<longrightarrow> advances p p') \<and> same_seps p p'"
  using assms
proof (induction "nCol - i" arbitrary: i bound p)
  case 0
  then show ?case by (simp add: import_fields.simps same_seps_def)
next
  case (Suc k)
  then have i: "i < nCol" by simp
  obtain z p1 where 1: "xRead p = Some (z, p1)" "advances p p1" "same_seps p p1" using reads by blast
  have ih: "\<exists>j b p'. import_fields xRead isCsv asciiMode nCol l (i + 1) bound' p1 = Some (j, b, p') \<and>
     (i + 1 < nCol \<longrightarrow> advances p1 p') \<and> same_seps p1 p'" for bound'
    using Suc.hyps(1) [of "i + 1"] Suc.hyps(2) i by simp
  show ?case
  proof (cases "z = None \<and> i = 0 \<or> asciiMode \<and> (case z of None \<Rightarrow> True | Some t \<Rightarrow> c_text t = []) \<and> i = 0")
    case True
    with i 1 show ?thesis by (subst import_fields.simps) auto
  next
    case False
    let ?b = "bound @ [map_option c_text (if z = None \<and> isCsv \<and> i = nCol - 1 \<and> i > 0 then Some [] else z)]"
    have eq: "import_fields xRead isCsv asciiMode nCol l i bound p =
      (if i < nCol - 1 \<and> \<not> at_sep p1
       then Some (nCol + 2, ?b @ replicate (nCol - 1 - i) None, ic_err (Too_Few l nCol (i + 1)) p1)
       else import_fields xRead isCsv asciiMode nCol l (i + 1) ?b p1)"
      using False i 1(1) by (subst import_fields.simps) (auto simp: Let_def)
    obtain j b p' where r: "import_fields xRead isCsv asciiMode nCol l (i + 1) ?b p1 = Some (j, b, p')"
      "i + 1 < nCol \<longrightarrow> advances p1 p'" "same_seps p1 p'" using ih by blast
    have adv: "advances p p'"
    proof (cases "i + 1 < nCol")
      case True
      with r(2) 1(2) show ?thesis by (blast intro: advances_trans)
    next
      case False
      with i r(1) have "p' = p1" by (simp add: import_fields.simps)
      with 1(2) show ?thesis by simp
    qed
    from eq r(1,3) adv 1(2,3) show ?thesis by (auto simp: ic_err_def advances_def same_seps_def)
  qed
qed

lemma extras_total: "\<exists>j p'. import_extras xRead i p = Some (j, p') \<and> advances p p' \<and> same_seps p p'"
proof (induction "length (ic_in p)" arbitrary: i p rule: less_induct)
  case less
  obtain z p1 where 1: "xRead p = Some (z, p1)" "advances p p1" "same_seps p p1" using reads by blast
  show ?case
  proof (cases "at_sep p1")
    case False
    with 1 show ?thesis by (subst import_extras.simps) auto
  next
    case True
    then have "ic_cTerm p1 \<noteq> -1" using uint_nonnegative [of "ic_cColSep p1"] unfolding at_sep_def by linarith
    then have "length (ic_in p1) < length (ic_in p)" using 1(2) by (auto simp: advances_def split: if_splits)
    from less [OF this, of "i + 1"] obtain j p' where
      "import_extras xRead (i + 1) p1 = Some (j, p')" "advances p1 p'" "same_seps p1 p'" by blast
    with True 1 advances_trans [OF 1(2)] show ?thesis by (subst import_extras.simps) (auto simp: same_seps_def)
  qed
qed

lemma row_total:
  assumes "0 < nCol"
  shows "\<exists>p' t'. import_row xRead isCsv asciiMode nCol step p t = Some (p', t') \<and> advances p p'"
proof -
  obtain i b p1 where 1: "import_fields xRead isCsv asciiMode nCol (ic_nLine p) 0 [] p = Some (i, b, p1)"
    "advances p p1" using fields_total [of 0 nCol] assms by blast
  obtain i2 p2 where 2: "(if at_sep p1 then import_extras xRead i p1 else Some (i, p1)) = Some (i2, p2)"
    "advances p p2"
    using extras_total [of i p1] 1(2) by (cases "at_sep p1") (auto intro: advances_trans)
  obtain ok t1 where 3: "step b t = (ok, t1)" by fastforce
  from 2(2) show ?thesis
    unfolding import_row_def 1(1) 2(1) option.case prod.case Let_def 3
    by (cases ok) (auto simp: advances_def ic_err_def)
qed

text \<open>The import ends on every stream.\<close>

lemma loop_ends:
  assumes "0 < nCol"
  shows "\<exists>p' t'. import_loop (import_row xRead isCsv asciiMode nCol step) p t = Some (p', t') \<and> ic_cTerm p' = -1"
proof (induction "length (ic_in p)" arbitrary: p t rule: less_induct)
  case less
  obtain p1 t1 where 1: "import_row xRead isCsv asciiMode nCol step p t = Some (p1, t1)" "advances p p1"
    using row_total [OF assms, of isCsv asciiMode step p t] by blast
  show ?case
  proof (cases "ic_cTerm p1 = -1")
    case True
    with 1 show ?thesis by (subst import_loop.simps) simp
  next
    case False
    then have "length (ic_in p1) < length (ic_in p)" using 1(2) by (auto simp: advances_def split: if_splits)
    from less [OF this, of t1] False 1(1) show ?thesis by (subst import_loop.simps) simp
  qed
qed

end

section \<open>Both readers meet the contract\<close>

lemma append_fields [simp]:
  "ic_in (import_append_char p c) = ic_in p" "ic_cColSep (import_append_char p c) = ic_cColSep p"
  "ic_cRowSep (import_append_char p c) = ic_cRowSep p" "ic_errs (import_append_char p c) = ic_errs p"
  "ic_nRow (import_append_char p c) = ic_nRow p" "ic_nErr (import_append_char p c) = ic_nErr p"
  "zbuf (import_append_char p c) = zbuf p @ [c]" "ic_z (import_append_char p c) = Some (zbuf p @ [c])"
  "ic_bNotFirst (import_append_char p c) = ic_bNotFirst p"
  by (simp_all add: import_append_char_def zbuf_def)

lemma count_line_fields [simp]:
  "ic_in (count_line c p) = ic_in p" "ic_cColSep (count_line c p) = ic_cColSep p"
  "ic_cRowSep (count_line c p) = ic_cRowSep p" "ic_errs (count_line c p) = ic_errs p"
  "ic_nRow (count_line c p) = ic_nRow p" "ic_nErr (count_line c p) = ic_nErr p"
  "zbuf (count_line c p) = zbuf p" "ic_z (count_line c p) = ic_z p"
  by (simp_all add: count_line_def zbuf_def)

lemma err_fields [simp]:
  "ic_in (ic_err e p) = ic_in p" "ic_cColSep (ic_err e p) = ic_cColSep p"
  "ic_cRowSep (ic_err e p) = ic_cRowSep p" "zbuf (ic_err e p) = zbuf p"
  by (simp_all add: ic_err_def zbuf_def)

lemma upd_zbuf [simp]:
  "zbuf (p\<lparr>ic_in := x\<rparr>) = zbuf p" "zbuf (p\<lparr>ic_cTerm := c\<rparr>) = zbuf p" "zbuf (set_n0 p) = []"
  by (simp_all add: zbuf_def set_n0_def split: option.split)

lemma close_quote_ok:
  assumes "34 \<in> set (zbuf p)"
  shows "\<exists>p'. close_quote c p = Some p' \<and> ic_in p' = ic_in p \<and> same_seps p p'"
proof -
  from assms obtain z where z: "ic_z p = Some z" "34 \<in> set z" by (cases "ic_z p") (auto simp: zbuf_def)
  have "dropWhile (\<lambda>b. b \<noteq> 34) (rev z) \<noteq> []" using z(2) by (simp add: dropWhile_eq_Nil_conv)
  with z show ?thesis by (auto simp: close_quote_def same_seps_def split: list.split)
qed

lemma csv_quoted_ok:
  assumes "pc = 34 \<or> ppc = 34 \<Longrightarrow> 34 \<in> set (zbuf p)"
  shows "\<exists>p'. csv_quoted pc ppc l bs p = Some p' \<and> length (ic_in p') \<le> length bs \<and> same_seps p p'"
  using assms
proof (induction pc ppc l bs p rule: csv_quoted.induct)
  case (1 pc ppc l p)
  then show ?case
    using close_quote_ok [of "p\<lparr>ic_in := []\<rparr>" "-1"]
    by (cases "pc = 34") (auto simp: same_seps_def Let_def)
next
  case (2 pc ppc l b bs p0)
  let ?p = "count_line b (p0\<lparr>ic_in := bs\<rparr>)"
  have z: "zbuf ?p = zbuf p0" by simp
  consider (dbl) "uint b = 34 \<and> pc = 34"
    | (cl) "\<not> (uint b = 34 \<and> pc = 34)" "b = ic_cColSep ?p \<and> pc = 34 \<or> b = ic_cRowSep ?p \<and> pc = 34 \<or>
        b = ic_cRowSep ?p \<and> pc = 13 \<and> ppc = 34"
    | (app) "\<not> (uint b = 34 \<and> pc = 34)" "\<not> (b = ic_cColSep ?p \<and> pc = 34 \<or> b = ic_cRowSep ?p \<and> pc = 34 \<or>
        b = ic_cRowSep ?p \<and> pc = 13 \<and> ppc = 34)" by blast
  then show ?case
  proof cases
    case dbl
    have "34 \<in> set (zbuf ?p)" using "2.prems" dbl by simp
    from "2.IH"(1) [OF refl refl dbl] this obtain p' where
      "csv_quoted 0 ppc l bs ?p = Some p'" "length (ic_in p') \<le> length bs" "same_seps ?p p'" by auto
    with dbl show ?thesis by (simp add: same_seps_def Let_def)
  next
    case cl
    then have "34 \<in> set (zbuf ?p)" using "2.prems" by auto
    from close_quote_ok [OF this, of "uint b"] obtain p' where
      "close_quote (uint b) ?p = Some p'" "ic_in p' = bs" "same_seps p0 p'" by (auto simp: same_seps_def)
    then show ?thesis
      unfolding csv_quoted.simps Let_def by (simp only: if_not_P [OF cl(1)] if_P [OF cl(2)]) simp
  next
    case app
    let ?q = "if pc = 34 \<and> uint b \<noteq> 13 then ic_err (Unescaped (ic_nLine ?p)) ?p else ?p"
    have zq: "zbuf ?q = zbuf p0" by simp
    have "34 \<in> set (zbuf (import_append_char ?q b))" if "uint b = 34 \<or> pc = 34"
    proof (cases "pc = 34")
      case True
      then show ?thesis using "2.prems" zq by simp
    next
      case False
      with that have "b = 34" by (simp add: word_uint_eq_iff)
      then show ?thesis by simp
    qed
    with "2.IH"(2) [OF refl refl app(1) app(2) refl] obtain p' where
      "csv_quoted (uint b) pc l bs (import_append_char ?q b) = Some p'" "length (ic_in p') \<le> length bs"
      "same_seps (import_append_char ?q b) p'" by auto
    moreover have "same_seps p0 (import_append_char ?q b)" by (simp add: same_seps_def)
    ultimately show ?thesis
      unfolding csv_quoted.simps Let_def by (simp only: if_not_P [OF app(1)] if_not_P [OF app(2)])
        (auto simp: same_seps_def)
  qed
qed

lemma csv_plain_ok: "length (ic_in (csv_plain bs p)) \<le> length bs \<and> same_seps p (csv_plain bs p) \<and>
    (bs = [] \<longrightarrow> ic_cTerm (csv_plain bs p) = -1)"
  by (induction bs p rule: csv_plain.induct) (auto simp: csv_end_plain_def same_seps_def)

lemma csv_plain_shorter: "bs \<noteq> [] \<Longrightarrow> length (ic_in (csv_plain bs p)) < length bs"
proof (induction bs p rule: csv_plain.induct)
  case (2 c bs p)
  show ?case using csv_plain_ok [of bs "import_append_char p c"] by (simp add: csv_end_plain_def)
qed simp

lemma csv_field_ok: "\<exists>z p'. csv_field p = Some (z, p') \<and> advances p p' \<and> same_seps p p'"
proof (cases "ic_in p")
  case Nil
  then show ?thesis by (simp add: csv_field_def set_n0_def advances_def same_seps_def)
next
  case (Cons c bs)
  let ?p = "set_n0 p"
  have i: "ic_in ?p = c # bs" and s: "same_seps p ?p" using Cons by (simp_all add: set_n0_def same_seps_def)
  show ?thesis
  proof (cases "c = 34")
    case True
    obtain p' where "csv_quoted 0 0 (ic_nLine ?p) bs (?p\<lparr>ic_in := bs\<rparr>) = Some p'"
      "length (ic_in p') \<le> length bs" "same_seps (?p\<lparr>ic_in := bs\<rparr>) p'"
      using csv_quoted_ok [of 0 0 "?p\<lparr>ic_in := bs\<rparr>" "ic_nLine ?p" bs] by auto
    then show ?thesis
      using True i s Cons by (simp add: csv_field_def Let_def finish_field_def advances_def same_seps_def)
  next
    case False
    obtain p1 bs1 where st: "csv_start_plain ?p (c # bs) = (p1, bs1)" by fastforce
    have l: "same_seps ?p p1" "length bs1 \<le> length (c # bs)" "bs1 = c # bs \<or> length bs1 < length (c # bs)"
      using st by (auto simp: csv_start_plain_def same_seps_def split: if_splits list.splits)
    have "length (ic_in (csv_plain bs1 p1)) < length (c # bs)"
      using l(3) csv_plain_ok [of bs1 p1] csv_plain_shorter [of "c # bs" p1] by auto
    with False i s l(1) Cons csv_plain_ok [of bs1 p1] show ?thesis
      by (simp add: csv_field_def Let_def st finish_field_def advances_def same_seps_def)
  qed
qed

lemma csv_reads: "\<exists>z p'. csv_read_one_field p = Some (z, p') \<and> advances p p' \<and> same_seps p p'"
proof (cases "csv_bom p (ic_in p)")
  case None
  then show ?thesis using csv_field_ok [of p] by (simp add: csv_read_one_field_def)
next
  case (Some bs)
  then have l: "length bs < length (ic_in p)" by (cases "(p, ic_in p)" rule: csv_bom.cases) (auto split: if_splits)
  let ?p = "p\<lparr>ic_in := bs, ic_z := Some [], ic_bNotFirst := True\<rparr>"
  obtain z p' where "csv_field ?p = Some (z, p')" "advances ?p p'" "same_seps ?p p'"
    using csv_field_ok by blast
  with Some l show ?thesis
    by (auto simp: csv_read_one_field_def advances_def same_seps_def split: if_splits)
qed

lemma ascii_plain_ok: "same_seps p (ascii_plain bs p) \<and> (bs \<noteq> [] \<longrightarrow> length (ic_in (ascii_plain bs p)) < length bs) \<and>
    (bs = [] \<longrightarrow> ic_in (ascii_plain bs p) = [])"
proof (induction bs p rule: ascii_plain.induct)
  case (1 p)
  then show ?case by (simp add: same_seps_def)
next
  case (2 c bs p)
  then show ?case by (cases "bs = []") (auto simp: same_seps_def)
qed

interpretation csv: reads_fields csv_read_one_field
  by unfold_locales (rule csv_reads)

interpretation ascii: reads_fields ascii_read_one_field
proof unfold_locales
  fix p
  show "\<exists>z p'. ascii_read_one_field p = Some (z, p') \<and> advances p p' \<and> same_seps p p'"
    using ascii_plain_ok [of "set_n0 p" "ic_in p"]
    by (cases "ic_in p") (auto simp: ascii_read_one_field_def Let_def set_n0_def advances_def same_seps_def)
qed

section \<open>Reading what was written\<close>

text \<open>What reading leaves alone.\<close>

definition kept :: "ImportCtx \<Rightarrow> ImportCtx \<Rightarrow> bool" where
  "kept p p' \<longleftrightarrow> same_seps p p' \<and> ic_errs p' = ic_errs p \<and> ic_nRow p' = ic_nRow p \<and> ic_nErr p' = ic_nErr p"

lemma kept_refl [simp]: "kept p p"
  by (simp add: kept_def same_seps_def)

lemma kept_trans: "kept p q \<Longrightarrow> kept q r \<Longrightarrow> kept p r"
  by (simp add: kept_def same_seps_def)

lemma kept_steps [simp]:
  "kept p (import_append_char q c) \<longleftrightarrow> kept p q" "kept p (count_line c q) \<longleftrightarrow> kept p q"
  "kept p (q\<lparr>ic_in := x\<rparr>) \<longleftrightarrow> kept p q" "kept p (q\<lparr>ic_cTerm := t\<rparr>) \<longleftrightarrow> kept p q"
  "kept p (q\<lparr>ic_z := zz\<rparr>) \<longleftrightarrow> kept p q" "kept p (q\<lparr>ic_bNotFirst := f\<rparr>) \<longleftrightarrow> kept p q"
  "kept p (q\<lparr>ic_nLine := n\<rparr>) \<longleftrightarrow> kept p q" "kept p (set_n0 q) \<longleftrightarrow> kept p q"
  by (simp_all add: kept_def same_seps_def set_n0_def)

text \<open>The separators of the reader: distinct, no quotes or carriage returns, the row separator one of the
  characters that make a field be quoted.\<close>

definition seps_ok :: "byte \<Rightarrow> byte \<Rightarrow> bool" where
  "seps_ok s r \<longleftrightarrow> s \<noteq> r \<and> s \<noteq> 34 \<and> s \<noteq> 13 \<and> r \<noteq> 34 \<and> r \<noteq> 13 \<and> needs_quote r"

definition has_seps :: "byte \<Rightarrow> byte \<Rightarrow> ImportCtx \<Rightarrow> bool" where
  "has_seps s r p \<longleftrightarrow> ic_cColSep p = s \<and> ic_cRowSep p = r"

lemma has_seps_kept: "kept p p' \<Longrightarrow> has_seps s r p \<Longrightarrow> has_seps s r p'"
  by (simp add: kept_def same_seps_def has_seps_def)

text \<open>The three ways a field ends in the output: \<open>t\<close> is the terminator.\<close>

inductive field_end :: "byte \<Rightarrow> byte \<Rightarrow> byte list \<Rightarrow> byte \<Rightarrow> byte list \<Rightarrow> bool" for s r where
  sep: "field_end s r (s # rest) s rest"
| row: "field_end s r (r # rest) r rest"
| crow: "field_end s r (13 # r # rest) r rest"

lemma needs_quote_34: "needs_quote 34" and needs_quote_13: "needs_quote 13" and needs_quote_ef: "needs_quote 0xef"
  by (simp_all add: needs_quote_def needCsvQuote_def nth_append)

lemma uint_inj [simp]: "uint (a :: byte) = uint b \<longleftrightarrow> a = b"
  by (simp add: word_uint_eq_iff)

lemma uint_34 [simp]: "uint (b :: byte) = 34 \<longleftrightarrow> b = 34"
  by (simp add: word_uint_eq_iff)

lemma uint_13 [simp]: "uint (b :: byte) = 13 \<longleftrightarrow> b = 13"
  by (simp add: word_uint_eq_iff)

lemma dq_simps [simp]: "dq [] = []" "dq (b # z) = (if b = 34 then [34, 34] else [b]) @ dq z"
  by (simp_all add: dq_def)

lemma close_quote_last:
  assumes "zbuf p = z @ [34] @ x" and "34 \<notin> set x"
  shows "close_quote c p = Some (p\<lparr>ic_z := Some z, ic_cTerm := c\<rparr>)"
proof -
  have "ic_z p = Some (z @ 34 # x)" using assms(1) by (cases "ic_z p") (auto simp: zbuf_def)
  moreover have "dropWhile (\<lambda>b. b \<noteq> 34) (rev (z @ 34 # x)) = 34 # rev z"
    using assms(2) by (simp add: dropWhile_append3) (metis dropWhile.simps(2) dropWhile_append2 set_rev)
  ultimately show ?thesis by (simp add: close_quote_def)
qed

text \<open>The closing quote and the terminator.\<close>

lemma csv_quoted_close:
  assumes "field_end s r tail t rest" and "seps_ok s r" and "has_seps s r p" and "pc \<noteq> 34"
  shows "\<exists>p'. csv_quoted pc ppc l (34 # tail) p = Some p' \<and> kept p p' \<and> ic_z p' = Some (zbuf p) \<and>
     ic_cTerm p' = uint t \<and> ic_in p' = rest"
proof -
  let ?q = "import_append_char (count_line 34 (p\<lparr>ic_in := tail\<rparr>)) 34"
  have q: "zbuf ?q = zbuf p @ [34]" "kept p ?q" "has_seps s r ?q"
    using assms(3) by (simp_all add: has_seps_def)
  have first: "csv_quoted pc ppc l (34 # tail) p = csv_quoted 34 pc l tail ?q"
    using assms(2-4) by (auto simp: Let_def seps_ok_def has_seps_def)
  from assms(1) show ?thesis
  proof cases
    case sep
    let ?p = "count_line s (?q\<lparr>ic_in := rest\<rparr>)"
    have "zbuf ?p = zbuf p @ [34] @ []" using q(1) by simp
    from close_quote_last [OF this] have "close_quote (uint s) ?p = Some (?p\<lparr>ic_z := Some (zbuf p), ic_cTerm := uint s\<rparr>)"
      by simp
    with sep q assms(2) first show ?thesis by (simp add: Let_def seps_ok_def has_seps_def)
  next
    case row
    let ?p = "count_line r (?q\<lparr>ic_in := rest\<rparr>)"
    have "zbuf ?p = zbuf p @ [34] @ []" using q(1) by simp
    from close_quote_last [OF this] have "close_quote (uint r) ?p = Some (?p\<lparr>ic_z := Some (zbuf p), ic_cTerm := uint r\<rparr>)"
      by simp
    with row q assms(2) first show ?thesis by (simp add: Let_def seps_ok_def has_seps_def)
  next
    case crow
    let ?q2 = "import_append_char (count_line 13 (?q\<lparr>ic_in := r # rest\<rparr>)) 13"
    let ?p = "count_line r (?q2\<lparr>ic_in := rest\<rparr>)"
    have second: "csv_quoted 34 pc l tail ?q = csv_quoted 13 34 l (r # rest) ?q2"
      using crow assms(2) q(3) by (auto simp: Let_def seps_ok_def has_seps_def)
    have "zbuf ?p = zbuf p @ [34] @ [13]" using q(1) by simp
    from close_quote_last [OF this] have "close_quote (uint r) ?p = Some (?p\<lparr>ic_z := Some (zbuf p), ic_cTerm := uint r\<rparr>)"
      by simp
    moreover have "csv_quoted 13 34 l (r # rest) ?q2 = close_quote (uint r) ?p"
      using assms(2) q(3) by (simp add: Let_def seps_ok_def has_seps_def)
    ultimately show ?thesis using crow first second q(2) by simp
  qed
qed

lemma csv_quoted_dq:
  assumes "field_end s r tail t rest" and "seps_ok s r" and "has_seps s r p"
    and "pc \<noteq> 34" and "\<not> (pc = 13 \<and> ppc = 34)"
  shows "\<exists>p'. csv_quoted pc ppc l (dq z @ 34 # tail) p = Some p' \<and> kept p p' \<and> ic_z p' = Some (zbuf p @ z) \<and>
     ic_cTerm p' = uint t \<and> ic_in p' = rest"
  using assms(3-5)
proof (induction z arbitrary: pc ppc p)
  case Nil
  from csv_quoted_close [OF assms(1,2) Nil(1,2)] show ?case by simp
next
  case (Cons b z)
  show ?case
  proof (cases "b = 34")
    case False
    let ?q = "import_append_char (count_line b (p\<lparr>ic_in := dq z @ 34 # tail\<rparr>)) b"
    have q: "has_seps s r ?q" "kept p ?q" "zbuf ?q = zbuf p @ [b]" using Cons.prems(1) by (simp_all add: has_seps_def)
    have "csv_quoted pc ppc l (dq (b # z) @ 34 # tail) p = csv_quoted (uint b) pc l (dq z @ 34 # tail) ?q"
      using False Cons.prems by (auto simp: Let_def has_seps_def)
    moreover from Cons.IH [OF q(1), of "uint b" pc] False Cons.prems(2) obtain p' where
      "csv_quoted (uint b) pc l (dq z @ 34 # tail) ?q = Some p'" "kept ?q p'" "ic_z p' = Some (zbuf ?q @ z)"
      "ic_cTerm p' = uint t" "ic_in p' = rest" by auto
    ultimately show ?thesis using kept_trans [OF q(2)] q(3) by auto
  next
    case True
    let ?q1 = "import_append_char (count_line 34 (p\<lparr>ic_in := 34 # dq z @ 34 # tail\<rparr>)) 34"
    let ?q = "count_line 34 (?q1\<lparr>ic_in := dq z @ 34 # tail\<rparr>)"
    have q: "has_seps s r ?q" "kept p ?q" "zbuf ?q = zbuf p @ [34]" using Cons.prems(1) by (simp_all add: has_seps_def)
    have "csv_quoted pc ppc l (34 # 34 # dq z @ 34 # tail) p = csv_quoted 34 pc l (34 # dq z @ 34 # tail) ?q1"
      using assms(2) Cons.prems by (subst csv_quoted.simps(2)) (auto simp: Let_def seps_ok_def has_seps_def)
    also have "\<dots> = csv_quoted 0 pc l (dq z @ 34 # tail) ?q"
      by (subst csv_quoted.simps(2)) (simp add: Let_def)
    finally have "csv_quoted pc ppc l (dq (b # z) @ 34 # tail) p = csv_quoted 0 pc l (dq z @ 34 # tail) ?q"
      using True by simp
    moreover from Cons.IH [OF q(1), of 0 pc] obtain p' where
      "csv_quoted 0 pc l (dq z @ 34 # tail) ?q = Some p'" "kept ?q p'" "ic_z p' = Some (zbuf ?q @ z)"
      "ic_cTerm p' = uint t" "ic_in p' = rest" by auto
    ultimately show ?thesis using kept_trans [OF q(2)] q(3) True by auto
  qed
qed

text \<open>An unquoted field.\<close>

lemma csv_plain_read:
  assumes "field_end s r tail t rest" and "seps_ok s r" and "has_seps s r p"
    and "s \<notin> set z" and "\<And>b. b \<in> set z \<Longrightarrow> \<not> needs_quote b"
    and "13 \<notin> set (zbuf p)" and "zbuf p @ z \<noteq> []"
  shows "\<exists>p'. csv_plain (z @ tail) p = p' \<and> kept p p' \<and> ic_z p' = Some (zbuf p @ z) \<and> ic_cTerm p' = uint t \<and>
     ic_in p' = rest"
  using assms(3-)
proof (induction z arbitrary: p)
  case Nil
  then have zb: "zbuf p \<noteq> []" and z: "ic_z p = Some (zbuf p)" by (auto simp: zbuf_def split: option.splits)
  have dr: "drop_cr (zbuf p) = zbuf p" "drop_cr (zbuf p @ [13]) = zbuf p"
    using Nil(4) last_in_set [OF zb] by (fastforce simp: drop_cr_def)+
  from assms(1) show ?case
  proof cases
    case sep
    then show ?thesis using Nil(1) assms(2) z by (simp add: csv_end_plain_def has_seps_def seps_ok_def)
  next
    case row
    then show ?thesis using Nil(1) assms(2) z dr by (simp add: csv_end_plain_def has_seps_def seps_ok_def)
  next
    case crow
    then show ?thesis using Nil(1) assms(2) z dr by (auto simp: csv_end_plain_def has_seps_def seps_ok_def)
  qed
next
  case (Cons b z)
  have b: "b \<noteq> s" "b \<noteq> r" "b \<noteq> 13"
    using Cons.prems(2) Cons.prems(3) [of b] assms(2) needs_quote_13 by (auto simp: seps_ok_def)
  let ?q = "import_append_char p b"
  have "has_seps s r ?q" "13 \<notin> set (zbuf ?q)" using Cons.prems(1,4) b by (simp_all add: has_seps_def)
  from Cons.IH [OF this(1) _ _ this(2)] Cons.prems(2,3) obtain p' where
    "csv_plain (z @ tail) ?q = p'" "kept ?q p'" "ic_z p' = Some (zbuf ?q @ z)" "ic_cTerm p' = uint t" "ic_in p' = rest"
    by auto
  moreover have "csv_plain ((b # z) @ tail) p = csv_plain (z @ tail) ?q"
    using b Cons.prems(1) by (simp add: has_seps_def)
  ultimately show ?case using kept_trans [of p ?q p'] by simp
qed

lemma quote_scan_pos: "quote_scan i z = 0 \<or> (\<forall>b \<in> set z. \<not> needs_quote b) \<and> quote_scan i z = i + length z"
proof (induction z arbitrary: i)
  case (Cons b z)
  then show ?case using Cons.IH [of "i + 1"] by auto
qed simp

lemma strstr_single: "strstr_found z [s] \<longleftrightarrow> s \<in> set z"
  by (induction z) auto

lemma csv_read_output:
  assumes "field_end s r tail t rest" and "seps_ok s r" and "has_seps s r p"
    and "ic_in p = output_csv nullValue [s] (Some z) False @ tail"
  shows "\<exists>p'. csv_read_one_field p = Some (Some z, p') \<and> kept p p' \<and> ic_cTerm p' = uint t \<and> ic_in p' = rest"
proof (cases "quote_scan 0 z = 0 \<or> s \<in> set z")
  case True
  then have i: "ic_in p = 34 # dq z @ 34 # tail" using assms(4) by (simp add: output_csv_def strstr_single)
  have nb: "csv_bom p (ic_in p) = None" unfolding i by (cases "(p, 34 # dq z @ 34 # tail)" rule: csv_bom.cases) auto
  let ?q = "(set_n0 p)\<lparr>ic_in := dq z @ 34 # tail\<rparr>"
  have "has_seps s r ?q" using assms(3) by (simp add: has_seps_def set_n0_def)
  from csv_quoted_dq [OF assms(1,2) this, of 0 0 "ic_nLine (set_n0 p)" z] obtain p' where
    "csv_quoted 0 0 (ic_nLine (set_n0 p)) (dq z @ 34 # tail) ?q = Some p'" "kept ?q p'" "ic_z p' = Some z"
    "ic_cTerm p' = uint t" "ic_in p' = rest" by auto
  moreover have "kept p ?q" by simp
  ultimately show ?thesis
    using i kept_trans [of p ?q p']
    by (simp add: csv_read_one_field_def nb [unfolded i] csv_field_def Let_def)
      (simp add: set_n0_def finish_field_def)
next
  case False
  then have z: "s \<notin> set z" "\<And>b. b \<in> set z \<Longrightarrow> \<not> needs_quote b" "z \<noteq> []"
    using quote_scan_pos [of 0 z] by (auto simp del: quote_scan.simps)
  have i: "ic_in p = z @ tail" using False assms(4) by (simp add: output_csv_def strstr_single)
  obtain c z' where c: "z = c # z'" using z(3) by (cases z) auto
  have ne: "c \<noteq> 34" "c \<noteq> 0xef" using z(2) [of c] needs_quote_34 needs_quote_ef c by auto
  have nb: "csv_bom p (ic_in p) = None"
    unfolding i c using ne by (cases "(p, (c # z') @ tail)" rule: csv_bom.cases) auto
  have "has_seps s r (set_n0 p)" using assms(3) by (simp add: has_seps_def set_n0_def)
  from csv_plain_read [OF assms(1,2) this z(1,2)] z(3) obtain p' where
    "csv_plain (z @ tail) (set_n0 p) = p'" "kept (set_n0 p) p'" "ic_z p' = Some z" "ic_cTerm p' = uint t" "ic_in p' = rest"
    by auto
  moreover have "csv_field p = Some (finish_field (csv_plain (z @ tail) (set_n0 p)))"
    using ne i unfolding c by (simp del: csv_plain.simps add: csv_field_def Let_def csv_start_plain_def set_n0_def)
  then have "csv_read_one_field p = Some (finish_field (csv_plain (z @ tail) (set_n0 p)))"
    by (simp only: csv_read_one_field_def nb option.case)
  moreover have "kept p (set_n0 p)" by simp
  ultimately show ?thesis
    using kept_trans [of p "set_n0 p" p'] by (simp add: finish_field_def)
qed

section \<open>Importing what was exported\<close>

lemma output_csv_sep: "output_csv nv cs z True = output_csv nv cs z False @ cs"
  by (simp add: output_csv_def)

lemma field_end_row: "rowSep = [r] \<or> rowSep = [13, r] \<Longrightarrow> field_end s r (rowSep @ rest) r rest"
  by (auto intro: field_end.row field_end.crow)

lemma c_text_id: "0 \<notin> set z \<Longrightarrow> c_text z = z"
  by (auto simp: c_text_def takeWhile_eq_all_conv)

lemma import_fields_exported:
  assumes "seps_ok s r" and "rowSep = [r] \<or> rowSep = [13, r]" and "zs \<noteq> []"
    and "i + length zs = nCol" and "\<forall>z \<in> set zs. 0 \<notin> set z" and "has_seps s r p"
    and "ic_in p = csv_fields nv [s] (map Some zs) @ rowSep @ rest"
  shows "\<exists>p'. import_fields csv_read_one_field True False nCol l i bound p = Some (nCol, bound @ map Some zs, p') \<and>
     kept p p' \<and> ic_cTerm p' = uint r \<and> ic_in p' = rest"
  using assms(3-)
proof (induction zs arbitrary: i bound p)
  case Nil
  then show ?case by simp
next
  case (Cons z zs)
  have i: "i < nCol" using Cons.prems(2) by simp
  have c: "c_text z = z" using Cons.prems(3) by (simp add: c_text_id)
  show ?case
  proof (cases "zs = []")
    case True
    then have "ic_in p = output_csv nv [s] (Some z) False @ rowSep @ rest" using Cons.prems(5) by simp
    from csv_read_output [OF field_end_row [OF assms(2)] assms(1) Cons.prems(4) this] obtain p' where
      p': "csv_read_one_field p = Some (Some z, p')" "kept p p'" "ic_cTerm p' = uint r" "ic_in p' = rest" by blast
    have "i + 1 = nCol" "\<not> i < nCol - Suc 0" using Cons.prems(2) True by simp_all
    then show ?thesis
      using p' i c True
      by (simp add: import_fields.simps [of _ _ _ nCol _ i] import_fields.simps [of _ _ _ nCol _ nCol] Let_def)
  next
    case False
    have "ic_in p = output_csv nv [s] (Some z) False @ s # csv_fields nv [s] (map Some zs) @ rowSep @ rest"
      using Cons.prems(5) False by (simp add: output_csv_sep)
    from csv_read_output [OF field_end.sep assms(1) Cons.prems(4) this] obtain p1 where
      p1: "csv_read_one_field p = Some (Some z, p1)" "kept p p1" "ic_cTerm p1 = uint s"
        "ic_in p1 = csv_fields nv [s] (map Some zs) @ rowSep @ rest" by blast
    have hs: "has_seps s r p1" by (rule has_seps_kept [OF p1(2) Cons.prems(4)])
    then have sep: "at_sep p1" using p1(3) by (simp add: at_sep_def has_seps_def)
    have n: "i + 1 + length zs = nCol" "\<forall>z \<in> set zs. 0 \<notin> set z" using Cons.prems(2,3) by simp_all
    from Cons.IH [OF False n hs p1(4), of "bound @ [Some z]"] obtain p' where
      p': "import_fields csv_read_one_field True False nCol l (i + 1) (bound @ [Some z]) p1 =
        Some (nCol, (bound @ [Some z]) @ map Some zs, p')" "kept p1 p'" "ic_cTerm p' = uint r" "ic_in p' = rest" by blast
    with p1 i c sep kept_trans [OF p1(2) p'(2)] show ?thesis
      by (simp add: import_fields.simps [of _ _ _ nCol _ i] Let_def)
  qed
qed

definition csv_line_ok :: "nat \<Rightarrow> byte list list \<Rightarrow> bool" where
  "csv_line_ok nCol zs \<longleftrightarrow> length zs = nCol \<and> (\<forall>z \<in> set zs. 0 \<notin> set z)"

definition collect :: "byte list option list \<Rightarrow> byte list option list list \<Rightarrow> bool \<times> byte list option list list" where
  "collect row t = (True, t @ [row])"

lemma import_row_exported:
  assumes "seps_ok s r" and "rowSep = [r] \<or> rowSep = [13, r]" and "0 < nCol" and "csv_line_ok nCol zs"
    and "has_seps s r p" and "ic_in p = csv_row nv [s] rowSep (map Some zs) @ rest"
  shows "\<exists>p'. import_row csv_read_one_field True False nCol collect p t = Some (p', t @ [map Some zs]) \<and>
     same_seps p p' \<and> ic_errs p' = ic_errs p \<and> ic_nErr p' = ic_nErr p \<and> ic_nRow p' = ic_nRow p + 1 \<and>
     ic_cTerm p' = uint r \<and> ic_in p' = rest"
proof -
  have zs: "zs \<noteq> []" "0 + length zs = nCol" "\<forall>z \<in> set zs. 0 \<notin> set z"
    using assms(3,4) by (auto simp: csv_line_ok_def)
  have "ic_in p = csv_fields nv [s] (map Some zs) @ rowSep @ rest" using assms(6) zs(1) by (simp add: csv_row_def)
  from import_fields_exported [OF assms(1,2) zs assms(5) this, of "ic_nLine p" "[]"] obtain p' where
    p': "import_fields csv_read_one_field True False nCol (ic_nLine p) 0 [] p = Some (nCol, map Some zs, p')"
    "kept p p'" "ic_cTerm p' = uint r" "ic_in p' = rest" by auto
  have "\<not> at_sep p'" using p'(3) has_seps_kept [OF p'(2) assms(5)] assms(1)
    by (auto simp: at_sep_def has_seps_def seps_ok_def)
  with p' show ?thesis by (simp add: import_row_def Let_def collect_def kept_def same_seps_def)
qed

lemma import_row_end:
  assumes "ic_in p = []" and "0 < nCol"
  shows "\<exists>p'. import_row csv_read_one_field True False nCol step p t = Some (p', t) \<and> ic_cTerm p' = -1 \<and>
     ic_errs p' = ic_errs p \<and> ic_nRow p' = ic_nRow p \<and> ic_nErr p' = ic_nErr p"
proof -
  let ?p = "(set_n0 p)\<lparr>ic_cTerm := -1\<rparr>"
  have "csv_read_one_field p = Some (None, ?p)"
    using assms(1) by (simp add: csv_read_one_field_def csv_field_def Let_def) (simp add: set_n0_def)
  then have "import_fields csv_read_one_field True False nCol (ic_nLine p) 0 [] p = Some (0, [], ?p)"
    using assms(2) by (simp add: import_fields.simps)
  moreover have "\<not> at_sep ?p"
  proof
    assume "at_sep ?p"
    then have "uint (ic_cColSep p) = -1" by (simp add: at_sep_def set_n0_def)
    then show False using uint_nonnegative [of "ic_cColSep p"] by linarith
  qed
  ultimately show ?thesis using assms(2) by (simp add: import_row_def Let_def) (simp add: set_n0_def)
qed

lemma import_loop_exported:
  assumes "seps_ok s r" and "rowSep = [r] \<or> rowSep = [13, r]" and "0 < nCol" and "\<forall>zs \<in> set rows. csv_line_ok nCol zs"
    and "has_seps s r p" and "ic_in p = concat (map (\<lambda>zs. csv_row nv [s] rowSep (map Some zs)) rows)"
  shows "\<exists>p'. import_loop (import_row csv_read_one_field True False nCol collect) p t =
       Some (p', t @ map (map Some) rows) \<and>
     ic_errs p' = ic_errs p \<and> ic_nErr p' = ic_nErr p \<and> ic_nRow p' = ic_nRow p + int (length rows)"
  using assms(4-)
proof (induction rows arbitrary: p t)
  case Nil
  then have "ic_in p = []" by simp
  from import_row_end [OF this assms(3), of collect t] obtain p' where
    "import_row csv_read_one_field True False nCol collect p t = Some (p', t)" "ic_cTerm p' = -1"
    "ic_errs p' = ic_errs p" "ic_nRow p' = ic_nRow p" "ic_nErr p' = ic_nErr p" by blast
  then show ?case by (subst import_loop.simps) simp
next
  case (Cons zs rows)
  let ?rest = "concat (map (\<lambda>zs. csv_row nv [s] rowSep (map Some zs)) rows)"
  have "csv_line_ok nCol zs" "ic_in p = csv_row nv [s] rowSep (map Some zs) @ ?rest" using Cons.prems(1,3) by simp_all
  from import_row_exported [OF assms(1-3) this(1) Cons.prems(2) this(2), of t] obtain p1 where
    p1: "import_row csv_read_one_field True False nCol collect p t = Some (p1, t @ [map Some zs])" "same_seps p p1"
    "ic_errs p1 = ic_errs p" "ic_nErr p1 = ic_nErr p" "ic_nRow p1 = ic_nRow p + 1" "ic_cTerm p1 = uint r" "ic_in p1 = ?rest" by blast
  have "has_seps s r p1" using p1(2) Cons.prems(2) by (simp add: has_seps_def same_seps_def)
  from Cons.IH [OF _ this p1(7), of "t @ [map Some zs]"] Cons.prems(1) obtain p' where
    p': "import_loop (import_row csv_read_one_field True False nCol collect) p1 (t @ [map Some zs]) =
      Some (p', (t @ [map Some zs]) @ map (map Some) rows)"
    "ic_errs p' = ic_errs p1" "ic_nErr p' = ic_nErr p1" "ic_nRow p' = ic_nRow p1 + int (length rows)" by auto
  have "ic_cTerm p1 \<noteq> -1" using p1(6) uint_nonnegative [of r] by linarith
  with p1 p' show ?case by (subst import_loop.simps) simp
qed

definition import_init :: "byte \<Rightarrow> byte \<Rightarrow> byte list \<Rightarrow> ImportCtx" where
  "import_init cColSep cRowSep input =
     \<lparr>ic_in = input, ic_z = Some [], ic_nLine = 1, ic_nRow = 0, ic_nErr = 0, ic_bNotFirst = False, ic_cTerm = 0,
      ic_cColSep = cColSep, ic_cRowSep = cRowSep, ic_errs = []\<rparr>"

section \<open>Properties\<close>

text \<open>C8: What the shell exports in CSV mode it imports again: printing rows of texts, whatever bytes they contain
  (quotes, separators, line ends; only NUL cannot occur in a C string), with or without a carriage return
  before the row separator, and importing the output inserts exactly these rows, in order, without any
  message.  The column separator is any byte but a quote or a carriage return, the row separator another
  byte that makes a field be quoted, as the default line feed is.\<close>

theorem csv_export_import:
  assumes "seps_ok s r" and "rowSep = [r] \<or> rowSep = [13, r]" and "0 < nCol"
    and "\<forall>zs \<in> set rows. length zs = nCol \<and> (\<forall>z \<in> set zs. 0 \<notin> set z)"
  shows "\<exists>p. import_loop (import_row csv_read_one_field True False nCol collect)
       (import_init s r (concat (map (\<lambda>zs. csv_row nullValue [s] rowSep (map Some zs)) rows))) [] =
       Some (p, map (map Some) rows) \<and>
     ic_errs p = [] \<and> ic_nErr p = 0 \<and> ic_nRow p = int (length rows)"
proof -
  let ?p = "import_init s r (concat (map (\<lambda>zs. csv_row nullValue [s] rowSep (map Some zs)) rows))"
  have "has_seps s r ?p" and i: "ic_in ?p = concat (map (\<lambda>zs. csv_row nullValue [s] rowSep (map Some zs)) rows)"
    and z: "ic_errs ?p = []" "ic_nErr ?p = 0" "ic_nRow ?p = 0"
    by (simp_all add: import_init_def has_seps_def)
  from import_loop_exported [OF assms(1-3) _ this(1) i, of "[]"] assms(4) z show ?thesis
    by (simp add: csv_line_ok_def)
qed

theorem csv_export_import_witness:
  "\<exists>p. import_loop (import_row csv_read_one_field True False 2 collect)
       (import_init 44 10 (bytes_of ''a,'' @ [34] @ bytes_of ''x,'' @ [34, 34] @ bytes_of ''y'' @ [34, 13, 10])) [] =
     Some (p, [[Some (bytes_of ''a''), Some (bytes_of ''x,'' @ [34] @ bytes_of ''y'')]]) \<and> ic_errs p = []"
proof -
  let ?rows = "[[bytes_of ''a'', bytes_of ''x,'' @ [34] @ bytes_of ''y'']]"
  have "seps_ok 44 10" by (simp add: seps_ok_def needs_quote_def needCsvQuote_def nth_append)
  moreover have "concat (map (\<lambda>zs. csv_row [] [44] [13, 10] (map Some zs)) ?rows) =
      bytes_of ''a,'' @ [34] @ bytes_of ''x,'' @ [34, 34] @ bytes_of ''y'' @ [34, 13, 10]"
    by code_simp
  ultimately show ?thesis
    using csv_export_import [of 44 10 "[13, 10]" 2 ?rows "[]"] by (auto simp: bytes_of_def)
qed

text \<open>C12: The import ends on every input, well-formed or not, whether a row can be inserted or not, and for both
  readers; it never reads before the start of the field buffer.\<close>

theorem csv_import_ends:
  assumes "0 < nCol"
  shows "(\<exists>p' t'. import_loop (import_row csv_read_one_field isCsv asciiMode nCol step) p t = Some (p', t') \<and> ic_cTerm p' = -1) \<and>
     (\<exists>p' t'. import_loop (import_row ascii_read_one_field isCsv asciiMode nCol step) p t = Some (p', t') \<and> ic_cTerm p' = -1)"
  using csv.loop_ends [OF assms, of isCsv asciiMode step p t] ascii.loop_ends [OF assms, of isCsv asciiMode step p t] by blast

theorem csv_import_ends_witness:
  "\<exists>p' t'. import_loop (import_row csv_read_one_field True False 3 collect) (import_init 44 10 [34, 44, 34, 65, 10]) [] =
     Some (p', t') \<and> ic_cTerm p' = -1"
  using csv_import_ends [of 3 True False collect "import_init 44 10 [34, 44, 34, 65, 10]" "[]"] by simp

end
