(* ===== verification/Sql_Replace.thy ===== *)
theory Sql_Replace
  imports Bytes
begin

text \<open>
  The SQL function \<open>replace(X,Y,Z)\<close> of the engine (\<open>replaceFunc\<close> of \<open>sqlite3.c\<close>), with the output buffer
  it grows at substitutions whose number is a power of two.  The buffer is its capacity and the bytes
  written so far; \<open>None\<close> is a write behind the end of the buffer, which is proved not to happen.
  \<open>sqlite3_value_text\<close> is the parameter \<open>value_text\<close> (\<open>None\<close> for NULL or a failed conversion); the results
  of the allocations, by their size, are the parameter \<open>malloc\<close>.
\<close>

definition toobig :: sqlite3_result where
  "toobig = R_Error ''string or blob too big''"

definition out_of_memory :: sqlite3_result where
  "out_of_memory = R_Error ''out of memory''"

fun result_value :: "sqlite3_value \<Rightarrow> sqlite3_result" where
  "result_value V_Null = R_Null"
| "result_value (V_Int i) = R_Int i"
| "result_value (V_Float r) = R_Float r"
| "result_value (V_Text z) = R_Text z"
| "result_value (V_Blob z) = R_Blob z"

text \<open>\<open>Inl\<close> the error that is reported, \<open>Inr\<close> the capacity of the buffer.\<close>

definition contextMalloc :: "(int \<Rightarrow> bool) \<Rightarrow> int \<Rightarrow> int \<Rightarrow> sqlite3_result + int" where
  "contextMalloc malloc limit nByte =
     (if nByte > limit then Inl toobig else if malloc nByte then Inr nByte else Inl out_of_memory)"

definition put :: "int \<Rightarrow> byte list \<Rightarrow> byte list \<Rightarrow> byte list option" where
  "put cap zOut bs = (if int (length zOut) + int (length bs) \<le> cap then Some (zOut @ bs) else None)"

text \<open>The space after one more expansion: the new \<open>nOut\<close> and \<open>cntExpand\<close> and the capacity.\<close>

definition replace_grow ::
  "(int \<Rightarrow> bool) \<Rightarrow> int \<Rightarrow> int \<Rightarrow> int \<Rightarrow> int \<times> 32 word \<times> int \<Rightarrow> sqlite3_result + int \<times> 32 word \<times> int" where
  "replace_grow malloc limit nStr growth st =
     (case st of (nOut, cntExpand, cap) \<Rightarrow>
        if growth > 0 then
          (let nOut1 = nOut + growth; cnt1 = cntExpand + 1; size = nOut1 + (nOut1 - nStr - 1) in
           if nOut1 - 1 > limit then Inl toobig
           else if cnt1 AND (cnt1 - 1) = 0
           then (if malloc size then Inr (nOut1, cnt1, size) else Inl out_of_memory)
           else Inr (nOut1, cnt1, cap))
        else Inr st)"

text \<open>The loop; \<open>z\<close> is the rest of the input, \<open>p # ps\<close> the pattern.\<close>

function replace_loop ::
  "(int \<Rightarrow> bool) \<Rightarrow> int \<Rightarrow> int \<Rightarrow> byte \<Rightarrow> byte list \<Rightarrow> byte list \<Rightarrow> byte list \<Rightarrow> int \<times> 32 word \<times> int \<Rightarrow> byte list \<Rightarrow>
     sqlite3_result option" where
  "replace_loop malloc limit nStr p ps zRep z st zOut =
     (if length z \<le> length ps
      then map_option (\<lambda>out. R_Text (butlast out)) (put (snd (snd st)) zOut (z @ [0]))
      else if rd z \<noteq> p \<or> take (length ps) (tl z) \<noteq> ps
      then (case put (snd (snd st)) zOut [rd z] of
              None \<Rightarrow> None
            | Some zOut1 \<Rightarrow> replace_loop malloc limit nStr p ps zRep (tl z) st zOut1)
      else (case replace_grow malloc limit nStr (int (length zRep) - int (length (p # ps))) st of
              Inl e \<Rightarrow> Some e
            | Inr st1 \<Rightarrow>
                (case put (snd (snd st1)) zOut zRep of
                   None \<Rightarrow> None
                 | Some zOut1 \<Rightarrow> replace_loop malloc limit nStr p ps zRep (drop (length ps) (tl z)) st1 zOut1)))"
  by pat_completeness auto

termination replace_loop
  by (relation "measure (\<lambda>(malloc, limit, nStr, p, ps, zRep, z, st, zOut). length z)") auto

declare replace_loop.simps [simp del]

definition replaceFunc ::
  "(int \<Rightarrow> bool) \<Rightarrow> int \<Rightarrow> (sqlite3_value \<Rightarrow> byte list option) \<Rightarrow> sqlite3_value \<Rightarrow> sqlite3_value \<Rightarrow> sqlite3_value \<Rightarrow>
     sqlite3_result option" where
  "replaceFunc malloc limit value_text a b c =
     (case value_text a of
        None \<Rightarrow> Some R_Null
      | Some zStr \<Rightarrow>
          (case value_text b of
             None \<Rightarrow> Some R_Null
           | Some zPattern \<Rightarrow>
               if rd zPattern = 0 then Some (result_value a)
               else (case value_text c of
                       None \<Rightarrow> Some R_Null
                     | Some zRep \<Rightarrow>
                         (let nStr = int (length zStr) in
                          case contextMalloc malloc limit (nStr + 1) of
                            Inl e \<Rightarrow> Some e
                          | Inr cap \<Rightarrow>
                              replace_loop malloc limit nStr (hd zPattern) (tl zPattern) zRep zStr
                                (nStr + 1, 0, cap) []))))"

section \<open>The reference\<close>

text \<open>Replacing the occurrences found from left to right, none overlapping the one before it.\<close>

function replace_all :: "byte \<Rightarrow> byte list \<Rightarrow> byte list \<Rightarrow> byte list \<Rightarrow> byte list" where
  "replace_all p ps zRep [] = []"
| "replace_all p ps zRep (b # z) =
     (if b = p \<and> take (length ps) z = ps then zRep @ replace_all p ps zRep (drop (length ps) z)
      else b # replace_all p ps zRep z)"
  by pat_completeness auto

termination replace_all
  by (relation "measure (\<lambda>(p, ps, zRep, z). length z)") auto

lemma replace_all_short: "length z \<le> length ps \<Longrightarrow> replace_all p ps zRep z = z"
proof (induction z)
  case (Cons b z)
  then have "take (length ps) z \<noteq> ps" by (auto dest: arg_cong [where f = length])
  with Cons show ?case by simp
qed simp

section \<open>The space is enough\<close>

text \<open>\<open>k\<close> expansions by \<open>d\<close> bytes each: the capacity is that of the last power of two.\<close>

definition replace_space :: "int \<Rightarrow> int \<Rightarrow> nat \<Rightarrow> int \<times> 32 word \<times> int \<Rightarrow> bool" where
  "replace_space nStr d k st \<longleftrightarrow>
     (case st of (nOut, cnt, cap) \<Rightarrow>
        nOut = nStr + 1 + int k * d \<and> unat cnt = k \<and> nStr + 1 \<le> cap \<and>
        (0 < k \<longrightarrow> (\<exists>m. 2 ^ m \<le> k \<and> k < 2 ^ (m + 1) \<and> nStr + 1 + 2 ^ (m + 1) * d \<le> cap)))"

lemma power_of_two_test: "unat (c :: 32 word) = 2 ^ n \<Longrightarrow> c AND (c - 1) = 0"
proof -
  assume c: "unat c = 2 ^ n"
  then have "(2 :: nat) ^ n < 2 ^ 32" using unsigned_less [of c, where 'a = nat] by simp
  then have n: "n < 32" by (rule power_less_imp_less_exp [rotated]) simp
  have "c = word_of_nat (2 ^ n)" unfolding c [symmetric] by simp
  then have "c = 2 ^ n" by simp
  then have "c AND (c - 1) = take_bit n (2 ^ n)"
    by (simp add: take_bit_eq_mask mask_eq_exp_minus_1)
  also have "take_bit n (2 ^ n :: 32 word) = 0" by (rule bit_word_eqI) (auto simp: bit_simps)
  finally show ?thesis .
qed

lemma replace_space_cap:
  assumes "replace_space nStr d k st" and "0 \<le> d"
  shows "fst st \<le> snd (snd st)"
proof (cases "k = 0")
  case False
  obtain nOut cnt cap where st: "st = (nOut, cnt, cap)" by (cases st)
  obtain m where "k < 2 ^ (m + 1)" "nStr + 1 + 2 ^ (m + 1) * d \<le> cap" "nOut = nStr + 1 + int k * d"
    using assms(1) False st by (auto simp: replace_space_def)
  moreover have "int k \<le> 2 ^ (m + 1)" using \<open>k < 2 ^ (m + 1)\<close> by (metis less_imp_le of_nat_le_iff of_nat_numeral of_nat_power)
  then have "int k * d \<le> 2 ^ (m + 1) * d" using assms(2) by (rule mult_right_mono)
  ultimately show ?thesis using st by simp
qed (use assms in \<open>auto simp: replace_space_def\<close>)

lemma replace_space_grow:
  assumes "replace_space nStr d k st" and "0 < d" and "limit < 2 ^ 31" and "0 \<le> nStr"
    and "replace_grow malloc limit nStr d st = Inr st1"
  shows "replace_space nStr d (Suc k) st1"
proof -
  obtain nOut cnt cap where st: "st = (nOut, cnt, cap)" by (cases st)
  have inv: "nOut = nStr + 1 + int k * d" "unat cnt = k" "nStr + 1 \<le> cap"
    "0 < k \<Longrightarrow> \<exists>m. 2 ^ m \<le> k \<and> k < 2 ^ (m + 1) \<and> nStr + 1 + 2 ^ (m + 1) * d \<le> cap"
    using assms(1) st by (auto simp: replace_space_def)
  let ?size = "nStr + 1 + 2 * (int (Suc k) * d)"
  have fits: "nStr + int (Suc k) * d \<le> limit" and st1: "st1 = (nStr + 1 + int (Suc k) * d, cnt + 1,
      if cnt + 1 AND (cnt + 1 - 1) = 0 then ?size else cap)"
    using assms(2,5) inv(1) by (auto simp: replace_grow_def st Let_def algebra_simps split: if_splits)
  have "int (Suc k) \<le> int (Suc k) * d" using assms(2) by (simp add: mult_le_cancel_left1)
  then have "int (Suc k) < 2 ^ 31" using fits assms(3,4) by linarith
  then have small: "Suc k < 2 ^ 31" by (metis of_nat_less_iff of_nat_numeral of_nat_power)
  then have cnt: "unat (cnt + 1) = Suc k" using inv(2) by (simp add: unat_word_ariths)
  have size: "nStr + 1 \<le> ?size" using assms(2) by simp
  show ?thesis
  proof (cases "cnt + 1 AND (cnt + 1 - 1) = 0")
    case True
    obtain m where m: "2 ^ m \<le> Suc k" "Suc k < 2 ^ (m + 1)"
      using ex_power_ivl1 [of 2 "Suc k"] by auto
    have "(2 :: int) ^ (m + 1) \<le> 2 * int (Suc k)"
      using m(1) by (metis mult_le_mono2 of_nat_le_iff of_nat_mult of_nat_numeral of_nat_power power_Suc Suc_eq_plus1)
    then have "2 ^ (m + 1) * d \<le> 2 * int (Suc k) * d" using assms(2) by (intro mult_right_mono) auto
    then have "nStr + 1 + 2 ^ (m + 1) * d \<le> ?size" by (simp only: mult.assoc add_left_mono)
    with m True cnt size show ?thesis unfolding st1 replace_space_def by auto
  next
    case False
    have "cnt \<noteq> 0" using False by auto
    then have "k \<noteq> 0" using inv(2) by (auto simp: unat_gt_0)
    then obtain m where m: "2 ^ m \<le> k" "k < 2 ^ (m + 1)" "nStr + 1 + 2 ^ (m + 1) * d \<le> cap" using inv(4) by auto
    have "Suc k \<noteq> 2 ^ (m + 1)" using power_of_two_test [of "cnt + 1" "m + 1"] cnt False by auto
    with m have "2 ^ m \<le> Suc k \<and> Suc k < 2 ^ (m + 1)" by simp
    with m(3) False cnt inv(3) show ?thesis unfolding st1 replace_space_def by auto
  qed
qed


lemma replace_all_longer:
  assumes "length ps < length zRep"
  shows "length z \<le> length (replace_all p ps zRep z)"
  using assms
proof (induction p ps zRep z rule: replace_all.induct)
  case (2 p ps zRep b z)
  show ?case
  proof (cases "b = p \<and> take (length ps) z = ps")
    case True
    then have "length z \<le> length (replace_all p ps zRep (drop (length ps) z)) + length ps" using 2(1) 2(3) by (simp add: le_diff_conv)
    moreover have "replace_all p ps zRep (b # z) = zRep @ replace_all p ps zRep (drop (length ps) z)" using True by simp
    ultimately show ?thesis using 2(3) by simp
  next
    case False
    then show ?thesis using 2(2,3) by (simp only: replace_all.simps(2) False if_False list.size) simp
  qed
qed simp

definition replace_spec :: "int \<Rightarrow> byte list \<Rightarrow> sqlite3_result" where
  "replace_spec limit out = (if int (length out) > limit then toobig else R_Text out)"

definition replace_inv :: "int \<Rightarrow> int \<Rightarrow> nat \<Rightarrow> int \<times> 32 word \<times> int \<Rightarrow> byte list \<Rightarrow> byte list \<Rightarrow> bool" where
  "replace_inv nStr d k st z zOut \<longleftrightarrow>
     (if 0 < d then replace_space nStr d k st \<and> int (length zOut) + int (length z) = nStr + int k * d
      else int (length zOut) + int (length z) \<le> nStr \<and> nStr + 1 \<le> snd (snd st))"

lemma replace_inv_cap:
  assumes "replace_inv nStr d k st z zOut"
  shows "int (length zOut) + int (length z) + 1 \<le> snd (snd st)"
proof (cases "0 < d")
  case True
  then have "replace_space nStr d k st" "int (length zOut) + int (length z) = nStr + int k * d"
    using assms by (simp_all add: replace_inv_def)
  moreover have "fst st = nStr + 1 + int k * d" using calculation(1) by (auto simp: replace_space_def)
  ultimately show ?thesis using replace_space_cap [of nStr d k st] True by simp
qed (use assms in \<open>simp add: replace_inv_def\<close>)

lemma replace_inv_step: "replace_inv nStr d k st (b # z) zOut \<Longrightarrow> replace_inv nStr d k st z (zOut @ [b])"
  by (auto simp: replace_inv_def)

lemma replace_inv_grow:
  assumes "replace_inv nStr d k st (p # ps @ z) zOut" and "d = int (length zRep) - int (length (p # ps))"
    and "limit < 2 ^ 31" and "0 \<le> nStr" and "replace_grow malloc limit nStr d st = Inr st1"
  shows "replace_inv nStr d (Suc k) st1 z (zOut @ zRep)"
proof (cases "0 < d")
  case True
  have "replace_space nStr d k st" and len: "int (length zOut) + int (length (p # ps @ z)) = nStr + int k * d"
    using assms(1) True by (simp_all add: replace_inv_def)
  from replace_space_grow [OF this(1) True assms(3-5)] have "replace_space nStr d (Suc k) st1" .
  moreover have "int (Suc k) * d = int k * d + d" by (simp add: algebra_simps)
  ultimately show ?thesis using True len assms(2) by (simp add: replace_inv_def)
next
  case False
  then have "st1 = st" using assms(5) by (auto simp: replace_grow_def split: prod.splits)
  then show ?thesis using False assms(1,2) by (simp add: replace_inv_def)
qed

lemma replace_grow_error:
  assumes "replace_grow malloc limit nStr d st = Inl e" and "replace_inv nStr d k st z zOut" and "\<forall>n. malloc n"
  shows "e = toobig \<and> 0 < d \<and> limit < nStr + int (Suc k) * d"
  using assms by (auto simp: replace_grow_def replace_inv_def replace_space_def Let_def algebra_simps split: if_splits)

lemma replace_grow_limit:
  assumes "replace_grow malloc limit nStr d st = Inr st1" and "replace_inv nStr d (Suc k) st1 z zOut" and "nStr \<le> limit"
  shows "int (length zOut) + int (length z) \<le> limit"
proof (cases "0 < d")
  case True
  then have "fst st1 - 1 \<le> limit" using assms(1) by (auto simp: replace_grow_def Let_def split: prod.splits if_splits)
  with True assms(2) show ?thesis by (auto simp: replace_inv_def replace_space_def)
qed (use assms in \<open>simp add: replace_inv_def\<close>)

lemma replace_loop_safe:
  assumes "limit < 2 ^ 31" and "0 \<le> nStr" and "nStr \<le> limit"
    and "replace_inv nStr (int (length zRep) - int (length (p # ps))) k st z zOut"
    and "int (length zOut) + int (length z) \<le> limit"
  shows "\<exists>r. replace_loop malloc limit nStr p ps zRep z st zOut = Some r \<and>
     ((\<forall>n. malloc n) \<longrightarrow> r = replace_spec limit (zOut @ replace_all p ps zRep z))"
  using assms(4,5)
proof (induction "length z" arbitrary: z k st zOut rule: less_induct)
  case less
  let ?d = "int (length zRep) - int (length (p # ps))"
  note cap = replace_inv_cap [OF less.prems(1)]
  show ?case
  proof (cases "length z \<le> length ps")
    case True
    have "butlast (zOut @ z @ [0]) = zOut @ z" by (metis append_assoc butlast_snoc)
    with True show ?thesis using cap less.prems(2)
      by (auto simp: replace_loop.simps [of _ _ _ _ _ _ z] put_def replace_all_short replace_spec_def)
  next
    case False
    then obtain b z' where z: "z = b # z'" by (cases z) auto
    show ?thesis
    proof (cases "b = p \<and> take (length ps) z' = ps")
      case False': False
      have "replace_inv nStr ?d k st z' (zOut @ [b])" "int (length (zOut @ [b])) + int (length z') \<le> limit"
        using less.prems replace_inv_step by (auto simp: z)
      from less.hyps [OF _ this] z obtain r where
        "replace_loop malloc limit nStr p ps zRep z' st (zOut @ [b]) = Some r"
        "(\<forall>n. malloc n) \<Longrightarrow> r = replace_spec limit ((zOut @ [b]) @ replace_all p ps zRep z')" by auto
      moreover have "replace_loop malloc limit nStr p ps zRep z st zOut =
          replace_loop malloc limit nStr p ps zRep z' st (zOut @ [b])"
        using False False' cap by (subst replace_loop.simps) (auto simp: put_def z)
      moreover have "replace_all p ps zRep z = b # replace_all p ps zRep z'"
        unfolding z by (simp only: replace_all.simps(2) False' if_False)
      ultimately show ?thesis by simp
    next
      case True
      let ?z = "drop (length ps) z'"
      have zz: "z = p # ps @ ?z" using True z by (metis append_take_drop_id)
      show ?thesis
      proof (cases "replace_grow malloc limit nStr ?d st")
        case (Inl e)
        have "r = replace_spec limit (zOut @ replace_all p ps zRep z)"
          if "r = e" "\<forall>n. malloc n" for r
        proof -
          from replace_grow_error [OF Inl less.prems(1) that(2)] have e: "e = toobig" "0 < ?d" "limit < nStr + int (Suc k) * ?d" by auto
          have "replace_all p ps zRep z = zRep @ replace_all p ps zRep ?z" using True by (simp add: z)
          moreover have "length ?z \<le> length (replace_all p ps zRep ?z)" using e(2) by (intro replace_all_longer) simp
          moreover have "int (length zOut) + int (length z) = nStr + int k * ?d"
            using less.prems e(2) by (simp add: replace_inv_def)
          moreover have "int (length z) = int (length (p # ps)) + int (length ?z)" using zz by (metis length_append append_Cons of_nat_add)
          ultimately have "limit < int (length (zOut @ replace_all p ps zRep z))" using e(3) by (simp add: algebra_simps)
          then show ?thesis using that(1) e(1) by (simp add: replace_spec_def)
        qed
        moreover have "replace_loop malloc limit nStr p ps zRep z st zOut = Some e"
          using False True Inl by (subst replace_loop.simps) (simp add: z)
        ultimately show ?thesis by blast
      next
        case (Inr st1)
        have "replace_inv nStr ?d k st (p # ps @ ?z) zOut" using less.prems zz by simp
        from replace_inv_grow [OF this refl assms(1,2) Inr] have inv: "replace_inv nStr ?d (Suc k) st1 ?z (zOut @ zRep)" .
        have "length ?z < length z" using z by simp
        from less.hyps [OF this inv replace_grow_limit [OF Inr inv assms(3)]] obtain r where
          r: "replace_loop malloc limit nStr p ps zRep ?z st1 (zOut @ zRep) = Some r"
          "(\<forall>n. malloc n) \<Longrightarrow> r = replace_spec limit ((zOut @ zRep) @ replace_all p ps zRep ?z)" by auto
        moreover have "replace_loop malloc limit nStr p ps zRep z st zOut =
            replace_loop malloc limit nStr p ps zRep ?z st1 (zOut @ zRep)"
          using False True Inr replace_inv_cap [OF inv] by (subst replace_loop.simps) (auto simp: put_def z)
        moreover have "replace_all p ps zRep z = zRep @ replace_all p ps zRep ?z" using True by (simp add: z)
        ultimately show ?thesis by simp
      qed
    qed
  qed
qed


section \<open>Properties\<close>



end
