(* ===== verification/Shell_Text.thy ===== *)
theory Shell_Text
  imports Shell_Csv Sql_Replace
begin

text \<open>
  The text routines of the command line shell (\<open>shell.c\<close>): reading numbers and flags, the growing buffer
  \<open>ShellText\<close>, splitting a dot command into arguments, and printing a text as an SQL expression, a C string,
  a JSON string or HTML.  A text is the list of its bytes before the terminating NUL; \<open>char\<close> is signed.
\<close>

section \<open>Numbers and flags\<close>

definition is_space :: "byte \<Rightarrow> bool" where
  "is_space c \<longleftrightarrow> c = 32 \<or> 9 \<le> c \<and> c \<le> 13"

definition is_dec :: "byte \<Rightarrow> bool" where
  "is_dec c \<longleftrightarrow> 48 \<le> c \<and> c \<le> 57"

definition hexDigitValue :: "byte \<Rightarrow> int" where
  "hexDigitValue c =
     (if 48 \<le> c \<and> c \<le> 57 then uint c - 48
      else if 97 \<le> c \<and> c \<le> 102 then uint c - 97 + 10
      else if 65 \<le> c \<and> c \<le> 70 then uint c - 65 + 10
      else -1)"

text \<open>\<open>sqlite3_stricmp\<close> as a test for equality: ASCII letters are folded.\<close>

definition fold_byte :: "byte \<Rightarrow> byte" where
  "fold_byte c = (if 65 \<le> c \<and> c \<le> 90 then c + 32 else c)"

definition stricmp_eq :: "byte list \<Rightarrow> byte list \<Rightarrow> bool" where
  "stricmp_eq a b \<longleftrightarrow> map fold_byte a = map fold_byte b"

definition aMult :: "(string \<times> int) list" where
  "aMult = [(''KiB'', 1024), (''MiB'', 1024 * 1024), (''GiB'', 1024 * 1024 * 1024), (''KB'', 1000), (''MB'', 1000000),
     (''GB'', 1000000000), (''K'', 1000), (''M'', 1000000), (''G'', 1000000000)]"

fun hex_loop :: "64 word \<Rightarrow> byte list \<Rightarrow> 64 word \<times> byte list" where
  "hex_loop v [] = (v, [])"
| "hex_loop v (c # z) = (if hexDigitValue c \<ge> 0 then hex_loop (push_bit 4 v + word_of_int (hexDigitValue c)) z else (v, c # z))"

fun dec_loop :: "64 word \<Rightarrow> byte list \<Rightarrow> 64 word \<times> byte list" where
  "dec_loop v [] = (v, [])"
| "dec_loop v (c # z) = (if is_dec c then dec_loop (v * 10 + ucast c - 48) z else (v, c # z))"

definition find_mult :: "byte list \<Rightarrow> 64 word" where
  "find_mult z = (case filter (\<lambda>(s, m). stricmp_eq (bytes_of s) z) aMult of [] \<Rightarrow> 1 | (s, m) # _ \<Rightarrow> word_of_int m)"

definition integerValue :: "byte list \<Rightarrow> int" where
  "integerValue zArg =
     (let isNeg = (rd zArg = 45);
          z = (if rd zArg = 45 \<or> rd zArg = 43 then tl zArg else zArg);
          (v, rest) = (if rd z = 48 \<and> rd (tl z) = 120 then hex_loop 0 (tl (tl z)) else dec_loop 0 z);
          v1 = v * find_mult rest
      in sint (if isNeg then - v1 else v1))"

definition booleanValue :: "byte list \<Rightarrow> int" where
  "booleanValue zArg =
     (let (i, rest) =
        (if rd zArg = 48 \<and> rd (tl zArg) = 120
         then (2 :: nat, dropWhile (\<lambda>c. hexDigitValue c \<ge> 0) (tl (tl zArg)))
         else (length (takeWhile is_dec zArg), dropWhile is_dec zArg))
      in if i > 0 \<and> rest = [] then int32 (integerValue zArg)
         else if stricmp_eq zArg (bytes_of ''on'') \<or> stricmp_eq zArg (bytes_of ''yes'') then 1
         else 0)"

text \<open>The second component is what is stored through \<open>realnum\<close>, if anything.\<close>

definition num_exponent :: "byte list \<Rightarrow> (byte list \<times> bool) option" where
  "num_exponent z =
     (if rd z = 101 \<or> rd z = 69
      then (let z1 = (if rd (tl z) = 43 \<or> rd (tl z) = 45 then tl (tl z) else tl z)
            in if is_dec (rd z1) then Some (dropWhile is_dec z1, True) else None)
      else Some (z, False))"

definition num_fraction :: "byte list \<Rightarrow> (byte list \<times> bool) option" where
  "num_fraction z =
     (if rd z = 46
      then (if is_dec (rd (tl z)) then Some (dropWhile is_dec (tl z), True) else None)
      else Some (z, False))"

definition isNumber :: "byte list \<Rightarrow> bool \<times> bool option" where
  "isNumber zArg =
     (let z = (if rd zArg = 45 \<or> rd zArg = 43 then tl zArg else zArg) in
      if \<not> is_dec (rd z) then (False, None)
      else (case num_fraction (dropWhile is_dec (tl z)) of
              None \<Rightarrow> (False, Some False)
            | Some (z1, r1) \<Rightarrow>
                (case num_exponent z1 of
                   None \<Rightarrow> (False, Some r1)
                 | Some (z2, r2) \<Rightarrow> (rd z2 = 0, Some (r1 \<or> r2)))))"

definition strlenChar :: "byte list \<Rightarrow> nat" where
  "strlenChar z = length (filter (\<lambda>c. 0xc0 AND c \<noteq> 0x80) z)"

section \<open>Growing texts\<close>

record ShellText =
  st_z :: "byte list option"    \<comment> \<open>the first \<open>n\<close> bytes, \<open>None\<close> for the null pointer\<close>
  st_n :: int
  st_nAlloc :: int

definition initText :: ShellText where
  "initText = \<lparr>st_z = None, st_n = 0, st_nAlloc = 0\<rparr>"

definition quote_doubled :: "byte \<Rightarrow> byte list \<Rightarrow> byte list" where
  "quote_doubled q z = concat (map (\<lambda>b. if b = q then [b, q] else [b]) z)"

text \<open>\<open>None\<close>: a byte (or the terminating NUL) is written behind the end of the buffer.\<close>

definition appendText :: "ShellText \<Rightarrow> byte list \<Rightarrow> byte \<Rightarrow> ShellText option" where
  "appendText p zAppend quote =
     (let nAppend = int (length zAppend);
          len = nAppend + st_n p + 1 + (if quote \<noteq> 0 then 2 + int (length (filter (\<lambda>b. b = quote) zAppend)) else 0);
          p1 = (if st_z p = None \<or> st_n p + len \<ge> st_nAlloc p
                then p\<lparr>st_nAlloc := st_nAlloc p * 2 + len + 20, st_z := Some (case st_z p of None \<Rightarrow> [] | Some z \<Rightarrow> z)\<rparr>
                else p);
          new = (if quote \<noteq> 0 then [quote] @ quote_doubled quote zAppend @ [quote] else zAppend);
          z1 = (case st_z p1 of None \<Rightarrow> [] | Some z \<Rightarrow> z) @ new
      in if int (length z1) + 1 \<le> st_nAlloc p1 then Some (p1\<lparr>st_z := Some z1, st_n := int (length z1)\<rparr>) else None)"

definition is_alpha :: "byte \<Rightarrow> bool" where
  "is_alpha c \<longleftrightarrow> 65 \<le> c \<and> c \<le> 90 \<or> 97 \<le> c \<and> c \<le> 122"

definition quoteChar :: "(byte list \<Rightarrow> bool) \<Rightarrow> byte list option \<Rightarrow> byte" where
  "quoteChar keyword zName =
     (case zName of
        None \<Rightarrow> 34
      | Some z \<Rightarrow>
          if \<not> is_alpha (rd z) \<and> rd z \<noteq> 95 then 34
          else if \<exists>c \<in> set z. \<not> (is_alpha c \<or> is_dec c) \<and> c \<noteq> 95 then 34
          else if keyword z then 34 else 0)"

section \<open>Splitting a command line\<close>

text \<open>\<open>c\<close> after a backslash, and the rest of the text.\<close>

definition octal :: "byte \<Rightarrow> bool" where
  "octal c \<longleftrightarrow> 48 \<le> c \<and> c \<le> 55"

fun bs_hex :: "byte list \<Rightarrow> byte \<times> byte list" where
  "bs_hex (a # b # z) =
     (if hexDigitValue a \<ge> 0
      then (if hexDigitValue b \<ge> 0
            then (push_bit 4 (word_of_int (hexDigitValue a)) OR word_of_int (hexDigitValue b), z)
            else (word_of_int (hexDigitValue a), b # z))
      else (0, a # b # z))"
| "bs_hex [a] = (if hexDigitValue a \<ge> 0 then (word_of_int (hexDigitValue a), []) else (0, [a]))"
| "bs_hex [] = (0, [])"

definition bs_octal :: "byte \<Rightarrow> byte list \<Rightarrow> byte \<times> byte list" where
  "bs_octal c z =
     (if octal (rd z)
      then (let c1 = push_bit 3 (c - 48) + rd z - 48; z1 = tl z
            in if octal (rd z1) then (push_bit 3 c1 + rd z1 - 48, tl z1) else (c1, z1))
      else (c - 48, z))"

definition bs_char :: "byte \<Rightarrow> byte list \<Rightarrow> byte \<times> byte list" where
  "bs_char c z =
     (if c = 97 then (7, z) else if c = 98 then (8, z) else if c = 116 then (9, z) else if c = 110 then (10, z)
      else if c = 118 then (11, z) else if c = 102 then (12, z) else if c = 114 then (13, z)
      else if c = 34 then (34, z) else if c = 39 then (39, z) else if c = 92 then (92, z)
      else if c = 120 then bs_hex z
      else if octal c then bs_octal c z
      else (c, z))"

lemma bs_hex_shorter: "length (snd (bs_hex z)) \<le> length z"
  by (induction z rule: bs_hex.induct) auto

lemma bs_char_shorter: "length (snd (bs_char c z)) \<le> length z"
  using bs_hex_shorter [of z] by (auto simp: bs_char_def bs_octal_def Let_def)

function bs_loop :: "byte list \<Rightarrow> byte list" where
  "bs_loop [] = []"
| "bs_loop [c] = [c]"
| "bs_loop (c # d # z) =
     (if c = 92 then (case bs_char d z of (e, z1) \<Rightarrow> e # bs_loop z1) else c # bs_loop (d # z))"
  by pat_completeness auto

termination bs_loop
proof (relation "measure length", goal_cases)
  case (2 c d z x y)
  then have "y = snd (bs_char d z)" by (metis snd_conv)
  then show ?case using bs_char_shorter [of d z] by simp
qed auto

text \<open>The buffer after the call; as a C string it ends at a NUL that an escape has made.\<close>

definition resolve_backslashes :: "byte list \<Rightarrow> byte list" where
  "resolve_backslashes z = takeWhile (\<lambda>c. c \<noteq> 92) z @ bs_loop (dropWhile (\<lambda>c. c \<noteq> 92) z)"

text \<open>The text of a quoted argument and what follows its closing quote.\<close>

fun quoted_arg :: "byte \<Rightarrow> byte list \<Rightarrow> byte list \<times> byte list" where
  "quoted_arg delim [] = ([], [])"
| "quoted_arg delim [c] = (if c = delim then ([], []) else ([c], []))"
| "quoted_arg delim (c # d # z) =
     (if c = delim then ([], d # z)
      else if c = 92 \<and> delim = 34 then (case quoted_arg delim z of (a, r) \<Rightarrow> (c # d # a, r))
      else (case quoted_arg delim (d # z) of (a, r) \<Rightarrow> (c # a, r)))"

lemma quoted_arg_shorter: "length (snd (quoted_arg delim z)) \<le> length z"
  by (induction delim z rule: quoted_arg.induct) (auto split: prod.splits)

text \<open>The loop that fills \<open>azArg\<close>; \<open>n\<close> is the number of free entries (51 at the start).\<close>

function meta_tokens :: "nat \<Rightarrow> byte list \<Rightarrow> byte list list" where
  "meta_tokens n zLine =
     (let z = dropWhile is_space zLine in
      if n = 0 \<or> z = [] then []
      else if hd z = 39 \<or> hd z = 34
      then (case quoted_arg (hd z) (tl z) of
              (a, r) \<Rightarrow> (if hd z = 34 then c_text (resolve_backslashes a) else a) # meta_tokens (n - 1) r)
      else takeWhile (\<lambda>c. \<not> is_space c) z # meta_tokens (n - 1) (tl (dropWhile (\<lambda>c. \<not> is_space c) z)))"
  by pat_completeness auto

termination meta_tokens
  by (relation "measure fst") auto

declare meta_tokens.simps [simp del]

definition azArg_max :: nat where
  "azArg_max = 51"

section \<open>A text as an SQL expression\<close>

function quoted_loop :: "byte list \<Rightarrow> byte list" where
  "quoted_loop z =
     (case dropWhile (\<lambda>c. c \<noteq> 39) z of
        [] \<Rightarrow> z
      | c # r \<Rightarrow> takeWhile (\<lambda>c. c \<noteq> 39) z @ [39] @ [39] @ quoted_loop r)"
  by pat_completeness auto

lemma dropWhile_Cons_shorter: "dropWhile P z = c # r \<Longrightarrow> length r < length z"
  by (metis length_dropWhile_le length_Cons Suc_le_eq)

termination quoted_loop
  by (relation "measure length") (auto dest: dropWhile_Cons_shorter)

declare quoted_loop.simps [simp del]

definition output_quoted_string :: "byte list option \<Rightarrow> byte list" where
  "output_quoted_string zo =
     (case zo of
        None \<Rightarrow> []
      | Some z \<Rightarrow> if dropWhile (\<lambda>c. c \<noteq> 39) z = [] then [39] @ z @ [39] else [39] @ quoted_loop z @ [39])"

text \<open>\<open>unused_string\<close>: the counter is an \<open>unsigned\<close>, the buffer holds 20 bytes.\<close>

definition unused_buf :: "byte list \<Rightarrow> 32 word \<Rightarrow> byte list" where
  "unused_buf zA i = take 19 ([40] @ zA @ bytes_of (show_nat (unat i)) @ [41])"

partial_function (option) unused_loop :: "byte list \<Rightarrow> byte list \<Rightarrow> 32 word \<Rightarrow> byte list option" where
  "unused_loop z zA i = (if strstr_found z (unused_buf zA i) then unused_loop z zA (i + 1) else Some (unused_buf zA i))"

definition unused_string :: "byte list \<Rightarrow> byte list \<Rightarrow> byte list \<Rightarrow> byte list option" where
  "unused_string z zA zB =
     (if \<not> strstr_found z zA then Some zA
      else if \<not> strstr_found z zB then Some zB
      else unused_loop z zA 0)"

definition esc_special :: "byte \<Rightarrow> bool" where
  "esc_special c \<longleftrightarrow> c = 39 \<or> c = 10 \<or> c = 13"

function escaped_loop :: "byte list \<Rightarrow> byte list \<Rightarrow> byte list \<Rightarrow> byte list" where
  "escaped_loop zNL zCR z =
     (let a = takeWhile (\<lambda>c. \<not> esc_special c) z in
      case dropWhile (\<lambda>c. \<not> esc_special c) z of
        [] \<Rightarrow> a
      | c # r \<Rightarrow> (if c = 39 then a @ [39] @ [39] else if c = 10 then a @ zNL else a @ zCR) @ escaped_loop zNL zCR r)"
  by pat_completeness auto

termination escaped_loop
  by (relation "measure (\<lambda>(zNL, zCR, z). length z)") (auto dest: dropWhile_Cons_shorter)

declare escaped_loop.simps [simp del]

definition replace_open :: "byte list" where
  "replace_open = bytes_of ''replace(''"

definition replace_close :: "byte list \<Rightarrow> string \<Rightarrow> byte list" where
  "replace_close pat n = bytes_of '','' @ [39] @ pat @ [39] @ bytes_of '',char('' @ bytes_of n @ bytes_of ''))''"

text \<open>\<open>None\<close>: no unused string is found, which is proved not to happen.\<close>

definition output_quoted_escaped_string :: "byte list \<Rightarrow> byte list option" where
  "output_quoted_escaped_string z =
     (if dropWhile (\<lambda>c. \<not> esc_special c) z = [] then Some ([39] @ z @ [39])
      else
        (let nNL = length (filter (\<lambda>c. c = 10) z);
             nCR = length (filter (\<lambda>c. c = 13) z)
         in case (if nNL > 0 then unused_string z (bytes_of [CHR 92, CHR ''n'']) (bytes_of (CHR 92 # ''012'')) else Some []) of
              None \<Rightarrow> None
            | Some zNL \<Rightarrow>
                (case (if nCR > 0 then unused_string z (bytes_of [CHR 92, CHR ''r'']) (bytes_of (CHR 92 # ''015'')) else Some []) of
                   None \<Rightarrow> None
                 | Some zCR \<Rightarrow>
                     Some ((if nNL > 0 then replace_open else []) @ (if nCR > 0 then replace_open else []) @
                       [39] @ escaped_loop zNL zCR z @ [39] @
                       (if nCR > 0 then replace_close zCR ''13'' else []) @
                       (if nNL > 0 then replace_close zNL ''10'' else [])))))"

section \<open>A text as a C string\<close>

text \<open>Reading past the end of a text gives NUL.  \<open>k\<close> is \<open>zt-z\<close>; \<open>lim\<close> is \<open>pcLimit-z\<close>, if there is a limit.\<close>

function utf8_trail :: "int option \<Rightarrow> byte \<Rightarrow> nat \<Rightarrow> byte list \<Rightarrow> nat option" where
  "utf8_trail lim c k z =
     (if (case lim of None \<Rightarrow> False | Some l \<Rightarrow> int k \<ge> l) then None
      else if rd z = 0 \<or> k + 1 > 4 \<or> rd z AND 0xc0 \<noteq> 0x80 then None
      else if push_bit 1 c AND 0x40 = 0x40 then utf8_trail lim (push_bit 1 c) (k + 1) (tl z)
      else Some (k + 1))"
  by pat_completeness auto

termination utf8_trail
  by (relation "measure (\<lambda>(lim, c, k, z). 5 - k)") auto

declare utf8_trail.simps [simp del]

text \<open>The number of bytes skipped; \<open>ng\<close> counts characters when there is no limit.\<close>

function utf8_skip :: "int option \<Rightarrow> nat \<Rightarrow> 64 word \<Rightarrow> byte list \<Rightarrow> nat" where
  "utf8_skip lim ng ccm z =
     (if (case lim of None \<Rightarrow> ng = 0 | Some l \<Rightarrow> l \<le> 0) then 0
      else if rd z AND 0x80 = 0
      then (if ccm \<noteq> 0 \<and> rd z < 0x20 \<and> bit ccm (unat (rd z)) then 0
            else 1 + utf8_skip (map_option (\<lambda>l. l - 1) lim) (ng - 1) ccm (tl z))
      else if rd z AND 0xc0 \<noteq> 0xc0 then 0
      else (case utf8_trail lim (rd z) 1 (tl z) of
              None \<Rightarrow> 0
            | Some k \<Rightarrow> k + utf8_skip (map_option (\<lambda>l. l - int k) lim) (ng - 1) ccm (drop k z)))"
  by pat_completeness auto

lemma utf8_trail_pos: "utf8_trail lim c k z = Some m \<Longrightarrow> k < m"
proof (induction lim c k z rule: utf8_trail.induct)
  case (1 lim c k z)
  then show ?case by (subst (asm) (2) utf8_trail.simps) (fastforce split: if_splits option.splits)
qed

termination utf8_skip
  by (relation "measure (\<lambda>(lim, ng, ccm, z). case lim of None \<Rightarrow> ng | Some l \<Rightarrow> nat l)")
    (auto split: option.splits dest!: utf8_trail_pos)

declare utf8_skip.simps [simp del]

definition zSkipValidUtf8 :: "byte list \<Rightarrow> int \<Rightarrow> 64 word \<Rightarrow> nat" where
  "zSkipValidUtf8 z nAccept ccm =
     (if nAccept < 0 then utf8_skip None (nat (- nAccept)) ccm z else utf8_skip (Some nAccept) 0 ccm z)"

text \<open>\<open>memchr\<close>, and the search for the first of several characters.\<close>

fun memchr :: "byte list \<Rightarrow> byte \<Rightarrow> nat \<Rightarrow> nat option" where
  "memchr [] c n = None"
| "memchr (b # z) c n = (if n = 0 then None else if b = c then Some 0 else map_option Suc (memchr z c (n - 1)))"

fun any_loop :: "byte list \<Rightarrow> byte list \<Rightarrow> nat \<Rightarrow> nat option \<Rightarrow> nat option" where
  "any_loop s [] ns pcFirst = pcFirst"
| "any_loop s (c # zAny) ns pcFirst =
     (case memchr s c ns of
        None \<Rightarrow> any_loop s zAny ns pcFirst
      | Some i \<Rightarrow> any_loop s zAny i (Some i))"

definition anyOfInStr :: "byte list \<Rightarrow> byte list \<Rightarrow> nat \<Rightarrow> nat option" where
  "anyOfInStr s zAny ns = any_loop s zAny ns None"

definition is_print :: "byte \<Rightarrow> bool" where
  "is_print c \<longleftrightarrow> 32 \<le> c \<and> c \<le> 126"

definition octal3 :: "byte \<Rightarrow> byte list" where
  "octal3 c = [48 + drop_bit 6 c, 48 + (drop_bit 3 c AND 7), 48 + (c AND 7)]"

definition c_say :: "byte \<Rightarrow> byte" where
  "c_say c = (if c = 92 \<or> c = 34 then c else if c = 9 then 116 else if c = 10 then 110 else if c = 13 then 114
     else if c = 12 then 102 else 0)"

definition c_escape :: "byte \<Rightarrow> byte list" where
  "c_escape c = (if c_say c \<noteq> 0 then [92, c_say c] else if \<not> is_print c then [92] @ octal3 c else [c])"

text \<open>The end of the part that is printed as it is: \<open>pcEnd-z\<close>.\<close>

definition plain_end :: "nat option \<Rightarrow> nat \<Rightarrow> nat" where
  "plain_end pc past = (case pc of None \<Rightarrow> past | Some i \<Rightarrow> if i < past then i else past)"

function c_loop :: "byte list \<Rightarrow> byte list" where
  "c_loop z =
     (if z = [] then []
      else (let e = plain_end (anyOfInStr z [34, 92, 0x7f] (length z)) (zSkipValidUtf8 z 2147483647 (-1)) in
            take e z @ (case drop e z of [] \<Rightarrow> [] | c # r \<Rightarrow> c_escape c @ c_loop r)))"
  by pat_completeness auto

lemma drop_Cons_shorter: "drop e z = c # r \<Longrightarrow> length r < length z"
  by (metis length_drop diff_le_self length_Cons Suc_le_eq)

termination c_loop
  by (relation "measure length") (auto dest: drop_Cons_shorter)

declare c_loop.simps [simp del]

definition output_c_string :: "byte list \<Rightarrow> byte list" where
  "output_c_string z = [34] @ c_loop z @ [34]"

section \<open>A text as a JSON string\<close>

definition hex_digit :: "nat \<Rightarrow> byte" where
  "hex_digit d = (if d < 10 then of_nat (48 + d) else of_nat (87 + d))"

text \<open>\<open>%04x\<close> of a \<open>char\<close>, which is promoted to \<open>int\<close>.\<close>

fun hex_digits :: "nat \<Rightarrow> byte list" where
  "hex_digits n = (if n < 16 then [hex_digit n] else hex_digits (n div 16) @ [hex_digit (n mod 16)])"

declare hex_digits.simps [simp del]

definition hex4 :: "byte \<Rightarrow> byte list" where
  "hex4 c = (let h = hex_digits (unat (word_of_int (sint c) :: 32 word)) in replicate (4 - length h) 48 @ h)"

definition json_say :: "byte \<Rightarrow> byte" where
  "json_say c = (if c = 34 \<or> c = 92 then c else if c = 8 then 98 else if c = 12 then 102 else if c = 10 then 110
     else if c = 13 then 114 else if c = 9 then 116 else 0)"

definition json_escape :: "byte \<Rightarrow> byte list" where
  "json_escape c = (if json_say c \<noteq> 0 then [92, json_say c] else if c \<le>s 0x1f then [117] @ hex4 c else [c])"

function json_loop :: "byte list \<Rightarrow> byte list" where
  "json_loop z =
     (if z = [] then []
      else (let e = plain_end (anyOfInStr z [34, 92] (length z)) (zSkipValidUtf8 z (int32 (int (length z))) (-1)) in
            take e z @ (case drop e z of [] \<Rightarrow> [] | c # r \<Rightarrow> json_escape c @ json_loop r)))"
  by pat_completeness auto

termination json_loop
  by (relation "measure length") (auto dest: drop_Cons_shorter)

declare json_loop.simps [simp del]

text \<open>\<open>z\<close> is what is behind the pointer up to the NUL and beyond, \<open>n\<close> the number of bytes or negative.\<close>

definition output_json_string :: "byte list option \<Rightarrow> int \<Rightarrow> byte list" where
  "output_json_string zo n =
     (let z = (case zo of None \<Rightarrow> [] | Some z \<Rightarrow> z)
      in [34] @ json_loop (if n < 0 then c_text z else take (nat n) z) @ [34])"

section \<open>A text as HTML\<close>

definition html_special :: "byte \<Rightarrow> bool" where
  "html_special c \<longleftrightarrow> c = 60 \<or> c = 38 \<or> c = 62 \<or> c = 34 \<or> c = 39"

definition html_escape :: "byte \<Rightarrow> byte list" where
  "html_escape c =
     (if c = 60 then bytes_of ''&lt;'' else if c = 38 then bytes_of ''&amp;'' else if c = 62 then bytes_of ''&gt;''
      else if c = 34 then bytes_of ''&quot;'' else bytes_of ''&#39;'')"

function html_loop :: "byte list \<Rightarrow> byte list" where
  "html_loop z =
     takeWhile (\<lambda>c. \<not> html_special c) z @
     (case dropWhile (\<lambda>c. \<not> html_special c) z of [] \<Rightarrow> [] | c # r \<Rightarrow> html_escape c @ html_loop r)"
  by pat_completeness auto

termination html_loop
  by (relation "measure length") (auto dest: dropWhile_Cons_shorter)

declare html_loop.simps [simp del]

definition output_html_string :: "byte list option \<Rightarrow> byte list" where
  "output_html_string zo = html_loop (case zo of None \<Rightarrow> [] | Some z \<Rightarrow> z)"

section \<open>Growing texts never overflow\<close>

definition text_ok :: "ShellText \<Rightarrow> bool" where
  "text_ok p \<longleftrightarrow> 0 \<le> st_nAlloc p \<and>
     (case st_z p of None \<Rightarrow> st_n p = 0 | Some z \<Rightarrow> st_n p = int (length z) \<and> st_n p < st_nAlloc p)"

lemma quote_doubled_length: "length (quote_doubled q z) = length z + length (filter (\<lambda>b. b = q) z)"
  by (induction z) (auto simp: quote_doubled_def)

lemma initText_ok: "text_ok initText"
  by (simp add: text_ok_def initText_def)

lemma appendText_ok:
  assumes "text_ok p"
  shows "\<exists>p'. appendText p z quote = Some p' \<and> text_ok p' \<and>
     st_z p' = Some ((case st_z p of None \<Rightarrow> [] | Some u \<Rightarrow> u) @
       (if quote \<noteq> 0 then [quote] @ quote_doubled quote z @ [quote] else z))"
  using assms
  by (cases "st_z p") (auto simp: text_ok_def appendText_def Let_def quote_doubled_length)

section \<open>Integers\<close>

lemma unat_of_char [simp]: "unat (of_char c :: byte) = of_char c"
proof -
  have "unat (of_nat (of_char c) :: byte) = of_char c" by (simp add: unsigned_of_nat take_bit_nat_eq_self)
  then show ?thesis by (simp only: of_nat_of_char)
qed

lemma is_dec_of_char: "is_digit c \<Longrightarrow> is_dec (of_char c)"
  by (simp add: is_digit_def is_dec_def word_le_nat_alt)

lemma is_dec_sign: "\<not> is_dec 43" "\<not> is_dec 45" "\<not> is_dec 120"
  by (simp_all add: is_dec_def)

lemma dec_loop_digits:
  assumes "list_all is_digit ds" and "\<not> is_dec (rd rest)"
  shows "dec_loop (of_nat m) (bytes_of ds @ rest) = (of_nat (foldl (\<lambda>n c. 10 * n + digit_val c) m ds), rest)"
  using assms(1)
proof (induction ds arbitrary: m)
  case Nil
  then show ?case using assms(2) by (cases rest) (auto simp: bytes_of_def)
next
  case (Cons d ds)
  have d: "is_dec (of_char d)" "48 \<le> (of_char d :: nat)"
    using Cons.prems is_dec_of_char by (simp_all add: is_digit_def)
  have "(ucast (of_char d :: byte) :: 64 word) = of_nat (of_char d)"
    by (simp only: unat_of_char [symmetric] of_nat_unat)
  then have "(of_nat m * 10 + ucast (of_char d :: byte) - 48 :: 64 word) = of_nat (10 * m + digit_val d)"
    using d(2) by (simp add: digit_val_def of_nat_diff)
  moreover have "dec_loop (of_nat m) (bytes_of (d # ds) @ rest) = dec_loop (of_nat m * 10 + ucast (of_char d :: byte) - 48) (bytes_of ds @ rest)"
    using d(1) by (simp add: bytes_of_def)
  moreover have "list_all is_digit ds" using Cons.prems by simp
  ultimately show ?case using Cons.IH by (simp only: foldl_Cons)
qed

lemma dec_loop_show_nat: "\<not> is_dec (rd rest) \<Longrightarrow> dec_loop 0 (bytes_of (show_nat n) @ rest) = (of_nat n, rest)"
  using dec_loop_digits [of "show_nat n" rest 0] show_nat_digits [of n] read_show_nat [of n] by (simp add: read_nat_def)

lemma aMult_all: "list_all (\<lambda>(s, m). find_mult (bytes_of s) = word_of_int m \<and> \<not> is_dec (rd (bytes_of s)) \<and> rd (bytes_of s) \<noteq> 120 \<and> 0 < m) aMult"
  by code_simp

lemma find_mult_Nil: "find_mult [] = 1"
  by code_simp

lemma sint64_id: "- (2 ^ 63) \<le> k \<Longrightarrow> k < 2 ^ 63 \<Longrightarrow> sint (word_of_int k :: 64 word) = k"
  by (simp add: signed_of_int signed_take_bit_int_eq_self)

section \<open>Properties\<close>

text \<open>A decimal number with an optional sign and one of the documented suffixes is read as the number times the
  factor of the suffix, if this fits into 64 bits.\<close>

theorem integerValue_exact:
  assumes "(suffix, m) \<in> set (([], 1) # aMult)" and "int n * m < 2 ^ 63"
  shows "integerValue (bytes_of (show_nat n @ suffix)) = int n * m \<and>
     integerValue (bytes_of (CHR ''+'' # show_nat n @ suffix)) = int n * m \<and>
     integerValue (bytes_of (CHR ''-'' # show_nat n @ suffix)) = - (int n * m)"
proof -
  have m: "find_mult (bytes_of suffix) = word_of_int m" "\<not> is_dec (rd (bytes_of suffix))" "0 < m" "rd (bytes_of suffix) \<noteq> 120"
    using assms(1) aMult_all find_mult_Nil by (auto simp: list_all_iff is_dec_def bytes_of_def)
  have d: "dec_loop 0 (bytes_of (show_nat n @ suffix)) = (of_nat n, bytes_of suffix)"
    using dec_loop_show_nat [OF m(2), of n] by (simp add: bytes_of_def)
  have "0 \<le> int n * m" using m(3) by simp
  then have "sint (word_of_int (int n * m) :: 64 word) = int n * m" "sint (word_of_int (- (int n * m)) :: 64 word) = - (int n * m)"
    using assms(2) by (intro sint64_id; simp)+
  moreover have "of_nat n * find_mult (bytes_of suffix) = word_of_int (int n * m)" by (simp add: m(1))
  ultimately have v: "sint (of_nat n * find_mult (bytes_of suffix)) = int n * m"
    "sint (- (of_nat n * find_mult (bytes_of suffix))) = - (int n * m)" by (simp_all only: of_int_minus)
  obtain c cs where c: "show_nat n = c # cs" using show_nat_nonempty by (cases "show_nat n") auto
  have dec: "is_dec (of_char k)" if "k \<in> set (c # cs)" for k
    using that show_nat_digits [of n] is_dec_of_char by (auto simp: c list_all_iff)
  then have c45: "of_char c \<noteq> (45 :: byte)" "of_char c \<noteq> (43 :: byte)" using dec [of c] by (metis (full_types) is_dec_sign list.set_intros(1))+
  have x: "rd (bytes_of (cs @ suffix)) \<noteq> 120"
    using m(4) dec [of "hd cs"] is_dec_sign(3) by (cases cs) (auto simp: bytes_of_def)
  let ?z = "bytes_of (show_nat n @ suffix)"
  have "rd ?z = of_char c" "tl ?z = bytes_of (cs @ suffix)" by (simp_all add: c bytes_of_def)
  moreover have "bytes_of (k # w) = of_char k # bytes_of w" for k w by (simp add: bytes_of_def)
  ultimately show ?thesis using c45 x d v
    by (simp add: integerValue_def Let_def)
qed

theorem integerValue_exact_witness:
  "integerValue (bytes_of (CHR ''-'' # show_nat 12 @ ''KiB'')) = - (int 12 * 1024)"
proof -
  have "(''KiB'', 1024) \<in> set (([], 1) # aMult)" by (simp add: aMult_def)
  from integerValue_exact [OF this, of 12] show ?thesis by simp
qed

end
