(* ===== verification/Shell_Quote.thy ===== *)
theory Shell_Quote
  imports Shell_Text "HOL-Library.Sublist"
begin

text \<open>
  The SQL expression the shell prints for a text (\<open>output_quoted_string\<close>, \<open>output_quoted_escaped_string\<close>)
  evaluates to that text: an evaluator of the part of SQL the output uses, and the proof that the strings put in
  place of line ends are found again, and only these.
\<close>

section \<open>Reading SQL expressions\<close>

text \<open>The part of SQL the output uses: string literals, \<open>replace\<close> and \<open>char\<close> of one ASCII code.  The result is
  the value and what follows the expression.\<close>

fun sql_string :: "byte list \<Rightarrow> (byte list \<times> byte list) option" where
  "sql_string [] = None"
| "sql_string (b # z) =
     (if b = 39
      then (case z of
              [] \<Rightarrow> Some ([], [])
            | c # r \<Rightarrow> if c = 39 then map_option (apfst (Cons 39)) (sql_string r) else Some ([], z))
      else map_option (apfst (Cons b)) (sql_string z))"

definition expect :: "byte \<Rightarrow> ('a \<times> byte list) option \<Rightarrow> ('a \<times> byte list) option" where
  "expect c o1 = (case o1 of Some (x, d # r) \<Rightarrow> if d = c then Some (x, r) else None | _ \<Rightarrow> None)"

definition replace_value :: "byte list \<Rightarrow> byte list \<Rightarrow> byte list \<Rightarrow> byte list" where
  "replace_value x y w = (case y of [] \<Rightarrow> x | p # ps \<Rightarrow> if p = 0 then x else replace_all p ps w x)"

definition sql_char :: "byte list \<Rightarrow> (byte list \<times> byte list) option" where
  "sql_char z =
     (let n = foldl (\<lambda>n c. 10 * n + (unat c - 48)) 0 (takeWhile is_dec z)
      in if is_dec (rd z) \<and> n < 128 then expect 41 (Some ([of_nat n], dropWhile is_dec z)) else None)"

fun sql_expr :: "nat \<Rightarrow> byte list \<Rightarrow> (byte list \<times> byte list) option" where
  "sql_expr 0 z = None"
| "sql_expr (Suc n) z =
     (if rd z = 39 then sql_string (tl z)
      else if take 8 z = bytes_of ''replace(''
      then (case expect 44 (sql_expr n (drop 8 z)) of
              None \<Rightarrow> None
            | Some (x, r1) \<Rightarrow>
                (case expect 44 (sql_expr n r1) of
                   None \<Rightarrow> None
                 | Some (y, r2) \<Rightarrow>
                     (case expect 41 (sql_expr n r2) of
                        None \<Rightarrow> None
                      | Some (w, r3) \<Rightarrow> Some (replace_value x y w, r3))))
      else if take 5 z = bytes_of ''char('' then sql_char (drop 5 z)
      else None)"

lemma quote_doubled_simps [simp]:
  "quote_doubled q [] = []" "quote_doubled q (b # z) = (if b = q then [b, q] else [b]) @ quote_doubled q z"
  "quote_doubled q (x @ y) = quote_doubled q x @ quote_doubled q y"
  by (simp_all add: quote_doubled_def)

lemma quote_doubled_id: "q \<notin> set z \<Longrightarrow> quote_doubled q z = z"
  by (induction z) auto

lemma sql_string_doubled: "rd rest \<noteq> 39 \<Longrightarrow> sql_string (quote_doubled 39 z @ 39 # rest) = Some (z, rest)"
  by (induction z) (auto split: list.splits)

lemma sql_string_plain: "39 \<notin> set z \<Longrightarrow> rd rest \<noteq> 39 \<Longrightarrow> sql_string (z @ 39 # rest) = Some (z, rest)"
  using sql_string_doubled [of rest z] by (simp add: quote_doubled_id)

lemma span_split: "z = takeWhile P z @ dropWhile P z"
  by simp

lemma quoted_loop_eq: "quoted_loop z = quote_doubled 39 z"
proof (induction z rule: quoted_loop.induct)
  case (1 z)
  have t: "quote_doubled 39 (takeWhile (\<lambda>c. c \<noteq> 39) z) = takeWhile (\<lambda>c. c \<noteq> 39) z"
    by (rule quote_doubled_id) (auto dest: set_takeWhileD)
  show ?case
  proof (cases "dropWhile (\<lambda>c. c \<noteq> 39) z")
    case Nil
    then have "39 \<notin> set z" by (auto simp: dropWhile_eq_Nil_conv)
    then show ?thesis by (subst quoted_loop.simps) (simp add: Nil quote_doubled_id)
  next
    case (Cons c r)
    then have "c = 39" using hd_dropWhile [of "\<lambda>c. c \<noteq> 39" z] by simp
    moreover have "quote_doubled 39 z = quote_doubled 39 (takeWhile (\<lambda>c. c \<noteq> 39) z @ c # r)"
      using Cons by (metis takeWhile_dropWhile_id)
    ultimately show ?thesis using 1 Cons t by (simp add: quoted_loop.simps [of z])
  qed
qed

definition nl_cr :: "byte list \<Rightarrow> byte list \<Rightarrow> byte \<Rightarrow> byte list" where
  "nl_cr zNL zCR c = (if c = 10 then zNL else if c = 13 then zCR else [c])"

definition ins :: "(byte \<Rightarrow> byte list) \<Rightarrow> byte list \<Rightarrow> byte list" where
  "ins f z = concat (map f z)"

lemma ins_simps [simp]: "ins f [] = []" "ins f (c # z) = f c @ ins f z" "ins f (a @ b) = ins f a @ ins f b"
  by (simp_all add: ins_def)

lemma ins_plain: "(\<And>c. c \<in> set z \<Longrightarrow> f c = [c]) \<Longrightarrow> ins f z = z"
  by (induction z) auto

lemma escaped_loop_eq:
  assumes "39 \<notin> set zNL" and "39 \<notin> set zCR"
  shows "escaped_loop zNL zCR z = quote_doubled 39 (ins (nl_cr zNL zCR) z)"
  using assms
proof (induction zNL zCR z rule: escaped_loop.induct)
  case (1 zNL zCR z)
  let ?a = "takeWhile (\<lambda>c. \<not> esc_special c) z"
  have a: "\<not> esc_special c" if "c \<in> set ?a" for c using that by (auto dest: set_takeWhileD)
  have s: "ins (nl_cr zNL zCR) ?a = ?a"
  proof (rule ins_plain)
    fix c assume "c \<in> set ?a"
    from a [OF this] show "nl_cr zNL zCR c = [c]" by (simp add: nl_cr_def esc_special_def)
  qed
  have "39 \<notin> set ?a" using a [of 39] by (simp only: esc_special_def) blast
  then have q: "quote_doubled 39 ?a = ?a" by (rule quote_doubled_id)
  show ?case
  proof (cases "dropWhile (\<lambda>c. \<not> esc_special c) z")
    case Nil
    then have "?a = z" by (metis append_Nil2 takeWhile_dropWhile_id)
    then have "quote_doubled 39 (ins (nl_cr zNL zCR) z) = z" using s q by metis
    with \<open>?a = z\<close> show ?thesis by (subst escaped_loop.simps) (simp only: Nil Let_def list.case)
  next
    case (Cons c r)
    then have "esc_special c" using hd_dropWhile [of "\<lambda>c. \<not> esc_special c" z] by simp
    moreover have "quote_doubled 39 (ins (nl_cr zNL zCR) z) =
        ?a @ quote_doubled 39 (nl_cr zNL zCR c) @ quote_doubled 39 (ins (nl_cr zNL zCR) r)"
      using takeWhile_dropWhile_id [of "\<lambda>c. \<not> esc_special c" z] Cons
      by (metis (no_types) ins_simps(2,3) quote_doubled_simps(3) s q)
    moreover have "escaped_loop zNL zCR r = quote_doubled 39 (ins (nl_cr zNL zCR) r)"
      using "1.IH" [OF refl Cons] "1.prems" by simp
    moreover have "quote_doubled 39 (nl_cr zNL zCR c) = (if c = 39 then [39, 39] else if c = 10 then zNL else zCR)"
      using calculation(1) "1.prems" by (auto simp: nl_cr_def esc_special_def quote_doubled_id)
    ultimately show ?thesis by (subst escaped_loop.simps) (simp add: Cons Let_def)
  qed
qed

section \<open>Replacing what was inserted\<close>

lemma strstr_sublist: "strstr_found z pat \<longleftrightarrow> sublist pat z"
proof (induction z)
  case (Cons b z)
  have "take (length pat) (b # z) = pat \<longleftrightarrow> prefix pat (b # z)"
    by (metis append_eq_conv_conj prefix_def take_is_prefix)
  then show ?case using Cons by (simp add: sublist_Cons_right)
qed auto

lemma replace_all_skip:
  assumes "\<And>j. j < length u \<Longrightarrow> \<not> prefix (p # ps) (drop j u @ v)"
  shows "replace_all p ps w (u @ v) = u @ replace_all p ps w v"
  using assms
proof (induction u)
  case (Cons b u)
  have "\<not> prefix (p # ps) (b # u @ v)" using Cons.prems [of 0] by simp
  then have "\<not> (b = p \<and> take (length ps) (u @ v) = ps)"
    by (metis Cons_prefix_Cons take_is_prefix)
  moreover have "replace_all p ps w (u @ v) = u @ replace_all p ps w v"
    using Cons.IH Cons.prems [of "Suc j" for j] by simp
  ultimately show ?case by (simp only: append_Cons replace_all.simps(2) if_False)
qed simp

lemma replace_all_inserted:
  assumes "f k = p # ps"
    and "\<And>a c r j. z = a @ c # r \<Longrightarrow> c \<noteq> k \<Longrightarrow> j < length (f c) \<Longrightarrow> \<not> prefix (p # ps) (drop j (f c) @ ins f r)"
  shows "replace_all p ps w (ins f z) = ins (f(k := w)) z"
  using assms(2)
proof (induction z)
  case (Cons c z)
  have ih: "replace_all p ps w (ins f z) = ins (f(k := w)) z"
  proof (rule Cons.IH)
    fix a c' r j
    assume "z = a @ c' # r" "c' \<noteq> k" "j < length (f c')"
    then show "\<not> prefix (p # ps) (drop j (f c') @ ins f r)"
      using Cons.prems [of "c # a" c' r j] by simp
  qed
  show ?case
  proof (cases "c = k")
    case True
    then show ?thesis using ih assms(1) by (simp del: fun_upd_apply add: fun_upd_same)
  next
    case False
    then show ?thesis using ih replace_all_skip [of "f c" p ps "ins f z" w] Cons.prems [of "[]" c z]
      by (simp del: fun_upd_apply add: fun_upd_other)
  qed
qed simp

text \<open>A pattern found at a byte that was not replaced is in the text, or runs into something inserted.\<close>

lemma prefix_ins:
  assumes "prefix y (ins f r)"
  shows "prefix y r \<or> (\<exists>w1 s w2 x. r = w1 @ s # w2 \<and> f s \<noteq> [s] \<and> y = w1 @ x \<and> x \<noteq> [] \<and> prefix x (f s @ ins f w2))"
  using assms
proof (induction r arbitrary: y)
  case (Cons c r)
  consider "y = []" | "y \<noteq> []" "f c \<noteq> [c]" | "y \<noteq> []" "f c = [c]" by blast
  then show ?case
  proof cases
    case 2
    then show ?thesis using Cons.prems by (metis append_Nil ins_simps(2))
  next
    case 3
    then obtain y' where y: "y = c # y'" "prefix y' (ins f r)" using Cons.prems by (cases y) auto
    from Cons.IH [OF this(2)] show ?thesis
    proof (elim disjE exE conjE)
      fix w1 s w2 x
      assume "r = w1 @ s # w2" "f s \<noteq> [s]" "y' = w1 @ x" "x \<noteq> []" "prefix x (f s @ ins f w2)"
      then show ?thesis using y(1) by (metis append_Cons)
    qed (use y in simp)
  qed simp
qed simp

section \<open>Unused strings\<close>

lemma is_dec_others [simp]: "\<not> is_dec 0" "\<not> is_dec 39" "\<not> is_dec 40" "\<not> is_dec 41" "\<not> is_dec 92" "\<not> is_dec 110" "\<not> is_dec 114"
  by (simp_all add: is_dec_def)

definition dec_bytes :: "nat \<Rightarrow> byte list" where
  "dec_bytes n = bytes_of (show_nat n)"

lemma dec_bytes_digits: "x \<in> set (dec_bytes n) \<Longrightarrow> is_dec x"
  using show_nat_digits [of n] by (auto simp: dec_bytes_def bytes_of_def list_all_iff is_dec_of_char)

lemma of_char_byte_inj: "(of_char a :: byte) = of_char b \<longleftrightarrow> a = b"
  by (metis unat_of_char of_char_eq_iff)

lemma dec_bytes_inj: "dec_bytes m = dec_bytes n \<longleftrightarrow> m = n"
  using inj_map_eq_map [of "of_char :: char \<Rightarrow> byte"] show_nat_inj [of m n]
  by (simp add: dec_bytes_def bytes_of_def inj_def of_char_byte_inj)

lemma show_nat_length: "n < 10 ^ Suc k \<Longrightarrow> length (show_nat n) \<le> Suc k"
proof (induction k arbitrary: n)
  case 0
  then show ?case by (simp add: show_nat.simps [of n])
next
  case (Suc k)
  have "n div 10 < 10 ^ Suc k" using Suc.prems by (simp add: div_less_iff_less_mult)
  from Suc.IH [OF this] show ?case by (subst show_nat.simps) simp
qed

lemma unused_buf_eq: "unused_buf [92, l] i = [40, 92, l] @ dec_bytes (unat i) @ [41]"
proof -
  have "unat i < 10 ^ Suc 9" using unsigned_less [of i, where 'a = nat] by simp
  from show_nat_length [OF this] have "length (dec_bytes (unat i)) \<le> 10" by (simp add: dec_bytes_def bytes_of_def)
  then show ?thesis by (simp add: unused_buf_def dec_bytes_def)
qed

lemma unused_buf_prefix:
  assumes "prefix (unused_buf [92, l] i) x" and "prefix (unused_buf [92, l] j) x"
  shows "i = j"
proof -
  obtain u where u: "x = [40, 92, l] @ dec_bytes (unat i) @ 41 # u" using assms(1) by (auto simp: unused_buf_eq prefix_def)
  obtain v where v: "x = [40, 92, l] @ dec_bytes (unat j) @ 41 # v" using assms(2) by (auto simp: unused_buf_eq prefix_def)
  have t: "takeWhile is_dec (dec_bytes n @ 41 # w) = dec_bytes n" for n w
    using dec_bytes_digits [of _ n] by (subst takeWhile_append2) (auto simp: is_dec_def)
  have "dec_bytes (unat i) @ 41 # u = dec_bytes (unat j) @ 41 # v" using u v by simp
  then have "dec_bytes (unat i) = dec_bytes (unat j)" using t by metis
  then show ?thesis by (simp add: dec_bytes_inj word_unat_eq_iff)
qed

lemma unused_exists:
  assumes "length z < 2 ^ 31"
  shows "\<exists>k \<le> length z. \<not> sublist (unused_buf [92, l] (of_nat k)) z"
proof (rule ccontr)
  assume "\<not> ?thesis"
  then have all: "\<And>k. k \<le> length z \<Longrightarrow> sublist (unused_buf [92, l] (of_nat k)) z" by blast
  have "\<forall>k \<in> {..length z}. \<exists>p. p < length z \<and> prefix (unused_buf [92, l] (of_nat k)) (drop p z)"
  proof
    fix k assume "k \<in> {..length z}"
    with all obtain a b where z: "z = a @ unused_buf [92, l] (of_nat k) @ b" unfolding sublist_def by blast
    then have "length a < length z" by (simp add: unused_buf_eq)
    moreover have "prefix (unused_buf [92, l] (of_nat k)) (drop (length a) z)" by (subst z) simp
    ultimately show "\<exists>p. p < length z \<and> prefix (unused_buf [92, l] (of_nat k)) (drop p z)" by blast
  qed
  then obtain p where p: "\<And>k. k \<le> length z \<Longrightarrow> p k < length z \<and> prefix (unused_buf [92, l] (of_nat k)) (drop (p k) z)"
    by (metis atMost_iff)
  have "inj_on p {..length z}"
  proof (rule inj_onI)
    fix j k assume "j \<in> {..length z}" "k \<in> {..length z}" "p j = p k"
    then have "(of_nat j :: 32 word) = of_nat k" using p unused_buf_prefix by (metis atMost_iff)
    then have "unat (of_nat j :: 32 word) = unat (of_nat k :: 32 word)" by simp
    then show "j = k" using \<open>j \<in> _\<close> \<open>k \<in> _\<close> assms
      by (simp add: unsigned_of_nat take_bit_nat_eq_self)
  qed
  moreover have "p ` {..length z} \<subseteq> {..<length z}" using p by auto
  ultimately have "card {..length z} \<le> card {..<length z}" by (metis card_inj_on_le finite_lessThan)
  then show False by simp
qed

lemma unused_loop_ends:
  assumes "\<not> sublist (unused_buf zA (of_nat (i + n))) z"
  shows "\<exists>j. unused_loop z zA (of_nat i) = Some (unused_buf zA j) \<and> \<not> sublist (unused_buf zA j) z"
  using assms
proof (induction n arbitrary: i)
  case 0
  then show ?case by (subst unused_loop.simps) (auto simp: strstr_sublist)
next
  case (Suc n)
  from Suc.IH [of "Suc i"] Suc.prems show ?case
    by (subst unused_loop.simps) (auto simp: strstr_sublist add.commute)
qed

definition esc_shape :: "byte \<Rightarrow> byte \<Rightarrow> byte list \<Rightarrow> bool" where
  "esc_shape l d pat \<longleftrightarrow> pat = [92, l] \<or> pat = [92, 48, 49, d] \<or>
     (\<exists>ds. pat = [40, 92, l] @ ds @ [41] \<and> (\<forall>x \<in> set ds. is_dec x))"

lemma unused_string_shape:
  assumes "length z < 2 ^ 31"
  shows "\<exists>pat. unused_string z [92, l] [92, 48, 49, d] = Some pat \<and> esc_shape l d pat \<and> \<not> sublist pat z"
proof -
  obtain k where "\<not> sublist (unused_buf [92, l] (of_nat (0 + k))) z" using unused_exists [OF assms] by auto
  from unused_loop_ends [OF this] obtain j where
    "unused_loop z [92, l] 0 = Some (unused_buf [92, l] j)" "\<not> sublist (unused_buf [92, l] j) z" by auto
  moreover have "esc_shape l d (unused_buf [92, l] j)"
    using dec_bytes_digits by (fastforce simp: esc_shape_def unused_buf_eq)
  ultimately show ?thesis by (auto simp: unused_string_def strstr_sublist esc_shape_def)
qed

lemma dec_not_in: "\<forall>x \<in> set ds. is_dec x \<Longrightarrow> 39 \<notin> set ds \<and> 0 \<notin> set ds"
  using is_dec_others by blast

lemma shape_facts:
  assumes "esc_shape l d pat" and "l \<in> {110, 114}" and "d \<in> {50, 53}"
  shows "39 \<notin> set pat" and "0 \<notin> set pat" and "pat \<noteq> []"
  using assms dec_not_in by (auto simp: esc_shape_def)

text \<open>No pattern of the one kind begins inside one of the other kind.\<close>

lemma shape_cross:
  assumes "esc_shape 110 50 a" and "esc_shape 114 53 b" and "j < length a"
  shows "\<not> prefix b (drop j a @ x)"
proof
  assume p: "prefix b (drop j a @ x)"
  have hb: "hd b = 92 \<or> hd b = 40" "b \<noteq> []" using assms(2) by (auto simp: esc_shape_def)
  have ha: "hd b = a ! j" using p hb(2) assms(3) by (cases b) (auto simp: Cons_nth_drop_Suc [symmetric])
  from assms(1) consider "a = [92, 110]" | "a = [92, 48, 49, 50]"
    | ds where "a = [40, 92, 110] @ ds @ [41]" "\<forall>x \<in> set ds. is_dec x" by (auto simp: esc_shape_def)
  then show False
  proof cases
    case 1
    then have "j = 0" using ha hb assms(3) by (auto simp: less_Suc_eq)
    then show False using p 1 assms(2) by (auto simp: esc_shape_def)
  next
    case 2
    then have "j = 0" using ha hb assms(3) by (auto simp: less_Suc_eq)
    then show False using p 2 assms(2) by (auto simp: esc_shape_def)
  next
    case (3 ds)
    have "j < 3"
    proof (rule ccontr)
      assume "\<not> j < 3"
      then have "a ! j = (ds @ [41]) ! (j - 3)" and "j - 3 < length (ds @ [41])" using 3(1) assms(3) by (auto simp: nth_append nth_Cons' numeral_3_eq_3)
      then have "a ! j \<in> set (ds @ [41])" by (metis nth_mem)
      then show False using 3(2) ha hb by (auto simp: is_dec_def)
    qed
    then have "j = 0 \<or> j = 1" using ha hb 3(1) by (auto simp: less_Suc_eq numeral_3_eq_3)
    then show False using p 3(1) assms(2) by (auto simp: esc_shape_def)
  qed
qed

text \<open>A pattern that is not in the text does not begin at one of its bytes.\<close>

lemma shape_raw:
  assumes "esc_shape l d pat" and "l \<in> {110, 114}" and "d \<in> {50, 53}" and "\<not> sublist pat (c # r)"
    and "\<And>s. f s \<noteq> [s] \<Longrightarrow> f s = pat \<or> l = 114 \<and> esc_shape 110 50 (f s)"
  shows "\<not> prefix pat (c # ins f r)"
proof
  assume "prefix pat (c # ins f r)"
  moreover have "pat \<noteq> []" using assms(1) by (auto simp: esc_shape_def)
  ultimately obtain y where y: "pat = c # y" "prefix y (ins f r)" by (cases pat) auto
  from prefix_ins [OF y(2)] show False
  proof (elim disjE exE conjE)
    assume "prefix y r"
    then have "prefix pat (c # r)" using y(1) by simp
    then show False using assms(4) by (simp add: prefix_imp_sublist)
  next
    fix w1 s w2 x
    assume f: "f s \<noteq> [s]" and x: "y = w1 @ x" "x \<noteq> []" "prefix x (f s @ ins f w2)"
    have fs: "f s = pat \<or> l = 114 \<and> esc_shape 110 50 (f s)" by (rule assms(5) [OF f])
    then have hd: "f s \<noteq> []" "hd (f s) \<in> {40, 92}" using assms(1) by (auto simp: esc_shape_def)
    then have hx: "hd x = hd (f s)" using x(2,3) by (cases x; cases "f s") auto
    have "hd x \<in> set y" using x(1,2) by simp
    with hx hd assms(1-3) y(1) obtain ds where y': "c = 40" "y = 92 # l # ds @ [41]" "\<forall>a \<in> set ds. is_dec a"
      by (auto simp: esc_shape_def)
    have "w1 = []"
    proof (rule ccontr)
      assume "w1 \<noteq> []"
      then obtain w1' where "w1' @ x = l # ds @ [41]" using x(1) y'(2) by (cases w1) auto
      moreover have "hd x \<in> set (w1' @ x)" using x(2) by simp
      ultimately have "hd x \<in> set (l # ds @ [41])" by simp
      then show False using hx hd(2) y'(3) assms(2) by auto
    qed
    then have "prefix (92 # l # ds @ [41]) (f s @ ins f w2)" using x y'(2) by simp
    then show False using fs y(1) y'(1) assms(2) by (auto simp: esc_shape_def)
  qed
qed

lemma replace_value_ins:
  assumes "f k = pat" and "pat \<noteq> []" and "0 \<notin> set pat"
    and "\<And>a c r j. z = a @ c # r \<Longrightarrow> c \<noteq> k \<Longrightarrow> j < length (f c) \<Longrightarrow> \<not> prefix pat (drop j (f c) @ ins f r)"
  shows "replace_value (ins f z) pat w = ins (f(k := w)) z"
proof -
  obtain p ps where p: "pat = p # ps" using assms(2) by (cases pat) auto
  show ?thesis using replace_all_inserted [of f k p ps z w] assms(1,3,4) unfolding p replace_value_def
    by (simp del: fun_upd_apply)
qed

lemma not_sublist_suffix: "\<not> sublist pat (a @ x) \<Longrightarrow> \<not> sublist pat x"
  unfolding sublist_def by (metis append_assoc)

lemma replace_cr:
  assumes "nl = [10] \<or> esc_shape 110 50 nl" and "esc_shape 114 53 zCR" and "\<not> sublist zCR z"
  shows "replace_value (ins (nl_cr nl zCR) z) zCR [13] = ins (nl_cr nl [13]) z"
proof -
  have "(nl_cr nl zCR)(13 := [13]) = nl_cr nl [13]" by (auto simp: nl_cr_def)
  moreover have "replace_value (ins (nl_cr nl zCR) z) zCR [13] = ins ((nl_cr nl zCR)(13 := [13])) z"
  proof (rule replace_value_ins)
    show "nl_cr nl zCR 13 = zCR" by (simp add: nl_cr_def)
    show "zCR \<noteq> []" "0 \<notin> set zCR" using shape_facts [OF assms(2)] by simp_all
  next
    fix a c r j
    assume z: "z = a @ c # r" and c: "c \<noteq> 13" and j: "j < length (nl_cr nl zCR c)"
    show "\<not> prefix zCR (drop j (nl_cr nl zCR c) @ ins (nl_cr nl zCR) r)"
    proof (cases "c = 10 \<and> esc_shape 110 50 nl")
      case True
      then show ?thesis using shape_cross [OF _ assms(2), of nl j] j by (simp add: nl_cr_def)
    next
      case False
      then have "nl_cr nl zCR c = [c]" using c assms(1) by (auto simp: nl_cr_def)
      moreover have "\<not> prefix zCR (c # ins (nl_cr nl zCR) r)"
        by (rule shape_raw [OF assms(2) _ _ not_sublist_suffix [OF assms(3) [unfolded z]]])
          (use assms(1) in \<open>auto simp: nl_cr_def split: if_splits\<close>)
      ultimately show ?thesis using j by simp
    qed
  qed
  ultimately show ?thesis by simp
qed

lemma replace_nl:
  assumes "esc_shape 110 50 zNL" and "\<not> sublist zNL z"
  shows "replace_value (ins (nl_cr zNL [13]) z) zNL [10] = z"
proof -
  have "ins ((nl_cr zNL [13])(10 := [10])) z = z" by (rule ins_plain) (simp add: nl_cr_def)
  moreover have "replace_value (ins (nl_cr zNL [13]) z) zNL [10] = ins ((nl_cr zNL [13])(10 := [10])) z"
  proof (rule replace_value_ins)
    show "nl_cr zNL [13] 10 = zNL" by (simp add: nl_cr_def)
    show "zNL \<noteq> []" "0 \<notin> set zNL" using shape_facts [OF assms(1)] by simp_all
  next
    fix a c r j
    assume z: "z = a @ c # r" and c: "c \<noteq> 10" and j: "j < length (nl_cr zNL [13] c)"
    have "nl_cr zNL [13] c = [c]" using c by (simp add: nl_cr_def)
    moreover have "\<not> prefix zNL (c # ins (nl_cr zNL [13]) r)"
      by (rule shape_raw [OF assms(1) _ _ not_sublist_suffix [OF assms(2) [unfolded z]]])
        (auto simp: nl_cr_def split: if_splits)
    ultimately show "\<not> prefix zNL (drop j (nl_cr zNL [13] c) @ ins (nl_cr zNL [13]) r)" using j by simp
  qed
  ultimately show ?thesis by simp
qed

section \<open>Evaluating the output\<close>

lemma sql_expr_literal: "rd rest \<noteq> 39 \<Longrightarrow> sql_expr (Suc n) ([39] @ quote_doubled 39 v @ [39] @ rest) = Some (v, rest)"
  by (simp add: sql_string_doubled)

lemma sql_expr_plain: "39 \<notin> set v \<Longrightarrow> rd rest \<noteq> 39 \<Longrightarrow> sql_expr (Suc n) ([39] @ v @ [39] @ rest) = Some (v, rest)"
  by (simp add: sql_string_plain)

lemma sql_expr_char:
  "sql_expr (Suc n) (bytes_of ''char('' @ bytes_of ''13'' @ [41] @ rest) = Some ([13], rest)"
  "sql_expr (Suc n) (bytes_of ''char('' @ bytes_of ''10'' @ [41] @ rest) = Some ([10], rest)"
  by (simp_all add: bytes_of_def sql_char_def expect_def is_dec_def)

lemma sql_expr_replace:
  assumes "sql_expr (Suc n) e = Some (x, replace_close pat N @ rest)" and "39 \<notin> set pat"
    and "sql_expr (Suc n) (bytes_of ''char('' @ bytes_of N @ [41] @ (41 # rest)) = Some (w, 41 # rest)"
  shows "sql_expr (Suc (Suc n)) (replace_open @ e) = Some (replace_value x pat w, rest)"
proof -
  have pat: "sql_expr (Suc n) ([39] @ pat @ [39] @ bytes_of '',char('' @ bytes_of N @ bytes_of ''))'' @ rest) =
      Some (pat, 44 # bytes_of ''char('' @ bytes_of N @ [41] @ [41] @ rest)"
    using sql_expr_plain [OF assms(2), of "bytes_of '',char('' @ bytes_of N @ bytes_of ''))'' @ rest" n]
    by (simp add: bytes_of_def del: sql_expr.simps)
  have "expect 44 (sql_expr (Suc n) e) =
      Some (x, [39] @ pat @ [39] @ bytes_of '',char('' @ bytes_of N @ bytes_of ''))'' @ rest)"
    unfolding assms(1) by (simp add: expect_def replace_close_def bytes_of_def)
  moreover have "rd (replace_open @ e) \<noteq> 39" "take 8 (replace_open @ e) = bytes_of ''replace(''" "drop 8 (replace_open @ e) = e"
    by (simp_all add: replace_open_def bytes_of_def)
  ultimately show ?thesis
    using assms(3) pat by (subst sql_expr.simps(2)) (simp add: expect_def del: sql_expr.simps)
qed

lemma ins_cong: "(\<And>c. c \<in> set z \<Longrightarrow> f c = g c) \<Longrightarrow> ins f z = ins g z"
  by (simp add: ins_def cong: map_cong)

lemma escaped_value:
  assumes "length z < 2 ^ 31" and "0 \<notin> set z"
  shows "\<exists>out. output_quoted_escaped_string z = Some out \<and> sql_expr 3 out = Some (z, [])"
proof (cases "dropWhile (\<lambda>c. \<not> esc_special c) z = []")
  case True
  then have "39 \<notin> set z" by (auto simp: dropWhile_eq_Nil_conv esc_special_def)
  from sql_expr_plain [OF this, of "[]" 2] True show ?thesis
    by (simp add: output_quoted_escaped_string_def numeral_3_eq_3 del: sql_expr.simps)
next
  case False
  obtain nl where nl: "unused_string z [92, 110] [92, 48, 49, 50] = Some nl" "esc_shape 110 50 nl" "\<not> sublist nl z"
    using unused_string_shape [OF assms(1)] by blast
  obtain cr where cr: "unused_string z [92, 114] [92, 48, 49, 53] = Some cr" "esc_shape 114 53 cr" "\<not> sublist cr z"
    using unused_string_shape [OF assms(1)] by blast
  have q: "39 \<notin> set nl" "39 \<notin> set cr" using shape_facts nl(2) cr(2) by auto
  have bs: "bytes_of [CHR 92, CHR ''n''] = [92, 110]" "bytes_of (CHR 92 # ''012'') = [92, 48, 49, 50]"
    "bytes_of [CHR 92, CHR ''r''] = [92, 114]" "bytes_of (CHR 92 # ''015'') = [92, 48, 49, 53]"
    by (simp_all add: bytes_of_def)
  have has: "0 < length (filter (\<lambda>c. c = b) z) \<longleftrightarrow> b \<in> set z" for b by (auto simp: filter_empty_conv)
  let ?zNL = "if 10 \<in> set z then nl else []" and ?zCR = "if 13 \<in> set z then cr else []"
  let ?n = "if 10 \<in> set z then nl else [10]" and ?c = "if 13 \<in> set z then cr else [13]"
  let ?close = "if 10 \<in> set z then replace_close nl ''10'' else []"
  let ?lit = "[39] @ quote_doubled 39 (ins (nl_cr ?n ?c) z) @ [39]"
  have "escaped_loop ?zNL ?zCR z = quote_doubled 39 (ins (nl_cr ?zNL ?zCR) z)"
    by (rule escaped_loop_eq) (use q in auto)
  also have "ins (nl_cr ?zNL ?zCR) z = ins (nl_cr ?n ?c) z" by (rule ins_cong) (auto simp: nl_cr_def)
  finally have out: "output_quoted_escaped_string z = Some
      ((if 10 \<in> set z then replace_open else []) @ (if 13 \<in> set z then replace_open else []) @ ?lit @
       (if 13 \<in> set z then replace_close cr ''13'' else []) @ ?close)"
    unfolding output_quoted_escaped_string_def if_not_P [OF False] Let_def has bs
    by (cases "10 \<in> set z"; cases "13 \<in> set z") (simp_all add: nl(1) cr(1))
  have n: "?n = [10] \<or> esc_shape 110 50 ?n" using nl(2) by simp
  have rd: "rd (replace_close p N @ r) \<noteq> 39" for p N r by (simp add: replace_close_def bytes_of_def)
  have inner: "sql_expr (Suc (Suc m)) ((if 13 \<in> set z then replace_open else []) @ ?lit @
      (if 13 \<in> set z then replace_close cr ''13'' else []) @ ?close) = Some (ins (nl_cr ?n [13]) z, ?close)" for m
  proof (cases "13 \<in> set z")
    case True
    have "sql_expr (Suc m) (?lit @ replace_close cr ''13'' @ ?close) =
        Some (ins (nl_cr ?n ?c) z, replace_close cr ''13'' @ ?close)"
      using sql_expr_literal [OF rd, of m "ins (nl_cr ?n ?c) z" cr "''13''" ?close] by simp
    from sql_expr_replace [OF this q(2) sql_expr_char(1)] True
    show ?thesis using replace_cr [OF n cr(2,3)] by (simp del: sql_expr.simps)
  next
    case False
    have "rd ?close \<noteq> 39" using rd [of nl "''10''" "[]"] by auto
    from sql_expr_literal [OF this, of "Suc m" "ins (nl_cr ?n ?c) z"] False show ?thesis
      by (simp del: sql_expr.simps)
  qed
  show ?thesis
  proof (cases "10 \<in> set z")
    case True
    from sql_expr_replace [of 1, OF _ q(1) sql_expr_char(2)] inner [of 0] True out replace_nl [OF nl(2,3)]
    show ?thesis by (simp add: numeral_3_eq_3 del: sql_expr.simps)
  next
    case False
    have "ins (nl_cr [10] [13]) z = z" by (rule ins_plain) (simp add: nl_cr_def)
    then show ?thesis using inner [of 1] False out by (simp add: numeral_3_eq_3 del: sql_expr.simps)
  qed
qed

lemma quote_doubled_set: "set (quote_doubled q z) = set z"
  by (induction z) auto

lemma escaped_one_line:
  assumes "output_quoted_escaped_string z = Some out" and "length z < 2 ^ 31" and "c \<in> {10, 13}"
  shows "c \<notin> set out"
proof (cases "dropWhile (\<lambda>c. \<not> esc_special c) z = []")
  case True
  then show ?thesis using assms(1,3) by (auto simp: output_quoted_escaped_string_def dropWhile_eq_Nil_conv esc_special_def)
next
  case False
  obtain nl where nl: "unused_string z [92, 110] [92, 48, 49, 50] = Some nl" "esc_shape 110 50 nl"
    using unused_string_shape [OF assms(2)] by blast
  obtain cr where cr: "unused_string z [92, 114] [92, 48, 49, 53] = Some cr" "esc_shape 114 53 cr"
    using unused_string_shape [OF assms(2)] by blast
  have q: "39 \<notin> set nl" "39 \<notin> set cr" using shape_facts nl(2) cr(2) by auto
  have "\<not> is_dec c" using assms(3) by (auto simp: is_dec_def)
  then have free: "c \<notin> set nl" "c \<notin> set cr" using nl(2) cr(2) assms(3) by (auto simp: esc_shape_def)
  let ?zNL = "if 10 \<in> set z then nl else []" and ?zCR = "if 13 \<in> set z then cr else []"
  have bs: "bytes_of [CHR 92, CHR ''n''] = [92, 110]" "bytes_of (CHR 92 # ''012'') = [92, 48, 49, 50]"
    "bytes_of [CHR 92, CHR ''r''] = [92, 114]" "bytes_of (CHR 92 # ''015'') = [92, 48, 49, 53]"
    by (simp_all add: bytes_of_def)
  have has: "0 < length (filter (\<lambda>c. c = b) z) \<longleftrightarrow> b \<in> set z" for b by (auto simp: filter_empty_conv)
  have "escaped_loop ?zNL ?zCR z = quote_doubled 39 (ins (nl_cr ?zNL ?zCR) z)"
    by (rule escaped_loop_eq) (use q in auto)
  then have "c \<notin> set (escaped_loop ?zNL ?zCR z)"
    using free assms(3) by (auto simp: quote_doubled_set ins_def nl_cr_def split: if_splits)
  moreover have "c \<notin> set replace_open" "c \<notin> set (replace_close nl ''10'')" "c \<notin> set (replace_close cr ''13'')"
    using free assms(3) by (auto simp: replace_open_def replace_close_def bytes_of_def)
  moreover have "out = (if 10 \<in> set z then replace_open else []) @ (if 13 \<in> set z then replace_open else []) @
      [39] @ escaped_loop ?zNL ?zCR z @ [39] @ (if 13 \<in> set z then replace_close cr ''13'' else []) @
      (if 10 \<in> set z then replace_close nl ''10'' else [])"
    using assms(1) unfolding output_quoted_escaped_string_def if_not_P [OF False] Let_def has bs
    by (cases "10 \<in> set z"; cases "13 \<in> set z") (simp_all add: nl(1) cr(1))
  ultimately show ?thesis using assms(3) by auto
qed

section \<open>Properties\<close>

text \<open>C9: The SQL expression the shell prints for a text is one line and evaluates to the text, whatever quotes,
  line ends, backslashes or look-alikes of the replacement strings it contains; the plain form, without the
  treatment of line ends, is a string literal with the text as its value.\<close>

theorem escaped_string_evaluates:
  assumes "length z < 2 ^ 31" and "0 \<notin> set z"
  shows "(\<exists>out. output_quoted_escaped_string z = Some out \<and> sql_expr 3 out = Some (z, []) \<and> 10 \<notin> set out \<and> 13 \<notin> set out) \<and>
     sql_expr 1 (output_quoted_string (Some z)) = Some (z, [])"
proof
  from escaped_value [OF assms] obtain out where o: "output_quoted_escaped_string z = Some out" "sql_expr 3 out = Some (z, [])"
    by blast
  then show "\<exists>out. output_quoted_escaped_string z = Some out \<and> sql_expr 3 out = Some (z, []) \<and> 10 \<notin> set out \<and> 13 \<notin> set out"
    using escaped_one_line [OF o(1) assms(1)] by auto
  have "output_quoted_string (Some z) = [39] @ quote_doubled 39 z @ [39] @ []"
    by (auto simp: output_quoted_string_def quoted_loop_eq dropWhile_eq_Nil_conv quote_doubled_id)
  then show "sql_expr 1 (output_quoted_string (Some z)) = Some (z, [])"
    using sql_expr_literal [of "[]" 0 z] by (simp del: sql_expr.simps)
qed

theorem escaped_string_evaluates_witness:
  "\<exists>out. output_quoted_escaped_string [39, 92, 110, 10, 40, 13, 92] = Some out \<and>
     sql_expr 3 out = Some ([39, 92, 110, 10, 40, 13, 92], []) \<and> 10 \<notin> set out"
  using escaped_string_evaluates [of "[39, 92, 110, 10, 40, 13, 92]"] by auto

end
