(* ===== verification/Shell_Escape.thy ===== *)
theory Shell_Escape
  imports Shell_Text
begin

text \<open>
  Texts printed by the shell as C strings, JSON strings and HTML are read back: the C string by the shell's own
  splitting of a command line (\<open>do_meta_command\<close>, \<open>resolve_backslashes\<close>), the other two by reference readers.
\<close>

section \<open>The part that is printed as it is\<close>

lemma memchr_found: "memchr s c n = Some i \<Longrightarrow> i < n \<and> c \<notin> set (take i s)"
proof (induction s c n arbitrary: i rule: memchr.induct)
  case (2 b z c n)
  then show ?case by (cases i) (auto split: if_splits)
qed simp

lemma memchr_none: "memchr s c n = None \<Longrightarrow> c \<notin> set (take n s)"
proof (induction s c n rule: memchr.induct)
  case (2 b z c n)
  then show ?case by (cases n) (auto split: if_splits)
qed simp

lemma set_take_mono: "i \<le> n \<Longrightarrow> x \<in> set (take i s) \<Longrightarrow> x \<in> set (take n s)"
  by (metis in_mono set_take_subset_set_take)

definition stop_at :: "nat option \<Rightarrow> nat \<Rightarrow> nat" where
  "stop_at r n = (case r of None \<Rightarrow> n | Some i \<Rightarrow> i)"

lemma any_loop_Some: "\<exists>j. any_loop s zAny n (Some i) = Some j"
  by (induction zAny arbitrary: n i) (auto split: option.splits)

lemma any_loop_first:
  assumes "pf = None \<or> pf = Some ns"
  shows "stop_at (any_loop s zAny ns pf) ns \<le> ns \<and> set zAny \<inter> set (take (stop_at (any_loop s zAny ns pf) ns) s) = {}"
  using assms
proof (induction s zAny ns pf rule: any_loop.induct)
  case (1 s ns pf)
  then show ?case by (auto simp: stop_at_def)
next
  case (2 s c zAny ns pf)
  show ?case
  proof (cases "memchr s c ns")
    case None
    with 2 memchr_none [OF None] set_take_mono [of _ ns c s] show ?thesis by auto
  next
    case (Some i)
    note m = memchr_found [OF Some]
    obtain j where "any_loop s zAny i (Some i) = Some j" using any_loop_Some by blast
    then have s: "stop_at (any_loop s zAny i (Some i)) ns = stop_at (any_loop s zAny i (Some i)) i"
      by (simp add: stop_at_def)
    have "stop_at (any_loop s zAny i (Some i)) i \<le> i \<and>
        set zAny \<inter> set (take (stop_at (any_loop s zAny i (Some i)) i) s) = {}"
      using 2(2) [OF Some] by simp
    with m set_take_mono [of _ i c s] show ?thesis by (simp add: Some s) force
  qed
qed

lemma anyOfInStr_first: "set zAny \<inter> set (take (stop_at (anyOfInStr s zAny (length s)) (length s)) s) = {}"
  unfolding anyOfInStr_def using any_loop_first [of None "length s" s zAny] by simp

lemma plain_end_clean:
  assumes "x \<in> set zAny"
  shows "x \<notin> set (take (plain_end (anyOfInStr z zAny (length z)) past) z)"
proof -
  let ?r = "anyOfInStr z zAny (length z)"
  have no: "x \<notin> set (take (stop_at ?r (length z)) z)" using anyOfInStr_first [of zAny z] assms by blast
  show ?thesis
  proof (cases ?r)
    case None
    then have "x \<notin> set z" using no by (simp add: stop_at_def)
    then show ?thesis by (meson in_set_takeD)
  next
    case (Some i)
    then have "plain_end ?r past \<le> i" "stop_at ?r (length z) = i" by (simp_all add: plain_end_def stop_at_def)
    then show ?thesis using no set_take_mono by metis
  qed
qed

lemma high_byte:
  fixes b :: byte
  assumes "b AND 0xc0 = 0x80"
  shows "128 \<le> b"
  using word_and_le2 [of b "0xc0"] assms by simp

lemma utf8_trail_Some:
  assumes "utf8_trail lim c k z = Some m"
  shows "rd z \<noteq> 0 \<and> rd z AND 0xc0 = 0x80 \<and>
    (if push_bit 1 c AND 0x40 = 0x40 then utf8_trail lim (push_bit 1 c) (k + 1) (tl z) = Some m else m = k + 1)"
  using assms by (subst (asm) utf8_trail.simps) (simp split: if_splits option.splits)

lemma utf8_trail_bytes:
  assumes "utf8_trail lim c k z = Some m"
  shows "m - k \<le> length z \<and> (\<forall>b \<in> set (take (m - k) z). 128 \<le> b)"
  using assms
proof (induction "m - k" arbitrary: c k z)
  case 0
  then show ?case by simp
next
  case (Suc n)
  note t = utf8_trail_Some [OF Suc.prems]
  then obtain b z' where z: "z = b # z'" "128 \<le> b" using high_byte [of "rd z"] by (cases z) auto
  show ?case
  proof (cases "push_bit 1 c AND 0x40 = 0x40")
    case True
    then have t': "utf8_trail lim (push_bit 1 c) (k + 1) z' = Some m" using t z by simp
    have "n = m - (k + 1)" using Suc.hyps(2) by simp
    from Suc.hyps(1) [OF this t'] \<open>n = _\<close> Suc.hyps(2) [symmetric] show ?thesis using z by simp
  next
    case False
    then have "m = k + 1" using t by simp
    then show ?thesis using z by simp
  qed
qed

text \<open>No control character is skipped under the full mask.\<close>

lemma utf8_skip_clean:
  assumes "ccm = -1"
  shows "utf8_skip lim ng ccm z \<le> length z \<and> (\<forall>b \<in> set (take (utf8_skip lim ng ccm z) z). 32 \<le> b)"
  using assms
proof (induction lim ng ccm z rule: utf8_skip.induct)
  case (1 lim ng ccm z)
  let ?stop = "case lim of None \<Rightarrow> ng = 0 | Some l \<Rightarrow> l \<le> 0"
  show ?case
  proof (cases "?stop \<or> rd z AND 0x80 = 0 \<and> rd z < 0x20 \<or> rd z AND 0x80 \<noteq> 0 \<and> rd z AND 0xc0 \<noteq> 0xc0")
    case True
    have "unat (rd z) < 64" if "rd z < 0x20" using that by (simp add: word_less_nat_alt)
    then have "utf8_skip lim ng ccm z = 0" using True 1(3) by (subst utf8_skip.simps) (auto simp: bit_simps)
    then show ?thesis by simp
  next
    case False
    then have c: "\<not> ?stop" "rd z AND 0x80 = 0 \<Longrightarrow> 32 \<le> rd z" "rd z AND 0x80 \<noteq> 0 \<Longrightarrow> rd z AND 0xc0 = 0xc0" by auto
    show ?thesis
    proof (cases "rd z AND 0x80 = 0")
      case True
      let ?k = "utf8_skip (map_option (\<lambda>l. l - 1) lim) (ng - 1) ccm (tl z)"
      obtain b z' where z: "z = b # z'" "32 \<le> b" using c(2) [OF True] by (cases z) auto
      have k: "utf8_skip lim ng ccm z = 1 + ?k" using c True z by (subst utf8_skip.simps) auto
      have "?k \<le> length (tl z) \<and> (\<forall>b \<in> set (take ?k (tl z)). 32 \<le> b)"
        using 1(1) [OF c(1) True _ 1(3)] c(2) [OF True] by (simp add: linorder_not_less [symmetric])
      with k z show ?thesis by simp
    next
      case False
      show ?thesis
      proof (cases "utf8_trail lim (rd z) 1 (tl z)")
        case None
        then have "utf8_skip lim ng ccm z = 0" using c False by (subst utf8_skip.simps) auto
        then show ?thesis by simp
      next
        case (Some k)
        let ?k = "utf8_skip (map_option (\<lambda>l. l - int k) lim) (ng - 1) ccm (drop k z)"
        obtain b z' where z: "z = b # z'" using False by (cases z) auto
        have "(0xc0 :: byte) \<le> b" using c(3) [OF False] word_and_le2 [of b "0xc0"] z by simp
        then have b: "32 \<le> b" by (rule order_trans [rotated]) simp
        have t: "k - 1 \<le> length z'" "\<forall>b \<in> set (take (k - 1) z'). 128 \<le> b" "1 < k"
          using utf8_trail_bytes [OF Some] utf8_trail_pos [OF Some] z by simp_all
        have e: "utf8_skip lim ng ccm z = k + ?k" using c False Some by (subst utf8_skip.simps) auto
        have ih: "?k \<le> length (drop k z) \<and> (\<forall>b \<in> set (take ?k (drop k z)). 32 \<le> b)"
          using 1(2) [OF c(1) False _ Some 1(3)] c(3) [OF False] by simp
        have "(128 :: byte) \<le> b \<Longrightarrow> 32 \<le> b" for b by (rule order_trans [of 32 128]) simp_all
        then have "\<forall>b \<in> set (take k z). 32 \<le> b" using t b z by (cases k) auto
        then show ?thesis unfolding e using ih t z by (auto simp: take_add)
      qed
    qed
  qed
qed

section \<open>C strings\<close>

lemma bs_loop_plain: "c \<noteq> 92 \<Longrightarrow> bs_loop (c # z) = c # bs_loop z"
  by (cases z) auto

lemma bs_loop_append: "92 \<notin> set u \<Longrightarrow> bs_loop (u @ z) = u @ bs_loop z"
  by (induction u) (auto simp: bs_loop_plain)

lemma resolve_backslashes_eq: "resolve_backslashes z = bs_loop z"
proof -
  have "92 \<notin> set (takeWhile (\<lambda>c. c \<noteq> 92) z)" by (auto dest: set_takeWhileD)
  from bs_loop_append [OF this, of "dropWhile (\<lambda>c. c \<noteq> 92) z"] show ?thesis
    by (simp add: resolve_backslashes_def)
qed

lemma octal_value: "64 * drop_bit 6 c + 8 * (drop_bit 3 c AND 7) + (c AND 7) = c" for c :: byte
proof -
  have m: "w AND 7 = take_bit 3 w" for w :: byte by (simp add: take_bit_eq_mask mask_eq_exp_minus_1)
  have n: "unat (drop_bit 6 c) = unat c div 64" "unat (take_bit 3 (drop_bit 3 c)) = unat c div 8 mod 8"
    "unat (take_bit 3 c) = unat c mod 8"
    by (simp_all add: unat_drop_bit_eq unsigned_take_bit_eq) (simp_all add: drop_bit_eq_div take_bit_eq_mod)
  have "64 * drop_bit 6 c + 8 * take_bit 3 (drop_bit 3 c) + take_bit 3 c =
      word_of_nat (64 * (unat c div 64) + 8 * (unat c div 8 mod 8) + unat c mod 8)"
    by (simp only: of_nat_add of_nat_mult of_nat_numeral n [symmetric] of_nat_unat ucast_id)
  also have "64 * (n div 64) + 8 * (n div 8 mod 8) + n mod 8 = n" for n :: nat
  proof -
    have "8 * (n div 8) + n mod 8 = n" and "8 * (n div 8 div 8) + n div 8 mod 8 = n div 8"
      by (rule mult_div_mod_eq)+
    moreover have "n div 64 = n div 8 div 8" using div_mult2_eq [of n 8 8] by simp
    ultimately show ?thesis by linarith
  qed
  finally show ?thesis by (simp add: m)
qed

lemma octal3_bounds:
  fixes c :: byte
  shows "octal (48 + drop_bit 6 c)" and "octal (48 + (drop_bit 3 c AND 7))" and "octal (48 + (c AND 7))"
    and "48 + drop_bit 6 c \<le> 51"
proof -
  have c: "unat c < 256" using unsigned_less [of c, where 'a = nat] by simp
  have s: "unat (48 + w) = 48 + unat w" if "unat w < 8" for w :: byte
    using that by (simp add: unat_word_ariths)
  have "unat (drop_bit 6 c) = unat c div 64" by (simp add: unat_drop_bit_eq) (simp add: drop_bit_eq_div)
  moreover have "unat (drop_bit 3 c AND 7) \<le> unat (7 :: byte)" "unat (c AND 7) \<le> unat (7 :: byte)"
    using word_and_le1 by (simp_all only: flip: word_le_nat_alt)
  ultimately have d: "unat (drop_bit 6 c) < 4" "unat (drop_bit 3 c AND 7) < 8" "unat (c AND 7) < 8"
    using c by simp_all
  show "octal (48 + drop_bit 6 c)" "octal (48 + (drop_bit 3 c AND 7))" "octal (48 + (c AND 7))" "48 + drop_bit 6 c \<le> 51"
    using d s by (simp_all add: octal_def word_le_nat_alt)
qed

lemma bs_char_octal3: "bs_char (48 + drop_bit 6 c) ((48 + (drop_bit 3 c AND 7)) # (48 + (c AND 7)) # z) = (c, z)"
proof -
  let ?d = "48 + drop_bit 6 c"
  have "w \<notin> {97, 98, 116, 110, 118, 102, 114, 34, 39, 92, 120}" if "octal w" for w :: byte
    using that by (auto simp: octal_def)
  from this [OF octal3_bounds(1) [of c]] have "?d \<notin> {97, 98, 116, 110, 118, 102, 114, 34, 39, 92, 120}" .
  moreover have "push_bit 3 w = 8 * w" for w :: byte by (simp add: push_bit_eq_mult)
  ultimately show ?thesis
    using octal3_bounds [of c] octal_value [of c] by (simp add: bs_char_def bs_octal_def Let_def algebra_simps)
qed

lemma bs_loop_escape: "bs_loop (c_escape c @ z) = c # bs_loop z"
proof -
  consider "c_say c \<noteq> 0" | "c_say c = 0" "\<not> is_print c" | "c_say c = 0" "is_print c" by blast
  then show ?thesis
  proof cases
    case 1
    then show ?thesis by (auto simp: c_escape_def c_say_def bs_char_def split: if_splits)
  next
    case 2
    then have "c_escape c @ z = 92 # (48 + drop_bit 6 c) # (48 + (drop_bit 3 c AND 7)) # (48 + (c AND 7)) # z"
      by (simp add: c_escape_def octal3_def)
    then show ?thesis by (simp add: bs_char_octal3)
  next
    case 3
    then have "c \<noteq> 92" by (auto simp: c_say_def)
    then show ?thesis using 3 by (simp add: c_escape_def bs_loop_plain)
  qed
qed

lemma quoted_arg_plain: "c \<noteq> 34 \<Longrightarrow> c \<noteq> 92 \<Longrightarrow> quoted_arg 34 (c # z) = apfst (Cons c) (quoted_arg 34 z)"
  by (cases z) (auto split: prod.splits)

lemma quoted_arg_append:
  "34 \<notin> set u \<Longrightarrow> 92 \<notin> set u \<Longrightarrow> quoted_arg 34 (u @ z) = apfst (append u) (quoted_arg 34 z)"
  by (induction u) (cases "quoted_arg 34 z"; simp add: quoted_arg_plain)+

lemma quoted_arg_escape: "quoted_arg 34 (c_escape c @ z) = apfst (append (c_escape c)) (quoted_arg 34 z)"
proof -
  consider "c_say c \<noteq> 0" | "c_say c = 0" "\<not> is_print c" | "c_say c = 0" "is_print c" by blast
  then show ?thesis
  proof cases
    case 1
    then show ?thesis by (cases "quoted_arg 34 z") (simp add: c_escape_def)
  next
    case 2
    have "w \<noteq> 34 \<and> w \<noteq> 92" if "octal w" for w using that by (auto simp: octal_def)
    then show ?thesis using 2 octal3_bounds [of c]
      by (cases "quoted_arg 34 z") (simp add: c_escape_def octal3_def quoted_arg_plain)
  next
    case 3
    then have "c \<noteq> 92 \<and> c \<noteq> 34" by (auto simp: c_say_def)
    then show ?thesis using 3 by (cases "quoted_arg 34 z") (simp add: c_escape_def quoted_arg_plain)
  qed
qed

lemma clean_shorter: "e \<le> n \<Longrightarrow> \<forall>b \<in> set (take n z). P b \<Longrightarrow> \<forall>b \<in> set (take e z). P b"
  using set_take_mono by fastforce

lemma c_loop_step:
  assumes "z \<noteq> []"
  obtains u where "z = u" "c_loop z = u" "34 \<notin> set u" "92 \<notin> set u" "\<forall>b \<in> set u. 32 \<le> b"
  | u c r where "z = u @ c # r" "c_loop z = u @ c_escape c @ c_loop r" "34 \<notin> set u" "92 \<notin> set u" "\<forall>b \<in> set u. 32 \<le> b"
proof -
  let ?past = "zSkipValidUtf8 z 2147483647 (-1)"
  let ?e = "plain_end (anyOfInStr z [34, 92, 0x7f] (length z)) ?past"
  have no: "34 \<notin> set (take ?e z)" "92 \<notin> set (take ?e z)" by (simp_all add: plain_end_clean)
  have "?e \<le> ?past" by (cases "anyOfInStr z [34, 92, 0x7f] (length z)") (simp_all add: plain_end_def)
  moreover have "\<forall>b \<in> set (take ?past z). 32 \<le> b"
    using utf8_skip_clean [OF refl, of "Some 2147483647" 0 z] by (simp add: zSkipValidUtf8_def)
  ultimately have p: "\<forall>b \<in> set (take ?e z). 32 \<le> b" by (rule clean_shorter)
  have c: "c_loop z = take ?e z @ (case drop ?e z of [] \<Rightarrow> [] | c # r \<Rightarrow> c_escape c @ c_loop r)"
    using assms by (subst c_loop.simps) (simp add: Let_def)
  show ?thesis
  proof (cases "drop ?e z")
    case Nil
    then have "take ?e z = z" by simp
    then show ?thesis using that(1) [of z] no p c Nil by simp
  next
    case (Cons d r)
    then have "z = take ?e z @ d # r" by (metis append_take_drop_id)
    then show ?thesis using that(2) [OF _ _ no p] c Cons by simp
  qed
qed

lemma c_loop_read:
  "bs_loop (c_loop z) = z \<and> quoted_arg 34 (c_loop z @ 34 # rest) = (c_loop z, rest) \<and> (\<forall>b \<in> set (c_loop z). 32 \<le> b)"
proof (induction "length z" arbitrary: z rule: less_induct)
  case less
  have q: "quoted_arg 34 (34 # rest) = ([], rest)" by (cases rest) auto
  show ?case
  proof (cases "z = []")
    case True
    then show ?thesis using q by (simp add: c_loop.simps)
  next
    case False
    then show ?thesis
    proof (cases rule: c_loop_step)
      case (1 u)
      then show ?thesis using bs_loop_append [of u "[]"] quoted_arg_append [of u "34 # rest"] q by simp
    next
      case (2 u c r)
      have ih: "bs_loop (c_loop r) = r" "quoted_arg 34 (c_loop r @ 34 # rest) = (c_loop r, rest)" "\<forall>b \<in> set (c_loop r). 32 \<le> b"
        using less [of r] 2(1) by simp_all
      have "32 \<le> w" if "octal w" for w using that by (auto simp: octal_def intro: order_trans [rotated])
      then have "\<forall>b \<in> set (c_escape c). 32 \<le> b" using octal3_bounds [of c]
        by (auto simp: c_escape_def octal3_def c_say_def is_print_def)
      then show ?thesis using 2 ih bs_loop_append [OF 2(4)] quoted_arg_append [OF 2(3,4)]
        by (auto simp: bs_loop_escape quoted_arg_escape)
    qed
  qed
qed

text \<open>The arguments of a command line made of printed C strings.\<close>

lemma meta_tokens_printed:
  assumes "length zs \<le> n" and "\<forall>z \<in> set zs. 0 \<notin> set z"
  shows "meta_tokens n (concat (map (\<lambda>z. 32 # output_c_string z) zs)) = zs"
  using assms
proof (induction zs arbitrary: n)
  case Nil
  then show ?case by (simp add: meta_tokens.simps)
next
  case (Cons z zs)
  let ?rest = "concat (map (\<lambda>z. 32 # output_c_string z) zs)"
  have "c_text z = z" using Cons.prems(2) by (auto simp: c_text_def takeWhile_eq_all_conv)
  moreover have "is_space 32" "\<not> is_space 34" by (simp_all add: is_space_def)
  moreover have "quoted_arg 34 (c_loop z @ 34 # ?rest) = (c_loop z, ?rest)" "bs_loop (c_loop z) = z"
    using c_loop_read by blast+
  moreover have "meta_tokens (n - 1) ?rest = zs" using Cons by simp
  ultimately show ?case using Cons.prems(1)
    by (subst meta_tokens.simps) (simp add: output_c_string_def resolve_backslashes_eq)
qed

section \<open>JSON strings\<close>

text \<open>The reader of a JSON string after its opening quote; a \<open>\u\<close> escape is read for ASCII only.\<close>

definition json_u :: "byte list \<Rightarrow> byte option" where
  "json_u h =
     (let n = foldl (\<lambda>n c. 16 * n + hexDigitValue c) 0 h
      in if length h = 4 \<and> (\<forall>c \<in> set h. 0 \<le> hexDigitValue c) \<and> n < 128 then Some (word_of_int n) else None)"

definition json_unescape :: "byte \<Rightarrow> byte option" where
  "json_unescape c =
     (if c = 34 \<or> c = 92 \<or> c = 47 then Some c else if c = 98 then Some 8 else if c = 102 then Some 12
      else if c = 110 then Some 10 else if c = 114 then Some 13 else if c = 116 then Some 9 else None)"

function json_string :: "byte list \<Rightarrow> (byte list \<times> byte list) option" where
  "json_string [] = None"
| "json_string (b # z) =
     (if b = 34 then Some ([], z)
      else if b < 32 then None
      else if b \<noteq> 92 then map_option (apfst (Cons b)) (json_string z)
      else if rd z = 117
      then (case json_u (take 4 (tl z)) of
              None \<Rightarrow> None
            | Some c \<Rightarrow> map_option (apfst (Cons c)) (json_string (drop 4 (tl z))))
      else (case json_unescape (rd z) of
              None \<Rightarrow> None
            | Some c \<Rightarrow> map_option (apfst (Cons c)) (json_string (tl z))))"
  by pat_completeness auto

termination json_string
  by (relation "measure length") auto

text \<open>Well-formed UTF-8: each byte of two or more that start a character is followed by the right number of
  continuation bytes.\<close>

definition conts :: "byte list \<Rightarrow> bool" where
  "conts u \<longleftrightarrow> (\<forall>b \<in> set u. b AND 0xc0 = 0x80)"

definition lead_trail :: "byte \<Rightarrow> nat \<Rightarrow> bool" where
  "lead_trail b n \<longleftrightarrow> b AND 0xe0 = 0xc0 \<and> n = 1 \<or> b AND 0xf0 = 0xe0 \<and> n = 2 \<or> b AND 0xf8 = 0xf0 \<and> n = 3"

inductive utf8_text :: "byte list \<Rightarrow> bool" where
  nil: "utf8_text []"
| ascii: "b < 128 \<Longrightarrow> utf8_text z \<Longrightarrow> utf8_text (b # z)"
| multi: "lead_trail b (length u) \<Longrightarrow> conts u \<Longrightarrow> utf8_text z \<Longrightarrow> utf8_text (b # u @ z)"

lemma bit6: "w AND 0x40 = 0x40 \<longleftrightarrow> bit w 6" for w :: byte
proof
  assume "w AND 0x40 = 0x40"
  then have "bit (w AND 0x40) 6 = bit (0x40 :: byte) 6" by simp
  then show "bit w 6" by (simp add: bit_simps)
next
  assume "bit w 6"
  then show "w AND 0x40 = 0x40" by (intro byte_eqI) (auto simp: bit_simps)
qed

lemma lead_bits:
  assumes "lead_trail b n"
  shows "bit b 7 \<and> bit b 6 \<and> n = (if \<not> bit b 5 then 1 else if \<not> bit b 4 then 2 else 3) \<and> (n = 3 \<longrightarrow> \<not> bit b 3)"
proof -
  have bits: "bit b k = bit y k" if "b AND x = y" "bit x k" for x y k
    using that by (metis bit_and_iff)
  from assms show ?thesis unfolding lead_trail_def
  proof (elim disjE conjE)
    assume h: "b AND 0xe0 = 0xc0" and n: "n = 1"
    show ?thesis using bits [OF h, of 7] bits [OF h, of 6] bits [OF h, of 5] n by simp
  next
    assume h: "b AND 0xf0 = 0xe0" and n: "n = 2"
    show ?thesis using bits [OF h, of 7] bits [OF h, of 6] bits [OF h, of 5] bits [OF h, of 4] n by simp
  next
    assume h: "b AND 0xf8 = 0xf0" and n: "n = 3"
    show ?thesis using bits [OF h, of 7] bits [OF h, of 6] bits [OF h, of 5] bits [OF h, of 4] bits [OF h, of 3] n by simp
  qed
qed

lemma push_bits:
  fixes c :: byte
  shows "bit (push_bit 1 c) 6 = bit c 5" and "bit (push_bit 1 c) 5 = bit c 4" and "bit (push_bit 1 c) 4 = bit c 3"
  by (simp_all only: bit_push_bit_iff) simp_all

lemma utf8_trail_step:
  assumes "v AND 0xc0 = 0x80" and "int k < l" and "k < 4"
  shows "utf8_trail (Some l) c k (v # z) = (if bit c 5 then utf8_trail (Some l) (push_bit 1 c) (k + 1) z else Some (k + 1))"
proof -
  have "v \<noteq> 0" using assms(1) by auto
  moreover have "bit (push_bit 1 c) 6 = bit c 5" by (rule push_bits)
  ultimately show ?thesis using assms by (subst utf8_trail.simps) (simp add: bit6)
qed

lemma utf8_trail_lead:
  assumes "lead_trail b (length u)" and "conts u" and "1 + int (length u) \<le> l"
  shows "utf8_trail (Some l) b 1 (u @ z) = Some (1 + length u)"
proof -
  have n: "length u = (if \<not> bit b 5 then 1 else if \<not> bit b 4 then 2 else 3)" and h3: "length u = 3 \<longrightarrow> \<not> bit b 3"
    using lead_bits [OF assms(1)] by auto
  have c: "v AND 0xc0 = 0x80" if "v \<in> set u" for v using assms(2) that by (simp add: conts_def)
  consider "\<not> bit b 5" | "bit b 5" "\<not> bit b 4" | "bit b 5" "bit b 4" by blast
  then show ?thesis
  proof cases
    case 1
    then obtain v where u: "u = [v]" using n by (auto simp: length_Suc_conv)
    have "utf8_trail (Some l) b 1 (v # z) = Some (1 + 1)"
      using utf8_trail_step [OF c, of v 1 l b z] u 1 assms(3) by simp
    then show ?thesis using u by simp
  next
    case 2
    then obtain v w where u: "u = [v, w]" using n by (auto simp: length_Suc_conv numeral_2_eq_2)
    have "utf8_trail (Some l) b 1 (v # w # z) = utf8_trail (Some l) (push_bit 1 b) (1 + 1) (w # z)"
      using utf8_trail_step [OF c, of v 1 l b "w # z"] u 2 assms(3) by (simp only: if_True) simp
    also have "\<dots> = Some (1 + 1 + 1)"
      using utf8_trail_step [OF c, of w "1 + 1" l "push_bit 1 b" z] u 2 assms(3) push_bits(2) [of b] by (simp only: if_False) simp
    finally show ?thesis using u by simp
  next
    case 3
    then obtain v w x where u: "u = [v, w, x]" using n by (auto simp: length_Suc_conv numeral_3_eq_3)
    have "utf8_trail (Some l) b 1 (v # w # x # z) = utf8_trail (Some l) (push_bit 1 b) (1 + 1) (w # x # z)"
      using utf8_trail_step [OF c, of v 1 l b "w # x # z"] u 3 assms(3) by (simp only: if_True) simp
    also have "\<dots> = utf8_trail (Some l) (push_bit 1 (push_bit 1 b)) (1 + 1 + 1) (x # z)"
      using utf8_trail_step [OF c, of w "1 + 1" l "push_bit 1 b" "x # z"] u 3 assms(3) push_bits(2) [of b] by (simp only: if_True) simp
    also have "\<dots> = Some (1 + 1 + 1 + 1)"
      using utf8_trail_step [OF c, of x "1 + 1 + 1" l "push_bit 1 (push_bit 1 b)" z] u n h3 3 assms(3)
        push_bits(2) [of "push_bit 1 b"] push_bits(3) [of b] by (simp only: if_False) simp
    finally show ?thesis using u by simp
  qed
qed

lemma bit7: "bit b 7 \<longleftrightarrow> 128 \<le> b" for b :: byte
proof -
  have "unat b < 256" using unsigned_less [of b, where 'a = nat] by simp
  then have "unat b div 128 = (if 128 \<le> unat b then 1 else 0)" by auto
  moreover have "bit b 7 = odd (unat b div 2 ^ 7)"
    by (metis bit_iff_odd bit_unsigned_iff possible_bit_nat)
  ultimately show ?thesis by (simp add: word_le_nat_alt)
qed

lemma ascii_bit: "b AND 0x80 = 0 \<longleftrightarrow> b < 128" for b :: byte
  using and_exp_eq_0_iff_not_bit [of b 7] bit7 [of b] by auto

lemma utf8_skip_text:
  assumes "utf8_text z"
  shows "utf8_skip (Some (int (length z))) 0 (-1) z = length z \<or>
     (let k = utf8_skip (Some (int (length z))) 0 (-1) z in k < length z \<and> z ! k < 32)"
  using assms
proof (induction z)
  case nil
  then show ?case by (simp add: utf8_skip.simps)
next
  case (ascii b z)
  have "unat b < 64" if "b < 32" using that by (simp add: word_less_nat_alt)
  then have "utf8_skip (Some (int (length (b # z)))) 0 (-1) (b # z) =
      (if b < 32 then 0 else 1 + utf8_skip (Some (int (length z))) 0 (-1) z)"
    using ascii(1) by (subst utf8_skip.simps) (auto simp: ascii_bit bit_simps)
  then show ?case using ascii(3) by (auto simp: Let_def)
next
  case (multi b u z)
  have b: "bit b 7" "bit b 6" using lead_bits [OF multi(1)] by simp_all
  have "b AND 0x80 \<noteq> 0" using b(1) by (simp add: ascii_bit bit7)
  moreover have "b AND 0xc0 = 0xc0" using b by (intro byte_eqI) (auto simp: bit_simps)
  moreover have "utf8_trail (Some (int (length (b # u @ z)))) b 1 (u @ z) = Some (1 + length u)"
    by (rule utf8_trail_lead [OF multi(1,2)]) simp
  ultimately have "utf8_skip (Some (int (length (b # u @ z)))) 0 (-1) (b # u @ z) =
      1 + length u + utf8_skip (Some (int (length z))) 0 (-1) z"
    by (subst utf8_skip.simps) simp
  then show ?case using multi(4) by (auto simp: Let_def nth_append)
qed

lemma utf8_text_after:
  assumes "utf8_text x" and "x = u @ c # r" and "c < 128"
  shows "utf8_text r"
  using assms
proof (induction x arbitrary: u)
  case (ascii b z)
  then show ?case by (cases u) auto
next
  case (multi b v z)
  have hi: "c \<noteq> b" "c \<notin> set v"
    using multi(2,6) lead_bits [OF multi(1)] high_byte by (fastforce simp: conts_def bit7)+
  then obtain u' where "u = b # u'" "v @ z = u' @ c # r" using multi(5) by (cases u) auto
  then obtain w where "z = w @ c # r" using hi(2) by (auto simp: append_eq_append_conv2 append_eq_Cons_conv)
  then show ?case using multi(4) multi(6) by blast
qed simp

lemma memchr_at: "memchr s c n = Some i \<Longrightarrow> i < length s \<and> s ! i = c"
proof (induction s c n arbitrary: i rule: memchr.induct)
  case (2 b z c n)
  then show ?case by (cases i) (auto split: if_splits)
qed simp

lemma any_loop_at: "any_loop s zAny ns pf = Some i \<Longrightarrow> pf = Some i \<or> i < length s \<and> s ! i \<in> set zAny"
proof (induction s zAny ns pf rule: any_loop.induct)
  case (2 s c zAny ns pf)
  then show ?case using memchr_at [of s c ns] by (auto split: option.splits)
qed simp

lemma json_loop_step:
  assumes "utf8_text z" and "z \<noteq> []" and "length z < 2 ^ 31"
  obtains u where "z = u" "json_loop z = u" "34 \<notin> set u" "92 \<notin> set u" "\<forall>b \<in> set u. 32 \<le> b"
  | u c r where "z = u @ c # r" "json_loop z = u @ json_escape c @ json_loop r" "34 \<notin> set u" "92 \<notin> set u"
      "\<forall>b \<in> set u. 32 \<le> b" "c = 34 \<or> c = 92 \<or> c < 32" "utf8_text r"
proof -
  let ?past = "utf8_skip (Some (int (length z))) 0 (-1) z"
  let ?pc = "anyOfInStr z [34, 92] (length z)"
  let ?e = "plain_end ?pc ?past"
  have no: "34 \<notin> set (take ?e z)" "92 \<notin> set (take ?e z)" by (simp_all add: plain_end_clean)
  have "?e \<le> ?past" by (cases ?pc) (simp_all add: plain_end_def)
  moreover have "\<forall>b \<in> set (take ?past z). 32 \<le> b" using utf8_skip_clean [OF refl] by blast
  ultimately have p: "\<forall>b \<in> set (take ?e z). 32 \<le> b" by (rule clean_shorter)
  have "zSkipValidUtf8 z (int32 (int (length z))) (-1) = ?past"
    using assms(3) by (simp add: zSkipValidUtf8_def int32_id)
  then have c: "json_loop z = take ?e z @ (case drop ?e z of [] \<Rightarrow> [] | c # r \<Rightarrow> json_escape c @ json_loop r)"
    using assms(2) by (subst json_loop.simps) (simp add: Let_def)
  show ?thesis
  proof (cases "drop ?e z")
    case Nil
    then have "take ?e z = z" by simp
    then show ?thesis using that(1) [of z] no p c Nil by simp
  next
    case (Cons d r)
    then have z: "z = take ?e z @ d # r" by (metis append_take_drop_id)
    have "?e < length z" using Cons by (metis drop_all not_less list.distinct(1))
    then have d: "d = z ! ?e" using Cons by (metis Cons_nth_drop_Suc list.inject)
    have "d = 34 \<or> d = 92 \<or> d < 32"
    proof (cases "?e = ?past")
      case True
      then show ?thesis using utf8_skip_text [OF assms(1)] d \<open>?e < length z\<close> by (auto simp: Let_def)
    next
      case False
      then obtain i where "?pc = Some i" "?e = i" by (cases ?pc) (auto simp: plain_end_def split: if_splits)
      then show ?thesis using any_loop_at [of z "[34, 92]" "length z" None i] d by (auto simp: anyOfInStr_def)
    qed
    moreover have "d < 32 \<Longrightarrow> d < 128" by (rule less_trans [of d 32 128]) simp_all
    then have "utf8_text r" using utf8_text_after [OF assms(1) z] calculation by auto
    ultimately show ?thesis using that(2) [OF z _ no p] c Cons by simp
  qed
qed

lemma json_string_append:
  assumes "34 \<notin> set u" and "92 \<notin> set u" and "\<forall>b \<in> set u. 32 \<le> b"
  shows "json_string (u @ x) = map_option (apfst (append u)) (json_string x)"
  using assms
proof (induction u)
  case Nil
  then show ?case by (cases "json_string x") auto
next
  case (Cons b u)
  then have "\<not> b < 32" by (simp add: linorder_not_less)
  with Cons show ?case by (cases "json_string x") auto
qed

lemma json_string_escape:
  assumes "json_say c \<noteq> 0"
  shows "json_string (json_escape c @ x) = map_option (apfst (Cons c)) (json_string x)"
  using assms by (auto simp: json_escape_def json_say_def json_unescape_def split: if_splits)

lemma json_read:
  assumes "utf8_text z" and "length z < 2 ^ 31" and "\<forall>b \<in> set z. b < 32 \<longrightarrow> b \<in> {8, 9, 10, 12, 13}"
  shows "json_string (json_loop z @ 34 # rest) = Some (z, rest)"
  using assms
proof (induction "length z" arbitrary: z rule: less_induct)
  case less
  show ?case
  proof (cases "z = []")
    case True
    then show ?thesis by (simp add: json_loop.simps)
  next
    case False
    with less.prems(1) show ?thesis using less.prems(2)
    proof (cases rule: json_loop_step)
      case (1 u)
      then show ?thesis using json_string_append [OF 1(3-5), of "34 # rest"] by simp
    next
      case (2 u c r)
      have "json_string (json_loop r @ 34 # rest) = Some (r, rest)"
        using less.hyps [of r] 2(1,7) less.prems(2,3) by simp
      moreover have "json_say c \<noteq> 0" using 2(1,6) less.prems(3) by (auto simp: json_say_def)
      ultimately show ?thesis using 2(1,2) json_string_append [OF 2(3-5)] by (simp add: json_string_escape)
    qed
  qed
qed

section \<open>HTML\<close>

lemma html_loop_eq: "html_loop z = concat (map (\<lambda>c. if html_special c then html_escape c else [c]) z)"
proof (induction z rule: html_loop.induct)
  case (1 z)
  let ?f = "\<lambda>c. if html_special c then html_escape c else [c]"
  let ?a = "takeWhile (\<lambda>c. \<not> html_special c) z"
  have u: "concat (map ?f u) = u" if "\<forall>c \<in> set u. \<not> html_special c" for u using that by (induction u) auto
  have "\<forall>c \<in> set ?a. \<not> html_special c" by (blast dest: set_takeWhileD)
  then have a: "concat (map ?f ?a) = ?a" by (rule u)
  show ?case
  proof (cases "dropWhile (\<lambda>c. \<not> html_special c) z")
    case Nil
    then have z: "?a = z" by (metis append_Nil2 takeWhile_dropWhile_id)
    have "html_loop z = ?a" by (subst html_loop.simps) (simp only: Nil list.case append_Nil2)
    with a z show ?thesis by metis
  next
    case (Cons c r)
    then have "html_special c" using hd_dropWhile [of "\<lambda>c. \<not> html_special c" z] by simp
    moreover have "?a @ c # r = z" using takeWhile_dropWhile_id [of "\<lambda>c. \<not> html_special c" z] Cons by simp
    then have "concat (map ?f z) = concat (map ?f (?a @ c # r))" by (simp only:)
    then have "concat (map ?f z) = ?a @ concat (map ?f (c # r))" by (simp only: map_append concat_append a)
    moreover have "html_loop z = ?a @ html_escape c @ html_loop r" by (subst html_loop.simps) (simp only: Cons list.case)
    ultimately show ?thesis using 1 [OF Cons] by simp
  qed
qed

text \<open>The printed HTML has no markup characters left.\<close>

lemma html_no_markup: "60 \<notin> set (output_html_string zo) \<and> 62 \<notin> set (output_html_string zo) \<and> 34 \<notin> set (output_html_string zo)"
  by (auto simp: output_html_string_def html_loop_eq html_special_def html_escape_def bytes_of_def split: if_splits)

section \<open>Properties\<close>

text \<open>The C strings the shell prints are read back by its own command line: a line of any texts printed as C
  strings, each after a space, is split into exactly these texts (up to 51 of them), whatever quotes,
  backslashes, control characters or invalid UTF-8 they contain; and what is printed has no control
  characters, so that it is one line.\<close>

theorem c_strings_are_arguments:
  assumes "\<forall>z \<in> set zs. 0 \<notin> set z" and "length zs \<le> azArg_max"
  shows "meta_tokens azArg_max (concat (map (\<lambda>z. 32 # output_c_string z) zs)) = zs \<and>
     (\<forall>z \<in> set zs. \<forall>b \<in> set (output_c_string z). 32 \<le> b)"
  using meta_tokens_printed [OF assms(2,1)] c_loop_read by (auto simp: output_c_string_def)

theorem c_strings_are_arguments_witness:
  "meta_tokens azArg_max (concat (map (\<lambda>z. 32 # output_c_string z) [[34, 92, 49], [10, 0xff, 49, 32]])) =
     [[34, 92, 49], [10, 0xff, 49, 32]]"
  using c_strings_are_arguments [of "[[34, 92, 49], [10, 0xff, 49, 32]]"] by (simp add: azArg_max_def)

text \<open>C10: A well-formed UTF-8 text whose only control characters are backspace, tab, line feed, form feed and
  carriage return is printed as a JSON string that a JSON reader turns back into the text.\<close>

theorem json_string_reads_back:
  assumes "utf8_text z" and "length z < 2 ^ 31" and "\<forall>b \<in> set z. b < 32 \<longrightarrow> b \<in> {8, 9, 10, 12, 13}"
  shows "\<exists>s. output_json_string (Some z) (int (length z)) = 34 # s \<and> json_string (s @ rest) = Some (z, rest)"
  using json_read [OF assms] by (simp add: output_json_string_def)

theorem json_string_reads_back_witness:
  "\<exists>s. output_json_string (Some [34, 10, 0xc3, 0xa9]) 4 = 34 # s \<and> json_string (s @ []) = Some ([34, 10, 0xc3, 0xa9], [])"
proof -
  have "utf8_text (0xc3 # [0xa9] @ [])" by (rule utf8_text.multi) (auto simp: lead_trail_def conts_def intro: utf8_text.nil)
  then have "utf8_text [0xc3, 0xa9]" by simp
  from utf8_text.ascii [of 34, OF _ utf8_text.ascii [of 10, OF _ this]] have "utf8_text [34, 10, 0xc3, 0xa9]" by simp
  then show ?thesis using json_string_reads_back [of "[34, 10, 0xc3, 0xa9]" "[]"] by simp
qed

text \<open>Any other control character loses its escape: the backslash before \<open>u\<close> is missing.  A byte that is not
  valid UTF-8 counts as negative and is printed the same way.\<close>

lemma json_control_lost:
  "output_json_string (Some [1]) 1 = bytes_of [CHR 34, CHR ''u'', CHR ''0'', CHR ''0'', CHR ''0'', CHR ''1'', CHR 34] \<and>
   output_json_string (Some [0x80]) 1 = bytes_of ([CHR 34] @ ''uffffff80'' @ [CHR 34])"
  by (simp add: output_json_string_def json_loop.simps utf8_skip.simps zSkipValidUtf8_def anyOfInStr_def plain_end_def
      json_escape_def json_say_def hex4_def hex_digits.simps hex_digit_def bytes_of_def int32_def word_sle_eq numeral_3_eq_3)

end
