(* ===== verification/Bitvec.thy ===== *)
theory Bitvec
  imports Bytes
begin

text \<open>
  The bitmaps of \<open>sqlite3.c\<close> (\<open>bitvec.c\<close>): sets of page numbers kept as a bit array, as a hash table with
  open addressing, or as an array of smaller bitmaps, with the sizes of a machine with 8-byte pointers.  The
  values of type \<open>u32\<close> are natural numbers, with the wrap-around written where it can occur.  The members of the
  union are the constructors of \<open>bv_union\<close>; \<open>None\<close> is an access to the wrong member, an index out of bounds or
  a loop that does not end, all proved not to happen.  The allocator is a list of its answers; when the list is
  used up it succeeds.
\<close>

section \<open>Structure\<close>

definition BITVEC_SZ :: nat where "BITVEC_SZ = 512"

definition BITVEC_USIZE :: nat where "BITVEC_USIZE = (BITVEC_SZ - 3 * 4) div 8 * 8"

definition BITVEC_SZELEM :: nat where "BITVEC_SZELEM = 8"

definition BITVEC_NELEM :: nat where "BITVEC_NELEM = BITVEC_USIZE div 1"

definition BITVEC_NBIT :: nat where "BITVEC_NBIT = BITVEC_NELEM * BITVEC_SZELEM"

definition BITVEC_NINT :: nat where "BITVEC_NINT = BITVEC_USIZE div 4"

definition BITVEC_MXHASH :: nat where "BITVEC_MXHASH = BITVEC_NINT div 2"

definition BITVEC_HASH :: "nat \<Rightarrow> nat" where "BITVEC_HASH x = (x * 1) mod BITVEC_NINT"

definition BITVEC_NPTR :: nat where "BITVEC_NPTR = BITVEC_USIZE div 8"

lemmas bitvec_consts = BITVEC_SZ_def BITVEC_USIZE_def BITVEC_SZELEM_def BITVEC_NELEM_def BITVEC_NBIT_def BITVEC_NINT_def
  BITVEC_MXHASH_def BITVEC_NPTR_def

datatype Bitvec = Bitvec (iSize: nat) (nSet: nat) (iDivisor: nat) (bv_u: bv_union)
  and bv_union = ABitmap "byte list" | AHash "nat list" | ApSub "Bitvec option list"

type_synonym allocator = "bool list"

definition bv_malloc :: "allocator \<Rightarrow> bool \<times> allocator" where
  "bv_malloc al = (case al of [] \<Rightarrow> (True, []) | ok # al' \<Rightarrow> (ok, al'))"

text \<open>A zeroed object; which member of the union the zeros are read as follows from \<open>iSize\<close>.\<close>

definition bv_zero :: "nat \<Rightarrow> Bitvec" where
  "bv_zero n = Bitvec n 0 0 (if n \<le> BITVEC_NBIT then ABitmap (replicate BITVEC_NELEM 0) else AHash (replicate BITVEC_NINT 0))"

definition sqlite3BitvecCreate :: "allocator \<Rightarrow> nat \<Rightarrow> Bitvec option \<times> allocator" where
  "sqlite3BitvecCreate al n = (case bv_malloc al of (ok, al') \<Rightarrow> (if ok then Some (bv_zero n) else None, al'))"

section \<open>Testing\<close>

text \<open>The loop over the hash table.\<close>

partial_function (option) hash_test :: "nat list \<Rightarrow> nat \<Rightarrow> nat \<Rightarrow> bool option" where
  "hash_test aHash i h =
     (if h \<ge> length aHash then None
      else if aHash ! h = 0 then Some False
      else if aHash ! h = i then Some True
      else hash_test aHash i ((h + 1) mod BITVEC_NINT))"

definition leaf_test :: "Bitvec \<Rightarrow> nat \<Rightarrow> bool option" where
  "leaf_test p i =
     (case bv_u p of
        ABitmap b \<Rightarrow>
          (if iSize p \<le> BITVEC_NBIT \<and> i div BITVEC_SZELEM < length b
           then Some (b ! (i div BITVEC_SZELEM) AND push_bit (i mod 8) 1 \<noteq> 0) else None)
      | AHash a \<Rightarrow> if iSize p \<le> BITVEC_NBIT then None else hash_test a (i + 1) (BITVEC_HASH i)
      | ApSub ps \<Rightarrow> None)"

text \<open>The sub-bitmap for \<open>i\<close>: \<open>None\<close> for a bad access, \<open>Some None\<close> for the null pointer.\<close>

definition sub_at :: "Bitvec \<Rightarrow> nat \<Rightarrow> Bitvec option option" where
  "sub_at p i =
     (case bv_u p of
        ApSub ps \<Rightarrow> if i div iDivisor p < length ps then Some (ps ! (i div iDivisor p)) else None
      | _ \<Rightarrow> None)"

partial_function (option) test_loop :: "Bitvec \<Rightarrow> nat \<Rightarrow> bool option" where
  "test_loop p i =
     (if iDivisor p \<noteq> 0
      then (case sub_at p i of
              None \<Rightarrow> None
            | Some None \<Rightarrow> Some False
            | Some (Some q) \<Rightarrow> test_loop q (i mod iDivisor p))
      else leaf_test p i)"

definition dec32 :: "nat \<Rightarrow> nat" where
  "dec32 i = (i + 2 ^ 32 - 1) mod 2 ^ 32"

definition sqlite3BitvecTestNotNull :: "Bitvec \<Rightarrow> nat \<Rightarrow> bool option" where
  "sqlite3BitvecTestNotNull p i = (if dec32 i \<ge> iSize p then Some False else test_loop p (dec32 i))"

definition sqlite3BitvecTest :: "Bitvec option \<Rightarrow> nat \<Rightarrow> bool option" where
  "sqlite3BitvecTest po i = (case po of None \<Rightarrow> Some False | Some p \<Rightarrow> sqlite3BitvecTestNotNull p i)"

section \<open>Setting\<close>

definition SQLITE_NOMEM :: int where "SQLITE_NOMEM = 7"

text \<open>The loop after a collision: \<open>Some None\<close> if \<open>i\<close> is found, \<open>Some (Some h)\<close> for a free entry \<open>h\<close>.\<close>

partial_function (option) hash_probe :: "nat list \<Rightarrow> nat \<Rightarrow> nat \<Rightarrow> nat option option" where
  "hash_probe aHash i h =
     (if h \<ge> length aHash then None
      else if aHash ! h = i then Some None
      else (let h1 = (if h + 1 \<ge> BITVEC_NINT then 0 else h + 1) in
            if h1 \<ge> length aHash then None
            else if aHash ! h1 \<noteq> 0 then hash_probe aHash i h1 else Some (Some h1)))"

text \<open>What a hash table does with the value \<open>i\<close> (already increased).\<close>

datatype hash_step = H_Found | H_Store nat | H_Rehash

definition hash_step :: "nat \<Rightarrow> nat list \<Rightarrow> nat \<Rightarrow> hash_step option" where
  "hash_step nset aHash i =
     (let h = BITVEC_HASH (i - 1) in
      if h \<ge> length aHash then None
      else if aHash ! h = 0
      then Some (if nset < BITVEC_NINT - 1 then H_Store h else if nset \<ge> BITVEC_MXHASH then H_Rehash else H_Store h)
      else (case hash_probe aHash i h of
              None \<Rightarrow> None
            | Some None \<Rightarrow> Some H_Found
            | Some (Some h1) \<Rightarrow> Some (if nset \<ge> BITVEC_MXHASH then H_Rehash else H_Store h1)))"

definition set_sub :: "Bitvec \<Rightarrow> nat \<Rightarrow> Bitvec option \<Rightarrow> Bitvec" where
  "set_sub p bin q =
     (case bv_u p of ApSub ps \<Rightarrow> Bitvec (iSize p) (nSet p) (iDivisor p) (ApSub (ps[bin := q])) | _ \<Rightarrow> p)"

text \<open>The bitmap emptied for rehashing.\<close>

definition rehash_start :: "Bitvec \<Rightarrow> Bitvec" where
  "rehash_start p =
     Bitvec (iSize p) (nSet p) ((iSize p + BITVEC_NPTR - 1) div BITVEC_NPTR) (ApSub (replicate BITVEC_NPTR None))"

text \<open>Setting in a bitmap without sub-bitmaps: \<open>Inl\<close> the result, \<open>Inr\<close> the values to set after the rehashing.\<close>

definition leaf_set ::
  "allocator \<Rightarrow> Bitvec \<Rightarrow> nat \<Rightarrow> (int \<times> Bitvec \<times> allocator + allocator \<times> Bitvec \<times> nat list) option" where
  "leaf_set al p i =
     (case bv_u p of
        ABitmap b \<Rightarrow>
          (if iSize p \<le> BITVEC_NBIT \<and> i div BITVEC_SZELEM < length b
           then Some (Inl (0, Bitvec (iSize p) (nSet p) (iDivisor p)
                  (ABitmap (b[i div BITVEC_SZELEM := b ! (i div BITVEC_SZELEM) OR push_bit (i mod 8) 1])), al))
           else None)
      | AHash a \<Rightarrow>
          (if iSize p \<le> BITVEC_NBIT then None
           else (case hash_step (nSet p) a (i + 1) of
                   None \<Rightarrow> None
                 | Some H_Found \<Rightarrow> Some (Inl (0, p, al))
                 | Some (H_Store h) \<Rightarrow>
                     Some (Inl (0, Bitvec (iSize p) (nSet p + 1) (iDivisor p) (AHash (a[h := i + 1])), al))
                 | Some H_Rehash \<Rightarrow>
                     (case bv_malloc al of
                        (False, al1) \<Rightarrow> Some (Inl (SQLITE_NOMEM, p, al1))
                      | (True, al1) \<Rightarrow> Some (Inr (al1, rehash_start p, (i + 1) # filter (\<lambda>v. v \<noteq> 0) a)))))
      | ApSub ps \<Rightarrow> None)"

text \<open>\<open>sqlite3BitvecSet\<close> for a list of values (as the rehashing does it): the result codes are combined.\<close>

partial_function (option) set_values :: "allocator \<Rightarrow> Bitvec \<Rightarrow> nat list \<Rightarrow> (int \<times> Bitvec \<times> allocator) option" where
  "set_values al p is =
     (case is of
        [] \<Rightarrow> Some (0, p, al)
      | i1 # rest \<Rightarrow>
          Option.bind
            (let i = i1 - 1 in
             if iSize p > BITVEC_NBIT \<and> iDivisor p \<noteq> 0
             then (case sub_at p i of
                     None \<Rightarrow> None
                   | Some qo \<Rightarrow>
                       (case (case qo of None \<Rightarrow> sqlite3BitvecCreate al (iDivisor p) | Some q \<Rightarrow> (Some q, al)) of
                          (None, al1) \<Rightarrow> Some (SQLITE_NOMEM, p, al1)
                        | (Some q, al1) \<Rightarrow>
                            Option.bind (set_values al1 q [i mod iDivisor p + 1])
                              (\<lambda>(rc, q1, al2). Some (rc, set_sub p (i div iDivisor p) (Some q1), al2))))
             else (case leaf_set al p i of
                     None \<Rightarrow> None
                   | Some (Inl r) \<Rightarrow> Some r
                   | Some (Inr (al1, p1, values)) \<Rightarrow> set_values al1 p1 values))
            (\<lambda>(rc, p1, al1). Option.bind (set_values al1 p1 rest) (\<lambda>(rc1, p2, al2). Some (rc OR rc1, p2, al2))))"

definition sqlite3BitvecSet :: "allocator \<Rightarrow> Bitvec option \<Rightarrow> nat \<Rightarrow> (int \<times> Bitvec option \<times> allocator) option" where
  "sqlite3BitvecSet al po i =
     (case po of
        None \<Rightarrow> Some (0, None, al)
      | Some p \<Rightarrow> map_option (\<lambda>(rc, p1, al1). (rc, Some p1, al1)) (set_values al p [i]))"

section \<open>Clearing\<close>

partial_function (option) hash_free :: "nat list \<Rightarrow> nat \<Rightarrow> nat option" where
  "hash_free aHash h =
     (if h \<ge> length aHash then None
      else if aHash ! h = 0 then Some h
      else hash_free aHash (if h + 1 \<ge> BITVEC_NINT then 0 else h + 1))"

text \<open>The loop that fills the emptied table again.\<close>

fun hash_refill :: "nat \<Rightarrow> nat list \<Rightarrow> nat \<times> nat list \<Rightarrow> (nat \<times> nat list) option" where
  "hash_refill i [] st = Some st"
| "hash_refill i (v # vs) (nset, a) =
     (if v \<noteq> 0 \<and> v \<noteq> i + 1
      then (case hash_free a (BITVEC_HASH (v - 1)) of
              None \<Rightarrow> None
            | Some h \<Rightarrow> hash_refill i vs (nset + 1, a[h := v]))
      else hash_refill i vs (nset, a))"

definition leaf_clear :: "Bitvec \<Rightarrow> nat \<Rightarrow> Bitvec option" where
  "leaf_clear p i =
     (case bv_u p of
        ABitmap b \<Rightarrow>
          (if iSize p \<le> BITVEC_NBIT \<and> i div BITVEC_SZELEM < length b
           then Some (Bitvec (iSize p) (nSet p) (iDivisor p)
             (ABitmap (b[i div BITVEC_SZELEM := b ! (i div BITVEC_SZELEM) AND NOT (push_bit (i mod 8) 1)])))
           else None)
      | AHash a \<Rightarrow>
          (if iSize p \<le> BITVEC_NBIT then None
           else map_option (\<lambda>(nset, a1). Bitvec (iSize p) nset (iDivisor p) (AHash a1))
             (hash_refill i a (0, replicate BITVEC_NINT 0)))
      | ApSub ps \<Rightarrow> None)"

partial_function (option) clear_loop :: "Bitvec \<Rightarrow> nat \<Rightarrow> Bitvec option" where
  "clear_loop p i =
     (if iDivisor p \<noteq> 0
      then (case sub_at p i of
              None \<Rightarrow> None
            | Some None \<Rightarrow> Some p
            | Some (Some q) \<Rightarrow>
                Option.bind (clear_loop q (i mod iDivisor p)) (\<lambda>q1. Some (set_sub p (i div iDivisor p) (Some q1))))
      else leaf_clear p i)"

definition sqlite3BitvecClear :: "Bitvec option \<Rightarrow> nat \<Rightarrow> Bitvec option option" where
  "sqlite3BitvecClear po i =
     (case po of None \<Rightarrow> Some None | Some p \<Rightarrow> map_option Some (clear_loop p (i - 1)))"

definition sqlite3BitvecSize :: "Bitvec \<Rightarrow> nat" where
  "sqlite3BitvecSize p = iSize p"

section \<open>Open addressing\<close>

abbreviation "NI \<equiv> BITVEC_NINT"

lemma NI_pos [simp]: "0 < NI"
  by (simp add: bitvec_consts)

lemma mod_NI [simp]: "x mod NI < NI" "\<not> NI \<le> x mod NI"
  by (simp_all add: linorder_not_le)

definition slot :: "nat list \<Rightarrow> nat \<Rightarrow> nat \<Rightarrow> nat" where
  "slot h a m = h ! ((a + m) mod NI)"

text \<open>From \<open>a\<close> on, the first free entry is \<open>e\<close> steps away.\<close>

definition path :: "nat list \<Rightarrow> nat \<Rightarrow> nat \<Rightarrow> bool" where
  "path h a e \<longleftrightarrow> (\<forall>t < e. slot h a t \<noteq> 0) \<and> slot h a e = 0"

definition hash_ok :: "nat list \<Rightarrow> bool" where
  "hash_ok h \<longleftrightarrow> length h = NI \<and> (\<exists>k < NI. h ! k = 0) \<and>
     (\<forall>k < NI. \<forall>l < NI. h ! k = h ! l \<longrightarrow> h ! k \<noteq> 0 \<longrightarrow> k = l) \<and>
     (\<forall>k < NI. h ! k \<noteq> 0 \<longrightarrow>
        (\<exists>m. k = (BITVEC_HASH (h ! k - 1) + m) mod NI \<and> (\<forall>t < m. slot h (BITVEC_HASH (h ! k - 1)) t \<noteq> 0)))"

lemma path_exists:
  assumes "length h = NI" and "k < NI" and "h ! k = 0" and "a < NI"
  shows "\<exists>e. path h a e"
proof -
  have "(a + (k + NI - a)) mod NI = k" using assms(2,4) by simp
  then have "slot h a (k + NI - a) = 0" using assms(3) by (simp add: slot_def)
  then have "slot h a (LEAST e. slot h a e = 0) = 0" by (rule LeastI)
  moreover have "\<forall>t < (LEAST e. slot h a e = 0). slot h a t \<noteq> 0" using not_less_Least by blast
  ultimately show ?thesis unfolding path_def by blast
qed

lemma slot_next: "(((a + m) mod NI) + 1) mod NI = (a + Suc m) mod NI"
  by (simp add: mod_Suc_eq)

lemma slot_wrap: "(if (a + m) mod NI + 1 \<ge> NI then 0 else (a + m) mod NI + 1) = (a + Suc m) mod NI"
proof (cases "(a + m) mod NI + 1 = NI")
  case True
  then have "((a + m) mod NI + 1) mod NI = 0" by (simp only: mod_self)
  then show ?thesis using True slot_next [of a m] by simp
next
  case False
  then have "(a + m) mod NI + 1 < NI" using mod_NI(1) [of "a + m"] by linarith
  then show ?thesis using slot_next [of a m] by simp
qed

lemma hash_test_path:
  assumes "length h = NI" and "path h a e" and "m \<le> e" and "i \<noteq> 0"
  shows "hash_test h i ((a + m) mod NI) = Some (\<exists>t. m \<le> t \<and> t < e \<and> slot h a t = i)"
  using assms(3)
proof (induction "e - m" arbitrary: m)
  case 0
  then have "m = e" by simp
  then have "h ! ((a + m) mod NI) = 0" using assms(2) by (simp add: path_def slot_def)
  then show ?case using \<open>m = e\<close> assms(1) by (subst hash_test.simps) auto
next
  case (Suc n)
  have m: "m < e" "h ! ((a + m) mod NI) = slot h a m" "slot h a m \<noteq> 0"
    using Suc.hyps(2) assms(2) by (auto simp: path_def slot_def)
  have ih: "hash_test h i ((a + Suc m) mod NI) = Some (\<exists>t. Suc m \<le> t \<and> t < e \<and> slot h a t = i)"
    using Suc.hyps(1) [of "Suc m"] Suc.hyps(2) m(1) by simp
  have step: "(\<exists>t. m \<le> t \<and> t < e \<and> slot h a t = i) \<longleftrightarrow> slot h a m = i \<or> (\<exists>t. Suc m \<le> t \<and> t < e \<and> slot h a t = i)"
    using m(1) by (metis Suc_leD Suc_leI le_neq_implies_less order_refl)
  show ?case
    using m assms(1) ih by (subst hash_test.simps) (simp add: step slot_next [simplified])
qed

lemma hash_probe_step:
  assumes "length h = NI"
  shows "hash_probe h i ((a + m) mod NI) =
    (if slot h a m = i then Some None
     else if slot h a (Suc m) \<noteq> 0 then hash_probe h i ((a + Suc m) mod NI)
     else Some (Some ((a + Suc m) mod NI)))"
  by (subst hash_probe.simps) (simp only: Let_def slot_wrap assms slot_def mod_NI if_False)

lemma hash_probe_path:
  assumes "length h = NI" and "path h a e" and "m < e" and "i \<noteq> 0"
  shows "hash_probe h i ((a + m) mod NI) =
    Some (if \<exists>t. m \<le> t \<and> t < e \<and> slot h a t = i then None else Some ((a + e) mod NI))"
  using assms(3)
proof (induction "e - m" arbitrary: m)
  case 0
  then show ?case by simp
next
  case (Suc n)
  have step: "(\<exists>t. m \<le> t \<and> t < e \<and> slot h a t = i) \<longleftrightarrow> slot h a m = i \<or> (\<exists>t. Suc m \<le> t \<and> t < e \<and> slot h a t = i)"
    using Suc.prems by (metis Suc_leD Suc_leI le_neq_implies_less order_refl)
  show ?case
  proof (cases "Suc m = e")
    case True
    then have "slot h a (Suc m) = 0" using assms(2) by (simp add: path_def)
    then show ?thesis using True by (auto simp: hash_probe_step [OF assms(1)] step)
  next
    case False
    then have "Suc m < e" using Suc.prems by simp
    then have "slot h a (Suc m) \<noteq> 0" and ih: "hash_probe h i ((a + Suc m) mod NI) =
        Some (if \<exists>t. Suc m \<le> t \<and> t < e \<and> slot h a t = i then None else Some ((a + e) mod NI))"
      using assms(2) Suc.hyps(1) [of "Suc m"] Suc.hyps(2) by (auto simp: path_def)
    then show ?thesis using ih by (simp only: hash_probe_step [OF assms(1), of i a m] step) simp
  qed
qed

lemma hash_free_path:
  assumes "length h = NI" and "path h a e" and "m \<le> e"
  shows "hash_free h ((a + m) mod NI) = Some ((a + e) mod NI)"
  using assms(3)
proof (induction "e - m" arbitrary: m)
  case 0
  then show ?case using assms(1,2) by (subst hash_free.simps) (simp add: path_def slot_def)
next
  case (Suc n)
  then have "h ! ((a + m) mod NI) \<noteq> 0" using assms(2) by (auto simp: path_def slot_def)
  moreover have "hash_free h ((a + Suc m) mod NI) = Some ((a + e) mod NI)"
    using Suc.hyps(1) [of "Suc m"] Suc.hyps(2) by simp
  ultimately show ?case using assms(1) by (subst hash_free.simps) (simp only: slot_wrap, simp)
qed

lemma hash_ok_path:
  assumes "hash_ok h"
  shows "\<exists>e. path h (BITVEC_HASH x) e"
  using assms path_exists [of h _ "BITVEC_HASH x"] by (auto simp: hash_ok_def BITVEC_HASH_def)

lemma in_hash:
  assumes "hash_ok h" and "v \<noteq> 0" and "path h (BITVEC_HASH (v - 1)) e"
  shows "v \<in> set h \<longleftrightarrow> (\<exists>t < e. slot h (BITVEC_HASH (v - 1)) t = v)"
proof
  assume "v \<in> set h"
  then obtain k where k: "k < NI" "h ! k = v" using assms(1) by (metis hash_ok_def in_set_conv_nth)
  then obtain m where m: "k = (BITVEC_HASH (v - 1) + m) mod NI" "\<forall>t < m. slot h (BITVEC_HASH (v - 1)) t \<noteq> 0"
    using assms(1,2) unfolding hash_ok_def by blast
  then have s: "slot h (BITVEC_HASH (v - 1)) m = v" using k by (simp add: slot_def)
  have "m < e"
  proof (rule ccontr)
    assume "\<not> m < e"
    then have "m = e \<or> e < m" by auto
    then show False using m(2) s assms(2,3) by (auto simp: path_def)
  qed
  then show "\<exists>t < e. slot h (BITVEC_HASH (v - 1)) t = v" using s by blast
next
  assume "\<exists>t < e. slot h (BITVEC_HASH (v - 1)) t = v"
  then obtain t where "slot h (BITVEC_HASH (v - 1)) t = v" by blast
  moreover have "(BITVEC_HASH (v - 1) + t) mod NI < length h" using assms(1) by (simp add: hash_ok_def)
  ultimately show "v \<in> set h" unfolding slot_def by (metis nth_mem)
qed

definition cnt :: "nat list \<Rightarrow> nat" where
  "cnt h = length (filter (\<lambda>v. v \<noteq> 0) h)"

lemma cnt_update: "s < length h \<Longrightarrow> h ! s = 0 \<Longrightarrow> v \<noteq> 0 \<Longrightarrow> cnt (h[s := v]) = cnt h + 1"
proof (induction h arbitrary: s)
  case (Cons x h)
  then show ?case by (cases s) (auto simp: cnt_def)
qed simp

lemma cnt_free: "length h = NI \<Longrightarrow> cnt h < NI \<longleftrightarrow> (\<exists>k < NI. h ! k = 0)"
  unfolding cnt_def using length_filter_less [of _ h "\<lambda>v. v \<noteq> 0"] filter_True [of h "\<lambda>v. v \<noteq> 0"]
  by (metis in_set_conv_nth less_irrefl)

text \<open>Storing a new value at the free entry its path ends with.\<close>

lemma hash_store:
  assumes "hash_ok h" and "v \<noteq> 0" and "v \<notin> set h" and "path h (BITVEC_HASH (v - 1)) e" and "cnt h + 1 < NI"
  shows "hash_ok (h[(BITVEC_HASH (v - 1) + e) mod NI := v])"
    and "set (h[(BITVEC_HASH (v - 1) + e) mod NI := v]) - {0} = insert v (set h - {0})"
    and "cnt (h[(BITVEC_HASH (v - 1) + e) mod NI := v]) = cnt h + 1"
proof -
  let ?s = "(BITVEC_HASH (v - 1) + e) mod NI" and ?h = "h[(BITVEC_HASH (v - 1) + e) mod NI := v]"
  have l: "length h = NI" and s: "?s < NI" "h ! ?s = 0" using assms(1,4) by (auto simp: hash_ok_def path_def slot_def)
  show c: "cnt ?h = cnt h + 1" using cnt_update [of ?s h v] l s assms(2) by simp
  have keep: "slot ?h a t \<noteq> 0" if "slot h a t \<noteq> 0" for a t
    using that assms(2) l by (simp add: slot_def nth_list_update)
  show "hash_ok ?h" unfolding hash_ok_def
  proof (intro conjI allI impI)
    show "length ?h = NI" using l by simp
    show "\<exists>k < NI. ?h ! k = 0" using cnt_free [of ?h] c assms(5) l by simp
  next
    fix k j assume "k < NI" "j < NI" "?h ! k = ?h ! j" "?h ! k \<noteq> 0"
    then show "k = j" using assms(1,3) l s
      by (auto simp: hash_ok_def nth_list_update split: if_splits)
  next
    fix k assume k: "k < NI" "?h ! k \<noteq> 0"
    show "\<exists>m. k = (BITVEC_HASH (?h ! k - 1) + m) mod NI \<and> (\<forall>t < m. slot ?h (BITVEC_HASH (?h ! k - 1)) t \<noteq> 0)"
    proof (cases "k = ?s")
      case True
      then show ?thesis using l s keep assms(4) by (intro exI [of _ e]) (auto simp: path_def)
    next
      case False
      then have e: "?h ! k = h ! k" by simp
      then obtain m where "k = (BITVEC_HASH (h ! k - 1) + m) mod NI" "\<forall>t < m. slot h (BITVEC_HASH (h ! k - 1)) t \<noteq> 0"
        using assms(1) k unfolding hash_ok_def by metis
      then show ?thesis using keep e by (intro exI [of _ m]) auto
    qed
  qed
  have "h = take ?s h @ 0 # drop (Suc ?s) h" using id_take_nth_drop [of ?s h] l s by simp
  moreover have "?h = take ?s h @ v # drop (Suc ?s) h" using l s by (simp add: upd_conv_take_nth_drop)
  ultimately have "set h = insert 0 (set (take ?s h) \<union> set (drop (Suc ?s) h))"
    "set ?h = insert v (set (take ?s h) \<union> set (drop (Suc ?s) h))" by (metis Un_insert_right list.simps(15) set_append)+
  then show "set ?h - {0} = insert v (set h - {0})" using assms(2) by auto
qed

section \<open>The set a bitmap represents\<close>

definition bits_of :: "byte list \<Rightarrow> nat set" where
  "bits_of b = {i. i < BITVEC_NBIT \<and> bit (b ! (i div 8)) (i mod 8)}"

text \<open>The elements are counted from 0.\<close>

inductive bv_rep :: "Bitvec \<Rightarrow> nat set \<Rightarrow> bool" where
  bitmap: "n \<le> BITVEC_NBIT \<Longrightarrow> length b = BITVEC_NELEM \<Longrightarrow> bits_of b \<subseteq> {..<n} \<Longrightarrow>
     bv_rep (Bitvec n c 0 (ABitmap b)) (bits_of b)"
| hash: "BITVEC_NBIT < n \<Longrightarrow> hash_ok a \<Longrightarrow> c = cnt a \<Longrightarrow> S = {v. v + 1 \<in> set a} \<Longrightarrow> S \<subseteq> {..<n} \<Longrightarrow>
     bv_rep (Bitvec n c 0 (AHash a)) S"
| sub: "BITVEC_NBIT < n \<Longrightarrow> d = (n + BITVEC_NPTR - 1) div BITVEC_NPTR \<Longrightarrow> length ps = BITVEC_NPTR \<Longrightarrow>
     (\<forall>k < BITVEC_NPTR. ps ! k = None \<longrightarrow> T k = {}) \<Longrightarrow>
     (\<forall>k < BITVEC_NPTR. \<forall>q. ps ! k = Some q \<longrightarrow> iSize q = d \<and> bv_rep q (T k)) \<Longrightarrow>
     S = {i. i div d < BITVEC_NPTR \<and> i mod d \<in> T (i div d)} \<Longrightarrow> S \<subseteq> {..<n} \<Longrightarrow>
     bv_rep (Bitvec n c d (ApSub ps)) S"

inductive_cases bv_repE: "bv_rep (Bitvec n c d u) S"

lemma divisor_bounds:
  assumes "BITVEC_NBIT < n" and "d = (n + BITVEC_NPTR - 1) div BITVEC_NPTR"
  shows "0 < d" and "d < n" and "i < n \<Longrightarrow> i div d < BITVEC_NPTR"
proof -
  have n: "3968 < n" and d: "d = (n + 61) div 62" using assms by (simp_all add: bitvec_consts)
  then show "0 < d" "d < n" by auto
  assume "i < n"
  moreover have "n \<le> 62 * d" using d by linarith
  ultimately have "i < 62 * d" by simp
  then show "i div d < BITVEC_NPTR" by (simp add: bitvec_consts less_mult_imp_div_less)
qed

lemma bit_test: "(b AND push_bit k 1 \<noteq> 0) = bit b k" if "k < 8" for b :: byte
  by (simp add: bit_iff_and_push_bit_not_eq_0)

lemma test_loop_ok:
  assumes "bv_rep p S" and "i < iSize p"
  shows "test_loop p i = Some (i \<in> S)"
  using assms
proof (induction arbitrary: i)
  case (bitmap n b c)
  have "i div 8 < length b" using bitmap by (simp add: bitvec_consts)
  moreover have "i < BITVEC_NBIT" using bitmap by simp
  ultimately show ?case using bitmap bit_test [of "i mod 8" "b ! (i div 8)"]
    by (subst test_loop.simps) (simp add: leaf_test_def bits_of_def BITVEC_SZELEM_def)
next
  case (hash n a c S)
  obtain e where e: "path a (BITVEC_HASH i) e" using hash_ok_path [OF hash(2)] by blast
  have l: "length a = BITVEC_NINT" using hash(2) by (simp add: hash_ok_def)
  have "hash_test a (i + 1) (BITVEC_HASH i) = Some (\<exists>t < e. slot a (BITVEC_HASH i) t = i + 1)"
    using hash_test_path [OF l e, of 0 "i + 1"] by (simp add: BITVEC_HASH_def)
  also have "(\<exists>t < e. slot a (BITVEC_HASH i) t = i + 1) \<longleftrightarrow> i + 1 \<in> set a"
    using in_hash [OF hash(2), of "i + 1" e] e by simp
  finally show ?case using hash by (subst test_loop.simps) (simp add: leaf_test_def)
next
  case (sub n d ps T S c)
  note d = divisor_bounds [OF sub(1,2)]
  have k: "i div d < BITVEC_NPTR" using d(3) sub(8) by simp
  show ?case
  proof (cases "ps ! (i div d)")
    case None
    then have "i \<notin> S" using sub(4,5) k by simp
    then show ?thesis using None k d(1) sub(3) by (subst test_loop.simps) (simp add: sub_at_def)
  next
    case (Some q)
    then have "iSize q = d" "\<And>j. j < d \<Longrightarrow> test_loop q j = Some (j \<in> T (i div d))"
      using sub(7) k by auto
    then have "test_loop q (i mod d) = Some (i \<in> S)" using d(1) k sub(5) by simp
    then show ?thesis using Some k d(1) sub(3) by (subst test_loop.simps) (simp add: sub_at_def)
  qed
qed

lemma bv_zero_rep: "bv_rep (bv_zero n) {}"
proof (cases "n \<le> BITVEC_NBIT")
  case True
  have "(replicate BITVEC_NELEM 0 :: byte list) ! (i div 8) = 0" if "i < BITVEC_NBIT" for i
    using that by (simp add: bitvec_consts)
  then have "bits_of (replicate BITVEC_NELEM 0) = {}" by (auto simp: bits_of_def)
  then show ?thesis using True bv_rep.bitmap [of n "replicate BITVEC_NELEM 0" 0] by (simp add: bv_zero_def)
next
  case False
  have "hash_ok (replicate BITVEC_NINT 0)" by (auto simp: hash_ok_def intro: exI [of _ 0])
  then show ?thesis using False bv_rep.hash [of n "replicate BITVEC_NINT 0" 0 "{}"] by (simp add: bv_zero_def cnt_def)
qed

lemma bv_rep_bound: "bv_rep p S \<Longrightarrow> S \<subseteq> {..<iSize p}"
  by (induction rule: bv_rep.induct) auto

section \<open>Setting refines insertion\<close>

text \<open>The outcome of setting the elements \<open>V\<close>: an error can only come from the allocator; without one the set has
  grown by exactly \<open>V\<close>.\<close>

definition outcome :: "allocator \<Rightarrow> Bitvec \<Rightarrow> nat set \<Rightarrow> nat set \<Rightarrow> (int \<times> Bitvec \<times> allocator) option \<Rightarrow> bool" where
  "outcome al p S V r \<longleftrightarrow>
     (\<exists>rc p' al'. r = Some (rc, p', al') \<and> (rc = 0 \<or> rc = SQLITE_NOMEM) \<and> iSize p' = iSize p \<and>
        (iDivisor p \<noteq> 0 \<longrightarrow> iDivisor p' \<noteq> 0) \<and>
        (\<exists>S'. bv_rep p' S' \<and> S' \<subseteq> S \<union> V \<and> (rc = 0 \<longrightarrow> S' = S \<union> V)) \<and>
        ((\<forall>ok \<in> set al. ok) \<longrightarrow> rc = 0 \<and> (\<forall>ok \<in> set al'. ok)))"

definition zero_based :: "nat list \<Rightarrow> nat set" where
  "zero_based vs = (\<lambda>i. i - 1) ` set vs"

lemma set_values_Nil [simp]: "set_values al p [] = Some (0, p, al)"
  by (simp add: set_values.simps)

lemma set_values_Cons:
  "set_values al p (i # vs) =
     Option.bind (set_values al p [i])
       (\<lambda>(rc, p1, al1). Option.bind (set_values al1 p1 vs) (\<lambda>(rc1, p2, al2). Some (rc OR rc1, p2, al2)))"
proof -
  have "Option.bind x (\<lambda>(rc, p1, al1). Some (rc OR 0, p1, al1)) = x" for x :: "(int \<times> Bitvec \<times> allocator) option"
    by (cases x) auto
  then show ?thesis by (subst (1 2) set_values.simps) (simp add: split_def)
qed

definition set_one :: "allocator \<Rightarrow> Bitvec \<Rightarrow> nat \<Rightarrow> (int \<times> Bitvec \<times> allocator) option" where
  "set_one al p i =
     (if iSize p > BITVEC_NBIT \<and> iDivisor p \<noteq> 0
      then (case sub_at p i of
              None \<Rightarrow> None
            | Some qo \<Rightarrow>
                (case (case qo of None \<Rightarrow> sqlite3BitvecCreate al (iDivisor p) | Some q \<Rightarrow> (Some q, al)) of
                   (None, al1) \<Rightarrow> Some (SQLITE_NOMEM, p, al1)
                 | (Some q, al1) \<Rightarrow>
                     Option.bind (set_values al1 q [i mod iDivisor p + 1])
                       (\<lambda>(rc, q1, al2). Some (rc, set_sub p (i div iDivisor p) (Some q1), al2))))
      else (case leaf_set al p i of
              None \<Rightarrow> None
            | Some (Inl r) \<Rightarrow> Some r
            | Some (Inr (al1, p1, values)) \<Rightarrow> set_values al1 p1 values))"

lemma set_values_one: "set_values al p [i] = set_one al p (i - 1)"
proof -
  have "Option.bind x (\<lambda>(rc, p1, al1). Some (rc OR 0, p1, al1)) = x" for x :: "(int \<times> Bitvec \<times> allocator) option"
    by (cases x) auto
  then show ?thesis by (subst set_values.simps) (simp add: set_one_def split_def Let_def)
qed

lemma outcome_Cons:
  assumes "outcome al p S {i - 1} (set_values al p [i])"
    and "\<And>al1 p1 S1. bv_rep p1 S1 \<Longrightarrow> iSize p1 = iSize p \<Longrightarrow> (iDivisor p \<noteq> 0 \<Longrightarrow> iDivisor p1 \<noteq> 0) \<Longrightarrow>
       outcome al1 p1 S1 (zero_based vs) (set_values al1 p1 vs)"
  shows "outcome al p S (zero_based (i # vs)) (set_values al p (i # vs))"
proof -
  from assms(1) obtain rc p1 al1 S1 where 1: "set_values al p [i] = Some (rc, p1, al1)" "rc = 0 \<or> rc = SQLITE_NOMEM"
    "iSize p1 = iSize p" "iDivisor p \<noteq> 0 \<longrightarrow> iDivisor p1 \<noteq> 0" "bv_rep p1 S1" "S1 \<subseteq> S \<union> {i - 1}"
    "rc = 0 \<longrightarrow> S1 = S \<union> {i - 1}" "(\<forall>ok \<in> set al. ok) \<longrightarrow> rc = 0 \<and> (\<forall>ok \<in> set al1. ok)"
    unfolding outcome_def by blast
  have "outcome al1 p1 S1 (zero_based vs) (set_values al1 p1 vs)" using assms(2) 1(3-5) by blast
  then obtain rc1 p2 al2 S2 where 2: "set_values al1 p1 vs = Some (rc1, p2, al2)" "rc1 = 0 \<or> rc1 = SQLITE_NOMEM"
    "iSize p2 = iSize p1" "iDivisor p1 \<noteq> 0 \<longrightarrow> iDivisor p2 \<noteq> 0" "bv_rep p2 S2" "S2 \<subseteq> S1 \<union> zero_based vs"
    "rc1 = 0 \<longrightarrow> S2 = S1 \<union> zero_based vs" "(\<forall>ok \<in> set al1. ok) \<longrightarrow> rc1 = 0 \<and> (\<forall>ok \<in> set al2. ok)"
    unfolding outcome_def by blast
  have rc: "rc OR rc1 = 0 \<or> rc OR rc1 = SQLITE_NOMEM" "rc OR rc1 = 0 \<longleftrightarrow> rc = 0 \<and> rc1 = 0"
    using 1(2) 2(2) by (auto simp: SQLITE_NOMEM_def)
  have z: "zero_based (i # vs) = insert (i - 1) (zero_based vs)" by (simp add: zero_based_def)
  have "set_values al p (i # vs) = Some (rc OR rc1, p2, al2)"
    by (subst set_values_Cons) (simp add: 1(1) 2(1))
  moreover have "S2 \<subseteq> S \<union> zero_based (i # vs)" using 1(6) 2(6) z by auto
  moreover have "rc OR rc1 = 0 \<longrightarrow> S2 = S \<union> zero_based (i # vs)" using 1(7) 2(7) z rc(2) by auto
  ultimately show ?thesis unfolding outcome_def using 1(3,4,8) 2(3,4,5,8) rc by auto
qed

definition kind_ok :: "bool \<Rightarrow> Bitvec \<Rightarrow> bool" where
  "kind_ok k p \<longleftrightarrow> (k \<longrightarrow> iDivisor p \<noteq> 0)"

lemma set_list:
  assumes "\<And>al p S i. kind_ok k p \<Longrightarrow> bv_rep p S \<Longrightarrow> iSize p = n \<Longrightarrow> 0 < i \<Longrightarrow> i \<le> n \<Longrightarrow>
      outcome al p S {i - 1} (set_values al p [i])"
    and "kind_ok k p" and "bv_rep p S" and "iSize p = n" and "\<forall>i \<in> set vs. 0 < i \<and> i \<le> n"
  shows "outcome al p S (zero_based vs) (set_values al p vs)"
  using assms(2-)
proof (induction vs arbitrary: al p S)
  case Nil
  then show ?case by (auto simp: outcome_def zero_based_def)
next
  case (Cons i vs)
  show ?case
  proof (rule outcome_Cons)
    show "outcome al p S {i - 1} (set_values al p [i])" using assms(1) Cons.prems by simp
    show "outcome al1 p1 S1 (zero_based vs) (set_values al1 p1 vs)"
      if "bv_rep p1 S1" "iSize p1 = iSize p" "iDivisor p \<noteq> 0 \<Longrightarrow> iDivisor p1 \<noteq> 0" for al1 p1 S1
      using Cons that by (auto simp: kind_ok_def)
  qed
qed

text \<open>Changing one sub-bitmap.\<close>

definition sub_frame :: "nat \<Rightarrow> nat \<Rightarrow> nat \<Rightarrow> Bitvec option list \<Rightarrow> nat set \<Rightarrow> nat \<Rightarrow> nat set \<Rightarrow> bool" where
  "sub_frame n c d ps S i T0 \<longleftrightarrow> i div d < length ps \<and> 0 < d \<and> d < n \<and> (ps ! (i div d) = None \<longrightarrow> T0 = {}) \<and>
     (\<forall>q. ps ! (i div d) = Some q \<longrightarrow> iSize q = d \<and> bv_rep q T0) \<and> (i \<in> S \<longleftrightarrow> i mod d \<in> T0) \<and>
     (\<forall>q1 S1. iSize q1 = d \<longrightarrow> bv_rep q1 S1 \<longrightarrow> S1 \<subseteq> insert (i mod d) T0 \<longrightarrow>
        (\<exists>S'. bv_rep (Bitvec n c d (ApSub (ps[i div d := Some q1]))) S' \<and> S' \<subseteq> insert i S \<and>
          (S1 = insert (i mod d) T0 \<longrightarrow> S' = insert i S) \<and> (S1 = T0 - {i mod d} \<longrightarrow> S' = S - {i})))"

lemma sub_update:
  assumes "bv_rep (Bitvec n c d (ApSub ps)) S" and "i < n"
  shows "\<exists>T0. sub_frame n c d ps S i T0"
proof -
  from assms(1) obtain T where T: "BITVEC_NBIT < n" "d = (n + BITVEC_NPTR - 1) div BITVEC_NPTR" "length ps = BITVEC_NPTR"
    "\<forall>k < BITVEC_NPTR. ps ! k = None \<longrightarrow> T k = {}"
    "\<forall>k < BITVEC_NPTR. \<forall>q. ps ! k = Some q \<longrightarrow> iSize q = d \<and> bv_rep q (T k)"
    "S = {i. i div d < BITVEC_NPTR \<and> i mod d \<in> T (i div d)}" "S \<subseteq> {..<n}"
    by (cases rule: bv_repE) auto
  note d = divisor_bounds [OF T(1,2)]
  let ?k = "i div d"
  have k: "?k < BITVEC_NPTR" by (rule d(3) [OF assms(2)])
  have "sub_frame n c d ps S i (T ?k)" unfolding sub_frame_def
  proof (intro conjI allI impI)
    show "?k < length ps" "0 < d" "d < n" using k T(3) d by simp_all
    show "T ?k = {}" if "ps ! ?k = None" using that T(4) k by blast
    show "iSize q = d" "bv_rep q (T ?k)" if "ps ! ?k = Some q" for q using that T(5) k by blast+
    show "i \<in> S \<longleftrightarrow> i mod d \<in> T ?k" using T(6) k by simp
  next
    fix q1 S1 assume q1: "iSize q1 = d" "bv_rep q1 S1" "S1 \<subseteq> insert (i mod d) (T ?k)"
    let ?T = "T(?k := S1)" and ?S = "{j. j div d < BITVEC_NPTR \<and> j mod d \<in> (T(?k := S1)) (j div d)}"
    have eq: "j = i \<longleftrightarrow> j div d = ?k \<and> j mod d = i mod d" for j by (metis div_mult_mod_eq)
    have S: "j \<in> S \<longleftrightarrow> j div d < BITVEC_NPTR \<and> j mod d \<in> T (j div d)" for j unfolding T(6) by (rule mem_Collect_eq)
    have sub: "?S \<subseteq> insert i S"
    proof
      fix j assume "j \<in> ?S"
      then show "j \<in> insert i S" using q1(3) S [of j] eq [of j] by (auto split: if_splits)
    qed
    have "bv_rep (Bitvec n c d (ApSub (ps[?k := Some q1]))) ?S"
    proof (rule bv_rep.sub [where T = ?T])
      show "\<forall>k < BITVEC_NPTR. ps[?k := Some q1] ! k = None \<longrightarrow> ?T k = {}"
        using T(3,4) k by (auto simp: nth_list_update)
      show "\<forall>k < BITVEC_NPTR. \<forall>q. ps[?k := Some q1] ! k = Some q \<longrightarrow> iSize q = d \<and> bv_rep q (?T k)"
        using T(3,5) k q1(1,2) by (auto simp: nth_list_update)
      have "insert i S \<subseteq> {..<n}" using T(7) assms(2) by auto
      with sub show "?S \<subseteq> {..<n}" by (rule order_trans)
      show "BITVEC_NBIT < n" "d = (n + BITVEC_NPTR - 1) div BITVEC_NPTR" by (rule T(1), rule T(2))
      show "length (ps[?k := Some q1]) = BITVEC_NPTR" using T(3) by simp
    qed (rule refl)
    moreover have "?S = insert i S" if h: "S1 = insert (i mod d) (T ?k)"
    proof (rule set_eqI)
      fix j show "j \<in> ?S \<longleftrightarrow> j \<in> insert i S" using S [of j] eq [of j] k by (auto simp: h split: if_splits)
    qed
    moreover have "?S = S - {i}" if h: "S1 = T ?k - {i mod d}"
    proof (rule set_eqI)
      fix j show "j \<in> ?S \<longleftrightarrow> j \<in> S - {i}" using S [of j] eq [of j] k by (auto simp: h split: if_splits)
    qed
    ultimately show "\<exists>S'. bv_rep (Bitvec n c d (ApSub (ps[?k := Some q1]))) S' \<and> S' \<subseteq> insert i S \<and>
         (S1 = insert (i mod d) (T ?k) \<longrightarrow> S' = insert i S) \<and> (S1 = T ?k - {i mod d} \<longrightarrow> S' = S - {i})"
      using sub by blast
  qed
  then show ?thesis by blast
qed

text \<open>Setting one element in a bitmap with sub-bitmaps, if smaller bitmaps can be set.\<close>

lemma set_in_sub:
  assumes "bv_rep (Bitvec n c d (ApSub ps)) S" and "i < n" and "d \<noteq> 0"
    and "\<And>al q S j. bv_rep q S \<Longrightarrow> iSize q < n \<Longrightarrow> 0 < j \<Longrightarrow> j \<le> iSize q \<Longrightarrow> outcome al q S {j - 1} (set_values al q [j])"
  shows "outcome al (Bitvec n c d (ApSub ps)) S {i} (set_one al (Bitvec n c d (ApSub ps)) i)"
proof -
  let ?p = "Bitvec n c d (ApSub ps)" and ?k = "i div d"
  have big: "BITVEC_NBIT < n" using assms(1) by (cases rule: bv_repE) auto
  obtain T0 where "sub_frame n c d ps S i T0" using sub_update [OF assms(1,2)] by blast
  then have T0: "?k < length ps" "0 < d" "d < n" "ps ! ?k = None \<Longrightarrow> T0 = {}"
    "\<And>q. ps ! ?k = Some q \<Longrightarrow> iSize q = d \<and> bv_rep q T0"
    "\<And>q1 S1. iSize q1 = d \<Longrightarrow> bv_rep q1 S1 \<Longrightarrow> S1 \<subseteq> insert (i mod d) T0 \<Longrightarrow>
       \<exists>S'. bv_rep (Bitvec n c d (ApSub (ps[?k := Some q1]))) S' \<and> S' \<subseteq> insert i S \<and>
         (S1 = insert (i mod d) T0 \<longrightarrow> S' = insert i S) \<and> (S1 = T0 - {i mod d} \<longrightarrow> S' = S - {i})"
    unfolding sub_frame_def by blast+
  have step: "outcome al ?p S {i}
      (Option.bind (set_values al1 q [i mod d + 1]) (\<lambda>(rc, q1, al2). Some (rc, set_sub ?p ?k (Some q1), al2)))"
    if q: "iSize q = d" "bv_rep q T0" and al: "(\<forall>ok \<in> set al. ok) \<longrightarrow> (\<forall>ok \<in> set al1. ok)" for q al1
  proof -
    have "outcome al1 q T0 {i mod d + 1 - 1} (set_values al1 q [i mod d + 1])"
      by (rule assms(4)) (use q T0(2,3) in \<open>auto simp: Suc_leI\<close>)
    then have "outcome al1 q T0 {i mod d} (set_values al1 q [i mod d + 1])" by simp
    then obtain rc q1 al2 S1 where r: "set_values al1 q [i mod d + 1] = Some (rc, q1, al2)" "rc = 0 \<or> rc = SQLITE_NOMEM"
      "iSize q1 = iSize q" "bv_rep q1 S1" "S1 \<subseteq> T0 \<union> {i mod d}" "rc = 0 \<longrightarrow> S1 = T0 \<union> {i mod d}"
      "(\<forall>ok \<in> set al1. ok) \<longrightarrow> rc = 0 \<and> (\<forall>ok \<in> set al2. ok)"
      unfolding outcome_def by blast
    have r3: "iSize q1 = d" "S1 \<subseteq> insert (i mod d) T0" using r(3,5) q(1) by auto
    from T0(6) [OF r3(1) r(4) r3(2)] obtain S' where "bv_rep (Bitvec n c d (ApSub (ps[?k := Some q1]))) S'" "S' \<subseteq> insert i S"
      "rc = 0 \<longrightarrow> S' = insert i S" using r(6) by auto
    moreover have "Option.bind (set_values al1 q [i mod d + 1]) (\<lambda>(rc, q1, al2). Some (rc, set_sub ?p ?k (Some q1), al2)) =
        Some (rc, Bitvec n c d (ApSub (ps[?k := Some q1])), al2)" by (simp only: r(1)) (simp add: set_sub_def)
    ultimately show ?thesis using r(2,7) al assms(3) unfolding outcome_def
      by (intro exI [of _ rc] exI [of _ "Bitvec n c d (ApSub (ps[?k := Some q1]))"] exI [of _ al2]) auto
  qed
  have one: "set_one al ?p i = (case (case ps ! ?k of None \<Rightarrow> sqlite3BitvecCreate al d | Some q \<Rightarrow> (Some q, al)) of
      (None, al1) \<Rightarrow> Some (SQLITE_NOMEM, ?p, al1)
    | (Some q, al1) \<Rightarrow> Option.bind (set_values al1 q [i mod d + 1]) (\<lambda>(rc, q1, al2). Some (rc, set_sub ?p ?k (Some q1), al2)))"
    using big assms(3) T0(1) unfolding set_one_def sub_at_def Bitvec.sel bv_union.case by simp
  show ?thesis
  proof (cases "ps ! ?k")
    case (Some q)
    then show ?thesis using step [of q al] T0(5) [OF Some] unfolding one by simp
  next
    case None
    obtain ok al1 where m: "bv_malloc al = (ok, al1)" by fastforce
    then have al: "(\<forall>ok \<in> set al. ok) \<longrightarrow> ok \<and> (\<forall>ok \<in> set al1. ok)" by (auto simp: bv_malloc_def split: list.splits)
    show ?thesis
    proof (cases ok)
      case True
      have "iSize (bv_zero d) = d" "bv_rep (bv_zero d) T0" using bv_zero_rep T0(4) [OF None] by (simp_all add: bv_zero_def)
      then show ?thesis using step [of "bv_zero d" al1] al m True None unfolding one by (simp add: sqlite3BitvecCreate_def)
    next
      case False
      then have "set_one al ?p i = Some (SQLITE_NOMEM, ?p, al1)" using m None unfolding one by (simp add: sqlite3BitvecCreate_def)
      moreover have "SQLITE_NOMEM \<noteq> 0" by (simp add: SQLITE_NOMEM_def)
      ultimately show ?thesis using al False assms(1) unfolding outcome_def
        by (intro exI [of _ SQLITE_NOMEM] exI [of _ ?p] exI [of _ al1]) blast
    qed
  qed
qed

section \<open>Setting in a bit array and in a hash table\<close>

lemma bits_of_set:
  assumes "length b = BITVEC_NELEM" and "i < BITVEC_NBIT"
  shows "bits_of (b[i div 8 := b ! (i div 8) OR push_bit (i mod 8) 1]) = insert i (bits_of b)"
proof (rule set_eqI)
  fix j
  have l: "i div 8 < length b" using assms by (simp add: bitvec_consts)
  have eq: "j = i \<longleftrightarrow> j div 8 = i div 8 \<and> j mod 8 = i mod 8" by (metis div_mult_mod_eq)
  have push: "bit (push_bit m 1 :: byte) k \<longleftrightarrow> k = m" if "k < 8" for k m
    using that by (auto simp: bit_simps)
  show "j \<in> bits_of (b[i div 8 := b ! (i div 8) OR push_bit (i mod 8) 1]) \<longleftrightarrow> j \<in> insert i (bits_of b)"
    using l assms(2) eq push [of "j mod 8" "i mod 8"] by (auto simp: bits_of_def nth_list_update bit_or_iff)
qed

lemma hash_step_ok:
  assumes "hash_ok a" and "i \<noteq> 0"
  shows "(i \<in> set a \<and> hash_step (cnt a) a i = Some H_Found) \<or>
     (i \<notin> set a \<and> hash_step (cnt a) a i = Some H_Rehash) \<or>
     (i \<notin> set a \<and> cnt a + 1 < BITVEC_NINT \<and> (\<exists>e. path a (BITVEC_HASH (i - 1)) e \<and>
        hash_step (cnt a) a i = Some (H_Store ((BITVEC_HASH (i - 1) + e) mod BITVEC_NINT))))"
proof -
  let ?h = "BITVEC_HASH (i - 1)"
  obtain e where e: "path a ?h e" using hash_ok_path [OF assms(1)] by blast
  have l: "length a = BITVEC_NINT" using assms(1) by (simp add: hash_ok_def)
  have h: "?h < BITVEC_NINT" "(?h + 0) mod BITVEC_NINT = ?h" by (simp_all add: BITVEC_HASH_def)
  note i = in_hash [OF assms e]
  have s: "a ! ?h = slot a ?h 0" using h by (simp add: slot_def)
  show ?thesis
  proof (cases "e = 0")
    case True
    then have "i \<notin> set a" "a ! ?h = 0" using i e s by (auto simp: path_def)
    moreover have "(?h + e) mod BITVEC_NINT = ?h" using h True by simp
    ultimately show ?thesis using e h(1) l by (auto simp: hash_step_def Let_def bitvec_consts)
  next
    case False
    then have p: "hash_probe a i ?h = Some (if i \<in> set a then None else Some ((?h + e) mod BITVEC_NINT))"
      using hash_probe_path [OF l e, of 0 i] assms(2) i h(2) by simp
    have "a ! ?h \<noteq> 0" using False e s by (auto simp: path_def)
    then have st: "hash_step (cnt a) a i = (if i \<in> set a then Some H_Found
        else Some (if cnt a \<ge> BITVEC_MXHASH then H_Rehash else H_Store ((?h + e) mod BITVEC_NINT)))"
      using p h(1) l by (simp add: hash_step_def Let_def)
    have "cnt a < BITVEC_MXHASH \<Longrightarrow> cnt a + 1 < BITVEC_NINT" by (simp add: bitvec_consts)
    then show ?thesis using st e by (cases "cnt a \<ge> BITVEC_MXHASH") auto
  qed
qed

lemma outcome_done: "bv_rep p' (S \<union> V) \<Longrightarrow> iSize p' = iSize p \<Longrightarrow> iDivisor p = 0 \<Longrightarrow> outcome al p S V (Some (0, p', al))"
  by (auto simp: outcome_def)

lemma outcome_from:
  assumes "outcome al1 p1 S1 V1 r" and "iSize p1 = iSize p" and "iDivisor p = 0" and "S1 \<union> V1 = S \<union> V"
    and "(\<forall>ok \<in> set al. ok) \<longrightarrow> (\<forall>ok \<in> set al1. ok)"
  shows "outcome al p S V r"
proof -
  from assms(1) obtain rc p' al' S' where r: "r = Some (rc, p', al')" "rc = 0 \<or> rc = SQLITE_NOMEM" "iSize p' = iSize p1"
    "bv_rep p' S'" "S' \<subseteq> S1 \<union> V1" "rc = 0 \<longrightarrow> S' = S1 \<union> V1" "(\<forall>ok \<in> set al1. ok) \<longrightarrow> rc = 0 \<and> (\<forall>ok \<in> set al'. ok)"
    unfolding outcome_def by blast
  then show ?thesis unfolding outcome_def using assms(2-5)
    by (intro exI [of _ rc] exI [of _ p'] exI [of _ al'] conjI exI [of _ S']) (simp_all, blast)
qed

lemma rehash_start_rep:
  assumes "BITVEC_NBIT < iSize p"
  shows "bv_rep (rehash_start p) {}" and "iDivisor (rehash_start p) \<noteq> 0" and "iSize (rehash_start p) = iSize p"
proof -
  let ?d = "(iSize p + BITVEC_NPTR - 1) div BITVEC_NPTR"
  have "bv_rep (Bitvec (iSize p) (nSet p) ?d (ApSub (replicate BITVEC_NPTR None))) {}"
    by (rule bv_rep.sub [where T = "\<lambda>k. {}"]) (use assms in auto)
  then show "bv_rep (rehash_start p) {}" by (simp only: rehash_start_def)
  show "iDivisor (rehash_start p) \<noteq> 0" using divisor_bounds(1) [OF assms refl] by (simp add: rehash_start_def)
  show "iSize (rehash_start p) = iSize p" by (simp add: rehash_start_def)
qed

lemma set_in_leaf:
  assumes "bv_rep p S" and "iDivisor p = 0" and "i < iSize p"
    and "\<And>al q S j. bv_rep q S \<Longrightarrow> iSize q < iSize p \<Longrightarrow> 0 < j \<Longrightarrow> j \<le> iSize q \<Longrightarrow>
      outcome al q S {j - 1} (set_values al q [j])"
  shows "outcome al p S {i} (set_one al p i)"
  using assms(1)
proof cases
  case (bitmap n b c)
  have l: "i div 8 < length b" "i < BITVEC_NBIT" using bitmap assms(3) by (simp_all add: bitvec_consts)
  let ?b = "b[i div 8 := b ! (i div 8) OR push_bit (i mod 8) 1]"
  have b: "bits_of ?b = S \<union> {i}" using bits_of_set [OF bitmap(4) l(2)] bitmap(2) by simp
  then have "bv_rep (Bitvec n c 0 (ABitmap ?b)) (bits_of ?b)"
    by (intro bv_rep.bitmap) (use bitmap assms(3) in auto)
  then have "bv_rep (Bitvec n c 0 (ABitmap ?b)) (S \<union> {i})" by (simp only: b)
  moreover have "set_one al p i = Some (0, Bitvec n c 0 (ABitmap ?b), al)"
    using l bitmap by (simp add: set_one_def leaf_set_def BITVEC_SZELEM_def)
  ultimately show ?thesis using bitmap(1) by (simp add: outcome_done)
next
  case (hash n a c)
  have one: "set_one al p i = (case hash_step (cnt a) a (i + 1) of
      None \<Rightarrow> None
    | Some H_Found \<Rightarrow> Some (0, p, al)
    | Some (H_Store h) \<Rightarrow> Some (0, Bitvec n (c + 1) 0 (AHash (a[h := i + 1])), al)
    | Some H_Rehash \<Rightarrow>
        (case bv_malloc al of
           (False, al1) \<Rightarrow> Some (SQLITE_NOMEM, p, al1)
         | (True, al1) \<Rightarrow> set_values al1 (rehash_start p) ((i + 1) # filter (\<lambda>v. v \<noteq> 0) a)))"
    using hash by (simp add: set_one_def leaf_set_def split: option.split hash_step.split prod.split bool.split)
  have mem: "v + 1 \<in> set a \<longleftrightarrow> v \<in> S" for v using hash(5) by simp
  from hash_step_ok [OF hash(3), of "i + 1"] consider
    "i + 1 \<in> set a" "hash_step (cnt a) a (i + 1) = Some H_Found"
  | "hash_step (cnt a) a (i + 1) = Some H_Rehash"
  | e where "i + 1 \<notin> set a" "cnt a + 1 < BITVEC_NINT" "path a (BITVEC_HASH (i + 1 - 1)) e"
      "hash_step (cnt a) a (i + 1) = Some (H_Store ((BITVEC_HASH (i + 1 - 1) + e) mod BITVEC_NINT))"
    by auto
  then show ?thesis
  proof cases
    case 1
    then have "S \<union> {i} = S" using mem by auto
    then show ?thesis using 1(2) assms(1,2) outcome_done [of p S "{i}" p al] by (simp add: one)
  next
    case 3
    let ?a = "a[(BITVEC_HASH (i + 1 - 1) + e) mod BITVEC_NINT := i + 1]"
    note st = hash_store [OF hash(3) _ 3(1) 3(3,2), simplified]
    have "v + 1 \<in> set ?a \<longleftrightarrow> v \<in> S \<union> {i}" for v
    proof -
      have "v + 1 \<in> set ?a - {0} \<longleftrightarrow> v + 1 \<in> insert (i + 1) (set a - {0})" using st(2) by simp
      then show ?thesis using mem [of v] by auto
    qed
    then have "bv_rep (Bitvec n (c + 1) 0 (AHash ?a)) (S \<union> {i})"
      by (intro bv_rep.hash) (use hash st assms(3) in auto)
    moreover have "set_one al p i = Some (0, Bitvec n (c + 1) 0 (AHash ?a), al)" unfolding one 3(4) by simp
    ultimately show ?thesis using hash(1) by (simp only:) (rule outcome_done, simp_all)
  next
    case 2
    obtain ok al1 where m: "bv_malloc al = (ok, al1)" by fastforce
    then have al: "(\<forall>ok \<in> set al. ok) \<longrightarrow> ok \<and> (\<forall>ok \<in> set al1. ok)" by (auto simp: bv_malloc_def split: list.splits)
    show ?thesis
    proof (cases ok)
      case False
      then have "set_one al p i = Some (SQLITE_NOMEM, p, al1)" using m 2 by (simp add: one)
      moreover have "SQLITE_NOMEM \<noteq> 0" by (simp add: SQLITE_NOMEM_def)
      ultimately show ?thesis using al False assms(1) unfolding outcome_def
        by (intro exI [of _ SQLITE_NOMEM] exI [of _ p] exI [of _ al1]) blast
    next
      case True
      let ?vs = "(i + 1) # filter (\<lambda>v. v \<noteq> 0) a"
      have big: "BITVEC_NBIT < iSize p" using hash by simp
      note start = rehash_start_rep [OF big]
      have "outcome al1 (rehash_start p) {} (zero_based ?vs) (set_values al1 (rehash_start p) ?vs)"
      proof (rule set_list [where k = True])
        fix al p' S' j
        assume p': "kind_ok True p'" "bv_rep p' S'" "iSize p' = iSize p" "0 < j" "j \<le> iSize p"
        from p'(2,1,3) obtain c d ps where "p' = Bitvec (iSize p) c d (ApSub ps)" "d \<noteq> 0"
          by (cases rule: bv_rep.cases) (auto simp: kind_ok_def)
        then show "outcome al p' S' {j - 1} (set_values al p' [j])"
          using set_in_sub [of "iSize p" c d ps S' "j - 1"] p' assms(4) by (simp add: set_values_one)
      next
        show "kind_ok True (rehash_start p)" using start by (simp add: kind_ok_def)
        show "\<forall>v \<in> set ?vs. 0 < v \<and> v \<le> iSize p"
        proof
          fix v assume "v \<in> set ?vs"
          then have "v = i + 1 \<or> v \<noteq> 0 \<and> v - 1 \<in> S" using mem [of "v - 1"] by auto
          then show "0 < v \<and> v \<le> iSize p" using assms(3) bv_rep_bound [OF assms(1)] by auto
        qed
      qed (use start in auto)
      moreover have "zero_based ?vs = S \<union> {i}"
      proof (rule set_eqI)
        fix v
        have "v \<in> zero_based ?vs \<longleftrightarrow> v = i \<or> v + 1 \<in> set a" by (force simp: zero_based_def image_iff)
        then show "v \<in> zero_based ?vs \<longleftrightarrow> v \<in> S \<union> {i}" using mem by auto
      qed
      ultimately have o: "outcome al1 (rehash_start p) {} (S \<union> {i}) (set_values al1 (rehash_start p) ?vs)" by simp
      have e: "set_one al p i = set_values al1 (rehash_start p) ?vs" using m 2 True by (simp add: one)
      show ?thesis unfolding e by (rule outcome_from [OF o start(3) assms(2)]) (use al in auto)
    qed
  qed
next
  case (sub n d ps T c)
  have "0 < d" by (rule divisor_bounds(1) [OF sub(2,3)])
  then show ?thesis using assms(2) sub(1) by simp
qed

lemma set_values_single:
  assumes "bv_rep p S" and "0 < i" and "i \<le> iSize p"
  shows "outcome al p S {i - 1} (set_values al p [i])"
  using assms
proof (induction "iSize p" arbitrary: al p S i rule: less_induct)
  case less
  show ?case
  proof (cases "iDivisor p = 0")
    case True
    have "outcome al p S {i - 1} (set_one al p (i - 1))"
      by (rule set_in_leaf [OF less.prems(1) True]) (use less in auto)
    then show ?thesis by (simp add: set_values_one)
  next
    case False
    with less.prems(1) obtain n c d ps where p: "p = Bitvec n c d (ApSub ps)" by (cases rule: bv_rep.cases) auto
    have "outcome al p S {i - 1} (set_one al p (i - 1))" unfolding p
      by (rule set_in_sub) (use less p False in auto)
    then show ?thesis by (simp add: set_values_one)
  qed
qed

section \<open>Clearing refines deletion\<close>

lemma bits_of_clear:
  assumes "length b = BITVEC_NELEM" and "i < BITVEC_NBIT"
  shows "bits_of (b[i div 8 := b ! (i div 8) AND NOT (push_bit (i mod 8) 1)]) = bits_of b - {i}"
proof (rule set_eqI)
  fix j
  have l: "i div 8 < length b" using assms by (simp add: bitvec_consts)
  have eq: "j = i \<longleftrightarrow> j div 8 = i div 8 \<and> j mod 8 = i mod 8" by (metis div_mult_mod_eq)
  have push: "bit (NOT (push_bit m 1) :: byte) k \<longleftrightarrow> k \<noteq> m" if "k < 8" for k m
    using that by (auto simp: bit_simps)
  show "j \<in> bits_of (b[i div 8 := b ! (i div 8) AND NOT (push_bit (i mod 8) 1)]) \<longleftrightarrow> j \<in> bits_of b - {i}"
    using l assms(2) eq push [of "j mod 8" "i mod 8"] by (auto simp: bits_of_def nth_list_update bit_and_iff)
qed

lemma distinct_nonzero: "hash_ok h \<Longrightarrow> distinct (filter (\<lambda>v. v \<noteq> 0) h)"
proof -
  assume "hash_ok h"
  then have "h ! k = h ! l \<Longrightarrow> h ! k \<noteq> 0 \<Longrightarrow> k < length h \<Longrightarrow> l < length h \<Longrightarrow> k = l" for k l
    unfolding hash_ok_def by metis
  then show "distinct (filter (\<lambda>v. v \<noteq> 0) h)"
  proof (induction h)
    case (Cons x h)
    have "x \<notin> set h \<or> x = 0"
    proof (rule ccontr)
      assume "\<not> (x \<notin> set h \<or> x = 0)"
      then obtain k where "k < length h" "h ! k = x" "x \<noteq> 0" by (auto simp: in_set_conv_nth)
      then show False using Cons.prems [of 0 "Suc k"] by simp
    qed
    moreover have "distinct (filter (\<lambda>v. v \<noteq> 0) h)"
      using Cons.IH Cons.prems [of "Suc k" "Suc l" for k l] by simp
    ultimately show ?case by auto
  qed simp
qed

text \<open>Filling an emptied table: the values, without \<open>i+1\<close> and zeros, are stored one after the other.\<close>

lemma hash_refill_ok:
  assumes "hash_ok a" and "distinct (filter (\<lambda>v. v \<noteq> 0) vs)" and "set a \<inter> (set vs - {0}) = {}"
    and "cnt a + length (filter (\<lambda>v. v \<noteq> 0) vs) < BITVEC_NINT"
  shows "\<exists>a'. hash_refill i vs (cnt a, a) = Some (cnt a', a') \<and> hash_ok a' \<and>
     set a' - {0} = (set a - {0}) \<union> (set vs - {0, i + 1})"
  using assms
proof (induction vs arbitrary: a)
  case Nil
  then show ?case by auto
next
  case (Cons v vs)
  show ?case
  proof (cases "v \<noteq> 0 \<and> v \<noteq> i + 1")
    case False
    have "\<exists>a'. hash_refill i vs (cnt a, a) = Some (cnt a', a') \<and> hash_ok a' \<and>
       set a' - {0} = (set a - {0}) \<union> (set vs - {0, i + 1})"
      by (rule Cons.IH) (use Cons.prems in \<open>auto split: if_splits\<close>)
    then show ?thesis using False by auto
  next
    case True
    let ?h = "BITVEC_HASH (v - 1)"
    obtain e where e: "path a ?h e" using hash_ok_path [OF Cons.prems(1)] by blast
    let ?a = "a[(?h + e) mod BITVEC_NINT := v]"
    have v: "v \<notin> set a" using Cons.prems(3) True by auto
    have fit: "cnt a + 1 < BITVEC_NINT \<or> filter (\<lambda>v. v \<noteq> 0) vs = []" and "cnt a + 1 \<le> BITVEC_NINT"
      using Cons.prems(4) True by (auto simp: Suc_le_eq)
    have "cnt a + 1 < BITVEC_NINT" using Cons.prems(4) True by simp
    note st = hash_store [OF Cons.prems(1) conjunct1 [OF True] v e this]
    have free: "hash_free a ?h = Some ((?h + e) mod BITVEC_NINT)"
      using hash_free_path [OF _ e, of 0] Cons.prems(1) by (simp add: hash_ok_def BITVEC_HASH_def)
    have "set ?a - {0} = insert v (set a - {0})" by (rule st(2))
    have "\<exists>a'. hash_refill i vs (cnt ?a, ?a) = Some (cnt a', a') \<and> hash_ok a' \<and>
       set a' - {0} = (set ?a - {0}) \<union> (set vs - {0, i + 1})"
    proof (rule Cons.IH [OF st(1)])
      show "distinct (filter (\<lambda>v. v \<noteq> 0) vs)" using Cons.prems(2) by (simp split: if_splits)
      have "v \<notin> set vs" using Cons.prems(2) True by simp
      moreover have "x = v \<or> x \<in> set a" if "x \<in> set ?a" "x \<noteq> 0" for x using that st(2) by blast
      ultimately show "set ?a \<inter> (set vs - {0}) = {}" using Cons.prems(3) by auto
      show "cnt ?a + length (filter (\<lambda>v. v \<noteq> 0) vs) < BITVEC_NINT" using Cons.prems(4) st(3) True by simp
    qed
    then show ?thesis using True free st(2,3) by auto
  qed
qed

lemma leaf_clear_ok:
  assumes "bv_rep p S" and "iDivisor p = 0" and "i < iSize p"
  shows "\<exists>p'. leaf_clear p i = Some p' \<and> bv_rep p' (S - {i}) \<and> iSize p' = iSize p"
  using assms(1)
proof cases
  case (bitmap n b c)
  have l: "i div 8 < length b" "i < BITVEC_NBIT" using bitmap assms(3) by (simp_all add: bitvec_consts)
  let ?b = "b[i div 8 := b ! (i div 8) AND NOT (push_bit (i mod 8) 1)]"
  have b: "bits_of ?b = S - {i}" using bits_of_clear [OF bitmap(4) l(2)] bitmap(2) by simp
  then have "bv_rep (Bitvec n c 0 (ABitmap ?b)) (bits_of ?b)"
    by (intro bv_rep.bitmap) (use bitmap in auto)
  then show ?thesis using l bitmap b by (simp add: leaf_clear_def BITVEC_SZELEM_def)
next
  case (hash n a c)
  have z: "hash_ok (replicate BITVEC_NINT 0)" by (auto simp: hash_ok_def intro: exI [of _ 0])
  have c0: "cnt (replicate BITVEC_NINT 0) = 0" by (simp add: cnt_def)
  have "cnt a < BITVEC_NINT" using hash(3) cnt_free [of a] by (auto simp: hash_ok_def)
  then obtain a' where a': "hash_refill i a (0, replicate BITVEC_NINT 0) = Some (cnt a', a')" "hash_ok a'"
    "set a' - {0} = set a - {0, i + 1}"
    using hash_refill_ok [OF z distinct_nonzero [OF hash(3)], of i] c0 by (auto simp: cnt_def)
  have "v + 1 \<in> set a' \<longleftrightarrow> v \<in> S - {i}" for v
  proof -
    have "v + 1 \<in> set a' - {0} \<longleftrightarrow> v + 1 \<in> set a - {0, i + 1}" using a'(3) by simp
    then show ?thesis using hash(5) by auto
  qed
  then have "bv_rep (Bitvec n (cnt a') 0 (AHash a')) (S - {i})"
    by (intro bv_rep.hash) (use hash a' in auto)
  then show ?thesis using a' hash by (simp add: leaf_clear_def)
next
  case (sub n d ps T c)
  have "0 < d" by (rule divisor_bounds(1) [OF sub(2,3)])
  then show ?thesis using assms(2) sub(1) by simp
qed

lemma clear_loop_ok:
  assumes "bv_rep p S" and "i < iSize p"
  shows "\<exists>p'. clear_loop p i = Some p' \<and> bv_rep p' (S - {i}) \<and> iSize p' = iSize p"
  using assms
proof (induction "iSize p" arbitrary: p S i rule: less_induct)
  case less
  show ?case
  proof (cases "iDivisor p = 0")
    case True
    then show ?thesis using leaf_clear_ok [OF less.prems(1) True less.prems(2)] by (subst clear_loop.simps) simp
  next
    case False
    with less.prems(1) obtain n c d ps where p: "p = Bitvec n c d (ApSub ps)" by (cases rule: bv_rep.cases) auto
    obtain T0 where f: "sub_frame n c d ps S i T0" using sub_update less.prems unfolding p by fastforce
    show ?thesis
    proof (cases "ps ! (i div d)")
      case None
      then have "S - {i} = S" using f by (auto simp: sub_frame_def)
      then show ?thesis using None f less.prems False
        by (subst clear_loop.simps) (simp add: p sub_at_def sub_frame_def)
    next
      case (Some q)
      then have q: "iSize q = d" "bv_rep q T0" "0 < d" "d < n" using f by (simp_all add: sub_frame_def)
      then obtain q1 where q1: "clear_loop q (i mod d) = Some q1" "bv_rep q1 (T0 - {i mod d})" "iSize q1 = d"
        using less.hyps [of q T0 "i mod d"] p by auto
      moreover have "\<exists>S'. bv_rep (Bitvec n c d (ApSub (ps[i div d := Some q1]))) S' \<and> S' = S - {i}"
        using f q1(2,3) unfolding sub_frame_def by blast
      ultimately show ?thesis using Some f False
        by (subst clear_loop.simps) (auto simp: p sub_at_def sub_frame_def set_sub_def)
    qed
  qed
qed

section \<open>Sequences of operations\<close>

datatype bv_op = BV_Set nat | BV_Clear nat

fun bv_step :: "bv_op \<Rightarrow> Bitvec option \<times> allocator \<Rightarrow> (int \<times> Bitvec option \<times> allocator) option" where
  "bv_step (BV_Set i) (po, al) = sqlite3BitvecSet al po i"
| "bv_step (BV_Clear i) (po, al) = map_option (\<lambda>po1. (0, po1, al)) (sqlite3BitvecClear po i)"

fun bv_run :: "bv_op list \<Rightarrow> Bitvec option \<times> allocator \<Rightarrow> (Bitvec option \<times> allocator) option" where
  "bv_run [] st = Some st"
| "bv_run (op # ops) st = Option.bind (bv_step op st) (\<lambda>(rc, st1). bv_run ops st1)"

fun op_in_range :: "nat \<Rightarrow> bv_op \<Rightarrow> bool" where
  "op_in_range n (BV_Set i) = (1 \<le> i \<and> i \<le> n)"
| "op_in_range n (BV_Clear i) = (1 \<le> i \<and> i \<le> n)"

fun set_step :: "bv_op \<Rightarrow> nat set \<Rightarrow> nat set" where
  "set_step (BV_Set i) S = insert i S"
| "set_step (BV_Clear i) S = S - {i}"

text \<open>The bitmap for the set \<open>S\<close> of numbers between 1 and \<open>n\<close>.\<close>

definition bv_for :: "nat \<Rightarrow> Bitvec \<Rightarrow> nat set \<Rightarrow> bool" where
  "bv_for n p S \<longleftrightarrow> iSize p = n \<and> S \<subseteq> {1..n} \<and> bv_rep p {v. v + 1 \<in> S}"

lemma bv_for_rep:
  assumes "bv_rep p T"
  shows "bv_for (iSize p) p (Suc ` T)"
proof -
  have "{v. v + 1 \<in> Suc ` T} = T" by auto
  then show ?thesis using assms bv_rep_bound [OF assms] by (auto simp: bv_for_def)
qed

lemma bv_for_create: "sqlite3BitvecCreate al n = (Some p, al1) \<Longrightarrow> bv_for n p {}"
  using bv_zero_rep [of n] by (auto simp: sqlite3BitvecCreate_def bv_for_def bv_zero_def split: prod.splits if_splits)

lemma bv_for_test:
  assumes "bv_for n p S" and "n < 2 ^ 32" and "i < 2 ^ 32"
  shows "sqlite3BitvecTest (Some p) i = Some (i \<in> S)"
proof (cases i)
  case 0
  then have "dec32 i = 2 ^ 32 - 1" by (simp add: dec32_def)
  then show ?thesis using 0 assms by (auto simp: sqlite3BitvecTest_def sqlite3BitvecTestNotNull_def bv_for_def)
next
  case (Suc j)
  then have "dec32 i = j" using assms(3) by (simp add: dec32_def)
  then show ?thesis using Suc assms test_loop_ok [of p "{v. v + 1 \<in> S}" j]
    by (auto simp: sqlite3BitvecTest_def sqlite3BitvecTestNotNull_def bv_for_def not_less_eq_eq)
qed

lemma bv_for_clear:
  assumes "bv_for n p S" and "1 \<le> i" and "i \<le> n"
  shows "\<exists>p'. sqlite3BitvecClear (Some p) i = Some (Some p') \<and> bv_for n p' (S - {i})"
proof -
  obtain p' where p': "clear_loop p (i - 1) = Some p'" "bv_rep p' ({v. v + 1 \<in> S} - {i - 1})" "iSize p' = iSize p"
    using clear_loop_ok [of p "{v. v + 1 \<in> S}" "i - 1"] assms unfolding bv_for_def by fastforce
  have "{v. v + 1 \<in> S} - {i - 1} = {v. v + 1 \<in> S - {i}}" using assms(2) by auto
  then have "bv_for n p' (S - {i})" using p' assms(1) by (auto simp: bv_for_def)
  then show ?thesis using p'(1) by (simp add: sqlite3BitvecClear_def)
qed

lemma bv_for_set:
  assumes "bv_for n p S" and "1 \<le> i" and "i \<le> n"
  shows "\<exists>rc p' al' S'. sqlite3BitvecSet al (Some p) i = Some (rc, Some p', al') \<and> (rc = 0 \<or> rc = SQLITE_NOMEM) \<and>
    bv_for n p' S' \<and> S' \<subseteq> insert i S \<and> (rc = 0 \<longrightarrow> S' = insert i S) \<and> ((\<forall>ok \<in> set al. ok) \<longrightarrow> rc = 0 \<and> (\<forall>ok \<in> set al'. ok))"
proof -
  have "outcome al p {v. v + 1 \<in> S} {i - 1} (set_values al p [i])"
    by (rule set_values_single) (use assms in \<open>auto simp: bv_for_def\<close>)
  then obtain rc p' al' T where o: "set_values al p [i] = Some (rc, p', al')" "rc = 0 \<or> rc = SQLITE_NOMEM"
    "iSize p' = iSize p" "bv_rep p' T" "T \<subseteq> {v. v + 1 \<in> S} \<union> {i - 1}" "rc = 0 \<longrightarrow> T = {v. v + 1 \<in> S} \<union> {i - 1}"
    "(\<forall>ok \<in> set al. ok) \<longrightarrow> rc = 0 \<and> (\<forall>ok \<in> set al'. ok)" unfolding outcome_def by blast
  have one: "s \<in> S \<Longrightarrow> 1 \<le> s" for s using assms(1) by (auto simp: bv_for_def)
  have "Suc ` ({v. v + 1 \<in> S} \<union> {i - 1}) = insert i S"
  proof -
    have "Suc ` {v. v + 1 \<in> S} = S"
    proof (rule set_eqI)
      fix s show "s \<in> Suc ` {v. v + 1 \<in> S} \<longleftrightarrow> s \<in> S" using one [of s] by (cases s) auto
    qed
    then show ?thesis using assms(2) by (simp add: image_Un)
  qed
  moreover have "bv_for n p' (Suc ` T)" using bv_for_rep [OF o(4)] o(3) assms(1) by (simp add: bv_for_def)
  ultimately have "bv_for n p' (Suc ` T)" "Suc ` T \<subseteq> insert i S" "rc = 0 \<longrightarrow> Suc ` T = insert i S"
    using o(5,6) image_mono [OF o(5), of Suc] by auto
  then show ?thesis using o(1,2,7) by (intro exI conjI) (auto simp: sqlite3BitvecSet_def)
qed

lemma bv_run_ok:
  assumes "bv_for n p S" and "\<forall>op \<in> set ops. op_in_range n op"
  shows "\<exists>p' al' S'. bv_run ops (Some p, al) = Some (Some p', al') \<and> bv_for n p' S' \<and>
    ((\<forall>ok \<in> set al. ok) \<longrightarrow> S' = fold set_step ops S)"
  using assms
proof (induction ops arbitrary: p S al)
  case Nil
  then show ?case by auto
next
  case (Cons op ops)
  show ?case
  proof (cases op)
    case (BV_Set i)
    then have "1 \<le> i" "i \<le> n" using Cons.prems(2) by simp_all
    from bv_for_set [OF Cons.prems(1) this, of al] obtain rc p1 al1 S1 where
      1: "sqlite3BitvecSet al (Some p) i = Some (rc, Some p1, al1)" "bv_for n p1 S1" "rc = 0 \<longrightarrow> S1 = insert i S"
        "(\<forall>ok \<in> set al. ok) \<longrightarrow> rc = 0 \<and> (\<forall>ok \<in> set al1. ok)" by blast
    obtain p' al' S' where 2: "bv_run ops (Some p1, al1) = Some (Some p', al')" "bv_for n p' S'"
        "(\<forall>ok \<in> set al1. ok) \<longrightarrow> S' = fold set_step ops S1"
      using Cons.IH [OF 1(2), of al1] Cons.prems(2) by auto
    have "bv_run (op # ops) (Some p, al) = Some (Some p', al')" using 1(1) 2(1) BV_Set by simp
    moreover have "(\<forall>ok \<in> set al. ok) \<longrightarrow> S' = fold set_step (op # ops) S" using 1(3,4) 2(3) BV_Set by auto
    ultimately show ?thesis using 2(2) by blast
  next
    case (BV_Clear i)
    with Cons.prems bv_for_clear [OF Cons.prems(1), of i] obtain p1 where
      "sqlite3BitvecClear (Some p) i = Some (Some p1)" "bv_for n p1 (S - {i})" by auto
    then show ?thesis using Cons.IH [of p1 "S - {i}" al] Cons.prems(2) BV_Clear by auto
  qed
qed

text \<open>C13: A bitmap is a set of numbers: after any sequence of settings and clearings of numbers between 1 and its size,
  carried out on a fresh bitmap with every allocation succeeding, testing a number answers whether it is in the
  set that the operations leave, through all changes of representation; numbers outside the range test false.\<close>

theorem bitvec_refines_set:
  assumes "n < 2 ^ 32" and "\<forall>op \<in> set ops. op_in_range n op"
  shows "\<exists>p al. bv_run ops (sqlite3BitvecCreate [] n) = Some (Some p, al) \<and> sqlite3BitvecSize p = n \<and>
    (\<forall>i < 2 ^ 32. sqlite3BitvecTest (Some p) i = Some (i \<in> fold set_step ops {}))"
proof -
  have c: "sqlite3BitvecCreate [] n = (Some (bv_zero n), [])" by (simp add: sqlite3BitvecCreate_def bv_malloc_def)
  obtain p al where "bv_run ops (Some (bv_zero n), []) = Some (Some p, al)" "bv_for n p (fold set_step ops {})"
    using bv_run_ok [OF bv_for_create [OF c] assms(2), of "[]"] by auto
  then show ?thesis using c bv_for_test assms(1) by (auto simp: sqlite3BitvecSize_def bv_for_def)
qed

theorem bitvec_refines_set_witness:
  "\<exists>p al. bv_run [BV_Set 4000, BV_Set 7, BV_Clear 4000] (sqlite3BitvecCreate [] 5000) = Some (Some p, al) \<and>
    sqlite3BitvecSize p = 5000 \<and>
    (\<forall>i < 2 ^ 32. sqlite3BitvecTest (Some p) i = Some (i \<in> fold set_step [BV_Set 4000, BV_Set 7, BV_Clear 4000] {}))"
  by (rule bitvec_refines_set) simp_all

text \<open>C14: When an allocation fails while a number is set, nothing else can go wrong: whatever operations were done
  before and whichever of their allocations failed, setting a number in range returns success or \<open>SQLITE_NOMEM\<close>
  and leaves a bitmap in which every test has an answer; on success exactly that number was added, and after
  an error no number tests true that was not in the bitmap or the number set (some of the earlier ones may be lost).\<close>

theorem bitvec_set_out_of_memory:
  assumes "n < 2 ^ 32" and "\<forall>op \<in> set ops. op_in_range n op" and "sqlite3BitvecCreate al n = (Some p0, al0)"
    and "1 \<le> i" and "i \<le> n"
  shows "\<exists>p al1 rc p' al2. bv_run ops (Some p0, al0) = Some (Some p, al1) \<and>
    sqlite3BitvecSet al1 (Some p) i = Some (rc, Some p', al2) \<and> (rc = 0 \<or> rc = SQLITE_NOMEM) \<and>
    (\<forall>j < 2 ^ 32. \<exists>b b'. sqlite3BitvecTest (Some p) j = Some b \<and> sqlite3BitvecTest (Some p') j = Some b' \<and>
       (b' \<longrightarrow> b \<or> j = i) \<and> (rc = 0 \<longrightarrow> b' = (b \<or> j = i)))"
proof -
  obtain p al1 S where 1: "bv_run ops (Some p0, al0) = Some (Some p, al1)" "bv_for n p S"
    using bv_run_ok [OF bv_for_create [OF assms(3)] assms(2)] by blast
  obtain rc p' al2 S' where 2: "sqlite3BitvecSet al1 (Some p) i = Some (rc, Some p', al2)" "rc = 0 \<or> rc = SQLITE_NOMEM"
    "bv_for n p' S'" "S' \<subseteq> insert i S" "rc = 0 \<longrightarrow> S' = insert i S"
    using bv_for_set [OF 1(2) assms(4,5)] by blast
  have "\<exists>b b'. sqlite3BitvecTest (Some p) j = Some b \<and> sqlite3BitvecTest (Some p') j = Some b' \<and>
       (b' \<longrightarrow> b \<or> j = i) \<and> (rc = 0 \<longrightarrow> b' = (b \<or> j = i))" if "j < 2 ^ 32" for j
    using bv_for_test [OF 1(2) assms(1) that] bv_for_test [OF 2(3) assms(1) that] 2(4,5) by auto
  then show ?thesis using 1(1) 2(1,2) by blast
qed

theorem bitvec_set_out_of_memory_witness:
  "\<exists>p al1 rc p' al2. bv_run [BV_Set 3] (Some (bv_zero 5000), [False, True]) = Some (Some p, al1) \<and>
    sqlite3BitvecSet al1 (Some p) 128 = Some (rc, Some p', al2) \<and> (rc = 0 \<or> rc = SQLITE_NOMEM) \<and>
    (\<forall>j < 2 ^ 32. \<exists>b b'. sqlite3BitvecTest (Some p) j = Some b \<and> sqlite3BitvecTest (Some p') j = Some b' \<and>
       (b' \<longrightarrow> b \<or> j = 128) \<and> (rc = 0 \<longrightarrow> b' = (b \<or> j = 128)))"
  by (rule bitvec_set_out_of_memory [where al = "[True, False, True]" and n = 5000])
    (simp_all add: sqlite3BitvecCreate_def bv_malloc_def)

end
