(* ===== verification/Row_Set.thy ===== *)
theory Row_Set
  imports Bitvec "HOL-Library.Tree"
begin

text \<open>
  The RowSet of \<open>sqlite3.c\<close> (\<open>rowset.c\<close>): rowids are collected in a list, sorted and freed of duplicates by a
  merge sort in 40 buckets, and either extracted in order or tested through a forest of balanced trees.

  A list of entries linked by \<open>pRight\<close> is a list of their values, a tree of entries is a binary tree of their values,
  and the forest the list of the trees (an entry of the forest whose \<open>pLeft\<close> is null has the empty tree): no entry is
  ever in two of them, and \<open>pLast\<close>, which is the last cell of \<open>pEntry\<close>, is the value in it.  The chunks are counted
  only through \<open>nFresh\<close>; the allocator is that of the bitmaps.  The two flags are booleans.
\<close>

section \<open>Structure\<close>

text \<open>The entries per chunk: the chunk has an 8-byte link, an entry three words of 8 bytes.\<close>

definition ROWSET_ENTRY_PER_CHUNK :: nat where
  "ROWSET_ENTRY_PER_CHUNK = (1024 - 8) div 24"

record RowSet =
  pEntry :: "int list"
  pLast :: "int option"
  pForest :: "int tree list"
  nFresh :: nat
  rs_sorted :: bool
  rs_next :: bool
  iBatch :: int

text \<open>\<open>N\<close> is the number of bytes the allocator gave; the structure itself takes 56 of them.\<close>

definition sqlite3RowSetInit :: "nat \<Rightarrow> RowSet" where
  "sqlite3RowSetInit N =
     \<lparr>pEntry = [], pLast = None, pForest = [], nFresh = ((N - 56) div 24) mod 2 ^ 16, rs_sorted = True, rs_next = False,
      iBatch = 0\<rparr>"

definition sqlite3RowSetClear :: "RowSet \<Rightarrow> RowSet" where
  "sqlite3RowSetClear p =
     p\<lparr>nFresh := 0, pEntry := [], pLast := None, pForest := [], rs_sorted := True, rs_next := False\<rparr>"

definition rowSetEntryAlloc :: "allocator \<Rightarrow> RowSet \<Rightarrow> bool \<times> RowSet \<times> allocator" where
  "rowSetEntryAlloc al p =
     (if nFresh p = 0
      then (case bv_malloc al of
              (False, al1) \<Rightarrow> (False, p, al1)
            | (True, al1) \<Rightarrow> (True, p\<lparr>nFresh := ROWSET_ENTRY_PER_CHUNK - 1\<rparr>, al1))
      else (True, p\<lparr>nFresh := nFresh p - 1\<rparr>, al))"

section \<open>Inserting\<close>

definition sqlite3RowSetInsert :: "allocator \<Rightarrow> RowSet \<Rightarrow> int \<Rightarrow> RowSet \<times> allocator" where
  "sqlite3RowSetInsert al p rowid =
     (case rowSetEntryAlloc al p of
        (False, p1, al1) \<Rightarrow> (p1, al1)
      | (True, p1, al1) \<Rightarrow>
          (case pLast p1 of
             Some v \<Rightarrow>
               (p1\<lparr>rs_sorted := (if rowid \<le> v then False else rs_sorted p1), pEntry := pEntry p1 @ [rowid],
                   pLast := Some rowid\<rparr>, al1)
           | None \<Rightarrow> (p1\<lparr>pEntry := [rowid], pLast := Some rowid\<rparr>, al1)))"

section \<open>Sorting\<close>

text \<open>Both lists are non-empty when the code calls this.\<close>

fun rowSetEntryMerge :: "int list \<Rightarrow> int list \<Rightarrow> int list" where
  "rowSetEntryMerge (a # pA) (b # pB) =
     (if a \<le> b
      then (let rest = (if pA = [] then b # pB else rowSetEntryMerge pA (b # pB)) in if a < b then a # rest else rest)
      else b # (if pB = [] then a # pA else rowSetEntryMerge (a # pA) pB))"
| "rowSetEntryMerge pA [] = pA"
| "rowSetEntryMerge [] pB = pB"

text \<open>The loop over the buckets; \<open>None\<close> is an index behind the last bucket.\<close>

fun bucket_add :: "int list list \<Rightarrow> int list \<Rightarrow> int list list option" where
  "bucket_add [] pIn = None"
| "bucket_add (b # bs) pIn =
     (if b \<noteq> [] then map_option ((#) []) (bucket_add bs (rowSetEntryMerge b pIn)) else Some (pIn # bs))"

fun sort_fill :: "int list \<Rightarrow> int list list \<Rightarrow> int list list option" where
  "sort_fill [] aBucket = Some aBucket"
| "sort_fill (v # pNext) aBucket = Option.bind (bucket_add aBucket [v]) (sort_fill pNext)"

fun sort_join :: "int list \<Rightarrow> int list list \<Rightarrow> int list" where
  "sort_join pIn [] = pIn"
| "sort_join pIn (b # bs) =
     (if b = [] then sort_join pIn bs else sort_join (if pIn \<noteq> [] then rowSetEntryMerge pIn b else b) bs)"

definition rowSetEntrySort :: "int list \<Rightarrow> int list option" where
  "rowSetEntrySort pIn =
     map_option (\<lambda>aBucket. sort_join (hd aBucket) (tl aBucket)) (sort_fill pIn (replicate 40 []))"

section \<open>Trees\<close>

fun rowSetTreeToList :: "int tree \<Rightarrow> int list" where
  "rowSetTreeToList Leaf = []"
| "rowSetTreeToList (Node l v r) =
     (if l \<noteq> Leaf then rowSetTreeToList l @ [v] else [v]) @ (if r \<noteq> Leaf then rowSetTreeToList r else [])"

text \<open>The tree and the unused rest of the list.\<close>

fun rowSetNDeepTree :: "int list \<Rightarrow> nat \<Rightarrow> int tree \<times> int list" where
  "rowSetNDeepTree ppList iDepth =
     (case ppList of
        [] \<Rightarrow> (Leaf, [])
      | v # list \<Rightarrow>
          (if iDepth > 1
           then (case rowSetNDeepTree ppList (iDepth - 1) of
                   (pL, []) \<Rightarrow> (pL, [])
                 | (pL, w # list1) \<Rightarrow>
                     (case rowSetNDeepTree list1 (iDepth - 1) of (pR, list2) \<Rightarrow> (Node pL w pR, list2)))
           else (Node Leaf v Leaf, list)))"

declare rowSetNDeepTree.simps [simp del]

lemma rowSetNDeepTree_inorder:
  "rowSetNDeepTree list d = (t, rest) \<Longrightarrow> inorder t @ rest = list \<and> height t \<le> max d 1"
proof (induction list d arbitrary: t rest rule: rowSetNDeepTree.induct)
  case (1 list d)
  show ?case
  proof (cases list)
    case Nil
    then show ?thesis using "1.prems" by (simp add: rowSetNDeepTree.simps)
  next
    case (Cons v list0)
    show ?thesis
    proof (cases "d > 1")
      case False
      then show ?thesis using "1.prems" Cons by (auto simp: rowSetNDeepTree.simps)
    next
      case True
      obtain l rest1 where l: "rowSetNDeepTree list (d - 1) = (l, rest1)" by fastforce
      have il: "inorder l @ rest1 = list \<and> height l \<le> max (d - 1) 1" by (rule "1.IH"(1) [OF Cons True]) (use l Cons in simp)
      show ?thesis
      proof (cases rest1)
        case Nil
        then have "t = l" "rest = []" using "1.prems" Cons True l by (auto simp: rowSetNDeepTree.simps [of "v # list0" d])
        then show ?thesis using il Nil True by auto
      next
        case (Cons w list1)
        obtain r rest2 where r: "rowSetNDeepTree list1 (d - 1) = (r, rest2)" by fastforce
        have "inorder r @ rest2 = list1 \<and> height r \<le> max (d - 1) 1"
          by (rule "1.IH"(2) [OF \<open>list = v # list0\<close> True l [symmetric, folded \<open>list = v # list0\<close>] Cons]) (use r in simp)
        moreover have "t = Node l w r" "rest = rest2"
          using "1.prems" \<open>list = v # list0\<close> True l Cons r by (auto simp: rowSetNDeepTree.simps [of "v # list0" d])
        ultimately show ?thesis using il Cons True by auto
      qed
    qed
  qed
qed

lemma rowSetNDeepTree_length: "rowSetNDeepTree list d = (t, rest) \<Longrightarrow> length rest \<le> length list"
  using rowSetNDeepTree_inorder [of list d t rest] by auto

text \<open>The loop that makes the tree deeper.\<close>

function tree_loop :: "int tree \<Rightarrow> nat \<Rightarrow> int list \<Rightarrow> int tree" where
  "tree_loop p iDepth [] = p"
| "tree_loop p iDepth (v # list) =
     (case rowSetNDeepTree list iDepth of (pR, rest) \<Rightarrow> tree_loop (Node p v pR) (iDepth + 1) rest)"
  by pat_completeness auto
termination
  by (relation "measure (\<lambda>(p, d, l). length l)") (auto dest: rowSetNDeepTree_length [OF sym] simp: less_Suc_eq_le)

definition rowSetListToTree :: "int list \<Rightarrow> int tree" where
  "rowSetListToTree pList = (case pList of [] \<Rightarrow> Leaf | v # list \<Rightarrow> tree_loop (Node Leaf v Leaf) 1 list)"

section \<open>Extraction\<close>

text \<open>The next value in order, \<open>None\<close> when there is none left; the whole is \<open>None\<close> for a bad access.\<close>

definition sqlite3RowSetNext :: "RowSet \<Rightarrow> (int option \<times> RowSet) option" where
  "sqlite3RowSetNext p =
     Option.bind
       (if \<not> rs_next p
        then map_option (\<lambda>list. p\<lparr>pEntry := list, rs_sorted := True, rs_next := True\<rparr>)
               (if \<not> rs_sorted p then rowSetEntrySort (pEntry p) else Some (pEntry p))
        else Some p)
       (\<lambda>p1. case pEntry p1 of
               [] \<Rightarrow> Some (None, p1)
             | v # list \<Rightarrow>
                 Some (Some v, let p2 = p1\<lparr>pEntry := list\<rparr> in if list = [] then sqlite3RowSetClear p2 else p2))"

section \<open>Testing\<close>

text \<open>The walk over the forest: the forest with the trees emptied or filled, and the list that has found no place.\<close>

fun forest_add :: "int tree list \<Rightarrow> int list \<Rightarrow> int tree list \<times> int list option" where
  "forest_add [] p = ([], Some p)"
| "forest_add (t # ts) p =
     (if t = Leaf then (rowSetListToTree p # ts, None)
      else (case forest_add ts (rowSetEntryMerge (rowSetTreeToList t) p) of (ts1, q) \<Rightarrow> (Leaf # ts1, q)))"

fun tree_search :: "int tree \<Rightarrow> int \<Rightarrow> bool" where
  "tree_search Leaf iRowid = False"
| "tree_search (Node l v r) iRowid =
     (if v < iRowid then tree_search r iRowid else if v > iRowid then tree_search l iRowid else True)"

fun forest_search :: "int tree list \<Rightarrow> int \<Rightarrow> bool" where
  "forest_search [] iRowid = False"
| "forest_search (t # ts) iRowid = (if tree_search t iRowid then True else forest_search ts iRowid)"

text \<open>The new entries are moved to the forest.\<close>

definition rowset_flush :: "allocator \<Rightarrow> RowSet \<Rightarrow> (RowSet \<times> allocator) option" where
  "rowset_flush al p =
     Option.bind (if \<not> rs_sorted p then rowSetEntrySort (pEntry p) else Some (pEntry p))
       (\<lambda>list. let (p1, al1) =
            (case forest_add (pForest p) list of
               (f, None) \<Rightarrow> (p\<lparr>pForest := f\<rparr>, al)
             | (f, Some q) \<Rightarrow>
                 (case rowSetEntryAlloc al p of
                    (False, p1, al1) \<Rightarrow> (p1\<lparr>pForest := f\<rparr>, al1)
                  | (True, p1, al1) \<Rightarrow> (p1\<lparr>pForest := f @ [rowSetListToTree q]\<rparr>, al1)))
          in Some (p1\<lparr>pEntry := [], pLast := None, rs_sorted := True\<rparr>, al1))"

definition sqlite3RowSetTest :: "allocator \<Rightarrow> RowSet \<Rightarrow> int \<Rightarrow> int \<Rightarrow> (bool \<times> RowSet \<times> allocator) option" where
  "sqlite3RowSetTest al p batch iRowid =
     Option.bind
       (if batch \<noteq> iBatch p
        then map_option (\<lambda>(p1, al1). (p1\<lparr>iBatch := batch\<rparr>, al1))
               (if pEntry p \<noteq> [] then rowset_flush al p else Some (p, al))
        else Some (p, al))
       (\<lambda>(p1, al1). Some (forest_search (pForest p1) iRowid, p1, al1))"

section \<open>Merging and sorting are correct\<close>

lemma merge_set: "set (rowSetEntryMerge pA pB) = set pA \<union> set pB"
  by (induction pA pB rule: rowSetEntryMerge.induct) (auto simp: Let_def)

lemma merge_Nil [simp]: "rowSetEntryMerge [] pB = pB"
  by (cases pB) auto

lemma merge_sorted:
  "sorted_wrt (<) pA \<Longrightarrow> sorted_wrt (<) pB \<Longrightarrow> sorted_wrt (<) (rowSetEntryMerge pA pB)"
proof (induction pA pB rule: rowSetEntryMerge.induct)
  case (1 a pA b pB)
  have "sorted_wrt (<) (rowSetEntryMerge pA (b # pB))" if "a \<le> b"
    using that 1 by (cases "pA = []") auto
  moreover have "sorted_wrt (<) (rowSetEntryMerge (a # pA) pB)" if "\<not> a \<le> b"
    using that 1 by (cases "pB = []") auto
  moreover have "rowSetEntryMerge (a # pA) (b # pB) =
      (if a < b then a # rowSetEntryMerge pA (b # pB)
       else if a = b then rowSetEntryMerge pA (b # pB) else b # rowSetEntryMerge (a # pA) pB)"
    by (auto simp: Let_def)
  ultimately show ?case using "1.prems" by (auto simp: merge_set)
qed auto

lemma merge_not_Nil [simp]: "pA \<noteq> [] \<or> pB \<noteq> [] \<Longrightarrow> rowSetEntryMerge pA pB \<noteq> []"
  using merge_set [of pA pB] by (metis set_empty sup_eq_bot_iff)

text \<open>The filled buckets are the binary digits of the number of values added.\<close>

fun bucket_number :: "int list list \<Rightarrow> nat" where
  "bucket_number [] = 0"
| "bucket_number (b # bs) = (if b = [] then 0 else 1) + 2 * bucket_number bs"

definition buckets_ok :: "int list list \<Rightarrow> bool" where
  "buckets_ok bs \<longleftrightarrow> (\<forall>b \<in> set bs. sorted_wrt (<) b)"

lemma bucket_add_ok:
  assumes "buckets_ok bs" and "sorted_wrt (<) p" and "p \<noteq> []" and "bucket_number bs + 1 < 2 ^ length bs"
  shows "\<exists>bs'. bucket_add bs p = Some bs' \<and> buckets_ok bs' \<and> length bs' = length bs \<and>
    bucket_number bs' = bucket_number bs + 1 \<and> \<Union> (set ` set bs') = set p \<union> \<Union> (set ` set bs)"
  using assms
proof (induction bs p rule: bucket_add.induct)
  case (2 b bs p)
  show ?case
  proof (cases "b = []")
    case True
    then show ?thesis using "2.prems" by (auto simp: buckets_ok_def)
  next
    case False
    have "\<exists>bs'. bucket_add bs (rowSetEntryMerge b p) = Some bs' \<and> buckets_ok bs' \<and> length bs' = length bs \<and>
      bucket_number bs' = bucket_number bs + 1 \<and>
      \<Union> (set ` set bs') = set (rowSetEntryMerge b p) \<union> \<Union> (set ` set bs)"
      by (rule "2.IH") (use False "2.prems" in \<open>auto simp: buckets_ok_def merge_sorted\<close>)
    then obtain bs' where "bucket_add bs (rowSetEntryMerge b p) = Some bs'" "buckets_ok bs'" "length bs' = length bs"
      "bucket_number bs' = bucket_number bs + 1" "\<Union> (set ` set bs') = set b \<union> set p \<union> \<Union> (set ` set bs)"
      by (auto simp: merge_set)
    then show ?thesis using False by (auto simp: buckets_ok_def)
  qed
qed (simp add: buckets_ok_def)

lemma sort_fill_ok:
  assumes "buckets_ok bs" and "bucket_number bs + length vs < 2 ^ length bs"
  shows "\<exists>bs'. sort_fill vs bs = Some bs' \<and> buckets_ok bs' \<and> length bs' = length bs \<and>
    \<Union> (set ` set bs') = set vs \<union> \<Union> (set ` set bs)"
  using assms
proof (induction vs arbitrary: bs)
  case (Cons v vs)
  obtain bs1 where bs1: "bucket_add bs [v] = Some bs1" "buckets_ok bs1" "length bs1 = length bs"
    "bucket_number bs1 = bucket_number bs + 1" "\<Union> (set ` set bs1) = set [v] \<union> \<Union> (set ` set bs)"
    using bucket_add_ok [OF Cons.prems(1), of "[v]"] Cons.prems(2) by auto
  obtain bs' where "sort_fill vs bs1 = Some bs'" "buckets_ok bs'" "length bs' = length bs1"
    "\<Union> (set ` set bs') = set vs \<union> \<Union> (set ` set bs1)"
    using Cons.IH [OF bs1(2)] bs1(3,4) Cons.prems(2) by auto
  then show ?case using bs1 by auto
qed simp

lemma sort_join_ok:
  "sorted_wrt (<) p \<Longrightarrow> buckets_ok bs \<Longrightarrow>
     sorted_wrt (<) (sort_join p bs) \<and> set (sort_join p bs) = set p \<union> \<Union> (set ` set bs)"
proof (induction bs arbitrary: p)
  case (Cons b bs)
  then show ?case using Cons.IH [of p] Cons.IH [of "rowSetEntryMerge p b"]
    by (auto simp: buckets_ok_def merge_sorted merge_set)
qed simp

lemma rowSetEntrySort_ok:
  assumes "length vs < 2 ^ 40"
  shows "rowSetEntrySort vs = Some (sorted_list_of_set (set vs))"
proof -
  have "buckets_ok (replicate 40 [])" "bucket_number (replicate n []) = 0" for n
    by (auto simp: buckets_ok_def) (induction n; simp)
  then obtain bs where bs: "sort_fill vs (replicate 40 []) = Some bs" "buckets_ok bs" "length bs = 40"
    "\<Union> (set ` set bs) = set vs"
    using sort_fill_ok [of "replicate 40 []" vs] assms by auto
  then obtain b bs' where b: "bs = b # bs'" by (cases bs) auto
  have "sorted_wrt (<) (sort_join b bs')" "set (sort_join b bs') = set vs"
    using sort_join_ok [of b bs'] bs b by (auto simp: buckets_ok_def)
  then have "sort_join b bs' = sorted_list_of_set (set vs)"
    by (metis strict_sorted_equal finite_set set_sorted_list_of_set strict_sorted_list_of_set)
  then show ?thesis using bs(1) b by (simp add: rowSetEntrySort_def)
qed

section \<open>Trees are correct\<close>

lemma rowSetTreeToList_inorder [simp]: "rowSetTreeToList t = inorder t"
  by (induction t) auto

lemma tree_loop_inorder: "inorder (tree_loop p d list) = inorder p @ list"
proof (induction p d list rule: tree_loop.induct)
  case (2 p d v list)
  then show ?case using rowSetNDeepTree_inorder [of list d] by (auto split: prod.splits)
qed simp

lemma rowSetListToTree_inorder [simp]: "inorder (rowSetListToTree list) = list"
  by (simp add: rowSetListToTree_def tree_loop_inorder split: list.split)

lemma tree_search_ok: "sorted_wrt (<) (inorder t) \<Longrightarrow> tree_search t x \<longleftrightarrow> x \<in> set_tree t"
  by (induction t) (auto simp: sorted_wrt_append)

lemma rowSetNDeepTree_size:
  "rowSetNDeepTree list d = (t, rest) \<Longrightarrow> 1 \<le> d \<Longrightarrow> size t = min (length list) (2 ^ d - 1)"
proof (induction list d arbitrary: t rest rule: rowSetNDeepTree.induct)
  case (1 list d)
  show ?case
  proof (cases list)
    case Nil
    then show ?thesis using "1.prems" by (simp add: rowSetNDeepTree.simps)
  next
    case (Cons v list0)
    note l0 = Cons
    show ?thesis
    proof (cases "d > 1")
      case False
      then have "d = 1" using "1.prems" by simp
      then show ?thesis using "1.prems" Cons by (auto simp: rowSetNDeepTree.simps)
    next
      case True
      obtain l rest1 where l: "rowSetNDeepTree list (d - 1) = (l, rest1)" by fastforce
      have sl: "size l = min (length list) (2 ^ (d - 1) - 1)"
        by (rule "1.IH"(1) [OF Cons True]) (use l Cons True in auto)
      have il: "inorder l @ rest1 = list" using rowSetNDeepTree_inorder [OF l] by simp
      then have len: "size l + length rest1 = length list" by (metis length_append length_inorder)
      have p: "(2 :: nat) ^ d = 2 * 2 ^ (d - 1)" using True by (cases d) auto
      show ?thesis
      proof (cases rest1)
        case Nil
        then have "t = l" using "1.prems" l0 True l by (auto simp: rowSetNDeepTree.simps [of "v # list0" d])
        then show ?thesis using sl len Nil p by simp
      next
        case (Cons w list1)
        obtain r rest2 where r: "rowSetNDeepTree list1 (d - 1) = (r, rest2)" by fastforce
        have "size r = min (length list1) (2 ^ (d - 1) - 1)"
          by (rule "1.IH"(2) [OF l0 True l [symmetric, folded l0] Cons]) (use r True in auto)
        moreover have "t = Node l w r"
          using "1.prems" l0 True l Cons r by (auto simp: rowSetNDeepTree.simps [of "v # list0" d])
        moreover obtain m where "(2 :: nat) ^ (d - 1) = Suc m" using not0_implies_Suc [of "2 ^ (d - 1)"] by auto
        moreover have "size l + Suc (length list1) = length list" using len Cons by simp
        ultimately show ?thesis using sl p by (simp add: min_def split: if_splits)
      qed
    qed
  qed
qed

lemma tree_loop_height:
  assumes "1 \<le> d" and "size p = 2 ^ d - 1" and "height p = d"
  shows "2 ^ (height (tree_loop p d list) - 1) \<le> size (tree_loop p d list)"
  using assms
proof (induction p d list rule: tree_loop.induct)
  case (1 p d)
  have "(2 :: nat) ^ d = 2 * 2 ^ (d - 1)" using "1.prems" by (cases d) auto
  then show ?case using "1.prems" by simp
next
  case (2 p d v list)
  obtain r rest where r: "rowSetNDeepTree list d = (r, rest)" by fastforce
  have h: "height (Node p v r) = d + 1" "inorder r @ rest = list"
    using rowSetNDeepTree_inorder [OF r] "2.prems" by auto
  have s: "size r = min (length list) (2 ^ d - 1)" using rowSetNDeepTree_size [OF r] "2.prems" by simp
  have l: "length list = size r + length rest" using h(2) by (metis length_append length_inorder)
  show ?case
  proof (cases rest)
    case Nil
    then show ?thesis using r h "2.prems" by (simp add: max_def)
  next
    case (Cons w rest1)
    then have "size r = 2 ^ d - 1" using s l by simp
    moreover obtain m where "(2 :: nat) ^ d = Suc m" using not0_implies_Suc [of "2 ^ d"] by auto
    ultimately have "size (Node p v r) = 2 ^ (d + 1) - 1" using "2.prems" by simp
    then show ?thesis using "2.IH" [OF r [symmetric]] h r by simp
  qed
qed

section \<open>The values a RowSet holds\<close>

text \<open>\<open>V\<close> are the values in the forest, \<open>P\<close> the values inserted since; \<open>k\<close> bounds their number.\<close>

definition rs_rep :: "RowSet \<Rightarrow> int set \<Rightarrow> int set \<Rightarrow> nat \<Rightarrow> bool" where
  "rs_rep p V P k \<longleftrightarrow>
     (\<forall>t \<in> set (pForest p). sorted_wrt (<) (inorder t)) \<and> V = \<Union> (set_tree ` set (pForest p)) \<and>
     P = set (pEntry p) \<and> length (pEntry p) \<le> k \<and> (rs_sorted p \<longrightarrow> sorted_wrt (<) (pEntry p)) \<and>
     pLast p = (if pEntry p = [] then None else Some (last (pEntry p))) \<and> \<not> rs_next p"

lemma rs_rep_init: "rs_rep (sqlite3RowSetInit n) {} {} 0"
  by (simp add: rs_rep_def sqlite3RowSetInit_def)

lemma alloc_fields:
  assumes "rowSetEntryAlloc al p = (ok, p1, al1)"
  shows "\<exists>n. p1 = p\<lparr>nFresh := n\<rparr>" and "(\<forall>ok \<in> set al. ok) \<longrightarrow> ok \<and> (\<forall>ok \<in> set al1. ok)"
proof -
  have "p = p\<lparr>nFresh := nFresh p\<rparr>" by (cases p) simp
  then show "\<exists>n. p1 = p\<lparr>nFresh := n\<rparr>"
    using assms by (auto simp only: rowSetEntryAlloc_def prod.inject split: if_splits list.splits prod.splits bool.splits)
  show "(\<forall>ok \<in> set al. ok) \<longrightarrow> ok \<and> (\<forall>ok \<in> set al1. ok)"
    using assms by (auto simp: rowSetEntryAlloc_def bv_malloc_def split: if_splits list.splits)
qed

lemma last_sorted: "sorted_wrt (<) (xs :: int list) \<Longrightarrow> x \<in> set xs \<Longrightarrow> x \<le> last xs"
proof (induction xs)
  case (Cons a xs)
  then show ?case using last_in_set [of xs] by (cases "xs = []") (auto simp: less_imp_le)
qed simp

lemma rs_rep_insert:
  assumes "rs_rep p V P k" and "sqlite3RowSetInsert al p v = (p', al')"
  shows "\<exists>P'. rs_rep p' V P' (k + 1) \<and> iBatch p' = iBatch p \<and> P' \<subseteq> insert v P \<and>
    ((\<forall>ok \<in> set al. ok) \<longrightarrow> P' = insert v P \<and> (\<forall>ok \<in> set al'. ok))"
proof -
  obtain ok p1 al1 where a: "rowSetEntryAlloc al p = (ok, p1, al1)" by (metis prod_cases3)
  obtain n where n: "p1 = p\<lparr>nFresh := n\<rparr>" using alloc_fields(1) [OF a] by blast
  note ok = alloc_fields(2) [OF a]
  show ?thesis
  proof (cases ok)
    case False
    then have "p' = p1" "al' = al1" using assms(2) a by (simp_all add: sqlite3RowSetInsert_def)
    then have "rs_rep p' V P (k + 1)" "iBatch p' = iBatch p" using assms(1) n by (auto simp: rs_rep_def)
    then show ?thesis using ok False by blast
  next
    case True
    have "al' = al1" using assms(2) a True by (auto simp: sqlite3RowSetInsert_def split: option.splits)
    moreover have "iBatch p' = iBatch p \<and> rs_rep p' V (insert v P) (k + 1)"
    proof (cases "pEntry p = []")
      case True
      then show ?thesis using assms a n \<open>ok\<close> by (auto simp: sqlite3RowSetInsert_def rs_rep_def)
    next
      case False
      then have "sorted_wrt (<) (pEntry p @ [v])" if "rs_sorted p" "\<not> v \<le> last (pEntry p)"
        using assms(1) that last_sorted [of "pEntry p"] by (fastforce simp: rs_rep_def sorted_wrt_append)
      then show ?thesis using False assms a n \<open>ok\<close>
        by (auto simp: sqlite3RowSetInsert_def rs_rep_def split: if_splits)
    qed
    ultimately show ?thesis using ok by blast
  qed
qed

text \<open>The entries in order, as both the extraction and the flush take them.\<close>

lemma rs_rep_entries:
  assumes "rs_rep p V P k" and "k < 2 ^ 40"
  shows "(if \<not> rs_sorted p then rowSetEntrySort (pEntry p) else Some (pEntry p)) = Some (sorted_list_of_set P)"
  using assms rowSetEntrySort_ok [of "pEntry p"] strict_sorted_equal [of "pEntry p" "sorted_list_of_set P"]
  by (auto simp: rs_rep_def strict_sorted_list_of_set)

lemma forest_add_ok:
  assumes "forest_add ts q = (ts', r)" and "\<forall>t \<in> set ts. sorted_wrt (<) (inorder t)" and "sorted_wrt (<) q"
  shows "(\<forall>t \<in> set ts'. sorted_wrt (<) (inorder t)) \<and> (\<forall>x. r = Some x \<longrightarrow> sorted_wrt (<) x) \<and>
    \<Union> (set_tree ` set ts') \<union> (case r of None \<Rightarrow> {} | Some x \<Rightarrow> set x) = \<Union> (set_tree ` set ts) \<union> set q"
  using assms
proof (induction ts q arbitrary: ts' r rule: forest_add.induct)
  case (2 t ts q)
  show ?case
  proof (cases "t = Leaf")
    case True
    have "set_tree (rowSetListToTree q) = set q" by (metis set_inorder rowSetListToTree_inorder)
    then show ?thesis using True "2.prems" by auto
  next
    case False
    obtain ts1 r1 where r1: "forest_add ts (rowSetEntryMerge (rowSetTreeToList t) q) = (ts1, r1)" by fastforce
    have ih: "(\<forall>t \<in> set ts1. sorted_wrt (<) (inorder t)) \<and> (\<forall>x. r1 = Some x \<longrightarrow> sorted_wrt (<) x) \<and>
      \<Union> (set_tree ` set ts1) \<union> (case r1 of None \<Rightarrow> {} | Some x \<Rightarrow> set x) =
      \<Union> (set_tree ` set ts) \<union> set (rowSetEntryMerge (rowSetTreeToList t) q)"
      by (rule "2.IH" [OF False r1]) (use "2.prems" in \<open>auto simp: merge_sorted\<close>)
    have e: "ts' = Leaf # ts1" "r = r1" using r1 False "2.prems"(1) by auto
    have "\<Union> (set_tree ` set ts') \<union> (case r of None \<Rightarrow> {} | Some x \<Rightarrow> set x) = \<Union> (set_tree ` set ts) \<union> (set_tree t \<union> set q)"
      using ih e by (simp add: merge_set)
    moreover have "\<Union> (set_tree ` set ts) \<union> (set_tree t \<union> set q) = \<Union> (set_tree ` set (t # ts)) \<union> set q" by auto
    ultimately show ?thesis using ih e by simp
  qed
qed auto

lemma rowset_flush_ok:
  assumes "rs_rep p V P k" and "k < 2 ^ 40"
  shows "\<exists>p' al' V'. rowset_flush al p = Some (p', al') \<and> rs_rep p' V' {} k \<and> V' \<subseteq> V \<union> P \<and> iBatch p' = iBatch p \<and>
    ((\<forall>ok \<in> set al. ok) \<longrightarrow> V' = V \<union> P \<and> (\<forall>ok \<in> set al'. ok))"
proof -
  let ?q = "sorted_list_of_set P"
  have q: "sorted_wrt (<) ?q" "set ?q = P" using assms(1) by (auto simp: rs_rep_def)
  obtain f r where f: "forest_add (pForest p) ?q = (f, r)" by fastforce
  have fo: "\<forall>t \<in> set f. sorted_wrt (<) (inorder t)" "\<forall>x. r = Some x \<longrightarrow> sorted_wrt (<) x"
    "\<Union> (set_tree ` set f) \<union> (case r of None \<Rightarrow> {} | Some x \<Rightarrow> set x) = V \<union> P"
  proof -
    have "\<forall>t \<in> set (pForest p). sorted_wrt (<) (inorder t)" "\<Union> (set_tree ` set (pForest p)) = V"
      using assms(1) by (simp_all add: rs_rep_def)
    note forest_add_ok [OF f this(1) q(1), unfolded this(2) q(2)]
    then show "\<forall>t \<in> set f. sorted_wrt (<) (inorder t)" "\<forall>x. r = Some x \<longrightarrow> sorted_wrt (<) x"
      "\<Union> (set_tree ` set f) \<union> (case r of None \<Rightarrow> {} | Some x \<Rightarrow> set x) = V \<union> P" by blast+
  qed
  note fl = rowset_flush_def rs_rep_entries [OF assms]
  show ?thesis
  proof (cases r)
    case None
    let ?p = "p\<lparr>pForest := f, pEntry := [], pLast := None, rs_sorted := True\<rparr>"
    have "rowset_flush al p = Some (?p, al)" using f None by (simp add: fl)
    moreover have "rs_rep ?p (V \<union> P) {} k" using fo None assms(1) by (simp add: rs_rep_def)
    moreover have "iBatch ?p = iBatch p" by simp
    ultimately show ?thesis by blast
  next
    case (Some x)
    obtain ok p1 al1 where a: "rowSetEntryAlloc al p = (ok, p1, al1)" by (metis prod_cases3)
    obtain n where n: "p1 = p\<lparr>nFresh := n\<rparr>" using alloc_fields(1) [OF a] by blast
    note ok = alloc_fields(2) [OF a]
    have x: "set_tree (rowSetListToTree x) = set x" by (metis set_inorder rowSetListToTree_inorder)
    let ?f = "if ok then f @ [rowSetListToTree x] else f"
    let ?p = "p1\<lparr>pForest := ?f, pEntry := [], pLast := None, rs_sorted := True\<rparr>"
    have "rowset_flush al p = Some (?p, al1)" using f Some a by (cases ok) (simp_all add: fl)
    moreover have "rs_rep ?p (\<Union> (set_tree ` set ?f)) {} k" using fo(1,2) Some assms(1) n by (auto simp: rs_rep_def)
    moreover have "\<Union> (set_tree ` set ?f) \<subseteq> V \<union> P" "ok \<longrightarrow> \<Union> (set_tree ` set ?f) = V \<union> P"
      using fo(3) Some x by auto
    moreover have "iBatch ?p = iBatch p" using n by simp
    ultimately show ?thesis using ok by blast
  qed
qed

lemma forest_search_ok:
  "\<forall>t \<in> set ts. sorted_wrt (<) (inorder t) \<Longrightarrow> forest_search ts x \<longleftrightarrow> x \<in> \<Union> (set_tree ` set ts)"
  by (induction ts) (auto simp: tree_search_ok)

lemma rs_rep_test:
  assumes "rs_rep p V P k" and "k < 2 ^ 40"
  shows "\<exists>p' al' V' P'. sqlite3RowSetTest al p b x = Some (x \<in> V', p', al') \<and> rs_rep p' V' P' k \<and> iBatch p' = b \<and>
    (if b = iBatch p then V' = V \<and> P' = P else V' \<subseteq> V \<union> P \<and> P' = {}) \<and>
    ((\<forall>ok \<in> set al. ok) \<longrightarrow> (b \<noteq> iBatch p \<longrightarrow> V' = V \<union> P) \<and> (\<forall>ok \<in> set al'. ok))"
proof (cases "b \<noteq> iBatch p \<and> pEntry p \<noteq> []")
  case False
  then have t: "sqlite3RowSetTest al p b x = Some (forest_search (pForest p) x, p\<lparr>iBatch := b\<rparr>, al)"
    by (auto simp: sqlite3RowSetTest_def)
  have "rs_rep (p\<lparr>iBatch := b\<rparr>) V P k" using assms(1) by (auto simp: rs_rep_def)
  moreover have "forest_search (pForest p) x \<longleftrightarrow> x \<in> V" using assms(1) forest_search_ok by (auto simp: rs_rep_def)
  moreover have "b \<noteq> iBatch p \<longrightarrow> P = {}" using False assms(1) by (auto simp: rs_rep_def)
  ultimately show ?thesis using t by (intro exI [of _ "p\<lparr>iBatch := b\<rparr>"] exI [of _ al] exI [of _ V] exI [of _ P]) auto
next
  case True
  obtain p' al' V' where f: "rowset_flush al p = Some (p', al')" "rs_rep p' V' {} k" "V' \<subseteq> V \<union> P"
    "(\<forall>ok \<in> set al. ok) \<longrightarrow> V' = V \<union> P \<and> (\<forall>ok \<in> set al'. ok)"
    using rowset_flush_ok [OF assms, of al] by metis
  let ?p = "p'\<lparr>iBatch := b\<rparr>"
  have "forest_search (pForest p') x \<longleftrightarrow> x \<in> V'" using f(2) forest_search_ok by (auto simp: rs_rep_def)
  then have "sqlite3RowSetTest al p b x = Some (x \<in> V', ?p, al')" using True f(1) by (simp add: sqlite3RowSetTest_def)
  moreover have "rs_rep ?p V' {} k" using f(2) by (simp add: rs_rep_def)
  moreover have "iBatch ?p = b" by simp
  moreover have "if b = iBatch p then V' = V \<and> {} = P else V' \<subseteq> V \<union> P \<and> {} = ({} :: int set)" using f(3) True by simp
  moreover have "(\<forall>ok \<in> set al. ok) \<longrightarrow> (b \<noteq> iBatch p \<longrightarrow> V' = V \<union> P) \<and> (\<forall>ok \<in> set al'. ok)" using f(4) by blast
  ultimately show ?thesis by (intro exI conjI) assumption+
qed

section \<open>Sequences of operations\<close>

datatype rs_op = RS_Insert int | RS_Test int int

text \<open>The answers of the tests, in order.\<close>

fun rs_run :: "rs_op list \<Rightarrow> allocator \<Rightarrow> RowSet \<Rightarrow> (bool list \<times> RowSet \<times> allocator) option" where
  "rs_run [] al p = Some ([], p, al)"
| "rs_run (RS_Insert v # ops) al p = (case sqlite3RowSetInsert al p v of (p1, al1) \<Rightarrow> rs_run ops al1 p1)"
| "rs_run (RS_Test b v # ops) al p =
     Option.bind (sqlite3RowSetTest al p b v)
       (\<lambda>(r, p1, al1). map_option (\<lambda>(rs, st). (r # rs, st)) (rs_run ops al1 p1))"

text \<open>What the documentation of the module promises: a test sees the values inserted before the last change of the
  batch number.\<close>

fun rs_spec :: "rs_op list \<Rightarrow> int set \<Rightarrow> int set \<Rightarrow> int \<Rightarrow> bool list" where
  "rs_spec [] V P b = []"
| "rs_spec (RS_Insert v # ops) V P b = rs_spec ops V (insert v P) b"
| "rs_spec (RS_Test b' v # ops) V P b =
     (if b' = b then (v \<in> V) # rs_spec ops V P b else (v \<in> V \<union> P) # rs_spec ops (V \<union> P) {} b')"

lemma rs_run_ok:
  assumes "rs_rep p V P k" and "k + length ops < 2 ^ 40" and "V \<subseteq> V0" and "P \<subseteq> P0"
    and "e \<longrightarrow> V = V0 \<and> P = P0 \<and> (\<forall>ok \<in> set al. ok)"
  shows "\<exists>rs p' al'. rs_run ops al p = Some (rs, p', al') \<and> list_all2 (\<longrightarrow>) rs (rs_spec ops V0 P0 (iBatch p)) \<and>
    (e \<longrightarrow> rs = rs_spec ops V0 P0 (iBatch p))"
  using assms
proof (induction ops arbitrary: p V P V0 P0 k al)
  case Nil
  then show ?case by simp
next
  case (Cons op ops)
  show ?case
  proof (cases op)
    case (RS_Insert v)
    obtain p1 al1 where i: "sqlite3RowSetInsert al p v = (p1, al1)" by fastforce
    obtain P1 where P1: "rs_rep p1 V P1 (k + 1)" "iBatch p1 = iBatch p" "P1 \<subseteq> insert v P"
      "(\<forall>ok \<in> set al. ok) \<longrightarrow> P1 = insert v P \<and> (\<forall>ok \<in> set al1. ok)"
      using rs_rep_insert [OF Cons.prems(1) i] by blast
    have "P1 \<subseteq> insert v P0" "e \<longrightarrow> V = V0 \<and> P1 = insert v P0 \<and> (\<forall>ok \<in> set al1. ok)"
      using P1(3,4) Cons.prems(4,5) by auto
    moreover have "k + 1 + length ops < 2 ^ 40" using Cons.prems(2) by simp
    ultimately obtain rs p' al' where "rs_run ops al1 p1 = Some (rs, p', al')"
      "list_all2 (\<longrightarrow>) rs (rs_spec ops V0 (insert v P0) (iBatch p))" "e \<longrightarrow> rs = rs_spec ops V0 (insert v P0) (iBatch p)"
      using Cons.IH [OF P1(1) _ Cons.prems(3), of "insert v P0" al1] P1(2) by auto
    then show ?thesis using RS_Insert i by simp
  next
    case (RS_Test b v)
    have "k < 2 ^ 40" using Cons.prems(2) by simp
    from rs_rep_test [OF Cons.prems(1) this, of al b v] obtain p1 al1 V1 P1 where
      t: "sqlite3RowSetTest al p b v = Some (v \<in> V1, p1, al1)" "rs_rep p1 V1 P1 k" "iBatch p1 = b"
        "if b = iBatch p then V1 = V \<and> P1 = P else V1 \<subseteq> V \<union> P \<and> P1 = {}"
        "(\<forall>ok \<in> set al. ok) \<longrightarrow> (b \<noteq> iBatch p \<longrightarrow> V1 = V \<union> P) \<and> (\<forall>ok \<in> set al1. ok)" by metis
    define W Q where "W = (if b = iBatch p then V0 else V0 \<union> P0)" and "Q = (if b = iBatch p then P0 else {})"
    have s: "rs_spec (op # ops) V0 P0 (iBatch p) = (v \<in> W) # rs_spec ops W Q b" using RS_Test by (simp add: W_def Q_def)
    have "V1 \<subseteq> W" "P1 \<subseteq> Q" using t(4) Cons.prems(3,4) by (auto simp: W_def Q_def split: if_splits)
    moreover have "e \<longrightarrow> V1 = W \<and> P1 = Q \<and> (\<forall>ok \<in> set al1. ok)"
      using t(4,5) Cons.prems(5) by (auto simp: W_def Q_def split: if_splits)
    moreover have "k + length ops < 2 ^ 40" using Cons.prems(2) by simp
    ultimately obtain rs p' al' where "rs_run ops al1 p1 = Some (rs, p', al')" "list_all2 (\<longrightarrow>) rs (rs_spec ops W Q b)"
      "e \<longrightarrow> rs = rs_spec ops W Q b" "V1 \<subseteq> W" "e \<longrightarrow> V1 = W"
      using Cons.IH [OF t(2), of W Q al1] t(3) by auto
    then show ?thesis using s t(1) RS_Test by auto
  qed
qed

text \<open>C15: A RowSet answers tests as its module documentation promises: whatever rowids are inserted and tested in
  whatever batches, every test says whether the rowid was inserted before the last change of the batch number; if
  allocations fail, values can get lost, but no test says yes for a rowid that such a set does not contain.  The
  sort in 40 buckets stays in its array.\<close>

theorem rowset_refines_batches:
  assumes "length ops < 2 ^ 40"
  shows "\<exists>rs p al'. rs_run ops al (sqlite3RowSetInit n) = Some (rs, p, al') \<and>
    list_all2 (\<longrightarrow>) rs (rs_spec ops {} {} 0) \<and> ((\<forall>ok \<in> set al. ok) \<longrightarrow> rs = rs_spec ops {} {} 0)"
  using rs_run_ok [OF rs_rep_init [of n], of ops "{}" "{}" "\<forall>ok \<in> set al. ok" al] assms
  by (auto simp: sqlite3RowSetInit_def)

theorem rowset_refines_batches_witness:
  "\<exists>rs p al'. rs_run [RS_Insert 5, RS_Test 1 5, RS_Insert 3, RS_Test 1 3] [] (sqlite3RowSetInit 512) = Some (rs, p, al') \<and>
    list_all2 (\<longrightarrow>) rs (rs_spec [RS_Insert 5, RS_Test 1 5, RS_Insert 3, RS_Test 1 3] {} {} 0) \<and>
    ((\<forall>ok \<in> set []. ok) \<longrightarrow> rs = rs_spec [RS_Insert 5, RS_Test 1 5, RS_Insert 3, RS_Test 1 3] {} {} 0)"
  by (rule rowset_refines_batches) simp

section \<open>Extraction in order\<close>

text \<open>The answers of \<open>n\<close> extractions.\<close>

fun rs_drain :: "nat \<Rightarrow> RowSet \<Rightarrow> int option list option" where
  "rs_drain 0 p = Some []"
| "rs_drain (Suc n) p = Option.bind (sqlite3RowSetNext p) (\<lambda>(v, p1). map_option ((#) v) (rs_drain n p1))"

lemma rs_drain_sorted:
  "rs_sorted p \<or> rs_next p \<Longrightarrow>
     rs_drain n p = Some (take n (map Some (pEntry p) @ replicate n None))"
proof (induction n arbitrary: p)
  case (Suc n)
  have IH: "rs_sorted q \<or> rs_next q \<Longrightarrow> rs_drain n q = Some (take n (map Some (pEntry q) @ replicate n None))" for q
    by (rule Suc.IH)
  show ?case
  proof (cases "pEntry p")
    case Nil
    then show ?thesis using Suc.prems by (auto simp: sqlite3RowSetNext_def IH)
  next
    case (Cons v list)
    have r: "take m (None # replicate n None) = replicate m None" if "m \<le> n" for m and n :: nat
      using that take_replicate [of m "Suc n" None] by (simp del: take_replicate)
    show ?thesis using Suc.prems Cons by (auto simp: sqlite3RowSetNext_def IH sqlite3RowSetClear_def Let_def r)
  qed
qed simp

lemma rs_insert_run:
  assumes "rs_rep p V P k" and "\<forall>ok \<in> set al. ok"
  shows "\<exists>p' al'. rs_run (map RS_Insert vs) al p = Some ([], p', al') \<and> rs_rep p' V (P \<union> set vs) (k + length vs)"
  using assms
proof (induction vs arbitrary: p P k al)
  case (Cons v vs)
  obtain p1 al1 where i: "sqlite3RowSetInsert al p v = (p1, al1)" by fastforce
  have p1: "rs_rep p1 V (insert v P) (k + 1)" "\<forall>ok \<in> set al1. ok"
    using rs_rep_insert [OF Cons.prems(1) i] Cons.prems(2) by auto
  show ?case using Cons.IH [OF p1] i by simp
qed simp

text \<open>C16: After rowids have been inserted in any order and with any repetitions, the extractions return each of them once, in
  ascending order, and then report that the set is empty, as often as they are called.\<close>

theorem rowset_extracts_in_order:
  assumes "length vs < 2 ^ 40" and "\<forall>ok \<in> set al. ok"
  shows "\<exists>p al'. rs_run (map RS_Insert vs) al (sqlite3RowSetInit n) = Some ([], p, al') \<and>
    (\<forall>m. rs_drain m p = Some (take m (map Some (sorted_list_of_set (set vs)) @ replicate m None)))"
proof -
  obtain p al' where p: "rs_run (map RS_Insert vs) al (sqlite3RowSetInit n) = Some ([], p, al')" "rs_rep p {} (set vs) (length vs)"
    using rs_insert_run [OF rs_rep_init [of n] assms(2), of vs] by auto
  let ?l = "sorted_list_of_set (set vs)"
  let ?q = "p\<lparr>pEntry := ?l, rs_sorted := True\<rparr>"
  have n: "\<not> rs_next p" using p(2) by (simp add: rs_rep_def)
  have "sqlite3RowSetNext p = sqlite3RowSetNext ?q"
    using rs_rep_entries [OF p(2) assms(1)] n by (simp add: sqlite3RowSetNext_def)
  then have "rs_drain m p = rs_drain m ?q" for m by (cases m) simp_all
  then show ?thesis using p(1) rs_drain_sorted [of ?q] by auto
qed

theorem rowset_extracts_in_order_witness:
  "\<exists>p al'. rs_run (map RS_Insert [7, -2, 7, 5]) [] (sqlite3RowSetInit 56) = Some ([], p, al') \<and>
    (\<forall>m. rs_drain m p = Some (take m (map Some (sorted_list_of_set (set [7, -2, 7, 5])) @ replicate m None)))"
  by (rule rowset_extracts_in_order) simp_all

text \<open>The tree built from a sorted list holds the same values in the same order, is searched correctly and is balanced: a
  tree of depth \<open>h\<close> has at least \<open>2 ^ (h - 1)\<close> entries.\<close>

theorem rowSetListToTree_balanced:
  assumes "sorted_wrt (<) list" and "list \<noteq> []"
  shows "inorder (rowSetListToTree list) = list \<and> (\<forall>x. tree_search (rowSetListToTree list) x \<longleftrightarrow> x \<in> set list) \<and>
    2 ^ (height (rowSetListToTree list) - 1) \<le> length list"
proof -
  have "x \<in> set_tree (rowSetListToTree list) \<longleftrightarrow> x \<in> set list" for x by (metis set_inorder rowSetListToTree_inorder)
  moreover have "size (rowSetListToTree list) = length list" by (metis length_inorder rowSetListToTree_inorder)
  moreover obtain v list0 where "list = v # list0" using assms(2) by (cases list) auto
  ultimately show ?thesis using assms tree_loop_height [of 1 "Node Leaf v Leaf" list0]
    by (auto simp: tree_search_ok) (auto simp: rowSetListToTree_def)
qed

theorem rowSetListToTree_balanced_witness:
  "inorder (rowSetListToTree [1, 4, 6, 9]) = [1, 4, 6, 9] \<and>
    (\<forall>x. tree_search (rowSetListToTree [1, 4, 6, 9]) x \<longleftrightarrow> x \<in> set [1, 4, 6, 9]) \<and>
    2 ^ (height (rowSetListToTree [1, 4, 6, 9]) - 1) \<le> length [1, 4, 6, 9 :: int]"
  by (rule rowSetListToTree_balanced) simp_all

end
