(* ===== verification/Varint.thy ===== *)
theory Varint
  imports Bytes
begin

text \<open>
  The variable-length integers of \<open>sqlite3.c\<close> (\<open>util.c\<close>): the encoding of 64-bit values in one to nine bytes that the
  records and the b-tree pages of a database file are made of.  The decoder works on two 32-bit registers in which the
  7-bit groups of the even and of the odd bytes are collected; it is compared with the encoding as documented.

  A buffer is the list of its bytes; reading behind its end is \<open>None\<close>.
\<close>

section \<open>Writing\<close>

text \<open>The first loop of \<open>putVarint64\<close>: the bytes \<open>p[i]\<close> down to \<open>p[0]\<close> are put in front of the ones behind them.\<close>

fun put_down :: "nat \<Rightarrow> 64 word \<Rightarrow> byte list \<Rightarrow> byte list" where
  "put_down 0 v p = p"
| "put_down (Suc i) v p = put_down i (drop_bit 7 v) (ucast ((v AND 0x7f) OR 0x80) # p)"

text \<open>The loop that fills \<open>buf\<close>.\<close>

function put_buf :: "64 word \<Rightarrow> byte list \<Rightarrow> byte list" where
  "put_buf v buf =
     (let buf1 = buf @ [ucast ((v AND 0x7f) OR 0x80)]; v1 = drop_bit 7 v in
      if v1 \<noteq> 0 then put_buf v1 buf1 else buf1)"
  by pat_completeness auto

definition putVarint64 :: "64 word \<Rightarrow> byte list" where
  "putVarint64 v =
     (if v AND push_bit 32 0xff000000 \<noteq> 0
      then put_down 8 (drop_bit 8 v) [ucast v]
      else (let buf = put_buf v [] in rev (buf[0 := buf ! 0 AND 0x7f])))"

text \<open>The bytes written; the result of the function is their number.\<close>

definition sqlite3PutVarint :: "64 word \<Rightarrow> byte list" where
  "sqlite3PutVarint v =
     (if v \<le> 0x7f then [ucast (v AND 0x7f)]
      else if v \<le> 0x3fff then [ucast ((drop_bit 7 v AND 0x7f) OR 0x80), ucast (v AND 0x7f)]
      else putVarint64 v)"

lemma drop7_less:
  fixes v :: "64 word"
  assumes "drop_bit 7 v \<noteq> 0"
  shows "unat (drop_bit 7 v) < unat v"
proof -
  have "unat (drop_bit 7 v) = drop_bit 7 (unat v)" by (rule unat_drop_bit_eq)
  then have "unat (drop_bit 7 v) = unat v div 128" by (simp only: drop_bit_eq_div) simp
  moreover have "v \<noteq> 0" using assms by auto
  then have "unat v > 0" by (simp add: unat_gt_0)
  ultimately show ?thesis by simp
qed

termination put_buf
  by (relation "measure (\<lambda>(v, b). unat v)") (auto simp: drop7_less)

text \<open>The loop counts \<open>i\<close> while the shifted value is not 0.\<close>

function varint_len_loop :: "nat \<Rightarrow> 64 word \<Rightarrow> nat" where
  "varint_len_loop i v = (if drop_bit 7 v \<noteq> 0 then varint_len_loop (i + 1) (drop_bit 7 v) else i)"
  by pat_completeness auto
termination
  by (relation "measure (\<lambda>(i, v). unat v)") (auto simp: drop7_less)

definition sqlite3VarintLen :: "64 word \<Rightarrow> nat" where
  "sqlite3VarintLen v = varint_len_loop 1 v"

declare put_buf.simps [simp del] varint_len_loop.simps [simp del]

section \<open>Reading\<close>

definition SLOT_2_0 :: "32 word" where "SLOT_2_0 = 0x001fc07f"

definition SLOT_4_2_0 :: "32 word" where "SLOT_4_2_0 = 0xf01fc07f"

text \<open>Reading the \<open>k\<close>-th byte of the buffer: \<open>None\<close> behind its end.\<close>

definition at_byte :: "byte list \<Rightarrow> nat \<Rightarrow> 32 word option" where
  "at_byte p k = (if k < length p then Some (ucast (p ! k)) else None)"

text \<open>The value \<open>(u64)s << 32 | a\<close>.\<close>

definition join64 :: "32 word \<Rightarrow> 32 word \<Rightarrow> 64 word" where
  "join64 s a = push_bit 32 (ucast s) OR ucast a"

text \<open>The steps of the decoder, named after the comments that describe the registers.\<close>

definition getVarint_9 :: "byte list \<Rightarrow> 32 word \<Rightarrow> 32 word \<Rightarrow> 32 word \<Rightarrow> (64 word \<times> nat) option" where
  "getVarint_9 p a b s =
     Option.bind (at_byte p 8) (\<lambda>c.
       let a1 = push_bit 15 a OR c; b1 = push_bit 8 (b AND SLOT_2_0); a2 = a1 OR b1; s1 = push_bit 4 s in
       Option.bind (at_byte p 4) (\<lambda>d. Some (join64 (s1 OR drop_bit 3 (d AND 0x7f)) a2, 9)))"

definition getVarint_8 :: "byte list \<Rightarrow> 32 word \<Rightarrow> 32 word \<Rightarrow> 32 word \<Rightarrow> (64 word \<times> nat) option" where
  "getVarint_8 p a b s =
     Option.bind (at_byte p 7) (\<lambda>c.
       let b1 = push_bit 14 b OR c in
       if b1 AND 0x80 = 0
       then Some (join64 (drop_bit 4 s) (push_bit 7 a OR (b1 AND SLOT_4_2_0)), 8)
       else getVarint_9 p a b1 s)"

definition getVarint_7 :: "byte list \<Rightarrow> 32 word \<Rightarrow> 32 word \<Rightarrow> 32 word \<Rightarrow> (64 word \<times> nat) option" where
  "getVarint_7 p a b s =
     Option.bind (at_byte p 6) (\<lambda>c.
       let a1 = push_bit 14 a OR c in
       if a1 AND 0x80 = 0
       then Some (join64 (drop_bit 11 s) ((a1 AND SLOT_4_2_0) OR push_bit 7 (b AND SLOT_2_0)), 7)
       else getVarint_8 p (a1 AND SLOT_2_0) b s)"

definition getVarint_6 :: "byte list \<Rightarrow> 32 word \<Rightarrow> 32 word \<Rightarrow> 32 word \<Rightarrow> (64 word \<times> nat) option" where
  "getVarint_6 p a b s =
     Option.bind (at_byte p 5) (\<lambda>c.
       let s1 = push_bit 7 s OR b; b1 = push_bit 14 b OR c in
       if b1 AND 0x80 = 0
       then Some (join64 (drop_bit 18 s1) (push_bit 7 (a AND SLOT_2_0) OR b1), 6)
       else getVarint_7 p a b1 s1)"

definition getVarint_5 :: "byte list \<Rightarrow> 32 word \<Rightarrow> 32 word \<Rightarrow> (64 word \<times> nat) option" where
  "getVarint_5 p a b =
     Option.bind (at_byte p 4) (\<lambda>c.
       let b1 = b AND SLOT_2_0; s = a; a1 = push_bit 14 a OR c in
       if a1 AND 0x80 = 0
       then Some (join64 (drop_bit 18 s) (a1 OR push_bit 7 b1), 5)
       else getVarint_6 p a1 b1 s)"

definition getVarint_4 :: "byte list \<Rightarrow> 32 word \<Rightarrow> 32 word \<Rightarrow> (64 word \<times> nat) option" where
  "getVarint_4 p a b =
     Option.bind (at_byte p 3) (\<lambda>c.
       let a1 = a AND SLOT_2_0; b1 = push_bit 14 b OR c in
       if b1 AND 0x80 = 0
       then Some (ucast (push_bit 7 a1 OR (b1 AND SLOT_2_0)), 4)
       else getVarint_5 p a1 b1)"

definition sqlite3GetVarint :: "byte list \<Rightarrow> (64 word \<times> nat) option" where
  "sqlite3GetVarint p =
     Option.bind (at_byte p 0) (\<lambda>p0.
       if 0 \<le> sint (ucast p0 :: byte) then Some (ucast p0, 1)
       else Option.bind (at_byte p 1) (\<lambda>p1.
         if 0 \<le> sint (ucast p1 :: byte) then Some (ucast (push_bit 7 (p0 AND 0x7f) OR p1), 2)
         else Option.bind (at_byte p 2) (\<lambda>c.
           let a = push_bit 14 p0 OR c; b = p1 in
           if a AND 0x80 = 0
           then Some (ucast ((a AND SLOT_2_0) OR push_bit 7 (b AND 0x7f)), 3)
           else getVarint_4 p a b)))"

definition sqlite3GetVarint32 :: "byte list \<Rightarrow> (32 word \<times> nat) option" where
  "sqlite3GetVarint32 p =
     Option.bind (at_byte p 0) (\<lambda>p0. Option.bind (at_byte p 1) (\<lambda>p1.
       if p1 AND 0x80 = 0 then Some (push_bit 7 (p0 AND 0x7f) OR p1, 2)
       else Option.bind (at_byte p 2) (\<lambda>p2.
         if p2 AND 0x80 = 0 then Some (push_bit 14 (p0 AND 0x7f) OR push_bit 7 (p1 AND 0x7f) OR p2, 3)
         else map_option (\<lambda>(v64, n). (if v64 AND 0xffffffff \<noteq> v64 then 0xffffffff else ucast v64, n))
                (sqlite3GetVarint p))))"

section \<open>The documented encoding\<close>

text \<open>Seven bits per byte, the most significant first, while the high bit is set; the ninth byte has eight.\<close>

fun varint_ref :: "nat \<Rightarrow> 64 word \<Rightarrow> byte list \<Rightarrow> (64 word \<times> nat) option" where
  "varint_ref k acc [] = None"
| "varint_ref k acc (b # p) =
     (if k = 8 then Some (push_bit 8 acc OR ucast b, 9)
      else if b < 0x80 then Some (push_bit 7 acc OR ucast b, k + 1)
      else varint_ref (k + 1) (push_bit 7 acc OR ucast (b AND 0x7f)) p)"

section \<open>The registers, bit by bit\<close>

lemma and_7f: "w AND 0x7f = take_bit 7 (w :: 'a :: len word)"
  by (simp add: take_bit_eq_mask mask_eq_exp_minus_1)

lemma bit_SLOT_2_0: "bit SLOT_2_0 n \<longleftrightarrow> n < 7 \<or> 14 \<le> n \<and> n < 21"
proof -
  have e: "SLOT_2_0 = push_bit 14 (mask 7) OR mask 7" by (simp add: SLOT_2_0_def mask_eq_exp_minus_1)
  show ?thesis unfolding e by (auto simp: bit_simps)
qed

lemma bit_SLOT_4_2_0: "bit SLOT_4_2_0 n \<longleftrightarrow> n < 7 \<or> 14 \<le> n \<and> n < 21 \<or> 28 \<le> n \<and> n < 32"
proof -
  have e: "SLOT_4_2_0 = push_bit 28 (mask 4) OR (push_bit 14 (mask 7) OR mask 7)"
    by (simp add: SLOT_4_2_0_def mask_eq_exp_minus_1)
  show ?thesis unfolding e by (auto simp: bit_simps)
qed

lemma bit_join64: "bit (join64 s a) n \<longleftrightarrow> (if n < 32 then bit a n else n < 64 \<and> bit s (n - 32))"
  using bit_imp_le_length [of a n] bit_imp_le_length [of s "n - 32"] by (auto simp: join64_def bit_simps)

lemma word64_eqI:
  fixes v w :: "64 word"
  assumes "\<forall>n \<in> {0, 1, 2, 3, 4, 5, 6, 7, 8, 9, 10, 11, 12, 13, 14, 15, 16, 17, 18, 19, 20, 21, 22, 23, 24, 25, 26, 27, 28, 29, 30, 31, 32, 33, 34, 35, 36, 37, 38, 39, 40, 41, 42, 43, 44, 45, 46, 47, 48, 49, 50, 51, 52, 53, 54, 55, 56, 57, 58, 59, 60, 61, 62, 63}. bit v n = bit w n"
  shows "v = w"
proof (rule bit_word_eqI)
  fix n assume "n < LENGTH(64)"
  then have "n \<in> {..<64}" by simp
  also have "{..<64 :: nat} = {0, 1, 2, 3, 4, 5, 6, 7, 8, 9, 10, 11, 12, 13, 14, 15, 16, 17, 18, 19, 20, 21, 22, 23, 24, 25, 26, 27, 28, 29, 30, 31, 32, 33, 34, 35, 36, 37, 38, 39, 40, 41, 42, 43, 44, 45, 46, 47, 48, 49, 50, 51, 52, 53, 54, 55, 56, 57, 58, 59, 60, 61, 62, 63}" by code_simp
  finally show "bit v n = bit w n" using assms by blast
qed

lemmas varint_bits = and_7f bit_SLOT_2_0 bit_SLOT_4_2_0 bit_join64 bit_simps

text \<open>The value of the bytes before the last one.\<close>

definition acc7 :: "byte list \<Rightarrow> 64 word" where
  "acc7 bs = foldl (\<lambda>acc b. push_bit 7 acc OR ucast (b AND 0x7f)) 0 bs"

lemma acc7_snoc: "acc7 (bs @ [b]) = push_bit 7 (acc7 bs) OR ucast (b AND 0x7f)"
  by (simp add: acc7_def)

definition w2 :: "byte \<Rightarrow> byte \<Rightarrow> 32 word" where
  "w2 x y = push_bit 14 (ucast x) OR ucast y"

definition w3 :: "byte \<Rightarrow> byte \<Rightarrow> byte \<Rightarrow> 32 word" where
  "w3 x y z = push_bit 14 (w2 x y AND SLOT_2_0) OR ucast z"

definition w4 :: "byte \<Rightarrow> byte \<Rightarrow> byte \<Rightarrow> byte \<Rightarrow> 32 word" where
  "w4 x y z u = push_bit 14 (w3 x y z) OR ucast u"

definition s4 :: "byte \<Rightarrow> byte \<Rightarrow> byte \<Rightarrow> byte \<Rightarrow> 32 word" where
  "s4 x y z u = push_bit 7 (w2 x z AND SLOT_2_0) OR (w2 y u AND SLOT_2_0)"

lemmas registers = w2_def w3_def w4_def s4_def acc7_def

lemma case_2: "\<not> bit p1 7 \<Longrightarrow> ucast (push_bit 7 (ucast p0 AND 0x7f) OR ucast p1 :: 32 word) = push_bit 7 (acc7 [p0]) OR ucast p1" for p1 :: byte
  unfolding registers by (rule word64_eqI) (simp add: varint_bits)

lemma case_3: "\<not> bit p2 7 \<Longrightarrow>
    ucast ((w2 p0 p2 AND SLOT_2_0) OR push_bit 7 (ucast p1 AND 0x7f)) = push_bit 7 (acc7 [p0, p1]) OR ucast p2" for p2 :: byte
  unfolding registers by (rule word64_eqI) (simp add: varint_bits)

lemma case_4: "\<not> bit p3 7 \<Longrightarrow>
    ucast (push_bit 7 (w2 p0 p2 AND SLOT_2_0) OR (w2 p1 p3 AND SLOT_2_0)) = push_bit 7 (acc7 [p0, p1, p2]) OR ucast p3" for p3 :: byte
  unfolding registers by (rule word64_eqI) (simp add: varint_bits)

lemma case_5: "\<not> bit p4 7 \<Longrightarrow>
    join64 (drop_bit 18 (w2 p0 p2 AND SLOT_2_0)) (w3 p0 p2 p4 OR push_bit 7 (w2 p1 p3 AND SLOT_2_0)) =
    push_bit 7 (acc7 [p0, p1, p2, p3]) OR ucast p4" for p4 :: byte
  unfolding registers by (rule word64_eqI) (simp add: varint_bits)

lemma case_6: "\<not> bit p5 7 \<Longrightarrow>
    join64 (drop_bit 18 (s4 p0 p1 p2 p3)) (push_bit 7 (w3 p0 p2 p4 AND SLOT_2_0) OR w3 p1 p3 p5) =
    push_bit 7 (acc7 [p0, p1, p2, p3, p4]) OR ucast p5" for p5 :: byte
  unfolding registers by (rule word64_eqI) (simp add: varint_bits)

lemma case_7: "\<not> bit p6 7 \<Longrightarrow>
    join64 (drop_bit 11 (s4 p0 p1 p2 p3)) ((w4 p0 p2 p4 p6 AND SLOT_4_2_0) OR push_bit 7 (w3 p1 p3 p5 AND SLOT_2_0)) =
    push_bit 7 (acc7 [p0, p1, p2, p3, p4, p5]) OR ucast p6" for p6 :: byte
  unfolding registers by (rule word64_eqI) (simp add: varint_bits)

lemma case_8: "\<not> bit p7 7 \<Longrightarrow>
    join64 (drop_bit 4 (s4 p0 p1 p2 p3)) (push_bit 7 (w4 p0 p2 p4 p6 AND SLOT_2_0) OR (w4 p1 p3 p5 p7 AND SLOT_4_2_0)) =
    push_bit 7 (acc7 [p0, p1, p2, p3, p4, p5, p6]) OR ucast p7" for p7 :: byte
  unfolding registers by (rule word64_eqI) (simp add: varint_bits)

lemma case_9:
  "join64 (push_bit 4 (s4 p0 p1 p2 p3) OR drop_bit 3 (ucast p4 AND 0x7f))
     ((push_bit 15 (w4 p0 p2 p4 p6 AND SLOT_2_0) OR ucast p8) OR push_bit 8 (w4 p1 p3 p5 p7 AND SLOT_2_0)) =
    push_bit 8 (acc7 [p0, p1, p2, p3, p4, p5, p6, p7]) OR ucast p8" for p8 :: byte
  unfolding registers by (rule word64_eqI) (simp add: varint_bits)

section \<open>The decoder and the documented encoding\<close>

lemma and_80: "w AND 0x80 = 0 \<longleftrightarrow> \<not> bit (w :: 32 word) 7"
proof -
  have "0x80 = push_bit 7 (1 :: 32 word)" by simp
  then show ?thesis by (metis bit_iff_and_push_bit_not_eq_0)
qed

lemma sint_80: "0 \<le> sint (b :: byte) \<longleftrightarrow> \<not> bit b 7"
  using bit_last_iff [of b] by (simp add: not_less)

lemma at_byte_nth [simp]: "k < length p \<Longrightarrow> at_byte p k = Some (ucast (p ! k))" "length p \<le> k \<Longrightarrow> at_byte p k = None"
  by (simp_all add: at_byte_def)

declare push_bit_and [simp del] drop_bit_and [simp del] push_bit_or [simp del] drop_bit_or [simp del]
  push_bit_push_bit [simp del] drop_bit_drop_bit [simp del]

lemma register_7 [simp]:
  "bit (w2 x y) 7 = bit y 7" "bit (w3 x y z) 7 = bit z 7" "bit (w4 x y z u) 7 = bit u 7"
  by (simp_all add: w2_def w3_def w4_def bit_simps)

lemma stage_9:
  "getVarint_9 (p0 # p1 # p2 # p3 # p4 # p5 # p6 # p7 # r) (w4 p0 p2 p4 p6 AND SLOT_2_0) (w4 p1 p3 p5 p7) (s4 p0 p1 p2 p3) =
     varint_ref 8 (acc7 [p0, p1, p2, p3, p4, p5, p6, p7]) r"
  by (cases r) (simp_all add: getVarint_9_def Let_def case_9 [symmetric])

lemma stage_8:
  "getVarint_8 (p0 # p1 # p2 # p3 # p4 # p5 # p6 # r) (w4 p0 p2 p4 p6 AND SLOT_2_0) (w3 p1 p3 p5) (s4 p0 p1 p2 p3) =
     varint_ref 7 (acc7 [p0, p1, p2, p3, p4, p5, p6]) r"
proof (cases r)
  case (Cons p7 r1)
  have w: "push_bit 14 (w3 p1 p3 p5) OR ucast p7 = w4 p1 p3 p5 p7" by (simp add: w4_def)
  show ?thesis using Cons stage_9 [of p0 p1 p2 p3 p4 p5 p6 p7 r1] acc7_snoc [of "[p0, p1, p2, p3, p4, p5, p6]" p7]
    by (simp add: getVarint_8_def Let_def w and_80 less_80 case_8 [symmetric])
qed (simp add: getVarint_8_def)

lemma stage_7:
  "getVarint_7 (p0 # p1 # p2 # p3 # p4 # p5 # r) (w3 p0 p2 p4) (w3 p1 p3 p5) (s4 p0 p1 p2 p3) =
     varint_ref 6 (acc7 [p0, p1, p2, p3, p4, p5]) r"
proof (cases r)
  case (Cons p6 r1)
  have w: "push_bit 14 (w3 p0 p2 p4) OR ucast p6 = w4 p0 p2 p4 p6" by (simp add: w4_def)
  show ?thesis using Cons stage_8 [of p0 p1 p2 p3 p4 p5 p6 r1] acc7_snoc [of "[p0, p1, p2, p3, p4, p5]" p6]
    by (simp add: getVarint_7_def Let_def w and_80 less_80 case_7 [symmetric])
qed (simp add: getVarint_7_def)

lemma stage_6:
  "getVarint_6 (p0 # p1 # p2 # p3 # p4 # r) (w3 p0 p2 p4) (w2 p1 p3 AND SLOT_2_0) (w2 p0 p2 AND SLOT_2_0) =
     varint_ref 5 (acc7 [p0, p1, p2, p3, p4]) r"
proof (cases r)
  case (Cons p5 r1)
  have w: "push_bit 14 (w2 p1 p3 AND SLOT_2_0) OR ucast p5 = w3 p1 p3 p5"
    "push_bit 7 (w2 p0 p2 AND SLOT_2_0) OR w2 p1 p3 AND SLOT_2_0 = s4 p0 p1 p2 p3" by (simp_all add: w3_def s4_def)
  show ?thesis using Cons stage_7 [of p0 p1 p2 p3 p4 p5 r1] acc7_snoc [of "[p0, p1, p2, p3, p4]" p5]
    by (simp add: getVarint_6_def Let_def w and_80 less_80 case_6 [symmetric])
qed (simp add: getVarint_6_def)

lemma stage_5:
  "getVarint_5 (p0 # p1 # p2 # p3 # r) (w2 p0 p2 AND SLOT_2_0) (w2 p1 p3) = varint_ref 4 (acc7 [p0, p1, p2, p3]) r"
proof (cases r)
  case (Cons p4 r1)
  have w: "push_bit 14 (w2 p0 p2 AND SLOT_2_0) OR ucast p4 = w3 p0 p2 p4" by (simp add: w3_def)
  show ?thesis using Cons stage_6 [of p0 p1 p2 p3 p4 r1] acc7_snoc [of "[p0, p1, p2, p3]" p4]
    by (simp add: getVarint_5_def Let_def w and_80 less_80 case_5 [symmetric])
qed (simp add: getVarint_5_def)

lemma stage_4:
  "getVarint_4 (p0 # p1 # p2 # r) (w2 p0 p2) (ucast p1) = varint_ref 3 (acc7 [p0, p1, p2]) r"
proof (cases r)
  case (Cons p3 r1)
  have w: "push_bit 14 (ucast p1) OR ucast p3 = w2 p1 p3" by (simp add: w2_def)
  show ?thesis using Cons stage_5 [of p0 p1 p2 p3 r1] acc7_snoc [of "[p0, p1, p2]" p3]
    by (simp add: getVarint_4_def Let_def w and_80 less_80 case_4 [symmetric])
qed (simp add: getVarint_4_def)

lemma acc7_short: "acc7 [] = 0" "acc7 [p0] = ucast (p0 AND 0x7f)"
  by (simp_all add: acc7_def)

lemma sqlite3GetVarint_ref: "sqlite3GetVarint p = varint_ref 0 0 p"
proof (cases p)
  case (Cons p0 r0)
  show ?thesis
  proof (cases r0)
    case Nil
    then show ?thesis using Cons by (simp add: sqlite3GetVarint_def sint_80 less_80)
  next
    case (Cons p1 r1)
    note p = Cons \<open>p = p0 # r0\<close>
    have w: "push_bit 14 (ucast p0) OR ucast p2 = w2 p0 p2" for p2 by (simp add: w2_def)
    have 1: "sqlite3GetVarint p =
        (if \<not> bit p0 7 then Some (ucast p0, 1)
         else if \<not> bit p1 7 then Some (ucast (push_bit 7 (ucast p0 AND 0x7f) OR ucast p1 :: 32 word), 2)
         else (case r1 of [] \<Rightarrow> None | p2 # r2 \<Rightarrow>
           if \<not> bit p2 7 then Some (ucast ((w2 p0 p2 AND SLOT_2_0) OR push_bit 7 (ucast p1 AND 0x7f)), 3)
           else getVarint_4 p (w2 p0 p2) (ucast p1)))"
      by (simp add: sqlite3GetVarint_def sint_80 p Let_def and_80 w split: list.split)
    have 2: "varint_ref 0 0 p =
        (if \<not> bit p0 7 then Some (ucast p0, 1)
         else if \<not> bit p1 7 then Some (push_bit 7 (acc7 [p0]) OR ucast p1, 2)
         else (case r1 of [] \<Rightarrow> None | p2 # r2 \<Rightarrow>
           if \<not> bit p2 7 then Some (push_bit 7 (acc7 [p0, p1]) OR ucast p2, 3)
           else varint_ref 3 (acc7 [p0, p1, p2]) r2))"
      using acc7_snoc [of "[p0]" p1] acc7_snoc [of "[p0, p1]"] by (simp add: p less_80 acc7_short eval_nat_numeral split: list.split)
    show ?thesis unfolding 1 2 by (simp add: case_2 case_3 stage_4 p split: list.split)
  qed
qed (simp add: sqlite3GetVarint_def)

section \<open>The encoder\<close>

text \<open>The seven-bit groups of a value with the flag bit, the most significant first.\<close>

fun groups :: "nat \<Rightarrow> 64 word \<Rightarrow> byte list" where
  "groups 0 v = []"
| "groups (Suc k) v = groups k (drop_bit 7 v) @ [ucast ((v AND 0x7f) OR 0x80)]"

lemma length_groups [simp]: "length (groups k v) = k"
  by (induction k arbitrary: v) auto

lemma put_down_groups: "put_down k v p = groups k v @ p"
  by (induction k v p rule: put_down.induct) simp_all

lemma group_flag: "bit (ucast ((v AND 0x7f) OR 0x80) :: byte) 7" and
  group_data: "ucast (ucast ((v AND 0x7f) OR 0x80) AND 0x7f :: byte) = take_bit 7 v" for v :: "64 word"
proof -
  have "0x80 = push_bit 7 (1 :: 64 word)" by simp
  then have e: "bit (0x80 :: 64 word) n \<longleftrightarrow> n = 7" for n by (simp only: bit_push_bit_iff bit_1_iff) auto
  have "0x80 = push_bit 7 (1 :: byte)" by simp
  then have e8: "bit (0x80 :: byte) n \<longleftrightarrow> n = 7" for n by (simp only: bit_push_bit_iff bit_1_iff) auto
  have b: "bit (ucast ((v AND 0x7f) OR 0x80) :: byte) n \<longleftrightarrow> n = 7 \<or> n < 7 \<and> bit v n" for n
    by (simp only: bit_unsigned_iff bit_or_iff e and_7f bit_take_bit_iff) auto
  show "bit (ucast ((v AND 0x7f) OR 0x80) :: byte) 7" by (simp only: b) simp
  show "ucast (ucast ((v AND 0x7f) OR 0x80) AND 0x7f :: byte) = take_bit 7 v" unfolding and_7f [where 'a = 8]
    by (rule bit_word_eqI) (simp only: bit_unsigned_iff bit_take_bit_iff bit_or_iff e and_7f, auto)
qed

lemma group_last: "ucast ((v AND 0x7f) OR 0x80) AND 0x7f = (ucast (v AND 0x7f) :: byte)" for v :: "64 word"
proof -
  have "0x80 = push_bit 7 (1 :: 64 word)" by simp
  then have e: "bit (0x80 :: 64 word) n \<longleftrightarrow> n = 7" for n by (simp only: bit_push_bit_iff bit_1_iff) auto
  show ?thesis by (rule bit_word_eqI) (simp only: bit_unsigned_iff bit_take_bit_iff bit_or_iff e and_7f, auto)
qed

lemma read_groups:
  "j + k \<le> 8 \<Longrightarrow> varint_ref j acc (groups k w @ q) = varint_ref (j + k) (push_bit (7 * k) acc OR take_bit (7 * k) w) q"
proof (induction k arbitrary: w q)
  case (Suc k)
  have "push_bit 7 (push_bit (7 * k) acc OR take_bit (7 * k) (drop_bit 7 w)) OR take_bit 7 w =
      push_bit (7 * Suc k) acc OR take_bit (7 * Suc k) w"
  proof (rule bit_word_eqI)
    fix n assume "n < LENGTH(64)"
    then show "bit (push_bit 7 (push_bit (7 * k) acc OR take_bit (7 * k) (drop_bit 7 w)) OR take_bit 7 w) n =
        bit (push_bit (7 * Suc k) acc OR take_bit (7 * Suc k) w) n"
      by (cases "n < 7") (auto simp: bit_simps)
  qed
  then show ?case using Suc.IH [of "drop_bit 7 w" "ucast ((w AND 0x7f) OR 0x80) # q"] Suc.prems
    by (simp add: group_flag group_data less_80)
qed simp

lemma len_loop_shift: "varint_len_loop (i + k) v = varint_len_loop i v + k"
proof (induction i v rule: varint_len_loop.induct)
  case (1 i v)
  then show ?case using varint_len_loop.simps [of "i + k" v] varint_len_loop.simps [of i v] by (simp split: if_splits)
qed

lemma VarintLen_rec: "sqlite3VarintLen v = (if drop_bit 7 v \<noteq> 0 then sqlite3VarintLen (drop_bit 7 v) + 1 else 1)"
  using len_loop_shift [of 1 1 "drop_bit 7 v"] unfolding sqlite3VarintLen_def by (subst varint_len_loop.simps) simp

lemma VarintLen_pos: "0 < sqlite3VarintLen v"
  by (subst VarintLen_rec) simp

lemma VarintLen_le: "1 \<le> k \<Longrightarrow> drop_bit (7 * k) v = 0 \<Longrightarrow> sqlite3VarintLen v \<le> k"
proof (induction k arbitrary: v)
  case (Suc k)
  have d: "drop_bit (7 * k) (drop_bit 7 v) = 0" using Suc.prems(2) by (simp add: drop_bit_drop_bit algebra_simps)
  show ?case
  proof (cases "drop_bit 7 v = 0")
    case True
    then show ?thesis by (subst VarintLen_rec) simp
  next
    case False
    then have "1 \<le> k" using d by (cases k) auto
    then show ?thesis using Suc.IH [OF _ d] by (subst VarintLen_rec) simp
  qed
qed simp

lemma VarintLen_ge: "drop_bit (7 * k) v \<noteq> 0 \<Longrightarrow> k < sqlite3VarintLen v"
proof (induction k arbitrary: v)
  case (Suc k)
  have d: "drop_bit (7 * k) (drop_bit 7 v) \<noteq> 0" using Suc.prems by (simp add: drop_bit_drop_bit algebra_simps)
  then have "drop_bit 7 v \<noteq> 0" by auto
  then show ?case using Suc.IH [OF d] by (subst VarintLen_rec) simp
qed (simp add: VarintLen_pos)

lemma VarintLen_covers: "drop_bit (7 * sqlite3VarintLen v) v = 0"
proof (induction "unat v" arbitrary: v rule: less_induct)
  case less
  show ?case
  proof (cases "drop_bit 7 v = 0")
    case True
    then show ?thesis by (subst VarintLen_rec) simp
  next
    case False
    then have "drop_bit (7 * sqlite3VarintLen (drop_bit 7 v)) (drop_bit 7 v) = 0" using less drop7_less by blast
    then show ?thesis using False by (subst VarintLen_rec) (simp add: drop_bit_drop_bit algebra_simps)
  qed
qed

lemma put_buf_groups: "put_buf v buf = buf @ rev (groups (sqlite3VarintLen v) v)"
proof (induction v buf rule: put_buf.induct)
  case (1 v buf)
  show ?case
  proof (cases "drop_bit 7 v = 0")
    case True
    then have "sqlite3VarintLen v = Suc 0" by (subst VarintLen_rec) simp
    then show ?thesis using True by (subst put_buf.simps) (simp add: Let_def)
  next
    case False
    then have l: "sqlite3VarintLen v = Suc (sqlite3VarintLen (drop_bit 7 v))" by (subst VarintLen_rec) simp
    then show ?thesis using False 1 by (subst put_buf.simps) (simp add: Let_def)
  qed
qed

lemma putVarint64_groups:
  "putVarint64 v =
     (if drop_bit 56 v \<noteq> 0 then groups 8 (drop_bit 8 v) @ [ucast v]
      else groups (sqlite3VarintLen v - 1) (drop_bit 7 v) @ [ucast (v AND 0x7f)])"
proof -
  have "v AND push_bit 32 0xff000000 = push_bit 56 (drop_bit 56 v)"
  proof (rule bit_word_eqI)
    fix n assume n: "n < LENGTH(64)"
    have e: "push_bit 32 0xff000000 = push_bit 56 (mask 8 :: 64 word)" by (simp add: mask_eq_exp_minus_1)
    show "bit (v AND push_bit 32 0xff000000) n = bit (push_bit 56 (drop_bit 56 v)) n"
      unfolding e using n by (auto simp: bit_simps)
  qed
  moreover have "push_bit 56 (drop_bit 56 v) \<noteq> 0 \<longleftrightarrow> drop_bit 56 v \<noteq> 0"
  proof
    show "drop_bit 56 v \<noteq> 0" if "push_bit 56 (drop_bit 56 v) \<noteq> 0" using that by auto
    assume "drop_bit 56 v \<noteq> 0"
    then obtain n where "bit (drop_bit 56 v) n" by (auto simp: bit_eq_iff)
    then have n: "bit v (56 + n)" by (simp add: bit_drop_bit_eq)
    then have "bit (push_bit 56 (drop_bit 56 v)) (56 + n)" using bit_imp_le_length [OF n] by (simp add: bit_simps)
    then show "push_bit 56 (drop_bit 56 v) \<noteq> 0" by auto
  qed
  moreover obtain k where k: "sqlite3VarintLen v = Suc k" using VarintLen_pos [of v] by (cases "sqlite3VarintLen v") auto
  ultimately show ?thesis
    by (simp add: putVarint64_def put_down_groups put_buf_groups Let_def group_last)
qed

lemma drop_unat: "drop_bit k v = 0 \<longleftrightarrow> unat v < 2 ^ k" for v :: "64 word"
proof -
  have "drop_bit k v = 0 \<longleftrightarrow> unat (drop_bit k v) = 0" by (simp only: unat_eq_0)
  also have "unat (drop_bit k v) = unat v div 2 ^ k" using unat_drop_bit_eq [of k v] by (simp only: drop_bit_eq_div [where 'a = nat])
  finally show ?thesis by (simp add: div_eq_0_iff)
qed

lemma small_drop: "v \<le> 0x7f \<longleftrightarrow> drop_bit 7 v = 0" "v \<le> 0x3fff \<longleftrightarrow> drop_bit 14 v = 0" for v :: "64 word"
  unfolding drop_unat word_le_nat_alt by auto

lemma sqlite3PutVarint_groups:
  "sqlite3PutVarint v =
     (if drop_bit 56 v \<noteq> 0 then groups 8 (drop_bit 8 v) @ [ucast v]
      else groups (sqlite3VarintLen v - 1) (drop_bit 7 v) @ [ucast (v AND 0x7f)])"
proof -
  have up: "drop_bit 56 v = 0" if "drop_bit 7 v = 0 \<or> drop_bit 14 v = 0"
  proof -
    have "drop_bit 56 v = drop_bit 49 (drop_bit 7 v)" "drop_bit 56 v = drop_bit 42 (drop_bit 14 v)"
      by (simp_all add: drop_bit_drop_bit)
    then show ?thesis using that by auto
  qed
  consider "drop_bit 7 v = 0" | "drop_bit 7 v \<noteq> 0" "drop_bit 14 v = 0" | "drop_bit 7 v \<noteq> 0" "drop_bit 14 v \<noteq> 0" by blast
  then show ?thesis
  proof cases
    case 1
    then have "sqlite3VarintLen v = 1" by (subst VarintLen_rec) simp
    moreover have "v \<le> 0x7f" using 1 unfolding small_drop .
    ultimately show ?thesis using up 1 by (simp add: sqlite3PutVarint_def)
  next
    case 2
    then have "drop_bit 7 (drop_bit 7 v) = 0" by (simp add: drop_bit_drop_bit)
    then have "sqlite3VarintLen v = 2" using 2 by (simp add: VarintLen_rec [of v] VarintLen_rec [of "drop_bit 7 v"])
    moreover have "\<not> v \<le> 0x7f" "v \<le> 0x3fff" using 2 unfolding small_drop by simp_all
    ultimately show ?thesis using up 2 by (simp add: sqlite3PutVarint_def eval_nat_numeral)
  next
    case 3
    then have "\<not> v \<le> 0x7f" "\<not> v \<le> 0x3fff" unfolding small_drop by simp_all
    then show ?thesis by (simp add: sqlite3PutVarint_def putVarint64_groups)
  qed
qed

lemma length_PutVarint:
  "length (sqlite3PutVarint v) = (if drop_bit 63 v \<noteq> 0 then 9 else sqlite3VarintLen v)" and length_PutVarint_le: "length (sqlite3PutVarint v) \<le> 9"
  and VarintLen_length: "sqlite3VarintLen v = (if drop_bit 63 v \<noteq> 0 then 10 else length (sqlite3PutVarint v))"
proof -
  have up: "drop_bit 63 v = drop_bit 7 (drop_bit 56 v)" by (simp add: drop_bit_drop_bit)
  have "drop_bit 70 v = 0" by (rule bit_word_eqI) (use bit_imp_le_length [of v] in \<open>auto simp: bit_simps\<close>)
  then have ten: "sqlite3VarintLen v \<le> 10" using VarintLen_le [of 10 v] by simp
  have l: "length (sqlite3PutVarint v) = (if drop_bit 56 v \<noteq> 0 then 9 else sqlite3VarintLen v)"
    using VarintLen_pos [of v] by (simp add: sqlite3PutVarint_groups)
  have a: "drop_bit 63 v \<noteq> 0 \<Longrightarrow> sqlite3VarintLen v = 10" using VarintLen_ge [of 9 v] ten by simp
  have b: "drop_bit 56 v \<noteq> 0 \<Longrightarrow> drop_bit 63 v = 0 \<Longrightarrow> sqlite3VarintLen v = 9"
    using VarintLen_ge [of 8 v] VarintLen_le [of 9 v] by simp
  have c: "drop_bit 56 v = 0 \<Longrightarrow> sqlite3VarintLen v \<le> 8" using VarintLen_le [of 8 v] by simp
  show "length (sqlite3PutVarint v) = (if drop_bit 63 v \<noteq> 0 then 9 else sqlite3VarintLen v)"
    "sqlite3VarintLen v = (if drop_bit 63 v \<noteq> 0 then 10 else length (sqlite3PutVarint v))"
    "length (sqlite3PutVarint v) \<le> 9"
    using l a b c up by auto
qed

lemma read_PutVarint: "varint_ref 0 0 (sqlite3PutVarint v @ rest) = Some (v, length (sqlite3PutVarint v))"
proof (cases "drop_bit 56 v = 0")
  case False
  have "push_bit 8 (take_bit 56 (drop_bit 8 v)) OR ucast (ucast v :: byte) = v"
  proof (rule bit_word_eqI)
    fix n assume "n < LENGTH(64)"
    then show "bit (push_bit 8 (take_bit 56 (drop_bit 8 v)) OR ucast (ucast v :: byte)) n = bit v n"
      by (cases "n < 8") (auto simp: bit_simps)
  qed
  then show ?thesis using False read_groups [of 0 8 0 "drop_bit 8 v" "ucast v # rest"]
    by (simp add: sqlite3PutVarint_groups)
next
  case True
  define k where "k = sqlite3VarintLen v - 1"
  have k: "sqlite3VarintLen v = k + 1" using VarintLen_pos [of v] by (simp add: k_def)
  have "k + 1 \<le> 8" using VarintLen_le [of 8 v] True k by simp
  then have r: "varint_ref 0 0 (groups k (drop_bit 7 v) @ ucast (v AND 0x7f) # rest) =
      varint_ref k (take_bit (7 * k) (drop_bit 7 v)) (ucast (v AND 0x7f) # rest)"
    using read_groups [of 0 k 0 "drop_bit 7 v"] by simp
  have low: "\<not> bit (ucast (v AND 0x7f) :: byte) 7" by (simp add: and_7f bit_simps)
  have "push_bit 7 (take_bit (7 * k) (drop_bit 7 v)) OR ucast (ucast (v AND 0x7f) :: byte) = v"
  proof (rule bit_word_eqI)
    fix n assume n: "n < LENGTH(64)"
    have "n < 7 * k + 7" if "bit v n"
    proof (rule ccontr)
      assume "\<not> n < 7 * k + 7"
      then have "bit (drop_bit (7 * (k + 1)) v) (n - (7 * k + 7))" using that by (simp add: bit_drop_bit_eq)
      then show False using VarintLen_covers [of v] unfolding k by simp
    qed
    then show "bit (push_bit 7 (take_bit (7 * k) (drop_bit 7 v)) OR ucast (ucast (v AND 0x7f) :: byte)) n = bit v n"
      using n unfolding and_7f by (cases "n < 7") (auto simp: bit_simps)
  qed
  moreover have "k \<noteq> 8" using \<open>k + 1 \<le> 8\<close> by simp
  ultimately show ?thesis using True r low k by (simp add: sqlite3PutVarint_groups less_80)
qed

section \<open>32-bit values\<close>

lemma low_32: "v AND 0xffffffff = v \<longleftrightarrow> v \<le> 0xffffffff" for v :: "64 word"
proof -
  have "v AND 0xffffffff = take_bit 32 v" by (simp add: take_bit_eq_mask mask_eq_exp_minus_1)
  then have "v AND 0xffffffff = v \<longleftrightarrow> drop_bit 32 v = 0" by (simp add: take_bit_eq_self_iff_drop_bit_eq_0)
  also have "\<dots> \<longleftrightarrow> v \<le> 0xffffffff" unfolding drop_unat word_le_nat_alt by auto
  finally show ?thesis .
qed

lemma ucast_32: "ucast w \<le> (0xffffffff :: 64 word)" "ucast (ucast w :: 64 word) = w" for w :: "32 word"
proof -
  have "drop_bit 32 (ucast w :: 64 word) = 0" by (rule bit_word_eqI) (use bit_imp_le_length [of w] in \<open>auto simp: bit_simps\<close>)
  then show "ucast w \<le> (0xffffffff :: 64 word)" unfolding drop_unat word_le_nat_alt by auto
  show "ucast (ucast w :: 64 word) = w" by (rule bit_word_eqI) (auto simp: bit_simps)
qed

lemma three_bytes:
  assumes "\<not> bit p2 7"
  shows "push_bit 14 (ucast p0 AND 0x7f) OR push_bit 7 (ucast p1 AND 0x7f) OR ucast p2 =
    (w2 p0 p2 AND SLOT_2_0) OR push_bit 7 (ucast p1 AND 0x7f)"
proof -
  have "ucast (push_bit 14 (ucast p0 AND 0x7f) OR push_bit 7 (ucast p1 AND 0x7f) OR ucast p2 :: 32 word) =
      (ucast ((w2 p0 p2 AND SLOT_2_0) OR push_bit 7 (ucast p1 AND 0x7f)) :: 64 word)"
    using assms unfolding w2_def by (intro word64_eqI) (simp add: varint_bits)
  then show ?thesis by (metis ucast_32(2))
qed

text \<open>C17: The decoder of variable-length integers, with its two interleaved 32-bit registers, reads on every buffer exactly the
  encoding as documented (seven bits per byte, the most significant first, all eight of a ninth byte): the same value, the
  same number of bytes, and it never reads further than this.\<close>

theorem sqlite3GetVarint_reference: "sqlite3GetVarint p = varint_ref 0 0 p"
  by (rule sqlite3GetVarint_ref)

text \<open>C18: A 64-bit value that has been written is read back, with the number of bytes written, whatever follows it in the
  buffer; it takes one to nine bytes.  The number of bytes needed is that of \<open>sqlite3VarintLen\<close> for values below
  \<open>2 ^ 63\<close>; for the others that function says 10, one too many.\<close>

theorem varint_write_read:
  "sqlite3GetVarint (sqlite3PutVarint v @ rest) = Some (v, length (sqlite3PutVarint v)) \<and>
    1 \<le> length (sqlite3PutVarint v) \<and> length (sqlite3PutVarint v) \<le> 9 \<and>
    sqlite3VarintLen v = (if drop_bit 63 v \<noteq> 0 then 10 else length (sqlite3PutVarint v))"
proof (intro conjI)
  show "sqlite3GetVarint (sqlite3PutVarint v @ rest) = Some (v, length (sqlite3PutVarint v))"
    by (simp only: sqlite3GetVarint_ref read_PutVarint)
  show "1 \<le> length (sqlite3PutVarint v)" unfolding length_PutVarint using VarintLen_pos [of v] by simp
qed (rule length_PutVarint_le, rule VarintLen_length)

text \<open>For a value of at least two bytes the 32-bit decoder reads the same bytes as the 64-bit one and returns its value, or the
  largest 32-bit value when it does not fit.\<close>

theorem sqlite3GetVarint32_saturates:
  assumes "0x80 \<le> p0" and "sqlite3GetVarint (p0 # rest) = Some (v, n)"
  shows "sqlite3GetVarint32 (p0 # rest) = Some (if v \<le> 0xffffffff then ucast v else 0xffffffff, n)"
proof -
  have p0: "bit p0 7" using assms(1) less_80 [of p0] by auto
  note get = assms(2)
  show ?thesis
  proof (cases rest)
    case Nil
    then show ?thesis using get p0 by (simp add: sqlite3GetVarint_def sint_80)
  next
    case (Cons p1 r1)
    show ?thesis
    proof (cases "bit p1 7")
      case False
      have "v = ucast (push_bit 7 (ucast p0 AND 0x7f) OR ucast p1 :: 32 word)" "n = 2"
        using get p0 Cons False by (simp_all add: sqlite3GetVarint_def sint_80)
      then show ?thesis using Cons False
        by (simp add: sqlite3GetVarint32_def and_80 bit_ucast_iff ucast_32)
    next
      case True
      note p1 = this
      show ?thesis
      proof (cases r1)
        case Nil
        then show ?thesis using get p0 p1 Cons by (simp add: sqlite3GetVarint_def sint_80)
      next
        case (Cons p2 r2)
        note r = \<open>rest = p1 # r1\<close> Cons
        show ?thesis
        proof (cases "bit p2 7")
          case False
          have "v = ucast ((w2 p0 p2 AND SLOT_2_0) OR push_bit 7 (ucast p1 AND 0x7f))" "n = 3"
            using get p0 p1 r False by (simp_all add: sqlite3GetVarint_def sint_80 Let_def and_80 w2_def [symmetric])
          then show ?thesis using r p1 False
            by (simp add: sqlite3GetVarint32_def and_80 bit_ucast_iff three_bytes ucast_32)
        next
          case True
          then show ?thesis using r p1 get by (simp add: sqlite3GetVarint32_def and_80 bit_ucast_iff low_32)
        qed
      qed
    qed
  qed
qed

theorem sqlite3GetVarint32_saturates_witness:
  "sqlite3GetVarint32 [0x90, 0x80, 0x80, 0x80, 0x00] = Some (if (0x100000000 :: 64 word) \<le> 0xffffffff then ucast (0x100000000 :: 64 word) else 0xffffffff, 5)"
  by (rule sqlite3GetVarint32_saturates) (simp_all add: sqlite3GetVarint_ref)

end
