(* ===== verification/Utf8.thy ===== *)
theory Utf8
  imports Bytes
begin

text \<open>
  Characters in \<open>sqlite3.c\<close> (\<open>utf.c\<close>, \<open>global.c\<close>, \<open>func.c\<close>): the tables of character classes and of lower case
  letters, reading UTF-8 (the overlong and the invalid sequences included), counting characters and the text that
  \<open>char()\<close> makes.  Characters are 32-bit values.
\<close>

section \<open>Tables\<close>

definition sqlite3Utf8Trans1 :: "nat list" where
  "sqlite3Utf8Trans1 =
   [0, 1, 2, 3, 4, 5, 6, 7, 8, 9, 10, 11, 12, 13, 14, 15,
    16, 17, 18, 19, 20, 21, 22, 23, 24, 25, 26, 27, 28, 29, 30, 31,
    0, 1, 2, 3, 4, 5, 6, 7, 8, 9, 10, 11, 12, 13, 14, 15,
    0, 1, 2, 3, 4, 5, 6, 7, 0, 1, 2, 3, 0, 1, 0, 0]"

definition sqlite3UpperToLower :: "nat list" where
  "sqlite3UpperToLower =
   [0, 1, 2, 3, 4, 5, 6, 7, 8, 9, 10, 11, 12, 13, 14, 15,
    16, 17, 18, 19, 20, 21, 22, 23, 24, 25, 26, 27, 28, 29, 30, 31,
    32, 33, 34, 35, 36, 37, 38, 39, 40, 41, 42, 43, 44, 45, 46, 47,
    48, 49, 50, 51, 52, 53, 54, 55, 56, 57, 58, 59, 60, 61, 62, 63,
    64, 97, 98, 99, 100, 101, 102, 103, 104, 105, 106, 107, 108, 109, 110, 111,
    112, 113, 114, 115, 116, 117, 118, 119, 120, 121, 122, 91, 92, 93, 94, 95,
    96, 97, 98, 99, 100, 101, 102, 103, 104, 105, 106, 107, 108, 109, 110, 111,
    112, 113, 114, 115, 116, 117, 118, 119, 120, 121, 122, 123, 124, 125, 126, 127,
    128, 129, 130, 131, 132, 133, 134, 135, 136, 137, 138, 139, 140, 141, 142, 143,
    144, 145, 146, 147, 148, 149, 150, 151, 152, 153, 154, 155, 156, 157, 158, 159,
    160, 161, 162, 163, 164, 165, 166, 167, 168, 169, 170, 171, 172, 173, 174, 175,
    176, 177, 178, 179, 180, 181, 182, 183, 184, 185, 186, 187, 188, 189, 190, 191,
    192, 193, 194, 195, 196, 197, 198, 199, 200, 201, 202, 203, 204, 205, 206, 207,
    208, 209, 210, 211, 212, 213, 214, 215, 216, 217, 218, 219, 220, 221, 222, 223,
    224, 225, 226, 227, 228, 229, 230, 231, 232, 233, 234, 235, 236, 237, 238, 239,
    240, 241, 242, 243, 244, 245, 246, 247, 248, 249, 250, 251, 252, 253, 254, 255]"

definition sqlite3CtypeMap :: "byte list" where
  "sqlite3CtypeMap =
   [0x00, 0x00, 0x00, 0x00, 0x00, 0x00, 0x00, 0x00, 0x00, 0x01, 0x01, 0x01, 0x01, 0x01, 0x00, 0x00,
    0x00, 0x00, 0x00, 0x00, 0x00, 0x00, 0x00, 0x00, 0x00, 0x00, 0x00, 0x00, 0x00, 0x00, 0x00, 0x00,
    0x01, 0x00, 0x80, 0x00, 0x40, 0x00, 0x00, 0x80, 0x00, 0x00, 0x00, 0x00, 0x00, 0x00, 0x00, 0x00,
    0x0c, 0x0c, 0x0c, 0x0c, 0x0c, 0x0c, 0x0c, 0x0c, 0x0c, 0x0c, 0x00, 0x00, 0x00, 0x00, 0x00, 0x00,
    0x00, 0x0a, 0x0a, 0x0a, 0x0a, 0x0a, 0x0a, 0x02, 0x02, 0x02, 0x02, 0x02, 0x02, 0x02, 0x02, 0x02,
    0x02, 0x02, 0x02, 0x02, 0x02, 0x02, 0x02, 0x02, 0x02, 0x02, 0x02, 0x80, 0x00, 0x00, 0x00, 0x40,
    0x80, 0x2a, 0x2a, 0x2a, 0x2a, 0x2a, 0x2a, 0x22, 0x22, 0x22, 0x22, 0x22, 0x22, 0x22, 0x22, 0x22,
    0x22, 0x22, 0x22, 0x22, 0x22, 0x22, 0x22, 0x22, 0x22, 0x22, 0x22, 0x00, 0x00, 0x00, 0x00, 0x00,
    0x40, 0x40, 0x40, 0x40, 0x40, 0x40, 0x40, 0x40, 0x40, 0x40, 0x40, 0x40, 0x40, 0x40, 0x40, 0x40,
    0x40, 0x40, 0x40, 0x40, 0x40, 0x40, 0x40, 0x40, 0x40, 0x40, 0x40, 0x40, 0x40, 0x40, 0x40, 0x40,
    0x40, 0x40, 0x40, 0x40, 0x40, 0x40, 0x40, 0x40, 0x40, 0x40, 0x40, 0x40, 0x40, 0x40, 0x40, 0x40,
    0x40, 0x40, 0x40, 0x40, 0x40, 0x40, 0x40, 0x40, 0x40, 0x40, 0x40, 0x40, 0x40, 0x40, 0x40, 0x40,
    0x40, 0x40, 0x40, 0x40, 0x40, 0x40, 0x40, 0x40, 0x40, 0x40, 0x40, 0x40, 0x40, 0x40, 0x40, 0x40,
    0x40, 0x40, 0x40, 0x40, 0x40, 0x40, 0x40, 0x40, 0x40, 0x40, 0x40, 0x40, 0x40, 0x40, 0x40, 0x40,
    0x40, 0x40, 0x40, 0x40, 0x40, 0x40, 0x40, 0x40, 0x40, 0x40, 0x40, 0x40, 0x40, 0x40, 0x40, 0x40,
    0x40, 0x40, 0x40, 0x40, 0x40, 0x40, 0x40, 0x40, 0x40, 0x40, 0x40, 0x40, 0x40, 0x40, 0x40, 0x40]"

type_synonym u32 = "32 word"

definition sqlite3Toupper :: "u32 \<Rightarrow> u32" where
  "sqlite3Toupper x = x AND NOT (ucast (sqlite3CtypeMap ! unat (ucast x :: byte) AND 0x20))"

definition sqlite3Tolower :: "u32 \<Rightarrow> u32" where
  "sqlite3Tolower x = of_nat (sqlite3UpperToLower ! unat (ucast x :: byte))"

definition sqlite3Isspace :: "byte \<Rightarrow> bool" where
  "sqlite3Isspace x \<longleftrightarrow> sqlite3CtypeMap ! unat x AND 0x01 \<noteq> 0"

section \<open>Reading\<close>

text \<open>The loop over the continuation bytes.\<close>

fun utf8_cont :: "u32 \<Rightarrow> byte list \<Rightarrow> u32 \<times> byte list" where
  "utf8_cont c [] = (c, [])"
| "utf8_cont c (b # z) =
     (if b AND 0xc0 = 0x80 then utf8_cont (push_bit 6 c + ucast (0x3f AND b)) z else (c, b # z))"

text \<open>At the terminator the result is 0; the pointer is not used any more then.\<close>

definition sqlite3Utf8Read :: "byte list \<Rightarrow> u32 \<times> byte list" where
  "sqlite3Utf8Read z =
     (case z of
        [] \<Rightarrow> (0, [])
      | c # z1 \<Rightarrow>
          (if c \<ge> 0xc0
           then (case utf8_cont (of_nat (sqlite3Utf8Trans1 ! unat (c - 0xc0))) z1 of
                   (v, z2) \<Rightarrow>
                     (if v < 0x80 \<or> v AND 0xFFFFF800 = 0xD800 \<or> v AND 0xFFFFFFFE = 0xFFFE then 0xFFFD else v, z2))
           else (ucast c, z1)))"

text \<open>The macro \<open>Utf8Read\<close> with its shortcut for ASCII.\<close>

definition Utf8Read :: "byte list \<Rightarrow> u32 \<times> byte list" where
  "Utf8Read A = (case A of c # z \<Rightarrow> if c < 0x80 then (ucast c, z) else sqlite3Utf8Read A | [] \<Rightarrow> (0, []))"

fun skip_cont :: "byte list \<Rightarrow> byte list" where
  "skip_cont [] = []"
| "skip_cont (b # z) = (if b AND 0xc0 = 0x80 then skip_cont z else b # z)"

definition SQLITE_SKIP_UTF8 :: "byte list \<Rightarrow> byte list" where
  "SQLITE_SKIP_UTF8 z = (case z of [] \<Rightarrow> [] | c # z1 \<Rightarrow> if c \<ge> 0xc0 then skip_cont z1 else z1)"

lemma length_skip_cont: "length (skip_cont z) \<le> length z"
  by (induction z) auto

lemma utf8_cont_rest: "snd (utf8_cont c z) = skip_cont z"
  by (induction c z rule: utf8_cont.induct) auto

lemma sqlite3Utf8Read_rest: "snd (sqlite3Utf8Read z) = SQLITE_SKIP_UTF8 z"
  using utf8_cont_rest by (auto simp: sqlite3Utf8Read_def SQLITE_SKIP_UTF8_def split: list.split prod.split) (metis snd_conv)

lemma length_SKIP: "z \<noteq> [] \<Longrightarrow> length (SQLITE_SKIP_UTF8 z) < length z"
  using length_skip_cont by (auto simp: SQLITE_SKIP_UTF8_def less_Suc_eq_le split: list.split)

text \<open>\<open>sqlite3Utf8CharLen\<close> with a negative length.\<close>

function utf8_char_len :: "byte list \<Rightarrow> nat \<Rightarrow> nat" where
  "utf8_char_len z r = (if z = [] then r else utf8_char_len (SQLITE_SKIP_UTF8 z) (r + 1))"
  by pat_completeness auto
termination by (relation "measure (\<lambda>(z, r). length z)") (auto simp: length_SKIP)

definition sqlite3Utf8CharLen :: "byte list \<Rightarrow> nat" where
  "sqlite3Utf8CharLen zIn = utf8_char_len zIn 0"

text \<open>The characters of a text, as repeated reading gives them.\<close>

function utf8_chars :: "byte list \<Rightarrow> u32 list" where
  "utf8_chars z = (if z = [] then [] else fst (sqlite3Utf8Read z) # utf8_chars (snd (sqlite3Utf8Read z)))"
  by pat_completeness auto
termination by (relation "measure length") (auto simp: length_SKIP sqlite3Utf8Read_rest)

declare utf8_char_len.simps [simp del] utf8_chars.simps [simp del]

section \<open>Writing\<close>

text \<open>The body of the loop of \<open>char()\<close>.\<close>

definition char_put :: "u32 \<Rightarrow> byte list" where
  "char_put c =
     (if c < 0x80 then [ucast (c AND 0xFF)]
      else if c < 0x800 then [0xC0 + ucast (drop_bit 6 c AND 0x1F), 0x80 + ucast (c AND 0x3F)]
      else if c < 0x10000
      then [0xE0 + ucast (drop_bit 12 c AND 0x0F), 0x80 + ucast (drop_bit 6 c AND 0x3F), 0x80 + ucast (c AND 0x3F)]
      else [0xF0 + ucast (drop_bit 18 c AND 0x07), 0x80 + ucast (drop_bit 12 c AND 0x3F),
            0x80 + ucast (drop_bit 6 c AND 0x3F), 0x80 + ucast (c AND 0x3F)])"

fun charFunc :: "int list \<Rightarrow> byte list" where
  "charFunc [] = []"
| "charFunc (x # argv) =
     char_put (word_of_int (if x < 0 \<or> x > 0x10ffff then 0xfffd else x) AND 0x1fffff) @ charFunc argv"

section \<open>The tables\<close>

lemma Trans1_small:
  "sqlite3Utf8Trans1 = map (\<lambda>k. if k < 32 then k else if k < 48 then k - 32 else if k < 56 then k - 48
     else if k < 60 then k - 56 else if k < 62 then k - 60 else 0) [0..<64]"
  unfolding sqlite3Utf8Trans1_def by code_simp

lemma UpperToLower_upto: "sqlite3UpperToLower = map (\<lambda>k. if 65 \<le> k \<and> k \<le> 90 then k + 32 else k) [0..<256]"
  unfolding sqlite3UpperToLower_def by code_simp

lemma CtypeMap_upto: "map (\<lambda>v. v AND 0x20) sqlite3CtypeMap = map (\<lambda>k. if 97 \<le> k \<and> k \<le> 122 then 0x20 else 0) [0..<256 :: nat]"
  unfolding sqlite3CtypeMap_def by code_simp

section \<open>Reading what was written\<close>

lemma cont_byte:
  assumes "k < 64"
  shows "(0x80 + of_nat k) AND 0xc0 = (0x80 :: byte)" and "ucast (0x3f AND (0x80 + of_nat k :: byte)) = (of_nat k :: u32)"
proof -
  have "list_all (\<lambda>k. (0x80 + of_nat k) AND 0xc0 = (0x80 :: byte) \<and>
      ucast (0x3f AND (0x80 + of_nat k :: byte)) = (of_nat k :: u32)) [0..<64]" by code_simp
  then show "(0x80 + of_nat k) AND 0xc0 = (0x80 :: byte)" and "ucast (0x3f AND (0x80 + of_nat k :: byte)) = (of_nat k :: u32)"
    using assms by (auto simp: list_all_iff)
qed

lemma lead_byte:
  assumes "k < 64"
  shows "0xc0 \<le> (0xc0 + of_nat k :: byte)" and "unat (0xc0 + of_nat k - 0xc0 :: byte) = k"
proof -
  have "list_all (\<lambda>k. 0xc0 \<le> (0xc0 + of_nat k :: byte) \<and> unat (0xc0 + of_nat k - 0xc0 :: byte) = k) [0..<64]" by code_simp
  then show "0xc0 \<le> (0xc0 + of_nat k :: byte)" and "unat (0xc0 + of_nat k - 0xc0 :: byte) = k"
    using assms unfolding list_all_iff by (metis atLeastLessThan_iff set_upt zero_le)+
qed

lemma field: "ucast (drop_bit k (of_nat n :: u32) AND mask m) = (of_nat ((n div 2 ^ k) mod 2 ^ m) :: byte)"
  if "n < 2 ^ 32" and "m \<le> 8"
proof -
  have high: "bit n i \<Longrightarrow> i < 32" for i
    using that(1) by (metis bit_take_bit_iff take_bit_nat_eq_self)
  have "ucast (drop_bit k (of_nat n :: u32) AND mask m) = (of_nat (take_bit m (drop_bit k n)) :: byte)"
    by (rule bit_word_eqI) (use that high in \<open>auto simp: bit_simps\<close>)
  then show ?thesis by (simp only: take_bit_eq_mod drop_bit_eq_div)
qed

lemma char_put_nat:
  assumes "n < 2 ^ 21"
  shows "char_put (of_nat n) =
    (if n < 0x80 then [of_nat n]
     else if n < 0x800 then [0xc0 + of_nat (n div 64), 0x80 + of_nat (n mod 64)]
     else if n < 0x10000 then [0xc0 + of_nat (n div 4096 + 32), 0x80 + of_nat (n div 64 mod 64), 0x80 + of_nat (n mod 64)]
     else [0xc0 + of_nat (n div 262144 + 48), 0x80 + of_nat (n div 4096 mod 64), 0x80 + of_nat (n div 64 mod 64),
       0x80 + of_nat (n mod 64)])"
proof -
  have n: "n < 2 ^ 32" using assms by simp
  have "(of_nat n :: u32) < of_nat w \<longleftrightarrow> n < w" if "w < 2 ^ 32" for w :: nat
    using n that by (simp add: word_less_nat_alt unsigned_of_nat take_bit_nat_eq_self)
  from this [of "0x80"] this [of "0x800"] this [of "0x10000"]
  have less: "(of_nat n :: u32) < 0x80 \<longleftrightarrow> n < 0x80" "(of_nat n :: u32) < 0x800 \<longleftrightarrow> n < 0x800"
    "(of_nat n :: u32) < 0x10000 \<longleftrightarrow> n < 0x10000" by simp_all
  note f = field [OF n, of 8 0] field [OF n, of 5 6] field [OF n, of 4 12] field [OF n, of 3 18]
    field [OF n, of 6 0] field [OF n, of 6 6] field [OF n, of 6 12]
  have m: "mask 8 = (0xFF :: u32)" "mask 5 = (0x1F :: u32)" "mask 4 = (0xF :: u32)" "mask 3 = (7 :: u32)" "mask 6 = (0x3F :: u32)"
    by (simp_all add: mask_eq_exp_minus_1)
  show ?thesis using assms f unfolding m
    by (simp add: char_put_def less mod_less)
qed

definition no_cont :: "byte list \<Rightarrow> bool" where
  "no_cont z \<longleftrightarrow> (case z of [] \<Rightarrow> True | b # _ \<Rightarrow> b AND 0xc0 \<noteq> 0x80)"

lemma utf8_cont_stop: "no_cont z \<Longrightarrow> utf8_cont c z = (c, z)"
  by (cases z) (auto simp: no_cont_def)

lemma utf8_cont_byte: "k < 64 \<Longrightarrow> utf8_cont (of_nat m) ((0x80 + of_nat k) # z) = utf8_cont (of_nat (64 * m + k)) z"
  using cont_byte [of k] by (simp add: push_bit_eq_mult mult.commute)

lemma utf8_special_values:
  assumes "n < 2 ^ 21"
  shows "(of_nat n :: u32) AND 0xFFFFF800 = 0xD800 \<longleftrightarrow> 0xD800 \<le> n \<and> n < 0xE000"
    and "(of_nat n :: u32) AND 0xFFFFFFFE = 0xFFFE \<longleftrightarrow> n = 0xFFFE \<or> n = 0xFFFF"
    and "(of_nat n :: u32) < 0x80 \<longleftrightarrow> n < 0x80"
proof -
  have high: "w AND NOT (mask k) = push_bit k c \<longleftrightarrow> unat w div 2 ^ k = unat c" if "unat c < 2 ^ (32 - k)" "k \<le> 32"
    for k and w c :: u32
  proof -
    have "w AND NOT (mask k) = push_bit k (drop_bit k w)" by (rule bit_word_eqI) (auto simp: bit_simps)
    moreover have "drop_bit k (push_bit k (drop_bit k w)) = drop_bit k w"
      by (rule bit_word_eqI) (use bit_imp_le_length [of w] in \<open>auto simp: bit_simps\<close>)
    moreover have "drop_bit k (push_bit k c) = c"
    proof (rule bit_word_eqI)
      fix i assume "i < LENGTH(32)"
      have "take_bit (32 - k) (unat c) = unat c" using that by (simp add: take_bit_nat_eq_self)
      then have "bit c i \<Longrightarrow> i < 32 - k" using bit_take_bit_iff [of "32 - k" "unat c" i] by (simp add: bit_unsigned_iff)
      then show "bit (drop_bit k (push_bit k c)) i = bit c i"
        using that bit_imp_le_length [of c i] by (auto simp: bit_simps)
    qed
    ultimately have "w AND NOT (mask k) = push_bit k c \<longleftrightarrow> drop_bit k w = c" by metis
    also have "\<dots> \<longleftrightarrow> unat (drop_bit k w) = unat c" by (simp add: word_unat_eq_iff)
    finally show ?thesis using unat_drop_bit_eq [of k w] by (simp only: drop_bit_eq_div [where 'a = nat])
  qed
  have u: "unat (of_nat n :: u32) = n" using assms by (simp add: unsigned_of_nat take_bit_nat_eq_self)
  have e: "0xFFFFF800 = NOT (mask 11 :: u32)" "0xD800 = push_bit 11 (27 :: u32)"
    "0xFFFFFFFE = NOT (mask 1 :: u32)" "0xFFFE = push_bit 1 (0x7FFF :: u32)"
    by (simp_all add: mask_eq_exp_minus_1 push_bit_eq_mult)
  show "(of_nat n :: u32) AND 0xFFFFF800 = 0xD800 \<longleftrightarrow> 0xD800 \<le> n \<and> n < 0xE000"
    unfolding e(1,2) by (subst high) (auto simp: u)
  show "(of_nat n :: u32) AND 0xFFFFFFFE = 0xFFFE \<longleftrightarrow> n = 0xFFFE \<or> n = 0xFFFF"
    unfolding e(3,4) by (subst high) (auto simp: u)
  show "(of_nat n :: u32) < 0x80 \<longleftrightarrow> n < 0x80" by (simp add: word_less_nat_alt u)
qed

definition char_read :: "nat \<Rightarrow> nat" where
  "char_read n = (if 0xD800 \<le> n \<and> n < 0xE000 \<or> n = 0xFFFE \<or> n = 0xFFFF then 0xFFFD else n)"

lemma read_char_put:
  assumes "n < 2 ^ 21" and "no_cont z"
  shows "sqlite3Utf8Read (char_put (of_nat n) @ z) = (of_nat (char_read n), z)"
proof (cases "n < 0x80")
  case True
  have "list_all (\<lambda>n. \<not> 0xc0 \<le> (of_nat n :: byte) \<and> ucast (of_nat n :: byte) = (of_nat n :: u32)) [0..<128]" by code_simp
  then have "\<not> 0xc0 \<le> (of_nat n :: byte) \<and> ucast (of_nat n :: byte) = (of_nat n :: u32)"
    using True unfolding list_all_iff by simp
  then show ?thesis using True by (simp add: char_put_nat [OF assms(1)] sqlite3Utf8Read_def char_read_def)
next
  case False
  have step: "sqlite3Utf8Read (((0xc0 + of_nat k) # ys) @ z) = (of_nat (char_read n), z)"
    if "k < 64" "utf8_cont (of_nat (sqlite3Utf8Trans1 ! k)) (ys @ z) = (of_nat n, z)" for k ys
    using that lead_byte [OF that(1)] False utf8_special_values [OF assms(1)] by (auto simp: sqlite3Utf8Read_def char_read_def)
  have low: "n mod 64 < 64" "n div 64 mod 64 < 64" "n div 4096 mod 64 < 64" by simp_all
  have "n div 4096 = n div 64 div 64" "n div 262144 = n div 64 div 64 div 64" by (simp_all add: div_mult2_eq [symmetric])
  then have d: "64 * (n div 4096) = n div 64 - n div 64 mod 64" "64 * (n div 262144) = n div 4096 - n div 4096 mod 64"
    by (simp_all add: minus_mod_eq_mult_div)
  consider "n < 0x800" | "0x800 \<le> n" "n < 0x10000" | "0x10000 \<le> n" by linarith
  then show ?thesis
  proof cases
    case 1
    have p: "char_put (of_nat n) = (0xc0 + of_nat (n div 64)) # [0x80 + of_nat (n mod 64)]"
      using 1 False by (simp add: char_put_nat [OF assms(1)])
    have t: "sqlite3Utf8Trans1 ! (n div 64) = n div 64" using 1 by (simp add: Trans1_small)
    have e: "64 * (n div 64) + n mod 64 = n" by presburger
    show ?thesis unfolding p using 1
      by (intro step) (simp, simp only: t append_Cons append_Nil utf8_cont_byte [OF low(1)] utf8_cont_stop [OF assms(2)] e)
  next
    case 2
    have p: "char_put (of_nat n) = (0xc0 + of_nat (n div 4096 + 32)) # [0x80 + of_nat (n div 64 mod 64), 0x80 + of_nat (n mod 64)]"
      using 2 False by (simp add: char_put_nat [OF assms(1)])
    have t: "sqlite3Utf8Trans1 ! (n div 4096 + 32) = n div 4096" using 2 by (simp add: Trans1_small)
    have e: "64 * (64 * (n div 4096) + n div 64 mod 64) + n mod 64 = n" by (simp add: d)
    show ?thesis unfolding p using 2
      by (intro step) (simp, simp only: t append_Cons append_Nil utf8_cont_byte [OF low(1)] utf8_cont_byte [OF low(2)]
        utf8_cont_stop [OF assms(2)] e)
  next
    case 3
    have p: "char_put (of_nat n) = (0xc0 + of_nat (n div 262144 + 48)) #
        [0x80 + of_nat (n div 4096 mod 64), 0x80 + of_nat (n div 64 mod 64), 0x80 + of_nat (n mod 64)]"
      using 3 False by (simp add: char_put_nat [OF assms(1)])
    have t: "sqlite3Utf8Trans1 ! (n div 262144 + 48) = n div 262144" using assms(1) by (simp add: Trans1_small)
    have e: "64 * (64 * (64 * (n div 262144) + n div 4096 mod 64) + n div 64 mod 64) + n mod 64 = n" by (simp add: d)
    show ?thesis unfolding p using 3 assms(1)
      by (intro step) (simp, simp only: t append_Cons append_Nil utf8_cont_byte [OF low(1)] utf8_cont_byte [OF low(2)]
        utf8_cont_byte [OF low(3)] utf8_cont_stop [OF assms(2)] e)
  qed
qed

section \<open>Texts made by char()\<close>

lemma char_put_start:
  assumes "n < 2 ^ 21"
  shows "char_put (of_nat n) \<noteq> []" and "no_cont (char_put (of_nat n) @ z)"
proof -
  have "list_all (\<lambda>n. (of_nat n :: byte) AND 0xc0 \<noteq> 0x80) [0..<128]"
    "list_all (\<lambda>k. (0xc0 + of_nat k :: byte) AND 0xc0 \<noteq> 0x80) [0..<64]" by code_simp+
  then have f: "n < 128 \<Longrightarrow> (of_nat n :: byte) AND 0xc0 \<noteq> 0x80" "k < 64 \<Longrightarrow> (0xc0 + of_nat k :: byte) AND 0xc0 \<noteq> 0x80"
    for n k unfolding list_all_iff by auto
  show "char_put (of_nat n) \<noteq> []" by (simp add: char_put_nat [OF assms])
  have k: "n < 0x800 \<Longrightarrow> n div 64 < 64" "n < 0x10000 \<Longrightarrow> n div 4096 + 32 < 64" "n div 262144 + 48 < 64"
    using assms by auto
  show "no_cont (char_put (of_nat n) @ z)"
    unfolding char_put_nat [OF assms] no_cont_def using f(1) [of n] f(2) [OF k(1)] f(2) [OF k(2)] f(2) [OF k(3)]
    by (simp split: if_splits)
qed

text \<open>The code point the argument \<open>x\<close> of \<open>char()\<close> stands for when the text is read.\<close>

definition char_value :: "int \<Rightarrow> int" where
  "char_value x =
     (if x < 0 \<or> 0x10ffff < x \<or> 0xd800 \<le> x \<and> x < 0xe000 \<or> x = 0xfffe \<or> x = 0xffff then 0xfffd else x)"

definition char_code :: "int \<Rightarrow> nat" where
  "char_code x = nat (if x < 0 \<or> x > 0x10ffff then 0xfffd else x)"

lemma char_code_word: "word_of_int (if x < 0 \<or> x > 0x10ffff then 0xfffd else x) AND 0x1fffff = (of_nat (char_code x) :: u32)"
  and char_code_less: "char_code x < 2 ^ 21" and char_read_code: "int (char_read (char_code x)) = char_value x"
proof -
  show less: "char_code x < 2 ^ 21" by (auto simp: char_code_def)
  show "int (char_read (char_code x)) = char_value x" by (auto simp: char_code_def char_read_def char_value_def)
  have "word_of_int (if x < 0 \<or> x > 0x10ffff then 0xfffd else x) = (of_nat (char_code x) :: u32)"
    by (auto simp: char_code_def)
  moreover have "(of_nat (char_code x) :: u32) AND 0x1fffff = of_nat (char_code x)"
  proof -
    have "(of_nat (char_code x) :: u32) AND 0x1fffff = take_bit 21 (of_nat (char_code x))"
      by (simp add: take_bit_eq_mask mask_eq_exp_minus_1)
    also have "\<dots> = of_nat (take_bit 21 (char_code x))" by (simp add: take_bit_of_nat)
    also have "take_bit 21 (char_code x) = char_code x" using less by (rule take_bit_nat_eq_self)
    finally show ?thesis .
  qed
  ultimately show "word_of_int (if x < 0 \<or> x > 0x10ffff then 0xfffd else x) AND 0x1fffff = (of_nat (char_code x) :: u32)"
    by simp
qed

lemma charFunc_start: "no_cont (charFunc argv)"
proof (cases argv)
  case (Cons x xs)
  show ?thesis unfolding Cons charFunc.simps char_code_word by (rule char_put_start(2) [OF char_code_less])
qed (simp add: no_cont_def)

lemma utf8_char_len_chars: "utf8_char_len z r = r + length (utf8_chars z)"
proof (induction z r rule: utf8_char_len.induct)
  case (1 z r)
  then show ?case by (subst utf8_char_len.simps, subst utf8_chars.simps) (simp add: sqlite3Utf8Read_rest)
qed

text \<open>The text that \<open>char(x1, ..., xn)\<close> makes has \<open>n\<close> characters, and reading it character by character gives the
  code points back, with the replacement character for those outside the range of Unicode, the surrogates and the two
  non-characters.\<close>

theorem char_text_reads_back:
  "utf8_chars (charFunc argv) = map (\<lambda>x. word_of_int (char_value x)) argv \<and> sqlite3Utf8CharLen (charFunc argv) = length argv"
proof -
  have "utf8_chars (charFunc argv) = map (\<lambda>x. word_of_int (char_value x)) argv"
  proof (induction argv)
    case (Cons x argv)
    let ?c = "char_put (of_nat (char_code x))"
    have e: "charFunc (x # argv) = ?c @ charFunc argv" unfolding charFunc.simps char_code_word ..
    have r: "sqlite3Utf8Read (?c @ charFunc argv) = (of_nat (char_read (char_code x)), charFunc argv)"
      by (rule read_char_put [OF char_code_less charFunc_start])
    have "of_nat (char_read (char_code x)) = (word_of_int (char_value x) :: u32)"
      unfolding char_read_code [symmetric] by simp
    then show ?case unfolding e using char_put_start(1) [OF char_code_less] Cons
      by (subst utf8_chars.simps) (simp add: r)
  qed (simp add: utf8_chars.simps)
  then show ?thesis by (simp add: sqlite3Utf8CharLen_def utf8_char_len_chars)
qed

end
