(* ===== verification/Like_Glob.thy ===== *)
theory Like_Glob
  imports Utf8
begin

text \<open>The operators LIKE and GLOB of the SQLite library (\<open>patternCompare\<close>, \<open>likeFunc\<close>, \<open>sqlite3_strglob\<close> and
  \<open>sqlite3_strlike\<close> of \<open>Ext/sqlite/sqlite3.c\<close>).  A C string is the list of its bytes without the terminator; a pointer into the
  pattern is the rest of it, and the pointer \<open>zEscaped\<close> is the length of the rest it points to.  The reference is a list of
  tokens, read off the pattern by the rules of the comment above \<open>patternCompare\<close>, and the relation \<open>matches\<close> between tokens and
  characters.  The fields of \<open>compareInfo\<close>, bytes in the code, have the width to which they are widened wherever they are
  read.\<close>

section \<open>Comparing\<close>

record compareInfo =
  matchAll :: u32
  matchOne :: u32
  matchSet :: u32
  noCase :: bool

definition globInfo :: compareInfo where
  "globInfo = \<lparr>matchAll = 0x2A, matchOne = 0x3F, matchSet = 0x5B, noCase = False\<rparr>"

definition likeInfoNorm :: compareInfo where
  "likeInfoNorm = \<lparr>matchAll = 0x25, matchOne = 0x5F, matchSet = 0, noCase = True\<rparr>"

definition likeInfoAlt :: compareInfo where
  "likeInfoAlt = \<lparr>matchAll = 0x25, matchOne = 0x5F, matchSet = 0, noCase = False\<rparr>"

definition SQLITE_MATCH :: int where "SQLITE_MATCH = 0"

definition SQLITE_NOMATCH :: int where "SQLITE_NOMATCH = 1"

definition SQLITE_NOWILDCARDMATCH :: int where "SQLITE_NOWILDCARDMATCH = 2"

lemma length_Utf8Read: "z \<noteq> [] \<Longrightarrow> length (snd (Utf8Read z)) < length z" "length (snd (Utf8Read z)) \<le> length z"
  "z \<noteq> [] \<Longrightarrow> length (snd (sqlite3Utf8Read z)) < length z" "length (snd (sqlite3Utf8Read z)) \<le> length z"
  using length_SKIP [of z] by (auto simp: Utf8Read_def sqlite3Utf8Read_rest SQLITE_SKIP_UTF8_def length_skip_cont le_SucI split: list.split)

lemma read_le:
  assumes "(c, z1) = sqlite3Utf8Read z \<or> (c, z1) = Utf8Read z"
  shows "length z1 \<le> length z" and "z \<noteq> [] \<Longrightarrow> length z1 < length z"
  using assms length_Utf8Read [of z] by (metis snd_conv)+

lemma read_nonzero: "(c, z1) = sqlite3Utf8Read z \<or> (c, z1) = Utf8Read z \<Longrightarrow> c \<noteq> 0 \<Longrightarrow> length z1 < length z"
  using read_le(2) [of c z1 z] by (cases z) (auto simp: sqlite3Utf8Read_def Utf8Read_def)

text \<open>The loop that skips further wildcards after the first one.  The wildcard for any sequence is not 0 here, so that the
  end of the pattern ends the loop.\<close>

function star_skip :: "compareInfo \<Rightarrow> byte list \<Rightarrow> byte list \<Rightarrow> (u32 \<times> byte list \<times> byte list) option" where
  "star_skip pInfo zPattern zString =
     (case Utf8Read zPattern of
        (c, zPattern1) \<Rightarrow>
          (if zPattern \<noteq> [] \<and> (c = matchAll pInfo \<or> c = matchOne pInfo \<and> matchOne pInfo \<noteq> 0)
           then (if c = matchOne pInfo
                 then (case sqlite3Utf8Read zString of
                         (d, zString1) \<Rightarrow> if d = 0 then None else star_skip pInfo zPattern1 zString1)
                 else star_skip pInfo zPattern1 zString)
           else Some (c, zPattern1, zString)))"
  by pat_completeness auto
termination
  by (relation "measure (\<lambda>(i, p, s). length p)") (auto intro: read_le(2))

text \<open>The three searches for a place to go on; \<open>f\<close> is the comparison of the rest of the pattern.\<close>

fun search_stop :: "(byte list \<Rightarrow> int) \<Rightarrow> byte list \<Rightarrow> byte list \<Rightarrow> int" where
  "search_stop f zStop [] = SQLITE_NOWILDCARDMATCH"
| "search_stop f zStop (x # zString) =
     (if x = 0 then SQLITE_NOWILDCARDMATCH
      else if x \<in> set zStop
      then (let bMatch = f zString in if bMatch \<noteq> SQLITE_NOMATCH then bMatch else search_stop f zStop zString)
      else search_stop f zStop zString)"

function search_char :: "(byte list \<Rightarrow> int) \<Rightarrow> u32 \<Rightarrow> byte list \<Rightarrow> int" where
  "search_char f c zString =
     (if zString = [] then SQLITE_NOWILDCARDMATCH
      else (case Utf8Read zString of
              (c2, zString1) \<Rightarrow>
                (if c2 = 0 then SQLITE_NOWILDCARDMATCH
                 else if c2 \<noteq> c then search_char f c zString1
                 else (let bMatch = f zString1 in
                       if bMatch \<noteq> SQLITE_NOMATCH then bMatch else search_char f c zString1))))"
  by pat_completeness auto
termination
  by (relation "measure (\<lambda>(f, c, z). length z)") (simp_all only: in_measure prod.case wf_measure, (metis read_le(2))+)

function search_set :: "(byte list \<Rightarrow> int) \<Rightarrow> byte list \<Rightarrow> int" where
  "search_set f zString =
     (if rd zString = 0 then SQLITE_NOWILDCARDMATCH
      else (let bMatch = f zString in
            if bMatch \<noteq> SQLITE_NOMATCH then bMatch else search_set f (SQLITE_SKIP_UTF8 zString)))"
  by pat_completeness auto
termination
proof (relation "measure (\<lambda>(f, z). length z)")
  show "rd z \<noteq> 0 \<Longrightarrow> ((f, SQLITE_SKIP_UTF8 z), f, z) \<in> measure (\<lambda>(f, z). length z)" for f :: "byte list \<Rightarrow> int" and z
    using length_SKIP [of z] by (cases z) auto
qed simp

text \<open>The loop over a set of characters: the last character read, whether \<open>c\<close> was seen, and the rest of the pattern.\<close>

function set_loop :: "u32 \<Rightarrow> u32 \<Rightarrow> byte list \<Rightarrow> u32 \<Rightarrow> bool \<Rightarrow> u32 \<times> bool \<times> byte list" where
  "set_loop c c2 zPattern prior_c seen =
     (if c2 \<noteq> 0 \<and> c2 \<noteq> 0x5D
      then (if c2 = 0x2D \<and> rd zPattern \<noteq> 0x5D \<and> rd zPattern \<noteq> 0 \<and> prior_c > 0
            then (case sqlite3Utf8Read zPattern of
                    (c3, zPattern1) \<Rightarrow>
                      (case sqlite3Utf8Read zPattern1 of
                         (c4, zPattern2) \<Rightarrow> set_loop c c4 zPattern2 0 (if c \<ge> prior_c \<and> c \<le> c3 then True else seen)))
            else (case sqlite3Utf8Read zPattern of
                    (c4, zPattern2) \<Rightarrow> set_loop c c4 zPattern2 c2 (if c = c2 then True else seen)))
      else (c2, seen, zPattern))"
  by pat_completeness auto

termination
proof (relation "measure (\<lambda>(c, c2, z, p, s). length z + (if c2 = 0 then 0 else 1))")
  fix c c2 :: u32 and zPattern :: "byte list" and prior_c :: u32 and seen and c3 zPattern1 c4 zPattern2
  assume a: "c2 \<noteq> 0 \<and> c2 \<noteq> 0x5D" "c2 = 0x2D \<and> rd zPattern \<noteq> 0x5D \<and> rd zPattern \<noteq> 0 \<and> prior_c > 0"
    and r: "(c3, zPattern1) = sqlite3Utf8Read zPattern" "(c4, zPattern2) = sqlite3Utf8Read zPattern1"
  have "zPattern \<noteq> []" using a(2) by auto
  then have "length zPattern2 < length zPattern" using read_le [of c3 zPattern1 zPattern] read_le(1) [of c4 zPattern2 zPattern1] r
    by (metis order.strict_trans1)
  then show "((c, c4, zPattern2, 0, if c \<ge> prior_c \<and> c \<le> c3 then True else seen), c, c2, zPattern, prior_c, seen)
    \<in> measure (\<lambda>(c, c2, z, p, s). length z + (if c2 = 0 then 0 else 1))" using a(1) by auto
next
  fix c c2 :: u32 and zPattern :: "byte list" and prior_c :: u32 and seen and c4 zPattern2
  assume a: "c2 \<noteq> 0 \<and> c2 \<noteq> 0x5D" and r: "(c4, zPattern2) = sqlite3Utf8Read zPattern"
  have "length zPattern2 + (if c4 = 0 then 0 else 1) < length zPattern + 1"
    using read_le(1) [of c4 zPattern2 zPattern] read_nonzero [of c4 zPattern2 zPattern] r by auto
  then show "((c, c4, zPattern2, c2, if c = c2 then True else seen), c, c2, zPattern, prior_c, seen)
    \<in> measure (\<lambda>(c, c2, z, p, s). length z + (if c2 = 0 then 0 else 1))" using a by auto
qed simp

declare star_skip.simps [simp del] search_char.simps [simp del] search_set.simps [simp del] set_loop.simps [simp del]

lemma length_star_skip: "star_skip pInfo zPattern zString = Some (c, zPattern1, zString1) \<Longrightarrow>
    length zPattern1 \<le> length zPattern \<and> (c \<noteq> 0 \<longrightarrow> length zPattern1 < length zPattern)"
proof (induction pInfo zPattern zString rule: star_skip.induct)
  case (1 pInfo zPattern zString)
  obtain d p1 where d: "Utf8Read zPattern = (d, p1)" by fastforce
  obtain e s1 where e: "sqlite3Utf8Read zString = (e, s1)" by fastforce
  note l = read_le(1) [of d p1 zPattern] read_nonzero [of d p1 zPattern]
  show ?case
  proof (cases "zPattern \<noteq> [] \<and> (d = matchAll pInfo \<or> d = matchOne pInfo \<and> matchOne pInfo \<noteq> 0)")
    case False
    then have "c = d" "zPattern1 = p1" using "1.prems" d star_skip.simps [of pInfo zPattern zString] by auto
    then show ?thesis using l d by auto
  next
    case True
    then have "\<exists>s2. star_skip pInfo p1 s2 = Some (c, zPattern1, zString1) \<and> (s2 = s1 \<or> s2 = zString)"
      using "1.prems" d e star_skip.simps [of pInfo zPattern zString] by (auto split: if_splits)
    then have "length zPattern1 \<le> length p1 \<and> (c \<noteq> 0 \<longrightarrow> length zPattern1 < length p1)"
      using "1.IH" True d e "1.prems" star_skip.simps [of pInfo zPattern zString] by (fastforce split: if_splits)
    then show ?thesis using l d by auto
  qed
qed

text \<open>Matching a set after its opening bracket: \<open>None\<close> if the string ends or the set does not match, otherwise the rest of the
  pattern and of the string.\<close>

definition match_set :: "byte list \<Rightarrow> byte list \<Rightarrow> (byte list \<times> byte list) option" where
  "match_set zPattern zString =
     (case sqlite3Utf8Read zString of
        (c, zString1) \<Rightarrow>
          (if c = 0 then None
           else (case sqlite3Utf8Read zPattern of
                   (c2, zPattern1) \<Rightarrow>
                     (let invert = (c2 = 0x5E);
                          (c3, zPattern2) = (if invert then sqlite3Utf8Read zPattern1 else (c2, zPattern1));
                          seen = (c3 = 0x5D \<and> c = 0x5D);
                          (c4, zPattern3) = (if c3 = 0x5D then sqlite3Utf8Read zPattern2 else (c3, zPattern2)) in
                      (case set_loop c c4 zPattern3 0 seen of
                         (c5, seen1, zPattern4) \<Rightarrow>
                           if c5 = 0 \<or> seen1 = invert then None else Some (zPattern4, zString1))))))"

definition same_char :: "compareInfo \<Rightarrow> u32 \<Rightarrow> u32 \<Rightarrow> bool" where
  "same_char pInfo c c2 \<longleftrightarrow>
     c = c2 \<or> noCase pInfo \<and> sqlite3Tolower c = sqlite3Tolower c2 \<and> c < 0x80 \<and> c2 < 0x80"

definition stop_chars :: "compareInfo \<Rightarrow> u32 \<Rightarrow> byte list" where
  "stop_chars pInfo c =
     (if noCase pInfo then [ucast (sqlite3Toupper c), ucast (sqlite3Tolower c)] else [ucast c])"

lemma length_set_loop: "set_loop c c2 zPattern prior_c seen = (c3, s, zPattern1) \<Longrightarrow> length zPattern1 \<le> length zPattern"
proof (induction c c2 zPattern prior_c seen rule: set_loop.induct)
  case (1 c c2 zPattern prior_c seen)
  obtain d p1 where d: "sqlite3Utf8Read zPattern = (d, p1)" by fastforce
  obtain e p2 where e: "sqlite3Utf8Read p1 = (e, p2)" by fastforce
  have l: "length p1 \<le> length zPattern" "length p2 \<le> length p1" using read_le(1) d e by metis+
  consider "\<not> (c2 \<noteq> 0 \<and> c2 \<noteq> 0x5D)"
  | "c2 \<noteq> 0 \<and> c2 \<noteq> 0x5D" "c2 = 0x2D \<and> rd zPattern \<noteq> 0x5D \<and> rd zPattern \<noteq> 0 \<and> prior_c > 0"
  | "c2 \<noteq> 0 \<and> c2 \<noteq> 0x5D" "\<not> (c2 = 0x2D \<and> rd zPattern \<noteq> 0x5D \<and> rd zPattern \<noteq> 0 \<and> prior_c > 0)" by blast
  then show ?case
  proof cases
    case 1
    then show ?thesis using "1.prems" set_loop.simps [of c c2 zPattern prior_c seen] by auto
  next
    case 2
    then have "length zPattern1 \<le> length p2"
      using "1.IH"(1) [OF 2 d [symmetric] e [symmetric]] "1.prems" set_loop.simps [of c c2 zPattern prior_c seen] d e by simp
    then show ?thesis using l by simp
  next
    case 3
    then have "length zPattern1 \<le> length p1"
      using "1.IH"(2) [OF 3 d [symmetric]] "1.prems" set_loop.simps [of c c2 zPattern prior_c seen] d by auto
    then show ?thesis using l by simp
  qed
qed

lemma length_match_set: "match_set zPattern zString = Some (zPattern1, zString1) \<Longrightarrow> length zPattern1 \<le> length zPattern"
proof -
  assume a: "match_set zPattern zString = Some (zPattern1, zString1)"
  define p1 where "p1 = snd (sqlite3Utf8Read zPattern)"
  define p2 where "p2 = snd (sqlite3Utf8Read p1)"
  define p3 where "p3 = snd (sqlite3Utf8Read p2)"
  have "length p1 \<le> length zPattern" "length p2 \<le> length p1" "length p3 \<le> length p2"
    by (simp_all add: p1_def p2_def p3_def length_Utf8Read)
  moreover have "\<exists>c c4 q s c5 s1. q \<in> {p1, p2, p3} \<and> set_loop c c4 q 0 s = (c5, s1, zPattern1)"
    using a unfolding match_set_def p1_def p2_def p3_def
    by (auto simp: Let_def split: prod.splits if_splits) (metis snd_conv)+
  ultimately show ?thesis using length_set_loop by fastforce
qed

text \<open>The recursive calls have shorter patterns.\<close>

lemma shorter:
  "(c, y) = Utf8Read p \<Longrightarrow> \<not> (c = 0 \<or> p = []) \<Longrightarrow> star_skip i y s = Some x2 \<Longrightarrow> (xa, ya) = x2 \<Longrightarrow> (xb, yb) = ya \<Longrightarrow> xa \<noteq> 0 \<Longrightarrow>
     length (b # xb) < length p"
  "(c, y) = Utf8Read p \<Longrightarrow> \<not> (c = 0 \<or> p = []) \<Longrightarrow> star_skip i y s = Some x2 \<Longrightarrow> (xa, ya) = x2 \<Longrightarrow> (xb, yb) = ya \<Longrightarrow> xa \<noteq> 0 \<Longrightarrow>
     (xc, yc) = (if xa = m then sqlite3Utf8Read xb else (xa, xb)) \<Longrightarrow> length yc < length p"
  "(c, y) = Utf8Read p \<Longrightarrow> \<not> (c = 0 \<or> p = []) \<Longrightarrow> match_set y s = Some x3 \<Longrightarrow> (xd, yd) = x3 \<Longrightarrow> length xd < length p"
  "(c, y) = Utf8Read p \<Longrightarrow> \<not> (c = 0 \<or> p = []) \<Longrightarrow> (xc, yc) = (if c = m then sqlite3Utf8Read y else (c, y)) \<Longrightarrow> length yc < length p"
proof -
  assume "(c, y) = Utf8Read p" "\<not> (c = 0 \<or> p = [])"
  then have y: "length y < length p" using read_le(2) [of c y p] by blast
  { assume "star_skip i y s = Some x2" "(xa, ya) = x2" "(xb, yb) = ya" "xa \<noteq> 0"
    then have xb: "length xb < length y" using length_star_skip [of i y s xa xb yb] by auto
    then show "length (b # xb) < length p" using y by simp
    assume "(xc, yc) = (if xa = m then sqlite3Utf8Read xb else (xa, xb))"
    then have "length yc \<le> length xb" using read_le(1) [of xc yc xb] by (auto split: if_splits)
    then show "length yc < length p" using xb y by simp }
  { assume "match_set y s = Some x3" "(xd, yd) = x3"
    then show "length xd < length p" using length_match_set [of y s xd yd] y by auto }
  { assume "(xc, yc) = (if c = m then sqlite3Utf8Read y else (c, y))"
    then have "length yc \<le> length y" using read_le(1) [of xc yc y] by (auto split: if_splits)
    then show "length yc < length p" using y by simp }
qed

text \<open>The comparison.  \<open>zEscaped\<close> is the length of the pattern behind the last escaped character.\<close>

function patternCompare :: "compareInfo \<Rightarrow> u32 \<Rightarrow> byte list \<Rightarrow> byte list \<Rightarrow> nat option \<Rightarrow> int" where
  "patternCompare pInfo matchOther zPattern zString zEscaped =
     (case Utf8Read zPattern of
        (c, zPattern1) \<Rightarrow>
          (if c = 0 \<or> zPattern = [] then (if rd zString = 0 then SQLITE_MATCH else SQLITE_NOMATCH)
           else if c = matchAll pInfo
           then (case star_skip pInfo zPattern1 zString of
                   None \<Rightarrow> SQLITE_NOWILDCARDMATCH
                 | Some (d, zPattern2, zString1) \<Rightarrow>
                     (if d = 0 then SQLITE_MATCH
                      else if d = matchOther \<and> matchSet pInfo \<noteq> 0
                      then search_set (\<lambda>z. patternCompare pInfo matchOther (ucast d # zPattern2) z None) zString1
                      else (case (if d = matchOther then sqlite3Utf8Read zPattern2 else (d, zPattern2)) of
                              (e, zPattern3) \<Rightarrow>
                                (if e = 0 then SQLITE_NOWILDCARDMATCH
                                 else if e < 0x80
                                 then search_stop (\<lambda>z. patternCompare pInfo matchOther zPattern3 z None) (stop_chars pInfo e) zString1
                                 else search_char (\<lambda>z. patternCompare pInfo matchOther zPattern3 z None) e zString1))))
           else if c = matchOther \<and> matchSet pInfo \<noteq> 0
           then (case match_set zPattern1 zString of
                   None \<Rightarrow> SQLITE_NOMATCH
                 | Some (zPattern2, zString1) \<Rightarrow> patternCompare pInfo matchOther zPattern2 zString1 zEscaped)
           else (case (if c = matchOther then sqlite3Utf8Read zPattern1 else (c, zPattern1)) of
                   (d, zPattern2) \<Rightarrow>
                     (let zEscaped1 = (if c = matchOther then Some (length zPattern2) else zEscaped) in
                      if d = 0 then SQLITE_NOMATCH
                      else (case Utf8Read zString of
                              (c2, zString1) \<Rightarrow>
                                (if same_char pInfo d c2 \<or> d = matchOne pInfo \<and> Some (length zPattern2) \<noteq> zEscaped1 \<and> c2 \<noteq> 0
                                 then patternCompare pInfo matchOther zPattern2 zString1 zEscaped1
                                 else SQLITE_NOMATCH))))))"
  by pat_completeness auto

termination
  by (relation "measure (\<lambda>(i, m, p, s, e). length p)") (simp, (unfold in_measure prod.case, (blast intro: shorter)+)+)

declare patternCompare.simps [simp del]

definition sqlite3_strglob :: "byte list option \<Rightarrow> byte list option \<Rightarrow> int" where
  "sqlite3_strglob zGlobPattern zString =
     (case zString of
        None \<Rightarrow> of_bool (zGlobPattern \<noteq> None)
      | Some s \<Rightarrow> (case zGlobPattern of None \<Rightarrow> 1 | Some p \<Rightarrow> patternCompare globInfo 0x5B p s None))"

definition sqlite3_strlike :: "byte list option \<Rightarrow> byte list option \<Rightarrow> u32 \<Rightarrow> int" where
  "sqlite3_strlike zPattern zStr esc =
     (case zStr of
        None \<Rightarrow> of_bool (zPattern \<noteq> None)
      | Some s \<Rightarrow> (case zPattern of None \<Rightarrow> 1 | Some p \<Rightarrow> patternCompare likeInfoNorm esc p s None))"

text \<open>The SQL function, for arguments that are texts; \<open>limit\<close> is the connection's limit on the length of a pattern.\<close>

datatype like_result = Like_Error string | Like_Bool bool

definition likeFunc :: "nat \<Rightarrow> compareInfo \<Rightarrow> byte list \<Rightarrow> byte list \<Rightarrow> byte list option \<Rightarrow> like_result" where
  "likeFunc limit pInfo zB zA zEsc =
     (if length zB > limit then Like_Error ''LIKE or GLOB pattern too complex''
      else (case zEsc of
              Some e \<Rightarrow>
                (if sqlite3Utf8CharLen e \<noteq> 1 then Like_Error ''ESCAPE expression must be a single character''
                 else (let escape = fst (sqlite3Utf8Read e);
                           info1 = (if escape = matchAll pInfo then pInfo\<lparr>matchAll := 0\<rparr> else pInfo);
                           info2 = (if escape = matchOne info1 then info1\<lparr>matchOne := 0\<rparr> else info1) in
                       Like_Bool (patternCompare info2 escape zB zA None = SQLITE_MATCH)))
            | None \<Rightarrow> Like_Bool (patternCompare pInfo (matchSet pInfo) zB zA None = SQLITE_MATCH)))"

section \<open>The documented patterns\<close>

text \<open>A pattern is a list of tokens; a set is a list of ranges, inverted or not.\<close>

datatype pattern_token = Any | One | Char u32 | OneOf bool "(u32 \<times> u32) list" | Never

text \<open>The ranges of a set up to the closing bracket and the rest of the pattern; \<open>prior\<close> is the character before, 0 if
  it cannot start a range.\<close>

fun set_items :: "u32 list \<Rightarrow> u32 \<Rightarrow> ((u32 \<times> u32) list \<times> u32 list) option" where
  "set_items [] prior = None"
| "set_items (x # xs) prior =
     (if x = 0x5D then Some ([], xs)
      else if x = 0x2D \<and> prior > 0 \<and> xs \<noteq> [] \<and> hd xs \<noteq> 0x5D
      then map_option (\<lambda>(items, rest). ((prior, hd xs) # items, rest)) (set_items (tl xs) 0)
      else map_option (\<lambda>(items, rest). ((x, x) # items, rest)) (set_items xs x))"

definition set_body :: "u32 list \<Rightarrow> ((u32 \<times> u32) list \<times> u32 list) option" where
  "set_body cs =
     (if cs \<noteq> [] \<and> hd cs = 0x5D
      then map_option (\<lambda>(items, rest). ((0x5D, 0x5D) # items, rest)) (set_items (tl cs) 0) else set_items cs 0)"

definition set_parse :: "u32 list \<Rightarrow> (bool \<times> (u32 \<times> u32) list \<times> u32 list) option" where
  "set_parse cs =
     (let neg = (cs \<noteq> [] \<and> hd cs = 0x5E) in
      map_option (\<lambda>(items, rest). (neg, items, rest)) (set_body (if neg then tl cs else cs)))"

lemma set_items_length: "set_items xs prior = Some (items, rest) \<Longrightarrow> length rest \<le> length xs"
proof (induction xs prior arbitrary: items rule: set_items.induct)
  case (2 x xs prior)
  then show ?case by (cases "set_items (tl xs) 0"; cases "set_items xs x") (fastforce split: if_splits)+
qed simp

lemma set_parse_length: "set_parse cs = Some (neg, items, rest) \<Longrightarrow> length rest \<le> length cs"
  using set_items_length by (fastforce simp: set_parse_def set_body_def Let_def dest: le_trans split: if_splits)

function pattern_tokens :: "compareInfo \<Rightarrow> u32 \<Rightarrow> u32 list \<Rightarrow> pattern_token list" where
  "pattern_tokens info esc [] = []"
| "pattern_tokens info esc (c # cs) =
     (if c = matchAll info then Any # pattern_tokens info esc cs
      else if c = esc \<and> matchSet info \<noteq> 0
      then (case set_parse cs of
              None \<Rightarrow> [Never]
            | Some (neg, items, rest) \<Rightarrow> OneOf neg items # pattern_tokens info esc rest)
      else if c = esc then (case cs of [] \<Rightarrow> [Never] | d # ds \<Rightarrow> Char d # pattern_tokens info esc ds)
      else if c = matchOne info then One # pattern_tokens info esc cs
      else Char c # pattern_tokens info esc cs)"
  by pat_completeness auto
termination
  by (relation "measure (\<lambda>(i, e, cs). length cs)") (auto dest: set_parse_length simp: less_Suc_eq_le)

definition in_items :: "u32 \<Rightarrow> (u32 \<times> u32) list \<Rightarrow> bool" where
  "in_items x items \<longleftrightarrow> (\<exists>(lo, hi) \<in> set items. lo \<le> x \<and> x \<le> hi)"

fun accepts :: "compareInfo \<Rightarrow> pattern_token \<Rightarrow> u32 \<Rightarrow> bool" where
  "accepts info One x = True"
| "accepts info (Char c) x = same_char info c x"
| "accepts info (OneOf neg items) x = (in_items x items \<noteq> neg)"
| "accepts info t x = False"

text \<open>\<open>Any\<close> stands for any sequence of characters, every other token for one character that it accepts.\<close>

fun matches :: "compareInfo \<Rightarrow> pattern_token list \<Rightarrow> u32 list \<Rightarrow> bool" where
  "matches info [] s = (s = [])"
| "matches info (Any # ts) [] = matches info ts []"
| "matches info (Any # ts) (x # s) = (matches info ts (x # s) \<or> matches info (Any # ts) s)"
| "matches info (t # ts) [] = False"
| "matches info (t # ts) (x # s) = (accepts info t x \<and> matches info ts s)"

lemma matches_single:
  "t \<noteq> Any \<Longrightarrow> matches info (t # ts) s = (case s of [] \<Rightarrow> False | x # s1 \<Rightarrow> accepts info t x \<and> matches info ts s1)"
  by (cases t; cases s) auto

lemma matches_Any: "matches info (Any # ts) s = (matches info ts s \<or> (case s of [] \<Rightarrow> False | x # s1 \<Rightarrow> matches info (Any # ts) s1))"
  by (cases s) auto

declare pattern_tokens.simps(2) [simp del] matches.simps [simp del]

lemma matches_Nil [simp]: "matches info [] s = (s = [])"
  by (simp add: matches.simps)

lemma matches_only_Any [simp]: "matches info [Any] s"
  by (induction s) (simp_all add: matches_Any)

lemma matches_Any_Any: "matches info (Any # Any # ts) s = matches info (Any # ts) s"
  by (induction s) (auto simp: matches_Any [of info "Any # ts"] matches_Any [of info ts])

lemma matches_Any_One: "matches info (Any # One # ts) s = (case s of [] \<Rightarrow> False | x # s1 \<Rightarrow> matches info (Any # ts) s1)"
proof (induction s)
  case (Cons x s)
  then show ?case
    by (subst matches_Any, cases s) (auto simp: matches_single matches_Any [of info ts])
qed (simp add: matches_Any matches_single)

lemma matches_Any_drop: "matches info (Any # ts) (drop k s) \<Longrightarrow> matches info (Any # ts) s"
proof (induction k arbitrary: s)
  case (Suc k)
  then show ?case by (cases s) (auto simp: matches_Any [of info ts "_ # _"])
qed simp

text \<open>Searching for a character or for a place.\<close>

fun found :: "(u32 \<Rightarrow> bool) \<Rightarrow> (u32 list \<Rightarrow> bool) \<Rightarrow> u32 list \<Rightarrow> bool" where
  "found P M [] = False"
| "found P M (x # s) = (P x \<and> M s \<or> found P M s)"

fun found_at :: "(u32 list \<Rightarrow> bool) \<Rightarrow> u32 list \<Rightarrow> bool" where
  "found_at M [] = False"
| "found_at M (x # s) = (M (x # s) \<or> found_at M s)"

lemma matches_found: "t \<noteq> Any \<Longrightarrow> matches info (Any # t # ts) s = found (accepts info t) (matches info ts) s"
  by (induction s) (simp_all add: matches_Any matches_single)

lemma matches_found_at: "t \<noteq> Any \<Longrightarrow> matches info (Any # t # ts) s = found_at (matches info (t # ts)) s"
  by (induction s) (simp_all add: matches_Any [of info "t # ts"] matches_single)

lemma found_drop: "found P M s \<Longrightarrow> \<exists>k. M (drop k s)"
proof (induction s)
  case (Cons x s)
  then consider "M (drop 1 (x # s))" | k where "M (drop (Suc k) (x # s))" by auto
  then show ?case by cases blast+
qed simp

lemma found_at_drop: "found_at M s \<Longrightarrow> \<exists>k. M (drop k s)"
proof (induction s)
  case (Cons x s)
  then consider "M (drop 0 (x # s))" | k where "M (drop (Suc k) (x # s))" by auto
  then show ?case by cases blast+
qed simp

section \<open>Reading characters\<close>

lemma ascii_not_lead: "b < 0x80 \<Longrightarrow> \<not> 0xc0 \<le> (b :: byte)"
  by unat_arith

lemma Utf8Read_eq: "Utf8Read z = sqlite3Utf8Read z"
  using ascii_not_lead by (auto simp: Utf8Read_def sqlite3Utf8Read_def split: list.split)

lemma skip_cont_set: "set (skip_cont z) \<subseteq> set z"
  by (induction z) auto

lemma ascii_32: "ucast b < (0x80 :: u32) \<longleftrightarrow> b < (0x80 :: byte)"
proof -
  have "unat b < 2 ^ LENGTH(8)" by (rule unsigned_less)
  then have "unat (ucast b :: u32) = unat b" by (simp add: unsigned_ucast_eq take_bit_nat_eq_self)
  then show ?thesis by (simp add: word_less_nat_alt)
qed

lemma read_first:
  assumes "sqlite3Utf8Read (b # z) = (c, z1)"
  shows "b < 0x80 \<Longrightarrow> c = ucast b" and "\<not> b < 0x80 \<Longrightarrow> \<not> c < 0x80" and "set z1 \<subseteq> set z"
proof -
  show "b < 0x80 \<Longrightarrow> c = ucast b" using ascii_not_lead assms by (simp add: sqlite3Utf8Read_def)
  show "\<not> b < 0x80 \<Longrightarrow> \<not> c < 0x80" using assms ascii_32 [of b] by (auto simp: sqlite3Utf8Read_def split: prod.splits if_splits)
  have "z1 = SQLITE_SKIP_UTF8 (b # z)" using assms sqlite3Utf8Read_rest [of "b # z"] by simp
  then show "set z1 \<subseteq> set z" using skip_cont_set by (auto simp: SQLITE_SKIP_UTF8_def)
qed

text \<open>A text without the terminator.\<close>

definition c_text :: "byte list \<Rightarrow> bool" where
  "c_text z \<longleftrightarrow> 0 \<notin> set z"

lemma chars_Nil [simp]: "utf8_chars [] = []" "sqlite3Utf8Read [] = (0, [])" "c_text []"
  by (simp_all add: utf8_chars.simps sqlite3Utf8Read_def c_text_def)

lemma ucast_inj: "ucast b = (ucast b' :: u32) \<longleftrightarrow> b = (b' :: byte)"
  by (metis byte_32(1))

lemma read_chars:
  assumes "sqlite3Utf8Read z = (c, z1)" and "c_text z" and "z \<noteq> []"
  shows "c \<noteq> 0" and "utf8_chars z = c # utf8_chars z1" and "c_text z1" and "length z1 < length z"
    and "rd z < 0x80 \<Longrightarrow> c = ucast (rd z)" and "\<not> rd z < 0x80 \<Longrightarrow> \<not> c < 0x80"
proof -
  obtain b z0 where z: "z = b # z0" using assms(3) by (cases z) auto
  note r = read_first [OF assms(1) [unfolded z]]
  have b: "b \<noteq> 0" using assms(2) z by (auto simp: c_text_def)
  show c: "rd z < 0x80 \<Longrightarrow> c = ucast (rd z)" "\<not> rd z < 0x80 \<Longrightarrow> \<not> c < 0x80" using r(1,2) z by auto
  have "ucast b \<noteq> (0 :: u32)" using b ucast_inj [of b 0] by simp
  then show "c \<noteq> 0" using r(1,2) by (cases "b < 0x80") auto
  show "utf8_chars z = c # utf8_chars z1" using assms(1,3) by (subst utf8_chars.simps) simp
  show "c_text z1" using r(3) assms(2) z by (auto simp: c_text_def)
  show "length z1 < length z" using length_Utf8Read(3) [OF assms(3)] assms(1) by simp
qed

lemma read_cases:
  assumes "c_text z"
  obtains "z = []" | c z1 where "z \<noteq> []" "sqlite3Utf8Read z = (c, z1)" "c \<noteq> 0" "utf8_chars z = c # utf8_chars z1" "c_text z1"
    "length z1 < length z" "rd z < 0x80 \<Longrightarrow> c = ucast (rd z)" "\<not> rd z < 0x80 \<Longrightarrow> \<not> c < 0x80"
proof (cases "z = []")
  case False
  obtain c z1 where "sqlite3Utf8Read z = (c, z1)" by fastforce
  then show ?thesis using that(2) False read_chars [OF _ assms False] by metis
qed (rule that(1))

lemma rd_zero: "c_text z \<Longrightarrow> rd z = 0 \<longleftrightarrow> z = []"
  by (cases z) (auto simp: c_text_def)

section \<open>Searching\<close>

text \<open>The comparison \<open>f\<close> of the rest of a pattern decides whether \<open>M\<close> holds of the rest of the string; its third result says that
  \<open>M\<close> holds nowhere behind.\<close>

definition decides :: "(u32 list \<Rightarrow> bool) \<Rightarrow> byte list \<Rightarrow> int \<Rightarrow> bool" where
  "decides M z r \<longleftrightarrow> r \<in> {SQLITE_MATCH, SQLITE_NOMATCH, SQLITE_NOWILDCARDMATCH} \<and>
     (r = SQLITE_MATCH \<longleftrightarrow> M (utf8_chars z)) \<and> (r = SQLITE_NOWILDCARDMATCH \<longrightarrow> (\<forall>k. \<not> M (drop k (utf8_chars z))))"

lemmas result_defs = SQLITE_MATCH_def SQLITE_NOMATCH_def SQLITE_NOWILDCARDMATCH_def

lemma search_char_ok:
  assumes "\<And>z. c_text z \<Longrightarrow> decides M z (f z)" and "c_text z"
  shows "search_char f c z = (if found (\<lambda>x. x = c) M (utf8_chars z) then SQLITE_MATCH else SQLITE_NOWILDCARDMATCH)"
  using assms(2)
proof (induction "length z" arbitrary: z rule: less_induct)
  case less
  from less.prems show ?case
  proof (cases z rule: read_cases)
    case 1
    then show ?thesis by (subst search_char.simps) simp
  next
    case (2 d z1)
    have d: "decides M z1 (f z1)" by (rule assms(1) [OF 2(5)])
    have "\<not> found (\<lambda>x. x = c) M (utf8_chars z1)" if "f z1 = SQLITE_NOWILDCARDMATCH"
      using d that found_drop [of _ M "utf8_chars z1"] by (auto simp: decides_def)
    then show ?thesis using 2 less.hyps [OF 2(6) 2(5)] d
      by (subst search_char.simps) (auto simp: Utf8Read_eq Let_def decides_def result_defs)
  qed
qed

lemma search_set_ok:
  assumes "\<And>z. c_text z \<Longrightarrow> decides M z (f z)" and "c_text z"
  shows "search_set f z = (if found_at M (utf8_chars z) then SQLITE_MATCH else SQLITE_NOWILDCARDMATCH)"
  using assms(2)
proof (induction "length z" arbitrary: z rule: less_induct)
  case less
  have d: "decides M z (f z)" by (rule assms(1) [OF less.prems])
  from less.prems show ?case
  proof (cases z rule: read_cases)
    case 1
    then show ?thesis by (subst search_set.simps) simp
  next
    case (2 c z1)
    have s: "SQLITE_SKIP_UTF8 z = z1" using sqlite3Utf8Read_rest [of z] 2(2) by simp
    have "\<not> found_at M (utf8_chars z)" if "f z = SQLITE_NOWILDCARDMATCH"
      using d that found_at_drop [of M "utf8_chars z"] by (auto simp: decides_def)
    then show ?thesis using 2 less.hyps [OF 2(6) 2(5)] d rd_zero [OF less.prems]
      by (subst search_set.simps) (auto simp: s Let_def decides_def result_defs)
  qed
qed

text \<open>The search for one of a few ASCII characters byte by byte finds it only as a character.\<close>

lemma search_stop_skip:
  assumes "\<And>b. b \<in> set stops \<Longrightarrow> b < 0x80"
  shows "search_stop f stops (skip_cont z) = search_stop f stops z"
proof (induction z)
  case (Cons b z)
  have "b \<notin> set stops" if "b AND 0xc0 = 0x80"
  proof
    assume "b \<in> set stops"
    then have "\<not> bit b 7" using assms less_80 by blast
    moreover have "bit (b AND 0xc0) 7" unfolding that by simp
    ultimately show False by (simp add: bit_and_iff)
  qed
  then show ?case using Cons by simp
qed simp

lemma search_stop_ok:
  assumes "\<And>z. c_text z \<Longrightarrow> decides M z (f z)" and "c_text z" and "\<And>b. b \<in> set stops \<Longrightarrow> b < 0x80"
  shows "search_stop f stops z =
    (if found (\<lambda>x. x < 0x80 \<and> ucast x \<in> set stops) M (utf8_chars z) then SQLITE_MATCH else SQLITE_NOWILDCARDMATCH)"
  using assms(2)
proof (induction "length z" arbitrary: z rule: less_induct)
  case less
  from less.prems show ?case
  proof (cases z rule: read_cases)
    case 1
    then show ?thesis by simp
  next
    case (2 c z1)
    obtain b z0 where z: "z = b # z0" using 2(1) by (cases z) auto
    have b0: "b \<noteq> 0" using less.prems z by (auto simp: c_text_def)
    have s: "search_stop f stops z0 = search_stop f stops z1"
      using sqlite3Utf8Read_rest [of z] 2(2) search_stop_skip [of stops f z0, OF assms(3)] z
      by (auto simp: SQLITE_SKIP_UTF8_def split: if_splits)
    have in_stops: "b \<in> set stops \<longleftrightarrow> c < 0x80 \<and> ucast c \<in> set stops"
    proof (cases "b < 0x80")
      case True
      then have "c = ucast b" using 2(7) z by simp
      moreover have "ucast b < (0x80 :: u32)" using True ascii_32 by blast
      ultimately show ?thesis by simp
    next
      case False
      then show ?thesis using 2(8) z assms(3) by auto
    qed
    have z0: "z0 = z1" if "b \<in> set stops"
      using sqlite3Utf8Read_rest [of z] 2(2) z assms(3) [OF that] ascii_not_lead [of b] by (simp add: SQLITE_SKIP_UTF8_def)
    have d: "decides M z1 (f z1)" by (rule assms(1) [OF 2(5)])
    have "\<not> found P M (utf8_chars z1)" if "f z1 = SQLITE_NOWILDCARDMATCH" for P
      using d that found_drop [of P M "utf8_chars z1"] by (auto simp: decides_def)
    then show ?thesis using 2(4) less.hyps [OF 2(6) 2(5)] d z s in_stops z0 b0
      by (auto simp: Let_def decides_def result_defs)
  qed
qed

section \<open>Upper and lower case\<close>

definition low :: "nat \<Rightarrow> nat" where "low n = (if 65 \<le> n \<and> n \<le> 90 then n + 32 else n)"

definition up :: "nat \<Rightarrow> nat" where "up n = (if 97 \<le> n \<and> n \<le> 122 then n - 32 else n)"

lemma case_tables:
  assumes "n < 128"
  shows "sqlite3Tolower (of_nat n) = of_nat (low n)" and "sqlite3Toupper (of_nat n) = of_nat (up n)"
proof -
  have b: "unat (ucast (of_nat n :: u32) :: byte) = n"
  proof -
    have "ucast (of_nat n :: u32) = (of_nat n :: byte)" by (rule bit_word_eqI) (simp add: bit_simps)
    then show ?thesis using assms by (simp add: unsigned_of_nat take_bit_nat_eq_self)
  qed
  show "sqlite3Tolower (of_nat n) = of_nat (low n)" using assms by (simp add: sqlite3Tolower_def b UpperToLower_upto low_def)
  have l: "length sqlite3CtypeMap = 256" using arg_cong [OF CtypeMap_upto, of length] by simp
  have "sqlite3CtypeMap ! n AND 0x20 = map (\<lambda>v. v AND 0x20) sqlite3CtypeMap ! n" using assms l by simp
  also have "\<dots> = (if 97 \<le> n \<and> n \<le> 122 then 0x20 else 0)" using assms by (simp only: CtypeMap_upto) simp
  finally have c: "sqlite3CtypeMap ! n AND 0x20 = (if 97 \<le> n \<and> n \<le> 122 then 0x20 else 0)" .
  have "list_all (\<lambda>n. (of_nat n :: u32) AND - 33 = of_nat n - 32) [97..<123]" by code_simp
  then have "97 \<le> n \<Longrightarrow> n \<le> 122 \<Longrightarrow> (of_nat n :: u32) AND - 33 = of_nat n - 32"
    unfolding list_all_iff set_upt by (rule bspec) (simp only: atLeastLessThan_iff, simp)
  then show "sqlite3Toupper (of_nat n) = of_nat (up n)" unfolding sqlite3Toupper_def b c up_def by (simp add: of_nat_diff)
qed

lemma ascii_nat: "x < 0x80 \<Longrightarrow> \<exists>n < 128. x = of_nat n" for x :: u32
  by (intro exI [of _ "unat x"]) (simp add: word_less_nat_alt)

lemma ascii_of_nat:
  assumes "n < 128"
  shows "(of_nat n :: u32) < 0x80" and "(of_nat n :: byte) < 0x80" and "ucast (of_nat n :: u32) = (of_nat n :: byte)"
    and "m < 128 \<Longrightarrow> (of_nat n :: u32) = of_nat m \<longleftrightarrow> n = m" and "m < 128 \<Longrightarrow> (of_nat n :: byte) = of_nat m \<longleftrightarrow> n = m"
proof -
  have u: "k < 128 \<Longrightarrow> unat (of_nat k :: u32) = k" "k < 128 \<Longrightarrow> unat (of_nat k :: byte) = k" for k
    by (simp_all add: unsigned_of_nat take_bit_nat_eq_self)
  show "(of_nat n :: u32) < 0x80" "(of_nat n :: byte) < 0x80" using assms by (simp_all add: word_less_nat_alt u)
  show "m < 128 \<Longrightarrow> (of_nat n :: u32) = of_nat m \<longleftrightarrow> n = m" using u(1) assms by metis
  show i: "m < 128 \<Longrightarrow> (of_nat n :: byte) = of_nat m \<longleftrightarrow> n = m" using u(2) assms by metis
  show "ucast (of_nat n :: u32) = (of_nat n :: byte)" by (rule bit_word_eqI) (simp add: bit_simps)
qed

lemma up_low: "n < 128 \<Longrightarrow> low n < 128 \<and> up n < 128" "m = up n \<or> m = low n \<longleftrightarrow> m = n \<or> low n = low m"
  by (auto simp: low_def up_def)

lemma stop_chars_ok:
  assumes "e < 0x80"
  shows "x < 0x80 \<and> ucast x \<in> set (stop_chars info e) \<longleftrightarrow> same_char info e x"
    and "b \<in> set (stop_chars info e) \<Longrightarrow> b < 0x80"
proof -
  obtain n where n: "n < 128" "e = of_nat n" using ascii_nat [OF assms] by blast
  note u = up_low(1) [OF n(1)]
  have stops: "set (stop_chars info e) = (if noCase info then {of_nat (up n), of_nat (low n)} else {of_nat n})"
    unfolding n(2) stop_chars_def case_tables [OF n(1)] using u n(1) by (simp add: ascii_of_nat)
  show "b \<in> set (stop_chars info e) \<Longrightarrow> b < 0x80" using stops u n(1) ascii_of_nat(2) by (auto split: if_splits)
  show "x < 0x80 \<and> ucast x \<in> set (stop_chars info e) \<longleftrightarrow> same_char info e x"
  proof (cases "x < 0x80")
    case True
    then obtain m where m: "m < 128" "x = of_nat m" using ascii_nat by blast
    have "same_char info e x \<longleftrightarrow> n = m \<or> noCase info \<and> low n = low m"
      using u up_low(1) [OF m(1)] assms True unfolding same_char_def m(2) n(2) case_tables [OF n(1)] case_tables [OF m(1)]
      by (simp add: ascii_of_nat n(1) m(1))
    moreover have "ucast x \<in> set (stop_chars info e) \<longleftrightarrow> (if noCase info then m = up n \<or> m = low n else m = n)"
      using u unfolding stops m(2) by (simp add: ascii_of_nat m(1) n(1))
    ultimately show ?thesis using True up_low(2) [of m n] by (auto split: if_splits)
  next
    case False
    then show ?thesis using assms by (auto simp: same_char_def)
  qed
qed

section \<open>Skipping wildcards\<close>

lemma star_skip_ok:
  assumes "c_text zP" and "c_text zS" and "matchOne info \<noteq> 0 \<longrightarrow> matchOne info \<noteq> matchAll info \<and> matchOne info \<noteq> esc"
  shows "case star_skip info zP zS of
      None \<Rightarrow> \<not> matches info (Any # pattern_tokens info esc (utf8_chars zP)) (utf8_chars zS)
    | Some (c, zP1, zS1) \<Rightarrow> c_text zP1 \<and> c_text zS1 \<and> (c \<noteq> 0 \<longrightarrow> c \<noteq> matchAll info \<and> c \<noteq> matchOne info) \<and>
        (matches info (Any # pattern_tokens info esc (utf8_chars zP)) (utf8_chars zS) \<longleftrightarrow>
         matches info (Any # pattern_tokens info esc (if c = 0 then [] else c # utf8_chars zP1)) (utf8_chars zS1))"
  using assms(1,2)
proof (induction "length zP" arbitrary: zP zS rule: less_induct)
  case less
  from less.prems(1) show ?case
  proof (cases zP rule: read_cases)
    case 1
    then show ?thesis using less.prems by (subst star_skip.simps) (simp add: Utf8Read_eq)
  next
    case (2 c zP1)
    note step = star_skip.simps [of info zP zS, unfolded Utf8Read_eq 2(2), simplified 2(1)]
    consider "c = matchAll info" "c \<noteq> matchOne info" | "c = matchOne info" "matchOne info \<noteq> 0"
    | "c \<noteq> matchAll info" "c \<noteq> matchOne info" using 2(3) assms(3) by metis
    then show ?thesis
    proof cases
      case 1
      then have "star_skip info zP zS = star_skip info zP1 zS" using step by simp
      moreover have "pattern_tokens info esc (utf8_chars zP) = Any # pattern_tokens info esc (utf8_chars zP1)"
        using 1 2(4) by (simp add: pattern_tokens.simps(2))
      ultimately show ?thesis unfolding matches_Any_Any using less.hyps [OF 2(6) 2(5) less.prems(2)]
        by (simp only: matches_Any_Any)
    next
      case 3
      then have "star_skip info zP zS = Some (c, zP1, zS)" using step by simp
      then show ?thesis using 2 3 less.prems(2) by simp
    next
      case 2
      note c = this
      have t: "pattern_tokens info esc (utf8_chars zP) = One # pattern_tokens info esc (utf8_chars zP1)"
        using c assms(3) \<open>utf8_chars zP = c # utf8_chars zP1\<close> by (simp add: pattern_tokens.simps(2))
      from less.prems(2) show ?thesis
      proof (cases zS rule: read_cases)
        case 1
        then show ?thesis using step c t by (simp add: matches_Any_One)
      next
        case (2 d zS1)
        then have "star_skip info zP zS = star_skip info zP1 zS1" using step c by simp
        then show ?thesis using less.hyps [OF \<open>length zP1 < length zP\<close> \<open>c_text zP1\<close> 2(5)]
          by (simp only: t matches_Any_One 2(4) list.case)
      qed
    qed
  qed
qed

section \<open>Sets\<close>

lemma read_all:
  assumes "c_text z" and "sqlite3Utf8Read z = (d, z1)"
  shows "c_text z1 \<and> (d = 0 \<longrightarrow> z1 = [] \<and> z = []) \<and> utf8_chars z = (if d = 0 then [] else d # utf8_chars z1) \<and>
    length z1 + (if d = 0 then 0 else 1) \<le> length z"
  using assms(1)
proof (cases z rule: read_cases)
  case (2 c z2)
  then show ?thesis using assms(2) by auto
qed (use assms(2) in auto)

lemma rd_char:
  assumes "c_text z"
  shows "rd z = 0x5D \<longleftrightarrow> utf8_chars z \<noteq> [] \<and> hd (utf8_chars z) = 0x5D"
  using assms
proof (cases z rule: read_cases)
  case (2 c z1)
  show ?thesis
  proof (cases "rd z < 0x80")
    case True
    then have "c = ucast (rd z)" by (rule 2(7))
    moreover have "ucast (rd z) = (0x5D :: u32) \<longleftrightarrow> rd z = 0x5D" using ucast_inj [of "rd z" "0x5D"] by simp
    ultimately show ?thesis using 2(4) by simp
  next
    case False
    then show ?thesis using 2(4,8) by auto
  qed
qed simp

definition set_result :: "u32 \<Rightarrow> bool \<Rightarrow> ((u32 \<times> u32) list \<times> u32 list) option \<Rightarrow> u32 \<times> bool \<times> byte list \<Rightarrow> bool" where
  "set_result c seen parsed r \<longleftrightarrow>
     (case parsed of
        None \<Rightarrow> fst r = 0
      | Some (items, rest) \<Rightarrow> fst r \<noteq> 0 \<and> fst (snd r) = (seen \<or> in_items c items) \<and> utf8_chars (snd (snd r)) = rest \<and> c_text (snd (snd r)))"

lemma set_result_add:
  assumes "set_result c seen1 parsed r" and "seen1 \<longleftrightarrow> seen \<or> lo \<le> c \<and> c \<le> hi"
  shows "set_result c seen (map_option (\<lambda>(items, rest). ((lo, hi) # items, rest)) parsed) r"
proof (cases parsed)
  case (Some ir)
  have "in_items c ((lo, hi) # items) \<longleftrightarrow> lo \<le> c \<and> c \<le> hi \<or> in_items c items" for items by (auto simp: in_items_def)
  then show ?thesis using assms Some by (cases ir) (auto simp: set_result_def)
qed (use assms in \<open>simp add: set_result_def\<close>)

lemma set_loop_ok:
  assumes "c_text zP" and "c2 = 0 \<longrightarrow> zP = []"
  shows "set_result c seen (set_items (if c2 = 0 then [] else c2 # utf8_chars zP) prior) (set_loop c c2 zP prior seen)"
  using assms
proof (induction "length zP + (if c2 = 0 then 0 else 1)" arbitrary: c2 zP prior seen rule: less_induct)
  case less
  note step = set_loop.simps [of c c2 zP prior seen]
  obtain d zP1 where d: "sqlite3Utf8Read zP = (d, zP1)" by fastforce
  have zP1: "c_text zP1" "d = 0 \<longrightarrow> zP1 = []" "utf8_chars zP = (if d = 0 then [] else d # utf8_chars zP1)"
    "length zP1 + (if d = 0 then 0 else 1) \<le> length zP"
    using read_all [OF less.prems(1) d] by simp_all
  consider "c2 = 0" | "c2 = 0x5D" | "c2 \<noteq> 0" "c2 \<noteq> 0x5D" "c2 = 0x2D \<and> rd zP \<noteq> 0x5D \<and> rd zP \<noteq> 0 \<and> prior > 0"
  | "c2 \<noteq> 0" "c2 \<noteq> 0x5D" "\<not> (c2 = 0x2D \<and> rd zP \<noteq> 0x5D \<and> rd zP \<noteq> 0 \<and> prior > 0)" by blast
  then show ?case
  proof cases
    case 1
    then show ?thesis using step by (simp add: set_result_def)
  next
    case 2
    then show ?thesis using step less.prems by (simp add: in_items_def set_result_def)
  next
    case 3
    have d0: "d \<noteq> 0" using 3(3) rd_zero [OF less.prems(1)] read_all [OF less.prems(1) d] by auto
    obtain e zP2 where e: "sqlite3Utf8Read zP1 = (e, zP2)" by fastforce
    have zP2: "c_text zP2" "e = 0 \<longrightarrow> zP2 = []" "utf8_chars zP1 = (if e = 0 then [] else e # utf8_chars zP2)"
      "length zP2 + (if e = 0 then 0 else 1) \<le> length zP1"
      using read_all [OF zP1(1) e] by simp_all
    let ?seen = "if c \<ge> prior \<and> c \<le> d then True else seen"
    have s: "set_loop c c2 zP prior seen = set_loop c e zP2 0 ?seen" using step 3 d e by simp
    have "d \<noteq> 0x5D" using 3(3) rd_char [OF less.prems(1)] zP1(3) d0 by auto
    then have i: "set_items (c2 # utf8_chars zP) prior =
        map_option (\<lambda>(items, rest). ((prior, d) # items, rest)) (set_items (if e = 0 then [] else e # utf8_chars zP2) 0)"
      using 3 zP1(3) d0 zP2(3) by simp
    have "length zP2 + (if e = 0 then 0 else 1) < length zP + (if c2 = 0 then 0 else 1)"
      using zP1(4) zP2(4) d0 3(1) by simp
    note ih = less.hyps [OF this zP2(1,2), of ?seen 0]
    have "(if c2 = 0 then [] else c2 # utf8_chars zP) = c2 # utf8_chars zP" using 3(1) by simp
    then show ?thesis unfolding s by (simp only: i) (rule set_result_add [OF ih], auto)
  next
    case 4
    have s: "set_loop c c2 zP prior seen = set_loop c d zP1 c2 (if c = c2 then True else seen)"
      using step 4 d by (simp del: de_Morgan_conj)
    have "\<not> (c2 = 0x2D \<and> prior > 0 \<and> utf8_chars zP \<noteq> [] \<and> hd (utf8_chars zP) \<noteq> 0x5D)"
    proof
      assume a: "c2 = 0x2D \<and> prior > 0 \<and> utf8_chars zP \<noteq> [] \<and> hd (utf8_chars zP) \<noteq> 0x5D"
      then have "zP \<noteq> []" by auto
      then show False using a 4(3) rd_char [OF less.prems(1)] rd_zero [OF less.prems(1)] by auto
    qed
    then have i: "set_items (c2 # utf8_chars zP) prior =
        map_option (\<lambda>(items, rest). ((c2, c2) # items, rest)) (set_items (if d = 0 then [] else d # utf8_chars zP1) c2)"
      using 4 zP1(3) by auto
    have "length zP1 + (if d = 0 then 0 else 1) < length zP + (if c2 = 0 then 0 else 1)"
      using zP1(4) 4(1) by simp
    note ih = less.hyps [OF this zP1(1,2), of "if c = c2 then True else seen" c2]
    have "(if c2 = 0 then [] else c2 # utf8_chars zP) = c2 # utf8_chars zP" using 4(1) by simp
    then show ?thesis unfolding s by (simp only: i) (rule set_result_add [OF ih], auto)
  qed
qed

lemma match_set_ok:
  assumes "c_text zP" and "c_text zS"
  shows "case set_parse (utf8_chars zP) of
      None \<Rightarrow> match_set zP zS = None
    | Some (neg, items, rest) \<Rightarrow>
        (case utf8_chars zS of
           [] \<Rightarrow> match_set zP zS = None
         | x # s1 \<Rightarrow>
             if in_items x items \<noteq> neg
             then \<exists>zP1 zS1. match_set zP zS = Some (zP1, zS1) \<and> utf8_chars zP1 = rest \<and> utf8_chars zS1 = s1 \<and>
               c_text zP1 \<and> c_text zS1
             else match_set zP zS = None)"
proof -
  obtain x zS1 where x: "sqlite3Utf8Read zS = (x, zS1)" by fastforce
  note rx = read_all [OF assms(2) x]
  obtain c2 p1 where 2: "sqlite3Utf8Read zP = (c2, p1)" by fastforce
  note r2 = read_all [OF assms(1) 2]
  define invert where "invert \<longleftrightarrow> c2 = 0x5E"
  obtain c3 p2 where 3: "(if invert then sqlite3Utf8Read p1 else (c2, p1)) = (c3, p2)" by fastforce
  have r3: "c_text p2" "c3 = 0 \<longrightarrow> p2 = []"
    "(if invert then utf8_chars p1 else utf8_chars zP) = (if c3 = 0 then [] else c3 # utf8_chars p2)"
    using r2 read_all [of p1 c3 p2] 3 by (auto simp: invert_def split: if_splits)
  obtain c4 p3 where 4: "(if c3 = 0x5D then sqlite3Utf8Read p2 else (c3, p2)) = (c4, p3)" by fastforce
  have r4: "c_text p3" "c4 = 0 \<longrightarrow> p3 = []"
    "(if c3 = 0x5D then utf8_chars p2 else if c3 = 0 then [] else c3 # utf8_chars p2) = (if c4 = 0 then [] else c4 # utf8_chars p3)"
    using r3 read_all [of p2 c4 p3] 4 by (auto split: if_splits)
  have neg: "set_parse (utf8_chars zP) = map_option (\<lambda>(items, rest). (invert, items, rest)) (set_body (if c3 = 0 then [] else c3 # utf8_chars p2))"
    unfolding r3(3) [symmetric] using r2 by (auto simp: set_parse_def invert_def Let_def)
  have body: "set_body (if c3 = 0 then [] else c3 # utf8_chars p2) =
      (if c3 = 0x5D then map_option (\<lambda>(items, rest). ((0x5D, 0x5D) # items, rest)) (set_items (if c4 = 0 then [] else c4 # utf8_chars p3) 0)
       else set_items (if c4 = 0 then [] else c4 # utf8_chars p3) 0)"
    using r4(3) by (cases "c3 = 0x5D"; cases "c3 = 0") (auto simp: set_body_def simp del: set_items.simps)
  obtain c5 seen1 p4 where 5: "set_loop x c4 p3 0 (c3 = 0x5D \<and> x = 0x5D) = (c5, seen1, p4)" by (metis prod_cases3)
  have ms: "match_set zP zS = (if x = 0 \<or> c5 = 0 \<or> seen1 = invert then None else Some (p4, zS1))"
    using x 2 3 4 5 by (simp add: match_set_def Let_def invert_def del: set_loop.simps)
  let ?parsed = "set_items (if c4 = 0 then [] else c4 # utf8_chars p3) 0"
  have r: "set_result x (c3 = 0x5D \<and> x = 0x5D) ?parsed (c5, seen1, p4)"
    using set_loop_ok [OF r4(1,2), of x "c3 = 0x5D \<and> x = 0x5D" 0] 5 by simp
  define B where "B = set_body (if c3 = 0 then [] else c3 # utf8_chars p2)"
  have B: "set_result x False B (c5, seen1, p4)"
  proof (cases "c3 = 0x5D")
    case True
    then have "c3 = 0x5D \<and> x = 0x5D \<longleftrightarrow> False \<or> 0x5D \<le> x \<and> x \<le> 0x5D" by auto
    from set_result_add [OF r this] show ?thesis unfolding B_def body by (simp only: True if_True refl simp_thms)
  next
    case False
    then show ?thesis using r unfolding B_def body by (simp only: if_False simp_thms)
  qed
  show ?thesis
  proof (cases B)
    case None
    then show ?thesis unfolding neg B_def [symmetric] using B ms by (simp add: set_result_def)
  next
    case (Some ir)
    then obtain items rest where B1: "B = Some (items, rest)" by (cases ir) simp
    have c5: "c5 \<noteq> 0" "seen1 = in_items x items" "utf8_chars p4 = rest" "c_text p4"
      using B B1 by (simp_all add: set_result_def)
    show ?thesis
    proof (cases "x = 0")
      case True
      then show ?thesis unfolding neg B_def [symmetric] B1 using ms rx by simp
    next
      case False
      then have "utf8_chars zS = x # utf8_chars zS1" "c_text zS1" using rx by simp_all
      then show ?thesis unfolding neg B_def [symmetric] B1 using ms c5 False by simp
    qed
  qed
qed

section \<open>The comparison decides the pattern\<close>

definition info_ok :: "compareInfo \<Rightarrow> u32 \<Rightarrow> bool" where
  "info_ok info esc \<longleftrightarrow> (matchOne info \<noteq> 0 \<longrightarrow> matchOne info \<noteq> matchAll info \<and> matchOne info \<noteq> esc) \<and>
     (matchSet info \<noteq> 0 \<longrightarrow> esc < 0x80)"

abbreviation pattern_holds :: "compareInfo \<Rightarrow> u32 \<Rightarrow> byte list \<Rightarrow> u32 list \<Rightarrow> bool" where
  "pattern_holds info esc zP s \<equiv> matches info (pattern_tokens info esc (utf8_chars zP)) s"

lemma decides_search:
  assumes "r = (if M (utf8_chars z) then SQLITE_MATCH else SQLITE_NOWILDCARDMATCH)"
    and "\<And>k. M (drop k (utf8_chars z)) \<Longrightarrow> M (utf8_chars z)"
  shows "decides M z r"
  using assms by (auto simp: decides_def result_defs)

lemma decides_step:
  assumes "decides M z1 r" and "utf8_chars z = x # utf8_chars z1" and "\<And>s. N s = (case s of [] \<Rightarrow> False | x # s1 \<Rightarrow> A x \<and> M s1)" and "A x"
  shows "decides N z r"
proof -
  have "\<not> N (drop k (utf8_chars z))" if "r = SQLITE_NOWILDCARDMATCH" for k
  proof (cases "drop k (utf8_chars z)")
    case (Cons y s1)
    then have "s1 = drop (Suc k) (utf8_chars z)" by (metis drop_Suc list.sel(3) tl_drop)
    then have "s1 = drop k (utf8_chars z1)" using assms(2) by simp
    then show ?thesis using that assms(1,3) Cons by (auto simp: decides_def)
  qed (simp add: assms(3))
  then show ?thesis using assms by (auto simp: decides_def)
qed

lemma decides_NOMATCH: "\<not> M (utf8_chars z) \<Longrightarrow> decides M z SQLITE_NOMATCH"
  by (auto simp: decides_def result_defs)

lemma found_never: "\<not> found (accepts info Never) M s"
  by (induction s) auto

text \<open>The rest of a pattern after the wildcards.\<close>

lemma after_wildcards:
  assumes "info_ok info esc" and "c_text zP" and "c_text zS" and "c \<noteq> 0" "c \<noteq> matchAll info" "c \<noteq> matchOne info"
    and f: "\<And>z p. c_text z \<Longrightarrow> c_text p \<Longrightarrow> length p \<le> length zP + 1 \<Longrightarrow>
      decides (pattern_holds info esc p) z (patternCompare info esc p z None)"
  shows "(if c = esc \<and> matchSet info \<noteq> 0
          then search_set (\<lambda>z. patternCompare info esc (ucast c # zP) z None) zS
          else (case (if c = esc then sqlite3Utf8Read zP else (c, zP)) of
                  (e, zP3) \<Rightarrow>
                    (if e = 0 then SQLITE_NOWILDCARDMATCH
                     else if e < 0x80 then search_stop (\<lambda>z. patternCompare info esc zP3 z None) (stop_chars info e) zS
                     else search_char (\<lambda>z. patternCompare info esc zP3 z None) e zS))) =
    (if matches info (Any # pattern_tokens info esc (c # utf8_chars zP)) (utf8_chars zS) then SQLITE_MATCH else SQLITE_NOWILDCARDMATCH)"
proof (cases "c = esc \<and> matchSet info \<noteq> 0")
  case True
  then have c: "c < 0x80" using assms(1) by (simp add: info_ok_def)
  let ?p = "ucast c # zP"
  obtain n where n: "n < 128" "c = of_nat n" using ascii_nat [OF c] by blast
  have b: "(ucast c :: byte) < 0x80" "ucast (ucast c :: byte) = c"
  proof -
    show "(ucast c :: byte) < 0x80" using ascii_of_nat [OF n(1)] n(2) by simp
    have "(ucast (of_nat n :: byte) :: u32) = of_nat n" using n(1)
      by (simp add: word_unat_eq_iff unsigned_ucast_eq unsigned_of_nat take_bit_nat_eq_self)
    then show "ucast (ucast c :: byte) = c" using ascii_of_nat(3) [OF n(1)] n(2) by simp
  qed
  have "sqlite3Utf8Read ?p = (c, zP)" using ascii_not_lead [OF b(1)] b(2) by (simp add: sqlite3Utf8Read_def)
  then have p: "utf8_chars ?p = c # utf8_chars zP" by (subst utf8_chars.simps) simp
  have "ucast c \<noteq> (0 :: byte)" using b(2) assms(4) by auto
  then have t: "c_text ?p" using assms(2) by (auto simp: c_text_def)
  obtain t ts where tok: "pattern_tokens info esc (c # utf8_chars zP) = t # ts" "t \<noteq> Any"
    using True assms(5) by (cases "set_parse (utf8_chars zP)") (auto simp: pattern_tokens.simps(2))
  have "decides (matches info (t # ts)) z (patternCompare info esc ?p z None)" if "c_text z" for z
    using f [OF that t] p tok by simp
  from search_set_ok [OF this assms(3)] show ?thesis using True unfolding tok(1) matches_found_at [OF tok(2)] by simp
next
  case False
  obtain e zP3 where e: "(if c = esc then sqlite3Utf8Read zP else (c, zP)) = (e, zP3)" by fastforce
  have t3: "c_text zP3" "length zP3 \<le> length zP" using e assms(2) read_all [OF assms(2), of e zP3] by (auto split: if_splits)
  have tok: "pattern_tokens info esc (c # utf8_chars zP) = (if e = 0 then [Never] else Char e # pattern_tokens info esc (utf8_chars zP3))"
    using False e assms(4-6) read_all [OF assms(2), of e zP3] by (auto simp: pattern_tokens.simps(2) split: if_splits)
  have d: "decides (pattern_holds info esc zP3) z (patternCompare info esc zP3 z None)" if "c_text z" for z
    by (rule f [OF that t3(1)]) (use t3 in simp)
  have nf: "(c = esc \<and> matchSet info \<noteq> 0) = False" using False by simp
  have acc: "accepts info (Char e) = (\<lambda>x. same_char info e x)" by auto
  note u = nf if_False e prod.case
  show ?thesis
  proof (cases "e = 0")
    case True
    then show ?thesis unfolding u by (simp add: tok matches_found) (simp add: found_never)
  next
    case e0: False
    show ?thesis
    proof (cases "e < 0x80")
      case True
      have "(\<lambda>x. x < 0x80 \<and> ucast x \<in> set (stop_chars info e)) = same_char info e" using stop_chars_ok(1) [OF True] by auto
      then show ?thesis using search_stop_ok [OF d assms(3) stop_chars_ok(2) [OF True]] e0 True
        unfolding u by (simp add: tok matches_found acc)
    next
      case high: False
      then have "(\<lambda>x. x = e) = same_char info e" by (auto simp: same_char_def)
      then show ?thesis using search_char_ok [OF d assms(3), of e] e0 high unfolding u by (simp add: tok matches_found acc)
    qed
  qed
qed

lemma chars_empty: "c_text z \<Longrightarrow> utf8_chars z = [] \<longleftrightarrow> z = []"
  by (cases z rule: read_cases) auto

lemma not_same_zero: "c \<noteq> 0 \<Longrightarrow> \<not> same_char info c 0"
proof
  assume c: "c \<noteq> 0" and "same_char info c 0"
  then have l: "c < 0x80" "sqlite3Tolower c = sqlite3Tolower 0" by (auto simp: same_char_def)
  obtain n where n: "n < 128" "c = of_nat n" using ascii_nat [OF l(1)] by blast
  have "of_nat (low n) = (of_nat (low 0) :: u32)" using l(2) case_tables(1) [OF n(1)] case_tables(1) [of 0] n(2) by simp
  then have "low n = low 0" using ascii_of_nat(4) [of "low n" "low 0"] up_low(1) [OF n(1)] by (simp add: low_def)
  then have "n = 0" by (simp add: low_def split: if_splits)
  then show False using n(2) c by simp
qed

lemma decides_single:
  assumes "t \<noteq> Any" and "pattern_tokens info esc (utf8_chars zP) = t # pattern_tokens info esc (utf8_chars zP1)"
    and "decides (pattern_holds info esc zP1) zS1 r" and "utf8_chars zS = x # utf8_chars zS1" and "accepts info t x"
  shows "decides (pattern_holds info esc zP) zS r"
proof (rule decides_step [where A = "accepts info t"])
  show "pattern_holds info esc zP s = (case s of [] \<Rightarrow> False | x # s1 \<Rightarrow> accepts info t x \<and> pattern_holds info esc zP1 s1)" for s
    by (simp only: assms(2) matches_single [OF assms(1)])
qed (rule assms)+

theorem patternCompare_decides:
  assumes "info_ok info esc" and "c_text zP" and "c_text zS" and "case e of None \<Rightarrow> True | Some k \<Rightarrow> length zP \<le> k"
  shows "decides (pattern_holds info esc zP) zS (patternCompare info esc zP zS e)"
  using assms(2-4)
proof (induction "length zP" arbitrary: zP zS e rule: less_induct)
  case less
  note step = patternCompare.simps [of info esc zP zS e]
  from less.prems(1) show ?case
  proof (cases zP rule: read_cases)
    case 1
    then show ?thesis using step rd_zero [OF less.prems(2)] chars_empty [OF less.prems(2)]
      by (auto simp: Utf8Read_eq decides_def result_defs)
  next
    case zP: (2 c zP1)
    note step1 = step [unfolded Utf8Read_eq zP(2) prod.case]
    have ih: "decides (pattern_holds info esc p) z (patternCompare info esc p z e1)"
      if "c_text p" "c_text z" "length p \<le> length zP1" "case e1 of None \<Rightarrow> True | Some k \<Rightarrow> length p \<le> k" for p z e1
      using less.hyps [OF _ that(1,2,4)] that(3) zP(6) by simp
    have e1: "case e of None \<Rightarrow> True | Some k \<Rightarrow> length p \<le> k" if "length p \<le> length zP1" for p :: "byte list"
      using less.prems(3) that zP(6) by (auto split: option.splits)
    consider "c = matchAll info" | "c \<noteq> matchAll info" "c = esc \<and> matchSet info \<noteq> 0"
    | "c \<noteq> matchAll info" "\<not> (c = esc \<and> matchSet info \<noteq> 0)" by blast
    then show ?thesis
    proof cases
      case 1
      have tok: "pattern_tokens info esc (utf8_chars zP) = Any # pattern_tokens info esc (utf8_chars zP1)"
        using 1 zP(4) by (simp add: pattern_tokens.simps(2))
      have "patternCompare info esc zP zS e =
        (if matches info (Any # pattern_tokens info esc (utf8_chars zP1)) (utf8_chars zS) then SQLITE_MATCH else SQLITE_NOWILDCARDMATCH)"
        (is "?l = ?r")
      proof (cases "star_skip info zP1 zS")
        case None
        then show ?thesis using star_skip_ok [OF zP(5) less.prems(2), of info esc] assms(1) step1 zP 1 by (simp add: info_ok_def)
      next
        case (Some r)
        obtain d zP2 zS1 where r: "r = (d, zP2, zS1)" by (cases r) auto
        have m: "c_text zP2" "c_text zS1" "d \<noteq> 0 \<longrightarrow> d \<noteq> matchAll info \<and> d \<noteq> matchOne info"
          "matches info (Any # pattern_tokens info esc (utf8_chars zP1)) (utf8_chars zS) \<longleftrightarrow>
           matches info (Any # pattern_tokens info esc (if d = 0 then [] else d # utf8_chars zP2)) (utf8_chars zS1)"
          using star_skip_ok [OF zP(5) less.prems(2), of info esc] assms(1) Some r by (simp_all add: info_ok_def)
        show ?thesis
        proof (cases "d = 0")
          case True
          then show ?thesis using m(4) step1 zP 1 Some r by simp
        next
          case False
          have l: "length zP2 + 1 \<le> length zP1" using length_star_skip [OF Some [unfolded r]] False by simp
          have f: "decides (pattern_holds info esc p) z (patternCompare info esc p z None)"
            if "c_text z" "c_text p" "length p \<le> length zP2 + 1" for z p
            by (rule ih [OF that(2,1)]) (use that l in simp_all)
          have "?l = (if d = esc \<and> matchSet info \<noteq> 0
              then search_set (\<lambda>z. patternCompare info esc (ucast d # zP2) z None) zS1
              else (case (if d = esc then sqlite3Utf8Read zP2 else (d, zP2)) of
                      (e, zP3) \<Rightarrow>
                        (if e = 0 then SQLITE_NOWILDCARDMATCH
                         else if e < 0x80 then search_stop (\<lambda>z. patternCompare info esc zP3 z None) (stop_chars info e) zS1
                         else search_char (\<lambda>z. patternCompare info esc zP3 z None) e zS1)))"
            unfolding step1 using 1 zP(1,3) Some r False by (simp only: simp_thms if_True if_False option.case prod.case)
          also have "\<dots> = ?r"
            using after_wildcards [OF assms(1) m(1,2) False _ _ f] m(3,4) False by (simp only: simp_thms if_False)
          finally show ?thesis .
        qed
      qed
      then show ?thesis by (intro decides_search) (auto simp only: tok intro: matches_Any_drop)
    next
      case 2
      note ms = match_set_ok [OF zP(5) less.prems(2)]
      have l: "patternCompare info esc zP zS e =
          (case match_set zP1 zS of None \<Rightarrow> SQLITE_NOMATCH | Some (zPattern2, zString1) \<Rightarrow> patternCompare info esc zPattern2 zString1 e)"
        unfolding step1 using 2 zP(1,3) by (simp only: simp_thms if_True if_False)
      show ?thesis
      proof (cases "set_parse (utf8_chars zP1)")
        case None
        have "pattern_tokens info esc (utf8_chars zP) = [Never]" using 2 zP(4) None by (simp add: pattern_tokens.simps(2))
        then have "\<not> pattern_holds info esc zP (utf8_chars zS)" by (simp add: matches_single split: list.split)
        then show ?thesis using ms None l by (simp add: decides_NOMATCH)
      next
        case (Some p)
        obtain neg items rest where p: "p = (neg, items, rest)" by (cases p) auto
        have tok: "pattern_tokens info esc (utf8_chars zP) = OneOf neg items # pattern_tokens info esc rest"
          using 2 zP(4) Some p by (simp add: pattern_tokens.simps(2))
        consider x s1 where "utf8_chars zS = x # s1" "in_items x items \<noteq> neg"
        | "match_set zP1 zS = None" "\<not> matches info (OneOf neg items # pattern_tokens info esc rest) (utf8_chars zS)"
          using ms Some p by (cases "utf8_chars zS") (auto simp: matches_single split: if_splits)
        then show ?thesis
        proof cases
          case 1
          then obtain zP2 zS1 where m: "match_set zP1 zS = Some (zP2, zS1)" "utf8_chars zP2 = rest" "utf8_chars zS1 = s1"
            "c_text zP2" "c_text zS1" using ms Some p by auto
          have l2: "length zP2 \<le> length zP1" by (rule length_match_set [OF m(1)])
          have "patternCompare info esc zP zS e = patternCompare info esc zP2 zS1 e" using l m(1) by simp
          then show ?thesis
            using decides_single [of "OneOf neg items", OF _ _ ih [OF m(4,5) l2 e1 [OF l2]], of zP zS x] tok m(2,3) 1 by simp
        next
          case 2
          then show ?thesis using l tok by (simp add: decides_NOMATCH)
        qed
      qed
    next
      case 3
      obtain d zP2 where d: "(if c = esc then sqlite3Utf8Read zP1 else (c, zP1)) = (d, zP2)" by fastforce
      have d2: "c_text zP2" "length zP2 \<le> length zP1" "c \<noteq> esc \<Longrightarrow> d = c \<and> zP2 = zP1"
        using d zP(5) read_all [OF zP(5), of d zP2] by (auto split: if_splits)
      define e' where "e' = (if c = esc then Some (length zP2) else e)"
      obtain c2 zS1 where c2: "sqlite3Utf8Read zS = (c2, zS1)" by fastforce
      note rs = read_all [OF less.prems(2) c2]
      define go where "go \<longleftrightarrow> same_char info d c2 \<or> d = matchOne info \<and> Some (length zP2) \<noteq> e' \<and> c2 \<noteq> 0"
      have l: "patternCompare info esc zP zS e =
          (if d = 0 then SQLITE_NOMATCH else if go then patternCompare info esc zP2 zS1 e' else SQLITE_NOMATCH)"
        unfolding step1 Utf8Read_eq Let_def using 3 zP(1,3) d c2
        by (simp only: simp_thms if_True if_False prod.case e'_def go_def)
      show ?thesis
      proof (cases "d = 0")
        case True
        then have "c = esc" using d2(3) zP(3) by auto
        then have "pattern_tokens info esc (utf8_chars zP) = [Never]"
          using 3 zP(4) True d read_all [OF zP(5), of d zP2] by (simp add: pattern_tokens.simps(2))
        then have "\<not> pattern_holds info esc zP (utf8_chars zS)" by (simp add: matches_single split: list.split)
        then show ?thesis using l True by (simp add: decides_NOMATCH)
      next
        case d0: False
        define t where "t = (if c \<noteq> esc \<and> c = matchOne info then One else Char d)"
        have tok: "pattern_tokens info esc (utf8_chars zP) = t # pattern_tokens info esc (utf8_chars zP2)" and tA: "t \<noteq> Any"
          using 3 zP(4) d0 d read_all [OF zP(5), of d zP2] by (auto simp: t_def pattern_tokens.simps(2) split: if_splits)
        have esc: "Some (length zP2) = e' \<longleftrightarrow> c = esc"
          using less.prems(3) zP(6) d2(2) by (auto simp: e'_def split: option.splits)
        have "c = esc \<and> d = matchOne info \<or> c \<noteq> esc \<longrightarrow> True" by simp
        have acc: "accepts info t c2 \<longleftrightarrow> go" if "c2 \<noteq> 0"
          using that esc d2(3) d0 by (auto simp: t_def go_def)
        have "go \<Longrightarrow> c2 \<noteq> 0" using not_same_zero [OF d0] by (auto simp: go_def)
        then consider "go" "c2 \<noteq> 0" | "\<not> go" by blast
        then show ?thesis
        proof cases
          case 1
          then have s: "utf8_chars zS = c2 # utf8_chars zS1" "c_text zS1" using rs by simp_all
          have "case e' of None \<Rightarrow> True | Some k \<Rightarrow> length zP2 \<le> k" using e1 [OF d2(2)] by (simp add: e'_def)
          then show ?thesis
            using decides_single [OF tA tok ih [OF d2(1) s(2) d2(2)] s(1)] acc 1 l d0 by simp
        next
          case 2
          have "\<not> pattern_holds info esc zP (utf8_chars zS)"
            using rs acc 2 tok by (cases "c2 = 0") (simp_all add: matches_single [OF tA])
          then show ?thesis using l d0 2 by (simp add: decides_NOMATCH)
        qed
      qed
    qed
  qed
qed

section \<open>The SQL operators\<close>

text \<open>The rules of the LIKE operator: the escape character, if there is one, takes the character after it literally, and is
  seen before the wildcards.\<close>

fun like_tokens :: "u32 option \<Rightarrow> u32 list \<Rightarrow> pattern_token list" where
  "like_tokens esc [] = []"
| "like_tokens esc (c # cs) =
     (if esc = Some c then (case cs of [] \<Rightarrow> [Never] | d # ds \<Rightarrow> Char d # like_tokens esc ds)
      else if c = 0x25 then Any # like_tokens esc cs
      else if c = 0x5F then One # like_tokens esc cs
      else Char c # like_tokens esc cs)"

text \<open>The rules of the GLOB operator.\<close>

function glob_tokens :: "u32 list \<Rightarrow> pattern_token list" where
  "glob_tokens [] = []"
| "glob_tokens (c # cs) =
     (if c = 0x2A then Any # glob_tokens cs
      else if c = 0x3F then One # glob_tokens cs
      else if c = 0x5B
      then (case set_parse cs of None \<Rightarrow> [Never] | Some (neg, items, rest) \<Rightarrow> OneOf neg items # glob_tokens rest)
      else Char c # glob_tokens cs)"
  by pat_completeness auto
termination
  by (relation "measure length") (auto dest: set_parse_length simp: less_Suc_eq_le)

lemma tokens_glob: "pattern_tokens globInfo 0x5B cs = glob_tokens cs"
  by (induction cs rule: glob_tokens.induct) (auto simp: pattern_tokens.simps(2) globInfo_def split: option.split prod.split)

lemma chars_nonzero: "c_text z \<Longrightarrow> 0 \<notin> set (utf8_chars z)"
proof (induction "length z" arbitrary: z rule: less_induct)
  case less
  from less.prems show ?case
    by (cases z rule: read_cases) (use less.hyps in auto)
qed

text \<open>The record that the function passes on when there is an escape character.\<close>

definition escaped :: "compareInfo \<Rightarrow> u32 \<Rightarrow> compareInfo" where
  "escaped info esc = (let info1 = (if esc = matchAll info then info\<lparr>matchAll := 0\<rparr> else info) in
     if esc = matchOne info1 then info1\<lparr>matchOne := 0\<rparr> else info1)"

lemma escaped_like:
  assumes "info \<in> {likeInfoNorm, likeInfoAlt}" and "esc \<noteq> 0"
  shows "matchAll (escaped info esc) = (if esc = 0x25 then 0 else 0x25)" "matchOne (escaped info esc) = (if esc = 0x5F then 0 else 0x5F)"
    "matchSet (escaped info esc) = 0" "noCase (escaped info esc) = noCase info"
  using assms by (auto simp: escaped_def likeInfoNorm_def likeInfoAlt_def Let_def)

lemma tokens_escaped:
  assumes "info \<in> {likeInfoNorm, likeInfoAlt}" and "esc \<noteq> 0" and "0 \<notin> set cs"
  shows "pattern_tokens (escaped info esc) esc cs = like_tokens (Some esc) cs"
proof -
  note x = escaped_like [OF assms(1,2)]
  show ?thesis
  using assms(3)
proof (induction "length cs" arbitrary: cs rule: less_induct)
  case less
  show ?case
  proof (cases cs)
    case (Cons c ds)
    have c: "c \<noteq> 0" using Cons less.prems by auto
    have ih: "pattern_tokens (escaped info esc) esc ds = like_tokens (Some esc) ds" using less.hyps [of ds] less.prems Cons by simp
    show ?thesis
    proof (cases "c = esc")
      case True
      have "c \<noteq> matchAll (escaped info esc)" using True assms(2) by (simp add: x)
      then show ?thesis using True less.hyps [of "tl ds"] less.prems Cons
        by (cases ds) (simp_all add: pattern_tokens.simps(2) x(3))
    next
      case False
      then show ?thesis unfolding Cons pattern_tokens.simps(2) like_tokens.simps(2) x ih using c False by auto
    qed
  qed simp
qed
qed

lemma tokens_like:
  assumes "info \<in> {likeInfoNorm, likeInfoAlt}" and "0 \<notin> set cs"
  shows "pattern_tokens info 0 cs = like_tokens None cs"
  using assms(2)
  by (induction "None :: u32 option" cs rule: like_tokens.induct)
    (use assms(1) in \<open>auto simp: pattern_tokens.simps(2) likeInfoNorm_def likeInfoAlt_def\<close>)

lemma matches_noCase: "noCase info = noCase info1 \<Longrightarrow> matches info ts s = matches info1 ts s"
proof (induction info ts s rule: matches.induct)
qed (simp_all add: matches.simps same_char_def)

lemma patternCompare_match:
  assumes "info_ok info esc" and "c_text zP" and "c_text zS"
  shows "patternCompare info esc zP zS None = SQLITE_MATCH \<longleftrightarrow> pattern_holds info esc zP (utf8_chars zS)"
  using patternCompare_decides [OF assms, of None] by (simp add: decides_def)

lemma single_char:
  assumes "sqlite3Utf8CharLen e = 1" and "c_text e"
  shows "fst (sqlite3Utf8Read e) = hd (utf8_chars e) \<and> fst (sqlite3Utf8Read e) \<noteq> 0"
  using assms(2)
proof (cases e rule: read_cases)
  case 1
  then show ?thesis using assms(1) by (simp add: sqlite3Utf8CharLen_def utf8_char_len.simps)
qed simp

text \<open>C23: On texts, the SQL operator LIKE - the function \<open>likeFunc\<close> over the table \<open>likeInfoNorm\<close>, or \<open>likeInfoAlt\<close> when it is case
  sensitive - refuses a pattern longer than the limit of the connection and an ESCAPE text that is not one character, and otherwise
  returns whether the documented rules match the string: '%' stands for any sequence of characters, '_' for one character, the
  escape character for the literal character after it (also when the escape character is a wildcard itself), and any other
  character for itself, an ASCII letter in either case for \<open>likeInfoNorm\<close>.  The function's searches for the next literal character,
  its early end without further tries and its byte-wise scan change nothing in the answer.\<close>

theorem likeFunc_decides_like:
  assumes "info \<in> {likeInfoNorm, likeInfoAlt}" and "c_text zB" and "c_text zA" and "\<And>e. zEsc = Some e \<Longrightarrow> c_text e"
  shows "likeFunc limit info zB zA zEsc =
    (if length zB > limit then Like_Error ''LIKE or GLOB pattern too complex''
     else if \<exists>e. zEsc = Some e \<and> sqlite3Utf8CharLen e \<noteq> 1 then Like_Error ''ESCAPE expression must be a single character''
     else Like_Bool (matches info (like_tokens (map_option (\<lambda>e. hd (utf8_chars e)) zEsc) (utf8_chars zB)) (utf8_chars zA)))"
proof (cases zEsc)
  case None
  have "info_ok info 0" "matchSet info = 0" using assms(1) by (auto simp: info_ok_def likeInfoNorm_def likeInfoAlt_def)
  then show ?thesis using patternCompare_match [OF _ assms(2,3), of info 0] tokens_like [OF assms(1) chars_nonzero [OF assms(2)]] None
    by (simp add: likeFunc_def)
next
  case (Some e)
  define esc where "esc = fst (sqlite3Utf8Read e)"
  have l: "likeFunc limit info zB zA zEsc =
    (if length zB > limit then Like_Error ''LIKE or GLOB pattern too complex''
     else if sqlite3Utf8CharLen e \<noteq> 1 then Like_Error ''ESCAPE expression must be a single character''
     else Like_Bool (patternCompare (escaped info esc) esc zB zA None = SQLITE_MATCH))"
    using Some by (simp add: likeFunc_def escaped_def esc_def Let_def)
  have "patternCompare (escaped info esc) esc zB zA None = SQLITE_MATCH \<longleftrightarrow>
      matches info (like_tokens (Some (hd (utf8_chars e))) (utf8_chars zB)) (utf8_chars zA)" if c: "sqlite3Utf8CharLen e = 1"
  proof -
    have e: "esc = hd (utf8_chars e)" "esc \<noteq> 0" using single_char [OF c assms(4) [OF Some]] using that by (auto simp: esc_def)
    note x = escaped_like [OF assms(1) e(2)]
    have ok: "info_ok (escaped info esc) esc" using e(2) by (simp add: info_ok_def x)
    show ?thesis unfolding patternCompare_match [OF ok assms(2,3)] tokens_escaped [OF assms(1) e(2) chars_nonzero [OF assms(2)]]
      e(1) [symmetric] by (rule matches_noCase [OF x(4)])
  qed
  then show ?thesis unfolding l using Some by simp
qed

theorem likeFunc_decides_like_witness:
  "likeFunc 50000 likeInfoNorm [0x25, 0x5F, 0x62] [0x61, 0x41, 0x42] None = Like_Bool True \<and>
   likeFunc 50000 likeInfoAlt [0x25, 0x25, 0x61] [0x25, 0x61] (Some [0x25]) = Like_Bool True"
proof
  have u: "utf8_chars [0x25, 0x5F, 0x62] = [0x25, 0x5F, 0x62]" "utf8_chars [0x61, 0x41, 0x42] = [0x61, 0x41, 0x42]"
    "utf8_chars [0x25, 0x25, 0x61] = [0x25, 0x25, 0x61]" "utf8_chars [0x25, 0x61] = [0x25, 0x61]" "utf8_chars [0x25] = [0x25]"
    by code_simp+
  have c: "same_char likeInfoNorm 0x62 0x42" "same_char likeInfoAlt 0x25 0x25" "same_char likeInfoAlt 0x61 0x61"
    "sqlite3Utf8CharLen [0x25] = 1"
    by code_simp+
  show "likeFunc 50000 likeInfoNorm [0x25, 0x5F, 0x62] [0x61, 0x41, 0x42] None = Like_Bool True"
    by (subst likeFunc_decides_like) (simp_all add: c_text_def u matches.simps c)
  show "likeFunc 50000 likeInfoAlt [0x25, 0x25, 0x61] [0x25, 0x61] (Some [0x25]) = Like_Bool True"
    by (subst likeFunc_decides_like) (simp_all add: c_text_def u matches.simps c)
qed

text \<open>C24: On texts, the SQL operator GLOB - the function \<open>likeFunc\<close> over the table \<open>globInfo\<close> - refuses a pattern longer than the
  limit and otherwise returns whether the rules of file name patterns match the string: '*' stands for any sequence of characters,
  '?' for one, a set in brackets for one character that is in it, or not in it after '^', where a ']' directly after the opening is a
  member, a '-' between two characters makes a range, and an unclosed set matches nothing; any other character, also a letter,
  stands for exactly itself.\<close>

theorem likeFunc_decides_glob:
  assumes "c_text zB" and "c_text zA"
  shows "likeFunc limit globInfo zB zA None =
    (if length zB > limit then Like_Error ''LIKE or GLOB pattern too complex''
     else Like_Bool (matches globInfo (glob_tokens (utf8_chars zB)) (utf8_chars zA)))"
proof -
  have "info_ok globInfo 0x5B" "matchSet globInfo = 0x5B" by (simp_all add: info_ok_def globInfo_def)
  then show ?thesis using patternCompare_match [OF _ assms, of globInfo "0x5B"] by (simp add: likeFunc_def tokens_glob)
qed

theorem likeFunc_decides_glob_witness:
  "likeFunc 50000 globInfo [0x2A, 0x5B, 0x61, 0x2D, 0x63, 0x5D] [0x7A, 0x62] None = Like_Bool True \<and>
   likeFunc 50000 globInfo [0x5B, 0x61] [0x61] None = Like_Bool False"
proof
  have u: "utf8_chars [0x2A, 0x5B, 0x61, 0x2D, 0x63, 0x5D] = [0x2A, 0x5B, 0x61, 0x2D, 0x63, 0x5D]" "utf8_chars [0x7A, 0x62] = [0x7A, 0x62]"
    "utf8_chars [0x5B, 0x61] = [0x5B, 0x61]" "utf8_chars [0x61] = [0x61]"
    by code_simp+
  show "likeFunc 50000 globInfo [0x2A, 0x5B, 0x61, 0x2D, 0x63, 0x5D] [0x7A, 0x62] None = Like_Bool True"
    by (subst likeFunc_decides_glob) (simp_all add: c_text_def u matches.simps set_parse_def set_body_def in_items_def)
  show "likeFunc 50000 globInfo [0x5B, 0x61] [0x61] None = Like_Bool False"
    by (subst likeFunc_decides_glob) (simp_all add: c_text_def u matches.simps set_parse_def set_body_def)
qed

end
