(* ===== verification/Double.thy ===== *)
theory Double
  imports Utf8 "HOL-Library.Log_Nat"
begin

text \<open>Double precision numbers of C: rounding to 53 bits, the operations and the conversion to integers, on rationals.  The
  lemmas state when an operation is exact and how large its error is.\<close>

section \<open>Rounding\<close>

text \<open>The exponent of a positive number, from the lengths of numerator and denominator.\<close>

definition fl_exp :: "rat \<Rightarrow> int" where
  "fl_exp x = (case quotient_of x of (n, d) \<Rightarrow>
     let k = bitlen n - bitlen d in if 2 powi k \<le> x then k else k - 1)"

definition round_even :: "rat \<Rightarrow> int" where
  "round_even x = (let f = \<lfloor>x\<rfloor>; r = x - of_int f in if r < 1 / 2 \<or> r = 1 / 2 \<and> even f then f else f + 1)"

definition fl_unit :: "rat \<Rightarrow> rat" where
  "fl_unit x = 2 powi (max (fl_exp \<bar>x\<bar> - 52) (- 1074))"

definition fl :: "rat \<Rightarrow> rat" where
  "fl x = (if x = 0 then 0 else of_int (round_even (x / fl_unit x)) * fl_unit x)"

lemma fl_exp_bounds:
  assumes "0 < x"
  shows "2 powi fl_exp x \<le> x" and "x < 2 powi (fl_exp x + 1)"
proof -
  obtain n d where q: "quotient_of x = (n, d)" by fastforce
  have d: "0 < d" "x = of_int n / of_int d" using quotient_of_denom_pos [OF q] quotient_of_div [OF q] by auto
  have n: "0 < n" using assms d by (simp add: zero_less_divide_iff)
  define a where "a = nat (bitlen n - 1)"
  define b where "b = nat (bitlen d - 1)"
  have ab: "bitlen n = int (a + 1)" "bitlen d = int (b + 1)" using bitlen_bounds [OF n] bitlen_bounds [OF d(1)] n d(1)
    unfolding a_def b_def by (simp_all add: bitlen_def floorlog_def)
  have "2 ^ a \<le> n" "n < 2 ^ (a + 1)" "2 ^ b \<le> d" "d < 2 ^ (b + 1)"
    using bitlen_bounds [OF n] bitlen_bounds [OF d(1)] unfolding ab by (simp_all add: nat_add_distrib)
  then have r: "2 ^ a \<le> (of_int n :: rat)" "of_int n < (2 ^ (a + 1) :: rat)" "2 ^ b \<le> (of_int d :: rat)" "of_int d < (2 ^ (b + 1) :: rat)"
    by (metis of_int_le_numeral_power_cancel_iff of_int_numeral_le_iff of_int_less_numeral_power_cancel_iff
        of_int_numeral_less_iff numeral_power_le_of_int_cancel_iff numeral_power_less_of_int_cancel_iff)+
  let ?k = "bitlen n - bitlen d"
  have k: "?k = int a - int b" using ab by simp
  have p: "(2 :: rat) powi (int i - int j) = 2 ^ i / 2 ^ j" for i j :: nat by (simp add: power_int_diff)
  have "x < 2 ^ (a + 1) / 2 ^ b" unfolding d(2) by (rule frac_less) (use r n in simp_all)
  then have up: "x < 2 powi (?k + 1)" unfolding k using p [of "a + 1" b] by (simp add: algebra_simps)
  have "2 ^ a / 2 ^ (b + 1) < x" unfolding d(2) by (rule frac_less2) (use r d(1) in simp_all)
  then have lo: "2 powi (?k - 1) < x" unfolding k using p [of a "b + 1"] by (simp add: algebra_simps)
  have e: "fl_exp x = (if 2 powi ?k \<le> x then ?k else ?k - 1)" by (simp add: fl_exp_def q Let_def)
  show "2 powi fl_exp x \<le> x" "x < 2 powi (fl_exp x + 1)" unfolding e using up lo by auto
qed

lemma round_even_near: "\<bar>of_int (round_even x) - x\<bar> \<le> 1 / 2"
proof -
  have "of_int \<lfloor>x\<rfloor> \<le> x" "x < of_int \<lfloor>x\<rfloor> + 1" by linarith+
  then show ?thesis by (auto simp: round_even_def Let_def)
qed

lemma round_even_int [simp]: "round_even (of_int m) = m"
  by (simp add: round_even_def)

lemma fl_unit_pos: "0 < fl_unit x"
  by (simp add: fl_unit_def)

lemma fl_exact:
  assumes "x = of_int m * 2 powi k" and "\<bar>m\<bar> < 2 ^ 53" and "- 1074 \<le> k"
  shows "fl x = x"
proof (cases "x = 0")
  case False
  then have m: "m \<noteq> 0" using assms(1) by auto
  define e where "e = max (fl_exp \<bar>x\<bar> - 52) (- 1074)"
  have "e \<le> k"
  proof (rule ccontr)
    assume "\<not> e \<le> k"
    then have c: "k + 1 \<le> fl_exp \<bar>x\<bar> - 52" using assms(3) by (auto simp: e_def)
    have "(2 :: rat) powi (k + 53) \<le> 2 powi fl_exp \<bar>x\<bar>" by (rule power_int_increasing) (use c in simp_all)
    also have "\<dots> \<le> \<bar>x\<bar>" using fl_exp_bounds(1) [of "\<bar>x\<bar>"] False by simp
    also have "\<dots> = of_int \<bar>m\<bar> * 2 powi k" by (simp add: assms(1) abs_mult)
    finally have "2 ^ 53 * 2 powi k \<le> (of_int \<bar>m\<bar> :: rat) * 2 powi k" by (simp add: power_int_add)
    then have "(2 ^ 53 :: rat) \<le> of_int \<bar>m\<bar>" by simp
    then have "(2 ^ 53 :: int) \<le> \<bar>m\<bar>" by (metis numeral_power_le_of_int_cancel_iff)
    then show False using assms(2) by simp
  qed
  have u: "fl_unit x = 2 powi e" by (simp add: fl_unit_def e_def)
  have "x / fl_unit x = of_int m * 2 powi (k - e)" unfolding u by (subst assms(1)) (simp add: power_int_diff)
  also have "\<dots> = of_int (m * 2 ^ nat (k - e))" using \<open>e \<le> k\<close> by (simp add: power_int_def)
  finally have "of_int (round_even (x / fl_unit x)) = x / fl_unit x" by (simp only: round_even_int)
  then show ?thesis using fl_unit_pos [of x] by (simp add: fl_def)
qed (simp add: fl_def)

lemma fl_error:
  assumes "2 powi (- 1022) \<le> \<bar>x\<bar>"
  shows "\<bar>fl x - x\<bar> \<le> \<bar>x\<bar> / 2 ^ 53"
proof -
  have x: "0 < \<bar>x\<bar>" using assms by (rule less_le_trans [rotated]) simp
  have "(2 :: rat) powi (- 1022) < 2 powi (fl_exp \<bar>x\<bar> + 1)" using assms fl_exp_bounds(2) [OF x] by linarith
  then have "\<not> fl_exp \<bar>x\<bar> + 1 \<le> - 1022" using power_int_increasing [of "fl_exp \<bar>x\<bar> + 1" "- 1022" "2 :: rat"] by linarith
  then have u: "fl_unit x = 2 powi fl_exp \<bar>x\<bar> / 2 ^ 52" by (simp add: fl_unit_def power_int_diff)
  have "\<bar>fl x - x\<bar> = \<bar>of_int (round_even (x / fl_unit x)) - x / fl_unit x\<bar> * fl_unit x"
    using fl_unit_pos [of x] x by (simp add: fl_def abs_mult_pos' algebra_simps flip: abs_mult_pos)
  also have "\<dots> \<le> 1 / 2 * fl_unit x" using round_even_near fl_unit_pos [of x] by (intro mult_right_mono) simp_all
  also have "\<dots> \<le> \<bar>x\<bar> / 2 ^ 53" using fl_exp_bounds(1) [OF x] by (simp add: u)
  finally show ?thesis .
qed

section \<open>Doubles\<close>

text \<open>A finite double is the number it stands for (the two zeros are not told apart); \<open>Inf True\<close> is minus infinity.\<close>

datatype dbl = Fin rat | Inf bool | NaN

definition dround :: "rat \<Rightarrow> dbl" where
  "dround x = (let y = fl x in if 2 ^ 1024 \<le> \<bar>y\<bar> then Inf (y < 0) else Fin y)"

fun dneg :: "dbl \<Rightarrow> dbl" where
  "dneg (Fin x) = Fin (- x)"
| "dneg (Inf b) = Inf (\<not> b)"
| "dneg NaN = NaN"

fun dadd :: "dbl \<Rightarrow> dbl \<Rightarrow> dbl" where
  "dadd (Fin x) (Fin y) = dround (x + y)"
| "dadd (Fin x) (Inf b) = Inf b"
| "dadd (Inf b) (Fin y) = Inf b"
| "dadd (Inf b) (Inf c) = (if b = c then Inf b else NaN)"
| "dadd x y = NaN"

definition dsub :: "dbl \<Rightarrow> dbl \<Rightarrow> dbl" where
  "dsub x y = dadd x (dneg y)"

fun dmul :: "dbl \<Rightarrow> dbl \<Rightarrow> dbl" where
  "dmul (Fin x) (Fin y) = dround (x * y)"
| "dmul (Fin x) (Inf b) = (if x = 0 then NaN else Inf (b \<noteq> (x < 0)))"
| "dmul (Inf b) (Fin y) = (if y = 0 then NaN else Inf (b \<noteq> (y < 0)))"
| "dmul (Inf b) (Inf c) = Inf (b \<noteq> c)"
| "dmul x y = NaN"

fun ddiv :: "dbl \<Rightarrow> dbl \<Rightarrow> dbl" where
  "ddiv (Fin x) (Fin y) = (if y = 0 then (if x = 0 then NaN else Inf (x < 0)) else dround (x / y))"
| "ddiv (Fin x) (Inf b) = Fin 0"
| "ddiv (Inf b) (Fin y) = Inf (b \<noteq> (y < 0))"
| "ddiv x y = NaN"

text \<open>The comparisons \<open><\<close> and \<open>\<ge>\<close>; both are false for NaN.\<close>

fun dless :: "dbl \<Rightarrow> dbl \<Rightarrow> bool" where
  "dless (Fin x) (Fin y) = (x < y)"
| "dless (Fin x) (Inf b) = (\<not> b)"
| "dless (Inf b) (Fin y) = b"
| "dless (Inf b) (Inf c) = (b \<and> \<not> c)"
| "dless x y = False"

fun dle :: "dbl \<Rightarrow> dbl \<Rightarrow> bool" where
  "dle (Fin x) (Fin y) = (x \<le> y)"
| "dle (Fin x) (Inf b) = (\<not> b)"
| "dle (Inf b) (Fin y) = b"
| "dle (Inf b) (Inf c) = (b \<or> \<not> c)"
| "dle x y = False"

definition dint :: "int \<Rightarrow> dbl" where
  "dint i = dround (of_int i)"

text \<open>Conversion to an integer of \<open>n\<close> bits drops the fraction; it is undefined when the result does not fit.\<close>

definition rtrunc :: "rat \<Rightarrow> int" where
  "rtrunc x = (if 0 \<le> x then \<lfloor>x\<rfloor> else \<lceil>x\<rceil>)"

definition to_int :: "nat \<Rightarrow> dbl \<Rightarrow> int option" where
  "to_int n x =
     (case x of
        Fin r \<Rightarrow> (let t = rtrunc r in if - (2 ^ (n - 1)) \<le> t \<and> t < 2 ^ (n - 1) then Some t else None)
      | _ \<Rightarrow> None)"

text \<open>Multiples of a small power of two are represented exactly.\<close>

lemma fl_frac: "\<bar>m\<bar> < 2 ^ 53 \<Longrightarrow> j \<le> 1074 \<Longrightarrow> fl (of_int m / 2 ^ j) = of_int m / 2 ^ j"
  by (rule fl_exact [of _ m "- int j"]) (simp_all add: power_int_minus divide_inverse)

lemma two_1024: "x < 2 ^ 64 \<Longrightarrow> \<not> 2 ^ 1024 \<le> (x :: rat)"
proof -
  assume "x < 2 ^ 64"
  also have "(2 :: rat) ^ 64 \<le> 2 ^ 1024" by (rule power_increasing) simp_all
  finally show ?thesis by simp
qed

lemma dround_fin: "\<bar>fl x\<bar> < 2 ^ 64 \<Longrightarrow> dround x = Fin (fl x)"
  using two_1024 [of "\<bar>fl x\<bar>"] by (simp add: dround_def Let_def)

lemma dround_frac:
  assumes "\<bar>m\<bar> < 2 ^ 53" and "j \<le> 1074"
  shows "dround (of_int m / 2 ^ j) = Fin (of_int m / 2 ^ j)"
proof -
  have "\<bar>of_int m / 2 ^ j\<bar> \<le> \<bar>of_int m :: rat\<bar>" by (simp add: abs_divide divide_le_eq mult_le_cancel_left1)
  also have "\<dots> = of_int \<bar>m\<bar>" by simp
  also have "\<dots> < of_int (2 ^ 64)" unfolding of_int_less_iff using assms(1) by simp
  finally have "\<bar>of_int m / 2 ^ j\<bar> < (2 ^ 64 :: rat)" by simp
  then show ?thesis using dround_fin [of "of_int m / 2 ^ j"] by (simp only: fl_frac [OF assms])
qed

lemma dint_small: "\<bar>i\<bar> < 2 ^ 53 \<Longrightarrow> dint i = Fin (of_int i)"
  using dround_frac [of i 0] by (simp add: dint_def)

lemma fl_near: "2 powi (- 1022) \<le> \<bar>x\<bar> \<or> x = 0 \<Longrightarrow> \<bar>fl x - x\<bar> \<le> \<bar>x\<bar> / 2 ^ 53"
  using fl_error [of x] by (auto simp: fl_def)

lemma tiny:
  assumes "1 / 2 ^ 100 \<le> \<bar>x :: rat\<bar>"
  shows "2 powi (- 1022) \<le> \<bar>x\<bar>"
proof -
  have "(2 :: rat) powi (- 1022) \<le> 2 powi (- 100)" by (rule power_int_increasing) auto
  also have "\<dots> = 1 / 2 ^ 100" by (simp only: power_int_minus power_int_numeral inverse_eq_divide)
  also have "\<dots> \<le> \<bar>x\<bar>" by (rule assms)
  finally show ?thesis .
qed

text \<open>Truncating a number close to a fraction that is not an integer.\<close>

lemma floor_near:
  assumes "0 < q" and "\<not> q dvd p" and "\<bar>v - of_int p / of_int q\<bar> < 1 / of_int q"
  shows "\<lfloor>v :: rat\<rfloor> = p div q"
proof (rule floor_unique)
  have "p mod q \<noteq> 0" using assms(2) by (simp add: dvd_eq_mod_eq_0)
  then have m: "1 \<le> p mod q" "p mod q \<le> q - 1" using assms(1) pos_mod_bound [of q p] pos_mod_sign [of q p] by linarith+
  have "p = q * (p div q) + p mod q" by simp
  then have "(of_int p :: rat) = of_int q * of_int (p div q) + of_int (p mod q)" by (metis of_int_add of_int_mult)
  then have e: "(of_int p :: rat) / of_int q = of_int (p div q) + of_int (p mod q) / of_int q" using assms(1) by (simp add: field_simps)
  have f: "1 / of_int q \<le> (of_int (p mod q) / of_int q :: rat)" "(of_int (p mod q) / of_int q :: rat) \<le> 1 - 1 / of_int q"
    using m assms(1) by (simp_all add: divide_right_mono field_simps)
  show "of_int (p div q) \<le> v" using assms(3) e f(1) by linarith
  show "v < of_int (p div q) + 1" using assms(3) e f(2) by linarith
qed

lemma rtrunc_near:
  assumes "0 < q" and "\<not> q dvd p" and "\<bar>v - of_int p / of_int q\<bar> < 1 / of_int q"
  shows "rtrunc v = cdiv p q"
proof (cases "0 < p")
  case True
  have fl: "\<lfloor>v\<rfloor> = p div q" by (rule floor_near [OF assms])
  then have "0 \<le> v" using True assms(1) by (simp add: pos_imp_zdiv_nonneg_iff flip: zero_le_floor)
  then show ?thesis using fl True assms(1) by (simp add: rtrunc_def cdiv_nonneg)
next
  case False
  have "\<lfloor>- v\<rfloor> = (- p) div q" by (rule floor_near) (use assms in \<open>simp_all add: abs_if split: if_splits\<close>)
  then have c: "\<lceil>v\<rceil> = - ((- p) div q)" by (simp add: ceiling_def)
  have p: "p < 0" using False assms(2) by (cases "p = 0") simp_all
  then have "0 \<le> (- p) div q" using assms(1) by (simp add: pos_imp_zdiv_nonneg_iff)
  moreover have "\<lceil>v\<rceil> = 0" if "0 \<le> v" using that c \<open>0 \<le> (- p) div q\<close> zero_le_ceiling [of v] by linarith
  moreover have "v = 0" if "0 \<le> v" "\<lceil>v\<rceil> = 0" using that by (simp add: ceiling_eq_iff)
  ultimately have "rtrunc v = - ((- p) div q)" using c by (cases "0 \<le> v") (auto simp: rtrunc_def)
  then show ?thesis using p assms(1) by (simp add: cdiv_def)
qed

lemma to_int_fin: "rtrunc r = t \<Longrightarrow> - (2 ^ (n - 1)) \<le> t \<Longrightarrow> t < 2 ^ (n - 1) \<Longrightarrow> to_int n (Fin r) = Some t"
  by (simp add: to_int_def Let_def)

lemma rtrunc_int [simp]: "rtrunc (of_int i) = i"
  by (simp add: rtrunc_def)

end
