(* ===== verification/Sql_Dates.thy ===== *)
theory Sql_Dates
  imports Double "HOL-Library.Monad_Syntax"
begin

text \<open>The date and time functions of \<open>Ext/sqlite/sqlite3.c\<close> (\<open>date.c\<close>): parsing, the conversions between calendar dates and
  Julian day numbers, the modifiers, and \<open>date()\<close>, \<open>time()\<close>, \<open>datetime()\<close>, \<open>julianday()\<close> and \<open>unixepoch()\<close>.  A C string is the list
  of its bytes.  The members of \<open>DateTime\<close> of type \<open>int\<close> are integers; the code checks the ranges of what it reads.  A conversion of a
  double to an integer whose result does not fit is undefined in C and \<open>None\<close> here.  \<open>sqlite3AtoF\<close>, the current time and
  \<open>localtime\<close> are fields of the parameter \<open>date_env\<close>.\<close>

section \<open>Dates and times\<close>

record DateTime =
  iJD :: int
  dtY :: int
  dtM :: int
  dtD :: int
  dth :: int
  dtm :: int
  dttz :: int
  dts :: dbl
  validJD :: bool
  rawS :: bool
  validYMD :: bool
  validHMS :: bool
  validTZ :: bool
  tzSet :: bool
  isError :: bool
  useSubsec :: bool

definition sqlite3Isdigit :: "byte \<Rightarrow> bool" where
  "sqlite3Isdigit x \<longleftrightarrow> sqlite3CtypeMap ! unat x AND 0x04 \<noteq> 0"

text \<open>The remainder of C has the sign of the dividend.\<close>

definition cmod :: "int \<Rightarrow> int \<Rightarrow> int" where
  "cmod a b = a - cdiv a b * b"

text \<open>A cleared object.\<close>

definition dt_zero :: DateTime where
  "dt_zero = \<lparr>iJD = 0, dtY = 0, dtM = 0, dtD = 0, dth = 0, dtm = 0, dttz = 0, dts = Fin 0, validJD = False, rawS = False,
     validYMD = False, validHMS = False, validTZ = False, tzSet = False, isError = False, useSubsec = False\<rparr>"

text \<open>The inner loop of \<open>getDigits\<close>: \<open>n\<close> digits after the value so far.\<close>

fun digits_loop :: "nat \<Rightarrow> byte list \<Rightarrow> int \<Rightarrow> (int \<times> byte list) option" where
  "digits_loop 0 zDate val = Some (val, zDate)"
| "digits_loop (Suc n) zDate val =
     (if \<not> sqlite3Isdigit (rd zDate) then None else digits_loop n (tl zDate) (val * 10 + sint (rd zDate) - 48))"

definition aMx :: "int list" where
  "aMx = [12, 14, 24, 31, 59, 14712]"

text \<open>The values converted, one for each group of the format; the code writes them through pointers and returns their number.
  The end of the format is the separator 0.\<close>

fun getDigits :: "byte list \<Rightarrow> byte list \<Rightarrow> int list" where
  "getDigits zDate (z0 # z1 # z2 # zFormat) =
     (let N = sint (z0 - 48); mn = sint (z1 - 48); mx = aMx ! unat (z2 - 97); nextC = rd zFormat in
      (case digits_loop (nat N) zDate 0 of
         None \<Rightarrow> []
       | Some (val, zDate1) \<Rightarrow>
           (if val < mn \<or> val > mx \<or> nextC \<noteq> 0 \<and> nextC \<noteq> rd zDate1 then []
            else val # (if nextC = 0 then [] else getDigits (tl zDate1) (tl zFormat)))))"
| "getDigits zDate zFormat = []"

fun skip_isspace :: "byte list \<Rightarrow> byte list" where
  "skip_isspace [] = []"
| "skip_isspace (c # z) = (if sqlite3Isspace c then skip_isspace z else c # z)"

text \<open>The result says whether there was an error.\<close>

definition parseTimezone :: "byte list \<Rightarrow> DateTime \<Rightarrow> bool \<times> DateTime" where
  "parseTimezone zDate p =
     (let z = skip_isspace zDate; p0 = p\<lparr>dttz := 0\<rparr>; c = rd z;
          zulu_time = (\<lambda>z p. (rd (skip_isspace z) \<noteq> 0, p\<lparr>tzSet := True\<rparr>));
          offset = (\<lambda>sgn. (case getDigits (tl z) (bytes_of ''20b:20e'') of
             [nHr, nMn] \<Rightarrow> zulu_time (drop 5 (tl z)) (p0\<lparr>dttz := sgn * (nMn + nHr * 60)\<rparr>)
           | _ \<Rightarrow> (True, p0))) in
      if c = 0x2D then offset (- 1)
      else if c = 0x2B then offset 1
      else if c = 0x5A \<or> c = 0x7A then zulu_time (tl z) p0
      else (c \<noteq> 0, p0))"

text \<open>The digits of a fraction of a second: \<open>ms\<close> and \<open>rScale\<close>.\<close>

fun fraction_loop :: "byte list \<Rightarrow> dbl \<Rightarrow> dbl \<Rightarrow> dbl \<times> dbl \<times> byte list" where
  "fraction_loop [] ms rScale = (ms, rScale, [])"
| "fraction_loop (c # zDate) ms rScale =
     (if sqlite3Isdigit c
      then fraction_loop zDate (dsub (dadd (dmul ms (Fin 10)) (dint (sint c))) (Fin 48)) (dmul rScale (Fin 10))
      else (ms, rScale, c # zDate))"

text \<open>The seconds after minutes: \<open>None\<close> is a parse error, otherwise \<open>s\<close>, \<open>ms\<close> and the rest.\<close>

definition parse_seconds :: "byte list \<Rightarrow> (int \<times> dbl \<times> byte list) option" where
  "parse_seconds zDate =
     (if rd zDate = 0x3A
      then (case getDigits (tl zDate) (bytes_of ''20e'') of
              [s] \<Rightarrow>
                (let z = drop 2 (tl zDate) in
                 if rd z = 0x2E \<and> sqlite3Isdigit (rd (tl z))
                 then (case fraction_loop (tl z) (Fin 0) (Fin 1) of (ms, rScale, z1) \<Rightarrow> Some (s, ddiv ms rScale, z1))
                 else Some (s, Fin 0, z))
            | _ \<Rightarrow> None)
      else Some (0, Fin 0, zDate))"

definition parseHhMmSs :: "byte list \<Rightarrow> DateTime \<Rightarrow> bool \<times> DateTime" where
  "parseHhMmSs zDate p =
     (case getDigits zDate (bytes_of ''20c:20e'') of
        [h, m] \<Rightarrow>
          (case parse_seconds (drop 5 zDate) of
             None \<Rightarrow> (True, p)
           | Some (s, ms, z) \<Rightarrow>
               (let p1 = p\<lparr>validJD := False, rawS := False, validHMS := True, dth := h, dtm := m, dts := dadd (dint s) ms\<rparr> in
                case parseTimezone z p1 of
                  (err, p2) \<Rightarrow> if err then (True, p2) else (False, p2\<lparr>validTZ := (dttz p2 \<noteq> 0)\<rparr>)))
      | _ \<Rightarrow> (True, p))"

definition datetimeError :: "DateTime \<Rightarrow> DateTime" where
  "datetimeError p = dt_zero\<lparr>isError := True\<rparr>"

text \<open>\<open>None\<close> stands for a conversion of a double to an integer that is undefined in C.\<close>

definition computeJD :: "DateTime \<Rightarrow> DateTime option" where
  "computeJD p =
     (if validJD p then Some p
      else (let Y = (if validYMD p then dtY p else 2000); M = (if validYMD p then dtM p else 1); D = (if validYMD p then dtD p else 1) in
        if Y < - 4713 \<or> Y > 9999 \<or> rawS p then Some (datetimeError p)
        else (let Y1 = (if M \<le> 2 then Y - 1 else Y); M1 = (if M \<le> 2 then M + 12 else M);
                  A = cdiv Y1 100; B = 2 - A + cdiv A 4; X1 = cdiv (36525 * (Y1 + 4716)) 100; X2 = cdiv (306001 * (M1 + 1)) 10000 in
          case to_int 64 (dmul (dsub (dint (X1 + X2 + D + B)) (Fin (3049 / 2))) (dint 86400000)) of
            None \<Rightarrow> None
          | Some jd \<Rightarrow>
              (let p1 = p\<lparr>iJD := jd, validJD := True\<rparr> in
               if validHMS p
               then (case to_int 64 (dadd (dmul (dts p) (Fin 1000)) (Fin (1 / 2))) of
                       None \<Rightarrow> None
                     | Some ms \<Rightarrow>
                         (let p2 = p1\<lparr>iJD := jd + (dth p * 3600000 + dtm p * 60000 + ms)\<rparr> in
                          if validTZ p
                          then Some (p2\<lparr>iJD := iJD p2 - dttz p * 60000, validYMD := False, validHMS := False, validTZ := False\<rparr>)
                          else Some p2))
               else Some p1))))"

text \<open>The loop over the characters between date and time.\<close>

fun skip_space_T :: "byte list \<Rightarrow> byte list" where
  "skip_space_T [] = []"
| "skip_space_T (c # z) = (if sqlite3Isspace c \<or> c = 0x54 then skip_space_T z else c # z)"

definition parseYyyyMmDd :: "byte list \<Rightarrow> DateTime \<Rightarrow> (bool \<times> DateTime) option" where
  "parseYyyyMmDd zDate p =
     (let neg = (rd zDate = 0x2D); z = (if neg then tl zDate else zDate) in
      case getDigits z (bytes_of ''40f-21a-21d'') of
        [Y, M, D] \<Rightarrow>
          (let z1 = skip_space_T (drop 10 z); (err, p1) = parseHhMmSs z1 p;
               p2 = (if err then p1\<lparr>validHMS := False\<rparr> else p1) in
           if err \<and> rd z1 \<noteq> 0 then Some (True, p1)
           else (let p3 = p2\<lparr>validJD := False, validYMD := True, dtY := (if neg then - Y else Y), dtM := M, dtD := D\<rparr> in
                 if validTZ p3 then map_option (\<lambda>q. (False, q)) (computeJD p3) else Some (False, p3)))
      | _ \<Rightarrow> Some (True, p))"

text \<open>The start of the day after 9999-12-31 is 464269060800000.\<close>

definition INT_464269060799999 :: int where
  "INT_464269060799999 = (push_bit 32 0x1a640) OR 0x1072fdff"

definition validJulianDay :: "int \<Rightarrow> bool" where
  "validJulianDay jd \<longleftrightarrow> jd \<ge> 0 \<and> jd \<le> INT_464269060799999"

definition setRawDateNumber :: "DateTime \<Rightarrow> dbl \<Rightarrow> DateTime option" where
  "setRawDateNumber p r =
     (let p1 = p\<lparr>dts := r, rawS := True\<rparr> in
      if dle (Fin 0) r \<and> dless r (Fin (10746969 / 2))
      then map_option (\<lambda>jd. p1\<lparr>iJD := jd, validJD := True\<rparr>) (to_int 64 (dadd (dmul r (Fin 86400000)) (Fin (1 / 2))))
      else Some p1)"

definition computeYMD :: "DateTime \<Rightarrow> DateTime option" where
  "computeYMD p =
     (if validYMD p then Some p
      else if \<not> validJD p then Some (p\<lparr>dtY := 2000, dtM := 1, dtD := 1, validYMD := True\<rparr>)
      else if \<not> validJulianDay (iJD p) then Some (datetimeError p)
      else (let Z = cdiv (iJD p + 43200000) 86400000 in
        Option.bind (to_int 32 (ddiv (dsub (dint Z) (Fin (7468865 / 4))) (Fin (146097 / 4)))) (\<lambda>A0.
        let A = Z + 1 + A0 - cdiv A0 4; B = A + 1524 in
        Option.bind (to_int 32 (ddiv (dsub (dint B) (dround (1221 / 10))) (Fin (1461 / 4)))) (\<lambda>C.
        let D = cdiv (36525 * (C AND 32767)) 100 in
        Option.bind (to_int 32 (ddiv (dint (B - D)) (dround (306001 / 10000)))) (\<lambda>E.
        Option.bind (to_int 32 (dmul (dround (306001 / 10000)) (dint E))) (\<lambda>X1.
        let M = (if E < 14 then E - 1 else E - 13) in
        Some (p\<lparr>dtD := B - D - X1, dtM := M, dtY := (if M > 2 then C - 4716 else C - 4715), validYMD := True\<rparr>)))))))"

definition computeHMS :: "DateTime \<Rightarrow> DateTime option" where
  "computeHMS p =
     (if validHMS p then Some p
      else Option.bind (computeJD p) (\<lambda>p1.
        let day_ms = cmod (iJD p1 + 43200000) 86400000; day_min = cdiv day_ms 60000 in
        Some (p1\<lparr>dts := ddiv (dint (cmod day_ms 60000)) (Fin 1000), dtm := cmod day_min 60,
          dth := cdiv day_min 60, rawS := False, validHMS := True\<rparr>)))"

definition computeYMD_HMS :: "DateTime \<Rightarrow> DateTime option" where
  "computeYMD_HMS p = Option.bind (computeYMD p) computeHMS"

definition clearYMD_HMS_TZ :: "DateTime \<Rightarrow> DateTime" where
  "clearYMD_HMS_TZ p = p\<lparr>validYMD := False, validHMS := False, validTZ := False\<rparr>"

section \<open>Modifiers\<close>

text \<open>What the functions ask the rest of the library and the system: \<open>sqlite3AtoF\<close> (its result code and the value), the current
  time of the statement, whether the function may depend on it, and \<open>osLocaltime\<close>.\<close>

record tm =
  tm_year :: int
  tm_mon :: int
  tm_mday :: int
  tm_hour :: int
  tm_min :: int
  tm_sec :: int

record date_env =
  sqlite3AtoF :: "byte list \<Rightarrow> int \<times> dbl"
  sqlite3StmtCurrentTime :: int
  sqlite3NotPureFunc :: bool
  osLocaltime :: "int \<Rightarrow> tm option"

definition str_lower :: "byte list \<Rightarrow> byte list" where
  "str_lower z = map (\<lambda>b. of_nat (sqlite3UpperToLower ! unat b)) z"

definition stricmp0 :: "byte list \<Rightarrow> string \<Rightarrow> bool" where
  "stricmp0 z name \<longleftrightarrow> str_lower z = bytes_of name"

definition strnicmp0 :: "byte list \<Rightarrow> string \<Rightarrow> bool" where
  "strnicmp0 z name \<longleftrightarrow> str_lower (take (length name) z) = bytes_of name"

text \<open>The error says that the local time is not available.\<close>

definition toLocaltime :: "date_env \<Rightarrow> DateTime \<Rightarrow> (bool \<times> DateTime) option" where
  "toLocaltime E p =
     do {
       p1 \<leftarrow> computeJD p;
       (iYearDiff, t) \<leftarrow>
         (if iJD p1 < 2108667600 * 100000 \<or> iJD p1 > 2130141456 * 100000
          then do {
            x \<leftarrow> computeYMD_HMS p1;
            let d = (2000 + cmod (dtY x) 4) - dtY x;
            y \<leftarrow> computeJD (x\<lparr>dtY := dtY x + d, validJD := False\<rparr>);
            Some (d, cdiv (iJD y) 1000 - 21086676 * 10000)
          }
          else Some (0, cdiv (iJD p1) 1000 - 21086676 * 10000));
       (case osLocaltime E t of
          None \<Rightarrow> Some (True, p1)
        | Some l \<Rightarrow>
            Some (False, p1\<lparr>dtY := tm_year l + 1900 - iYearDiff, dtM := tm_mon l + 1, dtD := tm_mday l, dth := tm_hour l,
              dtm := tm_min l, dts := dadd (dint (tm_sec l)) (dmul (dint (cmod (iJD p1) 1000)) (dround (1 / 1000))),
              validYMD := True, validHMS := True, validJD := False, rawS := False, validTZ := False, isError := False\<rparr>))
     }"

text \<open>Name, limit and factor of the units; the limits are the values of the \<open>float\<close> constants.\<close>

definition aXformType :: "(string \<times> rat \<times> rat) list" where
  "aXformType =
     [(''second'', 464269992787968, 1), (''minute'', 7737900007424, 60), (''hour'', 128969998336, 3600),
      (''day'', 5373485, 86400), (''month'', 176546, 2592000), (''year'', 14713, 31536000)]"

definition autoAdjustDate :: "DateTime \<Rightarrow> DateTime option" where
  "autoAdjustDate p =
     (if \<not> rawS p \<or> validJD p then Some (p\<lparr>rawS := False\<rparr>)
      else if dle (dint (- 21086676 * 10000)) (dts p) \<and> dle (dts p) (dint (25340230 * 10000 + 799))
      then do {
        jd \<leftarrow> to_int 64 (dadd (dadd (dmul (dts p) (Fin 1000)) (Fin 210866760000000)) (Fin (1 / 2)));
        Some ((clearYMD_HMS_TZ p)\<lparr>iJD := jd, validJD := True, rawS := False\<rparr>)
      }
      else Some p)"

text \<open>The loop of the modifier \<open>utc\<close>, with the number of the rounds that may follow: an error, or the time found.\<close>

fun utc_loop :: "nat \<Rightarrow> date_env \<Rightarrow> int \<Rightarrow> int \<Rightarrow> int \<Rightarrow> int option option" where
  "utc_loop n E iOrigJD iGuess iErr =
     do {
       let iGuess1 = iGuess - iErr;
       (err, q) \<leftarrow> toLocaltime E (dt_zero\<lparr>iJD := iGuess1, validJD := True\<rparr>);
       if err then Some None
       else do {
         q1 \<leftarrow> computeJD q;
         let iErr1 = iJD q1 - iOrigJD;
         (if iErr1 \<noteq> 0 then (case n of 0 \<Rightarrow> Some (Some iGuess1) | Suc k \<Rightarrow> utc_loop k E iOrigJD iGuess1 iErr1)
          else Some (Some iGuess1))
       }
     }"

text \<open>The scan for the end of the number at the start of a modifier.\<close>

fun scan_number :: "byte list \<Rightarrow> byte list \<Rightarrow> nat \<Rightarrow> nat" where
  "scan_number z [] n = n"
| "scan_number z (c # r) n =
     (if c = 0x3A \<or> sqlite3Isspace c then n
      else if c = 0x2D \<and> (n = 5 \<and> length (getDigits (tl z) (bytes_of ''40f'')) = 1 \<or>
                            n = 6 \<and> length (getDigits (tl z) (bytes_of ''50f'')) = 1) then n
      else scan_number z r (n + 1))"

text \<open>Months outside 1 to 12 are carried to the year.\<close>

definition normal_month :: "DateTime \<Rightarrow> DateTime" where
  "normal_month p = (let x = (if dtM p > 0 then cdiv (dtM p - 1) 12 else cdiv (dtM p - 12) 12) in
     p\<lparr>dtY := dtY p + x, dtM := dtM p - x * 12\<rparr>)"

text \<open>The result of a modifier: the code, whether the local time was not available, and the object.\<close>

type_synonym mod_result = "(bool \<times> bool \<times> DateTime) option"

text \<open>The form \<open>HH:MM:SS.FFF\<close>; \<open>z0\<close> is the sign.\<close>

definition modify_time :: "byte \<Rightarrow> byte list \<Rightarrow> DateTime \<Rightarrow> mod_result" where
  "modify_time z0 z2 p =
     (case parseHhMmSs (if sqlite3Isdigit (rd z2) then z2 else tl z2) dt_zero of
        (err, tx) \<Rightarrow>
          if err then Some (True, False, p)
          else do {
            tx1 \<leftarrow> computeJD tx;
            let jd = iJD tx1 - 43200000;
            let ms = jd - cdiv jd 86400000 * 86400000;
            p1 \<leftarrow> computeJD p;
            Some (False, False, (clearYMD_HMS_TZ p1)\<lparr>iJD := iJD p1 + (if z0 = 0x2D then - ms else ms)\<rparr>)
          })"

text \<open>The forms \<open>NNN days\<close>; \<open>z\<close> is the text behind the number.\<close>

definition modify_unit :: "byte list \<Rightarrow> dbl \<Rightarrow> DateTime \<Rightarrow> mod_result" where
  "modify_unit z r p =
     (let n0 = length z in
      if n0 > 10 \<or> n0 < 3 then Some (True, False, p)
      else do {
        let n = (if sqlite3UpperToLower ! unat (z ! (n0 - 1)) = 0x73 then n0 - 1 else n0);
        p1 \<leftarrow> computeJD p;
        let rRounder = (if dless r (Fin 0) then Fin (- (1 / 2)) else Fin (1 / 2));
        (case find (\<lambda>(name, rLimit, rXform). length name = n \<and> strnicmp0 z name \<and> dless (Fin (- rLimit)) r \<and> dless r (Fin rLimit))
            aXformType of
           None \<Rightarrow> Some (True, False, clearYMD_HMS_TZ p1)
         | Some (name, rLimit, rXform) \<Rightarrow>
             do {
               (p2, r1) \<leftarrow>
                 (if name = ''month''
                  then do {
                    q \<leftarrow> computeYMD_HMS p1;
                    i \<leftarrow> to_int 32 r;
                    Some ((normal_month (q\<lparr>dtM := dtM q + i\<rparr>))\<lparr>validJD := False\<rparr>, dsub r (dint i))
                  }
                  else if name = ''year''
                  then do {
                    i \<leftarrow> to_int 32 r;
                    q \<leftarrow> computeYMD_HMS p1;
                    Some (q\<lparr>dtY := dtY q + i, validJD := False\<rparr>, dsub r (dint i))
                  }
                  else Some (p1, r));
               p3 \<leftarrow> computeJD p2;
               ms \<leftarrow> to_int 64 (dadd (dmul (dmul r1 (Fin 1000)) (Fin rXform)) rRounder);
               Some (False, False, clearYMD_HMS_TZ (p3\<lparr>iJD := iJD p3 + ms\<rparr>))
             })
      })"

text \<open>The form \<open>YYYY-MM-DD\<close> with its sign, possibly followed by a time.\<close>

definition modify_date :: "byte list \<Rightarrow> nat \<Rightarrow> DateTime \<Rightarrow> mod_result" where
  "modify_date z n p =
     (let z0 = rd z in
      if z0 \<noteq> 0x2B \<and> z0 \<noteq> 0x2D then Some (True, False, p)
      else (case getDigits (tl z) (bytes_of (if n = 5 then ''40f-20a-20d'' else ''50f-20a-20d'')) of
          [Y, M, D] \<Rightarrow>
            (let z1 = (if n = 5 then z else tl z) in
             if M \<ge> 12 \<or> D \<ge> 31 then Some (True, False, p)
             else do {
               p1 \<leftarrow> computeYMD_HMS p;
               let p2 = p1\<lparr>validJD := False, dtY := (if z0 = 0x2D then dtY p1 - Y else dtY p1 + Y),
                 dtM := (if z0 = 0x2D then dtM p1 - M else dtM p1 + M)\<rparr>;
               p3 \<leftarrow> computeJD (normal_month p2);
               let p4 = p3\<lparr>validHMS := False, validYMD := False, iJD := iJD p3 + (if z0 = 0x2D then - D else D) * 86400000\<rparr>;
               let c = rd (drop 11 z1);
               (if c = 0 then Some (False, False, p4)
                else if sqlite3Isspace c \<and> length (getDigits (drop 12 z1) (bytes_of ''20c:20e'')) = 2
                then modify_time z0 (drop 12 z1) p4
                else Some (True, False, p4))
             })
        | _ \<Rightarrow> Some (True, False, p)))"

definition modify_number :: "date_env \<Rightarrow> byte list \<Rightarrow> DateTime \<Rightarrow> mod_result" where
  "modify_number E z p =
     (let n = scan_number z (tl z) 1; (rc, r) = sqlite3AtoF E (take n z) in
      if rc \<le> 0 then Some (True, False, p)
      else if rd (drop n z) = 0x2D then modify_date z n p
      else if rd (drop n z) = 0x3A then modify_time (rd z) z p
      else modify_unit (skip_isspace (drop n z)) r p)"

text \<open>The argument \<open>idx\<close> is the number of the modifier.\<close>

definition parseModifier :: "date_env \<Rightarrow> byte list \<Rightarrow> DateTime \<Rightarrow> nat \<Rightarrow> mod_result" where
  "parseModifier E z p idx =
     (let c = sqlite3UpperToLower ! unat (rd z) in
      if c = 0x61
      then (if stricmp0 z ''auto''
            then (if idx > 1 then Some (True, False, p) else do { q \<leftarrow> autoAdjustDate p; Some (False, False, q) })
            else Some (True, False, p))
      else if c = 0x6A
      then (if stricmp0 z ''julianday'' \<and> \<not> idx > 1 \<and> validJD p \<and> rawS p then Some (False, False, p\<lparr>rawS := False\<rparr>)
            else Some (True, False, p))
      else if c = 0x6C
      then (if stricmp0 z ''localtime'' \<and> sqlite3NotPureFunc E
            then do { (err, q) \<leftarrow> toLocaltime E p; Some (err, err, q) } else Some (True, False, p))
      else if c = 0x75
      then (if stricmp0 z ''unixepoch'' \<and> rawS p
            then (if idx > 1 then Some (True, False, p)
                  else (let r = dadd (dmul (dts p) (Fin 1000)) (Fin 210866760000000) in
                    if dle (Fin 0) r \<and> dless r (Fin 464269060800000)
                    then do {
                      jd \<leftarrow> to_int 64 (dadd r (Fin (1 / 2)));
                      Some (False, False, (clearYMD_HMS_TZ p)\<lparr>iJD := jd, validJD := True, rawS := False\<rparr>)
                    }
                    else Some (True, False, p)))
            else if stricmp0 z ''utc'' \<and> sqlite3NotPureFunc E
            then (if \<not> tzSet p
                  then do {
                    p1 \<leftarrow> computeJD p;
                    res \<leftarrow> utc_loop 3 E (iJD p1) (iJD p1) 0;
                    (case res of
                       None \<Rightarrow> Some (True, True, p1)
                     | Some iGuess \<Rightarrow> Some (False, False, dt_zero\<lparr>iJD := iGuess, validJD := True, tzSet := True\<rparr>))
                  }
                  else Some (False, False, p))
            else Some (True, False, p))
      else if c = 0x77
      then (let (rc, r) = sqlite3AtoF E (drop 8 z) in
            if strnicmp0 z ''weekday '' \<and> rc > 0 \<and> dle (Fin 0) r \<and> dless r (Fin 7) \<and> map_option dint (to_int 32 r) = Some r
            then do {
              n \<leftarrow> to_int 32 r;
              p1 \<leftarrow> computeYMD_HMS p;
              p2 \<leftarrow> computeJD (p1\<lparr>validTZ := False, validJD := False\<rparr>);
              let Z = cmod (cdiv (iJD p2 + 129600000) 86400000) 7;
              Some (False, False, clearYMD_HMS_TZ (p2\<lparr>iJD := iJD p2 + (n - (if Z > n then Z - 7 else Z)) * 86400000\<rparr>))
            }
            else Some (True, False, p))
      else if c = 0x73
      then (if \<not> strnicmp0 z ''start of ''
            then (if stricmp0 z ''subsec'' \<or> stricmp0 z ''subsecond'' then Some (False, False, p\<lparr>useSubsec := True\<rparr>)
                  else Some (True, False, p))
            else if \<not> validJD p \<and> \<not> validYMD p \<and> \<not> validHMS p then Some (True, False, p)
            else do {
              p1 \<leftarrow> computeYMD p;
              let p2 = p1\<lparr>validHMS := True, dth := 0, dtm := 0, dts := Fin 0, rawS := False, validTZ := False, validJD := False\<rparr>;
              let y = drop 9 z;
              Some (if stricmp0 y ''month'' then (False, False, p2\<lparr>dtD := 1\<rparr>)
                    else if stricmp0 y ''year'' then (False, False, p2\<lparr>dtM := 1, dtD := 1\<rparr>)
                    else if stricmp0 y ''day'' then (False, False, p2)
                    else (True, False, p2))
            })
      else if rd z \<in> {0x2B, 0x2D} \<or> 0x30 \<le> rd z \<and> rd z \<le> 0x39 then modify_number E z p
      else Some (True, False, p))"

section \<open>The SQL functions\<close>

definition setDateTimeToCurrent :: "date_env \<Rightarrow> DateTime \<Rightarrow> bool \<times> DateTime" where
  "setDateTimeToCurrent E p =
     (let p1 = p\<lparr>iJD := sqlite3StmtCurrentTime E\<rparr> in
      if iJD p1 > 0 then (False, p1\<lparr>validJD := True\<rparr>) else (True, p1))"

definition parseDateOrTime :: "date_env \<Rightarrow> byte list \<Rightarrow> DateTime \<Rightarrow> (bool \<times> DateTime) option" where
  "parseDateOrTime E zDate p =
     do {
       (err1, p1) \<leftarrow> parseYyyyMmDd zDate p;
       if \<not> err1 then Some (False, p1)
       else (case parseHhMmSs zDate p1 of
         (err2, p2) \<Rightarrow>
           if \<not> err2 then Some (False, p2)
           else if stricmp0 zDate ''now'' \<and> sqlite3NotPureFunc E then Some (setDateTimeToCurrent E p2)
           else (case sqlite3AtoF E zDate of
             (rc, r) \<Rightarrow>
               if rc > 0 then map_option (\<lambda>q. (False, q)) (setRawDateNumber p2 r)
               else if (stricmp0 zDate ''subsec'' \<or> stricmp0 zDate ''subsecond'') \<and> sqlite3NotPureFunc E
               then Some (setDateTimeToCurrent E (p2\<lparr>useSubsec := True\<rparr>))
               else Some (True, p2)))
     }"

text \<open>An argument: its value as a double when it is a number, and as a text, which is \<open>None\<close> for NULL.\<close>

datatype date_value = DV (dv_number: "dbl option") (dv_text: "byte list option")

fun modifiers :: "date_env \<Rightarrow> date_value list \<Rightarrow> nat \<Rightarrow> DateTime \<Rightarrow> mod_result" where
  "modifiers E [] i p = Some (False, False, p)"
| "modifiers E (v # argv) i p =
     (case dv_text v of
        None \<Rightarrow> Some (True, False, p)
      | Some z \<Rightarrow>
          do {
            (err, ctx, q) \<leftarrow> parseModifier E z p i;
            if err then Some (True, ctx, q) else modifiers E argv (i + 1) q
          })"

definition isDate :: "date_env \<Rightarrow> date_value list \<Rightarrow> mod_result" where
  "isDate E args =
     (case args of
        [] \<Rightarrow>
          (if \<not> sqlite3NotPureFunc E then Some (True, False, dt_zero)
           else (case setDateTimeToCurrent E dt_zero of (err, q) \<Rightarrow> Some (err, False, q)))
      | v # argv \<Rightarrow>
          do {
            (err, p) \<leftarrow>
              (case dv_number v of
                 Some r \<Rightarrow> map_option (\<lambda>q. (False, q)) (setRawDateNumber dt_zero r)
               | None \<Rightarrow> (case dv_text v of None \<Rightarrow> Some (True, dt_zero) | Some z \<Rightarrow> parseDateOrTime E z dt_zero));
            if err then Some (True, False, p)
            else do {
              (err1, ctx, p1) \<leftarrow> modifiers E argv 1 p;
              if err1 then Some (True, ctx, p1)
              else do {
                p2 \<leftarrow> computeJD p1;
                if isError p2 \<or> \<not> validJulianDay (iJD p2) then Some (True, False, p2)
                else Some (False, False, if argv = [] \<and> validYMD p2 \<and> dtD p2 > 28 then p2\<lparr>validYMD := False\<rparr> else p2)
              }
            }
          })"

text \<open>\<open>DError\<close>: local time unavailable.\<close>

datatype date_result = DNull | DText "byte list" | DReal dbl | DInt int | DError

text \<open>The common frame of the functions: \<open>None\<close> is undefined.\<close>

definition with_date :: "date_env \<Rightarrow> date_value list \<Rightarrow> (DateTime \<Rightarrow> date_result option) \<Rightarrow> date_result option" where
  "with_date E args f =
     do {
       (err, ctx, x) \<leftarrow> isDate E args;
       if err then Some (if ctx then DError else DNull) else f x
     }"

definition juliandayFunc :: "date_env \<Rightarrow> date_value list \<Rightarrow> date_result option" where
  "juliandayFunc E args = with_date E args (\<lambda>x. do { y \<leftarrow> computeJD x; Some (DReal (ddiv (dint (iJD y)) (Fin 86400000))) })"

definition unixepochFunc :: "date_env \<Rightarrow> date_value list \<Rightarrow> date_result option" where
  "unixepochFunc E args = with_date E args (\<lambda>x.
     do {
       y \<leftarrow> computeJD x;
       Some (if useSubsec y then DReal (ddiv (dint (iJD y - 21086676 * 10000000)) (Fin 1000))
             else DInt (cdiv (iJD y) 1000 - 21086676 * 10000))
     })"

text \<open>The decimal digit of \<open>v\<close> at a power of ten.\<close>

definition zdigit :: "int \<Rightarrow> int \<Rightarrow> byte" where
  "zdigit v p = word_of_int (48 + cmod (cdiv v p) 10)"

definition put2 :: "int \<Rightarrow> byte list" where
  "put2 v = [zdigit v 10, zdigit v 1]"

definition put_date :: "DateTime \<Rightarrow> byte list" where
  "put_date x =
     (let Y = \<bar>dtY x\<bar> in
      (if dtY x < 0 then [0x2D] else []) @ [zdigit Y 1000, zdigit Y 100, zdigit Y 10, zdigit Y 1, 0x2D] @
      put2 (dtM x) @ [0x2D] @ put2 (dtD x))"

definition put_time :: "DateTime \<Rightarrow> byte list option" where
  "put_time x =
     do {
       sec \<leftarrow>
         (if useSubsec x
          then do {
            s \<leftarrow> to_int 32 (dadd (dmul (Fin 1000) (dts x)) (Fin (1 / 2)));
            Some ([zdigit s 10000, zdigit s 1000, 0x2E, zdigit s 100, zdigit s 10, zdigit s 1])
          }
          else map_option put2 (to_int 32 (dts x)));
       Some (put2 (dth x) @ [0x3A] @ put2 (dtm x) @ [0x3A] @ sec)
     }"

definition datetimeFunc :: "date_env \<Rightarrow> date_value list \<Rightarrow> date_result option" where
  "datetimeFunc E args = with_date E args (\<lambda>x.
     do { y \<leftarrow> computeYMD_HMS x; z \<leftarrow> put_time y; Some (DText (put_date y @ [0x20] @ z)) })"

definition timeFunc :: "date_env \<Rightarrow> date_value list \<Rightarrow> date_result option" where
  "timeFunc E args = with_date E args (\<lambda>x. do { y \<leftarrow> computeHMS x; z \<leftarrow> put_time y; Some (DText z) })"

definition dateFunc :: "date_env \<Rightarrow> date_value list \<Rightarrow> date_result option" where
  "dateFunc E args = with_date E args (\<lambda>x. do { y \<leftarrow> computeYMD x; Some (DText (put_date y)) })"

end
