(* ===== verification/Sql_Calendar.thy ===== *)
theory Sql_Calendar
  imports Sql_Dates
begin

text \<open>The Gregorian calendar and the day numbers of \<open>computeJD\<close> and \<open>computeYMD\<close>: the divisions of doubles by 36524.25,
  365.25 and 30.6001 are those of integers, consecutive dates have consecutive numbers, and \<open>computeYMD\<close> inverts \<open>computeJD\<close> except on
  one day.\<close>

section \<open>The divisions of \<open>computeYMD\<close>\<close>

lemma dround_near:
  assumes "1 / 2 ^ 100 \<le> \<bar>x\<bar>" and "\<bar>x\<bar> < 2 ^ 60"
  shows "\<exists>v. dround x = Fin v \<and> \<bar>v - x\<bar> \<le> \<bar>x\<bar> / 2 ^ 53"
proof -
  have n: "\<bar>fl x - x\<bar> \<le> \<bar>x\<bar> / 2 ^ 53" using fl_near tiny [OF assms(1)] by blast
  have "\<bar>fl x\<bar> \<le> \<bar>fl x - x\<bar> + \<bar>x\<bar>" using abs_triangle_ineq [of "fl x - x" x] by simp
  then have "\<bar>fl x\<bar> < 2 ^ 64" using n assms(2) by simp
  then show ?thesis using dround_fin n by blast
qed

lemma dround_pos:
  assumes "1 / 2 ^ 100 \<le> x" and "x \<le> b" and "b < 2 ^ 60"
  obtains v where "dround x = Fin v" and "\<bar>v - x\<bar> \<le> b / 2 ^ 53"
proof -
  have x: "0 < x" using assms(1) by (rule less_le_trans [rotated]) simp
  obtain v where v: "dround x = Fin v" "\<bar>v - x\<bar> \<le> x / 2 ^ 53" using dround_near [of x] assms x by auto
  have "x / 2 ^ 53 \<le> b / 2 ^ 53" using assms(2) by (rule divide_right_mono) simp
  then show ?thesis using that v by (metis order_trans)
qed

lemma near_trans: "\<bar>v - x\<bar> \<le> a \<Longrightarrow> \<bar>x - y\<bar> \<le> b \<Longrightarrow> \<bar>v - y\<bar> \<le> a + b" for v :: rat
  using abs_triangle_ineq [of "v - x" "x - y"] by simp

lemma near_scale:
  assumes "\<bar>x - y\<bar> \<le> a" and "0 \<le> c"
  shows "\<bar>c * x - c * y\<bar> \<le> c * (a :: rat)"
proof -
  have "\<bar>c * x - c * y\<bar> = c * \<bar>x - y\<bar>" using assms(2) by (simp add: abs_mult flip: right_diff_distrib)
  then show ?thesis using assms by (simp add: mult_left_mono)
qed

lemma to_int_near:
  assumes "dround x = Fin v" and "0 < q" and "\<not> q dvd p" and "\<bar>v - of_int p / of_int q\<bar> < 1 / of_int q"
    and "- (2 ^ (n - 1)) \<le> cdiv p q" and "cdiv p q < 2 ^ (n - 1)"
  shows "to_int n (dround x) = Some (cdiv p q)"
  using assms(1) to_int_fin [OF rtrunc_near [OF assms(2-4)] assms(5,6)] by simp

lemma cdiv_bound: "\<bar>a\<bar> \<le> c \<Longrightarrow> 0 < b \<Longrightarrow> \<bar>cdiv a b\<bar> \<le> c" for a b c :: int
proof -
  assume a: "\<bar>a\<bar> \<le> c" "0 < b"
  have "\<bar>cdiv a b\<bar> \<le> \<bar>a\<bar> div \<bar>b\<bar>" by (simp add: cdiv_def abs_mult sgn_if pos_imp_zdiv_nonneg_iff)
  also have "\<dots> \<le> \<bar>a\<bar>" using zdiv_mono2 [of "\<bar>a\<bar>" 1 "\<bar>b\<bar>"] a(2) by simp
  finally show ?thesis using a(1) by simp
qed

text \<open>The two decimal literals as doubles.\<close>

lemma literals: "dround (1221 / 10) = Fin (4296011832046387 / 35184372088832)" "dround (306001 / 10000) = Fin (8613162434843745 / 281474976710656)"
proof -
  have "fl (1221 / 10) = 4296011832046387 / 35184372088832" "fl (306001 / 10000) = 8613162434843745 / 281474976710656" by code_simp+
  then show "dround (1221 / 10) = Fin (4296011832046387 / 35184372088832)" "dround (306001 / 10000) = Fin (8613162434843745 / 281474976710656)"
    using dround_fin [of "1221 / 10"] dround_fin [of "306001 / 10000"] by simp_all
qed

lemma ymd_A:
  assumes "0 \<le> Z" and "Z < 6000000"
  shows "to_int 32 (ddiv (dsub (dint Z) (Fin (7468865 / 4))) (Fin (146097 / 4))) = Some (cdiv (4 * Z - 7468865) 146097)"
proof -
  define p where "p = 4 * Z - 7468865"
  have p: "\<bar>p\<bar> < 20000000" using assms by (simp add: p_def)
  have "dsub (dint Z) (Fin (7468865 / 4)) = dround (of_int p / 2 ^ 2)"
    using dint_small [of Z] assms by (simp add: dsub_def p_def field_simps)
  also have "\<dots> = Fin (of_int p / 4)" using dround_frac [of p 2] p by simp
  finally have d: "ddiv (dsub (dint Z) (Fin (7468865 / 4))) (Fin (146097 / 4)) = dround (of_int p / of_int 146097)" by simp
  have c: "\<bar>cdiv p 146097\<bar> \<le> 20000000" using p by (intro cdiv_bound) simp_all
  show ?thesis
  proof (cases "146097 dvd p")
    case True
    then obtain k where k: "p = 146097 * k" by blast
    have "\<bar>k\<bar> < 2 ^ 53" "\<bar>k\<bar> \<le> 20000000" using p k by simp_all
    then have "dround (of_int p / of_int 146097) = Fin (of_int k)" using dround_frac [of k 0] k by simp
    moreover have "cdiv p 146097 = k" by (cases "0 \<le> k") (simp_all add: k cdiv_def sgn_if)
    ultimately show ?thesis using d \<open>\<bar>k\<bar> \<le> 20000000\<close> by (simp add: to_int_fin flip: p_def)
  next
    case False
    then have "p \<noteq> 0" by auto
    then have "1 \<le> \<bar>p\<bar>" by linarith
    then have x: "1 \<le> \<bar>of_int p :: rat\<bar>" by (metis of_int_1_le_iff of_int_abs)
    have x2: "\<bar>of_int p :: rat\<bar> < 20000000" using p by (metis of_int_abs of_int_less_numeral_iff)
    obtain v where v: "dround (of_int p / of_int 146097) = Fin v"
      "\<bar>v - of_int p / of_int 146097\<bar> \<le> \<bar>of_int p / of_int 146097\<bar> / 2 ^ 53"
      using dround_near [of "of_int p / of_int 146097"] x x2 by auto
    have "\<bar>v - of_int p / of_int 146097\<bar> < 1 / of_int 146097" using v(2) x2 by (simp add: abs_divide)
    then show ?thesis unfolding d p_def [symmetric] using to_int_near [OF v(1), of 146097 p 32] False c by simp
  qed
qed

lemma ymd_C:
  assumes "200 \<le> B" and "B < 6000000"
  shows "to_int 32 (ddiv (dsub (dint B) (dround (1221 / 10))) (Fin (1461 / 4))) = Some ((20 * B - 2442) div 7305)"
proof -
  let ?l = "4296011832046387 / 35184372088832 :: rat"
  note lit = literals(1)
  have l: "\<bar>- ?l - - (1221 / 10)\<bar> \<le> 1 / 10 ^ 12" by simp
  have B: "200 \<le> (of_int B :: rat)" "(of_int B :: rat) < 6000000" using assms by simp_all
  have "dsub (dint B) (dround (1221 / 10)) = dround (of_int B - ?l)" unfolding lit using dint_small [of B] assms by (simp add: dsub_def)
  moreover obtain w where w: "dround (of_int B - ?l) = Fin w" "\<bar>w - (of_int B - ?l)\<bar> \<le> 6000000 / 2 ^ 53"
    by (rule dround_pos [of "of_int B - ?l" 6000000]) (use B in simp_all)
  ultimately have d: "ddiv (dsub (dint B) (dround (1221 / 10))) (Fin (1461 / 4)) = dround (4 / 1461 * w)" by (simp add: field_simps)
  have "\<bar>(of_int B - ?l) - (of_int B - 1221 / 10)\<bar> \<le> 1 / 10 ^ 12" using l by simp
  then have w2: "\<bar>w - (of_int B - 1221 / 10)\<bar> \<le> 6000000 / 2 ^ 53 + 1 / 10 ^ 12" using near_trans [OF w(2)] by blast
  then have w3: "77 \<le> w" "w \<le> 6000000" using B unfolding abs_le_iff by (simp_all add: field_simps)
  obtain v where v: "dround (4 / 1461 * w) = Fin v" "\<bar>v - 4 / 1461 * w\<bar> \<le> 6000000 / 2 ^ 53"
    by (rule dround_pos [of "4 / 1461 * w" 6000000]) (use w3 in simp_all)
  have e: "of_int (20 * B - 2442) / of_int 7305 = 4 / 1461 * (of_int B - 1221 / 10 :: rat)" by (simp add: field_simps)
  have "\<bar>v - of_int (20 * B - 2442) / of_int 7305\<bar> \<le> 6000000 / 2 ^ 53 + 4 / 1461 * (6000000 / 2 ^ 53 + 1 / 10 ^ 12)"
    unfolding e by (rule near_trans [OF v(2) near_scale [OF w2]]) simp
  also have "\<dots> < 1 / of_int 7305" by simp
  finally have "\<bar>v - of_int (20 * B - 2442) / of_int 7305\<bar> < 1 / of_int 7305" .
  moreover have "\<not> 7305 dvd 20 * B - 2442"
  proof
    assume "7305 dvd 20 * B - 2442"
    then have "5 dvd 20 * B - 2442" by (rule dvd_trans [rotated]) simp
    then show False by presburger
  qed
  moreover have "\<bar>cdiv (20 * B - 2442) 7305\<bar> \<le> 200000000" using assms by (intro cdiv_bound) simp_all
  moreover have "cdiv (20 * B - 2442) 7305 = (20 * B - 2442) div 7305" using assms by (simp add: cdiv_nonneg)
  ultimately show ?thesis unfolding d using to_int_near [OF v(1), of 7305 "20 * B - 2442" 32] by simp
qed

lemma ymd_E:
  assumes "1 \<le> N" and "N < 1000"
  shows "to_int 32 (ddiv (dint N) (dround (306001 / 10000))) = Some (10000 * N div 306001)"
proof -
  let ?l = "8613162434843745 / 281474976710656 :: rat"
  note lit = literals(2)
  have N: "1 \<le> (of_int N :: rat)" "(of_int N :: rat) < 1000" using assms by simp_all
  let ?c = "281474976710656 / 8613162434843745 :: rat"
  have d: "ddiv (dint N) (dround (306001 / 10000)) = dround (of_int N * ?c)" unfolding lit using dint_small [of N] assms
    by (simp add: field_simps)
  obtain v where v: "dround (of_int N * ?c) = Fin v" "\<bar>v - of_int N * ?c\<bar> \<le> 1000 / 2 ^ 53"
    by (rule dround_pos [of "of_int N * ?c" 1000]) (use N in simp_all)
  have c: "\<bar>?c - 10000 / 306001\<bar> \<le> 1 / 10 ^ 15" by simp
  have e: "of_int (10000 * N) / of_int 306001 = of_int N * (10000 / 306001 :: rat)" by simp
  have "\<bar>v - of_int (10000 * N) / of_int 306001\<bar> \<le> 1000 / 2 ^ 53 + of_int N * (1 / 10 ^ 15)"
    unfolding e by (rule near_trans [OF v(2) near_scale [OF c]]) (use N in simp)
  also have "\<dots> \<le> 1000 / 2 ^ 53 + 1000 * (1 / 10 ^ 15)" using N by simp
  also have "\<dots> < 1 / of_int 306001" by simp
  finally have "\<bar>v - of_int (10000 * N) / of_int 306001\<bar> < 1 / of_int 306001" .
  moreover have "\<not> 306001 dvd 10000 * N"
  proof
    assume "306001 dvd 10000 * N"
    moreover have "coprime 306001 (10000 :: int)" by code_simp
    ultimately have "306001 dvd N" by (simp only: coprime_dvd_mult_right_iff)
    then show False using zdvd_imp_le [of 306001 N] assms by simp
  qed
  moreover have "\<bar>cdiv (10000 * N) 306001\<bar> \<le> 200000000" using assms by (intro cdiv_bound) simp_all
  moreover have "cdiv (10000 * N) 306001 = 10000 * N div 306001" using assms by (simp add: cdiv_nonneg)
  ultimately show ?thesis unfolding d using to_int_near [OF v(1), of 306001 "10000 * N" 32] by simp
qed

lemma ymd_X:
  assumes "1 \<le> E" and "E < 100"
  shows "to_int 32 (dmul (dround (306001 / 10000)) (dint E)) = Some (306001 * E div 10000)"
proof -
  let ?l = "8613162434843745 / 281474976710656 :: rat"
  note lit = literals(2)
  have E: "1 \<le> (of_int E :: rat)" "(of_int E :: rat) < 100" using assms by simp_all
  have d: "dmul (dround (306001 / 10000)) (dint E) = dround (of_int E * ?l)" unfolding lit using dint_small [of E] assms
    by (simp add: field_simps)
  obtain v where v: "dround (of_int E * ?l) = Fin v" "\<bar>v - of_int E * ?l\<bar> \<le> 10000 / 2 ^ 53"
    by (rule dround_pos [of "of_int E * ?l" 10000]) (use E in simp_all)
  have c: "\<bar>?l - 306001 / 10000\<bar> \<le> 1 / 10 ^ 12" by simp
  have e: "of_int (306001 * E) / of_int 10000 = of_int E * (306001 / 10000 :: rat)" by simp
  have "\<bar>v - of_int (306001 * E) / of_int 10000\<bar> \<le> 10000 / 2 ^ 53 + of_int E * (1 / 10 ^ 12)"
    unfolding e by (rule near_trans [OF v(2) near_scale [OF c]]) (use E in simp)
  also have "\<dots> \<le> 10000 / 2 ^ 53 + 100 * (1 / 10 ^ 12)" using E by simp
  also have "\<dots> < 1 / of_int 10000" by simp
  finally have "\<bar>v - of_int (306001 * E) / of_int 10000\<bar> < 1 / of_int 10000" .
  moreover have "\<not> 10000 dvd 306001 * E"
  proof
    assume "10000 dvd 306001 * E"
    moreover have "coprime 10000 (306001 :: int)" by code_simp
    ultimately have "10000 dvd E" by (simp only: coprime_dvd_mult_right_iff)
    then show False using zdvd_imp_le [of 10000 E] assms by simp
  qed
  moreover have "\<bar>cdiv (306001 * E) 10000\<bar> \<le> 200000000" using assms by (intro cdiv_bound) simp_all
  moreover have "cdiv (306001 * E) 10000 = 306001 * E div 10000" using assms by (simp add: cdiv_nonneg)
  ultimately show ?thesis unfolding d using to_int_near [OF v(1), of 10000 "306001 * E" 32] by simp
qed

section \<open>The calendar\<close>

text \<open>The Gregorian calendar.\<close>

definition leap :: "int \<Rightarrow> bool" where
  "leap y \<longleftrightarrow> 4 dvd y \<and> (\<not> 100 dvd y \<or> 400 dvd y)"

definition month_days :: "int \<Rightarrow> int \<Rightarrow> int" where
  "month_days y m = (if m = 2 then (if leap y then 29 else 28) else if m \<in> {4, 6, 9, 11} then 30 else 31)"

definition valid_date :: "int \<Rightarrow> int \<Rightarrow> int \<Rightarrow> bool" where
  "valid_date y m d \<longleftrightarrow> 0 \<le> y \<and> y \<le> 9999 \<and> 1 \<le> m \<and> m \<le> 12 \<and> 1 \<le> d \<and> d \<le> month_days y m"

definition next_day :: "int \<times> int \<times> int \<Rightarrow> int \<times> int \<times> int" where
  "next_day = (\<lambda>(y, m, d). if d < month_days y m then (y, m, d + 1) else if m < 12 then (y, m + 1, 1) else (y + 1, 1, 1))"

text \<open>The years and months of the algorithm begin in March.\<close>

definition march_year :: "int \<Rightarrow> int \<Rightarrow> int" where
  "march_year y m = (if m \<le> 2 then y - 1 else y)"

definition march_month :: "int \<Rightarrow> int" where
  "march_month m = (if m \<le> 2 then m + 12 else m)"

definition jdn :: "int \<Rightarrow> int \<Rightarrow> int \<Rightarrow> int" where
  "jdn y m d = 36525 * (march_year y m + 4716) div 100 + 306001 * (march_month m + 1) div 10000 + d + 2
     - march_year y m div 100 + march_year y m div 400 - 1524"

lemma month_cases:
  fixes m :: int
  assumes "1 \<le> m" and "m \<le> 12"
  obtains "m = 1" | "m = 2" | "m = 3" | "m = 4" | "m = 5" | "m = 6" | "m = 7" | "m = 8" | "m = 9" | "m = 10" | "m = 11" | "m = 12"
proof -
  have "m = 1 \<or> m = 2 \<or> m = 3 \<or> m = 4 \<or> m = 5 \<or> m = 6 \<or> m = 7 \<or> m = 8 \<or> m = 9 \<or> m = 10 \<or> m = 11 \<or> m = 12"
    using assms by presburger
  then show ?thesis using that by blast
qed

lemma year_quarter: "36525 * x div 100 = 365 * x + x div (4 :: int)"
proof -
  have "36525 * x = 25 * x + 365 * x * 100" by simp
  then have "36525 * x div 100 = 25 * x div 100 + 365 * x" by (metis div_mult_self1 add.commute zero_neq_numeral)
  also have "25 * x div 100 = x div 4" using div_mult_mult1 [of 25 x 4] by simp
  finally show ?thesis by simp
qed

text \<open>The day within the year that begins in March.\<close>

lemma march_day:
  assumes "1 \<le> m" and "m \<le> 12" and "1 \<le> d" and "d \<le> month_days y m"
  defines "n \<equiv> 306001 * (march_month m + 1) div 10000 + d - 123"
  shows "0 \<le> n" and "n \<le> 365" and "n = 365 \<Longrightarrow> leap (march_year y m + 1)" and "n = 0 \<Longrightarrow> m = 3 \<and> d = 1"
    and "10000 * (n + 123) div 306001 = march_month m + 1"
proof -
  have "0 \<le> n \<and> n \<le> 365 \<and> (n = 365 \<longrightarrow> leap (march_year y m + 1)) \<and> (n = 0 \<longrightarrow> m = 3 \<and> d = 1) \<and>
      306001 * (march_month m + 1) \<le> 10000 * (n + 123) \<and> 10000 * (n + 123) < 306001 * (march_month m + 2)"
    using assms(1,2)
    by (cases m rule: month_cases)
      (use assms(3,4) in \<open>simp_all add: n_def march_month_def march_year_def month_days_def split: if_splits\<close>)
  then show "0 \<le> n" "n \<le> 365" "n = 365 \<Longrightarrow> leap (march_year y m + 1)" "n = 0 \<Longrightarrow> m = 3 \<and> d = 1"
    "10000 * (n + 123) div 306001 = march_month m + 1"
    by (blast, blast, blast, blast, intro int_div_pos_eq [where r = "10000 * (n + 123) - 306001 * (march_month m + 1)"]) simp_all
qed

lemma leap_year_end:
  assumes "leap (100 * k + r + 1)" and "0 \<le> r" and "r < 100"
  shows "r mod 4 = 3" and "r = 99 \<Longrightarrow> k mod 4 = 3"
proof -
  have "4 dvd 100 * k + r + 1" using assms(1) by (simp add: leap_def)
  then show "r mod 4 = 3" by presburger
  assume r: "r = 99"
  then have "100 * k + r + 1 = 100 * (k + 1)" by simp
  then have e: "leap (100 * (k + 1))" using assms(1) by metis
  then have "400 dvd 100 * (k + 1)" unfolding leap_def by (meson dvd_triv_left)
  then have "4 dvd k + 1" using dvd_mult_cancel_left [of 100 4 "k + 1"] by simp
  then show "k mod 4 = 3" by presburger
qed

lemma century_of_day:
  assumes "1 \<le> m" and "m \<le> 12" and "1 \<le> d" and "d \<le> month_days y m"
  defines "k \<equiv> march_year y m div 100" and "w \<equiv> 4 * jdn y m d - 7468865 - 146097 * (march_year y m div 100 - 4)"
  shows "0 \<le> w" and "w < 146097" and "w = 0 \<Longrightarrow> march_year y m = 100 * k \<and> k mod 4 = 3 \<and> m = 3 \<and> d = 1"
proof -
  define r where "r = march_year y m mod 100"
  define n where "n = 306001 * (march_month m + 1) div 10000 + d - 123"
  note day = march_day [OF assms(1-4), folded n_def]
  have y: "march_year y m = 100 * k + r" by (simp add: k_def r_def)
  have r: "0 \<le> r" "r < 100" by (simp_all add: r_def)
  have "100 * k + r + 4716 = r + (25 * k + 1179) * 4" by simp
  then have q: "(100 * k + r + 4716) div 4 = 25 * k + r div 4 + 1179" by (simp only: div_mult_self1 zero_neq_numeral)
  have h: "(100 * k + r) div 400 = k div 4" using r by (simp add: k_def [symmetric] y [symmetric] zdiv_zmult2_eq [of 4 _ 100, simplified])
  have k4: "4 * (k div 4) = k - k mod 4" by presburger
  have j: "jdn y m d = 365 * (100 * k + r + 4716) + (25 * k + r div 4 + 1179) + (n + 123) + 2 - k + k div 4 - 1524"
    unfolding jdn_def year_quarter y q h using r by (simp add: n_def)
  have w: "w = 1460 * r + 4 * (r div 4) + 4 * n + 3 - k mod 4"
    unfolding w_def k_def [symmetric] j using k4 by simp
  have k: "0 \<le> k mod 4" "k mod 4 \<le> 3" by (simp_all add: zle_diff1_eq [of _ 4, simplified, symmetric] del: zle_diff1_eq)
  have r4: "4 * (r div 4) = r - r mod 4" "0 \<le> r mod 4" by presburger+
  have "0 \<le> r div 4" using r by (simp add: pos_imp_zdiv_nonneg_iff)
  then show "0 \<le> w" using w day(1) r k by linarith
  have r24: "r div 4 \<le> 24" using r by presburger
  show "w < 146097"
  proof (cases "n = 365")
    case True
    have l: "leap (100 * k + r + 1)" using day(3) [OF True] y by simp
    show ?thesis
    proof (cases "r = 99")
      case True
      then show ?thesis using leap_year_end(2) [OF l r True] w r24 \<open>n = 365\<close> by linarith
    next
      case False
      then have "r \<le> 95" using leap_year_end(1) [OF l r] r by presburger
      then show ?thesis using w \<open>n = 365\<close> r24 k by linarith
    qed
  next
    case False
    then show ?thesis using w day(2) r r24 k by linarith
  qed
  show "w = 0 \<Longrightarrow> march_year y m = 100 * k \<and> k mod 4 = 3 \<and> m = 3 \<and> d = 1"
  proof -
    assume "w = 0"
    then have *: "1460 * r + 4 * (r div 4) + 4 * n + 3 = k mod 4" using w by linarith
    have "0 \<le> r div 4" using r by (simp add: pos_imp_zdiv_nonneg_iff)
    then have "r = 0" "n = 0" using * day(1) r k by linarith+
    moreover from this have "k mod 4 = 3" using * by simp
    ultimately have "r = 0" "n = 0" "k mod 4 = 3" by simp_all
    then show ?thesis using day(4) y by simp
  qed
qed

section \<open>Day numbers\<close>

lemma jdn_bounds:
  assumes "0 \<le> y" and "y \<le> 9999" and "1 \<le> m" and "m \<le> 12" and "1 \<le> d" and "d \<le> 31"
  shows "1700000 < jdn y m d" and "jdn y m d < 5400000"
proof -
  have Y: "- 1 \<le> march_year y m" "march_year y m \<le> 9999" using assms by (simp_all add: march_year_def)
  have M: "3 \<le> march_month m" "march_month m \<le> 14" using assms by (simp_all add: march_month_def)
  define a where "a = 36525 * (march_year y m + 4716) div 100"
  define b where "b = 306001 * (march_month m + 1) div 10000"
  define c where "c = march_year y m div 100"
  define e where "e = march_year y m div 400"
  have "36525 * 4715 div 100 \<le> a" "a \<le> 36525 * 14715 div 100" unfolding a_def by (rule zdiv_mono1, use Y in simp, simp)+
  moreover have "306001 * 4 div 10000 \<le> b" "b \<le> 306001 * 15 div 10000" unfolding b_def by (rule zdiv_mono1, use M in simp, simp)+
  moreover have "(- 1) div 100 \<le> c" "c \<le> 9999 div 100" "(- 1) div 400 \<le> e" "e \<le> 9999 div 400"
    unfolding c_def e_def by (rule zdiv_mono1, use Y in simp, simp)+
  moreover have "jdn y m d = a + b + d + 2 - c + e - 1524" by (simp add: jdn_def a_def b_def c_def e_def)
  ultimately show "1700000 < jdn y m d" "jdn y m d < 5400000" using assms(5,6) by simp_all
qed

text \<open>The C divisions of \<open>computeJD\<close>, for the year -1 as well.\<close>

lemma cdiv_years:
  assumes "- 1 \<le> y"
  shows "2 - cdiv y 100 + cdiv (cdiv y 100) 4 = 2 - y div 100 + y div 400"
proof (cases "y = - 1")
  case False
  then have "cdiv y 100 = y div 100" "0 \<le> y div 100" using assms by (simp_all add: cdiv_nonneg pos_imp_zdiv_nonneg_iff)
  then show ?thesis using assms False by (simp add: cdiv_nonneg zdiv_zmult2_eq [of 4 y 100, simplified])
qed (simp add: cdiv_def)

text \<open>The object after \<open>computeJD\<close> has the day number and the time in milliseconds.\<close>

lemma computeJD_date:
  assumes "\<not> validJD p" and "validYMD p" and "\<not> rawS p" and "0 \<le> dtY p" and "dtY p \<le> 9999" and "1 \<le> dtM p" and "dtM p \<le> 12"
    and "1 \<le> dtD p" and "dtD p \<le> 31"
  defines "jd \<equiv> 86400000 * jdn (dtY p) (dtM p) (dtD p) - 43200000"
  shows "\<not> validHMS p \<Longrightarrow> computeJD p = Some (p\<lparr>iJD := jd, validJD := True\<rparr>)"
    and "validHMS p \<Longrightarrow> \<not> validTZ p \<Longrightarrow> to_int 64 (dadd (dmul (dts p) (Fin 1000)) (Fin (1 / 2))) = Some ms \<Longrightarrow>
      computeJD p = Some (p\<lparr>validJD := True, iJD := jd + (dth p * 3600000 + dtm p * 60000 + ms)\<rparr>)"
    and "validHMS p \<Longrightarrow> validTZ p \<Longrightarrow> to_int 64 (dadd (dmul (dts p) (Fin 1000)) (Fin (1 / 2))) = Some ms \<Longrightarrow>
      computeJD p = Some (p\<lparr>validJD := True, iJD := jd + (dth p * 3600000 + dtm p * 60000 + ms) - dttz p * 60000,
        validYMD := False, validHMS := False, validTZ := False\<rparr>)"
proof -
  define Y1 where "Y1 = march_year (dtY p) (dtM p)"
  define M1 where "M1 = march_month (dtM p)"
  have Y: "- 1 \<le> Y1" using assms(4) by (simp add: march_year_def Y1_def)
  have M: "3 \<le> M1" using assms(6,7) by (simp add: march_month_def M1_def)
  define N where "N = cdiv (36525 * (Y1 + 4716)) 100 + cdiv (306001 * (M1 + 1)) 10000 + dtD p + (2 - cdiv Y1 100 + cdiv (cdiv Y1 100) 4)"
  have N: "N = jdn (dtY p) (dtM p) (dtD p) + 1524"
    unfolding N_def cdiv_years [OF Y] jdn_def Y1_def [symmetric] M1_def [symmetric] using Y M by (simp add: cdiv_nonneg)
  have b: "1700000 < N" "N < 5500000" using jdn_bounds [OF assms(4-9)] N by simp_all
  have "dsub (dint N) (Fin (3049 / 2)) = dround (of_int (2 * N - 3049) / 2 ^ 1)" using dint_small [of N] b by (simp add: dsub_def diff_divide_distrib)
  also have "\<dots> = Fin (of_int (2 * N - 3049) / 2)" using dround_frac [of "2 * N - 3049" 1] b by simp
  finally have "dmul (dsub (dint N) (Fin (3049 / 2))) (dint 86400000) = dround (of_int (2 * N - 3049) / 2 * 86400000)"
    by (simp add: dint_small)
  also have "\<dots> = dround (of_int ((2 * N - 3049) * 43200000) / 2 ^ 0)" by (simp add: diff_divide_distrib algebra_simps)
  also have "\<dots> = Fin (of_int ((2 * N - 3049) * 43200000))" using dround_frac [of "(2 * N - 3049) * 43200000" 0] b by simp
  finally have "to_int 64 (dmul (dsub (dint N) (Fin (3049 / 2))) (dint 86400000)) = Some ((2 * N - 3049) * 43200000)"
    using to_int_fin [OF rtrunc_int, of 64 "(2 * N - 3049) * 43200000"] b by simp
  also have "(2 * N - 3049) * 43200000 = jd" using N by (simp add: jd_def)
  finally have jd: "to_int 64 (dmul (dsub (dint N) (Fin (3049 / 2))) (dint 86400000)) = Some jd" .
  note d = computeJD_def [of p, unfolded Let_def, folded march_year_def march_month_def]
  have "computeJD p = (if validHMS p
               then (case to_int 64 (dadd (dmul (dts p) (Fin 1000)) (Fin (1 / 2))) of
                       None \<Rightarrow> None
                     | Some ms \<Rightarrow>
                         (let p2 = p\<lparr>validJD := True, iJD := jd + (dth p * 3600000 + dtm p * 60000 + ms)\<rparr> in
                          if validTZ p
                          then Some (p2\<lparr>iJD := iJD p2 - dttz p * 60000, validYMD := False, validHMS := False, validTZ := False\<rparr>)
                          else Some p2))
               else Some (p\<lparr>iJD := jd, validJD := True\<rparr>))"
    using assms(1-5) jd unfolding d N_def Y1_def M1_def march_year_def march_month_def by (simp add: Let_def cong: if_cong option.case_cong)
  then show "\<not> validHMS p \<Longrightarrow> computeJD p = Some (p\<lparr>iJD := jd, validJD := True\<rparr>)"
    "validHMS p \<Longrightarrow> \<not> validTZ p \<Longrightarrow> to_int 64 (dadd (dmul (dts p) (Fin 1000)) (Fin (1 / 2))) = Some ms \<Longrightarrow>
      computeJD p = Some (p\<lparr>validJD := True, iJD := jd + (dth p * 3600000 + dtm p * 60000 + ms)\<rparr>)"
    "validHMS p \<Longrightarrow> validTZ p \<Longrightarrow> to_int 64 (dadd (dmul (dts p) (Fin 1000)) (Fin (1 / 2))) = Some ms \<Longrightarrow>
      computeJD p = Some (p\<lparr>validJD := True, iJD := jd + (dth p * 3600000 + dtm p * 60000 + ms) - dttz p * 60000,
        validYMD := False, validHMS := False, validTZ := False\<rparr>)"
    by (simp_all add: Let_def)
qed

text \<open>Consecutive days have consecutive numbers.\<close>

lemma div_next: "0 < q \<Longrightarrow> (y + 1) div q = y div q + (if q dvd y + 1 then 1 else 0)" for q :: int
proof (cases "y mod q + 1 = q")
  case True
  have "q * (y div q) + y mod q = y" by simp
  then have "y + 1 = q * (y div q) + q" using True by linarith
  then have e: "y + 1 = q * (y div q + 1)" by (simp add: distrib_left)
  assume q: "0 < q"
  have "(y + 1) div q = y div q + 1" unfolding e using q by simp
  moreover have "q dvd y + 1" unfolding e by simp
  ultimately show ?thesis by simp
next
  case False
  assume q: "0 < q"
  have b: "0 \<le> y mod q" "y mod q + 1 < q" using pos_mod_bound [OF q, of y] pos_mod_sign [OF q, of y] False by linarith+
  have e: "y + 1 = q * (y div q) + (y mod q + 1)" using mult_div_mod_eq [of q y] by linarith
  have d: "(y + 1) div q = y div q" by (rule int_div_pos_eq [OF e]) (use b in simp_all)
  have "(y + 1) mod q = y mod q + 1" by (rule int_mod_pos_eq [OF e]) (use b in simp_all)
  then have "\<not> q dvd y + 1" using b by (simp add: dvd_eq_mod_eq_0)
  then show ?thesis using d by simp
qed

text \<open>The leap days before a year that begins in March.\<close>

definition leap_days :: "int \<Rightarrow> int" where
  "leap_days y = y div 4 - y div 100 + y div 400"

lemma leap_days_next: "leap_days (y + 1) = leap_days y + (if leap (y + 1) then 1 else 0)"
proof -
  define A B C where "A \<longleftrightarrow> 4 dvd y + 1" and "B \<longleftrightarrow> 100 dvd y + 1" and "C \<longleftrightarrow> 400 dvd y + 1"
  have CB: "C \<longrightarrow> B" using dvd_trans [of 100 400 "y + 1"] by (auto simp: B_def C_def)
  have BA: "B \<longrightarrow> A" using dvd_trans [of 4 100 "y + 1"] by (auto simp: A_def B_def)
  have l: "leap (y + 1) \<longleftrightarrow> A \<and> (\<not> B \<or> C)" by (simp only: leap_def A_def B_def C_def)
  have d: "(y + 1) div 4 = y div 4 + (if A then 1 else 0)" "(y + 1) div 100 = y div 100 + (if B then 1 else 0)"
    "(y + 1) div 400 = y div 400 + (if C then 1 else 0)"
    unfolding A_def B_def C_def by (rule div_next, simp)+
  have "(a + (if A then 1 else 0)) - (b + (if B then 1 else 0)) + (c + (if C then 1 else 0)) =
      a - b + c + (if A \<and> (\<not> B \<or> C) then 1 else 0)" for a b c :: int
    using CB BA by (cases A; cases B; cases C) simp_all
  then show ?thesis unfolding leap_days_def l d by blast
qed

text \<open>The number of the first of March counts the years and the leap days before it.\<close>

lemma jdn_march: "jdn y m d = 365 * march_year y m + leap_days (march_year y m)
    + 306001 * (march_month m + 1) div 10000 + d + 1720997"
proof -
  have "(march_year y m + 4716) div 4 = march_year y m div 4 + 1179" using div_mult_self1 [of 4 "march_year y m" 1179] by simp
  then show ?thesis unfolding jdn_def year_quarter leap_days_def by simp
qed

lemma jdn_next_day:
  assumes "1 \<le> m" and "m \<le> 12" and "next_day (y, m, d) = (y1, m1, d1)" and "1 \<le> d" and "d \<le> month_days y m"
  shows "jdn y1 m1 d1 = jdn y m d + 1"
proof (cases "d < month_days y m")
  case True
  then show ?thesis using assms(3) by (auto simp: next_day_def jdn_def)
next
  case False
  then have d: "d = month_days y m" using assms(5) by simp
  have l: "leap_days y = leap_days (y - 1) + (if leap y then 1 else 0)" using leap_days_next [of "y - 1"] by simp
  show ?thesis using assms(1,2)
  proof (cases m rule: month_cases)
    case 2
    then have "y1 = y" "m1 = 3" "d1 = 1" using assms(3) False by (simp_all add: next_day_def)
    then show ?thesis using 2 d l by (simp add: jdn_march march_year_def march_month_def month_days_def)
  next
    case 12
    then have "y1 = y + 1" "m1 = 1" "d1 = 1" using assms(3) False by (simp_all add: next_day_def)
    then show ?thesis using 12 d by (simp add: jdn_march march_year_def march_month_def month_days_def)
  qed (use assms(3) False d in \<open>simp_all add: next_day_def jdn_march march_year_def march_month_def month_days_def split: if_splits\<close>)
qed

lemma leap_days_mono: "y \<le> z \<Longrightarrow> leap_days y \<le> leap_days z"
  by (induction z rule: int_ge_induct) (simp_all add: leap_days_next)

lemma jdn_last:
  assumes "y \<le> 9999" and "1 \<le> m" and "m \<le> 12" and "1 \<le> d" and "d \<le> month_days y m"
  shows "jdn y m d \<le> 5373484"
proof (cases "march_year y m \<le> 9998")
  case True
  then have "leap_days (march_year y m) \<le> leap_days 9998" by (rule leap_days_mono)
  moreover have "leap_days 9998 = 2424" by (simp add: leap_days_def)
  ultimately show ?thesis using True march_day(2) [OF assms(2-5)] unfolding jdn_march by linarith
next
  case False
  then have y: "y = 9999" "march_year y m = 9999" "3 \<le> m" using assms(1) by (auto simp: march_year_def split: if_splits)
  have l: "leap_days 9999 = 2424" by (simp add: leap_days_def)
  from assms(2,3) show ?thesis
    by (cases m rule: month_cases) (use y assms(5) in \<open>simp_all add: jdn_march l march_month_def month_days_def\<close>)
qed

section \<open>The date of a day number\<close>

text \<open>The correction for the centuries, with the C divisions.\<close>

lemma century_correction:
  assumes "- 1 \<le> k" and "0 \<le> w" and "w < 146097"
  shows "cdiv (146097 * (k - 4) + w) 146097 - cdiv (cdiv (146097 * (k - 4) + w) 146097) 4 = k - k div 4 - 3 \<or> w = 0 \<and> k < 4"
proof (cases "4 \<le> k")
  case True
  have "(146097 * (k - 4) + w) div 146097 = k - 4" by (rule int_div_pos_eq) (use assms in simp_all)
  then have "cdiv (146097 * (k - 4) + w) 146097 = k - 4" using True assms(2) by (simp add: cdiv_nonneg)
  moreover have "cdiv (k - 4) 4 = k div 4 - 1" using True div_mult_self1 [of 4 k "- 1"] by (simp add: cdiv_nonneg)
  ultimately show ?thesis by simp
next
  case False
  show ?thesis
  proof (cases "w = 0")
    case w: False
    have neg: "146097 * (k - 4) + w < 0" using False assms(3) by simp
    have "(146097 * (4 - k) - w) div 146097 = 3 - k" by (rule int_div_pos_eq [where r = "146097 - w"]) (use assms w in simp_all)
    then have c: "cdiv (146097 * (k - 4) + w) 146097 = k - 3" using neg by (simp add: cdiv_def sgn_if algebra_simps)
    have "k = - 1 \<or> k = 0 \<or> k = 1 \<or> k = 2 \<or> k = 3" using assms(1) False by linarith
    then show ?thesis unfolding c by (auto simp: cdiv_def)
  qed (use False in simp)
qed

text \<open>The number of the year and the rest of the algorithm, given the day counted as if every fourth year had a leap day.\<close>

lemma year_of_day:
  assumes "1 \<le> m" and "m \<le> 12" and "1 \<le> d" and "d \<le> month_days y m"
  defines "B \<equiv> 36525 * (march_year y m + 4716) div 100 + 306001 * (march_month m + 1) div 10000 + d"
  shows "(20 * B - 2442) div 7305 = march_year y m + 4716"
proof -
  define x where "x = march_year y m + 4716"
  define n where "n = 306001 * (march_month m + 1) div 10000 + d - 123"
  note day = march_day [OF assms(1-4), folded n_def]
  have B: "B = 365 * x + x div 4 + n + 123" unfolding B_def x_def [symmetric] year_quarter n_def by simp
  have x4: "4 * (x div 4) = x - x mod 4" "0 \<le> x mod 4" "x mod 4 \<le> 3" by presburger+
  have l: "n \<le> 364 \<or> n = 365 \<and> x mod 4 = 3"
  proof (cases "n = 365")
    case True
    then have "4 dvd march_year y m + 1" using day(3) by (simp add: leap_def)
    then show ?thesis using True unfolding x_def by presburger
  qed (use day(2) in simp)
  show ?thesis unfolding x_def [symmetric]
    by (rule int_div_pos_eq [where r = "20 * n + 18 - 5 * (x mod 4)"]) (use B x4 l day(1) in \<open>linarith, linarith, auto\<close>)
qed

lemma computeYMD_date:
  assumes "\<not> validYMD p" and "validJD p" and "valid_date y m d"
    and "86400000 * jdn y m d - 43200000 \<le> iJD p" and "iJD p < 86400000 * jdn y m d + 43200000"
  shows "computeYMD p = Some (if (y, m, d) = (300, 3, 1) then p\<lparr>dtY := 300, dtM := 2, dtD := 29, validYMD := True\<rparr>
    else p\<lparr>dtY := y, dtM := m, dtD := d, validYMD := True\<rparr>)"
proof -
  have v: "0 \<le> y" "y \<le> 9999" "1 \<le> m" "m \<le> 12" "1 \<le> d" "d \<le> month_days y m" using assms(3) by (simp_all add: valid_date_def)
  have "month_days y m \<le> 31" by (simp add: month_days_def)
  then have d31: "d \<le> 31" using v(6) by simp
  note jb = jdn_bounds [OF v(1-5) d31]
  define Z where "Z = jdn y m d"
  have "(iJD p + 43200000) div 86400000 = Z"
    by (rule int_div_pos_eq [where r = "iJD p + 43200000 - 86400000 * Z"]) (use assms(4,5) in \<open>simp_all add: Z_def\<close>)
  then have Z: "cdiv (iJD p + 43200000) 86400000 = Z" using assms(4) jb by (simp add: cdiv_nonneg)
  have Zmax: "Z \<le> 5373484"
    unfolding Z_def by (rule jdn_last [OF v(2-6)])
  have "INT_464269060799999 = 464269060799999" by code_simp
  then have valid: "validJulianDay (iJD p)" using Zmax jb assms(4,5) by (simp add: validJulianDay_def Z_def)
  define k where "k = march_year y m div 100"
  define w where "w = 4 * jdn y m d - 7468865 - 146097 * (k - 4)"
  note cent = century_of_day [OF v(3-6), folded k_def, folded w_def]
  have wz: "4 * Z - 7468865 = 146097 * (k - 4) + w" by (simp add: w_def Z_def)
  have my: "- 1 \<le> march_year y m" "march_year y m \<le> 9999" using v by (simp_all add: march_year_def)
  have "(- 1) div 100 \<le> k" unfolding k_def by (rule zdiv_mono1) (use my in simp_all)
  then have k: "- 1 \<le> k" by simp
  define A0 where "A0 = cdiv (4 * Z - 7468865) 146097"
  have a: "to_int 32 (ddiv (dsub (dint Z) (Fin (7468865 / 4))) (Fin (146097 / 4))) = Some A0"
    unfolding A0_def by (rule ymd_A) (use jb in \<open>simp_all add: Z_def\<close>)
  note step = computeYMD_def [of p, unfolded Let_def Z a, simplified assms(1,2) valid simp_thms if_False if_True]
  define B where "B = 36525 * (march_year y m + 4716) div 100 + 306001 * (march_month m + 1) div 10000 + d"
  have ZB: "Z + 1 + (k - k div 4 - 3) + 1524 = B"
  proof -
    have "march_year y m div 400 = k div 4" unfolding k_def using zdiv_zmult2_eq [of 4 "march_year y m" 100] by simp
    then show ?thesis unfolding Z_def B_def jdn_def k_def [symmetric] by simp
  qed
  show ?thesis
  proof (cases "(y, m, d) = (300, 3, 1)")
    case True
    then have z: "Z = 1830692" by (simp add: Z_def jdn_def march_year_def march_month_def)
    then have A0: "A0 = - 1" by (simp add: A0_def cdiv_def)
    have c: "Z + 1 + A0 - cdiv A0 4 + 1524 = 1832216" by (simp add: A0 z cdiv_def)
    have C: "to_int 32 (ddiv (dsub (dint 1832216) (dround (1221 / 10))) (Fin (1461 / 4))) = Some 5015" by (subst ymd_C) simp_all
    have D: "cdiv (36525 * (5015 AND 32767)) 100 = 1831728" by (simp add: cdiv_def)
    have E: "to_int 32 (ddiv (dint (1832216 - 1831728)) (dround (306001 / 10000))) = Some 15" by (subst ymd_E) simp_all
    have X: "to_int 32 (dmul (dround (306001 / 10000)) (dint 15)) = Some 459" by (subst ymd_X) simp_all
    show ?thesis unfolding step bind.simps c C D E X using True by simp
  next
    case False
    have "\<not> (w = 0 \<and> k < 4)"
    proof
      assume w0: "w = 0 \<and> k < 4"
      then have "march_year y m = 100 * k" "k mod 4 = 3" "m = 3" "d = 1" using cent(3) by blast+
      moreover from this have "k = 3 \<or> k = - 1" using w0 k by presburger
      ultimately show False using False v(1) by (auto simp: march_year_def)
    qed
    then have "A0 - cdiv A0 4 = k - k div 4 - 3"
      using century_correction [OF k cent(1,2)] unfolding A0_def wz by blast
    then have c: "Z + 1 + A0 - cdiv A0 4 + 1524 = B" using ZB by linarith
    have B: "200 \<le> B" "B < 6000000"
      using ZB jb k my by (simp_all add: Z_def k_def)
    have C: "to_int 32 (ddiv (dsub (dint B) (dround (1221 / 10))) (Fin (1461 / 4))) = Some (march_year y m + 4716)"
      using ymd_C [OF B] year_of_day [OF v(3-6)] by (simp add: B_def)
    have "(march_year y m + 4716) AND 32767 = march_year y m + 4716"
      using my take_bit_eq_mask [of 15 "march_year y m + 4716"] by (simp add: take_bit_int_eq_self mask_eq_exp_minus_1)
    then have D: "cdiv (36525 * ((march_year y m + 4716) AND 32767)) 100 = 36525 * (march_year y m + 4716) div 100"
      using my by (simp add: cdiv_nonneg)
    have BD: "B - 36525 * (march_year y m + 4716) div 100 = 306001 * (march_month m + 1) div 10000 + d" by (simp add: B_def)
    note day = march_day [OF v(3-6)]
    have E: "to_int 32 (ddiv (dint (306001 * (march_month m + 1) div 10000 + d)) (dround (306001 / 10000))) = Some (march_month m + 1)"
      using ymd_E [of "306001 * (march_month m + 1) div 10000 + d"] day(1,2,5) by simp
    have X: "to_int 32 (dmul (dround (306001 / 10000)) (dint (march_month m + 1))) = Some (306001 * (march_month m + 1) div 10000)"
      by (rule ymd_X) (use v(3,4) in \<open>simp_all add: march_month_def\<close>)
    show ?thesis unfolding step bind.simps c C D BD E X using v(3,4) False
      by (simp add: march_month_def march_year_def)
  qed
qed

end
