(* ===== verification/Date_Texts.thy ===== *)
theory Date_Texts
  imports Sql_Calendar
begin

text \<open>The date and time functions on texts: what they print for the dates of the years 0 to 9999, Julian day numbers as a count
  of days, and the modifier that adds days.\<close>

section \<open>Texts of dates and times\<close>

definition date_text :: "int \<Rightarrow> int \<Rightarrow> int \<Rightarrow> byte list" where
  "date_text y m d = [zdigit y 1000, zdigit y 100, zdigit y 10, zdigit y 1, 0x2D] @ put2 m @ [0x2D] @ put2 d"

definition time_text :: "int \<Rightarrow> int \<Rightarrow> int \<Rightarrow> byte list" where
  "time_text h mi s = put2 h @ [0x3A] @ put2 mi @ [0x3A] @ put2 s"

definition digit_ok :: "int \<Rightarrow> bool" where
  "digit_ok k \<longleftrightarrow> (let b = word_of_int (48 + k) :: byte in
     sqlite3Isdigit b \<and> sint b = 48 + k \<and> \<not> sqlite3Isspace b \<and> b \<noteq> 0 \<and> b \<noteq> 0x2D \<and> b \<noteq> 0x54)"

lemma digit_ok: "0 \<le> k \<Longrightarrow> k \<le> 9 \<Longrightarrow> digit_ok k"
proof -
  have "list_all digit_ok [0..9]" by code_simp
  then have "\<forall>k \<in> {0..9}. digit_ok k" unfolding list_all_iff set_upto .
  then show "0 \<le> k \<Longrightarrow> k \<le> 9 \<Longrightarrow> digit_ok k" by (simp only: Ball_def atLeastAtMost_iff)
qed

lemma cmod_pos: "0 \<le> a \<Longrightarrow> 0 < b \<Longrightarrow> cmod a b = a mod b"
  by (simp add: cmod_def cdiv_nonneg minus_div_mult_eq_mod)

lemma zdigit_mod: "0 \<le> v \<Longrightarrow> 0 < q \<Longrightarrow> zdigit v q = word_of_int (48 + v div q mod 10)"
  by (simp add: zdigit_def cdiv_nonneg cmod_pos pos_imp_zdiv_nonneg_iff)

lemma zdigit_digit:
  assumes "0 \<le> v" and "0 < q"
  shows "sqlite3Isdigit (zdigit v q)" and "sint (zdigit v q) = 48 + v div q mod 10" and "\<not> sqlite3Isspace (zdigit v q)"
    and "zdigit v q \<noteq> 0" and "zdigit v q \<noteq> 0x2D" and "zdigit v q \<noteq> 0x54"
proof -
  have "0 \<le> v div q mod 10" "v div q mod 10 \<le> 9" using pos_mod_bound [of 10 "v div q"] by simp_all
  note d = digit_ok [OF this, unfolded digit_ok_def Let_def]
  show "sqlite3Isdigit (zdigit v q)" "sint (zdigit v q) = 48 + v div q mod 10" "\<not> sqlite3Isspace (zdigit v q)"
    "zdigit v q \<noteq> 0" "zdigit v q \<noteq> 0x2D" "zdigit v q \<noteq> 0x54"
    using d by (simp_all only: zdigit_mod [OF assms] simp_thms)
qed

lemma digits_step: "0 \<le> v \<Longrightarrow> 0 < q \<Longrightarrow> digits_loop (Suc n) (zdigit v q # z) a = digits_loop n z (a * 10 + v div q mod 10)"
  by (simp add: zdigit_digit)

lemma digits_2: "0 \<le> v \<Longrightarrow> v < 100 \<Longrightarrow> digits_loop 2 (put2 v @ z) 0 = Some (v, z)"
proof -
  assume v: "0 \<le> v" "v < 100"
  have "v div 10 < 10" using v zdiv_mono1 [of v 99 10] by simp
  then have "v div 10 mod 10 = v div 10" using v by (simp add: pos_imp_zdiv_nonneg_iff)
  then have "(0 * 10 + v div 10 mod 10) * 10 + v div 1 mod 10 = v" by (simp only: mult_zero_left add_0 div_by_1 div_mult_mod_eq)
  moreover have two: "(2 :: nat) = Suc (Suc 0)" by simp
  ultimately show ?thesis using v(1)
    by (simp only: two put2_def append.simps digits_step digits_loop.simps(1) zero_less_numeral zero_less_one)
qed

lemma digits_4:
  assumes "0 \<le> v" and "v < 10000"
  shows "digits_loop 4 ([zdigit v 1000, zdigit v 100, zdigit v 10, zdigit v 1] @ z) 0 = Some (v, z)"
proof -
  have "((v div 1000 mod 10 * 10 + v div 100 mod 10) * 10 + v div 10 mod 10) * 10 + v mod 10 = v"
  proof -
    have e: "v div 100 = v div 10 div 10" "v div 1000 = v div 10 div 10 div 10"
      using zdiv_zmult2_eq [of 10 v 10] zdiv_zmult2_eq [of 10 v 100] by simp_all
    have "v div 1000 < 10" using assms zdiv_mono1 [of v 9999 1000] by simp
    then have "v div 10 div 10 div 10 mod 10 = v div 10 div 10 div 10" using assms e by (simp add: pos_imp_zdiv_nonneg_iff)
    then show ?thesis by (simp only: e div_mult_mod_eq)
  qed
  moreover have four: "(4 :: nat) = Suc (Suc (Suc (Suc 0)))" by simp
  moreover have "digits_loop (Suc (Suc (Suc (Suc 0)))) ([zdigit v 1000, zdigit v 100, zdigit v 10, zdigit v 1] @ z) 0 =
      Some ((((0 * 10 + v div 1000 mod 10) * 10 + v div 100 mod 10) * 10 + v div 10 mod 10) * 10 + v div 1 mod 10, z)"
    using assms(1) by (simp only: append.simps digits_step digits_loop.simps(1) zero_less_numeral zero_less_one)
  ultimately show ?thesis by (simp only: mult_zero_left add_0 div_by_1)
qed

lemma formats:
  "bytes_of ''20c:20e'' = [50, 48, 99, 58, 50, 48, 101]" "bytes_of ''20e'' = [50, 48, 101]"
  "bytes_of ''40f-21a-21d'' = [52, 48, 102, 45, 50, 49, 97, 45, 50, 49, 100]"
  by code_simp+

lemma format_chars:
  "sint (50 - 48 :: byte) = 2" "sint (52 - 48 :: byte) = 4" "sint (48 - 48 :: byte) = 0" "sint (49 - 48 :: byte) = 1"
  "aMx ! unat (99 - 97 :: byte) = 24" "aMx ! unat (101 - 97 :: byte) = 59" "aMx ! unat (102 - 97 :: byte) = 14712"
  "aMx ! unat (97 - 97 :: byte) = 12" "aMx ! unat (100 - 97 :: byte) = 31"
  by code_simp+

lemma length_put2 [simp]: "length (put2 v) = 2"
  by (simp add: put2_def)

lemma drop_put2 [simp]: "drop (Suc (Suc n)) (put2 v @ z) = drop n z"
  by (simp add: put2_def)

lemma getDigits_time:
  assumes "0 \<le> h" and "h \<le> 24" and "0 \<le> mi" and "mi \<le> 59"
  shows "getDigits (put2 h @ [0x3A] @ put2 mi @ z) (bytes_of ''20c:20e'') = [h, mi]"
  unfolding formats getDigits.simps Let_def format_chars using assms by (simp add: digits_2 aMx_def)

lemma getDigits_seconds: "0 \<le> s \<Longrightarrow> s \<le> 59 \<Longrightarrow> getDigits (put2 s @ z) (bytes_of ''20e'') = [s]"
  unfolding formats getDigits.simps Let_def format_chars by (simp add: digits_2 aMx_def)

lemma getDigits_date:
  assumes "0 \<le> y" and "y \<le> 9999" and "1 \<le> m" and "m \<le> 12" and "1 \<le> d" and "d \<le> 31"
  shows "getDigits (date_text y m d @ z) (bytes_of ''40f-21a-21d'') = [y, m, d]"
proof -
  have "getDigits ([zdigit y 1000, zdigit y 100, zdigit y 10, zdigit y 1] @ 0x2D # put2 m @ 0x2D # put2 d @ z) (bytes_of ''40f-21a-21d'') = [y, m, d]"
    unfolding formats getDigits.simps Let_def format_chars using assms by (simp add: digits_2 digits_4 aMx_def del: append.append_Cons)
  then show ?thesis by (simp add: date_text_def)
qed

section \<open>Reading dates\<close>

lemma space_chars: "sqlite3Isspace 0x20" "\<not> sqlite3Isdigit 0" "\<not> sqlite3Isdigit 0x20"
  by code_simp+

lemma parse_nothing: "parseHhMmSs [] p = (True, p)"
  by (simp add: parseHhMmSs_def formats getDigits.simps Let_def format_chars numeral_2_eq_2 space_chars)

lemma dint_32: "0 \<le> s \<Longrightarrow> s < 100 \<Longrightarrow> dint s = Fin (of_int s)"
  by (rule dint_small) simp

lemma parse_time_text:
  assumes "0 \<le> h" and "h \<le> 24" and "0 \<le> mi" and "mi \<le> 59" and "0 \<le> s" and "s \<le> 59"
  shows "parseHhMmSs (time_text h mi s) p = (False, p\<lparr>validJD := False, rawS := False, validHMS := True, dth := h, dtm := mi,
    dts := Fin (of_int s), dttz := 0, validTZ := False\<rparr>)"
proof -
  have g: "getDigits (time_text h mi s) (bytes_of ''20c:20e'') = [h, mi]"
    using getDigits_time [OF assms(1-4), of "[0x3A] @ put2 s"] by (simp add: time_text_def)
  have d: "drop 5 (time_text h mi s) = 0x3A # put2 s" by (simp add: time_text_def put2_def)
  have g2: "getDigits (put2 s) (bytes_of ''20e'') = [s]" using getDigits_seconds [OF assms(5,6), of "[]"] by simp
  have d2: "drop 2 (put2 s) = []" by (simp add: put2_def)
  have ps: "parse_seconds (0x3A # put2 s) = Some (s, Fin 0, [])" by (simp add: parse_seconds_def g2 d2)
  have "dadd (dint s) (Fin 0) = Fin (of_int s)" using dint_32 [of s] assms dround_frac [of s 0] by simp
  then show ?thesis by (simp add: parseHhMmSs_def g d ps parseTimezone_def Let_def)
qed

definition date_object :: "int \<Rightarrow> int \<Rightarrow> int \<Rightarrow> DateTime" where
  "date_object y m d = dt_zero\<lparr>dtY := y, dtM := m, dtD := d, validYMD := True\<rparr>"

lemma rd_date: "0 \<le> y \<Longrightarrow> rd (date_text y m d @ z) \<noteq> 0x2D"
  by (simp add: date_text_def zdigit_digit)

lemma drop_date: "drop 10 (date_text y m d @ z) = z"
  by (simp add: date_text_def put2_def)

lemma skip_to_time:
  assumes "0 \<le> h"
  shows "skip_space_T (0x20 # time_text h mi s) = time_text h mi s"
  using assms by (simp add: space_chars time_text_def put2_def zdigit_digit)

lemma parse_date_text:
  assumes "0 \<le> y" and "y \<le> 9999" and "1 \<le> m" and "m \<le> 12" and "1 \<le> d" and "d \<le> 31"
  shows "parseYyyyMmDd (date_text y m d) dt_zero = Some (False, date_object y m d)"
    and "0 \<le> h \<Longrightarrow> h \<le> 24 \<Longrightarrow> 0 \<le> mi \<Longrightarrow> mi \<le> 59 \<Longrightarrow> 0 \<le> s \<Longrightarrow> s \<le> 59 \<Longrightarrow>
      parseYyyyMmDd (date_text y m d @ 0x20 # time_text h mi s) dt_zero =
        Some (False, (date_object y m d)\<lparr>validHMS := True, dth := h, dtm := mi, dts := Fin (of_int s)\<rparr>)"
proof -
  have g: "getDigits (date_text y m d @ z) (bytes_of ''40f-21a-21d'') = [y, m, d]" for z by (rule getDigits_date [OF assms])
  note r = rd_date [OF assms(1), of m d]
  show "parseYyyyMmDd (date_text y m d) dt_zero = Some (False, date_object y m d)"
    using g [of "[]"] r [of "[]"] drop_date [of y m d "[]"]
    by (simp add: parseYyyyMmDd_def Let_def parse_nothing date_object_def dt_zero_def)
  show "parseYyyyMmDd (date_text y m d @ 0x20 # time_text h mi s) dt_zero =
        Some (False, (date_object y m d)\<lparr>validHMS := True, dth := h, dtm := mi, dts := Fin (of_int s)\<rparr>)"
    if t: "0 \<le> h" "h \<le> 24" "0 \<le> mi" "mi \<le> 59" "0 \<le> s" "s \<le> 59"
    unfolding parseYyyyMmDd_def Let_def using g r drop_date [of y m d] skip_to_time [OF t(1)] parse_time_text [OF t]
    by (simp add: date_object_def dt_zero_def)
qed

section \<open>Normal dates\<close>

text \<open>A day behind the end of its month is a day of the next month.\<close>

definition normal_date :: "int \<Rightarrow> int \<Rightarrow> int \<Rightarrow> int \<times> int \<times> int" where
  "normal_date y m d = (if d \<le> month_days y m then (y, m, d) else (y, m + 1, d - month_days y m))"

lemma jdn_add: "jdn y m (d + e) = jdn y m d + e"
  by (simp add: jdn_def)

lemma normal_date_ok:
  assumes "0 \<le> y" and "y \<le> 9999" and "1 \<le> m" and "m \<le> 12" and "1 \<le> d" and "d \<le> 31" and "normal_date y m d = (y1, m1, d1)"
  shows "valid_date y1 m1 d1" and "jdn y1 m1 d1 = jdn y m d" and "d \<noteq> 1 \<Longrightarrow> (y, m, d) \<noteq> (300, 2, 29) \<Longrightarrow> (y1, m1, d1) \<noteq> (300, 3, 1)"
proof -
  have "valid_date y1 m1 d1 \<and> jdn y1 m1 d1 = jdn y m d \<and> (d \<noteq> 1 \<longrightarrow> (y, m, d) \<noteq> (300, 2, 29) \<longrightarrow> (y1, m1, d1) \<noteq> (300, 3, 1))"
  proof (cases "d \<le> month_days y m")
    case True
    then show ?thesis using assms by (auto simp: normal_date_def valid_date_def)
  next
    case False
    then have e: "y1 = y" "m1 = m + 1" "d1 = d - month_days y m" using assms(7) by (auto simp: normal_date_def)
    have m: "m \<in> {2, 4, 6, 9, 11}" using False assms(6) by (auto simp: month_days_def split: if_splits)
    have n: "next_day (y, m, month_days y m) = (y, m + 1, 1)" using m by (auto simp: next_day_def)
    have "1 \<le> month_days y m" by (simp add: month_days_def)
    then have "jdn y (m + 1) 1 = jdn y m (month_days y m) + 1" using jdn_next_day [OF assms(3,4) n] by simp
    then have j: "jdn y (m + 1) (1 + (d - month_days y m - 1)) = jdn y m (month_days y m + (d - month_days y m))" by (simp only: jdn_add)
    have "28 \<le> month_days y m" "month_days y (m + 1) = 31 \<or> m = 6 \<and> month_days y (m + 1) = 31" using m by (auto simp: month_days_def)
    moreover have "\<not> leap 300" by (simp add: leap_def)
    ultimately show ?thesis using e j False assms m by (auto simp: valid_date_def month_days_def split: if_splits)
  qed
  then show "valid_date y1 m1 d1" "jdn y1 m1 d1 = jdn y m d" "d \<noteq> 1 \<Longrightarrow> (y, m, d) \<noteq> (300, 2, 29) \<Longrightarrow> (y1, m1, d1) \<noteq> (300, 3, 1)"
    by blast+
qed

section \<open>The functions on texts\<close>

definition day_start :: "int \<Rightarrow> int \<Rightarrow> int \<Rightarrow> int" where
  "day_start y m d = 86400000 * jdn y m d - 43200000"

lemma seconds_ms:
  assumes "0 \<le> s" and "s < 100"
  shows "to_int 64 (dadd (dmul (Fin (of_int s)) (Fin 1000)) (Fin (1 / 2))) = Some (s * 1000)"
proof -
  have "dmul (Fin (of_int s)) (Fin 1000) = dround (of_int (s * 1000) / 2 ^ 0)" by simp
  also have "\<dots> = Fin (of_int (s * 1000))" using dround_frac [of "s * 1000" 0] assms by simp
  finally have "dadd (dmul (Fin (of_int s)) (Fin 1000)) (Fin (1 / 2)) = dround (of_int (2000 * s + 1) / 2 ^ 1)" by (simp add: add_divide_distrib mult.commute)
  also have "\<dots> = Fin (of_int (2000 * s + 1) / 2 ^ 1)" by (rule dround_frac) (use assms in simp_all)
  finally have e: "dadd (dmul (Fin (of_int s)) (Fin 1000)) (Fin (1 / 2)) = Fin (of_int (2000 * s + 1) / 2 ^ 1)" .
  have "\<lfloor>of_int (2000 * s + 1) / 2 ^ 1 :: rat\<rfloor> = s * 1000" by (rule floor_unique) simp_all
  then have "rtrunc (of_int (2000 * s + 1) / 2 ^ 1) = s * 1000" using assms by (simp add: rtrunc_def)
  then show ?thesis unfolding e by (rule to_int_fin) (use assms in simp_all)
qed

lemma computeJD_object:
  assumes "0 \<le> y" and "y \<le> 9999" and "1 \<le> m" and "m \<le> 12" and "1 \<le> d" and "d \<le> 31"
  shows "computeJD (date_object y m d) = Some ((date_object y m d)\<lparr>iJD := day_start y m d, validJD := True\<rparr>)"
    and "0 \<le> s \<Longrightarrow> s < 100 \<Longrightarrow> computeJD ((date_object y m d)\<lparr>validHMS := True, dth := h, dtm := mi, dts := Fin (of_int s)\<rparr>) =
      Some ((date_object y m d)\<lparr>validHMS := True, dth := h, dtm := mi, dts := Fin (of_int s), validJD := True,
        iJD := day_start y m d + (h * 3600000 + mi * 60000 + s * 1000)\<rparr>)"
proof -
  show "computeJD (date_object y m d) = Some ((date_object y m d)\<lparr>iJD := day_start y m d, validJD := True\<rparr>)"
    by (subst computeJD_date(1)) (use assms in \<open>simp_all add: date_object_def dt_zero_def day_start_def\<close>)
  show "computeJD ((date_object y m d)\<lparr>validHMS := True, dth := h, dtm := mi, dts := Fin (of_int s)\<rparr>) =
      Some ((date_object y m d)\<lparr>validHMS := True, dth := h, dtm := mi, dts := Fin (of_int s), validJD := True,
        iJD := day_start y m d + (h * 3600000 + mi * 60000 + s * 1000)\<rparr>)" if "0 \<le> s" "s < 100"
    by (subst computeJD_date(2) [where ms = "s * 1000"]) (use assms seconds_ms [OF that] in \<open>simp_all add: date_object_def dt_zero_def day_start_def\<close>)
qed

lemma valid_jd: "0 \<le> j \<Longrightarrow> j < 464269060800000 \<Longrightarrow> validJulianDay j"
proof -
  have "INT_464269060799999 = 464269060799999" by code_simp
  then show "0 \<le> j \<Longrightarrow> j < 464269060800000 \<Longrightarrow> validJulianDay j" by (simp add: validJulianDay_def)
qed

text \<open>A date and a time of at most a day, both as texts.\<close>

lemma isDate_text:
  assumes "0 \<le> y" and "y \<le> 9999" and "1 \<le> m" and "m \<le> 12" and "1 \<le> d" and "d \<le> 31"
    and "0 \<le> h" and "h \<le> 24" and "0 \<le> mi" and "mi \<le> 59" and "0 \<le> s" and "s \<le> 59"
    and "day_start y m d + (h * 3600000 + mi * 60000 + s * 1000) < 464269060800000"
  shows "isDate E [DV None (Some (date_text y m d @ 0x20 # time_text h mi s))] =
    Some (False, False, (date_object y m d)\<lparr>validHMS := True, dth := h, dtm := mi, dts := Fin (of_int s), validJD := True,
      iJD := day_start y m d + (h * 3600000 + mi * 60000 + s * 1000), validYMD := (d \<le> 28)\<rparr>)"
proof -
  let ?p = "(date_object y m d)\<lparr>validHMS := True, dth := h, dtm := mi, dts := Fin (of_int s)\<rparr>"
  have p: "parseDateOrTime E (date_text y m d @ 0x20 # time_text h mi s) dt_zero = Some (False, ?p)"
    using parse_date_text(2) [OF assms(1-12)] by (simp add: parseDateOrTime_def)
  have "0 \<le> day_start y m d + (h * 3600000 + mi * 60000 + s * 1000)"
    using jdn_bounds(1) [OF assms(1-6)] assms(7,9,11) by (simp add: day_start_def)
  note v = valid_jd [OF this assms(13)]
  show ?thesis using p v computeJD_object(2) [OF assms(1-6), where s = s and h = h and mi = mi] assms(11,12)
    by (simp add: isDate_def date_object_def dt_zero_def)
qed

lemma put_date_text: "0 \<le> dtY x \<Longrightarrow> put_date x = date_text (dtY x) (dtM x) (dtD x)"
  by (simp add: put_date_def date_text_def Let_def)

lemma put_time_text:
  assumes "\<not> useSubsec x" and "dts x = Fin (of_int s)" and "0 \<le> s" and "s < 100"
  shows "put_time x = Some (time_text (dth x) (dtm x) s)"
  using assms to_int_fin [OF rtrunc_int, of 32 s] by (simp add: put_time_def time_text_def)

text \<open>The object of a text, with the date of its day number if the day is not one of the first 28 of a month.\<close>

lemma object_date:
  assumes "0 \<le> y" and "y \<le> 9999" and "1 \<le> m" and "m \<le> 12" and "29 \<le> d" and "d \<le> 31"
    and "\<not> validYMD p" and "validJD p" and "day_start y m d \<le> iJD p" and "iJD p < day_start y m d + 86400000"
    and "normal_date y m d = (y1, m1, d1)" and "(y, m, d) \<noteq> (300, 2, 29)"
  shows "computeYMD p = Some (p\<lparr>dtY := y1, dtM := m1, dtD := d1, validYMD := True\<rparr>)"
proof -
  have "1 \<le> d" using assms(5) by simp
  note n = normal_date_ok [OF assms(1-4) this assms(6,11)]
  show ?thesis using computeYMD_date [OF assms(7,8) n(1)] n(2) n(3) [OF _ assms(12)] assms(5,9,10)
    by (simp add: day_start_def)
qed

lemma with_date_ok: "isDate E args = Some (False, False, x) \<Longrightarrow> with_date E args f = f x"
  by (simp add: with_date_def)

lemma functions_of_object:
  assumes "isDate E args = Some (False, False, x)" and "computeYMD x = Some x1" and "validHMS x" and "validHMS x1"
    and "0 \<le> dtY x1" and "\<not> useSubsec x" and "\<not> useSubsec x1" and "dts x = Fin (of_int s)" and "dts x1 = Fin (of_int s)"
    and "0 \<le> s" and "s < 100"
  shows "dateFunc E args = Some (DText (date_text (dtY x1) (dtM x1) (dtD x1)))"
    and "timeFunc E args = Some (DText (time_text (dth x) (dtm x) s))"
    and "datetimeFunc E args = Some (DText (date_text (dtY x1) (dtM x1) (dtD x1) @ 0x20 # time_text (dth x1) (dtm x1) s))"
  using assms put_date_text [OF assms(5)] put_time_text [OF assms(6,8,10,11)] put_time_text [OF assms(7,9,10,11)]
  by (simp_all add: dateFunc_def timeFunc_def datetimeFunc_def with_date_ok computeYMD_HMS_def computeHMS_def)


definition demo_env :: date_env where
  "demo_env = \<lparr>sqlite3AtoF = (\<lambda>z. if z = bytes_of ''+30'' then (1, Fin 30) else (0, Fin 0)), sqlite3StmtCurrentTime = 0,
     sqlite3NotPureFunc = False, osLocaltime = (\<lambda>t. None)\<rparr>"


text \<open>The hour 24 is accepted.  On the first 28 days of a month it is printed as it was read; on the later days the date is
  computed from the day number, which counts the 24 hours already, and the hour is printed again: a day too late.\<close>

theorem datetime_hour_24:
  assumes "valid_date y m d" and "28 < d" and "(y, m, d) \<noteq> (9999, 12, 31)" and "0 \<le> mi" and "mi \<le> 59" and "0 \<le> s" and "s \<le> 59"
  shows "case next_day (y, m, d) of (y1, m1, d1) \<Rightarrow>
    datetimeFunc E [DV None (Some (date_text y m d @ 0x20 # time_text 24 mi s))] = Some (DText (date_text y1 m1 d1 @ 0x20 # time_text 24 mi s))"
proof -
  have v: "0 \<le> y" "y \<le> 9999" "1 \<le> m" "m \<le> 12" "1 \<le> d" "d \<le> month_days y m" using assms(1) by (simp_all add: valid_date_def)
  have d31: "d \<le> 31" using v(6) by (simp add: month_days_def split: if_splits)
  obtain y1 m1 d1 where n: "next_day (y, m, d) = (y1, m1, d1)" by (metis prod_cases3)
  have j: "jdn y1 m1 d1 = jdn y m d + 1" by (rule jdn_next_day [OF v(3,4) n v(5,6)])
  have v1: "valid_date y1 m1 d1"
  proof (cases "d < month_days y m")
    case False
    have "1 \<le> month_days y' m'" for y' m' by (simp add: month_days_def)
    moreover have "y < 9999 \<or> m < 12"
    proof (rule ccontr)
      assume "\<not> ?thesis"
      then have "m = 12" "y = 9999" using v by simp_all
      then show False using False v(6) assms(3) by (simp add: month_days_def)
    qed
    ultimately show ?thesis using n False v by (auto simp: next_day_def valid_date_def split: if_splits)
  qed (use n v in \<open>auto simp: next_day_def valid_date_def\<close>)
  then have w: "0 \<le> y1" "y1 \<le> 9999" "1 \<le> m1" "m1 \<le> 12" "1 \<le> d1" "d1 \<le> month_days y1 m1" by (simp_all add: valid_date_def)
  have "jdn y1 m1 d1 \<le> 5373484" by (rule jdn_last [OF w(2-6)])
  then have b: "day_start y m d + (24 * 3600000 + mi * 60000 + s * 1000) < 464269060800000" using j assms(5,7) by (simp add: day_start_def)
  have ne: "(y1, m1, d1) \<noteq> (300, 3, 1)"
  proof
    assume "(y1, m1, d1) = (300, 3, 1)"
    then have "y = 300 \<and> m = 2" using n v by (auto simp: next_day_def split: if_splits)
    moreover have "\<not> leap 300" by (simp add: leap_def)
    ultimately show False using v(6) assms(2) by (simp add: month_days_def)
  qed
  note isd = isDate_text [OF v(1-5) d31 _ _ assms(4-7) b, of E, simplified]
  let ?x = "(date_object y m d)\<lparr>validHMS := True, dth := 24, dtm := mi, dts := Fin (of_int s), validJD := True,
      iJD := day_start y m d + (86400000 + mi * 60000 + s * 1000), validYMD := (d \<le> 28)\<rparr>"
  have "computeYMD ?x = Some (?x\<lparr>dtY := y1, dtM := m1, dtD := d1, validYMD := True\<rparr>)"
    by (subst computeYMD_date [OF _ _ v1]) (use assms(2,4-7) j ne in \<open>simp_all add: day_start_def\<close>)
  from functions_of_object(3) [OF isd this, of s] show ?thesis using w(1) assms(6,7) unfolding n
    by (simp add: date_object_def dt_zero_def)
qed

section \<open>Julian day numbers\<close>

lemma isDate_date:
  assumes "0 \<le> y" and "y \<le> 9999" and "1 \<le> m" and "m \<le> 12" and "1 \<le> d" and "d \<le> 31" and "day_start y m d < 464269060800000"
  shows "parseDateOrTime E (date_text y m d) dt_zero = Some (False, date_object y m d)"
    and "isDate E [DV None (Some (date_text y m d))] =
      Some (False, False, (date_object y m d)\<lparr>iJD := day_start y m d, validJD := True, validYMD := (d \<le> 28)\<rparr>)"
proof -
  show p: "parseDateOrTime E (date_text y m d) dt_zero = Some (False, date_object y m d)"
    using parse_date_text(1) [OF assms(1-6)] by (simp add: parseDateOrTime_def)
  have "0 \<le> day_start y m d" using jdn_bounds(1) [OF assms(1-6)] by (simp add: day_start_def)
  note v = valid_jd [OF this assms(7)]
  show "isDate E [DV None (Some (date_text y m d))] =
      Some (False, False, (date_object y m d)\<lparr>iJD := day_start y m d, validJD := True, validYMD := (d \<le> 28)\<rparr>)"
    using p v computeJD_object(1) [OF assms(1-6)] by (simp add: isDate_def date_object_def dt_zero_def)
qed

lemma valid_day_start:
  assumes "valid_date y m d"
  shows "day_start y m d < 464269060800000" and "d \<le> 31" and "0 \<le> day_start y m d" and "1700000 < jdn y m d" and "jdn y m d \<le> 5373484"
proof -
  have v: "0 \<le> y" "y \<le> 9999" "1 \<le> m" "m \<le> 12" "1 \<le> d" "d \<le> month_days y m" using assms by (simp_all add: valid_date_def)
  show d: "d \<le> 31" using v(6) by (simp add: month_days_def split: if_splits)
  show "jdn y m d \<le> 5373484" by (rule jdn_last [OF v(2-6)])
  then show "day_start y m d < 464269060800000" by (simp add: day_start_def)
  show j: "1700000 < jdn y m d" by (rule jdn_bounds(1) [OF v(1-5) d])
  then show "0 \<le> day_start y m d" by (simp add: day_start_def)
qed

lemma julianday_text:
  assumes "valid_date y m d"
  shows "juliandayFunc E [DV None (Some (date_text y m d))] = Some (DReal (Fin (of_int (jdn y m d) - 1 / 2)))"
proof -
  have v: "0 \<le> y" "y \<le> 9999" "1 \<le> m" "m \<le> 12" "1 \<le> d" using assms by (simp_all add: valid_date_def)
  note b = valid_day_start [OF assms]
  have "dint (day_start y m d) = Fin (of_int (day_start y m d))" by (rule dint_small) (use b in simp)
  then have "ddiv (dint (day_start y m d)) (Fin 86400000) = dround (of_int (2 * jdn y m d - 1) / 2 ^ 1)"
    by (simp add: day_start_def diff_divide_distrib)
  also have "\<dots> = Fin (of_int (2 * jdn y m d - 1) / 2 ^ 1)" by (rule dround_frac) (use b in simp_all)
  finally have "ddiv (dint (day_start y m d)) (Fin 86400000) = Fin (of_int (jdn y m d) - 1 / 2)" by (simp add: diff_divide_distrib)
  then show ?thesis
    by (simp add: juliandayFunc_def with_date_ok [OF isDate_date(2) [OF v b(2,1)]] computeJD_def)
qed

lemma iterated_day:
  "(next_day ^^ n) (y, m, d) = (y1, m1, d1) \<Longrightarrow> 0 \<le> y \<Longrightarrow> 1 \<le> m \<Longrightarrow> m \<le> 12 \<Longrightarrow> 1 \<le> d \<Longrightarrow> d \<le> month_days y m \<Longrightarrow>
   y \<le> y1 \<and> 1 \<le> m1 \<and> m1 \<le> 12 \<and> 1 \<le> d1 \<and> d1 \<le> month_days y1 m1 \<and> jdn y1 m1 d1 = jdn y m d + int n"
proof (induction n arbitrary: y1 m1 d1)
  case (Suc n)
  obtain y2 m2 d2 where 2: "(next_day ^^ n) (y, m, d) = (y2, m2, d2)" by (metis prod_cases3)
  note ih = Suc.IH [OF 2 Suc.prems(2-6)]
  have n: "next_day (y2, m2, d2) = (y1, m1, d1)" using Suc.prems(1) 2 by simp
  have "1 \<le> month_days a b" for a b by (simp add: month_days_def)
  then have "y \<le> y1 \<and> 1 \<le> m1 \<and> m1 \<le> 12 \<and> 1 \<le> d1 \<and> d1 \<le> month_days y1 m1" using ih n by (auto simp: next_day_def split: if_splits)
  then show ?case using jdn_next_day [OF _ _ n] ih by simp
qed simp

text \<open>C19: \<open>julianday()\<close> counts the days of the Gregorian calendar: the date that is \<open>n\<close> days after 0000-01-01, by the lengths of
  the months and the rule of the leap years, has the number \<open>n\<close> + 1721059.5, exactly, for every date up to the year 9999.\<close>

theorem julianday_counts_days:
  assumes "(next_day ^^ n) (0, 1, 1) = (y, m, d)" and "y \<le> 9999"
  shows "juliandayFunc E [DV None (Some (date_text y m d))] = Some (DReal (Fin (of_nat n + 17210595 / 10)))"
proof -
  have "1 \<le> month_days 0 1" by (simp add: month_days_def)
  then have i: "0 \<le> y" "1 \<le> m" "m \<le> 12" "1 \<le> d" "d \<le> month_days y m" "jdn y m d = jdn 0 1 1 + int n"
    using iterated_day [OF assms(1)] by simp_all
  have "jdn 0 1 1 = 1721060" by (simp add: jdn_def march_year_def march_month_def)
  then show ?thesis using julianday_text [of y m d E] i assms(2) by (simp add: valid_date_def)
qed

theorem julianday_counts_days_witness:
  "juliandayFunc demo_env [DV None (Some (date_text 0 3 1))] = Some (DReal (Fin (60 + 17210595 / 10)))"
proof -
  have "(next_day ^^ 60) (0, 1, 1) = (0, 3, 1)" by code_simp
  from julianday_counts_days [OF this] show ?thesis by simp
qed

text \<open>C20: \<open>date(julianday(D))\<close> is \<open>D\<close> for every date of the years 0 to 9999, through the doubles in between, except for
  0300-03-01: its quotient by the length of a century is a negative integer, for which the truncating division of \<open>A/4\<close> in
  \<open>computeYMD\<close> differs from the division by the algorithm, and the result is 0300-02-29, which is not a date.\<close>

theorem date_of_julianday:
  assumes "valid_date y m d"
  shows "\<exists>r. juliandayFunc E [DV None (Some (date_text y m d))] = Some (DReal r) \<and>
    dateFunc E [DV (Some r) t] = Some (DText (if (y, m, d) = (300, 3, 1) then date_text 300 2 29 else date_text y m d))"
proof (intro exI conjI)
  let ?r = "Fin (of_int (jdn y m d) - 1 / 2)"
  show "juliandayFunc E [DV None (Some (date_text y m d))] = Some (DReal ?r)" by (rule julianday_text [OF assms])
  note b = valid_day_start [OF assms]
  have j: "(1700000 :: rat) < of_int (jdn y m d)" "of_int (jdn y m d) \<le> (5373484 :: rat)" using b(4,5) by simp_all
  have "dmul ?r (Fin 86400000) = dround (of_int (day_start y m d) / 2 ^ 0)" by (simp add: day_start_def algebra_simps)
  also have "\<dots> = Fin (of_int (day_start y m d))" using dround_frac [of "day_start y m d" 0] b by simp
  finally have "dadd (dmul ?r (Fin 86400000)) (Fin (1 / 2)) = dround (of_int (2 * day_start y m d + 1) / 2 ^ 1)"
    by (simp add: add_divide_distrib)
  also have "\<dots> = Fin (of_int (2 * day_start y m d + 1) / 2 ^ 1)" by (rule dround_frac) (use b in simp_all)
  finally have e: "dadd (dmul ?r (Fin 86400000)) (Fin (1 / 2)) = Fin (of_int (2 * day_start y m d + 1) / 2 ^ 1)" .
  have "\<lfloor>of_int (2 * day_start y m d + 1) / 2 ^ 1 :: rat\<rfloor> = day_start y m d" by (rule floor_unique) simp_all
  then have "rtrunc (of_int (2 * day_start y m d + 1) / 2 ^ 1) = day_start y m d" using b(3) by (simp add: rtrunc_def)
  then have i: "to_int 64 (dadd (dmul ?r (Fin 86400000)) (Fin (1 / 2))) = Some (day_start y m d)"
    unfolding e by (rule to_int_fin) (use b in simp_all)
  let ?x = "dt_zero\<lparr>dts := ?r, rawS := True, iJD := day_start y m d, validJD := True\<rparr>"
  have "setRawDateNumber dt_zero ?r = Some ?x" using j i by (simp add: setRawDateNumber_def Let_def)
  then have isd: "isDate E [DV (Some ?r) t] = Some (False, False, ?x)"
    using valid_jd [OF b(3,1)] by (simp add: isDate_def computeJD_def dt_zero_def)
  define y1 m1 d1 where "y1 = (if (y, m, d) = (300, 3, 1) then 300 else y)" and "m1 = (if (y, m, d) = (300, 3, 1) then 2 else m)"
    and "d1 = (if (y, m, d) = (300, 3, 1) then 29 else d)"
  have "computeYMD ?x = Some (if (y, m, d) = (300, 3, 1) then ?x\<lparr>dtY := 300, dtM := 2, dtD := 29, validYMD := True\<rparr>
    else ?x\<lparr>dtY := y, dtM := m, dtD := d, validYMD := True\<rparr>)"
    by (rule computeYMD_date [OF _ _ assms]) (simp_all add: dt_zero_def day_start_def)
  also have "\<dots> = Some (?x\<lparr>dtY := y1, dtM := m1, dtD := d1, validYMD := True\<rparr>)" by (simp add: y1_def m1_def d1_def)
  finally have c: "computeYMD ?x = Some (?x\<lparr>dtY := y1, dtM := m1, dtD := d1, validYMD := True\<rparr>)" .
  have "0 \<le> y1" using assms by (simp add: y1_def valid_date_def)
  then have "put_date (?x\<lparr>dtY := y1, dtM := m1, dtD := d1, validYMD := True\<rparr>) = date_text y1 m1 d1" by (simp add: put_date_text)
  then have "dateFunc E [DV (Some ?r) t] = Some (DText (date_text y1 m1 d1))" using c by (simp add: dateFunc_def with_date_ok [OF isd])
  then show "dateFunc E [DV (Some ?r) t] = Some (DText (if (y, m, d) = (300, 3, 1) then date_text 300 2 29 else date_text y m d))"
    by (simp add: y1_def m1_def d1_def split: if_splits)
qed

theorem date_of_julianday_witness:
  "\<exists>r. juliandayFunc demo_env [DV None (Some (date_text 300 3 1))] = Some (DReal r) \<and>
    dateFunc demo_env [DV (Some r) None] = Some (DText (bytes_of ''0300-02-29''))"
proof -
  have "bytes_of ''0300-02-29'' = date_text 300 2 29" by code_simp
  then show ?thesis using date_of_julianday [of 300 3 1 demo_env None] by (simp add: valid_date_def month_days_def)
qed

section \<open>Adding days\<close>

lemma digit_range:
  assumes "0x30 \<le> b" and "b \<le> (0x39 :: byte)"
  shows "\<not> sqlite3Isspace b" and "b \<noteq> 0x2D" and "b \<noteq> 0x3A"
proof -
  have u: "48 \<le> uint b" "uint b \<le> 57" using assms by (simp_all add: word_le_def)
  have "digit_ok (uint b - 48)" by (rule digit_ok) (use u in simp_all)
  then show "\<not> sqlite3Isspace b" "b \<noteq> 0x2D" unfolding digit_ok_def Let_def by simp_all
  show "b \<noteq> 0x3A" using u by auto
qed

lemma scan_digits:
  assumes "\<forall>b \<in> set ds. 0x30 \<le> b \<and> b \<le> (0x39 :: byte)"
  shows "scan_number z (ds @ 0x20 # r) k = k + length ds"
  using assms
proof (induction ds arbitrary: k)
  case (Cons b ds)
  then show ?case using digit_range [of b] by simp
qed (simp add: space_chars)

lemma unit_days:
  "skip_isspace (bytes_of '' days'') = bytes_of ''days''" "length (bytes_of ''days'') = 4"
  "sqlite3UpperToLower ! unat (bytes_of ''days'' ! 3) = 0x73"
  "strnicmp0 (bytes_of ''days'') ''day''" "sqlite3UpperToLower ! unat (0x2B :: byte) = 0x2B"
  by code_simp+

lemma days_ms:
  assumes "n < 5373485"
  shows "to_int 64 (dadd (dmul (dmul (Fin (of_nat n)) (Fin 1000)) (Fin 86400)) (Fin (1 / 2))) = Some (int n * 86400000)"
proof -
  have e: "dmul (dmul (Fin (of_nat n)) (Fin 1000)) (Fin 86400) = Fin (of_int (int n * 86400000))"
    using dround_frac [of "int n * 1000" 0] dround_frac [of "int n * 86400000" 0] assms by (simp add: mult.commute)
  have "dadd (Fin (of_int (int n * 86400000))) (Fin (1 / 2)) = dround (of_int (2 * (int n * 86400000) + 1) / 2 ^ 1)"
    by (simp add: add_divide_distrib mult.commute)
  also have "\<dots> = Fin (of_int (2 * (int n * 86400000) + 1) / 2 ^ 1)" by (rule dround_frac) (use assms in simp_all)
  finally have f: "dadd (Fin (of_int (int n * 86400000))) (Fin (1 / 2)) = Fin (of_int (2 * (int n * 86400000) + 1) / 2 ^ 1)" .
  have "\<lfloor>of_int (2 * (int n * 86400000) + 1) / 2 ^ 1 :: rat\<rfloor> = int n * 86400000" by (rule floor_unique) simp_all
  then have "rtrunc (of_int (2 * (int n * 86400000) + 1) / 2 ^ 1) = int n * 86400000" by (simp add: rtrunc_def)
  then show ?thesis unfolding e f by (rule to_int_fin) (use assms in simp_all)
qed



end
