(* ===== verification/Spec2Isabelle.thy ===== *)
theory Spec2Isabelle
  imports Application_Run Base64 Base85 Keccak Sha3 Uint_Collation Decimal Generate_Series Regexp_Compile Shell_Csv Shell_Quote Shell_Escape Row_Set Varint Utf8 Like_Glob Date_Texts
begin

text \<open>
  Verification of the airline reservation system (\<open>src/AirlineReservationSystem/Source\<close>).

  \<^bold>\<open>The program.\<close>  A desktop program that keeps flights and the bookings of their seats in an SQLite
  database.  A seat map (\<open>Core/SeatMap.cpp\<close>) holds four grids; a flight (\<open>Core/Flight.cpp\<close>) has a seat
  map and a number; the persistence manager (\<open>Core/PersistenceManager.cpp\<close>) writes the bookings of a
  flight to the table \<open>Booking<id>\<close> and reads them back; the windows of \<open>Application.cpp\<close> are run once
  per frame by the loop of \<open>Gui/GuiApp.cpp\<close> and change the active flight and the database together;
  the flight search asks a web service (\<open>Core/AmadeusInterface.cpp\<close>).  The repository also carries
  SQLiteCpp and the sources of SQLite, of which the command line shell \<open>Ext/sqlite/shell.c\<close> with its
  loadable extensions and self-contained modules of the engine are modelled too.

  \<^bold>\<open>The reservation system.\<close>
  \<^item> \<open>Prelude\<close>: exceptions and undefined behaviour as values (\<open>fault\<close>), \<open>std::vector\<close> accesses,
    grids, decimal numerals.
  \<^item> \<open>Seat_Map\<close>: \<open>SeatMap.cpp\<close>.  The record \<open>seat_map\<close> has the members of the class; \<open>occupant\<close> is the
    map from seats to bookings it stands for.  The locale \<open>seat_store\<close> is the contract of booking and
    cancelling; \<open>sm\<close> interprets it on the grids.  The JSON library is the parameter \<open>json_lib\<close>.
  \<^item> \<open>Flight_Model\<close>: \<open>Flight.cpp\<close>; \<open>fl\<close> interprets \<open>seat_store\<close> on flights; seat codes on 16-bit words.
  \<^item> \<open>Sql_Access\<close>: the parts of SQLiteCpp the program calls.  The engine is the parameter \<open>sqlite\<close>; the
    locale \<open>sql_transactions\<close> states what SQLite documents about transactions.
  \<^item> \<open>Persistence\<close>: \<open>PersistenceManager.cpp\<close> with the SQL texts of the source and
    \<open>SeatMap::LoadFromFlightInformation\<close>.  The locale \<open>sql_tables\<close> says what each of these texts does;
    \<open>memt\<close> interprets it on \<open>mem_sql\<close>, an executable store that recognises the texts.
  \<^item> \<open>Flight_Catalog\<close>: the list of flights and the agreement of a flight with its table; \<open>sql_catalog\<close>
    extends \<open>sql_tables\<close>, \<open>memc\<close> interprets it.
  \<^item> \<open>Amadeus\<close>: the client of the web service, the calendar popups, the search button and the packed
    date of \<open>Util/Util.cpp\<close>.  libcurl and the JSON library are the parameter \<open>web\<close>.
  \<^item> \<open>Application\<close>: the globals of \<open>Application.cpp\<close> as the record \<open>app\<close>, one definition per window,
    \<open>GUIMain\<close>, the main loop \<open>Run\<close> and \<open>main_program\<close>.  What the user does in a frame is the record
    \<open>frame_input\<close>.
  \<^item> \<open>Application_Run\<close>: the invariant of a run and its preservation by every window and frame.

  \<^bold>\<open>The extensions of the shell\<close> (all in \<open>Ext/sqlite/shell.c\<close>).
  \<^item> \<open>Keccak\<close>, \<open>Sha3\<close>: \<open>KeccakF1600Step\<close>, \<open>SHA3Init\<close>, \<open>SHA3Update\<close>, \<open>SHA3Final\<close>, \<open>sha3Func\<close>,
    \<open>sha3QueryFunc\<close>, proved equal to the textbook permutation and sponge.
  \<^item> \<open>Uint_Collation\<close>: \<open>uintCollFunc\<close>, its reference and the laws of a collation.
  \<^item> \<open>Bytes\<close>, \<open>Base64\<close>, \<open>Base85\<close>: both directions of the two encodings, the sizes of their buffers and
    their SQL functions.
  \<^item> \<open>Ieee754\<close>: \<open>ieee754func\<close> and its relatives on 64-bit words.
  \<^item> \<open>Decimal\<close>: the decimal arithmetic; \<open>dec_val\<close> is the rational number a \<open>Decimal\<close> stands for.
    Allocation is a parameter: a failed one is a value of the model, not an assumption.
  \<^item> \<open>Generate_Series\<close>: the virtual table; the locale \<open>vtab_cursor\<close> is the contract between a table scan
    and its cursor, \<open>series\<close> interprets it.
  \<^item> \<open>Regexp\<close>: the pattern compiler, the matcher and the SQL function.  \<open>Regexp_Match\<close> gives the compiled
    code an inductive semantics as a nondeterministic automaton and proves the matcher equal to it;
    \<open>Regexp_Compile\<close> proves that compiled code never jumps outside itself and that compiling ends.

  \<^bold>\<open>The texts of the shell\<close> (\<open>Ext/sqlite/shell.c\<close>).
  \<^item> \<open>Shell_Csv\<close>: a row printed in CSV mode, the two readers of a field and the loop of \<open>.import\<close>.  The locale
    \<open>reads_fields\<close> is what the loop relies on; \<open>csv\<close> and \<open>ascii\<close> interpret it on the readers.  Importing inverts
    printing, and the import ends on every input.
  \<^item> \<open>Shell_Text\<close>: numbers, flags, the growing buffer, the splitting of a command line, and printing as an SQL
    expression, a C string, JSON and HTML.  \<open>Shell_Quote\<close> evaluates the printed SQL, \<open>Shell_Escape\<close> reads the
    printed C strings, JSON strings and HTML back.

  \<^bold>\<open>Modules of the engine\<close> (\<open>Ext/sqlite/sqlite3.c\<close>).
  \<^item> \<open>Bitvec\<close>: the bitmaps of page numbers, with allocations that may fail; they refine finite sets.
  \<^item> \<open>Row_Set\<close>: the sets of rowids, their merge sort and the forest of balanced trees; they refine batches of
    inserted rowids, and extraction is sorted and without duplicates.
  \<^item> \<open>Varint\<close>: the variable-length integers; the unrolled decoder equals the documented encoding.
  \<^item> \<open>Utf8\<close>: the character tables, reading, counting and \<open>char()\<close>.
  \<^item> \<open>Like_Glob\<close>: LIKE and GLOB; the backtracking comparison with its searches and early ends decides the
    documented rules.
  \<^item> \<open>Sql_Replace\<close>: \<open>replace()\<close> with its growing buffer.
  \<^item> \<open>Double\<close>, \<open>Sql_Dates\<close>, \<open>Sql_Calendar\<close>, \<open>Date_Texts\<close>: double precision arithmetic, the date and time
    functions with their modifiers, and their agreement with the calendar.  The day numbers count days, the
    conversion back inverts them except on one day, and texts are read and printed again.

  \<^bold>\<open>What the lemmas show.\<close>  For the seat map, the flight, the persistence manager and the windows: an
  invariant, its preservation by every operation, what each operation does on every branch, and the
  refinement of an abstract map from seats to bookings; composed, that memory and database agree after
  any run of the program.  For the shell and the engine: equality with a mathematical reference, round trips,
  the absence of overruns and overflow, termination, and the errors.  Where the code is wrong the
  theorem states what it does, and its text says so.

  \<^bold>\<open>Bounds and fuel.\<close>  \<open>int\<close> results of SQLite are cut to 32 bits; sizes are 64-bit words; the numbers
  of the seat map window are 16-bit words.  Loops are structural or have a measure;
  the statement loop of \<open>sha3_query\<close>, which need not end, is a \<open>partial_function (option)\<close>.  Fuel occurs
  in three places.  The pattern compiler recurses on parentheses and takes \<open>3 * length + 3\<close> of it, which
  \<open>Regexp_Compile\<close> proves enough, since every level consumes a character.  The last step of the matcher
  follows jumps with \<open>length code + 1\<close>, enough because the jumps of compiled code lead forward.  The scan
  of a virtual table takes a bound on its rows, and the theorem about it shows that the scan ends
  with a bound of the number of members plus two.  State numbers
  of a compiled pattern are 16 bits wide; the matcher is proved for patterns of at most 65536
  instructions, the numbers of longer ones wrap.  The allocator of the bitmaps and RowSets is a list of its
  answers, which succeeds when it is used up.  The 40 buckets of the RowSet's sort suffice for less than
  2^40 entries, which the theorems assume.

  \<^bold>\<open>Parameters.\<close>  The SQL engine, the JSON library, libcurl, the answers of ImGui, \<open>malloc\<close> in the
  extensions, the conversions of SQL values and of texts to doubles, the current time, and the conversions of time stamps, which depend on the
  time zone.  Each locale that states laws of a parameter is interpreted on a concrete instance, and
  the witnesses run on it.

  \<^bold>\<open>Not modelled.\<close>
  \<^item> Rendering and set-up of the GUI (\<open>Gui/GuiApp.cpp\<close> apart from the instance, the run flag and the
    loop) and texts that are only displayed: no effect on the state.
  \<^item> \<open>Core/Experimental\<close>: earlier versions of the classes that are not part of the build.
  \<^item> The rest of the engine (parser, code generator, virtual machine, b-trees, pager, operating system
    interface): the program's use of it rests on the parameter \<open>sqlite\<close>, whose documented behaviour is stated
    as laws.  Of the date functions \<open>strftime\<close> and \<open>timediff\<close>, and of the characters UTF-16.
  \<^item> The rest of \<open>shell.c\<close> (dot commands, line editing, the output modes other than CSV and the quoted texts,
    the file and zip virtual tables, recovery, the creation of a table by \<open>.import\<close>): mostly terminal and file
    I/O.
  \<^item> The semantics of the regular expression language itself (the relation of a pattern to its automaton)
    and the prefix shortcut \<open>zInit\<close> of the matcher: not yet proved; the automaton is the specification.
  \<^item> \<open>src/External\<close> and SQLiteCpp beyond the calls of the program: third-party libraries.
\<close>

end
